(* ===== verification/Sumpnet_Prelude.thy ===== *)
theory Sumpnet_Prelude
  imports Complex_Main "HOL-Library.Word"
begin

unbundle bit_operations_syntax

text \<open>
  Shared vocabulary of the development: the machine integers of the Go sources, instants and
  durations, the little-endian accessors of \<^verbatim>\<open>encoding/binary\<close>, and the list lemmas several
  components use.

  Conventions. An instant (\<^verbatim>\<open>time.Time\<close>) is the number of nanoseconds since the Unix epoch and a
  duration (\<^verbatim>\<open>time.Duration\<close>) a number of nanoseconds, both as \<^typ>\<open>int\<close>; monotonic clock readings
  and time zones play no part in what is modelled. Unsigned machine integers are words. Signed
  fields of rows (\<^verbatim>\<open>int32\<close>, \<^verbatim>\<open>int16\<close>) are \<^typ>\<open>int\<close> values, and every arithmetic operation on
  them that could leave the width is wrapped explicitly with \<open>wrap32\<close>. A \<^verbatim>\<open>float64\<close> is a
  \<^typ>\<open>real\<close>: rounding of floating-point operations is not modelled.
\<close>

named_theorems go_time "instants and durations unfolded to integers"
named_theorems wire "facts about the byte-level accessors"

section \<open>Machine integers\<close>

type_synonym byte = "8 word"
type_synonym uint8 = "8 word"
type_synonym uint16 = "16 word"
type_synonym uint32 = "32 word"

definition wrap32 :: "int \<Rightarrow> int" where
  "wrap32 x = (x + 2147483648) mod 4294967296 - 2147483648"

lemma wrap32_range: "- 2147483648 \<le> wrap32 x" "wrap32 x < 2147483648"
proof -
  have "0 \<le> (x + 2147483648) mod 4294967296" "(x + 2147483648) mod 4294967296 < 4294967296"
    by simp_all
  then show "- 2147483648 \<le> wrap32 x" "wrap32 x < 2147483648"
    by (simp_all add: wrap32_def)
qed

lemma wrap32_id [simp]: "- 2147483648 \<le> x \<Longrightarrow> x < 2147483648 \<Longrightarrow> wrap32 x = x"
  by (simp add: wrap32_def)

section \<open>Instants and durations\<close>

type_synonym instant = int
type_synonym duration = int

definition second :: duration where [go_time]: "second = 1000000000"
definition millisecond :: duration where [go_time]: "millisecond = 1000000"
definition minute :: duration where [go_time]: "minute = 60 * second"
definition hour :: duration where [go_time]: "hour = 60 * minute"

text \<open>The zero \<^verbatim>\<open>time.Time\<close>: January 1 of year 1, UTC.\<close>

definition zero_time :: instant where
  "zero_time = - 62135596800 * 1000000000"

definition is_zero :: "instant \<Rightarrow> bool" where
  "is_zero t = (t = zero_time)"

definition seconds_of :: "duration \<Rightarrow> real" where
  "seconds_of d = real_of_int d / 1000000000"

text \<open>Integer division as the language has it: truncated towards zero.\<close>

definition go_div :: "int \<Rightarrow> int \<Rightarrow> int" where
  "go_div a b = (if 0 \<le> a then a div b else - ((- a) div b))"

text \<open>\<^verbatim>\<open>math.Round\<close>: halves away from zero.\<close>

definition math_round :: "real \<Rightarrow> real" where
  "math_round x = (if 0 \<le> x then real_of_int \<lfloor>x + 1 / 2\<rfloor> else - real_of_int \<lfloor>- x + 1 / 2\<rfloor>)"

section \<open>Results\<close>

text \<open>Go on with a value, or return the error at once.\<close>

definition bind_sum :: "'e + 'a \<Rightarrow> ('a \<Rightarrow> 'e + 'b) \<Rightarrow> 'e + 'b" where
  "bind_sum m f = (case m of Inl e \<Rightarrow> Inl e | Inr x \<Rightarrow> f x)"

lemma bind_sum_simps [simp]: "bind_sum (Inl e) f = Inl e" "bind_sum (Inr x) f = f x"
  by (simp_all add: bind_sum_def)

lemma bind_sum_Inr_iff: "bind_sum m f = Inr y \<longleftrightarrow> (\<exists>x. m = Inr x \<and> f x = Inr y)"
  by (cases m) simp_all

section \<open>Little-endian accessors\<close>

definition put_u16 :: "uint16 \<Rightarrow> byte list" where
  "put_u16 v = [ucast v, ucast (drop_bit 8 v)]"

definition put_u32 :: "uint32 \<Rightarrow> byte list" where
  "put_u32 v = [ucast v, ucast (drop_bit 8 v), ucast (drop_bit 16 v), ucast (drop_bit 24 v)]"

definition u16_at :: "byte list \<Rightarrow> nat \<Rightarrow> uint16" where
  "u16_at b i = ucast (b ! i) OR push_bit 8 (ucast (b ! (i + 1)))"

definition u32_at :: "byte list \<Rightarrow> nat \<Rightarrow> uint32" where
  "u32_at b i = ucast (b ! i) OR push_bit 8 (ucast (b ! (i + 1)))
     OR push_bit 16 (ucast (b ! (i + 2))) OR push_bit 24 (ucast (b ! (i + 3)))"

lemma length_put [simp]: "length (put_u16 v) = 2" "length (put_u32 w) = 4"
  by (simp_all add: put_u16_def put_u32_def)

lemma join_split_u16 [wire]:
  "ucast (ucast v :: byte) OR push_bit 8 (ucast (ucast (drop_bit 8 v) :: byte)) = (v :: uint16)"
  by (rule bit_word_eqI) (auto simp: bit_simps)

lemma split_join_u16 [wire]:
  fixes a b :: byte
  shows "ucast (ucast a OR push_bit 8 (ucast b) :: uint16) = a"
    and "ucast (drop_bit 8 (ucast a OR push_bit 8 (ucast b) :: uint16)) = b"
  by (rule bit_word_eqI; auto simp: bit_simps dest: bit_imp_le_length)+

lemma join_split_u32 [wire]:
  "ucast (ucast v :: byte) OR push_bit 8 (ucast (ucast (drop_bit 8 v) :: byte))
     OR push_bit 16 (ucast (ucast (drop_bit 16 v) :: byte))
     OR push_bit 24 (ucast (ucast (drop_bit 24 v) :: byte)) = (v :: uint32)"
proof (rule bit_word_eqI)
  fix n assume "n < LENGTH(32)"
  then consider "n < 8" | "8 \<le> n \<and> n < 16" | "16 \<le> n \<and> n < 24" | "24 \<le> n \<and> n < 32"
    by force
  then show "bit (ucast (ucast v :: byte) OR push_bit 8 (ucast (ucast (drop_bit 8 v) :: byte))
     OR push_bit 16 (ucast (ucast (drop_bit 16 v) :: byte))
     OR push_bit 24 (ucast (ucast (drop_bit 24 v) :: byte)) :: uint32) n \<longleftrightarrow> bit v n"
    by cases (auto simp: bit_simps)
qed

lemma split_join_u32 [wire]:
  fixes a b c d :: byte
  defines "w \<equiv> (ucast a OR push_bit 8 (ucast b) OR push_bit 16 (ucast c) OR push_bit 24 (ucast d) :: uint32)"
  shows "ucast w = a" and "ucast (drop_bit 8 w) = b"
    and "ucast (drop_bit 16 w) = c" and "ucast (drop_bit 24 w) = d"
  unfolding w_def by (rule bit_word_eqI; auto simp: bit_simps dest: bit_imp_le_length)+

text \<open>Writing back what was read gives the bytes that were there.\<close>

lemma put_u16_at: "put_u16 (u16_at b i) = [b ! i, b ! (i + 1)]"
  by (simp only: put_u16_def u16_at_def split_join_u16)

lemma put_u32_at: "put_u32 (u32_at b i) = [b ! i, b ! (i + 1), b ! (i + 2), b ! (i + 3)]"
  by (simp only: put_u32_def u32_at_def split_join_u32)

lemmas put_at = put_u16_at put_u32_at

section \<open>Binary search\<close>

text \<open>
  \<^verbatim>\<open>sort.Search(n, f)\<close> halves the range from \<open>i\<close> up to \<open>j\<close> until it is empty. For a predicate that
  stays true once true it is the least index where it holds, or \<open>n\<close>.
\<close>

function search_loop :: "(nat \<Rightarrow> bool) \<Rightarrow> nat \<Rightarrow> nat \<Rightarrow> nat" where
  "search_loop f i j =
     (if i < j then let h = (i + j) div 2 in if \<not> f h then search_loop f (h + 1) j else search_loop f i h else i)"
  by auto
termination by (relation "measure (\<lambda>(f, i, j). j - i)") auto

declare search_loop.simps [simp del]

definition go_search :: "nat \<Rightarrow> (nat \<Rightarrow> bool) \<Rightarrow> nat" where
  "go_search n f = search_loop f 0 n"

lemma search_loop_least:
  assumes "\<And>a b. a \<le> b \<Longrightarrow> b < n \<Longrightarrow> f a \<Longrightarrow> f b"
    and "i \<le> m" "m \<le> j" "j \<le> n" "\<forall>k < m. \<not> f k" "m < n \<longrightarrow> f m"
  shows "search_loop f i j = m"
  using assms
proof (induction f i j rule: search_loop.induct)
  case (1 f i j)
  show ?case
  proof (cases "i < j")
    case True
    let ?h = "(i + j) div 2"
    have h: "i \<le> ?h" "?h < j" using True by auto
    have "f ?h \<longleftrightarrow> m \<le> ?h"
    proof
      show "f ?h \<Longrightarrow> m \<le> ?h" using 1(7) not_le by blast
      show "m \<le> ?h \<Longrightarrow> f ?h" using 1(3) [of m ?h] 1(6,8) h by linarith
    qed
    then show ?thesis using 1 True h by (simp add: search_loop.simps [of f i j] Let_def)
  next
    case False
    then show ?thesis using 1(4,5) by (simp add: search_loop.simps)
  qed
qed

text \<open>Over a list, with the first position at which the predicate holds.\<close>

lemma go_search_list:
  assumes "\<And>a b. a \<le> b \<Longrightarrow> b < length xs \<Longrightarrow> P (xs ! a) \<Longrightarrow> P (xs ! b)"
  shows "go_search (length xs) (\<lambda>k. P (xs ! k)) = length (takeWhile (\<lambda>x. \<not> P x) xs)"
  unfolding go_search_def
proof (rule search_loop_least [where n = "length xs"])
  let ?m = "length (takeWhile (\<lambda>x. \<not> P x) xs)"
  show "?m \<le> length xs" by (simp add: length_takeWhile_le)
  show "\<forall>k < ?m. \<not> P (xs ! k)" by (metis nth_mem set_takeWhileD takeWhile_nth)
  show "?m < length xs \<longrightarrow> P (xs ! ?m)" using nth_length_takeWhile [of "\<lambda>x. \<not> P x" xs] by simp
qed (use assms in auto)

section \<open>Keys of a map that is filled in a loop\<close>

text \<open>The keys in order of first appearance, after those already there.\<close>

fun first_keys :: "'a list \<Rightarrow> 'a list \<Rightarrow> 'a list" where
  "first_keys [] keys = keys"
| "first_keys (k # ks) keys = first_keys ks (if k \<in> set keys then keys else keys @ [k])"

lemma first_keys_set [simp]: "set (first_keys ks keys) = set ks \<union> set keys"
  by (induction ks arbitrary: keys) auto

lemma first_keys_distinct: "distinct keys \<Longrightarrow> distinct (first_keys ks keys)"
  by (induction ks arbitrary: keys) auto

end
