(* ===== verification/Codec.thy ===== *)
theory Codec
  imports Sumpnet_Prelude
begin

text \<open>
  The binary uplink payloads of \<^verbatim>\<open>internal/codec/codec.go\<close>: one fixed-length little-endian layout
  per LoRaWAN fPort. The records are the Go structs, \<open>MarshalBinary\<close>/\<open>UnmarshalBinary\<close> are one
  definition per payload, and \<open>Encode\<close>/\<open>Decode\<close> dispatch on the sealed union.

  The interface every payload type offers to the dispatcher is the locale \<open>payload_codec\<close>: a
  marshaller and an unmarshaller on one port that invert each other and agree on the admissible
  values. It is interpreted for the five payloads, and the theorems on \<open>Encode\<close> and \<open>Decode\<close> use
  the interpretations only.
\<close>

section \<open>Ports, lengths, flags and errors\<close>

definition PortHeartbeat :: uint8 where "PortHeartbeat = 1"
definition PortCycleEvent :: uint8 where "PortCycleEvent = 2"
definition PortAlarm :: uint8 where "PortAlarm = 3"
definition PortStormSummary :: uint8 where "PortStormSummary = 4"
definition PortRainGauge :: uint8 where "PortRainGauge = 5"

definition LenHeartbeat :: nat where "LenHeartbeat = 10"
definition LenCycleEvent :: nat where "LenCycleEvent = 11"
definition LenAlarm :: nat where "LenAlarm = 3"
definition LenStormSummary :: nat where "LenStormSummary = 9"
definition LenRainGauge :: nat where "LenRainGauge = 11"
definition MaxLen :: nat where "MaxLen = 11"

lemmas port_defs = PortHeartbeat_def PortCycleEvent_def PortAlarm_def PortStormSummary_def
  PortRainGauge_def
lemmas len_defs = LenHeartbeat_def LenCycleEvent_def LenAlarm_def LenStormSummary_def
  LenRainGauge_def MaxLen_def

text \<open>
  The three sentinel errors with the values their wrapped messages carry. The reason inside
  \<open>ErrBadValue\<close> distinguishes the messages.
\<close>

datatype bad_value =
    FlagsUndefined uint8 | ReservedNonzero uint8 | BadPumpID uint8 | BadAlarmCode uint8
  | ZeroMMPerTip | RainFlagsUndefined uint8

datatype codec_error =
    ErrUnknownPort uint8
  | ErrBadLength uint8 nat nat
  | ErrBadValue uint8 bad_value

definition FlagMainsOK :: uint8 where "FlagMainsOK = push_bit 0 1"
definition FlagFloatHigh :: uint8 where "FlagFloatHigh = push_bit 1 1"
definition FlagBackupRan :: uint8 where "FlagBackupRan = push_bit 2 1"
definition FlagSensorFault :: uint8 where "FlagSensorFault = push_bit 3 1"

definition flagsMask :: uint8 where
  "flagsMask = FlagMainsOK OR FlagFloatHigh OR FlagBackupRan OR FlagSensorFault"

definition RainCounterReset :: uint8 where "RainCounterReset = push_bit 0 1"
definition RainSensorFault :: uint8 where "RainSensorFault = push_bit 1 1"

definition rainFlagsMask :: uint8 where
  "rainFlagsMask = RainCounterReset OR RainSensorFault"

definition Has :: "uint8 \<Rightarrow> uint8 \<Rightarrow> bool" where
  "Has f x = (f AND x = x)"

definition PumpPrimary :: uint8 where "PumpPrimary = 0"
definition PumpBackup :: uint8 where "PumpBackup = 1"

definition AlarmFloatHigh :: uint8 where "AlarmFloatHigh = 1"
definition AlarmMainsLost :: uint8 where "AlarmMainsLost = 2"
definition AlarmDryRun :: uint8 where "AlarmDryRun = 3"
definition AlarmContinuousRun :: uint8 where "AlarmContinuousRun = 4"
definition AlarmSensorFault :: uint8 where "AlarmSensorFault = 5"

lemmas flag_defs = flagsMask_def FlagMainsOK_def FlagFloatHigh_def FlagBackupRan_def
  FlagSensorFault_def rainFlagsMask_def RainCounterReset_def RainSensorFault_def

section \<open>Payloads\<close>

text \<open>\<open>hb_TempCentiC\<close> is an \<^verbatim>\<open>int16\<close>; its two's-complement bits are what the wire carries.\<close>

record heartbeat =
  hb_LevelMM :: uint16
  hb_TempCentiC :: uint16
  hb_RHPct :: uint8
  hb_BattMV :: uint16
  hb_CyclesSinceLast :: uint8
  hb_Flags :: uint8
  hb_Reserved :: uint8

record cycle_event =
  ce_StartOffsetS :: uint16
  ce_RunS :: uint16
  ce_PeakCurrentDA :: uint16
  ce_LevelStartMM :: uint16
  ce_LevelEndMM :: uint16
  ce_PumpID :: uint8

record alarm =
  al_Code :: uint8
  al_Value :: uint16

record storm_summary =
  ss_Count :: uint8
  ss_WindowS :: uint16
  ss_TotalRunS :: uint16
  ss_MaxPeakCurrentDA :: uint16
  ss_MinLevelMM :: uint16

record rain_gauge =
  rg_TipCount :: uint32
  rg_MMPerTipUM :: uint16
  rg_IntervalS :: uint16
  rg_BattMV :: uint16
  rg_Flags :: uint8

datatype uplink =
    Heartbeat heartbeat
  | CycleEvent cycle_event
  | Alarm alarm
  | StormSummary storm_summary
  | RainGauge rain_gauge

fun Port :: "uplink \<Rightarrow> uint8" where
  "Port (Heartbeat _) = PortHeartbeat"
| "Port (CycleEvent _) = PortCycleEvent"
| "Port (Alarm _) = PortAlarm"
| "Port (StormSummary _) = PortStormSummary"
| "Port (RainGauge _) = PortRainGauge"

text \<open>Depth in millimetres of a number of tips.\<close>

definition MM :: "rain_gauge \<Rightarrow> uint32 \<Rightarrow> real" where
  "MM r tips = real (unat tips) * real (unat (rg_MMPerTipUM r)) / 1000"

definition checkLen :: "uint8 \<Rightarrow> nat \<Rightarrow> byte list \<Rightarrow> codec_error option" where
  "checkLen port want b =
     (if length b \<noteq> want then Some (ErrBadLength port want (length b)) else None)"

section \<open>Marshalling and unmarshalling\<close>

definition marshal_heartbeat :: "heartbeat \<Rightarrow> codec_error + byte list" where
  "marshal_heartbeat h =
     (if hb_Flags h AND NOT flagsMask \<noteq> 0
      then Inl (ErrBadValue 1 (FlagsUndefined (hb_Flags h)))
      else if hb_Reserved h \<noteq> 0 then Inl (ErrBadValue 1 (ReservedNonzero (hb_Reserved h)))
      else Inr (put_u16 (hb_LevelMM h) @ put_u16 (hb_TempCentiC h) @ [hb_RHPct h]
        @ put_u16 (hb_BattMV h) @ [hb_CyclesSinceLast h, hb_Flags h, hb_Reserved h]))"

definition unmarshal_heartbeat :: "byte list \<Rightarrow> codec_error + heartbeat" where
  "unmarshal_heartbeat b =
     (case checkLen PortHeartbeat LenHeartbeat b of Some e \<Rightarrow> Inl e
      | None \<Rightarrow>
        (if b ! 8 AND NOT flagsMask \<noteq> 0 then Inl (ErrBadValue 1 (FlagsUndefined (b ! 8)))
         else if b ! 9 \<noteq> 0 then Inl (ErrBadValue 1 (ReservedNonzero (b ! 9)))
         else Inr \<lparr>hb_LevelMM = u16_at b 0, hb_TempCentiC = u16_at b 2, hb_RHPct = b ! 4,
           hb_BattMV = u16_at b 5, hb_CyclesSinceLast = b ! 7, hb_Flags = b ! 8,
           hb_Reserved = b ! 9\<rparr>))"

definition marshal_cycle :: "cycle_event \<Rightarrow> codec_error + byte list" where
  "marshal_cycle c =
     (if ce_PumpID c > PumpBackup then Inl (ErrBadValue 2 (BadPumpID (ce_PumpID c)))
      else Inr (put_u16 (ce_StartOffsetS c) @ put_u16 (ce_RunS c) @ put_u16 (ce_PeakCurrentDA c)
        @ put_u16 (ce_LevelStartMM c) @ put_u16 (ce_LevelEndMM c) @ [ce_PumpID c]))"

definition unmarshal_cycle :: "byte list \<Rightarrow> codec_error + cycle_event" where
  "unmarshal_cycle b =
     (case checkLen PortCycleEvent LenCycleEvent b of Some e \<Rightarrow> Inl e
      | None \<Rightarrow>
        (if b ! 10 > PumpBackup then Inl (ErrBadValue 2 (BadPumpID (b ! 10)))
         else Inr \<lparr>ce_StartOffsetS = u16_at b 0, ce_RunS = u16_at b 2,
           ce_PeakCurrentDA = u16_at b 4, ce_LevelStartMM = u16_at b 6,
           ce_LevelEndMM = u16_at b 8, ce_PumpID = b ! 10\<rparr>))"

definition marshal_alarm :: "alarm \<Rightarrow> codec_error + byte list" where
  "marshal_alarm a =
     (if al_Code a < AlarmFloatHigh \<or> al_Code a > AlarmSensorFault
      then Inl (ErrBadValue 3 (BadAlarmCode (al_Code a)))
      else Inr ([al_Code a] @ put_u16 (al_Value a)))"

definition unmarshal_alarm :: "byte list \<Rightarrow> codec_error + alarm" where
  "unmarshal_alarm b =
     (case checkLen PortAlarm LenAlarm b of Some e \<Rightarrow> Inl e
      | None \<Rightarrow>
        (if b ! 0 < AlarmFloatHigh \<or> b ! 0 > AlarmSensorFault
         then Inl (ErrBadValue 3 (BadAlarmCode (b ! 0)))
         else Inr \<lparr>al_Code = b ! 0, al_Value = u16_at b 1\<rparr>))"

definition marshal_summary :: "storm_summary \<Rightarrow> codec_error + byte list" where
  "marshal_summary s =
     Inr ([ss_Count s] @ put_u16 (ss_WindowS s) @ put_u16 (ss_TotalRunS s)
       @ put_u16 (ss_MaxPeakCurrentDA s) @ put_u16 (ss_MinLevelMM s))"

definition unmarshal_summary :: "byte list \<Rightarrow> codec_error + storm_summary" where
  "unmarshal_summary b =
     (case checkLen PortStormSummary LenStormSummary b of Some e \<Rightarrow> Inl e
      | None \<Rightarrow> Inr \<lparr>ss_Count = b ! 0, ss_WindowS = u16_at b 1, ss_TotalRunS = u16_at b 3,
          ss_MaxPeakCurrentDA = u16_at b 5, ss_MinLevelMM = u16_at b 7\<rparr>)"

definition checkRain :: "uint16 \<Rightarrow> uint8 \<Rightarrow> codec_error option" where
  "checkRain tipUM flags =
     (if tipUM = 0 then Some (ErrBadValue 5 ZeroMMPerTip)
      else if flags AND NOT rainFlagsMask \<noteq> 0
        then Some (ErrBadValue 5 (RainFlagsUndefined flags))
      else None)"

definition marshal_rain :: "rain_gauge \<Rightarrow> codec_error + byte list" where
  "marshal_rain r =
     (case checkRain (rg_MMPerTipUM r) (rg_Flags r) of Some e \<Rightarrow> Inl e
      | None \<Rightarrow> Inr (put_u32 (rg_TipCount r) @ put_u16 (rg_MMPerTipUM r)
          @ put_u16 (rg_IntervalS r) @ put_u16 (rg_BattMV r) @ [rg_Flags r]))"

definition unmarshal_rain :: "byte list \<Rightarrow> codec_error + rain_gauge" where
  "unmarshal_rain b =
     (case checkLen PortRainGauge LenRainGauge b of Some e \<Rightarrow> Inl e
      | None \<Rightarrow>
        (let v = \<lparr>rg_TipCount = u32_at b 0, rg_MMPerTipUM = u16_at b 4,
                  rg_IntervalS = u16_at b 6, rg_BattMV = u16_at b 8, rg_Flags = b ! 10\<rparr>
         in case checkRain (rg_MMPerTipUM v) (rg_Flags v) of Some e \<Rightarrow> Inl e | None \<Rightarrow> Inr v))"

section \<open>Dispatch\<close>

fun MarshalBinary :: "uplink \<Rightarrow> codec_error + byte list" where
  "MarshalBinary (Heartbeat h) = marshal_heartbeat h"
| "MarshalBinary (CycleEvent c) = marshal_cycle c"
| "MarshalBinary (Alarm a) = marshal_alarm a"
| "MarshalBinary (StormSummary s) = marshal_summary s"
| "MarshalBinary (RainGauge r) = marshal_rain r"

definition Decode :: "uint8 \<Rightarrow> byte list \<Rightarrow> codec_error + uplink" where
  "Decode fPort b =
     (if fPort = PortHeartbeat then map_sum id Heartbeat (unmarshal_heartbeat b)
      else if fPort = PortCycleEvent then map_sum id CycleEvent (unmarshal_cycle b)
      else if fPort = PortAlarm then map_sum id Alarm (unmarshal_alarm b)
      else if fPort = PortStormSummary then map_sum id StormSummary (unmarshal_summary b)
      else if fPort = PortRainGauge then map_sum id RainGauge (unmarshal_rain b)
      else Inl (ErrUnknownPort fPort))"

definition Encode :: "uplink \<Rightarrow> codec_error + (uint8 \<times> byte list)" where
  "Encode u = (case MarshalBinary u of Inl e \<Rightarrow> Inl e | Inr b \<Rightarrow> Inr (Port u, b))"

section \<open>The contract of one payload type\<close>

locale payload_codec =
  fixes port :: uint8
    and len :: nat
    and valid :: "'a \<Rightarrow> bool"
    and marshal :: "'a \<Rightarrow> codec_error + byte list"
    and unmarshal :: "byte list \<Rightarrow> codec_error + 'a"
  assumes marshal_length: "marshal x = Inr b \<Longrightarrow> length b = len"
    and unmarshal_marshal: "marshal x = Inr b \<Longrightarrow> unmarshal b = Inr x"
    and marshal_unmarshal: "unmarshal b = Inr x \<Longrightarrow> marshal x = Inr b"
    and marshal_defined: "(\<exists>b. marshal x = Inr b) \<longleftrightarrow> valid x"
    and wrong_length: "length b \<noteq> len \<Longrightarrow> unmarshal b = Inl (ErrBadLength port len (length b))"
    and right_length: "length b = len \<Longrightarrow> unmarshal b = Inl e \<Longrightarrow> \<exists>v. e = ErrBadValue port v"
    and bounded: "len \<le> MaxLen"
begin

lemma decode_iff_encode: "unmarshal b = Inr x \<longleftrightarrow> marshal x = Inr b"
  by (auto intro: unmarshal_marshal marshal_unmarshal)

lemma decoded_valid: "unmarshal b = Inr x \<Longrightarrow> valid x"
  using marshal_defined marshal_unmarshal by blast

lemma encoded_unique: "marshal x = Inr b \<Longrightarrow> marshal y = Inr b \<Longrightarrow> x = y"
  by (metis sum.inject(2) unmarshal_marshal)

lemma length_of_decoded: "unmarshal b = Inr x \<Longrightarrow> length b = len"
  using marshal_length marshal_unmarshal by blast

lemma encoded_length: "marshal x = Inr b \<Longrightarrow> length b \<le> MaxLen"
  using marshal_length bounded by fastforce

end

section \<open>The five payloads satisfy the contract\<close>

definition valid_heartbeat :: "heartbeat \<Rightarrow> bool" where
  "valid_heartbeat h \<longleftrightarrow> hb_Flags h AND NOT flagsMask = 0 \<and> hb_Reserved h = 0"

definition valid_cycle :: "cycle_event \<Rightarrow> bool" where
  "valid_cycle c \<longleftrightarrow> ce_PumpID c \<le> PumpBackup"

definition valid_alarm :: "alarm \<Rightarrow> bool" where
  "valid_alarm a \<longleftrightarrow> AlarmFloatHigh \<le> al_Code a \<and> al_Code a \<le> AlarmSensorFault"

definition valid_summary :: "storm_summary \<Rightarrow> bool" where
  "valid_summary s \<longleftrightarrow> True"

definition valid_rain :: "rain_gauge \<Rightarrow> bool" where
  "valid_rain r \<longleftrightarrow> rg_MMPerTipUM r \<noteq> 0 \<and> rg_Flags r AND NOT rainFlagsMask = 0"

lemmas accessor_defs = put_u16_def put_u32_def u16_at_def u32_at_def

text \<open>A list of known length, spelled out byte by byte.\<close>

lemma bytes3: "length b = 3 \<Longrightarrow> b = [b ! 0, b ! 1, b ! 2]"
  by (rule nth_equalityI) (auto simp: less_Suc_eq numeral_eq_Suc)

lemma bytes9: "length b = 9 \<Longrightarrow> b = [b ! 0, b ! 1, b ! 2, b ! 3, b ! 4, b ! 5, b ! 6, b ! 7, b ! 8]"
  by (rule nth_equalityI) (auto simp: less_Suc_eq numeral_eq_Suc)

lemma bytes10: "length b = 10 \<Longrightarrow>
    b = [b ! 0, b ! 1, b ! 2, b ! 3, b ! 4, b ! 5, b ! 6, b ! 7, b ! 8, b ! 9]"
  by (rule nth_equalityI) (auto simp: less_Suc_eq numeral_eq_Suc)

lemma bytes11: "length b = 11 \<Longrightarrow>
    b = [b ! 0, b ! 1, b ! 2, b ! 3, b ! 4, b ! 5, b ! 6, b ! 7, b ! 8, b ! 9, b ! 10]"
  by (rule nth_equalityI) (auto simp: less_Suc_eq numeral_eq_Suc)

interpretation heartbeat_wire: payload_codec PortHeartbeat LenHeartbeat valid_heartbeat
  marshal_heartbeat unmarshal_heartbeat
proof unfold_locales
  fix b :: "byte list" and x :: heartbeat
  assume dec: "unmarshal_heartbeat b = Inr x"
  then have "length b = 10"
    by (simp add: unmarshal_heartbeat_def checkLen_def LenHeartbeat_def split: if_splits)
  note b = bytes10 [OF this]
  from dec show "marshal_heartbeat x = Inr b"
    by (subst b) (auto simp: unmarshal_heartbeat_def marshal_heartbeat_def checkLen_def
        put_at Let_def eval_nat_numeral split: if_splits)
qed (auto simp: marshal_heartbeat_def unmarshal_heartbeat_def checkLen_def len_defs port_defs
    accessor_defs wire valid_heartbeat_def split: if_splits)

interpretation cycle_wire: payload_codec PortCycleEvent LenCycleEvent valid_cycle
  marshal_cycle unmarshal_cycle
proof unfold_locales
  fix b :: "byte list" and x :: cycle_event
  assume dec: "unmarshal_cycle b = Inr x"
  then have "length b = 11"
    by (simp add: unmarshal_cycle_def checkLen_def LenCycleEvent_def split: if_splits)
  note b = bytes11 [OF this]
  from dec show "marshal_cycle x = Inr b"
    by (subst b) (auto simp: unmarshal_cycle_def marshal_cycle_def checkLen_def
        put_at Let_def eval_nat_numeral split: if_splits)
qed (auto simp: marshal_cycle_def unmarshal_cycle_def checkLen_def len_defs port_defs
    accessor_defs wire valid_cycle_def split: if_splits)

interpretation alarm_wire: payload_codec PortAlarm LenAlarm valid_alarm
  marshal_alarm unmarshal_alarm
proof unfold_locales
  fix b :: "byte list" and x :: alarm
  assume dec: "unmarshal_alarm b = Inr x"
  then have "length b = 3"
    by (simp add: unmarshal_alarm_def checkLen_def LenAlarm_def split: if_splits)
  note b = bytes3 [OF this]
  from dec show "marshal_alarm x = Inr b"
    by (subst b) (auto simp: unmarshal_alarm_def marshal_alarm_def checkLen_def
        put_at Let_def eval_nat_numeral split: if_splits)
qed (auto simp: marshal_alarm_def unmarshal_alarm_def checkLen_def len_defs port_defs
    accessor_defs wire valid_alarm_def not_less split: if_splits)

interpretation summary_wire: payload_codec PortStormSummary LenStormSummary valid_summary
  marshal_summary unmarshal_summary
proof unfold_locales
  fix b :: "byte list" and x :: storm_summary
  assume dec: "unmarshal_summary b = Inr x"
  then have "length b = 9"
    by (simp add: unmarshal_summary_def checkLen_def LenStormSummary_def split: if_splits)
  note b = bytes9 [OF this]
  from dec show "marshal_summary x = Inr b"
    by (subst b) (auto simp: unmarshal_summary_def marshal_summary_def checkLen_def
        put_at Let_def eval_nat_numeral split: if_splits)
qed (auto simp: marshal_summary_def unmarshal_summary_def checkLen_def len_defs port_defs
    accessor_defs wire valid_summary_def split: if_splits)

interpretation rain_wire: payload_codec PortRainGauge LenRainGauge valid_rain
  marshal_rain unmarshal_rain
proof unfold_locales
  fix b :: "byte list" and x :: rain_gauge
  assume dec: "unmarshal_rain b = Inr x"
  then have "length b = 11"
    by (simp add: unmarshal_rain_def checkLen_def LenRainGauge_def split: if_splits)
  note b = bytes11 [OF this]
  from dec show "marshal_rain x = Inr b"
    by (subst b) (auto simp: unmarshal_rain_def marshal_rain_def checkLen_def checkRain_def
        put_at Let_def eval_nat_numeral split: if_splits)
qed (auto simp: marshal_rain_def unmarshal_rain_def checkLen_def checkRain_def len_defs port_defs
    accessor_defs wire valid_rain_def Let_def split: if_splits)

section \<open>Properties of the dispatcher\<close>

fun valid_uplink :: "uplink \<Rightarrow> bool" where
  "valid_uplink (Heartbeat h) = valid_heartbeat h"
| "valid_uplink (CycleEvent c) = valid_cycle c"
| "valid_uplink (Alarm a) = valid_alarm a"
| "valid_uplink (StormSummary s) = valid_summary s"
| "valid_uplink (RainGauge r) = valid_rain r"

text \<open>The fixed length of each port, as the package documents it.\<close>

definition port_len :: "uint8 \<Rightarrow> nat option" where
  "port_len = map_of [(PortHeartbeat, LenHeartbeat), (PortCycleEvent, LenCycleEvent),
     (PortAlarm, LenAlarm), (PortStormSummary, LenStormSummary), (PortRainGauge, LenRainGauge)]"

lemma marshal_defined_uplink: "(\<exists>b. MarshalBinary u = Inr b) \<longleftrightarrow> valid_uplink u"
  by (cases u) (simp_all add: heartbeat_wire.marshal_defined cycle_wire.marshal_defined
      alarm_wire.marshal_defined summary_wire.marshal_defined rain_wire.marshal_defined)

lemma marshal_length_uplink: "MarshalBinary u = Inr b \<Longrightarrow> port_len (Port u) = Some (length b)"
  by (cases u) (auto simp: port_len_def port_defs dest!: heartbeat_wire.marshal_length
      cycle_wire.marshal_length alarm_wire.marshal_length summary_wire.marshal_length
      rain_wire.marshal_length)

lemma Encode_iff: "Encode u = Inr (p, b) \<longleftrightarrow> MarshalBinary u = Inr b \<and> p = Port u"
  by (auto simp: Encode_def split: sum.splits)

lemma map_sum_Inr_iff: "map_sum id f s = Inr y \<longleftrightarrow> (\<exists>x. s = Inr x \<and> y = f x)"
  by (cases s) auto

lemma map_sum_Inl_iff: "map_sum id f s = Inl e \<longleftrightarrow> s = Inl e"
  by (cases s) auto

lemma port_len_cases:
  "port_len p = Some n \<Longrightarrow> p = PortHeartbeat \<and> n = LenHeartbeat \<or> p = PortCycleEvent \<and> n = LenCycleEvent
     \<or> p = PortAlarm \<and> n = LenAlarm \<or> p = PortStormSummary \<and> n = LenStormSummary
     \<or> p = PortRainGauge \<and> n = LenRainGauge"
  unfolding port_len_def by (simp split: if_splits)

lemma Decode_unknown: "port_len p = None \<Longrightarrow> Decode p b = Inl (ErrUnknownPort p)"
  unfolding port_len_def Decode_def by (simp split: if_splits)

lemma Decode_on_port:
  "Decode PortHeartbeat b = map_sum id Heartbeat (unmarshal_heartbeat b)"
  "Decode PortCycleEvent b = map_sum id CycleEvent (unmarshal_cycle b)"
  "Decode PortAlarm b = map_sum id Alarm (unmarshal_alarm b)"
  "Decode PortStormSummary b = map_sum id StormSummary (unmarshal_summary b)"
  "Decode PortRainGauge b = map_sum id RainGauge (unmarshal_rain b)"
  by (simp_all add: Decode_def port_defs)

lemma Decode_bad_length:
  assumes "port_len p = Some n" and len: "length b \<noteq> n"
  shows "Decode p b = Inl (ErrBadLength p n (length b))"
  using port_len_cases [OF assms(1)] len
  by (elim disjE conjE) (simp_all only: Decode_on_port map_sum.simps id_apply simp_thms
      heartbeat_wire.wrong_length cycle_wire.wrong_length alarm_wire.wrong_length
      summary_wire.wrong_length rain_wire.wrong_length)

lemma Decode_good_length:
  assumes "port_len p = Some n" and len: "length b = n" and err: "Decode p b = Inl e"
  shows "\<exists>v. e = ErrBadValue p v"
  using port_len_cases [OF assms(1)] len err
  by (elim disjE conjE) (simp_all only: Decode_on_port map_sum_Inl_iff heartbeat_wire.right_length
      cycle_wire.right_length alarm_wire.right_length summary_wire.right_length
      rain_wire.right_length)

lemma Decode_eq_MarshalBinary: "Decode p b = Inr u \<longleftrightarrow> MarshalBinary u = Inr b \<and> p = Port u"
  by (cases u) (auto simp: Decode_def map_sum_Inr_iff port_defs heartbeat_wire.decode_iff_encode
      cycle_wire.decode_iff_encode alarm_wire.decode_iff_encode summary_wire.decode_iff_encode
      rain_wire.decode_iff_encode split: if_splits)

lemma bits_above:
  "n < 8 \<Longrightarrow> (x :: uint8) AND NOT (mask n) \<noteq> 0 \<longleftrightarrow> 2 ^ n \<le> x"
proof -
  assume n: "n < 8"
  have "x AND NOT (mask n) = 0 \<longleftrightarrow> x AND mask n = x" by (auto simp: bit_eq_iff bit_simps)
  also have "\<dots> \<longleftrightarrow> x < 2 ^ n"
    using n and_mask_less_size [of n x] less_mask_eq [of x n] by (auto simp: word_size)
  finally show ?thesis by (simp add: linorder_not_less [symmetric])
qed
lemma mask_of_flags: "flagsMask = mask 4" "rainFlagsMask = mask 2"
  by (simp_all add: flag_defs mask_eq_decr_exp)
lemma undefined_flags:
  "x AND NOT flagsMask \<noteq> 0 \<longleftrightarrow> 16 \<le> x" "x AND NOT rainFlagsMask \<noteq> 0 \<longleftrightarrow> 4 \<le> x"
  using bits_above [of 4 x] bits_above [of 2 x] by (simp_all add: mask_of_flags)

lemma word16_bytes:
  "(ucast (x :: uint8) OR push_bit 8 (ucast y) :: uint16) = 0 \<longleftrightarrow> x = 0 \<and> (y :: uint8) = 0"
proof
  assume 0: "(ucast x OR push_bit 8 (ucast y) :: uint16) = 0"
  have "ucast (ucast x OR push_bit 8 (ucast y) :: uint16) = x"
    "ucast (drop_bit 8 (ucast x OR push_bit 8 (ucast y) :: uint16)) = y"
    by (rule bit_word_eqI, auto simp: bit_simps dest: bit_imp_le_length)+
  with 0 show "x = 0 \<and> y = 0" by (metis ucast_0 drop_bit_of_0)
qed simp

lemma u16_at_zero: "u16_at b i = 0 \<longleftrightarrow> b ! i = 0 \<and> b ! (i + 1) = 0"
  unfolding u16_at_def by (rule word16_bytes)

text \<open>
  The defect of a frame of the right length, read off its bytes by their position in
  the table of \<^verbatim>\<open>prompt_plan.md\<close>: the offending byte of each port, in the order the checks are made.
\<close>

definition frame_defect :: "uint8 \<Rightarrow> byte list \<Rightarrow> bad_value option" where
  "frame_defect p b =
     (if p = 1 then
        if 16 \<le> b ! 8 then Some (FlagsUndefined (b ! 8))
        else if b ! 9 \<noteq> 0 then Some (ReservedNonzero (b ! 9)) else None
      else if p = 2 then if 2 \<le> b ! 10 then Some (BadPumpID (b ! 10)) else None
      else if p = 3 then if b ! 0 = 0 \<or> 6 \<le> b ! 0 then Some (BadAlarmCode (b ! 0)) else None
      else if p = 5 then
        if b ! 4 = 0 \<and> b ! 5 = 0 then Some ZeroMMPerTip
        else if 4 \<le> b ! 10 then Some (RainFlagsUndefined (b ! 10)) else None
      else None)"


lemma byte_order:
  "(x :: uint8) < 1 \<longleftrightarrow> x = 0" "x > 1 \<longleftrightarrow> 2 \<le> x" "x > 5 \<longleftrightarrow> 6 \<le> x"
  by (auto simp: word_less_nat_alt word_le_nat_alt unat_eq_0)

lemma Decode_defect:
  assumes "port_len p = Some n" "length b = n"
  shows "Decode p b = Inl e \<longleftrightarrow> (\<exists>v. e = ErrBadValue p v \<and> frame_defect p b = Some v)"
  using port_len_cases [OF assms(1)] assms(2)
  by (elim disjE conjE) (auto simp: Decode_def frame_defect_def checkLen_def port_defs
      unmarshal_heartbeat_def unmarshal_cycle_def unmarshal_alarm_def unmarshal_summary_def
      unmarshal_rain_def checkRain_def undefined_flags u16_at_zero byte_order
      PumpBackup_def AlarmFloatHigh_def AlarmSensorFault_def Let_def
      simp del: linorder_not_le linorder_not_less)

text \<open>
  C1: the codec is a bijection between valid payloads and accepted frames. A frame decodes to
  exactly the payload whose encoding it is, so decoding inverts encoding, and a frame that would
  not be reproduced byte for byte by \<^verbatim>\<open>Encode\<close> is refused by \<^verbatim>\<open>Decode\<close>.
\<close>

theorem codec_roundtrip: "Decode p b = Inr u \<longleftrightarrow> Encode u = Inr (p, b)"
  by (simp add: Decode_eq_MarshalBinary Encode_iff)

text \<open>
  C2: what \<^verbatim>\<open>Decode\<close> answers in every case. An fPort outside 1 to 5 is an unknown port; a payload
  whose length is not the port's is a bad length naming both lengths; a frame of the right length
  with a defect (\<open>frame_defect\<close>, stated on the raw bytes) is refused with exactly that bad value;
  every other frame decodes to the valid uplink of that port whose encoding it is.
\<close>

theorem decode_outcome:
  "case port_len p of
     None \<Rightarrow> Decode p b = Inl (ErrUnknownPort p)
   | Some n \<Rightarrow>
       if length b \<noteq> n then Decode p b = Inl (ErrBadLength p n (length b))
       else (case frame_defect p b of
           Some v \<Rightarrow> Decode p b = Inl (ErrBadValue p v)
         | None \<Rightarrow> \<exists>u. Decode p b = Inr u \<and> Encode u = Inr (p, b) \<and> Port u = p \<and> valid_uplink u)"
proof (cases "port_len p")
  case (Some n)
  show ?thesis
  proof (cases "length b = n")
    case True
    show ?thesis
    proof (cases "Decode p b")
      case (Inl e)
      then show ?thesis using Some True Decode_defect [OF Some True, of e] by auto
    next
      case (Inr u)
      then have "MarshalBinary u = Inr b" "p = Port u"
        by (simp_all add: Decode_eq_MarshalBinary)
      moreover have "frame_defect p b = None"
        using Decode_defect [OF Some True] Inr by (cases "frame_defect p b") auto
      ultimately show ?thesis
        using Inr Some True marshal_defined_uplink [of u] by (auto simp: Encode_iff)
    qed
  qed (use Some Decode_bad_length in auto)
qed (simp add: Decode_unknown)

text \<open>
  encoding succeeds exactly on the payloads with admissible field values, always on the
  payload's own port, and every frame it produces fits the 11-byte limit of US915 DR0.
\<close>

theorem encode_total:
  "(\<exists>p b. Encode u = Inr (p, b) \<and> p = Port u \<and> port_len p = Some (length b) \<and> length b \<le> MaxLen)
     \<longleftrightarrow> valid_uplink u"
proof
  assume "valid_uplink u"
  then obtain b where b: "MarshalBinary u = Inr b"
    using marshal_defined_uplink by blast
  then have "port_len (Port u) = Some (length b)"
    by (rule marshal_length_uplink)
  moreover from this have "length b \<le> MaxLen"
    by (auto dest!: port_len_cases simp: len_defs)
  ultimately show "\<exists>p b. Encode u = Inr (p, b) \<and> p = Port u \<and> port_len p = Some (length b) \<and> length b \<le> MaxLen"
    using b by (auto simp: Encode_iff)
qed (auto simp: Encode_iff simp flip: marshal_defined_uplink)

end
