(* ===== verification/Hydrology.thy ===== *)
theory Hydrology
  imports Sumpnet_Prelude
begin

text \<open>
  The pump-cycle definitions of \<^verbatim>\<open>internal/hydrology/hydrology.go\<close>: what counts as a cycle, a dry
  run, a continuous run, short cycling and a rising level. Levels are sensor-to-water distances,
  so a positive drop means the water fell. Row fields of type \<^verbatim>\<open>int32\<close> are \<^typ>\<open>int\<close>; the two
  subtractions the package performs at that width are wrapped.
\<close>

section \<open>Thresholds and cycles\<close>

definition CycleMinRunS :: int where "CycleMinRunS = 3"
definition CycleMinDropMM :: int where "CycleMinDropMM = 20"
definition DryRunMinRunS :: int where "DryRunMinRunS = 30"
definition DryRunMaxDropMM :: int where "DryRunMaxDropMM = 5"
definition ShortCycleGap :: duration where "ShortCycleGap = 60 * second"
definition ShortCycleMinCount :: nat where "ShortCycleMinCount = 5"
definition ContinuousRun :: duration where "ContinuousRun = 10 * minute"

lemmas cycle_thresholds = CycleMinRunS_def CycleMinDropMM_def DryRunMinRunS_def
  DryRunMaxDropMM_def ShortCycleGap_def ShortCycleMinCount_def ContinuousRun_def

record cycle =
  cy_StartedAt :: instant
  cy_RunS :: int
  cy_LevelStartMM :: int
  cy_LevelEndMM :: int
  cy_Pump :: string

definition EndedAt :: "cycle \<Rightarrow> instant" where
  "EndedAt c = cy_StartedAt c + cy_RunS c * second"

definition DropMM :: "cycle \<Rightarrow> int" where
  "DropMM c = wrap32 (cy_LevelEndMM c - cy_LevelStartMM c)"

definition IsCycle :: "cycle \<Rightarrow> bool" where
  "IsCycle c \<longleftrightarrow> cy_RunS c \<ge> CycleMinRunS \<and> DropMM c \<ge> CycleMinDropMM"

definition IsDryRun :: "cycle \<Rightarrow> bool" where
  "IsDryRun c \<longleftrightarrow> cy_RunS c \<ge> DryRunMinRunS \<and> DropMM c < DryRunMaxDropMM"

definition IsContinuousRun :: "cycle \<Rightarrow> bool" where
  "IsContinuousRun c \<longleftrightarrow> cy_RunS c * second > ContinuousRun"

section \<open>Short cycling\<close>

text \<open>
  The loop of \<^verbatim>\<open>ShortCyclingRun\<close> walks from the last cycle backwards while the idle gap before a
  cycle is short; here it walks the reversed list, \<open>run\<close> being the loop's counter.
\<close>

fun short_cycling_loop :: "cycle list \<Rightarrow> nat \<Rightarrow> nat" where
  "short_cycling_loop (c # p # rest) run =
     (let gap = cy_StartedAt c - EndedAt p
      in if gap \<ge> ShortCycleGap then run else short_cycling_loop (p # rest) (run + 1))"
| "short_cycling_loop _ run = run"

definition ShortCyclingRun :: "cycle list \<Rightarrow> nat" where
  "ShortCyclingRun cs = (if length cs = 0 then 0 else short_cycling_loop (rev cs) 1)"

definition SummaryShortCycling :: "int \<Rightarrow> int \<Rightarrow> bool" where
  "SummaryShortCycling count windowS \<longleftrightarrow>
     count \<ge> int ShortCycleMinCount \<and> windowS > 0
     \<and> real_of_int windowS / real_of_int count \<le> seconds_of ShortCycleGap"

section \<open>Volumes and rising levels\<close>

definition EstVolumeL :: "real \<Rightarrow> cycle \<Rightarrow> real" where
  "EstVolumeL pitAreaM2 c = pitAreaM2 * real_of_int (DropMM c)"

fun falling_distances :: "int list \<Rightarrow> bool" where
  "falling_distances (a # b # rest) = (if b \<ge> a then False else falling_distances (b # rest))"
| "falling_distances _ = True"

definition LevelRising :: "int list \<Rightarrow> int \<Rightarrow> bool" where
  "LevelRising distancesMM minTotalMM =
     (if length distancesMM < 2 then False
      else if \<not> falling_distances distancesMM then False
      else wrap32 (hd distancesMM - last distancesMM) \<ge> minTotalMM)"

section \<open>Facts the rules rely on\<close>

lemma dry_run_not_cycle: "IsDryRun c \<Longrightarrow> \<not> IsCycle c"
  by (simp add: IsDryRun_def IsCycle_def cycle_thresholds)

lemma continuous_run_seconds: "IsContinuousRun c \<longleftrightarrow> cy_RunS c > 600"
  by (simp add: IsContinuousRun_def ContinuousRun_def minute_def second_def)

lemma SummaryShortCycling_int:
  "SummaryShortCycling count windowS \<longleftrightarrow> 5 \<le> count \<and> 0 < windowS \<and> windowS \<le> 60 * count"
proof (cases "5 \<le> count")
  case True
  then have "real_of_int windowS / real_of_int count \<le> 60 \<longleftrightarrow> real_of_int windowS \<le> real_of_int (60 * count)"
    by (simp add: divide_le_eq)
  also have "\<dots> \<longleftrightarrow> windowS \<le> 60 * count"
    by (simp only: of_int_le_iff)
  finally show ?thesis
    using True by (simp add: SummaryShortCycling_def cycle_thresholds second_def seconds_of_def)
qed (simp add: SummaryShortCycling_def cycle_thresholds)

text \<open>Two consecutive cycles of a series are close when the idle gap between them is short.\<close>

definition close :: "cycle \<Rightarrow> cycle \<Rightarrow> bool" where
  "close p c \<longleftrightarrow> cy_StartedAt c - EndedAt p < ShortCycleGap"

fun all_close :: "cycle list \<Rightarrow> bool" where
  "all_close (p # c # rest) = (close p c \<and> all_close (c # rest))"
| "all_close _ = True"

lemma all_close_snoc:
  "all_close (xs @ [p, c]) \<longleftrightarrow> all_close (xs @ [p]) \<and> close p c"
  by (induction xs rule: all_close.induct) (auto simp: neq_Nil_conv)

lemma short_cycling_loop_shift: "short_cycling_loop cs (run + n) = short_cycling_loop cs run + n"
  by (induction cs run rule: short_cycling_loop.induct) (auto simp: Let_def)

lemma short_cycling_loop_Suc: "short_cycling_loop cs (Suc n) = Suc (short_cycling_loop cs n)"
  using short_cycling_loop_shift [of cs n 1] by simp

text \<open>
  The trailing run found by the loop: it is a suffix of close cycles, and it is maximal because
  the cycle before it, if there is one, is not close.
\<close>

lemma short_cycling_loop_spec:
  "\<lbrakk>rcs = c # rest; r = short_cycling_loop rcs 1\<rbrakk> \<Longrightarrow>
     1 \<le> r \<and> r \<le> length rcs \<and> all_close (rev (take r rcs))
     \<and> (r < length rcs \<longrightarrow> \<not> close (rcs ! r) (rcs ! (r - 1)))"
proof (induction rest arbitrary: c rcs r)
  case Nil
  then show ?case by simp
next
  case (Cons p rest)
  show ?case
  proof (cases "close p c")
    case False
    with Cons.prems show ?thesis by (simp add: Let_def close_def)
  next
    case True
    define r' where "r' = short_cycling_loop (p # rest) 1"
    have IH: "1 \<le> r' \<and> r' \<le> length (p # rest) \<and> all_close (rev (take r' (p # rest)))
       \<and> (r' < length (p # rest) \<longrightarrow> \<not> close ((p # rest) ! r') ((p # rest) ! (r' - 1)))"
      using Cons.IH [OF refl r'_def] .
    have r: "r = Suc r'"
      using Cons.prems True short_cycling_loop_Suc [of "p # rest" 1]
      by (simp add: r'_def Let_def close_def)
    obtain k where k: "r' = Suc k" using IH by (cases r') auto
    have "all_close (rev (take r rcs))"
      using IH True by (simp add: Cons.prems(1) r k all_close_snoc del: all_close.simps)
    with IH show ?thesis by (auto simp: Cons.prems(1) r k)
  qed
qed

lemma ShortCyclingRun_pos: "cs \<noteq> [] \<Longrightarrow> 1 \<le> ShortCyclingRun cs"
proof -
  assume "cs \<noteq> []"
  then obtain c rest where "rev cs = c # rest" by (metis list.exhaust rev_is_Nil_conv)
  then show ?thesis
    using short_cycling_loop_spec [OF _ refl] \<open>cs \<noteq> []\<close> by (simp add: ShortCyclingRun_def)
qed

lemma falling_distances_iff: "falling_distances ds \<longleftrightarrow> sorted_wrt (>) ds"
proof (induction ds rule: falling_distances.induct)
  case (1 a b rest)
  then show ?case by auto
qed auto

section \<open>Properties\<close>

text \<open>
  \<^verbatim>\<open>ShortCyclingRun\<close> returns the length of the longest trailing series of cycles in which every
  cycle starts less than 60 s after the previous one ended: 0 for no cycles, otherwise at least 1;
  all gaps inside the series are short, and the gap before it is not.
\<close>

theorem short_cycling_run_spec:
  fixes cs :: "cycle list"
  defines "r \<equiv> ShortCyclingRun cs"
  shows "(r = 0 \<longleftrightarrow> cs = []) \<and> r \<le> length cs
     \<and> all_close (drop (length cs - r) cs)
     \<and> (0 < r \<and> r < length cs \<longrightarrow>
          \<not> close (cs ! (length cs - r - 1)) (cs ! (length cs - r)))"
proof (cases "cs = []")
  case False
  then obtain c rest where rcs: "rev cs = c # rest" by (metis list.exhaust rev_is_Nil_conv)
  have r: "r = short_cycling_loop (rev cs) 1"
    using False by (simp add: r_def ShortCyclingRun_def)
  note spec = short_cycling_loop_spec [OF rcs r]
  have "rev (take r (rev cs)) = drop (length cs - r) cs"
    by (simp add: rev_take)
  moreover have "r < length cs \<Longrightarrow> rev cs ! r = cs ! (length cs - r - 1)"
    by (simp add: rev_nth)
  moreover have "rev cs ! (r - 1) = cs ! (length cs - r)"
    using spec by (subst rev_nth) (auto simp del: One_nat_def)
  ultimately show ?thesis using spec False by auto
qed (simp add: r_def ShortCyclingRun_def)

theorem short_cycling_run_spec_witness:
  "let c = (\<lambda>t. \<lparr>cy_StartedAt = t * second, cy_RunS = 10, cy_LevelStartMM = 300,
                 cy_LevelEndMM = 400, cy_Pump = ''primary''\<rparr>);
       cs = [c 0, c 500, c 540, c 590]
   in ShortCyclingRun cs = 3
      \<and> all_close (drop 1 cs) \<and> \<not> close (cs ! 0) (cs ! 1)"
  using short_cycling_run_spec [of "map (\<lambda>t. \<lparr>cy_StartedAt = t * second, cy_RunS = 10,
      cy_LevelStartMM = 300, cy_LevelEndMM = 400, cy_Pump = ''primary''\<rparr>) [0, 500, 540, 590]"]
  by (simp add: ShortCyclingRun_def Let_def EndedAt_def cycle_thresholds second_def)

text \<open>
  \<^verbatim>\<open>LevelRising\<close> holds exactly when there are at least two samples, every sample is strictly
  closer to the sensor than all earlier ones, and the distance shrank by at least the required
  total, provided the distances are in the node's range so that the subtraction cannot wrap.
\<close>

theorem level_rising_spec:
  assumes "\<forall>d \<in> set ds. 0 \<le> d \<and> d \<le> 65535"
  shows "LevelRising ds m \<longleftrightarrow> 2 \<le> length ds \<and> sorted_wrt (>) ds \<and> m \<le> hd ds - last ds"
proof (cases "2 \<le> length ds")
  case True
  then have "ds \<noteq> []" by auto
  then have "0 \<le> hd ds" "hd ds \<le> 65535" "0 \<le> last ds" "last ds \<le> 65535"
    using assms by auto
  then have "wrap32 (hd ds - last ds) = hd ds - last ds" by simp
  then show ?thesis using True by (simp add: LevelRising_def falling_distances_iff)
qed (simp add: LevelRising_def)

theorem level_rising_spec_witness:
  "LevelRising [420, 410, 395] 10 \<and> \<not> LevelRising [420, 410, 415] 10"
  using level_rising_spec [of "[420, 410, 395]" 10] level_rising_spec [of "[420, 410, 415]" 10]
  by simp

end
