(* ===== verification/Rows.thy ===== *)
theory Rows
  imports Sumpnet_Prelude Hydrology
    "HOL-Library.Product_Lexorder" "HOL-Library.List_Lexorder" "HOL-Library.Char_ord"
    "HOL-Library.Multiset"
begin

text \<open>
  Rows of the telemetry tables as the services read them (\<^verbatim>\<open>internal/store/sqlcgen/models.go\<close>),
  the alert enums of \<^verbatim>\<open>alerts.v1\<close>, and the error value of a failed query. Nullable columns are
  options, UUIDs are their canonical strings, and string comparison is bytewise.
\<close>

type_synonym uuid = string

datatype db_error = DbError string

section \<open>Telemetry rows\<close>

record meta =
  m_RSSIDBm :: "int option"
  m_SNRDb :: "real option"
  m_SF :: "int option"
  m_GatewayID :: "string option"
  m_DedupID :: "uuid option"

record cycle_row =
  cr_DeviceID :: string
  cr_StartedAt :: instant
  cr_FCnt :: int
  cr_ReceivedAt :: instant
  cr_RunS :: int
  cr_PeakCurrentA :: real
  cr_LevelStartMm :: int
  cr_LevelEndMm :: int
  cr_PumpID :: string
  cr_EstVolumeL :: "real option"
  cr_InsertedAt :: instant

record summary_row =
  sr_DeviceID :: string
  sr_WindowEnd :: instant
  sr_FCnt :: int
  sr_WindowS :: int
  sr_CycleCount :: int
  sr_TotalRunS :: int
  sr_MinLevelMm :: int
  sr_InsertedAt :: instant

record reading_row =
  rr_DeviceID :: string
  rr_Ts :: instant
  rr_FCnt :: int
  rr_LevelMm :: int
  rr_BattMv :: "int option"
  rr_MainsOk :: bool
  rr_FloatHigh :: bool
  rr_SensorFault :: bool
  rr_InsertedAt :: instant

record alarm_row =
  ar_DeviceID :: string
  ar_RaisedAt :: instant
  ar_FCnt :: int
  ar_Code :: int
  ar_Value :: int
  ar_InsertedAt :: instant

record gauge_row =
  gr_DeviceID :: string
  gr_Ts :: instant
  gr_FCnt :: int
  gr_TipCount :: int
  gr_MmPerTip :: real
  gr_IntervalS :: int
  gr_CounterReset :: bool
  gr_SensorFault :: bool
  gr_InsertedAt :: instant

definition ActionRaise :: int where "ActionRaise = 1"
definition ActionClear :: int where "ActionClear = 2"

record detection_row =
  dr_DeviceID :: string
  dr_Code :: int
  dr_Action :: int
  dr_ObservedAt :: instant
  dr_FCnt :: int
  dr_InsertedAt :: instant

record rainfall_row =
  rf_Source :: string
  rf_StationID :: string
  rf_Ts :: instant
  rf_IntervalS :: int
  rf_Mm :: real
  rf_UpdatedAt :: instant

definition rain_end :: "rainfall_row \<Rightarrow> instant" where
  "rain_end r = rf_Ts r + rf_IntervalS r * second"

text \<open>Storm events and the per-home results; row ids are counters.\<close>

record storm_row =
  se_ID :: nat
  se_StartedAt :: instant
  se_EndedAt :: "instant option"
  se_TotalRainMm :: real
  se_PeakIntensityMmH :: real
  se_RainSource :: string
  se_Status :: string

record metric_row =
  hm_StormID :: nat
  hm_HomeID :: uuid
  hm_LagMin :: "real option"
  hm_RecessionMin :: "real option"
  hm_VolumeL :: real
  hm_Cycles :: int
  hm_BaseflowCpd :: "real option"
  hm_InflowEstL :: "real option"
  hm_PumpRateLps :: "real option"
  hm_PumpRateSource :: "string option"

section \<open>Alert codes and severities\<close>

text \<open>Protobuf enums are open: any \<^verbatim>\<open>int32\<close> is a value, so codes are integers with names.\<close>

definition FLOAT_HIGH :: int where "FLOAT_HIGH = 1"
definition MAINS_LOST :: int where "MAINS_LOST = 2"
definition DRY_RUN :: int where "DRY_RUN = 3"
definition CONTINUOUS_RUN :: int where "CONTINUOUS_RUN = 4"
definition SENSOR_FAULT :: int where "SENSOR_FAULT = 5"
definition SHORT_CYCLING :: int where "SHORT_CYCLING = 6"
definition OUTAGE_RISK :: int where "OUTAGE_RISK = 7"
definition LOW_BATTERY :: int where "LOW_BATTERY = 8"
definition OFFLINE :: int where "OFFLINE = 9"

definition SEV_UNSPECIFIED :: int where "SEV_UNSPECIFIED = 0"
definition SEV_INFO :: int where "SEV_INFO = 1"
definition SEV_WARNING :: int where "SEV_WARNING = 2"
definition SEV_CRITICAL :: int where "SEV_CRITICAL = 3"

lemmas code_defs = FLOAT_HIGH_def MAINS_LOST_def DRY_RUN_def CONTINUOUS_RUN_def SENSOR_FAULT_def
  SHORT_CYCLING_def OUTAGE_RISK_def LOW_BATTERY_def OFFLINE_def
lemmas sev_defs = SEV_UNSPECIFIED_def SEV_INFO_def SEV_WARNING_def SEV_CRITICAL_def

section \<open>Notifications\<close>

record notification =
  n_Table :: string
  n_N :: nat
  n_MinTS :: instant
  n_MaxTS :: instant

end
