(* ===== verification/Watermark.thy ===== *)
theory Watermark
  imports Rows
begin

text \<open>
  The consumer skeleton of \<^verbatim>\<open>internal/watermark/consumer.go\<close> and the poll queries it runs
  (\<^verbatim>\<open>internal/store/sqlcgen/watermarks.sql.go\<close>): read a source table by a persisted
  \<^verbatim>\<open>inserted_at\<close> watermark, run a handler and move the watermark in one transaction.

  A database transaction is all or nothing: \<open>stage_run\<close> computes the committed database, and every
  error path returns the database it started from. Which statement of a transaction fails is a
  parameter (\<open>faults\<close>). The interface between a source and the stage is the locale
  \<open>poll_source\<close>, interpreted on the poll query; the exactly-once argument is proved inside it.
\<close>

section \<open>The poll queries\<close>

text \<open>
  One definition for the five \<^verbatim>\<open>Poll*\<close> statements, which differ in the table and in the tie-breaking
  columns: \<open>groups\<close> are the oldest \<open>max_groups\<close> distinct \<^verbatim>\<open>inserted_at\<close> values in
  \<open>(after, boundary]\<close>, and the rows up to the newest of them are returned in order.
\<close>

definition poll_groups :: "('r \<Rightarrow> instant) \<Rightarrow> 'r list \<Rightarrow> instant \<Rightarrow> instant \<Rightarrow> nat \<Rightarrow> instant list" where
  "poll_groups ins tbl after boundary max_groups =
     take max_groups (sort (remdups (filter (\<lambda>t. after < t \<and> t \<le> boundary) (map ins tbl))))"

definition poll_rows ::
  "('r \<Rightarrow> instant) \<Rightarrow> ('r \<Rightarrow> 'k::linorder) \<Rightarrow> 'r list \<Rightarrow> instant \<Rightarrow> instant \<Rightarrow> nat \<Rightarrow> 'r list" where
  "poll_rows ins key tbl after boundary max_groups =
     (let groups = poll_groups ins tbl after boundary max_groups
      in if groups = [] then []
         else sort_key (\<lambda>r. (ins r, key r))
                (filter (\<lambda>r. after < ins r \<and> ins r \<le> Max (set groups)) tbl))"

definition PollCycleEvents :: "cycle_row list \<Rightarrow> instant \<Rightarrow> instant \<Rightarrow> nat \<Rightarrow> cycle_row list" where
  "PollCycleEvents = poll_rows cr_InsertedAt (\<lambda>r. (cr_DeviceID r, cr_StartedAt r, cr_FCnt r))"

definition PollReadings :: "reading_row list \<Rightarrow> instant \<Rightarrow> instant \<Rightarrow> nat \<Rightarrow> reading_row list" where
  "PollReadings = poll_rows rr_InsertedAt (\<lambda>r. (rr_DeviceID r, rr_Ts r, rr_FCnt r))"

definition PollAlarmEvents :: "alarm_row list \<Rightarrow> instant \<Rightarrow> instant \<Rightarrow> nat \<Rightarrow> alarm_row list" where
  "PollAlarmEvents = poll_rows ar_InsertedAt (\<lambda>r. (ar_DeviceID r, ar_RaisedAt r, ar_FCnt r))"

definition PollStormSummaries :: "summary_row list \<Rightarrow> instant \<Rightarrow> instant \<Rightarrow> nat \<Rightarrow> summary_row list" where
  "PollStormSummaries = poll_rows sr_InsertedAt (\<lambda>r. (sr_DeviceID r, sr_WindowEnd r, sr_FCnt r))"

definition PollDetections :: "detection_row list \<Rightarrow> instant \<Rightarrow> instant \<Rightarrow> nat \<Rightarrow> detection_row list" where
  "PollDetections = poll_rows dr_InsertedAt
     (\<lambda>r. (dr_DeviceID r, dr_ObservedAt r, dr_FCnt r))"

section \<open>Configuration, faults and the transaction\<close>

record wm_config =
  wc_Consumer :: string
  wc_Lag :: duration
  wc_MaxGroups :: nat

record faults =
  f_begin :: bool
  f_getmark :: bool
  f_poll :: bool
  f_boundary :: bool
  f_setmark :: bool
  f_commit :: bool

definition no_faults :: faults where
  "no_faults = \<lparr>f_begin = False, f_getmark = False, f_poll = False, f_boundary = False,
     f_setmark = False, f_commit = False\<rparr>"

datatype run_error =
    BeginError | GetWatermarkError | PollError | LagBoundaryError | HandleError db_error
  | SetWatermarkError | CommitError

text \<open>The database as a stage sees it: source rows, watermarks, and what the handler writes.\<close>

record ('r, 'w) wm_db =
  db_rows :: "'r list"
  db_marks :: "(string \<times> string) \<rightharpoonup> instant"
  db_out :: 'w

text \<open>A source (table name, poll, \<^verbatim>\<open>InsertedAt\<close>) and a handler (\<^verbatim>\<open>Handle\<close>, \<^verbatim>\<open>Reset\<close>).\<close>

record 'r source =
  s_Table :: string
  s_Poll :: "'r list \<Rightarrow> instant \<Rightarrow> instant \<Rightarrow> nat \<Rightarrow> 'r list"
  s_InsertedAt :: "'r \<Rightarrow> instant"

record ('r, 'h, 'w) handler_ops =
  h_Handle :: "'h \<Rightarrow> 'w \<Rightarrow> 'r list \<Rightarrow> 'h \<times> (db_error + 'w)"
  h_Reset :: "'h \<Rightarrow> 'h"

definition GetWatermark :: "('r, 'w) wm_db \<Rightarrow> string \<Rightarrow> string \<Rightarrow> instant option" where
  "GetWatermark db consumer src = db_marks db (consumer, src)"

text \<open>The watermark a stage starts from: a consumer without one starts at the Unix epoch.\<close>

definition mark_of :: "wm_config \<Rightarrow> 'r source \<Rightarrow> ('r, 'w) wm_db \<Rightarrow> instant" where
  "mark_of cfg src db =
     (case GetWatermark db (wc_Consumer cfg) (s_Table src) of None \<Rightarrow> 0 | Some t \<Rightarrow> t)"

definition SetWatermark :: "string \<Rightarrow> string \<Rightarrow> instant \<Rightarrow> ('r, 'w) wm_db \<Rightarrow> ('r, 'w) wm_db" where
  "SetWatermark consumer src t db = db\<lparr>db_marks := (db_marks db)((consumer, src) \<mapsto> t)\<rparr>"

definition LagBoundary :: "instant \<Rightarrow> duration \<Rightarrow> instant" where
  "LagBoundary now lag = now - lag"

fun newest :: "('r \<Rightarrow> instant) \<Rightarrow> instant \<Rightarrow> 'r list \<Rightarrow> instant" where
  "newest ins mark [] = mark"
| "newest ins mark (r # rs) = newest ins (if ins r > mark then ins r else mark) rs"

section \<open>One stage run\<close>

text \<open>
  \<^verbatim>\<open>typedStage.run\<close>. A failed \<^verbatim>\<open>Begin\<close> returns before the deferred rollback is installed, so it does
  not reset the handler; every later error does.
\<close>

definition stage_run ::
  "wm_config \<Rightarrow> 'r source \<Rightarrow> ('r, 'h, 'w) handler_ops \<Rightarrow> faults \<Rightarrow> instant
     \<Rightarrow> 'h \<times> ('r, 'w) wm_db \<Rightarrow> ('h \<times> ('r, 'w) wm_db) \<times> (run_error + nat)" where
  "stage_run cfg src ops fl now st =
     (let h = fst st; db = snd st;
          failed = (\<lambda>h' e. ((h_Reset ops h', db), Inl e))
      in
      if f_begin fl then ((h, db), Inl BeginError)
      else if f_getmark fl then failed h GetWatermarkError
      else let after = mark_of cfg src db
      in if f_poll fl then failed h PollError
      else let rows = s_Poll src (db_rows db) after (LagBoundary now (wc_Lag cfg)) (wc_MaxGroups cfg)
      in if rows = [] \<and> f_boundary fl then failed h LagBoundaryError
      else let handled = (if rows = [] then (h, Inr (db_out db))
                          else h_Handle ops h (db_out db) rows)
      in case snd handled of
           Inl e \<Rightarrow> failed (fst handled) (HandleError e)
         | Inr out \<Rightarrow>
           (let h' = fst handled;
                newMark =
                  (if rows = []
                   then (if LagBoundary now (wc_Lag cfg) > after
                         then LagBoundary now (wc_Lag cfg) else after)
                   else newest (s_InsertedAt src) after rows);
                db1 = db\<lparr>db_out := out\<rparr>;
                db2 = (if newMark > after
                       then SetWatermark (wc_Consumer cfg) (s_Table src) newMark db1 else db1)
            in if newMark > after \<and> f_setmark fl then failed h' SetWatermarkError
               else if f_commit fl then failed h' CommitError
               else ((h', db2), Inr (length rows))))"

text \<open>
  \<^verbatim>\<open>Consumer.RunOnce\<close>: the stages in order, stopping at the first error with the rows handled so
  far; a complete round makes the consumer ready and calls the \<^verbatim>\<open>OnRound\<close> callbacks with its total,
  recorded in \<open>c_rounds\<close>. Handlers of different row types share no type, so a stage is the function
  it denotes on the state of the whole service.
\<close>

type_synonym 's stage = "'s \<Rightarrow> 's \<times> (run_error + nat)"

record 's consumer =
  c_state :: 's
  c_ready :: bool
  c_rounds :: "nat list"

fun run_stages :: "'s stage list \<Rightarrow> 's \<Rightarrow> nat \<Rightarrow> 's \<times> nat \<times> run_error option" where
  "run_stages [] s tot = (s, tot, None)"
| "run_stages (st # sts) s tot =
     (case st s of
        (s', Inl e) \<Rightarrow> (s', tot, Some e)
      | (s', Inr n) \<Rightarrow> run_stages sts s' (tot + n))"

definition RunOnce :: "'s stage list \<Rightarrow> 's consumer \<Rightarrow> 's consumer \<times> nat \<times> run_error option" where
  "RunOnce stages c =
     (case run_stages stages (c_state c) 0 of
        (s', tot, Some e) \<Rightarrow> (c\<lparr>c_state := s'\<rparr>, tot, Some e)
      | (s', tot, None) \<Rightarrow>
          (c\<lparr>c_state := s', c_ready := True, c_rounds := c_rounds c @ [tot]\<rparr>, tot, None))"

text \<open>
  The inner loop of \<^verbatim>\<open>Consumer.Run\<close>: rounds until one handles no row, sleeping a doubling back-off
  after each failed round. The list holds the environment of each round (its faults and clock); the
  result carries the back-off left behind and the sleeps taken, and \<open>None\<close> means that the
  environments ran out before the loop did.
\<close>

definition next_backoff :: "duration \<Rightarrow> duration" where
  "next_backoff backoff = min (backoff * 2) (30 * second)"

fun drain ::
  "('e \<Rightarrow> 's consumer \<Rightarrow> 's consumer \<times> nat \<times> run_error option) \<Rightarrow> 'e list \<Rightarrow> duration \<Rightarrow> 's consumer
     \<Rightarrow> ('s consumer \<times> duration \<times> duration list) option" where
  "drain once [] backoff c = None"
| "drain once (e # es) backoff c =
     (case once e c of
        (c', n, Some err) \<Rightarrow>
          map_option (\<lambda>(c'', b, sleeps). (c'', b, backoff # sleeps))
            (drain once es (next_backoff backoff) c')
      | (c', n, None) \<Rightarrow>
          (if n = 0 then Some (c', second, []) else drain once es second c'))"

text \<open>\<^verbatim>\<open>Consumer.watches\<close>: whether a notification wakes the loop.\<close>

definition watches :: "string list \<Rightarrow> string \<Rightarrow> bool" where
  "watches tables t = (\<exists>s \<in> set tables. s = t)"

section \<open>The contract of a source\<close>

locale poll_source =
  fixes poll :: "'r list \<Rightarrow> instant \<Rightarrow> instant \<Rightarrow> nat \<Rightarrow> 'r list"
    and ins :: "'r \<Rightarrow> instant"
  assumes poll_cut: "0 < n \<Longrightarrow> \<exists>hi. hi \<le> boundary \<and>
      mset (poll tbl after boundary n) = mset (filter (\<lambda>r. after < ins r \<and> ins r \<le> hi) tbl)
      \<and> (poll tbl after boundary n = [] \<longrightarrow> (\<forall>r \<in> set tbl. \<not> (after < ins r \<and> ins r \<le> boundary)))
      \<and> (poll tbl after boundary n \<noteq> [] \<longrightarrow> (\<exists>r \<in> set (poll tbl after boundary n). ins r = hi))"
begin

lemma newest_ge: "mark \<le> newest ins mark rs"
proof (induction rs arbitrary: mark)
  case (Cons a rs)
  then show ?case
    using Cons.IH [of "ins a"] by simp (meson order.strict_implies_order order_trans)
qed simp

lemma newest_upper: "r \<in> set rs \<Longrightarrow> ins r \<le> newest ins mark rs"
proof (induction rs arbitrary: mark)
  case (Cons a rs)
  then show ?case using newest_ge [of "ins a" rs] newest_ge [of mark rs] by auto
qed simp

lemma newest_least: "mark \<le> b \<Longrightarrow> (\<And>r. r \<in> set rs \<Longrightarrow> ins r \<le> b) \<Longrightarrow> newest ins mark rs \<le> b"
  by (induction rs arbitrary: mark) auto

text \<open>
  After a poll that returned rows, the new watermark is the cut: the rows polled are exactly the
  rows between the old and the new watermark.
\<close>

lemma poll_to_newest:
  assumes n: "0 < n" and ne: "poll tbl after boundary n \<noteq> []"
  defines "m \<equiv> newest ins after (poll tbl after boundary n)"
  shows "mset (poll tbl after boundary n) = mset (filter (\<lambda>r. after < ins r \<and> ins r \<le> m) tbl)"
    and "after < m" and "m \<le> boundary"
proof -
  obtain hi where hi: "hi \<le> boundary"
      "mset (poll tbl after boundary n) = mset (filter (\<lambda>r. after < ins r \<and> ins r \<le> hi) tbl)"
      "\<exists>r \<in> set (poll tbl after boundary n). ins r = hi"
    using poll_cut [OF n, of boundary tbl after] ne by auto
  have set: "set (poll tbl after boundary n) = {r \<in> set tbl. after < ins r \<and> ins r \<le> hi}"
    using hi(2) by (metis set_filter set_mset_mset)
  then have "after < hi" using hi(3) by auto
  have "m = hi"
  proof (rule antisym)
    show "m \<le> hi" unfolding m_def using set \<open>after < hi\<close> by (intro newest_least) auto
    show "hi \<le> m" unfolding m_def using hi(3) newest_upper by blast
  qed
  then show "mset (poll tbl after boundary n) = mset (filter (\<lambda>r. after < ins r \<and> ins r \<le> m) tbl)"
    and "after < m" and "m \<le> boundary"
    using hi(1,2) \<open>after < hi\<close> by simp_all
qed

lemma poll_empty:
  "0 < n \<Longrightarrow> poll tbl after boundary n = [] \<Longrightarrow> filter (\<lambda>r. after < ins r \<and> ins r \<le> boundary) tbl = []"
  using poll_cut [of n boundary tbl after] by (auto simp: filter_empty_conv)

end

section \<open>The poll query keeps the contract\<close>

lemma poll_groups_empty:
  "0 < n \<Longrightarrow> poll_groups ins tbl after boundary n = [] \<longleftrightarrow>
     (\<forall>r \<in> set tbl. \<not> (after < ins r \<and> ins r \<le> boundary))"
proof -
  have "sort (remdups ts) = [] \<longleftrightarrow> ts = []" for ts :: "instant list"
    by (metis remdups_eq_nil_iff set_empty set_sort)
  then show "0 < n \<Longrightarrow> ?thesis"
    by (auto simp: poll_groups_def filter_empty_conv)
qed

lemma poll_rows_source:
  fixes ins :: "'r \<Rightarrow> instant" and key :: "'r \<Rightarrow> 'k::linorder"
  shows "poll_source (poll_rows ins key) ins"
proof
  fix n :: nat and boundary after :: instant and tbl :: "'r list"
  assume n: "0 < n"
  let ?p = "poll_rows ins key tbl after boundary n"
  define gs where "gs = poll_groups ins tbl after boundary n"
  have gs: "set gs \<subseteq> {t \<in> ins ` set tbl. after < t \<and> t \<le> boundary}"
    using set_take_subset [of n] by (fastforce simp: gs_def poll_groups_def)
  show "\<exists>hi. hi \<le> boundary \<and> mset ?p = mset (filter (\<lambda>r. after < ins r \<and> ins r \<le> hi) tbl)
      \<and> (?p = [] \<longrightarrow> (\<forall>r \<in> set tbl. \<not> (after < ins r \<and> ins r \<le> boundary)))
      \<and> (?p \<noteq> [] \<longrightarrow> (\<exists>r \<in> set ?p. ins r = hi))"
  proof (cases "gs = []")
    case True
    then have none: "\<forall>r \<in> set tbl. \<not> (after < ins r \<and> ins r \<le> boundary)"
      using n by (simp add: gs_def poll_groups_empty)
    then have "filter (\<lambda>r. after < ins r \<and> ins r \<le> boundary) tbl = []"
      by (simp add: filter_empty_conv)
    then show ?thesis
      using True none by (intro exI [of _ boundary]) (simp add: poll_rows_def gs_def)
  next
    case False
    then have mx: "Max (set gs) \<in> set gs" by simp
    then obtain r where r: "r \<in> set tbl" "ins r = Max (set gs)" "after < ins r" "ins r \<le> boundary"
      using gs by (auto dest!: subsetD)
    have p: "mset ?p = mset (filter (\<lambda>r. after < ins r \<and> ins r \<le> Max (set gs)) tbl)"
      using False by (simp add: poll_rows_def Let_def gs_def)
    then have "set ?p = set (filter (\<lambda>r. after < ins r \<and> ins r \<le> Max (set gs)) tbl)"
      by (metis set_mset_mset)
    then have "r \<in> set ?p" using r by simp
    then show ?thesis
      using p r by (intro exI [of _ "Max (set gs)"]) (auto simp del: mset_filter)
  qed
qed

interpretation poll: poll_source "poll_rows ins key" ins for ins key
  by (rule poll_rows_source)

interpretation cycle_poll: poll_source PollCycleEvents cr_InsertedAt
  unfolding PollCycleEvents_def by (rule poll_rows_source)

interpretation reading_poll: poll_source PollReadings rr_InsertedAt
  unfolding PollReadings_def by (rule poll_rows_source)

interpretation alarm_poll: poll_source PollAlarmEvents ar_InsertedAt
  unfolding PollAlarmEvents_def by (rule poll_rows_source)

interpretation detection_poll: poll_source PollDetections dr_InsertedAt
  unfolding PollDetections_def by (rule poll_rows_source)

interpretation summary_poll: poll_source PollStormSummaries sr_InsertedAt
  unfolding PollStormSummaries_def by (rule poll_rows_source)

section \<open>What a stage run does\<close>

text \<open>A failed run leaves the database alone, and resets the handler unless \<^verbatim>\<open>Begin\<close> failed.\<close>

lemma stage_run_error:
  assumes "stage_run cfg src ops fl now (h, db) = ((h', db'), Inl e)"
  shows "db' = db \<and> (if e = BeginError then h' = h else \<exists>h0. h' = h_Reset ops h0)"
  using assms
  by (auto simp: stage_run_def Let_def split: if_splits sum.splits)

lemma mark_of_SetWatermark [simp]:
  "mark_of cfg src (SetWatermark (wc_Consumer cfg) (s_Table src) t db) = t"
  by (simp add: mark_of_def GetWatermark_def SetWatermark_def)

lemma mark_of_out [simp]: "mark_of cfg src (db\<lparr>db_out := w\<rparr>) = mark_of cfg src db"
  by (simp add: mark_of_def GetWatermark_def)

lemma db_rows_SetWatermark [simp]:
  "db_rows (SetWatermark c s t db) = db_rows db" "db_out (SetWatermark c s t db) = db_out db"
  by (simp_all add: SetWatermark_def)

definition polled :: "wm_config \<Rightarrow> 'r source \<Rightarrow> instant \<Rightarrow> ('r, 'w) wm_db \<Rightarrow> 'r list" where
  "polled cfg src now db =
     s_Poll src (db_rows db) (mark_of cfg src db) (LagBoundary now (wc_Lag cfg)) (wc_MaxGroups cfg)"

text \<open>A successful run in one equation: what the handler wrote, and where the watermark went.\<close>

lemma stage_run_ok:
  assumes "stage_run cfg src ops fl now (h, db) = ((h', db'), Inr k)"
  shows "k = length (polled cfg src now db) \<and> db_rows db' = db_rows db
    \<and> mark_of cfg src db' =
        (if polled cfg src now db = [] then max (mark_of cfg src db) (LagBoundary now (wc_Lag cfg))
         else max (mark_of cfg src db)
                (newest (s_InsertedAt src) (mark_of cfg src db) (polled cfg src now db)))
    \<and> (if polled cfg src now db = [] then h' = h \<and> db_out db' = db_out db
       else h_Handle ops h (db_out db) (polled cfg src now db) = (h', Inr (db_out db')))"
  using assms
  by (auto simp: stage_run_def Let_def polled_def[symmetric] intro: prod_eqI split: if_splits sum.splits)

section \<open>Every row once\<close>

text \<open>
  A handler with a log: \<open>logged\<close> leaves the handler and what it writes alone and appends, inside the
  same transaction, the rows of each successful \<^verbatim>\<open>Handle\<close>.
\<close>

definition logged :: "('r, 'h, 'w) handler_ops \<Rightarrow> ('r, 'h, 'w \<times> 'r list) handler_ops" where
  "logged ops =
     \<lparr>h_Handle = (\<lambda>h w rows. case h_Handle ops h (fst w) rows of
                     (h', Inl e) \<Rightarrow> (h', Inl e)
                   | (h', Inr out) \<Rightarrow> (h', Inr (out, snd w @ rows))),
      h_Reset = h_Reset ops\<rparr>"

abbreviation handled_log :: "('r, 'w \<times> 'r list) wm_db \<Rightarrow> 'r list" where
  "handled_log db \<equiv> snd (db_out db)"

text \<open>
  The system around one stage. \<open>ingest\<close> commits a batch: all its rows carry the start of the
  inserting transaction, and by the configured lag a transaction that commits at \<open>now\<close> started after
  the lag boundary of \<open>now\<close>. \<open>round\<close> is a stage run with whatever faults, at a later clock.
\<close>

inductive wm_step ::
  "wm_config \<Rightarrow> 'r source \<Rightarrow> ('r, 'h, 'w) handler_ops
     \<Rightarrow> instant \<times> 'h \<times> ('r, 'w \<times> 'r list) wm_db \<Rightarrow> instant \<times> 'h \<times> ('r, 'w \<times> 'r list) wm_db \<Rightarrow> bool"
  for cfg src ops where
  ingest: "now \<le> now' \<Longrightarrow> (\<forall>r \<in> set rs. LagBoundary now' (wc_Lag cfg) < s_InsertedAt src r)
    \<Longrightarrow> wm_step cfg src ops (now, h, db) (now', h, db\<lparr>db_rows := db_rows db @ rs\<rparr>)"
| round: "now \<le> now' \<Longrightarrow> stage_run cfg src (logged ops) fl now' (h, db) = ((h', db'), res)
    \<Longrightarrow> wm_step cfg src ops (now, h, db) (now', h', db')"

inductive_cases wm_stepE: "wm_step cfg src ops s s'"

definition fresh_db :: "'w \<Rightarrow> ('r, 'w \<times> 'r list) wm_db" where
  "fresh_db w = \<lparr>db_rows = [], db_marks = Map.empty, db_out = (w, [])\<rparr>"

definition once_inv :: "wm_config \<Rightarrow> 'r source \<Rightarrow> instant \<times> 'h \<times> ('r, 'w \<times> 'r list) wm_db \<Rightarrow> bool" where
  "once_inv cfg src = (\<lambda>(now, h, db).
     mset (handled_log db) =
       mset (filter (\<lambda>r. 0 < s_InsertedAt src r \<and> s_InsertedAt src r \<le> mark_of cfg src db) (db_rows db))
     \<and> 0 \<le> mark_of cfg src db
     \<and> (mark_of cfg src db = 0 \<or> mark_of cfg src db \<le> LagBoundary now (wc_Lag cfg)))"

lemma handled_log_logged:
  "h_Handle (logged ops) h w rows = (h', Inr out) \<Longrightarrow> snd out = snd w @ rows"
  by (auto simp: logged_def split: prod.splits sum.splits)

lemma mset_filter_split:
  fixes f :: "'r \<Rightarrow> int"
  shows "a \<le> b \<Longrightarrow> b \<le> c \<Longrightarrow> mset (filter (\<lambda>r. a < f r \<and> f r \<le> c) xs) =
     mset (filter (\<lambda>r. a < f r \<and> f r \<le> b) xs) + mset (filter (\<lambda>r. b < f r \<and> f r \<le> c) xs)"
  by (induction xs) auto

lemma length_filter_split:
  fixes f :: "'r \<Rightarrow> int"
  shows "a \<le> b \<Longrightarrow> length (filter (\<lambda>r. a < f r) xs) =
     length (filter (\<lambda>r. a < f r \<and> f r \<le> b) xs) + length (filter (\<lambda>r. b < f r) xs)"
  by (induction xs) auto

text \<open>Rounds of a one-stage consumer, the rows still ahead of its watermark, and a drained queue.\<close>

definition round_of where
  "round_of cfg src ops = (\<lambda>(fl, now). RunOnce [stage_run cfg src (logged ops) fl now])"

definition pending :: "wm_config \<Rightarrow> 'r source \<Rightarrow> ('r, 'w) wm_db \<Rightarrow> nat" where
  "pending cfg src db = length (filter (\<lambda>r. mark_of cfg src db < s_InsertedAt src r) (db_rows db))"

definition drained where
  "drained cfg src nows c c' \<longleftrightarrow>
     (let db = snd (c_state c); db' = snd (c_state c') in
      c_ready c' \<and> db_rows db' = db_rows db
      \<and> (\<exists>now \<in> nows. LagBoundary now (wc_Lag cfg) \<le> mark_of cfg src db')
      \<and> mark_of cfg src db \<le> mark_of cfg src db'
      \<and> mset (handled_log db') = mset (handled_log db) +
          mset (filter (\<lambda>r. mark_of cfg src db < s_InsertedAt src r
            \<and> s_InsertedAt src r \<le> mark_of cfg src db') (db_rows db)))"

context poll_source
begin

lemma stage_run_advance:
  assumes run: "stage_run cfg src (logged ops) fl now (h, db) = ((h', db'), Inr k)"
    and src: "s_Poll src = poll" "s_InsertedAt src = ins" and n: "0 < wc_MaxGroups cfg"
  shows "db_rows db' = db_rows db"
    and "mark_of cfg src db \<le> mark_of cfg src db'"
    and "mark_of cfg src db' = mark_of cfg src db \<or> mark_of cfg src db' \<le> LagBoundary now (wc_Lag cfg)"
    and "mset (handled_log db') = mset (handled_log db) +
      mset (filter (\<lambda>r. mark_of cfg src db < ins r \<and> ins r \<le> mark_of cfg src db') (db_rows db))"
    and "k = length (filter (\<lambda>r. mark_of cfg src db < ins r \<and> ins r \<le> mark_of cfg src db') (db_rows db))"
    and "k = 0 \<Longrightarrow> LagBoundary now (wc_Lag cfg) \<le> mark_of cfg src db'"
proof -
  let ?m = "mark_of cfg src db" and ?b = "LagBoundary now (wc_Lag cfg)"
  let ?p = "polled cfg src now db"
  have p: "?p = poll (db_rows db) ?m ?b (wc_MaxGroups cfg)" by (simp add: polled_def src)
  note ok = stage_run_ok [OF run]
  show "db_rows db' = db_rows db" using ok by simp
  have rows: "mset ?p = mset (filter (\<lambda>r. ?m < ins r \<and> ins r \<le> mark_of cfg src db') (db_rows db))
      \<and> ?m \<le> mark_of cfg src db' \<and> (mark_of cfg src db' = ?m \<or> mark_of cfg src db' \<le> ?b)
      \<and> (?p = [] \<longrightarrow> ?b \<le> mark_of cfg src db')"
  proof (cases "?p = []")
    case True
    then have "mark_of cfg src db' = max ?m ?b" using ok by simp
    moreover have "filter (\<lambda>r. ?m < ins r \<and> ins r \<le> max ?m ?b) (db_rows db) = []"
      using poll_empty [OF n, of "db_rows db" ?m ?b] True p by (auto simp: filter_empty_conv)
    ultimately show ?thesis using True by (auto simp: max_def)
  next
    case False
    then have "mark_of cfg src db' = newest ins ?m ?p"
      using ok newest_ge [of ?m ?p] by (simp add: src max_def)
    then show ?thesis
      using poll_to_newest [OF n, of "db_rows db" ?m ?b] False p by simp
  qed
  then show "?m \<le> mark_of cfg src db'" "mark_of cfg src db' = ?m \<or> mark_of cfg src db' \<le> ?b"
    by simp_all
  have "handled_log db' = handled_log db @ ?p"
    using ok handled_log_logged [of ops h "db_out db" ?p h' "db_out db'"]
    by (cases "?p = []") simp_all
  then show "mset (handled_log db') = mset (handled_log db) +
      mset (filter (\<lambda>r. ?m < ins r \<and> ins r \<le> mark_of cfg src db') (db_rows db))"
    using rows by simp
  show "k = length (filter (\<lambda>r. ?m < ins r \<and> ins r \<le> mark_of cfg src db') (db_rows db))"
    using ok rows by (metis size_mset)
  show "k = 0 \<Longrightarrow> ?b \<le> mark_of cfg src db'" using ok rows by auto
qed

lemma once_inv_step:
  assumes "wm_step cfg src ops s s'" and "once_inv cfg src s"
    and src: "s_Poll src = poll" "s_InsertedAt src = ins" and n: "0 < wc_MaxGroups cfg"
  shows "once_inv cfg src s'"
  using assms(1)
proof cases
  case (ingest now now' rs h db)
  moreover have "filter (\<lambda>r. 0 < ins r \<and> ins r \<le> mark_of cfg src db) rs = []"
    using ingest(3,4) assms(2) ingest(1) src
    by (force simp: filter_empty_conv once_inv_def LagBoundary_def)
  ultimately show ?thesis
    using assms(2) by (auto simp: once_inv_def mark_of_def GetWatermark_def LagBoundary_def src)
next
  case (round now now' fl h db h' db' res)
  show ?thesis
  proof (cases res)
    case (Inl e)
    then show ?thesis
      using round assms(2) stage_run_error [of cfg src "logged ops" fl now' h db h' db' e]
      by (auto simp: once_inv_def LagBoundary_def)
  next
    case (Inr k)
    note adv = stage_run_advance [OF round(4) [unfolded Inr] src n]
    have "mset (filter (\<lambda>r. 0 < ins r \<and> ins r \<le> mark_of cfg src db') (db_rows db)) =
        mset (filter (\<lambda>r. 0 < ins r \<and> ins r \<le> mark_of cfg src db) (db_rows db)) +
        mset (filter (\<lambda>r. mark_of cfg src db < ins r \<and> ins r \<le> mark_of cfg src db') (db_rows db))"
      using assms(2) round(1) adv(2) by (intro mset_filter_split) (simp_all add: once_inv_def)
    then show ?thesis
      using assms(2) round adv by (auto simp: once_inv_def LagBoundary_def src)
  qed
qed

lemma once_inv_reachable:
  assumes "(wm_step cfg src ops)\<^sup>*\<^sup>* (now0, h0, fresh_db w) s"
    and "s_Poll src = poll" "s_InsertedAt src = ins" and "0 < wc_MaxGroups cfg"
  shows "once_inv cfg src s"
  using assms(1)
proof (induction rule: rtranclp_induct)
  case base
  then show ?case by (simp add: once_inv_def fresh_db_def mark_of_def GetWatermark_def)
next
  case (step s s')
  then show ?case using once_inv_step assms(2-4) by blast
qed

text \<open>A round with no failing statement and a handler that succeeds is a successful run.\<close>

lemma stage_run_no_faults:
  assumes "\<And>h w rows. \<exists>h' out. h_Handle ops h w rows = (h', Inr out)"
  shows "\<exists>h' db' k. stage_run cfg src (logged ops) no_faults now (h, db) = ((h', db'), Inr k)"
proof -
  have ok: "snd (h_Handle (logged ops) h w rows) \<noteq> Inl e" for h w rows e
    using assms [of h "fst w" rows] by (auto simp: logged_def)
  show ?thesis
    by (auto simp: stage_run_def no_faults_def Let_def ok split: sum.splits)
qed

lemma drain_terminates:
  assumes ops: "\<And>h w rows. \<exists>h' out. h_Handle ops h w rows = (h', Inr out)"
    and src: "s_Poll src = poll" "s_InsertedAt src = ins" and n: "0 < wc_MaxGroups cfg"
    and enough: "pending cfg src (snd (c_state c)) < length (filter (\<lambda>e. fst e = no_faults) envs)"
    and backoff: "backoff \<le> 30 * second"
  shows "\<exists>c' sleeps. drain (round_of cfg src ops) envs backoff c = Some (c', second, sleeps)
      \<and> (\<forall>d \<in> set sleeps. d \<le> 30 * second) \<and> drained cfg src (snd ` set envs) c c'"
  using enough backoff
proof (induction envs arbitrary: c backoff)
  case Nil
  then show ?case by simp
next
  case (Cons e es)
  obtain fl now where e: "e = (fl, now)" by fastforce
  obtain h db where c: "c_state c = (h, db)" by fastforce
  obtain h' db' res where run: "stage_run cfg src (logged ops) fl now (h, db) = ((h', db'), res)"
    by (metis prod.exhaust)
  show ?case
  proof (cases res)
    case (Inl err)
    then have db: "db' = db" using stage_run_error [OF run [unfolded Inl]] by simp
    have "fl \<noteq> no_faults"
      using stage_run_no_faults [OF ops, of cfg src now h db] run Inl by auto
    let ?c = "c\<lparr>c_state := (h', db')\<rparr>"
    have once: "round_of cfg src ops e c = (?c, 0, Some err)"
      by (simp add: round_of_def e c RunOnce_def run Inl)
    have "pending cfg src (snd (c_state ?c)) < length (filter (\<lambda>e. fst e = no_faults) es)"
      using Cons.prems(1) \<open>fl \<noteq> no_faults\<close> by (simp add: e c db)
    moreover have "next_backoff backoff \<le> 30 * second" by (simp add: next_backoff_def)
    ultimately obtain c' sleeps where ih:
      "drain (round_of cfg src ops) es (next_backoff backoff) ?c = Some (c', second, sleeps)"
      "\<forall>d \<in> set sleeps. d \<le> 30 * second" "drained cfg src (snd ` set es) ?c c'"
      using Cons.IH by blast
    then have "drained cfg src (snd ` set (e # es)) c c'" by (auto simp: drained_def Let_def c db)
    then show ?thesis using once ih Cons.prems(2) by auto
  next
    case (Inr k)
    note adv = stage_run_advance [OF run [unfolded Inr] src n]
    let ?m = "mark_of cfg src db" and ?m' = "mark_of cfg src db'"
    let ?c = "c\<lparr>c_state := (h', db'), c_ready := True, c_rounds := c_rounds c @ [k]\<rparr>"
    have once: "round_of cfg src ops e c = (?c, k, None)"
      by (simp add: round_of_def e c RunOnce_def run Inr)
    show ?thesis
    proof (cases "k = 0")
      case True
      then have "drained cfg src (snd ` set (e # es)) c ?c"
        using adv(1-4) adv(6) [OF True] by (auto simp: drained_def Let_def c e src)
      then show ?thesis using once True by simp
    next
      case False
      have "pending cfg src db = k + pending cfg src db'"
        unfolding adv(5) pending_def adv(1) src using adv(2) by (rule length_filter_split)
      then have "pending cfg src (snd (c_state ?c)) < length (filter (\<lambda>e. fst e = no_faults) es)"
        using Cons.prems(1) False c by (auto split: if_splits)
      moreover have "second \<le> 30 * second" by (simp add: go_time)
      ultimately obtain c' sleeps where ih:
        "drain (round_of cfg src ops) es second ?c = Some (c', second, sleeps)"
        "\<forall>d \<in> set sleeps. d \<le> 30 * second" "drained cfg src (snd ` set es) ?c c'"
        using Cons.IH by blast
      have "mset (filter (\<lambda>r. ?m < ins r \<and> ins r \<le> mark_of cfg src (snd (c_state c'))) (db_rows db)) =
         mset (filter (\<lambda>r. ?m < ins r \<and> ins r \<le> ?m') (db_rows db)) +
         mset (filter (\<lambda>r. ?m' < ins r \<and> ins r \<le> mark_of cfg src (snd (c_state c'))) (db_rows db))"
        using adv(2) ih(3) by (intro mset_filter_split) (simp_all add: drained_def Let_def)
      then have "drained cfg src (snd ` set (e # es)) c c'"
        using ih(3) adv(1,2,4) by (auto simp: drained_def Let_def c src)
      then show ?thesis using ih(1,2) once False by simp
    qed
  qed
qed

end

lemma poll_rows_empty:
  fixes ins :: "'r \<Rightarrow> instant" and key :: "'r \<Rightarrow> 'k::linorder"
  assumes "0 < n"
  shows "poll_rows ins key tbl after boundary n = [] \<longleftrightarrow>
    (\<forall>r \<in> set tbl. \<not> (after < ins r \<and> ins r \<le> boundary))"
proof
  assume "\<forall>r \<in> set tbl. \<not> (after < ins r \<and> ins r \<le> boundary)"
  then have "poll_groups ins tbl after boundary n = []" using poll_groups_empty [OF assms] by blast
  then show "poll_rows ins key tbl after boundary n = []" by (simp add: poll_rows_def)
next
  assume "poll_rows ins key tbl after boundary n = []"
  then show "\<forall>r \<in> set tbl. \<not> (after < ins r \<and> ins r \<le> boundary)"
    using poll.poll_cut [OF assms, where boundary = boundary and tbl = tbl and after = after] by blast
qed

lemma take_less_drop:
  "sorted_wrt (<) xs \<Longrightarrow> a \<in> set (take n xs) \<Longrightarrow> b \<in> set (drop n xs) \<Longrightarrow> a < (b::'a::linorder)"
  using sorted_wrt_append [of "(<)" "take n xs" "drop n xs"] by simp

lemma poll_rows_groups:
  fixes ins :: "'r \<Rightarrow> instant" and key :: "'r \<Rightarrow> 'k::linorder"
  shows "card (ins ` set (poll_rows ins key tbl after boundary n)) \<le> n"
proof (cases "poll_groups ins tbl after boundary n = []")
  case False
  let ?gs = "poll_groups ins tbl after boundary n"
  let ?all = "sort (remdups (filter (\<lambda>t. after < t \<and> t \<le> boundary) (map ins tbl)))"
  have mx: "Max (set ?gs) \<in> set (take n ?all)"
    using False by (metis List.finite_set Max_in poll_groups_def set_empty)
  have "t \<in> set ?gs" if t: "t \<in> set ?all" "t \<le> Max (set ?gs)" for t
  proof (rule ccontr)
    assume "t \<notin> set ?gs"
    with t(1) have "t \<in> set (drop n ?all)"
      unfolding poll_groups_def by (metis Un_iff append_take_drop_id set_append)
    moreover have "sorted_wrt (<) ?all" by (simp add: strict_sorted_iff)
    ultimately have "Max (set ?gs) < t" using mx take_less_drop by blast
    then show False using t(2) by simp
  qed
  moreover have "ins r \<in> set ?all \<and> ins r \<le> Max (set ?gs)"
    if "r \<in> set (poll_rows ins key tbl after boundary n)" for r
  proof -
    have "Max (set ?gs) \<le> boundary"
      using mx set_take_subset [of n ?all] by auto
    then show ?thesis using that False by (auto simp: poll_rows_def Let_def simp del: Max_le_iff intro: order_trans)
  qed
  ultimately have "ins ` set (poll_rows ins key tbl after boundary n) \<subseteq> set ?gs" by blast
  then have "card (ins ` set (poll_rows ins key tbl after boundary n)) \<le> card (set ?gs)"
    by (intro card_mono) simp_all
  also have "\<dots> \<le> n"
    by (metis card_length le_trans length_take min.cobounded2 poll_groups_def)
  finally show ?thesis .
qed (simp add: poll_rows_def)

section \<open>Properties\<close>

text \<open>
  What a poll returns. The rows of the source table strictly after the watermark and up to some
  cut at or before the lag boundary, each as often as the table has it: an \<^verbatim>\<open>inserted_at\<close> group is
  never split. At most \<open>max_groups\<close> groups are returned, and when rows are waiting some are returned.
\<close>

theorem poll_whole_groups:
  fixes ins :: "'r \<Rightarrow> instant" and key :: "'r \<Rightarrow> 'k::linorder"
  assumes "0 < n"
  shows "(\<exists>hi \<le> boundary. mset (poll_rows ins key tbl after boundary n) =
           mset (filter (\<lambda>r. after < ins r \<and> ins r \<le> hi) tbl))
    \<and> card (ins ` set (poll_rows ins key tbl after boundary n)) \<le> n
    \<and> (poll_rows ins key tbl after boundary n = [] \<longleftrightarrow>
           (\<forall>r \<in> set tbl. \<not> (after < ins r \<and> ins r \<le> boundary)))"
  using poll.poll_cut [OF assms, where boundary = boundary and tbl = tbl and after = after]
    poll_rows_groups poll_rows_empty [OF assms] by blast

theorem poll_whole_groups_witness:
  "0 < (1::nat) \<and> card (snd ` set (poll_rows snd fst [(1::int, 7), (2, 7), (3, 9::int)] 0 10 1)) \<le> 1
   \<and> poll_rows snd fst [(1::int, 7), (2, 7), (3, 9::int)] 0 10 1 \<noteq> []"
  using poll_whole_groups [of 1 10 snd fst "[(1::int, 7), (2, 7), (3, 9::int)]" 0] by simp

text \<open>
  Stage runs are atomic. Whatever statement fails, the source rows, the watermarks and the
  handler's writes are those before the run, and the handler has been reset (a failed \<^verbatim>\<open>Begin\<close>
  apart, which leaves the handler as it was); a run that succeeds moves the watermark forward only.
\<close>

theorem stage_run_atomic:
  "case stage_run cfg src ops fl now (h, db) of
     ((h', db'), Inl e) \<Rightarrow> db' = db \<and> (if e = BeginError then h' = h else \<exists>h0. h' = h_Reset ops h0)
   | ((h', db'), Inr k) \<Rightarrow> db_rows db' = db_rows db \<and> mark_of cfg src db \<le> mark_of cfg src db'"
proof -
  obtain h' db' res where run: "stage_run cfg src ops fl now (h, db) = ((h', db'), res)"
    by (metis prod.exhaust)
  then show ?thesis
    using stage_run_error [of cfg src ops fl now h db h' db']
      stage_run_ok [of cfg src ops fl now h db h' db']
    by (cases res) simp_all
qed

text \<open>
  C10: Every row once. From an empty database, after any sequence of ingest transactions and stage
  runs with any faults, the rows handled in committed transactions are exactly the rows stamped
  after the epoch and at or before the watermark, none twice and none skipped, provided ingest
  transactions are shorter than the configured lag.
\<close>

theorem watermark_exactly_once:
  assumes "(wm_step cfg src ops)\<^sup>*\<^sup>* (now0, h0, fresh_db w) (now, h, db)"
    and "s_Poll src = poll_rows (s_InsertedAt src) key" and "0 < wc_MaxGroups cfg"
  shows "mset (handled_log db) = mset (filter (\<lambda>r. 0 < s_InsertedAt src r
      \<and> s_InsertedAt src r \<le> mark_of cfg src db) (db_rows db))"
  using poll.once_inv_reachable [OF assms(1) assms(2) refl assms(3)] by (simp add: once_inv_def)

text \<open>A small instance for the witnesses: rows are their stamps, the handler keeps the last one.\<close>

definition demo_cfg :: wm_config where
  "demo_cfg = \<lparr>wc_Consumer = ''c'', wc_Lag = 5, wc_MaxGroups = 1\<rparr>"

definition demo_src :: "int source" where
  "demo_src = \<lparr>s_Table = ''t'', s_Poll = poll_rows id id, s_InsertedAt = id\<rparr>"

definition demo_ops :: "(int, unit, int) handler_ops" where
  "demo_ops = \<lparr>h_Handle = (\<lambda>h w rows. (h, Inr (last rows))), h_Reset = id\<rparr>"

definition demo_db :: "(int, int \<times> int list) wm_db" where
  "demo_db = \<lparr>db_rows = [8, 9, 8], db_marks = [(''c'', ''t'') \<mapsto> 8], db_out = (8, [8, 8])\<rparr>"

lemma demo_reachable:
  "(wm_step demo_cfg demo_src demo_ops)\<^sup>*\<^sup>* (10, (), fresh_db 0) (14, (), demo_db)"
proof -
  let ?db = "(fresh_db (0::int))\<lparr>db_rows := [8, 9, 8::int]\<rparr>"
  have "wm_step demo_cfg demo_src demo_ops (10, (), fresh_db 0) (12, (), ?db)"
    using wm_step.ingest [of 10 12 "[8, 9, 8]" demo_cfg demo_src demo_ops "()" "fresh_db 0"]
    by (simp add: demo_cfg_def demo_src_def LagBoundary_def fresh_db_def)
  moreover have "stage_run demo_cfg demo_src (logged demo_ops) no_faults 14 ((), ?db) = (((), demo_db), Inr 2)"
    by (simp add: stage_run_def demo_cfg_def demo_src_def demo_ops_def logged_def no_faults_def
        LagBoundary_def fresh_db_def demo_db_def mark_of_def GetWatermark_def SetWatermark_def
        poll_rows_def poll_groups_def)
  then have "wm_step demo_cfg demo_src demo_ops (12, (), ?db) (14, (), demo_db)"
    by (intro wm_step.round [where fl = no_faults and res = "Inr 2"]) simp_all
  ultimately show ?thesis by (meson rtranclp.rtrancl_refl rtranclp.rtrancl_into_rtrancl)
qed

theorem watermark_exactly_once_witness:
  "mset (handled_log demo_db) = mset (filter (\<lambda>r. 0 < s_InsertedAt demo_src r
      \<and> s_InsertedAt demo_src r \<le> mark_of demo_cfg demo_src demo_db) (db_rows demo_db))
   \<and> handled_log demo_db = [8, 8]"
  using watermark_exactly_once [of demo_cfg demo_src demo_ops 10 "()" 0 14 "()" demo_db id,
      OF demo_reachable]
  by (simp add: demo_src_def demo_cfg_def demo_db_def)

text \<open>
  C11: The consumer drains its queue. When the handler does not fail and at least one more of the
  coming rounds than rows waiting is free of faults, the loop ends: every row up to the lag boundary
  of some round has been handled, once more than before, failed rounds included in between, with
  sleeps of at most 30 seconds and the back-off reset.
\<close>

theorem consumer_drains:
  assumes "\<And>h w rows. \<exists>h' out. h_Handle ops h w rows = (h', Inr out)"
    and "s_Poll src = poll_rows (s_InsertedAt src) key" and "0 < wc_MaxGroups cfg"
    and "pending cfg src (snd (c_state c)) < length (filter (\<lambda>e. fst e = no_faults) envs)"
    and "backoff \<le> 30 * second"
  shows "\<exists>c' sleeps. drain (round_of cfg src ops) envs backoff c = Some (c', second, sleeps)
      \<and> (\<forall>d \<in> set sleeps. d \<le> 30 * second) \<and> drained cfg src (snd ` set envs) c c'"
  using poll.drain_terminates [OF assms(1,2) refl assms(3-5)] .

theorem consumer_drains_witness:
  "\<exists>c' sleeps. drain (round_of demo_cfg demo_src demo_ops)
      [(no_faults\<lparr>f_commit := True\<rparr>, 20), (no_faults, 21), (no_faults, 22), (no_faults, 23)] second
      \<lparr>c_state = ((), (fresh_db 0)\<lparr>db_rows := [8, 9]\<rparr>), c_ready = False, c_rounds = []\<rparr>
      = Some (c', second, sleeps) \<and> (\<forall>d \<in> set sleeps. d \<le> 30 * second)"
  using consumer_drains [of demo_ops demo_src id demo_cfg
      "\<lparr>c_state = ((), (fresh_db 0)\<lparr>db_rows := [8, 9]\<rparr>), c_ready = False, c_rounds = []\<rparr>"
      "[(no_faults\<lparr>f_commit := True\<rparr>, 20), (no_faults, 21), (no_faults, 22), (no_faults, 23)]" second]
  by (auto simp: demo_ops_def demo_src_def demo_cfg_def pending_def mark_of_def GetWatermark_def
      fresh_db_def no_faults_def go_time)

end
