(* ===== verification/Detector.thy ===== *)
theory Detector
  imports Watermark
begin

text \<open>
  The cycle-detector service (\<^verbatim>\<open>internal/detector/detector.go\<close>): it annotates stored cycles with
  their volume and turns dry run, continuous run and short cycling into rows of the detections
  table. The handler's maps are partial maps, or total functions where the code reads an absent key
  as the zero value. The database is the part of it the handler touches (\<open>det_db\<close>), with the
  statements of \<^verbatim>\<open>internal/store/queries/detector.sql\<close>; \<open>fails\<close> says which statement fails.
\<close>

section \<open>Configuration, state and rows\<close>

record det_config =
  dc_HealthyCyclesToClear :: nat
  dc_Window :: nat
  dc_PitAreaTTL :: duration

record pit_entry =
  pe_area :: real
  pe_valid :: bool
  pe_at :: instant

record det_handler =
  dh_pitArea :: "string \<rightharpoonup> pit_entry"
  dh_windows :: "string \<times> string \<rightharpoonup> cycle list"
  dh_active :: "string \<times> int \<Rightarrow> bool"
  dh_healthy :: "string \<times> int \<Rightarrow> nat"

text \<open>The JSON detail objects, one constructor per literal of the source.\<close>

datatype detail =
    DryRunDetail int int string
  | HealthyDetail nat
  | ContinuousDetail int string
  | ShortCyclingDetail nat string
  | SummaryDetail int int

record detection =
  d_device :: string
  d_code :: int
  d_action :: int
  d_at :: instant
  d_fcnt :: int
  d_detail :: detail

record det_db =
  dd_cycles :: "cycle_row list"
  dd_devices :: "string \<rightharpoonup> uuid option"
  dd_homes :: "uuid \<rightharpoonup> real option"
  dd_detections :: "detection list"
  dd_notes :: "notification list"

datatype det_stmt =
    QPitArea string | QCyclesBefore string | QSetVolume string int | QInsertDetection detection | QNotify

type_synonym det_fails = "det_stmt \<Rightarrow> db_error option"

section \<open>The statements\<close>

text \<open>\<^verbatim>\<open>GetDevicePitArea\<close>: no row for an unknown device; a missing home or area reads as 0.\<close>

definition GetDevicePitArea :: "det_db \<Rightarrow> string \<Rightarrow> (uuid option \<times> real) option" where
  "GetDevicePitArea db dev =
     (case dd_devices db dev of
        None \<Rightarrow> None
      | Some home \<Rightarrow>
          Some (home, case Option.bind home (dd_homes db) of Some (Some a) \<Rightarrow> a | _ \<Rightarrow> 0))"

definition ListCyclesBefore :: "det_db \<Rightarrow> string \<Rightarrow> instant \<Rightarrow> nat \<Rightarrow> cycle_row list" where
  "ListCyclesBefore db dev before limit =
     take limit (sort_key (\<lambda>r. - cr_StartedAt r)
       (filter (\<lambda>r. cr_DeviceID r = dev \<and> cr_StartedAt r < before) (dd_cycles db)))"

record volume_params =
  vp_EstVolumeL :: real
  vp_DeviceID :: string
  vp_StartedAt :: instant
  vp_FCnt :: int

definition SetCycleVolume :: "volume_params \<Rightarrow> cycle_row list \<Rightarrow> cycle_row list" where
  "SetCycleVolume p = map (\<lambda>r.
     if cr_DeviceID r = vp_DeviceID p \<and> cr_StartedAt r = vp_StartedAt p \<and> cr_FCnt r = vp_FCnt p
     then r\<lparr>cr_EstVolumeL := Some (vp_EstVolumeL p)\<rparr> else r)"

definition det_key :: "detection \<Rightarrow> string \<times> int \<times> int \<times> instant \<times> int" where
  "det_key d = (d_device d, d_code d, d_action d, d_at d, d_fcnt d)"

text \<open>\<^verbatim>\<open>InsertDetection ... ON CONFLICT DO NOTHING\<close>, with the number of rows inserted.\<close>

definition InsertDetection :: "detection \<Rightarrow> detection list \<Rightarrow> detection list \<times> nat" where
  "InsertDetection d tbl =
     (if det_key d \<in> det_key ` set tbl then (tbl, 0) else (tbl @ [d], 1))"

section \<open>The handler\<close>

definition Reset :: "det_handler \<Rightarrow> det_handler" where
  "Reset h = h\<lparr>dh_windows := Map.empty, dh_active := (\<lambda>_. False), dh_healthy := (\<lambda>_. 0)\<rparr>"

definition NewHandler :: det_handler where
  "NewHandler = \<lparr>dh_pitArea = Map.empty, dh_windows = Map.empty,
     dh_active = (\<lambda>_. False), dh_healthy = (\<lambda>_. 0)\<rparr>"

definition toCycle :: "cycle_row \<Rightarrow> cycle" where
  "toCycle r = \<lparr>cy_StartedAt = cr_StartedAt r, cy_RunS = cr_RunS r,
     cy_LevelStartMM = cr_LevelStartMm r, cy_LevelEndMM = cr_LevelEndMm r, cy_Pump = cr_PumpID r\<rparr>"

definition pit ::
  "det_config \<Rightarrow> det_fails \<Rightarrow> instant \<Rightarrow> det_db \<Rightarrow> string \<Rightarrow> det_handler
     \<Rightarrow> det_handler \<times> (db_error + (real \<times> bool))" where
  "pit cfg fails now db dev h =
     (let query =
        (case fails (QPitArea dev) of
           Some e \<Rightarrow> (h, Inl e)
         | None \<Rightarrow>
           (case GetDevicePitArea db dev of
              None \<Rightarrow>
                (h\<lparr>dh_pitArea := (dh_pitArea h)(dev \<mapsto> \<lparr>pe_area = 0, pe_valid = False, pe_at = now\<rparr>)\<rparr>,
                 Inr (0, False))
            | Some (home, area) \<Rightarrow>
                (let valid = (home \<noteq> None \<and> area > 0)
                 in (h\<lparr>dh_pitArea := (dh_pitArea h)(dev \<mapsto> \<lparr>pe_area = area, pe_valid = valid, pe_at = now\<rparr>)\<rparr>,
                     Inr (area, valid)))))
      in case dh_pitArea h dev of
           Some e \<Rightarrow> (if now - pe_at e < dc_PitAreaTTL cfg then (h, Inr (pe_area e, pe_valid e)) else query)
         | None \<Rightarrow> query)"

definition seed ::
  "det_config \<Rightarrow> det_fails \<Rightarrow> det_db \<Rightarrow> string \<Rightarrow> string \<Rightarrow> instant \<Rightarrow> det_handler
     \<Rightarrow> db_error + det_handler" where
  "seed cfg fails db dev pump before h =
     (case fails (QCyclesBefore dev) of
        Some e \<Rightarrow> Inl e
      | None \<Rightarrow>
        (let prev = ListCyclesBefore db dev before (dc_Window cfg);
             w = map toCycle (filter (\<lambda>r. cr_PumpID r = pump) (rev prev));
             h1 = h\<lparr>dh_windows := (dh_windows h)((dev, pump) \<mapsto> w)\<rparr>
         in Inr (if w \<noteq> []
                 then h1\<lparr>dh_active := (dh_active h1)
                        ((dev, DRY_RUN) := IsDryRun (last w),
                         (dev, SHORT_CYCLING) := (ShortCyclingRun w \<ge> ShortCycleMinCount))\<rparr>
                 else h1)))"

text \<open>The three parts of \<^verbatim>\<open>classify\<close> after the window is loaded, in the order of the source.\<close>

definition set_active :: "string \<times> int \<Rightarrow> bool \<Rightarrow> det_handler \<Rightarrow> det_handler" where
  "set_active k b h = h\<lparr>dh_active := (dh_active h)(k := b)\<rparr>"

definition set_healthy :: "string \<times> int \<Rightarrow> nat \<Rightarrow> det_handler \<Rightarrow> det_handler" where
  "set_healthy k n h = h\<lparr>dh_healthy := (dh_healthy h)(k := n)\<rparr>"

definition mk_detection :: "string \<Rightarrow> int \<Rightarrow> int \<Rightarrow> instant \<Rightarrow> int \<Rightarrow> detail \<Rightarrow> detection" where
  "mk_detection dev code action obs fcnt det =
     \<lparr>d_device = dev, d_code = code, d_action = action, d_at = obs, d_fcnt = fcnt, d_detail = det\<rparr>"

definition classify_dry ::
  "det_config \<Rightarrow> string \<Rightarrow> cycle_row \<Rightarrow> cycle \<Rightarrow> det_handler \<Rightarrow> det_handler \<times> detection list" where
  "classify_dry cfg dev r c h =
     (let dry = (dev, DRY_RUN)
      in if IsDryRun c then
           (let h1 = set_healthy dry 0 h
            in if \<not> dh_active h1 dry
               then (set_active dry True h1,
                     [mk_detection dev DRY_RUN ActionRaise (cr_ReceivedAt r) (cr_FCnt r)
                        (DryRunDetail (cy_RunS c) (DropMM c) (cy_Pump c))])
               else (h1, []))
         else if dh_active h dry then
           (let h1 = set_healthy dry (dh_healthy h dry + 1) h
            in if dh_healthy h1 dry \<ge> dc_HealthyCyclesToClear cfg
               then (set_active dry False h1,
                     [mk_detection dev DRY_RUN ActionClear (EndedAt c) (cr_FCnt r)
                        (HealthyDetail (dh_healthy h1 dry))])
               else (h1, []))
         else (h, []))"

definition classify_continuous :: "string \<Rightarrow> cycle_row \<Rightarrow> cycle \<Rightarrow> detection list" where
  "classify_continuous dev r c =
     (if IsContinuousRun c
      then [mk_detection dev CONTINUOUS_RUN ActionRaise (cy_StartedAt c + ContinuousRun) (cr_FCnt r)
              (ContinuousDetail (cy_RunS c) (cy_Pump c)),
            mk_detection dev CONTINUOUS_RUN ActionClear (EndedAt c) (cr_FCnt r)
              (ContinuousDetail (cy_RunS c) (cy_Pump c))]
      else [])"

definition push_window :: "det_config \<Rightarrow> string \<times> string \<Rightarrow> cycle \<Rightarrow> det_handler \<Rightarrow> cycle list" where
  "push_window cfg wk c h =
     (let w = (case dh_windows h wk of None \<Rightarrow> [] | Some w \<Rightarrow> w) @ [c]
      in if length w > dc_Window cfg then drop (length w - dc_Window cfg) w else w)"

definition classify_short ::
  "det_config \<Rightarrow> string \<Rightarrow> cycle_row \<Rightarrow> cycle \<Rightarrow> det_handler \<Rightarrow> det_handler \<times> detection list" where
  "classify_short cfg dev r c h =
     (let wk = (dev, cy_Pump c);
          w = push_window cfg wk c h;
          h1 = h\<lparr>dh_windows := (dh_windows h)(wk \<mapsto> w)\<rparr>;
          short = (dev, SHORT_CYCLING);
          run = ShortCyclingRun w
      in if run \<ge> ShortCycleMinCount then
           (let h2 = set_healthy short 0 h1
            in if \<not> dh_active h2 short
               then (set_active short True h2,
                     [mk_detection dev SHORT_CYCLING ActionRaise (EndedAt c) (cr_FCnt r)
                        (ShortCyclingDetail run (cy_Pump c))])
               else (h2, []))
         else if run = 1 \<and> dh_active h1 short then
           (let h2 = set_healthy short (dh_healthy h1 short + 1) h1
            in if dh_healthy h2 short \<ge> dc_HealthyCyclesToClear cfg
               then (set_active short False h2,
                     [mk_detection dev SHORT_CYCLING ActionClear (EndedAt c) (cr_FCnt r)
                        (HealthyDetail (dh_healthy h2 short))])
               else (h2, []))
         else (set_healthy short 0 h1, []))"

definition classify_loaded ::
  "det_config \<Rightarrow> string \<Rightarrow> cycle_row \<Rightarrow> cycle \<Rightarrow> det_handler \<Rightarrow> det_handler \<times> detection list" where
  "classify_loaded cfg dev r c h =
     (let (h1, out1) = classify_dry cfg dev r c h;
          out2 = classify_continuous dev r c;
          (h2, out3) = classify_short cfg dev r c h1
      in (h2, out1 @ out2 @ out3))"

definition classify ::
  "det_config \<Rightarrow> det_fails \<Rightarrow> det_db \<Rightarrow> string \<Rightarrow> cycle_row \<Rightarrow> cycle \<Rightarrow> det_handler
     \<Rightarrow> db_error + (det_handler \<times> detection list)" where
  "classify cfg fails db dev r c h =
     (case (if dh_windows h (dev, cy_Pump c) = None
            then seed cfg fails db dev (cy_Pump c) (cr_StartedAt r) h else Inr h) of
        Inl e \<Rightarrow> Inl e
      | Inr h0 \<Rightarrow> Inr (classify_loaded cfg dev r c h0))"

text \<open>
  \<^verbatim>\<open>Handler.Handle\<close>. Rows are grouped by device in first-seen order and each group sorted by start;
  an error leaves the handler as far as it got, the caller resets it. \<^verbatim>\<open>sort.Slice\<close> does not fix the
  order of cycles with one start; a stable sort stands for it.
\<close>

type_synonym det_acc = "det_handler \<times> volume_params list \<times> detection list"

fun handle_cycles ::
  "det_config \<Rightarrow> det_fails \<Rightarrow> det_db \<Rightarrow> string \<Rightarrow> real \<Rightarrow> bool \<Rightarrow> cycle_row list \<Rightarrow> det_acc
     \<Rightarrow> det_handler \<times> (db_error + det_acc)" where
  "handle_cycles cfg fails db dev area ok [] acc = (fst acc, Inr acc)"
| "handle_cycles cfg fails db dev area ok (r # rs) (h, volumes, dets) =
     (let c = toCycle r;
          volumes' = (if ok then volumes @ [\<lparr>vp_EstVolumeL = EstVolumeL area c, vp_DeviceID = dev,
                               vp_StartedAt = cr_StartedAt r, vp_FCnt = cr_FCnt r\<rparr>]
                      else volumes)
      in case classify cfg fails db dev r c h of
           Inl e \<Rightarrow> (h, Inl e)
         | Inr (h', d) \<Rightarrow> handle_cycles cfg fails db dev area ok rs (h', volumes', dets @ d))"

fun handle_devices ::
  "det_config \<Rightarrow> det_fails \<Rightarrow> instant \<Rightarrow> det_db \<Rightarrow> cycle_row list \<Rightarrow> string list \<Rightarrow> det_acc
     \<Rightarrow> det_handler \<times> (db_error + det_acc)" where
  "handle_devices cfg fails now db rows [] acc = (fst acc, Inr acc)"
| "handle_devices cfg fails now db rows (dev # order) (h, volumes, dets) =
     (let cycles = sort_key cr_StartedAt (filter (\<lambda>r. cr_DeviceID r = dev) rows)
      in case pit cfg fails now db dev h of
           (h1, Inl e) \<Rightarrow> (h1, Inl e)
         | (h1, Inr (area, ok)) \<Rightarrow>
           (case handle_cycles cfg fails db dev area ok cycles (h1, volumes, dets) of
              (h2, Inl e) \<Rightarrow> (h2, Inl e)
            | (h2, Inr acc) \<Rightarrow> handle_devices cfg fails now db rows order acc))"

fun first_seen :: "string list \<Rightarrow> string list \<Rightarrow> string list" where
  "first_seen order [] = order"
| "first_seen order (d # ds) = first_seen (if d \<in> set order then order else order @ [d]) ds"

text \<open>The batch: the first error wins, and the transaction is then rolled back by the caller.\<close>

fun set_volumes :: "det_fails \<Rightarrow> volume_params list \<Rightarrow> cycle_row list \<Rightarrow> db_error + cycle_row list" where
  "set_volumes fails [] tbl = Inr tbl"
| "set_volumes fails (p # ps) tbl =
     (case fails (QSetVolume (vp_DeviceID p) (vp_FCnt p)) of
        Some e \<Rightarrow> Inl e
      | None \<Rightarrow> set_volumes fails ps (SetCycleVolume p tbl))"

fun insert_detections ::
  "det_fails \<Rightarrow> detection list \<Rightarrow> detection list \<Rightarrow> nat \<Rightarrow> db_error + (detection list \<times> nat)" where
  "insert_detections fails [] tbl inserted = Inr (tbl, inserted)"
| "insert_detections fails (d # ds) tbl inserted =
     (case fails (QInsertDetection d) of
        Some e \<Rightarrow> Inl e
      | None \<Rightarrow>
        (case InsertDetection d tbl of
           (tbl', n) \<Rightarrow> insert_detections fails ds tbl' (if n > 0 then inserted + 1 else inserted)))"

definition writeDetections :: "det_fails \<Rightarrow> detection list \<Rightarrow> det_db \<Rightarrow> db_error + det_db" where
  "writeDetections fails dets db =
     (case insert_detections fails dets (dd_detections db) 0 of
        Inl e \<Rightarrow> Inl e
      | Inr (tbl, inserted) \<Rightarrow>
        (let db1 = db\<lparr>dd_detections := tbl\<rparr>
         in if inserted > 0
            then (case fails QNotify of
                    Some e \<Rightarrow> Inl e
                  | None \<Rightarrow> Inr (db1\<lparr>dd_notes := dd_notes db1 @
                      [\<lparr>n_Table = ''detections'', n_N = inserted,
                        n_MinTS = d_at (hd dets), n_MaxTS = d_at (last dets)\<rparr>]\<rparr>))
            else Inr db1))"

definition detector_Handle ::
  "det_config \<Rightarrow> det_fails \<Rightarrow> instant \<Rightarrow> det_handler \<Rightarrow> det_db \<Rightarrow> cycle_row list
     \<Rightarrow> det_handler \<times> (db_error + det_db)" where
  "detector_Handle cfg fails now h db rows =
     (case handle_devices cfg fails now db rows (first_seen [] (map cr_DeviceID rows)) (h, [], []) of
        (h', Inl e) \<Rightarrow> (h', Inl e)
      | (h', Inr (_, volumes, dets)) \<Rightarrow>
        (case set_volumes fails volumes (dd_cycles db) of
           Inl e \<Rightarrow> (h', Inl e)
         | Inr tbl \<Rightarrow> (h', writeDetections fails dets (db\<lparr>dd_cycles := tbl\<rparr>))))"

section \<open>The storm-summary stage\<close>

definition summary_step ::
  "det_config \<Rightarrow> summary_row \<Rightarrow> det_handler \<times> detection list \<Rightarrow> det_handler \<times> detection list" where
  "summary_step cfg r = (\<lambda>(h, dets).
     (let key = (sr_DeviceID r, SHORT_CYCLING);
          short = SummaryShortCycling (sr_CycleCount r) (sr_WindowS r);
          det = SummaryDetail (sr_CycleCount r) (sr_WindowS r)
      in if short \<and> \<not> dh_active h key then
           (set_healthy key 0 (set_active key True h),
            dets @ [mk_detection (sr_DeviceID r) SHORT_CYCLING ActionRaise (sr_WindowEnd r) (sr_FCnt r) det])
         else if short then (set_healthy key 0 h, dets)
         else if dh_active h key then
           (let h1 = set_healthy key (dh_healthy h key + 1) h
            in if dh_healthy h1 key \<ge> dc_HealthyCyclesToClear cfg
               then (set_active key False h1,
                     dets @ [mk_detection (sr_DeviceID r) SHORT_CYCLING ActionClear (sr_WindowEnd r)
                               (sr_FCnt r) det])
               else (h1, dets))
         else (h, dets)))"

definition summary_Handle ::
  "det_config \<Rightarrow> det_fails \<Rightarrow> det_handler \<Rightarrow> det_db \<Rightarrow> summary_row list
     \<Rightarrow> det_handler \<times> (db_error + det_db)" where
  "summary_Handle cfg fails h db rows =
     (let (h', dets) = fold (summary_step cfg) rows (h, [])
      in (h', writeDetections fails dets db))"

text \<open>The two stages of \<^verbatim>\<open>AddStages\<close>: their sources, and the handlers sharing one state.\<close>

definition cycle_Source :: "cycle_row source" where
  "cycle_Source = \<lparr>s_Table = ''cycle_events'', s_Poll = PollCycleEvents, s_InsertedAt = cr_InsertedAt\<rparr>"

definition SummarySource :: "summary_row source" where
  "SummarySource =
     \<lparr>s_Table = ''storm_summaries'', s_Poll = PollStormSummaries, s_InsertedAt = sr_InsertedAt\<rparr>"

definition detector_ops ::
  "det_config \<Rightarrow> det_fails \<Rightarrow> instant \<Rightarrow> (cycle_row, det_handler, det_db) handler_ops" where
  "detector_ops cfg fails now = \<lparr>h_Handle = detector_Handle cfg fails now, h_Reset = Reset\<rparr>"

definition summary_ops ::
  "det_config \<Rightarrow> det_fails \<Rightarrow> (summary_row, det_handler, det_db) handler_ops" where
  "summary_ops cfg fails = \<lparr>h_Handle = summary_Handle cfg fails, h_Reset = Reset\<rparr>"

section \<open>Raise and clear alternate\<close>

text \<open>
  A step of a tracked condition emits actions that alternate from its active flag: a raise when it
  was inactive, a clear when it was active. The contract is stated once for any step on the handler
  and holds for the cycle stage (after the windows are loaded) and for the summary stage.
\<close>

fun alternates :: "bool \<Rightarrow> int list \<Rightarrow> bool \<Rightarrow> bool" where
  "alternates a [] b = (a = b)"
| "alternates a (x # xs) b = (x = (if a then ActionClear else ActionRaise) \<and> alternates (\<not> a) xs b)"

definition acts :: "string \<times> int \<Rightarrow> detection list \<Rightarrow> int list" where
  "acts k dets = map d_action (filter (\<lambda>d. (d_device d, d_code d) = k) dets)"

lemma acts_append [simp]: "acts k (xs @ ys) = acts k xs @ acts k ys" "acts k [] = []"
  by (simp_all add: acts_def)

lemma acts_Cons [simp]:
  "acts k (d # ds) = (if (d_device d, d_code d) = k then d_action d # acts k ds else acts k ds)"
  by (simp add: acts_def)

lemma alternates_append: "alternates a xs b \<Longrightarrow> alternates b ys c \<Longrightarrow> alternates a (xs @ ys) c"
  by (induction xs arbitrary: a) auto

lemma mk_detection_sel [simp]:
  "d_device (mk_detection a b c e f g) = a" "d_code (mk_detection a b c e f g) = b"
  "d_action (mk_detection a b c e f g) = c" "d_at (mk_detection a b c e f g) = e"
  by (simp_all add: mk_detection_def)

lemma set_active_sel [simp]:
  "dh_active (set_active k b h) = (dh_active h)(k := b)" "dh_healthy (set_active k b h) = dh_healthy h"
  "dh_windows (set_active k b h) = dh_windows h"
  "dh_active (set_healthy k n h) = dh_active h" "dh_healthy (set_healthy k n h) = (dh_healthy h)(k := n)"
  "dh_windows (set_healthy k n h) = dh_windows h"
  by (simp_all add: set_active_def set_healthy_def)

fun collect :: "('r \<Rightarrow> 's \<Rightarrow> 's \<times> 'd list) \<Rightarrow> 'r list \<Rightarrow> 's \<Rightarrow> 's \<times> 'd list" where
  "collect step [] h = (h, [])"
| "collect step (r # rs) h =
     (case step r h of (h1, d) \<Rightarrow> (case collect step rs h1 of (h2, ds) \<Rightarrow> (h2, d @ ds)))"

locale condition_tracker =
  fixes step :: "'r \<Rightarrow> det_handler \<Rightarrow> det_handler \<times> detection list"
    and key :: "string \<times> int"
  assumes step_alternates:
    "alternates (dh_active h key) (acts key (snd (step r h))) (dh_active (fst (step r h)) key)"
begin

lemma collect_alternates:
  "alternates (dh_active h key) (acts key (snd (collect step rs h)))
     (dh_active (fst (collect step rs h)) key)"
proof (induction rs arbitrary: h)
  case (Cons r rs)
  then show ?case
    using alternates_append [OF step_alternates [of h r] Cons.IH [of "fst (step r h)"]]
    by (simp add: split_beta)
qed simp

text \<open>Hence the actions emitted never repeat, and a clear is never emitted for an inactive condition.\<close>

lemma collect_first:
  assumes "acts key (snd (collect step rs h)) = x # xs"
  shows "x = (if dh_active h key then ActionClear else ActionRaise)"
  using collect_alternates [of h rs] assms by simp

end

lemma classify_dry_alternates:
  "alternates (dh_active h (d, DRY_RUN)) (acts (d, DRY_RUN) (snd (classify_dry cfg dev r c h)))
     (dh_active (fst (classify_dry cfg dev r c h)) (d, DRY_RUN))"
  by (auto simp: classify_dry_def Let_def)

lemma classify_short_alternates:
  "alternates (dh_active h (d, SHORT_CYCLING)) (acts (d, SHORT_CYCLING) (snd (classify_short cfg dev r c h)))
     (dh_active (fst (classify_short cfg dev r c h)) (d, SHORT_CYCLING))"
  by (auto simp: classify_short_def Let_def)

lemma classify_other_codes:
  "acts (d, SHORT_CYCLING) (snd (classify_dry cfg dev r c h)) = []"
  "dh_active (fst (classify_dry cfg dev r c h)) (d, SHORT_CYCLING) = dh_active h (d, SHORT_CYCLING)"
  "acts (d, DRY_RUN) (snd (classify_short cfg dev r c h)) = []"
  "dh_active (fst (classify_short cfg dev r c h)) (d, DRY_RUN) = dh_active h (d, DRY_RUN)"
  "dh_healthy (fst (classify_short cfg dev r c h)) (d, DRY_RUN) = dh_healthy h (d, DRY_RUN)"
  "acts (d, DRY_RUN) (classify_continuous dev r c) = []"
  "acts (d, SHORT_CYCLING) (classify_continuous dev r c) = []"
  by (auto simp: classify_dry_def classify_short_def classify_continuous_def Let_def code_defs)

lemma classify_loaded_alternates:
  "alternates (dh_active h (d, code)) (acts (d, code) (snd (classify_loaded cfg dev r c h)))
     (dh_active (fst (classify_loaded cfg dev r c h)) (d, code))"
  if "code = DRY_RUN \<or> code = SHORT_CYCLING"
  using that classify_dry_alternates [of h d cfg dev r c]
    classify_short_alternates [of "fst (classify_dry cfg dev r c h)" d cfg dev r c]
  by (auto simp: classify_loaded_def split_beta classify_other_codes)

abbreviation cycle_step :: "det_config \<Rightarrow> cycle_row \<Rightarrow> det_handler \<Rightarrow> det_handler \<times> detection list" where
  "cycle_step cfg r \<equiv> classify_loaded cfg (cr_DeviceID r) r (toCycle r)"

interpretation dry: condition_tracker "cycle_step cfg" "(d, DRY_RUN)" for cfg d
  by unfold_locales (simp add: classify_loaded_alternates)

interpretation short: condition_tracker "cycle_step cfg" "(d, SHORT_CYCLING)" for cfg d
  by unfold_locales (simp add: classify_loaded_alternates)

interpretation summary: condition_tracker "\<lambda>r h. summary_step cfg r (h, [])" "(d, SHORT_CYCLING)" for cfg d
  by unfold_locales (auto simp: summary_step_def Let_def)

lemma summary_step_acc:
  "summary_step cfg r (h, dets) =
     (fst (summary_step cfg r (h, [])), dets @ snd (summary_step cfg r (h, [])))"
  by (auto simp: summary_step_def Let_def)

lemma summary_fold_collect:
  "fold (summary_step cfg) rows (h, dets) =
     (fst (collect (\<lambda>r h. summary_step cfg r (h, [])) rows h),
      dets @ snd (collect (\<lambda>r h. summary_step cfg r (h, [])) rows h))"
proof (induction rows arbitrary: h dets)
  case (Cons r rows)
  show ?case
    by (simp add: summary_step_acc [of cfg r h dets] Cons.IH split_beta)
qed simp

section \<open>The loop of Handle\<close>

definition loaded :: "det_handler \<Rightarrow> cycle_row list \<Rightarrow> bool" where
  "loaded h rows \<longleftrightarrow> (\<forall>r \<in> set rows. dh_windows h (cr_DeviceID r, cr_PumpID r) \<noteq> None)"

definition vol_params :: "string \<Rightarrow> real \<Rightarrow> cycle_row \<Rightarrow> volume_params" where
  "vol_params dev area r = \<lparr>vp_EstVolumeL = EstVolumeL area (toCycle r), vp_DeviceID = dev,
     vp_StartedAt = cr_StartedAt r, vp_FCnt = cr_FCnt r\<rparr>"

lemma cy_Pump_toCycle [simp]: "cy_Pump (toCycle r) = cr_PumpID r"
  by (simp add: toCycle_def)

lemma classify_loaded_keeps:
  "dh_windows h k \<noteq> None \<Longrightarrow> dh_windows (fst (classify_loaded cfg dev r c h)) k \<noteq> None"
  "dh_pitArea (fst (classify_loaded cfg dev r c h)) = dh_pitArea h"
  by (auto simp: classify_loaded_def classify_dry_def classify_short_def Let_def split_beta
      set_active_def set_healthy_def)

lemma classify_keeps_pit:
  "classify cfg fails db dev r c h = Inr (h', d) \<Longrightarrow> dh_pitArea h' = dh_pitArea h"
  using classify_loaded_keeps(2) [of cfg dev r c]
  by (auto simp: classify_def seed_def Let_def split: if_splits sum.splits option.splits)
    (metis (no_types, lifting) fst_conv det_handler.select_convs(1) det_handler.surjective
      det_handler.update_convs(2,3))+

lemma handle_cycles_volumes:
  "handle_cycles cfg fails db dev area ok rows (h, v, d) = (h', Inr (h'', v', d')) \<Longrightarrow>
     h'' = h' \<and> v' = v @ (if ok then map (vol_params dev area) rows else [])
     \<and> dh_pitArea h' = dh_pitArea h"
proof (induction rows arbitrary: h v d)
  case (Cons r rows)
  then show ?case
    using classify_keeps_pit [of cfg fails db dev r "toCycle r" h]
    by (fastforce simp: Let_def vol_params_def split: sum.splits prod.splits)
qed auto

lemma handle_cycles_collect:
  "loaded h rows \<Longrightarrow> \<forall>r \<in> set rows. cr_DeviceID r = dev \<Longrightarrow>
     handle_cycles cfg fails db dev area ok rows (h, v, d) =
       (fst (collect (cycle_step cfg) rows h),
        Inr (fst (collect (cycle_step cfg) rows h),
             v @ (if ok then map (vol_params dev area) rows else []),
             d @ snd (collect (cycle_step cfg) rows h)))"
proof (induction rows arbitrary: h v d)
  case (Cons r rows)
  have "classify cfg fails db dev r (toCycle r) h = Inr (cycle_step cfg r h)"
    using Cons.prems by (auto simp: classify_def loaded_def)
  moreover have "loaded (fst (cycle_step cfg r h)) rows"
    using Cons.prems(1) classify_loaded_keeps(1) by (auto simp: loaded_def)
  ultimately show ?case
    using Cons.IH [of "fst (cycle_step cfg r h)"] Cons.prems(2)
    by (cases ok) (simp_all add: Let_def split_beta vol_params_def)
qed simp

lemma collect_loaded:
  "loaded h rows \<Longrightarrow> loaded (fst (collect (cycle_step cfg) rs h)) rows"
proof (induction rs arbitrary: h)
  case (Cons r rs)
  have "loaded (fst (cycle_step cfg r h)) rows"
    using Cons.prems classify_loaded_keeps(1) by (auto simp: loaded_def)
  then show ?case using Cons.IH by (simp add: split_beta)
qed simp

lemma pit_keeps:
  "pit cfg fails now db dev h = (h1, res) \<Longrightarrow>
     dh_windows h1 = dh_windows h \<and> dh_active h1 = dh_active h \<and> dh_healthy h1 = dh_healthy h
     \<and> (\<forall>x. x \<noteq> dev \<longrightarrow> dh_pitArea h1 x = dh_pitArea h x)"
  by (auto simp: pit_def Let_def split: option.splits if_splits)

lemma set_first_seen: "set (first_seen order ds) = set order \<union> set ds"
  by (induction ds arbitrary: order) auto

lemma distinct_first_seen: "distinct order \<Longrightarrow> distinct (first_seen order ds)"
  by (induction ds arbitrary: order) auto

text \<open>What the loop over devices collects: the volumes of the batch, and alternating actions.\<close>

definition pit_value :: "det_config \<Rightarrow> det_fails \<Rightarrow> instant \<Rightarrow> det_db \<Rightarrow> det_handler \<Rightarrow> string \<Rightarrow> real option" where
  "pit_value cfg fails now db h dev =
     (case snd (pit cfg fails now db dev h) of Inr (area, True) \<Rightarrow> Some area | _ \<Rightarrow> None)"

lemma pit_value_cong: "dh_pitArea h1 dev = dh_pitArea h2 dev \<Longrightarrow>
  pit_value cfg fails now db h1 dev = pit_value cfg fails now db h2 dev"
  by (auto simp: pit_value_def pit_def Let_def split: option.splits)

definition wanted_volumes where
  "wanted_volumes cfg fails now db h rows devs =
     (\<Union>r \<in> {r \<in> set rows. cr_DeviceID r \<in> devs}.
        case pit_value cfg fails now db h (cr_DeviceID r) of
          None \<Rightarrow> {} | Some a \<Rightarrow> {vol_params (cr_DeviceID r) a r})"

lemma wanted_volumes_cong:
  "(\<And>x. x \<in> devs \<Longrightarrow> pit_value cfg fails now db h1 x = pit_value cfg fails now db h2 x) \<Longrightarrow>
     wanted_volumes cfg fails now db h1 rows devs = wanted_volumes cfg fails now db h2 rows devs"
  unfolding wanted_volumes_def by (rule SUP_cong) simp_all

lemma handle_devices_volumes:
  "handle_devices cfg fails now db rows order (h, v, d) = (h', Inr (h'', v', d')) \<Longrightarrow> distinct order \<Longrightarrow>
     set v' = set v \<union> wanted_volumes cfg fails now db h rows (set order)"
proof (induction order arbitrary: h v d)
  case Nil
  then show ?case by (simp add: wanted_volumes_def)
next
  case (Cons dev order)
  let ?cycles = "sort_key cr_StartedAt (filter (\<lambda>r. cr_DeviceID r = dev) rows)"
  obtain h1 area ok where pit: "pit cfg fails now db dev h = (h1, Inr (area, ok))"
    using Cons.prems(1) by (auto simp: Let_def split: prod.splits sum.splits)
  obtain h2 acc where hc: "handle_cycles cfg fails db dev area ok ?cycles (h1, v, d) = (h2, Inr acc)"
    and rest: "handle_devices cfg fails now db rows order acc = (h', Inr (h'', v', d'))"
    using Cons.prems(1) pit by (auto simp: Let_def split: prod.splits sum.splits)
  obtain h3 v2 d2 where acc: "acc = (h3, v2, d2)" by (metis prod.exhaust)
  note vols = handle_cycles_volumes [OF hc [unfolded acc]]
  have "pit_value cfg fails now db h2 x = pit_value cfg fails now db h x" if "x \<noteq> dev" for x
    using that vols pit_keeps [OF pit] by (intro pit_value_cong) simp
  then have "wanted_volumes cfg fails now db h2 rows (set order) =
      wanted_volumes cfg fails now db h rows (set order)"
    using Cons.prems(2) by (intro wanted_volumes_cong) (metis distinct.simps(2))
  moreover have "set v2 = set v \<union> wanted_volumes cfg fails now db h rows {dev}"
    using vols pit by (cases ok) (auto simp: wanted_volumes_def pit_value_def)
  moreover have "set v' = set v2 \<union> wanted_volumes cfg fails now db h2 rows (set order)"
    using Cons.IH rest acc vols Cons.prems(2) by simp
  ultimately show ?case by (auto simp: wanted_volumes_def)
qed

lemma handle_devices_alternates:
  "handle_devices cfg fails now db rows order (h, v, d) = (h', Inr (h'', v', d')) \<Longrightarrow> loaded h rows \<Longrightarrow>
     code = DRY_RUN \<or> code = SHORT_CYCLING \<Longrightarrow>
     \<exists>ds. d' = d @ ds \<and> alternates (dh_active h (x, code)) (acts (x, code) ds) (dh_active h'' (x, code))"
proof (induction order arbitrary: h v d)
  case Nil
  then show ?case by auto
next
  case (Cons dev order)
  let ?cycles = "sort_key cr_StartedAt (filter (\<lambda>r. cr_DeviceID r = dev) rows)"
  obtain h1 area ok where pit: "pit cfg fails now db dev h = (h1, Inr (area, ok))"
    using Cons.prems(1) by (auto simp: Let_def split: prod.splits sum.splits)
  let ?c = "collect (cycle_step cfg) ?cycles h1"
  have l1: "loaded h1 rows" using Cons.prems(2) pit_keeps [OF pit] by (simp add: loaded_def)
  have hc: "handle_cycles cfg fails db dev area ok ?cycles (h1, v, d) =
      (fst ?c, Inr (fst ?c, v @ (if ok then map (vol_params dev area) ?cycles else []), d @ snd ?c))"
    using l1 by (intro handle_cycles_collect) (auto simp: loaded_def)
  have rest: "handle_devices cfg fails now db rows order
      (fst ?c, v @ (if ok then map (vol_params dev area) ?cycles else []), d @ snd ?c) =
      (h', Inr (h'', v', d'))"
    using Cons.prems(1) pit hc by (simp add: Let_def)
  obtain ds where ds: "d' = (d @ snd ?c) @ ds"
    "alternates (dh_active (fst ?c) (x, code)) (acts (x, code) ds) (dh_active h'' (x, code))"
    using Cons.IH [OF rest collect_loaded [OF l1] Cons.prems(3)] by blast
  have "alternates (dh_active h1 (x, code)) (acts (x, code) (snd ?c)) (dh_active (fst ?c) (x, code))"
    using Cons.prems(3) dry.collect_alternates short.collect_alternates by blast
  from alternates_append [OF this ds(2)] show ?case
    using ds(1) pit_keeps [OF pit] by (intro exI [of _ "snd ?c @ ds"]) simp
qed

section \<open>Writing volumes and detections\<close>

definition vol_matches :: "volume_params \<Rightarrow> cycle_row \<Rightarrow> bool" where
  "vol_matches p r \<longleftrightarrow>
     cr_DeviceID r = vp_DeviceID p \<and> cr_StartedAt r = vp_StartedAt p \<and> cr_FCnt r = vp_FCnt p"

lemma vol_matches_update [simp]: "vol_matches p (r\<lparr>cr_EstVolumeL := e\<rparr>) = vol_matches p r"
  by (simp add: vol_matches_def)

lemma set_volumes_map:
  "set_volumes fails ps tbl = Inr tbl' \<Longrightarrow>
     tbl' = map (\<lambda>r. fold (\<lambda>p r. if vol_matches p r then r\<lparr>cr_EstVolumeL := Some (vp_EstVolumeL p)\<rparr> else r) ps r) tbl"
proof (induction ps arbitrary: tbl)
  case (Cons p ps)
  then show ?case
    using Cons.IH [of "SetCycleVolume p tbl"]
    by (auto simp: SetCycleVolume_def vol_matches_def split: option.splits)
qed simp

lemma fold_volumes:
  assumes "\<And>p. p \<in> set ps \<Longrightarrow> vol_matches p r \<Longrightarrow> vp_EstVolumeL p = a"
  shows "fold (\<lambda>p r. if vol_matches p r then r\<lparr>cr_EstVolumeL := Some (vp_EstVolumeL p)\<rparr> else r) ps r =
    (if \<exists>p \<in> set ps. vol_matches p r then r\<lparr>cr_EstVolumeL := Some a\<rparr> else r)"
  using assms
proof (induction ps arbitrary: r)
  case (Cons p ps)
  show ?case
    using Cons.IH [of r] Cons.IH [of "r\<lparr>cr_EstVolumeL := Some (vp_EstVolumeL p)\<rparr>"] Cons.prems by auto
qed simp

lemma insert_detections_keys:
  "insert_detections fails ds tbl n = Inr (tbl', n') \<Longrightarrow> distinct (map det_key tbl) \<Longrightarrow>
     distinct (map det_key tbl') \<and> det_key ` set tbl' = det_key ` set tbl \<union> det_key ` set ds
     \<and> n' + length tbl = n + length tbl' \<and> (\<exists>new. tbl' = tbl @ new)"
proof (induction ds arbitrary: tbl n)
  case (Cons d ds)
  have ok: "fails (QInsertDetection d) = None"
    using Cons.prems(1) by (cases "fails (QInsertDetection d)") auto
  show ?case
  proof (cases "det_key d \<in> det_key ` set tbl")
    case True
    then have "insert_detections fails ds tbl n = Inr (tbl', n')"
      using Cons.prems(1) ok by (simp add: InsertDetection_def)
    from Cons.IH [OF this Cons.prems(2)] show ?thesis using True by auto
  next
    case False
    then have "insert_detections fails ds (tbl @ [d]) (n + 1) = Inr (tbl', n')"
      using Cons.prems(1) ok by (simp add: InsertDetection_def)
    moreover have "distinct (map det_key (tbl @ [d]))" using Cons.prems(2) False by auto
    ultimately have ih: "distinct (map det_key tbl')
        \<and> det_key ` set tbl' = det_key ` set (tbl @ [d]) \<union> det_key ` set ds
        \<and> n' + length (tbl @ [d]) = n + 1 + length tbl' \<and> (\<exists>new. tbl' = (tbl @ [d]) @ new)"
      by (rule Cons.IH)
    then show ?thesis by simp (metis append_Cons)
  qed
qed auto

lemma insert_detections_present:
  "det_key ` set ds \<subseteq> det_key ` set tbl \<Longrightarrow> (\<And>d. d \<in> set ds \<Longrightarrow> fails (QInsertDetection d) = None) \<Longrightarrow>
     insert_detections fails ds tbl n = Inr (tbl, n)"
  by (induction ds) (auto simp: InsertDetection_def)

section \<open>The handler's invariant\<close>

text \<open>A window holds at most \<^verbatim>\<open>Window\<close> cycles, all of its pump.\<close>

definition window_ok :: "det_config \<Rightarrow> string \<times> string \<Rightarrow> cycle list \<Rightarrow> bool" where
  "window_ok cfg k w \<longleftrightarrow> length w \<le> dc_Window cfg \<and> (\<forall>c \<in> set w. cy_Pump c = snd k)"

definition det_inv :: "det_config \<Rightarrow> det_handler \<Rightarrow> bool" where
  "det_inv cfg h \<longleftrightarrow> (\<forall>k w. dh_windows h k = Some w \<longrightarrow> window_ok cfg k w)"

lemma det_invI:
  "det_inv cfg h \<Longrightarrow> window_ok cfg k w \<Longrightarrow> det_inv cfg (h\<lparr>dh_windows := (dh_windows h)(k \<mapsto> w)\<rparr>)"
  by (simp add: det_inv_def)

lemma det_inv_windows: "dh_windows h' = dh_windows h \<Longrightarrow> det_inv cfg h' = det_inv cfg h"
  by (simp add: det_inv_def)

lemma push_window_ok:
  assumes "det_inv cfg h"
  shows "window_ok cfg (dev, cy_Pump c) (push_window cfg (dev, cy_Pump c) c h)"
proof -
  define w where "w = (case dh_windows h (dev, cy_Pump c) of None \<Rightarrow> [] | Some w \<Rightarrow> w) @ [c]"
  have "\<forall>x \<in> set w. cy_Pump x = cy_Pump c"
    using assms
    by (cases "dh_windows h (dev, cy_Pump c)") (auto simp: w_def det_inv_def window_ok_def)
  then show ?thesis
    using set_drop_subset [of "length w - dc_Window cfg" w]
    by (auto simp: push_window_def Let_def window_ok_def simp flip: w_def)
qed

lemma classify_short_windows:
  "dh_windows (fst (classify_short cfg dev r c h)) =
     (dh_windows h)((dev, cy_Pump c) \<mapsto> push_window cfg (dev, cy_Pump c) c h)"
  by (simp add: classify_short_def Let_def)

lemma classify_dry_windows: "dh_windows (fst (classify_dry cfg dev r c h)) = dh_windows h"
  by (simp add: classify_dry_def Let_def)

lemma det_inv_classify_loaded:
  assumes "det_inv cfg h"
  shows "det_inv cfg (fst (classify_loaded cfg dev r c h))"
proof -
  let ?h = "fst (classify_dry cfg dev r c h)"
  have "det_inv cfg ?h" using assms by (simp add: det_inv_def classify_dry_windows)
  then show ?thesis
    using push_window_ok [of cfg ?h dev c]
    by (auto simp: det_inv_def classify_loaded_def split_beta classify_short_windows)
qed

lemma det_inv_seed:
  "seed cfg fails db dev pump before h = Inr h' \<Longrightarrow> det_inv cfg h \<Longrightarrow> det_inv cfg h'"
proof -
  let ?w = "map toCycle (filter (\<lambda>r. cr_PumpID r = pump) (rev (ListCyclesBefore db dev before (dc_Window cfg))))"
  have "window_ok cfg (dev, pump) ?w"
    using length_filter_le [of "\<lambda>r. cr_PumpID r = pump" "rev (ListCyclesBefore db dev before (dc_Window cfg))"]
    by (auto simp: window_ok_def ListCyclesBefore_def)
  then show "seed cfg fails db dev pump before h = Inr h' \<Longrightarrow> det_inv cfg h \<Longrightarrow> det_inv cfg h'"
    by (auto simp: seed_def det_inv_def Let_def split: option.splits if_splits)
qed

lemma det_inv_classify:
  "classify cfg fails db dev r c h = Inr (h', d) \<Longrightarrow> det_inv cfg h \<Longrightarrow> det_inv cfg h'"
  using det_inv_classify_loaded det_inv_seed
  by (auto simp: classify_def split: sum.splits if_splits) (metis fst_conv)+

lemma det_inv_handle_cycles:
  "handle_cycles cfg fails db dev area ok rows (h, v, d) = (h', res) \<Longrightarrow> det_inv cfg h \<Longrightarrow>
     det_inv cfg h' \<and> (\<forall>h'' v' d'. res = Inr (h'', v', d') \<longrightarrow> h'' = h')"
proof (induction rows arbitrary: h v d)
  case (Cons r rows)
  then show ?case
    using det_inv_classify [of cfg fails db dev r "toCycle r" h]
    by (auto simp: Let_def split: sum.splits prod.splits)
qed auto

lemma det_inv_handle_devices:
  "handle_devices cfg fails now db rows order (h, v, d) = (h', res) \<Longrightarrow> det_inv cfg h \<Longrightarrow> det_inv cfg h'"
proof (induction order arbitrary: h v d)
  case (Cons dev order)
  obtain h1 r1 where pit: "pit cfg fails now db dev h = (h1, r1)" by fastforce
  have i1: "det_inv cfg h1" using Cons.prems(2) pit_keeps [OF pit] by (simp add: det_inv_def)
  show ?case
  proof (cases r1)
    case (Inl e)
    then show ?thesis using Cons.prems(1) pit i1 by simp
  next
    case (Inr p)
    obtain area ok where p: "p = (area, ok)" by fastforce
    let ?cycles = "sort_key cr_StartedAt (filter (\<lambda>r. cr_DeviceID r = dev) rows)"
    obtain h2 r2 where hc: "handle_cycles cfg fails db dev area ok ?cycles (h1, v, d) = (h2, r2)"
      by fastforce
    note i2 = det_inv_handle_cycles [OF hc i1]
    show ?thesis
    proof (cases r2)
      case (Inl e)
      then show ?thesis using Cons.prems(1) pit hc i2 Inr p by simp
    next
      case r2: (Inr acc)
      obtain h3 v2 d2 where "acc = (h3, v2, d2)" by (metis prod.exhaust)
      then show ?thesis
        using Cons.IH [of h3 v2 d2] Cons.prems(1) pit hc i2 Inr p r2 by simp
    qed
  qed
qed simp

text \<open>Cycles that are not dry leave an inactive dry run alone.\<close>

lemma dry_stays_inactive:
  "\<forall>r \<in> set rs. cr_DeviceID r = dev \<and> \<not> IsDryRun (toCycle r) \<Longrightarrow> \<not> dh_active h (dev, DRY_RUN) \<Longrightarrow>
     acts (dev, DRY_RUN) (snd (collect (cycle_step cfg) rs h)) = []
     \<and> \<not> dh_active (fst (collect (cycle_step cfg) rs h)) (dev, DRY_RUN)"
proof (induction rs arbitrary: h)
  case (Cons r rs)
  have "acts (dev, DRY_RUN) (snd (cycle_step cfg r h)) = []
      \<and> \<not> dh_active (fst (cycle_step cfg r h)) (dev, DRY_RUN)"
    using Cons.prems by (simp add: classify_loaded_def split_beta classify_other_codes)
      (simp add: classify_dry_def)
  then show ?case using Cons.IH Cons.prems(1) by (simp add: split_beta)
qed simp

section \<open>Properties\<close>

text \<open>
  C12: Raises and clears alternate. With the windows of the batch loaded, the detections a successful
  loop of \<^verbatim>\<open>Handle\<close> emits for a device's dry run (or short cycling) alternate, starting with a raise
  if the condition was inactive and with a clear if it was active, and the handler's flag afterwards
  agrees with the last action emitted.
\<close>

theorem detections_alternate:
  assumes "handle_devices cfg fails now db rows order (h, [], []) = (h', Inr (h'', volumes, dets))"
    and "loaded h rows" and "code = DRY_RUN \<or> code = SHORT_CYCLING"
  shows "alternates (dh_active h (dev, code)) (acts (dev, code) dets) (dh_active h'' (dev, code))"
  using handle_devices_alternates [OF assms] by auto

text \<open>
  The summary stage keeps the same discipline: the short-cycling actions it hands to
  \<^verbatim>\<open>writeDetections\<close> alternate from the flag the cycle stage left.
\<close>

theorem summary_alternates:
  "case fold (summary_step cfg) rows (h, []) of (h', dets) \<Rightarrow>
     alternates (dh_active h (dev, SHORT_CYCLING)) (acts (dev, SHORT_CYCLING) dets)
       (dh_active h' (dev, SHORT_CYCLING))"
  using summary.collect_alternates [of h dev cfg rows] by (simp add: summary_fold_collect split_beta)

text \<open>
  When a dry run clears. Starting active with \<open>k\<close> healthy cycles counted, a series of cycles of
  the device that are not dry emits nothing for the condition until the count reaches
  \<^verbatim>\<open>HealthyCyclesToClear\<close>, then exactly one clear, and the condition is inactive from there on.
\<close>

theorem dry_run_clears_after:
  assumes "\<forall>r \<in> set rows. cr_DeviceID r = dev \<and> \<not> IsDryRun (toCycle r)"
    and "dh_active h (dev, DRY_RUN)" and "dh_healthy h (dev, DRY_RUN) < dc_HealthyCyclesToClear cfg"
  shows "let (h', dets) = collect (cycle_step cfg) rows h;
             enough = (dc_HealthyCyclesToClear cfg \<le> dh_healthy h (dev, DRY_RUN) + length rows)
         in acts (dev, DRY_RUN) dets = (if enough then [ActionClear] else [])
            \<and> dh_active h' (dev, DRY_RUN) = (\<not> enough)"
  using assms
proof (induction rows arbitrary: h)
  case (Cons r rows)
  let ?h = "fst (cycle_step cfg r h)"
  have step: "acts (dev, DRY_RUN) (snd (cycle_step cfg r h)) =
        (if dc_HealthyCyclesToClear cfg \<le> dh_healthy h (dev, DRY_RUN) + 1 then [ActionClear] else [])
      \<and> dh_active ?h (dev, DRY_RUN) = (\<not> dc_HealthyCyclesToClear cfg \<le> dh_healthy h (dev, DRY_RUN) + 1)
      \<and> dh_healthy ?h (dev, DRY_RUN) = dh_healthy h (dev, DRY_RUN) + 1"
    using Cons.prems by (simp add: classify_loaded_def split_beta classify_other_codes)
      (simp add: classify_dry_def Let_def)
  show ?case
  proof (cases "dc_HealthyCyclesToClear cfg \<le> dh_healthy h (dev, DRY_RUN) + 1")
    case True
    then show ?thesis using step dry_stays_inactive [of rows dev ?h cfg] Cons.prems(1) by (simp add: split_beta)
  next
    case False
    then show ?thesis using step Cons.IH [of ?h] Cons.prems(1) by (simp add: split_beta Let_def)
  qed
qed simp

text \<open>
  Every stored cycle of a successful batch gets its volume. With the primary key
  (device, start, frame counter) of the table, \<^verbatim>\<open>Handle\<close> sets the estimated volume of exactly the
  polled rows whose device has a usable pit area, to area times drop, and changes no other cycle.
\<close>

theorem handle_annotates_volumes:
  assumes run: "detector_Handle cfg fails now h db rows = (h', Inr db')"
    and rows: "set rows \<subseteq> set (dd_cycles db)"
    and pk: "inj_on (\<lambda>r. (cr_DeviceID r, cr_StartedAt r, cr_FCnt r)) (set (dd_cycles db))"
  shows "dd_cycles db' = map (\<lambda>r. if r \<in> set rows then
       (case pit_value cfg fails now db h (cr_DeviceID r) of
          None \<Rightarrow> r | Some area \<Rightarrow> r\<lparr>cr_EstVolumeL := Some (EstVolumeL area (toCycle r))\<rparr>) else r)
     (dd_cycles db)"
proof -
  obtain v d tbl h2 where hd: "handle_devices cfg fails now db rows (first_seen [] (map cr_DeviceID rows)) (h, [], [])
      = (h', Inr (h2, v, d))" and sv: "set_volumes fails v (dd_cycles db) = Inr tbl"
    and wr: "writeDetections fails d (db\<lparr>dd_cycles := tbl\<rparr>) = Inr db'"
    using run by (auto simp: detector_Handle_def split: prod.splits sum.splits)
  have "dd_cycles db' = tbl"
    using wr by (auto simp: writeDetections_def Let_def split: sum.splits prod.splits if_splits option.splits)
  moreover have v: "set v = wanted_volumes cfg fails now db h rows (cr_DeviceID ` set rows)"
    using handle_devices_volumes [OF hd] by (simp add: distinct_first_seen set_first_seen)
  have match: "vol_matches (vol_params (cr_DeviceID s) a s) r \<longleftrightarrow> s = r"
    if "s \<in> set rows" "r \<in> set (dd_cycles db)" for s r a
    using that rows inj_onD [OF pk, of r s] by (auto simp: vol_matches_def vol_params_def)
  have "fold (\<lambda>p r. if vol_matches p r then r\<lparr>cr_EstVolumeL := Some (vp_EstVolumeL p)\<rparr> else r) v r =
      (if r \<in> set rows then
       (case pit_value cfg fails now db h (cr_DeviceID r) of
          None \<Rightarrow> r | Some area \<Rightarrow> r\<lparr>cr_EstVolumeL := Some (EstVolumeL area (toCycle r))\<rparr>) else r)"
    if r: "r \<in> set (dd_cycles db)" for r
  proof (cases "\<exists>p \<in> set v. vol_matches p r")
    case True
    then obtain a where a: "r \<in> set rows" "pit_value cfg fails now db h (cr_DeviceID r) = Some a"
      using match r by (auto simp: v wanted_volumes_def split: option.splits)
    have "vp_EstVolumeL p = EstVolumeL a (toCycle r)" if "p \<in> set v" "vol_matches p r" for p
      using that a match r by (auto simp: v wanted_volumes_def vol_params_def split: option.splits)
    from fold_volumes [OF this] True a show ?thesis by simp
  next
    case False
    have "\<not> (r \<in> set rows \<and> pit_value cfg fails now db h (cr_DeviceID r) = Some a)" for a
      using False match [of r r a] r by (force simp: v wanted_volumes_def)
    then show ?thesis using fold_volumes [of v r 0] False by (auto split: option.splits)
  qed
  ultimately show ?thesis using set_volumes_map [OF sv] by simp
qed

text \<open>
  Writing detections is idempotent and keeps the key. Writing a batch of detections keeps the
  table's key unique, appends only, announces the number of rows inserted with one notification and
  nothing when none was new; writing the same batch again changes neither table nor notifications.
\<close>

theorem writeDetections_idempotent:
  assumes "writeDetections fails dets db = Inr db1" and "distinct (map det_key (dd_detections db))"
    and "\<And>d. d \<in> set dets \<Longrightarrow> fails (QInsertDetection d) = None"
  shows "distinct (map det_key (dd_detections db1))
    \<and> det_key ` set (dd_detections db1) = det_key ` set (dd_detections db) \<union> det_key ` set dets
    \<and> (\<exists>new. dd_detections db1 = dd_detections db @ new
         \<and> dd_notes db1 = dd_notes db @ (if new = [] then [] else
             [\<lparr>n_Table = ''detections'', n_N = length new, n_MinTS = d_at (hd dets), n_MaxTS = d_at (last dets)\<rparr>]))
    \<and> writeDetections fails dets db1 = Inr db1"
proof -
  obtain tbl n where ins: "insert_detections fails dets (dd_detections db) 0 = Inr (tbl, n)"
    using assms(1) by (auto simp: writeDetections_def split: sum.splits)
  note keys = insert_detections_keys [OF ins assms(2)]
  obtain new where new: "tbl = dd_detections db @ new" using keys by blast
  have n: "n = length new" using keys new by simp
  have db1: "dd_detections db1 = tbl"
    using assms(1) ins by (auto simp: writeDetections_def Let_def split: if_splits option.splits)
  have "insert_detections fails dets tbl 0 = Inr (tbl, 0)"
    using keys assms(3) by (intro insert_detections_present) auto
  then have "writeDetections fails dets db1 = Inr db1"
    by (simp add: writeDetections_def db1)
  moreover have "dd_notes db1 = dd_notes db @ (if new = [] then [] else
      [\<lparr>n_Table = ''detections'', n_N = length new, n_MinTS = d_at (hd dets), n_MaxTS = d_at (last dets)\<rparr>])"
    using assms(1) ins n by (auto simp: writeDetections_def Let_def split: if_splits option.splits)
  ultimately show ?thesis using keys new db1 by auto
qed

text \<open>
  The windows stay bounded. Whatever its outcome, \<^verbatim>\<open>Handle\<close> keeps every window at most
  \<^verbatim>\<open>Window\<close> cycles long and free of other pumps' cycles; a new or reset handler starts that way.
\<close>

theorem detector_windows_bounded:
  "det_inv cfg NewHandler \<and> det_inv cfg (Reset h)
   \<and> (det_inv cfg h \<longrightarrow> det_inv cfg (fst (detector_Handle cfg fails now h db rows)))"
proof -
  have "det_inv cfg (fst (detector_Handle cfg fails now h db rows))" if "det_inv cfg h"
    using that det_inv_handle_devices [of cfg fails now db rows "first_seen [] (map cr_DeviceID rows)" h "[]" "[]"]
    by (auto simp: detector_Handle_def split: prod.splits sum.splits)
  then show ?thesis by (simp add: det_inv_def NewHandler_def Reset_def)
qed

section \<open>Witnesses\<close>

definition demo_cycle :: "string \<Rightarrow> instant \<Rightarrow> int \<Rightarrow> int \<Rightarrow> int \<Rightarrow> cycle_row" where
  "demo_cycle pump start fcnt run_s fall =
     \<lparr>cr_DeviceID = ''d'', cr_StartedAt = start * second, cr_FCnt = fcnt,
      cr_ReceivedAt = (start + run_s) * second, cr_RunS = run_s, cr_PeakCurrentA = 4,
      cr_LevelStartMm = 300, cr_LevelEndMm = 300 + fall, cr_PumpID = pump,
      cr_EstVolumeL = None, cr_InsertedAt = (start + run_s) * second\<rparr>"

definition demo_det_cfg :: det_config where
  "demo_det_cfg = \<lparr>dc_HealthyCyclesToClear = 3, dc_Window = 10, dc_PitAreaTTL = 5 * minute\<rparr>"

definition demo_det_db :: "cycle_row list \<Rightarrow> det_db" where
  "demo_det_db cycles = \<lparr>dd_cycles = cycles, dd_devices = [''d'' \<mapsto> Some ''h''],
     dd_homes = [''h'' \<mapsto> Some (1/2)], dd_detections = [], dd_notes = []\<rparr>"

lemmas demo_det = demo_cycle_def demo_det_cfg_def demo_det_db_def NewHandler_def

lemmas detector_eval = classify_def classify_loaded_def classify_dry_def classify_short_def
  classify_continuous_def push_window_def seed_def ListCyclesBefore_def set_active_def
  set_healthy_def mk_detection_def toCycle_def ShortCyclingRun_def cycle_thresholds
  IsDryRun_def IsContinuousRun_def DropMM_def EndedAt_def code_defs ActionRaise_def ActionClear_def
  pit_def GetDevicePitArea_def go_time Let_def

text \<open>A dry cycle followed by three healthy ones an hour apart, on a loaded window.\<close>

definition demo_rows :: "cycle_row list" where
  "demo_rows = [demo_cycle ''p'' 0 1 40 0, demo_cycle ''p'' 3600 2 40 100,
     demo_cycle ''p'' 7200 3 40 100, demo_cycle ''p'' 10800 4 40 100]"

definition demo_h :: det_handler where
  "demo_h = NewHandler\<lparr>dh_windows := [(''d'', ''p'') \<mapsto> []]\<rparr>"

lemma demo_run:
  "\<exists>h' v dets. handle_devices demo_det_cfg (\<lambda>_. None) 0 (demo_det_db demo_rows) demo_rows [''d''] (demo_h, [], [])
     = (h', Inr (h', v, dets)) \<and> acts (''d'', DRY_RUN) dets = [ActionRaise, ActionClear]"
  by (simp add: demo_rows_def demo_h_def demo_det detector_eval acts_def wrap32_def)

theorem detections_alternate_witness:
  "\<exists>h' v dets. handle_devices demo_det_cfg (\<lambda>_. None) 0 (demo_det_db demo_rows) demo_rows [''d''] (demo_h, [], [])
       = (h', Inr (h', v, dets))
     \<and> alternates (dh_active demo_h (''d'', DRY_RUN)) (acts (''d'', DRY_RUN) dets) (dh_active h' (''d'', DRY_RUN))"
proof -
  obtain h' v dets where run: "handle_devices demo_det_cfg (\<lambda>_. None) 0 (demo_det_db demo_rows)
      demo_rows [''d''] (demo_h, [], []) = (h', Inr (h', v, dets))"
    using demo_run by blast
  have "loaded demo_h demo_rows" by (simp add: loaded_def demo_h_def demo_rows_def demo_det)
  from run detections_alternate [OF run this, of DRY_RUN "''d''"] show ?thesis by blast
qed

theorem dry_run_clears_after_witness:
  "acts (''d'', DRY_RUN) (snd (collect (cycle_step demo_det_cfg) (tl demo_rows)
     (set_active (''d'', DRY_RUN) True demo_h))) = [ActionClear]"
  using dry_run_clears_after [of "tl demo_rows" "''d''" "set_active (''d'', DRY_RUN) True demo_h" demo_det_cfg]
  by (simp add: demo_rows_def demo_h_def demo_det toCycle_def IsDryRun_def DropMM_def cycle_thresholds
      split_beta Let_def)

theorem handle_annotates_volumes_witness:
  "\<exists>h' db'. detector_Handle demo_det_cfg (\<lambda>_. None) 0 NewHandler (demo_det_db [demo_cycle ''p'' 0 1 40 100])
       [demo_cycle ''p'' 0 1 40 100] = (h', Inr db')
     \<and> dd_cycles db' = [(demo_cycle ''p'' 0 1 40 100)\<lparr>cr_EstVolumeL := Some 50\<rparr>]"
proof -
  let ?r = "demo_cycle ''p'' 0 1 40 100"
  obtain h' db' where run: "detector_Handle demo_det_cfg (\<lambda>_. None) 0 NewHandler (demo_det_db [?r]) [?r] = (h', Inr db')"
    by (simp add: detector_Handle_def demo_det detector_eval writeDetections_def wrap32_def)
  show ?thesis
    using run handle_annotates_volumes [OF run]
    by (simp add: demo_det pit_value_def pit_def GetDevicePitArea_def EstVolumeL_def DropMM_def toCycle_def)
qed

theorem writeDetections_idempotent_witness:
  "\<exists>db1. writeDetections (\<lambda>_. None) [mk_detection ''d'' DRY_RUN ActionRaise 7 1 (HealthyDetail 0)] (demo_det_db []) = Inr db1
     \<and> writeDetections (\<lambda>_. None) [mk_detection ''d'' DRY_RUN ActionRaise 7 1 (HealthyDetail 0)] db1 = Inr db1"
proof -
  let ?d = "[mk_detection ''d'' DRY_RUN ActionRaise 7 1 (HealthyDetail 0)]"
  obtain db1 where run: "writeDetections (\<lambda>_. None) ?d (demo_det_db []) = Inr db1"
    by (simp add: writeDetections_def demo_det_db_def InsertDetection_def)
  show ?thesis
    using run writeDetections_idempotent [OF run] by (simp add: demo_det_db_def)
qed

theorem detector_windows_bounded_witness:
  "det_inv demo_det_cfg demo_h
   \<and> det_inv demo_det_cfg (fst (detector_Handle demo_det_cfg (\<lambda>_. None) 0 demo_h (demo_det_db []) demo_rows))"
proof -
  have "det_inv demo_det_cfg demo_h"
    by (simp add: det_inv_def window_ok_def demo_h_def NewHandler_def)
  then show ?thesis using detector_windows_bounded by blast
qed

section \<open>Where the conditions lose a clear\<close>

text \<open>What seeding leaves of the dry-run flag, when the pump has a history.\<close>

definition pump_history :: "det_config \<Rightarrow> det_db \<Rightarrow> string \<Rightarrow> string \<Rightarrow> instant \<Rightarrow> cycle_row list" where
  "pump_history cfg db dev pump before = filter (\<lambda>r. cr_PumpID r = pump) (ListCyclesBefore db dev before (dc_Window cfg))"

lemma seed_dry_flag:
  assumes "fails (QCyclesBefore dev) = None" and "pump_history cfg db dev pump before \<noteq> []"
  shows "\<exists>h1. seed cfg fails db dev pump before h = Inr h1
    \<and> dh_windows h1 = (dh_windows h)((dev, pump) \<mapsto> map toCycle (rev (pump_history cfg db dev pump before)))
    \<and> dh_active h1 (dev, DRY_RUN) = IsDryRun (toCycle (hd (pump_history cfg db dev pump before)))"
  using assms by (simp add: seed_def Let_def pump_history_def rev_filter [symmetric] last_map last_rev code_defs)

text \<open>
  C30: Seeding a second pump drops an active dry run. The flag is per device but \<^verbatim>\<open>seed\<close> sets it from
  one pump's window. Whatever the device's other pump did to make the dry run active: when the first cycle of a
  pump not yet loaded arrives, and the newest stored cycle of that pump within the window was not dry, then the condition
  is inactive after that cycle and after any number of further healthy cycles, and no clear is emitted for it.
  (Without the seeding, \<open>dry_run_clears_after\<close> gives exactly one clear.)
\<close>

theorem seed_drops_active_dry_run:
  assumes "dh_active h (dev, DRY_RUN)" and "dh_windows h (dev, cr_PumpID r) = None" and "fails (QCyclesBefore dev) = None"
    and "pump_history cfg db dev (cr_PumpID r) (cr_StartedAt r) \<noteq> []"
    and "\<not> IsDryRun (toCycle (hd (pump_history cfg db dev (cr_PumpID r) (cr_StartedAt r))))"
    and "\<forall>x \<in> set (r # rs). cr_DeviceID x = dev \<and> \<not> IsDryRun (toCycle x)"
    and "\<forall>x \<in> set rs. cr_PumpID x = cr_PumpID r \<or> dh_windows h (dev, cr_PumpID x) \<noteq> None"
  shows "\<exists>h' v dets. handle_cycles cfg fails db dev area ok (r # rs) (h, volumes, []) = (h', Inr (h', v, dets))
    \<and> acts (dev, DRY_RUN) dets = [] \<and> \<not> dh_active h' (dev, DRY_RUN)"
proof -
  obtain h1 where h1: "seed cfg fails db dev (cr_PumpID r) (cr_StartedAt r) h = Inr h1"
      "dh_windows h1 = (dh_windows h)((dev, cr_PumpID r) \<mapsto> map toCycle (rev (pump_history cfg db dev (cr_PumpID r) (cr_StartedAt r))))"
      "\<not> dh_active h1 (dev, DRY_RUN)"
    using seed_dry_flag [of fails dev cfg db "cr_PumpID r" "cr_StartedAt r" h] assms(3-5) by blast
  have "handle_cycles cfg fails db dev area ok (r # rs) (h, volumes, []) = handle_cycles cfg fails db dev area ok (r # rs) (h1, volumes, [])"
    using assms(2) h1(1,2) by (simp add: classify_def)
  also have "\<dots> = (fst (collect (cycle_step cfg) (r # rs) h1), Inr (fst (collect (cycle_step cfg) (r # rs) h1),
      volumes @ (if ok then map (vol_params dev area) (r # rs) else []), snd (collect (cycle_step cfg) (r # rs) h1)))"
    using assms(6,7) h1(2) by (subst handle_cycles_collect) (auto simp: loaded_def)
  finally show ?thesis
    using dry_stays_inactive [OF assms(6) h1(3), of cfg] by blast
qed

text \<open>After a dry cycle of the primary, the backup's first three cycles since the restart.\<close>

theorem seed_drops_active_dry_run_witness:
  "\<exists>h' v dets. handle_cycles demo_det_cfg (\<lambda>_. None) (demo_det_db [demo_cycle ''b'' 100 7 40 100]) ''d'' (1/2) True
      [demo_cycle ''b'' 3600 9 40 100, demo_cycle ''b'' 7200 10 40 100, demo_cycle ''b'' 10800 11 40 100]
      (set_active (''d'', DRY_RUN) True demo_h, [], []) = (h', Inr (h', v, dets))
     \<and> acts (''d'', DRY_RUN) dets = [] \<and> \<not> dh_active h' (''d'', DRY_RUN)"
proof (rule seed_drops_active_dry_run)
qed (simp_all add: pump_history_def ListCyclesBefore_def demo_h_def demo_det toCycle_def IsDryRun_def DropMM_def cycle_thresholds go_time)

text \<open>
  A restart can miss a clear. A dry cycle raises and one healthy cycle follows; after a restart
  the window's last cycle is healthy, so \<^verbatim>\<open>seed\<close> takes the condition to be inactive and the healthy
  cycles that follow never clear it.
\<close>

theorem restart_misses_clear:
  "case handle_devices demo_det_cfg (\<lambda>_. None) 0 (demo_det_db []) (take 2 demo_rows) [''d''] (NewHandler, [], []) of
     (_, Inr (h, _, dets)) \<Rightarrow>
       acts (''d'', DRY_RUN) dets = [ActionRaise] \<and> dh_active h (''d'', DRY_RUN)
       \<and> (case handle_devices demo_det_cfg (\<lambda>_. None) 0 (demo_det_db (take 2 demo_rows)) (drop 2 demo_rows)
             [''d''] (Reset h, [], []) of
            (_, Inr (h', _, dets')) \<Rightarrow> acts (''d'', DRY_RUN) dets' = [] \<and> \<not> dh_active h' (''d'', DRY_RUN)
          | _ \<Rightarrow> False)
   | _ \<Rightarrow> False"
  by (simp add: demo_rows_def demo_det detector_eval acts_def wrap32_def Reset_def)

end
