(* ===== verification/Alert_Store.thy ===== *)
theory Alert_Store
  imports Watermark
begin

text \<open>
  The alerts table and the statements the alerts service runs on it
  (\<^verbatim>\<open>internal/store/sqlcgen/alerts.sql.go\<close>), with the invariant of the table and the order
  \<open>evolves\<close> on its versions. Row ids, which the database draws, are a counter: only their freshness
  matters. Message texts and trigger keys are kept as their template and arguments.
\<close>

section \<open>Rows\<close>

datatype message =
    NodeAlarm int int
  | FloatHighMsg int
  | SensorFaultMsg
  | BatteryMsg int
  | MainsLostMsg
  | OutageRiskMsg int nat "real option"
  | DetectionMsg int
  | SilentSince instant

datatype trigger_key =
    TriggerKey string string instant int
  | SweepKey string instant

definition StatePending :: string where "StatePending = ''pending''"
definition StateSent :: string where "StateSent = ''sent''"
definition StateSuppressed :: string where "StateSuppressed = ''suppressed''"
definition StateFailed :: string where "StateFailed = ''failed''"
definition StateNone :: string where "StateNone = ''none''"

lemmas state_defs = StatePending_def StateSent_def StateSuppressed_def StateFailed_def StateNone_def

record alert_row =
  al_ID :: nat
  al_DeviceID :: string
  al_HomeID :: "uuid option"
  al_Code :: int
  al_Severity :: int
  al_RaisedAt :: instant
  al_LastSeenAt :: instant
  al_Occurrences :: int
  al_AckedAt :: "instant option"
  al_AckNote :: "string option"
  al_ResolvedAt :: "instant option"
  al_ResolveReason :: "string option"
  al_Message :: message
  al_Source :: string
  al_TriggerKey :: trigger_key
  al_NotifyState :: string
  al_NotifyAttempts :: int
  al_NotifiedAt :: "instant option"
  al_ResolveNotifyState :: string
  al_ResolveNotifyAttempts :: int
  al_UpdatedAt :: instant

record device_row =
  dv_HomeID :: "uuid option"
  dv_Kind :: string
  dv_LastSeenAt :: "instant option"

text \<open>The tables the alerts service reads and writes; a home maps to its segment.\<close>

record alert_db =
  adb_alerts :: "alert_row list"
  adb_next :: nat
  adb_devices :: "string \<rightharpoonup> device_row"
  adb_device_ids :: "string list"
  adb_homes :: "uuid \<rightharpoonup> string option"
  adb_readings :: "reading_row list"
  adb_rainfall :: "rainfall_row list"

definition is_open :: "alert_row \<Rightarrow> bool" where
  "is_open a \<longleftrightarrow> al_ResolvedAt a = None"

definition open_for :: "string \<Rightarrow> int \<Rightarrow> alert_row \<Rightarrow> bool" where
  "open_for dev code a \<longleftrightarrow> al_DeviceID a = dev \<and> al_Code a = code \<and> is_open a"

section \<open>Statements\<close>

definition GetOpenAlert :: "alert_db \<Rightarrow> string \<Rightarrow> int \<Rightarrow> alert_row option" where
  "GetOpenAlert db dev code = find (open_for dev code) (adb_alerts db)"

definition upd_alerts :: "(alert_row list \<Rightarrow> alert_row list) \<Rightarrow> alert_db \<Rightarrow> alert_db" where
  "upd_alerts f db = db\<lparr>adb_alerts := f (adb_alerts db)\<rparr>"

record insert_params =
  ip_DeviceID :: string
  ip_HomeID :: "uuid option"
  ip_Code :: int
  ip_Severity :: int
  ip_RaisedAt :: instant
  ip_Message :: message
  ip_Source :: string
  ip_TriggerKey :: trigger_key
  ip_NotifyState :: string

text \<open>
  \<^verbatim>\<open>InsertAlert\<close> with the constraints of the table: the device exists, code, severity and source are
  in range, and the partial unique index on open alerts.
\<close>

definition new_alert :: "instant \<Rightarrow> nat \<Rightarrow> insert_params \<Rightarrow> alert_row" where
  "new_alert now i p =
     \<lparr>al_ID = i, al_DeviceID = ip_DeviceID p, al_HomeID = ip_HomeID p, al_Code = ip_Code p,
      al_Severity = ip_Severity p, al_RaisedAt = ip_RaisedAt p, al_LastSeenAt = ip_RaisedAt p,
      al_Occurrences = 1, al_AckedAt = None, al_AckNote = None, al_ResolvedAt = None,
      al_ResolveReason = None, al_Message = ip_Message p, al_Source = ip_Source p,
      al_TriggerKey = ip_TriggerKey p, al_NotifyState = ip_NotifyState p, al_NotifyAttempts = 0,
      al_NotifiedAt = None, al_ResolveNotifyState = StateNone, al_ResolveNotifyAttempts = 0,
      al_UpdatedAt = now\<rparr>"

definition InsertAlert :: "instant \<Rightarrow> insert_params \<Rightarrow> alert_db \<Rightarrow> db_error + alert_db" where
  "InsertAlert now p db =
     (if adb_devices db (ip_DeviceID p) = None then Inl (DbError ''alerts_device_id_fkey'')
      else if \<not> (1 \<le> ip_Code p \<and> ip_Code p \<le> 9) then Inl (DbError ''alerts_code_check'')
      else if \<not> (1 \<le> ip_Severity p \<and> ip_Severity p \<le> 3) then Inl (DbError ''alerts_severity_check'')
      else if ip_Source p \<notin> {''node'', ''heartbeat'', ''detector'', ''sweep''}
        then Inl (DbError ''alerts_source_check'')
      else if (\<exists>a \<in> set (adb_alerts db). open_for (ip_DeviceID p) (ip_Code p) a)
        then Inl (DbError ''alerts_open_uniq'')
      else Inr (db\<lparr>adb_alerts := adb_alerts db @ [new_alert now (adb_next db) p],
                  adb_next := adb_next db + 1\<rparr>))"

definition TouchAlert :: "instant \<Rightarrow> nat \<Rightarrow> instant \<Rightarrow> alert_db \<Rightarrow> alert_db" where
  "TouchAlert now i seen = upd_alerts (map (\<lambda>a. if al_ID a = i
     then a\<lparr>al_RaisedAt := min (al_RaisedAt a) seen, al_LastSeenAt := max (al_LastSeenAt a) seen,
            al_Occurrences := al_Occurrences a + 1, al_UpdatedAt := now\<rparr> else a))"

definition resolve_row :: "instant \<Rightarrow> instant \<Rightarrow> string \<Rightarrow> bool \<Rightarrow> alert_row \<Rightarrow> alert_row" where
  "resolve_row now t reason notify a =
     a\<lparr>al_ResolvedAt := Some t, al_ResolveReason := Some reason,
       al_ResolveNotifyState :=
         (if notify \<and> al_NotifyState a \<in> {StateSent, StatePending} then StatePending else StateNone),
       al_UpdatedAt := now\<rparr>"

text \<open>\<^verbatim>\<open>ResolveOpenAlert\<close>: \<open>None\<close> when no row qualifies (\<^verbatim>\<open>pgx.ErrNoRows\<close>).\<close>

definition resolvable :: "string \<Rightarrow> int \<Rightarrow> instant \<Rightarrow> alert_row \<Rightarrow> bool" where
  "resolvable dev code t a \<longleftrightarrow> open_for dev code a \<and> al_RaisedAt a \<le> t"

definition ResolveOpenAlert ::
  "instant \<Rightarrow> instant \<Rightarrow> string \<Rightarrow> bool \<Rightarrow> string \<Rightarrow> int \<Rightarrow> alert_db \<Rightarrow> alert_db option" where
  "ResolveOpenAlert now t reason notify dev code db =
     (if \<exists>a \<in> set (adb_alerts db). resolvable dev code t a
      then Some (upd_alerts (map (\<lambda>a. if resolvable dev code t a
             then resolve_row now t reason notify a else a)) db)
      else None)"

text \<open>\<^verbatim>\<open>LastNotifiedAt\<close>: the newest \<^verbatim>\<open>notified_at\<close> of the sent alerts of a device and code.\<close>

definition LastNotifiedAt :: "alert_db \<Rightarrow> string \<Rightarrow> int \<Rightarrow> instant option" where
  "LastNotifiedAt db dev code =
     (case List.map_filter (\<lambda>a. if al_DeviceID a = dev \<and> al_Code a = code \<and> al_NotifyState a = StateSent
                            then al_NotifiedAt a else None) (adb_alerts db) of
        [] \<Rightarrow> None | ts \<Rightarrow> Some (Max (set ts)))"

definition segment_of :: "alert_db \<Rightarrow> alert_row \<Rightarrow> string option" where
  "segment_of db a = Option.bind (Option.bind (al_HomeID a) (adb_homes db)) id"

definition MarkRaiseNotification :: "instant \<Rightarrow> string \<Rightarrow> nat \<Rightarrow> alert_db \<Rightarrow> alert_db" where
  "MarkRaiseNotification now state i = upd_alerts (map (\<lambda>a. if al_ID a = i
     then a\<lparr>al_NotifyState := state,
            al_NotifiedAt := (if state = StateSent then Some now else al_NotifiedAt a),
            al_NotifyAttempts := al_NotifyAttempts a + 1, al_UpdatedAt := now\<rparr> else a))"

definition MarkResolveNotification :: "instant \<Rightarrow> string \<Rightarrow> nat \<Rightarrow> alert_db \<Rightarrow> alert_db" where
  "MarkResolveNotification now state i = upd_alerts (map (\<lambda>a. if al_ID a = i
     then a\<lparr>al_ResolveNotifyState := state,
            al_ResolveNotifyAttempts := al_ResolveNotifyAttempts a + 1, al_UpdatedAt := now\<rparr> else a))"

definition raise_pending :: "instant \<Rightarrow> int \<Rightarrow> duration \<Rightarrow> alert_row \<Rightarrow> bool" where
  "raise_pending now max_attempts retry a \<longleftrightarrow>
     al_NotifyState a = StatePending
     \<or> (al_NotifyState a = StateFailed \<and> al_NotifyAttempts a < max_attempts
        \<and> al_UpdatedAt a < now - retry)"

definition ListPendingRaiseNotifications ::
  "instant \<Rightarrow> int \<Rightarrow> duration \<Rightarrow> nat \<Rightarrow> alert_db \<Rightarrow> (alert_row \<times> string option) list" where
  "ListPendingRaiseNotifications now max_attempts retry limit db =
     map (\<lambda>a. (a, segment_of db a))
       (take limit (sort_key al_RaisedAt (filter (raise_pending now max_attempts retry) (adb_alerts db))))"

definition resolve_pending :: "instant \<Rightarrow> int \<Rightarrow> duration \<Rightarrow> alert_row \<Rightarrow> bool" where
  "resolve_pending now max_attempts retry a \<longleftrightarrow>
     al_ResolveNotifyState a = StatePending
     \<or> (al_ResolveNotifyState a = StateFailed \<and> al_ResolveNotifyAttempts a < max_attempts
        \<and> al_UpdatedAt a < now - retry)"

text \<open>Ordering by a nullable column puts NULL last.\<close>

definition nulls_last :: "instant option \<Rightarrow> bool \<times> instant" where
  "nulls_last t = (case t of None \<Rightarrow> (True, 0) | Some x \<Rightarrow> (False, x))"

definition ListPendingResolveNotifications ::
  "instant \<Rightarrow> int \<Rightarrow> duration \<Rightarrow> nat \<Rightarrow> alert_db \<Rightarrow> (alert_row \<times> string option) list" where
  "ListPendingResolveNotifications now max_attempts retry limit db =
     map (\<lambda>a. (a, segment_of db a))
       (take limit (sort_key (nulls_last \<circ> al_ResolvedAt)
          (filter (resolve_pending now max_attempts retry) (adb_alerts db))))"

definition ListActiveAlerts ::
  "uuid option \<Rightarrow> string option \<Rightarrow> alert_db \<Rightarrow> (alert_row \<times> string option) list" where
  "ListActiveAlerts home seg db =
     map (\<lambda>a. (a, segment_of db a))
       (sort_key (\<lambda>a. - al_RaisedAt a)
         (filter (\<lambda>a. is_open a \<and> (home = None \<or> al_HomeID a = home)
                      \<and> (seg = None \<or> segment_of db a = seg)) (adb_alerts db)))"

definition GetAlert :: "nat \<Rightarrow> alert_db \<Rightarrow> (alert_row \<times> string option) option" where
  "GetAlert i db = map_option (\<lambda>a. (a, segment_of db a)) (find (\<lambda>a. al_ID a = i) (adb_alerts db))"

definition coalesce :: "'a option \<Rightarrow> 'a option \<Rightarrow> 'a option" where
  "coalesce a b = (case a of None \<Rightarrow> b | Some x \<Rightarrow> Some x)"

definition AcknowledgeAlert :: "instant \<Rightarrow> nat \<Rightarrow> instant \<Rightarrow> string option \<Rightarrow> alert_db \<Rightarrow> alert_db option" where
  "AcknowledgeAlert now i acked note db =
     (if \<exists>a \<in> set (adb_alerts db). al_ID a = i
      then Some (upd_alerts (map (\<lambda>a. if al_ID a = i
             then a\<lparr>al_AckedAt := coalesce (al_AckedAt a) (Some acked),
                    al_AckNote := coalesce (al_AckNote a) note, al_UpdatedAt := now\<rparr> else a)) db)
      else None)"

definition ListStaleDevices :: "instant \<Rightarrow> duration \<Rightarrow> alert_db \<Rightarrow> (string \<times> instant) list" where
  "ListStaleDevices now after db =
     List.map_filter (\<lambda>d. case adb_devices db d of
        Some r \<Rightarrow> (case dv_LastSeenAt r of
                    Some t \<Rightarrow> if dv_Kind r = ''house'' \<and> t < now - after then Some (d, t) else None
                  | None \<Rightarrow> None)
      | None \<Rightarrow> None) (adb_device_ids db)"

definition ListReadingsBefore :: "alert_db \<Rightarrow> string \<Rightarrow> instant \<Rightarrow> nat \<Rightarrow> reading_row list" where
  "ListReadingsBefore db dev t limit =
     take limit (sort_key (\<lambda>r. - rr_Ts r) (filter (\<lambda>r. rr_DeviceID r = dev \<and> rr_Ts r < t) (adb_readings db)))"

text \<open>\<^verbatim>\<open>RainNear\<close>: the rain of the intervals that overlap the window, and how far the data reach.\<close>

definition RainNear :: "alert_db \<Rightarrow> instant \<Rightarrow> instant \<Rightarrow> instant \<Rightarrow> real \<times> instant" where
  "RainNear db scan_from from_ts to_ts =
     (let rows = filter (\<lambda>r. scan_from \<le> rf_Ts r \<and> rf_Ts r < to_ts) (adb_rainfall db)
      in (sum_list (map rf_Mm (filter (\<lambda>r. from_ts < rain_end r) rows)),
          if rows = [] then 0 else Max (set (map rain_end rows))))"

section \<open>The table's invariant\<close>

text \<open>
  Ids are unique and drawn below the counter, at most one alert is open for a device and code, an
  episode starts no later than it was last seen and no later than it was resolved, and only a
  resolved alert has a resolve notification to send.
\<close>

definition row_ok :: "alert_row \<Rightarrow> bool" where
  "row_ok a \<longleftrightarrow> al_RaisedAt a \<le> al_LastSeenAt a \<and> 1 \<le> al_Occurrences a
     \<and> (case al_ResolvedAt a of
          None \<Rightarrow> al_ResolveNotifyState a = StateNone | Some t \<Rightarrow> al_RaisedAt a \<le> t)"

definition alerts_ok :: "alert_db \<Rightarrow> bool" where
  "alerts_ok db \<longleftrightarrow> distinct (map al_ID (adb_alerts db))
     \<and> (\<forall>a \<in> set (adb_alerts db). al_ID a < adb_next db \<and> row_ok a)
     \<and> distinct (map (\<lambda>a. (al_DeviceID a, al_Code a)) (filter is_open (adb_alerts db)))"

text \<open>
  How one alert row may change: identity and first trigger are fixed, an episode only widens, an
  acknowledgement stays, and once resolved its times and occurrences never change.
\<close>

definition row_evolves :: "alert_row \<Rightarrow> alert_row \<Rightarrow> bool" where
  "row_evolves a b \<longleftrightarrow> al_ID b = al_ID a \<and> al_DeviceID b = al_DeviceID a \<and> al_Code b = al_Code a
     \<and> al_Severity b = al_Severity a \<and> al_HomeID b = al_HomeID a \<and> al_Message b = al_Message a
     \<and> al_TriggerKey b = al_TriggerKey a \<and> al_RaisedAt b \<le> al_RaisedAt a
     \<and> al_LastSeenAt a \<le> al_LastSeenAt b \<and> al_Occurrences a \<le> al_Occurrences b
     \<and> (al_AckedAt a \<noteq> None \<longrightarrow> al_AckedAt b = al_AckedAt a)
     \<and> (al_ResolvedAt a \<noteq> None \<longrightarrow> al_ResolvedAt b = al_ResolvedAt a \<and> al_RaisedAt b = al_RaisedAt a
          \<and> al_Occurrences b = al_Occurrences a \<and> al_ResolveReason b = al_ResolveReason a)"

definition evolves :: "alert_db \<Rightarrow> alert_db \<Rightarrow> bool" where
  "evolves db db' \<longleftrightarrow>
     (\<exists>old new. adb_alerts db' = old @ new \<and> list_all2 row_evolves (adb_alerts db) old)
     \<and> adb_next db \<le> adb_next db' \<and> adb_devices db' = adb_devices db \<and> adb_homes db' = adb_homes db
     \<and> adb_device_ids db' = adb_device_ids db
     \<and> adb_readings db' = adb_readings db \<and> adb_rainfall db' = adb_rainfall db"

lemma row_evolves_refl [simp, intro]: "row_evolves a a"
  by (simp add: row_evolves_def)

lemma row_evolves_trans: "row_evolves a b \<Longrightarrow> row_evolves b c \<Longrightarrow> row_evolves a c"
  by (auto simp: row_evolves_def)

lemma evolves_refl [simp, intro]: "evolves db db"
  by (simp add: evolves_def) (metis append_Nil2 list_all2_refl row_evolves_refl)

lemma evolves_trans: "evolves db1 db2 \<Longrightarrow> evolves db2 db3 \<Longrightarrow> evolves db1 db3"
proof -
  assume "evolves db1 db2" "evolves db2 db3"
  then obtain o1 n1 o2 n2 where
    1: "adb_alerts db2 = o1 @ n1" "list_all2 row_evolves (adb_alerts db1) o1" and
    2: "adb_alerts db3 = o2 @ n2" "list_all2 row_evolves (o1 @ n1) o2"
    by (auto simp: evolves_def)
  from 2(2) obtain o3 n3 where 3: "o2 = o3 @ n3" "list_all2 row_evolves o1 o3"
    by (auto simp: list_all2_append1)
  have "list_all2 row_evolves (adb_alerts db1) o3"
    using 1(2) 3(2) row_evolves_trans by (rule list_all2_trans [rotated])
  then show ?thesis
    using 2(1) 3(1) \<open>evolves db1 db2\<close> \<open>evolves db2 db3\<close> by (auto simp: evolves_def)
qed

lemma evolves_row:
  assumes "evolves db db'" and "x \<in> set (adb_alerts db)"
  shows "\<exists>y \<in> set (adb_alerts db'). row_evolves x y"
proof -
  obtain old new where o: "adb_alerts db' = old @ new" "list_all2 row_evolves (adb_alerts db) old"
    using assms(1) by (auto simp: evolves_def)
  obtain i where i: "i < length (adb_alerts db)" "x = adb_alerts db ! i"
    using assms(2) by (auto simp: in_set_conv_nth)
  then have "row_evolves x (old ! i)" "i < length old"
    using o(2) by (auto simp: list_all2_conv_all_nth)
  then show ?thesis using o(1) by (intro bexI [of _ "old ! i"]) auto
qed

text \<open>A statement that updates rows in place keeps both when each row update does.\<close>

definition row_update_ok :: "(alert_row \<Rightarrow> alert_row) \<Rightarrow> bool" where
  "row_update_ok f \<longleftrightarrow> (\<forall>a. row_ok a \<longrightarrow> row_ok (f a) \<and> row_evolves a (f a)
     \<and> (is_open (f a) \<longrightarrow> is_open a))"

lemma distinct_filter_map:
  assumes "\<And>x. g (f x) = g x" and "\<And>x. x \<in> set xs \<Longrightarrow> P (f x) \<Longrightarrow> P x"
    and "distinct (map g (filter P xs))"
  shows "distinct (map g (filter P (map f xs)))"
  using assms(2,3)
proof (induction xs)
  case (Cons x xs)
  have "g ` set (filter P (map f xs)) \<subseteq> g ` set (filter P xs)"
    using Cons.prems(1) assms(1) by (auto simp: image_iff)
  then show ?case using Cons assms(1) by (auto split: if_splits)
qed simp

lemma upd_alerts_keeps:
  assumes ok: "alerts_ok db" and f: "row_update_ok f"
  shows "alerts_ok (upd_alerts (map f) db) \<and> evolves db (upd_alerts (map f) db)"
proof -
  have row: "row_ok a \<and> row_ok (f a) \<and> row_evolves a (f a)" if "a \<in> set (adb_alerts db)" for a
    using that ok f by (auto simp: alerts_ok_def row_update_ok_def)
  have ids: "map al_ID (map f (adb_alerts db)) = map al_ID (adb_alerts db)"
    using row by (auto simp: row_evolves_def)
  have keys: "distinct (map (\<lambda>a. (al_DeviceID a, al_Code a)) (filter is_open (map f (adb_alerts db))))"
  proof -
    define g where "g = (\<lambda>a. if a \<in> set (adb_alerts db) then f a else a)"
    have eq: "map f (adb_alerts db) = map g (adb_alerts db)" by (simp add: g_def)
    have "distinct (map (\<lambda>a. (al_DeviceID a, al_Code a)) (filter is_open (map g (adb_alerts db))))"
      using ok row f by (intro distinct_filter_map)
        (auto simp: g_def alerts_ok_def row_evolves_def row_update_ok_def)
    then show ?thesis by (simp only: eq)
  qed
  have "distinct (map al_ID (map f (adb_alerts db)))"
    using ok unfolding ids by (simp add: alerts_ok_def)
  then have "alerts_ok (upd_alerts (map f) db)"
    using ok row keys by (auto simp: alerts_ok_def upd_alerts_def row_evolves_def)
  moreover have "list_all2 row_evolves (adb_alerts db) (map f (adb_alerts db))"
    using row by (simp add: list_all2_conv_all_nth)
  ultimately show ?thesis by (auto simp: evolves_def upd_alerts_def)
qed

section \<open>Every statement keeps the table\<close>

lemma touch_keeps: "alerts_ok db \<Longrightarrow> a \<in> set (adb_alerts db) \<Longrightarrow> is_open a \<Longrightarrow>
  alerts_ok (TouchAlert now (al_ID a) seen db) \<and> evolves db (TouchAlert now (al_ID a) seen db)"
proof -
  assume ok: "alerts_ok db" and a: "a \<in> set (adb_alerts db)" "is_open a"
  define f where "f = (\<lambda>b. if b = a
     then b\<lparr>al_RaisedAt := min (al_RaisedAt b) seen, al_LastSeenAt := max (al_LastSeenAt b) seen,
            al_Occurrences := al_Occurrences b + 1, al_UpdatedAt := now\<rparr> else b)"
  have "al_ID b = al_ID a \<longleftrightarrow> b = a" if "b \<in> set (adb_alerts db)" for b
    using that a(1) ok by (auto simp: alerts_ok_def distinct_map dest: inj_onD)
  then have "TouchAlert now (al_ID a) seen db = upd_alerts (map f) db"
    by (simp add: TouchAlert_def upd_alerts_def f_def)
  moreover have "row_update_ok f"
    using a(2) by (auto simp: row_update_ok_def f_def row_ok_def row_evolves_def is_open_def)
  ultimately show ?thesis using upd_alerts_keeps [OF ok] by simp
qed

lemma resolve_keeps:
  assumes "ResolveOpenAlert now t reason notify dev code db = Some db'" and "alerts_ok db"
  shows "alerts_ok db' \<and> evolves db db'"
proof -
  have "row_update_ok (\<lambda>a. if resolvable dev code t a then resolve_row now t reason notify a else a)"
    by (auto simp: row_update_ok_def row_ok_def row_evolves_def resolve_row_def resolvable_def
        open_for_def is_open_def)
  then show ?thesis
    using assms upd_alerts_keeps by (auto simp: ResolveOpenAlert_def split: if_splits)
qed

lemma insert_keeps:
  assumes "InsertAlert now p db = Inr db'" and ok: "alerts_ok db"
  shows "alerts_ok db' \<and> evolves db db'"
proof -
  let ?a = "new_alert now (adb_next db) p"
  have no: "\<not> open_for (ip_DeviceID p) (ip_Code p) a" if "a \<in> set (adb_alerts db)" for a
    using assms(1) that by (auto simp: InsertAlert_def split: if_splits)
  have db': "db' = db\<lparr>adb_alerts := adb_alerts db @ [?a], adb_next := adb_next db + 1\<rparr>"
    using assms(1) by (auto simp: InsertAlert_def split: if_splits)
  have "row_ok ?a" by (simp add: row_ok_def new_alert_def)
  moreover have "(al_DeviceID ?a, al_Code ?a) \<notin> (\<lambda>a. (al_DeviceID a, al_Code a)) ` set (filter is_open (adb_alerts db))"
    using no by (auto simp: new_alert_def open_for_def)
  moreover have "al_ID ?a = adb_next db" by (simp add: new_alert_def)
  ultimately have "alerts_ok db'"
    using ok by (auto simp: alerts_ok_def db' less_Suc_eq)
  moreover have "evolves db db'"
    using list_all2_refl [of row_evolves "adb_alerts db"] by (auto simp: evolves_def db')
  ultimately show ?thesis by blast
qed

lemma acknowledge_keeps:
  assumes "AcknowledgeAlert now i acked note db = Some db'" and "alerts_ok db"
  shows "alerts_ok db' \<and> evolves db db'"
proof -
  have "row_update_ok (\<lambda>a. if al_ID a = i
     then a\<lparr>al_AckedAt := coalesce (al_AckedAt a) (Some acked),
            al_AckNote := coalesce (al_AckNote a) note, al_UpdatedAt := now\<rparr> else a)"
    by (auto simp: row_update_ok_def row_ok_def row_evolves_def is_open_def coalesce_def
        split: option.splits)
  then show ?thesis
    using assms upd_alerts_keeps by (auto simp: AcknowledgeAlert_def split: if_splits)
qed

lemma mark_raise_keeps:
  "alerts_ok db \<Longrightarrow> alerts_ok (MarkRaiseNotification now s i db) \<and> evolves db (MarkRaiseNotification now s i db)"
  unfolding MarkRaiseNotification_def
  by (rule upd_alerts_keeps)
    (auto simp: row_update_ok_def row_ok_def row_evolves_def is_open_def split: option.splits)

lemma GetOpenAlert_Some: "GetOpenAlert db dev code = Some a \<Longrightarrow> a \<in> set (adb_alerts db) \<and> open_for dev code a"
  by (auto simp: GetOpenAlert_def find_Some_iff)

lemma GetOpenAlert_None: "GetOpenAlert db dev code = None \<longleftrightarrow> (\<forall>a \<in> set (adb_alerts db). \<not> open_for dev code a)"
  by (auto simp: GetOpenAlert_def find_None_iff)

lemma open_unique:
  assumes "alerts_ok db" "a \<in> set (adb_alerts db)" "b \<in> set (adb_alerts db)"
    "open_for dev code a" "open_for dev code b"
  shows "a = b"
proof -
  have "inj_on (\<lambda>a. (al_DeviceID a, al_Code a)) (set (filter is_open (adb_alerts db)))"
    using assms(1) unfolding alerts_ok_def distinct_map by blast
  then show ?thesis using assms(2-5) by (auto simp: open_for_def dest: inj_onD)
qed

end
