(* ===== verification/Alerts.thy ===== *)
theory Alerts
  imports Alert_Store
begin

text \<open>
  The alerts service: severities (\<^verbatim>\<open>internal/alerts/codes.go\<close>), the engine that raises and resolves
  (\<^verbatim>\<open>engine.go\<close>) and the rules that drive it from node alarms, heartbeats and detections
  (\<^verbatim>\<open>rules.go\<close>). An action runs in the caller's transaction on the engine's memory and the database;
  an error abandons the transaction, so it carries no database.
\<close>

section \<open>Codes and configuration\<close>

definition Severity :: "int \<Rightarrow> int" where
  "Severity code =
     (if code \<in> {FLOAT_HIGH, DRY_RUN, CONTINUOUS_RUN, OUTAGE_RISK} then SEV_CRITICAL
      else if code \<in> {MAINS_LOST, SENSOR_FAULT, SHORT_CYCLING, LOW_BATTERY, OFFLINE} then SEV_WARNING
      else SEV_INFO)"

record alerts_config =
  ac_MinSeverity :: int
  ac_NotifyCooldown :: duration
  ac_NotifyResolve :: string
  ac_LowBatteryMV :: int
  ac_LowBatteryClearMV :: int
  ac_RiseMinMM :: int
  ac_RiseWindow :: duration
  ac_RainWindow :: duration
  ac_RainCoverageSlack :: duration
  ac_OfflineAfter :: duration

definition DefaultConfig :: alerts_config where
  "DefaultConfig = \<lparr>ac_MinSeverity = SEV_WARNING, ac_NotifyCooldown = hour,
     ac_NotifyResolve = ''critical'', ac_LowBatteryMV = 3500, ac_LowBatteryClearMV = 3700,
     ac_RiseMinMM = 10, ac_RiseWindow = hour, ac_RainWindow = 6 * hour,
     ac_RainCoverageSlack = 30 * minute, ac_OfflineAfter = hour\<rparr>"

definition notifyResolve :: "alerts_config \<Rightarrow> int \<Rightarrow> bool" where
  "notifyResolve c sev =
     (if ac_NotifyResolve c = ''all'' then True
      else if ac_NotifyResolve c = ''critical'' then sev = SEV_CRITICAL
      else False)"

section \<open>Actions of the engine\<close>

record home_entry =
  he_home :: "uuid option"
  he_segment :: string
  he_at :: instant

text \<open>The engine's memory, with the level samples of the heartbeat handler that shares it.\<close>

record eng =
  e_homes :: "string \<rightharpoonup> home_entry"
  e_levels :: "string \<rightharpoonup> (instant \<times> int) list"

datatype alert_stmt =
    QGetOpen string int | QTouch nat | QHome string | QLastNotified string int | QInsert string int
  | QResolve string int | QReadingsBefore string | QRainNear instant | QStaleDevices

record env =
  en_now :: instant
  en_dbnow :: instant
  en_fails :: "alert_stmt \<Rightarrow> db_error option"

type_synonym 'a act = "eng \<Rightarrow> alert_db \<Rightarrow> eng \<times> (db_error + alert_db \<times> 'a)"

definition ret :: "'a \<Rightarrow> 'a act" where
  "ret a e db = (e, Inr (db, a))"

definition andThen :: "'a act \<Rightarrow> ('a \<Rightarrow> 'b act) \<Rightarrow> 'b act" where
  "andThen m k e db =
     (case m e db of (e', Inl err) \<Rightarrow> (e', Inl err) | (e', Inr (db', a)) \<Rightarrow> k a e' db')"

definition query :: "env \<Rightarrow> alert_stmt \<Rightarrow> (alert_db \<Rightarrow> 'a) \<Rightarrow> 'a act" where
  "query env q f e db = (case en_fails env q of Some err \<Rightarrow> (e, Inl err) | None \<Rightarrow> (e, Inr (db, f db)))"

fun seq :: "'a act list \<Rightarrow> unit act" where
  "seq [] = ret ()"
| "seq (a # as) = andThen a (\<lambda>_. seq as)"

definition homeOf :: "env \<Rightarrow> string \<Rightarrow> home_entry act" where
  "homeOf env dev e db =
     (let lookup =
        (case en_fails env (QHome dev) of
           Some err \<Rightarrow> (e, Inl err)
         | None \<Rightarrow>
           (let home = Option.bind (adb_devices db dev) dv_HomeID;
                seg = Option.bind (Option.bind home (adb_homes db)) id;
                h = \<lparr>he_home = home, he_segment = (case seg of None \<Rightarrow> '''' | Some s \<Rightarrow> s),
                     he_at = en_now env\<rparr>
            in (e\<lparr>e_homes := (e_homes e)(dev \<mapsto> h)\<rparr>, Inr (db, h))))
      in case e_homes e dev of
           Some h \<Rightarrow> (if en_now env - he_at h < 5 * minute then (e, Inr (db, h)) else lookup)
         | None \<Rightarrow> lookup)"

text \<open>
  The state a new alert starts with. A failing \<^verbatim>\<open>LastNotifiedAt\<close> is ignored, as the source does.
\<close>

definition initial_state :: "env \<Rightarrow> alerts_config \<Rightarrow> alert_db \<Rightarrow> string \<Rightarrow> int \<Rightarrow> string" where
  "initial_state env cfg db dev code =
     (if Severity code < ac_MinSeverity cfg then StateSuppressed
      else case (if en_fails env (QLastNotified dev code) = None
                 then LastNotifiedAt db dev code else None) of
             Some t \<Rightarrow> (if en_now env - t < ac_NotifyCooldown cfg then StateSuppressed else StatePending)
           | None \<Rightarrow> StatePending)"

definition insert_alert :: "env \<Rightarrow> insert_params \<Rightarrow> bool act" where
  "insert_alert env p e db =
     (case en_fails env (QInsert (ip_DeviceID p) (ip_Code p)) of
        Some err \<Rightarrow> (e, Inl err)
      | None \<Rightarrow> (case InsertAlert (en_dbnow env) p db of
                  Inl err \<Rightarrow> (e, Inl err) | Inr db' \<Rightarrow> (e, Inr (db', True))))"

definition touch :: "env \<Rightarrow> nat \<Rightarrow> instant \<Rightarrow> bool act" where
  "touch env i t e db =
     (case en_fails env (QTouch i) of
        Some err \<Rightarrow> (e, Inl err)
      | None \<Rightarrow> (e, Inr (TouchAlert (en_dbnow env) i t db, False)))"

definition Raise ::
  "env \<Rightarrow> alerts_config \<Rightarrow> string \<Rightarrow> int \<Rightarrow> instant \<Rightarrow> string \<Rightarrow> trigger_key \<Rightarrow> message \<Rightarrow> bool act" where
  "Raise env cfg dev code t src key msg =
     andThen (query env (QGetOpen dev code) (\<lambda>db. GetOpenAlert db dev code)) (\<lambda>op.
       case op of
         Some a \<Rightarrow> touch env (al_ID a) t
       | None \<Rightarrow>
           andThen (homeOf env dev) (\<lambda>h e db.
             insert_alert env
               \<lparr>ip_DeviceID = dev, ip_HomeID = he_home h, ip_Code = code, ip_Severity = Severity code,
                ip_RaisedAt = t, ip_Message = msg, ip_Source = src, ip_TriggerKey = key,
                ip_NotifyState = initial_state env cfg db dev code\<rparr> e db))"

definition Resolve ::
  "env \<Rightarrow> alerts_config \<Rightarrow> string \<Rightarrow> int \<Rightarrow> instant \<Rightarrow> string \<Rightarrow> bool act" where
  "Resolve env cfg dev code t reason e db =
     (case en_fails env (QResolve dev code) of
        Some err \<Rightarrow> (e, Inl err)
      | None \<Rightarrow>
        (case ResolveOpenAlert (en_dbnow env) t reason (notifyResolve cfg (Severity code)) dev code db of
           None \<Rightarrow> (e, Inr (db, False))
         | Some db' \<Rightarrow> (e, Inr (db', True))))"

section \<open>Rules\<close>

definition alarm_codes :: "int set" where
  "alarm_codes = {FLOAT_HIGH, MAINS_LOST, DRY_RUN, CONTINUOUS_RUN, SENSOR_FAULT}"

definition alarm_rule :: "env \<Rightarrow> alerts_config \<Rightarrow> alarm_row \<Rightarrow> bool act" where
  "alarm_rule env cfg a =
     (if ar_Code a \<in> alarm_codes
      then Raise env cfg (ar_DeviceID a) (ar_Code a) (ar_RaisedAt a) ''node''
             (TriggerKey ''alarm_events'' (ar_DeviceID a) (ar_RaisedAt a) (ar_FCnt a))
             (NodeAlarm (ar_Code a) (ar_Value a))
      else ret False)"

definition alarm_Handle :: "env \<Rightarrow> alerts_config \<Rightarrow> alarm_row list \<Rightarrow> unit act" where
  "alarm_Handle env cfg rows = seq (map (alarm_rule env cfg) rows)"

record rain_check =
  rc_mm :: real
  rc_covered :: bool

definition rain_holds :: "rain_check \<Rightarrow> bool" where
  "rain_holds c \<longleftrightarrow> rc_mm c > 0 \<or> \<not> rc_covered c"

definition rainTerm :: "env \<Rightarrow> alerts_config \<Rightarrow> instant \<Rightarrow> rain_check act" where
  "rainTerm env cfg t =
     query env (QRainNear t) (\<lambda>db.
       (let (mm, covered_until) =
          RainNear db (t - ac_RainWindow cfg - 24 * hour) (t - ac_RainWindow cfg) t
        in \<lparr>rc_mm = mm, rc_covered = \<not> covered_until < t - ac_RainCoverageSlack cfg\<rparr>))"

definition last3 :: "'a list \<Rightarrow> 'a list" where
  "last3 s = (if length s > 3 then drop (length s - 3) s else s)"

definition samples :: "env \<Rightarrow> string \<Rightarrow> reading_row \<Rightarrow> (instant \<times> int) list act" where
  "samples env dev r e db =
     (let add = (\<lambda>s. (let s' = last3 (s @ [(rr_Ts r, rr_LevelMm r)])
                      in (e\<lparr>e_levels := (e_levels e)(dev \<mapsto> s')\<rparr>, Inr (db, s'))))
      in case e_levels e dev of
           Some s \<Rightarrow> add s
         | None \<Rightarrow>
             (case en_fails env (QReadingsBefore dev) of
                Some err \<Rightarrow> (e, Inl err)
              | None \<Rightarrow>
                  add (map (\<lambda>p. (rr_Ts p, rr_LevelMm p))
                    (filter (\<lambda>p. \<not> rr_MainsOk p) (rev (ListReadingsBefore db dev (rr_Ts r) 2))))))"

definition drop_levels :: "string \<Rightarrow> bool act" where
  "drop_levels dev e db = (e\<lparr>e_levels := (e_levels e)(dev := None)\<rparr>, Inr (db, True))"

text \<open>The outage-risk rule on the samples of a device without mains.\<close>

definition outage_rule ::
  "env \<Rightarrow> alerts_config \<Rightarrow> reading_row \<Rightarrow> trigger_key \<Rightarrow> (instant \<times> int) list \<Rightarrow> bool act" where
  "outage_rule env cfg r key ss =
     (let dev = rr_DeviceID r; dists = map snd ss; n = length dists
      in if length ss \<ge> 3 \<and> fst (last ss) - fst (hd ss) \<le> ac_RiseWindow cfg then
           (if LevelRising dists (ac_RiseMinMM cfg) then
              andThen (rainTerm env cfg (rr_Ts r)) (\<lambda>rain.
                if \<not> rain_holds rain then ret False
                else Raise env cfg dev OUTAGE_RISK (rr_Ts r) ''heartbeat'' key
                       (OutageRiskMsg (wrap32 (hd dists - last dists)) n
                          (if rc_covered rain then Some (rc_mm rain) else None)))
            else if dists ! (n - 1) > dists ! (n - 2) \<and> dists ! (n - 2) > dists ! (n - 3) then
              Resolve env cfg dev OUTAGE_RISK (rr_Ts r) ''level falling''
            else ret False)
         else ret False)"

text \<open>The flags every heartbeat carries, then the mains branch.\<close>

definition reading_flags :: "env \<Rightarrow> alerts_config \<Rightarrow> reading_row \<Rightarrow> bool act list" where
  "reading_flags env cfg r =
     (let dev = rr_DeviceID r; t = rr_Ts r;
          key = TriggerKey ''readings'' dev t (rr_FCnt r)
      in [Resolve env cfg dev OFFLINE t ''device reporting'',
         (if rr_FloatHigh r
          then Raise env cfg dev FLOAT_HIGH t ''heartbeat'' key (FloatHighMsg (rr_LevelMm r))
          else Resolve env cfg dev FLOAT_HIGH t ''float low''),
         (if rr_SensorFault r
          then Raise env cfg dev SENSOR_FAULT t ''heartbeat'' key SensorFaultMsg
          else Resolve env cfg dev SENSOR_FAULT t ''sensor ok''),
         (case rr_BattMv r of
            None \<Rightarrow> ret False
          | Some mv \<Rightarrow>
              (if mv < ac_LowBatteryMV cfg
               then Raise env cfg dev LOW_BATTERY t ''heartbeat'' key (BatteryMsg mv)
               else if mv \<ge> ac_LowBatteryClearMV cfg
               then Resolve env cfg dev LOW_BATTERY t ''battery recovered''
               else ret False))])"

definition reading_rule :: "env \<Rightarrow> alerts_config \<Rightarrow> reading_row \<Rightarrow> unit act" where
  "reading_rule env cfg r =
     (let dev = rr_DeviceID r; t = rr_Ts r;
          key = TriggerKey ''readings'' dev t (rr_FCnt r)
      in if rr_MainsOk r then
           seq (reading_flags env cfg r @
             [Resolve env cfg dev MAINS_LOST t ''mains_ok'',
              Resolve env cfg dev OUTAGE_RISK t ''mains_ok'',
              drop_levels dev])
         else
           seq ((reading_flags env cfg r @
             [Raise env cfg dev MAINS_LOST t ''heartbeat'' key MainsLostMsg]) @
             [andThen (samples env dev r) (outage_rule env cfg r key)]))"

definition reading_Handle :: "env \<Rightarrow> alerts_config \<Rightarrow> reading_row list \<Rightarrow> unit act" where
  "reading_Handle env cfg rows = seq (map (reading_rule env cfg) rows)"

definition detection_rule :: "env \<Rightarrow> alerts_config \<Rightarrow> detection_row \<Rightarrow> bool act" where
  "detection_rule env cfg d =
     (if dr_Action d = ActionRaise then
        Raise env cfg (dr_DeviceID d) (dr_Code d) (dr_ObservedAt d) ''detector''
          (TriggerKey ''detections'' (dr_DeviceID d) (dr_ObservedAt d) (dr_FCnt d)) (DetectionMsg (dr_Code d))
      else if dr_Action d = ActionClear then
        Resolve env cfg (dr_DeviceID d) (dr_Code d) (dr_ObservedAt d) ''detector clear''
      else ret False)"

definition detection_Handle :: "env \<Rightarrow> alerts_config \<Rightarrow> detection_row list \<Rightarrow> unit act" where
  "detection_Handle env cfg rows = seq (map (detection_rule env cfg) rows)"

definition SweepOffline :: "env \<Rightarrow> alerts_config \<Rightarrow> unit act" where
  "SweepOffline env cfg =
     (if ac_OfflineAfter cfg \<le> 0 then ret ()
      else andThen (query env QStaleDevices (ListStaleDevices (en_dbnow env) (ac_OfflineAfter cfg)))
        (\<lambda>stale. seq (map (\<lambda>(dev, t).
           Raise env cfg dev OFFLINE (en_now env) ''sweep'' (SweepKey dev (en_now env)) (SilentSince t)) stale)))"

text \<open>The stages of \<^verbatim>\<open>AddStages\<close> as handlers of the consumer; only the heartbeat stage has memory to drop.\<close>

definition as_handler :: "('r list \<Rightarrow> unit act) \<Rightarrow> (eng \<Rightarrow> eng) \<Rightarrow> ('r, eng, alert_db) handler_ops" where
  "as_handler h reset =
     \<lparr>h_Handle = (\<lambda>e db rows. case h rows e db of (e', Inl err) \<Rightarrow> (e', Inl err)
                                             | (e', Inr (db', _)) \<Rightarrow> (e', Inr db')),
      h_Reset = reset\<rparr>"

definition reading_Reset :: "eng \<Rightarrow> eng" where
  "reading_Reset e = e\<lparr>e_levels := Map.empty\<rparr>"

definition alarm_ops where "alarm_ops env cfg = as_handler (alarm_Handle env cfg) id"
definition reading_ops where "reading_ops env cfg = as_handler (reading_Handle env cfg) reading_Reset"
definition detection_ops where "detection_ops env cfg = as_handler (detection_Handle env cfg) id"

section \<open>What every action keeps\<close>

text \<open>
  The contract of an action in a transaction, whatever statements fail: if it succeeds, the table
  keeps its invariant and every alert only evolves. Actions are closed under the combinators, so
  the handlers have it because \<^verbatim>\<open>Raise\<close> and \<^verbatim>\<open>Resolve\<close> have it.
\<close>

locale alert_action =
  fixes act :: "'a act"
  assumes keeps: "act e db = (e', Inr (db', a)) \<Longrightarrow> alerts_ok db \<Longrightarrow> alerts_ok db' \<and> evolves db db'"
begin

lemma resolved_stays:
  assumes "act e db = (e', Inr (db', a))" and "alerts_ok db" and "x \<in> set (adb_alerts db)"
    and "al_ResolvedAt x = Some t"
  shows "\<exists>y \<in> set (adb_alerts db'). al_ID y = al_ID x \<and> al_ResolvedAt y = Some t"
  using evolves_row [of db db' x] keeps [OF assms(1,2)] assms(3,4) by (auto simp: row_evolves_def)

end

lemma alert_action_ret: "alert_action (ret a)"
  by unfold_locales (auto simp: ret_def)

lemma alert_action_query: "alert_action (query env q f)"
  by unfold_locales (auto simp: query_def split: option.splits)

lemma alert_action_andThen:
  assumes "alert_action m" and "\<And>a. alert_action (k a)"
  shows "alert_action (andThen m k)"
proof
  fix e db e' db' b
  assume run: "andThen m k e db = (e', Inr (db', b))" and ok: "alerts_ok db"
  from run obtain e1 db1 a where "m e db = (e1, Inr (db1, a))" "k a e1 db1 = (e', Inr (db', b))"
    by (auto simp: andThen_def split: prod.splits sum.splits)
  then show "alerts_ok db' \<and> evolves db db'"
    using assms ok by (meson alert_action.keeps evolves_trans)
qed

lemma alert_action_seq: "(\<And>a. a \<in> set as \<Longrightarrow> alert_action a) \<Longrightarrow> alert_action (seq as)"
  by (induction as) (simp_all add: alert_action_ret alert_action_andThen)

lemma homeOf_db: "homeOf env dev e db = (e', Inr (db', h)) \<Longrightarrow> db' = db"
  by (auto simp: homeOf_def Let_def split: option.splits if_splits)

lemma alert_action_Raise: "alert_action (Raise env cfg dev code t src key msg)"
proof
  fix e db e' db' b
  assume run: "Raise env cfg dev code t src key msg e db = (e', Inr (db', b))" and ok: "alerts_ok db"
  show "alerts_ok db' \<and> evolves db db'"
  proof (cases "GetOpenAlert db dev code")
    case (Some a)
    then have "db' = TouchAlert (en_dbnow env) (al_ID a) t db"
      using run by (auto simp: Raise_def andThen_def query_def touch_def split: option.splits)
    then show ?thesis using touch_keeps ok GetOpenAlert_Some [OF Some] by (auto simp: open_for_def)
  next
    case None
    then obtain p where "InsertAlert (en_dbnow env) p db = Inr db'"
      using run homeOf_db
      by (fastforce simp: Raise_def andThen_def query_def insert_alert_def
          split: option.splits sum.splits prod.splits)
    then show ?thesis using insert_keeps ok by blast
  qed
qed

lemma alert_action_Resolve: "alert_action (Resolve env cfg dev code t reason)"
  using resolve_keeps
  by unfold_locales (auto simp: Resolve_def split: option.splits)

lemma alert_action_samples: "alert_action (samples env dev r)"
  by unfold_locales (auto simp: samples_def Let_def split: option.splits)

lemma alert_action_drop_levels: "alert_action (drop_levels dev)"
  by unfold_locales (auto simp: drop_levels_def)

lemma alert_action_outage: "alert_action (outage_rule env cfg r key ss)"
  by (auto simp: outage_rule_def Let_def rainTerm_def
      intro!: alert_action_ret alert_action_andThen alert_action_query alert_action_Raise alert_action_Resolve)

lemmas alert_actions = alert_action_ret alert_action_query alert_action_Raise alert_action_Resolve
  alert_action_samples alert_action_drop_levels alert_action_outage alert_action_andThen

lemma alert_action_reading: "alert_action (reading_rule env cfg r)"
  unfolding reading_rule_def reading_flags_def Let_def
  by (auto intro!: alert_actions alert_action_seq split: option.splits if_splits)

interpretation alarms: alert_action "alarm_Handle env cfg rows" for env cfg rows
  unfolding alarm_Handle_def by (rule alert_action_seq) (auto simp: alarm_rule_def intro!: alert_actions)

interpretation readings: alert_action "reading_Handle env cfg rows" for env cfg rows
  unfolding reading_Handle_def by (rule alert_action_seq) (auto intro!: alert_action_reading)

interpretation detections: alert_action "detection_Handle env cfg rows" for env cfg rows
  unfolding detection_Handle_def
  by (rule alert_action_seq) (auto simp: detection_rule_def intro!: alert_actions)

interpretation sweep: alert_action "SweepOffline env cfg" for env cfg
  unfolding SweepOffline_def
  by (auto intro!: alert_actions alert_action_seq)

section \<open>The board of open alerts\<close>

text \<open>
  What the engine promises, abstractly: a board with, for each device and code, the start of the
  open episode. Raising opens an episode or moves its start back; resolving ends it unless the
  resolving observation is older than its start.
\<close>

type_synonym board = "string \<times> int \<Rightarrow> instant option"

definition board :: "alert_db \<Rightarrow> board" where
  "board db = (\<lambda>(dev, code). map_option al_RaisedAt (GetOpenAlert db dev code))"

definition board_raise :: "string \<times> int \<Rightarrow> instant \<Rightarrow> board \<Rightarrow> board" where
  "board_raise k t b = b(k := Some (case b k of None \<Rightarrow> t | Some r \<Rightarrow> min r t))"

definition board_resolve :: "string \<times> int \<Rightarrow> instant \<Rightarrow> board \<Rightarrow> board" where
  "board_resolve k t b =
     b(k := (case b k of None \<Rightarrow> None | Some r \<Rightarrow> if r \<le> t then None else Some r))"

definition refines :: "string \<Rightarrow> 'a act \<Rightarrow> (board \<Rightarrow> board \<Rightarrow> bool) \<Rightarrow> bool" where
  "refines dev act R \<longleftrightarrow> (\<forall>e db. alerts_ok db \<and> adb_devices db dev \<noteq> None \<longrightarrow>
     (\<exists>e' db' a. act e db = (e', Inr (db', a)) \<and> alerts_ok db' \<and> evolves db db' \<and> R (board db) (board db')))"

lemma refinesD:
  assumes "refines dev act R" "alerts_ok db" "adb_devices db dev \<noteq> None"
  obtains e' db' a where "act e db = (e', Inr (db', a))" "alerts_ok db'" "evolves db db'"
    "R (board db) (board db')"
  using assms unfolding refines_def by meson

lemma refines_andThen:
  assumes m: "refines dev m R" and k: "\<And>a. refines dev (k a) S"
  shows "refines dev (andThen m k) (R OO S)"
  unfolding refines_def
proof (intro allI impI, elim conjE)
  fix e db
  assume db: "alerts_ok db" "adb_devices db dev \<noteq> None"
  obtain e1 db1 a where 1: "m e db = (e1, Inr (db1, a))" "alerts_ok db1" "evolves db db1"
    "R (board db) (board db1)" using refinesD [OF m db] by metis
  have "adb_devices db1 dev \<noteq> None" using 1(3) db(2) by (simp add: evolves_def)
  then obtain e2 db2 b where 2: "k a e1 db1 = (e2, Inr (db2, b))" "alerts_ok db2" "evolves db1 db2"
    "S (board db1) (board db2)" using refinesD [OF k 1(2)] by metis
  show "\<exists>e' db' b. andThen m k e db = (e', Inr (db', b)) \<and> alerts_ok db' \<and> evolves db db'
      \<and> (R OO S) (board db) (board db')"
    using 1 2 evolves_trans [OF 1(3) 2(3)] by (auto simp: andThen_def)
qed

lemma refines_ret: "refines dev (ret a) (=)"
  by (auto simp: refines_def ret_def)

lemma refines_weaken: "refines dev act R \<Longrightarrow> (\<And>b b'. R b b' \<Longrightarrow> S b b') \<Longrightarrow> refines dev act S"
  unfolding refines_def by blast

fun chain :: "(board \<Rightarrow> board \<Rightarrow> bool) list \<Rightarrow> board \<Rightarrow> board \<Rightarrow> bool" where
  "chain [] = (=)"
| "chain (R # Rs) = R OO chain Rs"

lemma refines_seq: "list_all2 (refines dev) as Rs \<Longrightarrow> refines dev (seq as) (chain Rs)"
  by (induction as Rs rule: list_all2_induct) (auto intro: refines_ret refines_andThen)

lemma find_map_same:
  "(\<And>x. x \<in> set xs \<Longrightarrow> P (f x) = P x) \<Longrightarrow> find P (map f xs) = map_option f (find P xs)"
  by (induction xs) auto

lemma find_append: "find P (xs @ ys) = (case find P xs of None \<Rightarrow> find P ys | Some x \<Rightarrow> Some x)"
  by (induction xs) auto

lemma board_touch:
  assumes ok: "alerts_ok db" and a: "GetOpenAlert db dev code = Some a"
  shows "board (TouchAlert now (al_ID a) t db) = board_raise (dev, code) t (board db)"
proof -
  let ?f = "\<lambda>b. if al_ID b = al_ID a
     then b\<lparr>al_RaisedAt := min (al_RaisedAt b) t, al_LastSeenAt := max (al_LastSeenAt b) t,
            al_Occurrences := al_Occurrences b + 1, al_UpdatedAt := now\<rparr> else b"
  have same: "b = a" if "b \<in> set (adb_alerts db)" "al_ID b = al_ID a" for b
    using that ok GetOpenAlert_Some [OF a] by (auto simp: alerts_ok_def distinct_map dest: inj_onD)
  have "open_for d c (?f b) = open_for d c b" for d c b by (simp add: open_for_def is_open_def)
  then have get: "GetOpenAlert (TouchAlert now (al_ID a) t db) d c = map_option ?f (GetOpenAlert db d c)" for d c
    by (simp add: GetOpenAlert_def TouchAlert_def upd_alerts_def find_map_same)
  have "map_option al_RaisedAt (map_option ?f (GetOpenAlert db d c)) =
      board_raise (dev, code) t (board db) (d, c)" for d c
  proof (cases "(d, c) = (dev, code)")
    case True
    then show ?thesis using a by (simp add: board_raise_def board_def)
  next
    case False
    then have "al_ID b \<noteq> al_ID a" if "GetOpenAlert db d c = Some b" for b
      using same GetOpenAlert_Some [OF that] GetOpenAlert_Some [OF a] by (auto simp: open_for_def)
    then show ?thesis using False
      by (cases "GetOpenAlert db d c") (auto simp: board_raise_def board_def)
  qed
  then show ?thesis by (auto simp: board_def get)
qed

lemma board_insert:
  assumes "GetOpenAlert db (ip_DeviceID p) (ip_Code p) = None" and "InsertAlert now p db = Inr db'"
  shows "board db' = board_raise (ip_DeviceID p, ip_Code p) (ip_RaisedAt p) (board db)"
proof -
  have db': "adb_alerts db' = adb_alerts db @ [new_alert now (adb_next db) p]"
    using assms(2) by (auto simp: InsertAlert_def split: if_splits)
  have "map_option al_RaisedAt (GetOpenAlert db' d c) =
      board_raise (ip_DeviceID p, ip_Code p) (ip_RaisedAt p) (board db) (d, c)" for d c
    using assms(1)
    by (auto simp: GetOpenAlert_def db' find_append board_raise_def board_def new_alert_def
        open_for_def is_open_def split: option.splits)
  then show ?thesis by (auto simp: board_def)
qed

lemma board_ResolveOpenAlert:
  assumes ok: "alerts_ok db"
  shows "board (case ResolveOpenAlert now t reason n dev code db of None \<Rightarrow> db | Some db' \<Rightarrow> db') =
    board_resolve (dev, code) t (board db)"
proof -
  let ?f = "\<lambda>a. if resolvable dev code t a then resolve_row now t reason n a else a"
  let ?db = "upd_alerts (map ?f) db"
  have eq: "(case ResolveOpenAlert now t reason n dev code db of None \<Rightarrow> db | Some db' \<Rightarrow> db') = ?db"
    by (auto simp: ResolveOpenAlert_def upd_alerts_def intro!: alert_db.equality map_idI[symmetric])
  have other: "GetOpenAlert ?db d c = GetOpenAlert db d c" if "(d, c) \<noteq> (dev, code)" for d c
  proof -
    have "open_for d c (?f b) = open_for d c b" for b
      using that by (auto simp: open_for_def resolvable_def resolve_row_def is_open_def)
    then have "GetOpenAlert ?db d c = map_option ?f (GetOpenAlert db d c)"
      by (simp add: GetOpenAlert_def upd_alerts_def find_map_same)
    then show ?thesis
      using that GetOpenAlert_Some [of db d c]
      by (cases "GetOpenAlert db d c") (auto simp: resolvable_def open_for_def)
  qed
  have this_key: "map_option al_RaisedAt (GetOpenAlert ?db dev code) =
      board_resolve (dev, code) t (board db) (dev, code)"
  proof (cases "GetOpenAlert db dev code")
    case None
    then have "GetOpenAlert ?db dev code = None"
      by (auto simp: GetOpenAlert_None upd_alerts_def resolvable_def)
    then show ?thesis using None by (simp add: board_resolve_def board_def)
  next
    case (Some a)
    have uniq: "open_for dev code b \<longleftrightarrow> b = a" if "b \<in> set (adb_alerts db)" for b
      using that open_unique [OF ok] GetOpenAlert_Some [OF Some] by blast
    show ?thesis
    proof (cases "al_RaisedAt a \<le> t")
      case True
      then have "\<not> open_for dev code (?f b)" if "b \<in> set (adb_alerts db)" for b
        using uniq [OF that] by (auto simp: resolvable_def resolve_row_def open_for_def is_open_def)
      then have "\<not> open_for dev code a" if "a \<in> set (map ?f (adb_alerts db))" for a
        using that unfolding set_map by blast
      then have "GetOpenAlert ?db dev code = None"
        unfolding GetOpenAlert_None upd_alerts_def by simp
      then show ?thesis using Some True by (simp add: board_resolve_def board_def)
    next
      case False
      then have "?f b = b" if "b \<in> set (adb_alerts db)" for b
        using uniq [OF that] by (auto simp: resolvable_def)
      then have "?db = db" by (simp add: upd_alerts_def map_idI)
      then show ?thesis using Some False by (simp add: board_resolve_def board_def)
    qed
  qed
  have "map_option al_RaisedAt (GetOpenAlert ?db d c) = board_resolve (dev, code) t (board db) (d, c)" for d c
    using other [of d c] this_key
    by (cases "(d, c) = (dev, code)") (auto simp: board_resolve_def board_def)
  then show ?thesis by (auto simp: board_def eq)
qed

text \<open>With every statement succeeding, the engine's operations are the board's operations.\<close>

definition faultless :: "env \<Rightarrow> bool" where
  "faultless env \<longleftrightarrow> en_fails env = (\<lambda>_. None)"

lemma Severity_range: "1 \<le> Severity code \<and> Severity code \<le> 3"
  by (simp add: Severity_def sev_defs)

lemma homeOf_ok: "faultless env \<Longrightarrow> \<exists>e' h. homeOf env dev e db = (e', Inr (db, h))"
  by (auto simp: homeOf_def faultless_def Let_def split: option.splits)

lemma refines_Raise:
  assumes env: "faultless env" and code: "1 \<le> code" "code \<le> 9"
    and src: "src \<in> {''node'', ''heartbeat'', ''detector'', ''sweep''}"
  shows "refines dev (Raise env cfg dev code t src key msg) (\<lambda>b b'. b' = board_raise (dev, code) t b)"
  unfolding refines_def
proof (intro allI impI, elim conjE)
  fix e db
  assume ok: "alerts_ok db" and dev: "adb_devices db dev \<noteq> None"
  have "\<exists>e' db' a. Raise env cfg dev code t src key msg e db = (e', Inr (db', a))
      \<and> board db' = board_raise (dev, code) t (board db)"
  proof (cases "GetOpenAlert db dev code")
    case (Some a)
    then show ?thesis
      using env board_touch [OF ok Some]
      by (auto simp: Raise_def andThen_def query_def touch_def faultless_def)
  next
    case None
    obtain e' h where h: "homeOf env dev e db = (e', Inr (db, h))" using homeOf_ok [OF env] by blast
    define p where "p = \<lparr>ip_DeviceID = dev, ip_HomeID = he_home h, ip_Code = code,
        ip_Severity = Severity code, ip_RaisedAt = t, ip_Message = msg, ip_Source = src,
        ip_TriggerKey = key, ip_NotifyState = initial_state env cfg db dev code\<rparr>"
    obtain db' where "InsertAlert (en_dbnow env) p db = Inr db'"
      using dev code src Severity_range [of code] None
      by (auto simp: InsertAlert_def p_def GetOpenAlert_None)
    then show ?thesis
      using env None h board_insert [of db p "en_dbnow env" db']
      by (auto simp: Raise_def andThen_def query_def insert_alert_def faultless_def p_def)
  qed
  then show "\<exists>e' db' a. Raise env cfg dev code t src key msg e db = (e', Inr (db', a))
      \<and> alerts_ok db' \<and> evolves db db' \<and> board db' = board_raise (dev, code) t (board db)"
    using alert_action.keeps [OF alert_action_Raise _ ok] by blast
qed

lemma refines_Resolve:
  assumes env: "faultless env"
  shows "refines dev (Resolve env cfg dev code t reason) (\<lambda>b b'. b' = board_resolve (dev, code) t b)"
  unfolding refines_def
proof (intro allI impI, elim conjE)
  fix e db
  assume ok: "alerts_ok db"
  have "\<exists>e' db' a. Resolve env cfg dev code t reason e db = (e', Inr (db', a))
      \<and> board db' = board_resolve (dev, code) t (board db)"
    using env board_ResolveOpenAlert [OF ok, of "en_dbnow env" t reason "notifyResolve cfg (Severity code)" dev code]
    by (auto simp: Resolve_def faultless_def split: option.splits)
  then show "\<exists>e' db' a. Resolve env cfg dev code t reason e db = (e', Inr (db', a))
      \<and> alerts_ok db' \<and> evolves db db' \<and> board db' = board_resolve (dev, code) t (board db)"
    using alert_action.keeps [OF alert_action_Resolve _ ok] by blast
qed

section \<open>What a heartbeat does to the board\<close>

definition only_key :: "string \<times> int \<Rightarrow> board \<Rightarrow> board \<Rightarrow> bool" where
  "only_key k b b' \<longleftrightarrow> (\<forall>x. x \<noteq> k \<longrightarrow> b' x = b x)"

lemma refines_same: "(\<And>e db. \<exists>e' a. act e db = (e', Inr (db, a))) \<Longrightarrow> refines dev act (=)"
  unfolding refines_def by (metis evolves_refl)

lemma refines_if: "refines dev a R \<Longrightarrow> refines dev b R \<Longrightarrow> refines dev (if c then a else b) R"
  by simp

lemma refines_ret_only: "refines dev (ret a) (only_key k)"
  by (rule refines_weaken [OF refines_ret]) (simp add: only_key_def)

lemma refines_outage:
  assumes env: "faultless env" and dev: "dev = rr_DeviceID r"
  shows "refines dev (andThen (samples env dev r) (outage_rule env cfg r key)) (only_key (dev, OUTAGE_RISK))"
proof -
  have rain: "refines dev (rainTerm env cfg t) (=)" for t
    using env by (intro refines_same) (auto simp: rainTerm_def query_def faultless_def)
  have samples: "refines dev (samples env dev r) (=)"
    using env by (intro refines_same) (auto simp: samples_def faultless_def Let_def split: option.splits)
  have raise: "refines dev (Raise env cfg dev OUTAGE_RISK t ''heartbeat'' key msg) (only_key (dev, OUTAGE_RISK))" for t msg
    by (rule refines_weaken [OF refines_Raise [OF env]]) (auto simp: code_defs board_raise_def only_key_def)
  have resolve: "refines dev (Resolve env cfg dev OUTAGE_RISK t reason) (only_key (dev, OUTAGE_RISK))" for t reason
    by (rule refines_weaken [OF refines_Resolve [OF env]]) (auto simp: board_resolve_def only_key_def)
  have "refines dev (outage_rule env cfg r key ss) (only_key (dev, OUTAGE_RISK))" for ss
  proof -
    have rain_then: "refines dev (andThen (rainTerm env cfg (rr_Ts r)) k) (only_key (dev, OUTAGE_RISK))"
      if "\<And>a. refines dev (k a) (only_key (dev, OUTAGE_RISK))" for k
      using refines_andThen [OF rain that] by (rule refines_weaken) auto
    show ?thesis
      unfolding outage_rule_def Let_def dev [symmetric]
      by (intro refines_if rain_then raise resolve refines_ret_only)
  qed
  from refines_andThen [OF samples this] show ?thesis by (rule refines_weaken) auto
qed

lemma refines_drop_levels: "refines dev (drop_levels dev) (=)"
  by (rule refines_same) (auto simp: drop_levels_def)

definition flag_effect :: "reading_row \<Rightarrow> bool \<Rightarrow> int \<Rightarrow> board \<Rightarrow> board \<Rightarrow> bool" where
  "flag_effect r up c b b' \<longleftrightarrow>
     b' = (if up then board_raise (rr_DeviceID r, c) (rr_Ts r) b
           else board_resolve (rr_DeviceID r, c) (rr_Ts r) b)"

definition flags_effects :: "reading_row \<Rightarrow> (board \<Rightarrow> board \<Rightarrow> bool) list" where
  "flags_effects r =
     [flag_effect r False OFFLINE, flag_effect r (rr_FloatHigh r) FLOAT_HIGH,
      flag_effect r (rr_SensorFault r) SENSOR_FAULT, only_key (rr_DeviceID r, LOW_BATTERY)]"

definition mains_effects :: "reading_row \<Rightarrow> (board \<Rightarrow> board \<Rightarrow> bool) list" where
  "mains_effects r =
     (if rr_MainsOk r then [flag_effect r False MAINS_LOST, flag_effect r False OUTAGE_RISK, (=)]
      else [flag_effect r True MAINS_LOST, only_key (rr_DeviceID r, OUTAGE_RISK)])"

lemma refines_battery:
  assumes env: "faultless env"
  shows "refines dev
    (case batt of None \<Rightarrow> ret False
     | Some mv \<Rightarrow> if mv < ac_LowBatteryMV cfg then Raise env cfg dev LOW_BATTERY t ''heartbeat'' key (BatteryMsg mv)
         else if mv \<ge> ac_LowBatteryClearMV cfg then Resolve env cfg dev LOW_BATTERY t ''battery recovered''
         else ret False) (only_key (dev, LOW_BATTERY))"
proof -
  have "refines dev (Raise env cfg dev LOW_BATTERY t ''heartbeat'' key msg) (only_key (dev, LOW_BATTERY))" for msg
    by (rule refines_weaken [OF refines_Raise [OF env]]) (auto simp: code_defs board_raise_def only_key_def)
  moreover have "refines dev (Resolve env cfg dev LOW_BATTERY t reason) (only_key (dev, LOW_BATTERY))" for reason
    by (rule refines_weaken [OF refines_Resolve [OF env]]) (auto simp: board_resolve_def only_key_def)
  ultimately show ?thesis using refines_ret_only by (auto split: option.split)
qed

lemma refines_flag:
  assumes env: "faultless env" and "1 \<le> code" "code \<le> 9"
  shows "refines (rr_DeviceID r)
    (if up then Raise env cfg (rr_DeviceID r) code (rr_Ts r) ''heartbeat'' key msg
     else Resolve env cfg (rr_DeviceID r) code (rr_Ts r) reason) (flag_effect r up code)"
proof -
  have eq: "flag_effect r up code = (\<lambda>b b'. b' = (if up then board_raise (rr_DeviceID r, code) (rr_Ts r) b
      else board_resolve (rr_DeviceID r, code) (rr_Ts r) b))"
    by (intro ext) (simp add: flag_effect_def)
  show ?thesis unfolding eq using assms by (auto intro!: refines_Raise refines_Resolve)
qed

lemma code_range: "1 \<le> FLOAT_HIGH" "FLOAT_HIGH \<le> 9" "1 \<le> SENSOR_FAULT" "SENSOR_FAULT \<le> 9"
  "1 \<le> MAINS_LOST" "MAINS_LOST \<le> 9" "1 \<le> OFFLINE" "OFFLINE \<le> 9" "1 \<le> OUTAGE_RISK" "OUTAGE_RISK \<le> 9"
  by (simp_all add: code_defs)

lemma refines_flag_raise:
  "faultless env \<Longrightarrow> 1 \<le> code \<Longrightarrow> code \<le> 9 \<Longrightarrow> refines (rr_DeviceID r)
     (Raise env cfg (rr_DeviceID r) code (rr_Ts r) ''heartbeat'' key msg) (flag_effect r True code)"
  using refines_flag [where up = True] by simp

lemma refines_flag_resolve:
  "faultless env \<Longrightarrow> 1 \<le> code \<Longrightarrow> code \<le> 9 \<Longrightarrow> refines (rr_DeviceID r)
     (Resolve env cfg (rr_DeviceID r) code (rr_Ts r) reason) (flag_effect r False code)"
  using refines_flag [where up = False] by simp

lemma refines_flags:
  assumes env: "faultless env"
  shows "list_all2 (refines (rr_DeviceID r)) (reading_flags env cfg r) (flags_effects r)"
  unfolding reading_flags_def flags_effects_def Let_def
  by (simp only: list_all2_Cons list_all2_Nil refines_battery [OF env] refines_flag [OF env]
      refines_flag_resolve [OF env] code_range simp_thms)

lemma refines_reading:
  assumes env: "faultless env"
  shows "refines (rr_DeviceID r) (reading_rule env cfg r) (chain (flags_effects r @ mains_effects r))"
proof (cases "rr_MainsOk r")
  case True
  have "list_all2 (refines (rr_DeviceID r))
      [Resolve env cfg (rr_DeviceID r) MAINS_LOST (rr_Ts r) ''mains_ok'',
       Resolve env cfg (rr_DeviceID r) OUTAGE_RISK (rr_Ts r) ''mains_ok'',
       drop_levels (rr_DeviceID r)] (mains_effects r)"
    using True by (simp only: mains_effects_def if_True list_all2_Cons list_all2_Nil
        refines_flag_resolve [OF env] refines_drop_levels code_range simp_thms)
  then show ?thesis
    using True refines_flags [OF env] unfolding reading_rule_def Let_def
    by (simp only: if_True) (intro refines_seq list_all2_appendI)
next
  case False
  have "list_all2 (refines (rr_DeviceID r))
      [Raise env cfg (rr_DeviceID r) MAINS_LOST (rr_Ts r) ''heartbeat'' key MainsLostMsg,
       andThen (samples env (rr_DeviceID r) r) (outage_rule env cfg r key)] (mains_effects r)" for key
    using False by (simp only: mains_effects_def if_False list_all2_Cons list_all2_Nil
        refines_flag_raise [OF env] refines_outage [OF env refl] code_range simp_thms)
  then show ?thesis
    using False refines_flags [OF env] unfolding reading_rule_def Let_def
    by (simp only: if_False append_assoc append.simps) (intro refines_seq list_all2_appendI)
qed

section \<open>When outage risk is raised\<close>

lemma samples_result:
  assumes "samples env dev r e db = (e', Inr (db', ss))"
  shows "db' = db \<and> e_levels e' dev = Some ss \<and> ss \<noteq> [] \<and> last ss = (rr_Ts r, rr_LevelMm r) \<and> length ss \<le> 3"
  using assms by (auto simp: samples_def Let_def last3_def split: option.splits if_splits)

definition rain_at :: "alerts_config \<Rightarrow> alert_db \<Rightarrow> instant \<Rightarrow> rain_check" where
  "rain_at cfg db t =
     (let (mm, covered_until) = RainNear db (t - ac_RainWindow cfg - 24 * hour) (t - ac_RainWindow cfg) t
      in \<lparr>rc_mm = mm, rc_covered = \<not> covered_until < t - ac_RainCoverageSlack cfg\<rparr>)"

definition rising :: "alerts_config \<Rightarrow> (instant \<times> int) list \<Rightarrow> bool" where
  "rising cfg ss \<longleftrightarrow> length ss \<ge> 3 \<and> fst (last ss) - fst (hd ss) \<le> ac_RiseWindow cfg
     \<and> LevelRising (map snd ss) (ac_RiseMinMM cfg)"

text \<open>If the rule does not both see a rise and find the rain term to hold, it opens nothing.\<close>

lemma outage_rule_opens:
  assumes run: "outage_rule env cfg r key ss e db = (e', Inr (db', b))" and ok: "alerts_ok db"
    and env: "faultless env"
    and before: "board db (rr_DeviceID r, OUTAGE_RISK) = None"
    and after: "board db' (rr_DeviceID r, OUTAGE_RISK) \<noteq> None"
  shows "rising cfg ss \<and> rain_holds (rain_at cfg db (rr_Ts r)) \<and> e_levels e' = e_levels e"
proof (rule ccontr)
  let ?k = "(rr_DeviceID r, OUTAGE_RISK)"
  assume no: "\<not> ?thesis"
  have res: "board db' ?k = None"
    if "Resolve env cfg (rr_DeviceID r) OUTAGE_RISK t reason e db = (e', Inr (db', b))" for t reason
  proof -
    have "board db' = board_resolve ?k t (board db)"
      using that env board_ResolveOpenAlert [OF ok, of "en_dbnow env" t reason
          "notifyResolve cfg (Severity OUTAGE_RISK)" "rr_DeviceID r" OUTAGE_RISK]
      by (auto simp: Resolve_def faultless_def split: option.splits)
    then show ?thesis using before by (simp add: board_resolve_def)
  qed
  have rain: "rainTerm env cfg t e db = (e, Inr (db, rain_at cfg db t))" for t
    using env by (simp add: rainTerm_def query_def faultless_def rain_at_def split_beta Let_def)
  have raise: "e_levels e' = e_levels e"
    if "Raise env cfg dev code t src key msg e db = (e', Inr (db', b))" for dev code t src msg
    using that
    by (auto simp: Raise_def andThen_def query_def touch_def insert_alert_def homeOf_def Let_def
        split: option.splits prod.splits sum.splits if_splits)
  show False
    using run no before after res rain raise
    by (auto simp: outage_rule_def Let_def andThen_def ret_def rising_def split: if_splits)
qed

lemma seq_append: "seq (xs @ ys) = andThen (seq xs) (\<lambda>_. seq ys)"
  by (induction xs) (auto simp: fun_eq_iff andThen_def ret_def split: prod.split sum.split)

lemma chain_key:
  "chain Rs b b' \<Longrightarrow> (\<And>R c c'. R \<in> set Rs \<Longrightarrow> R c c' \<Longrightarrow> c' k = c k) \<Longrightarrow> b' k = b k"
proof (induction Rs arbitrary: b)
  case (Cons R Rs)
  then obtain y where "R b y" "chain Rs y b'" by auto
  have "y k = b k" using \<open>R b y\<close> Cons.prems(2) by (meson list.set_intros(1))
  moreover have "b' k = y k" using \<open>chain Rs y b'\<close>
    by (rule Cons.IH) (meson Cons.prems(2) list.set_intros(2))
  ultimately show ?case by simp
qed simp

lemma chain_append: "chain (xs @ ys) = chain xs OO chain ys"
  by (induction xs) (auto simp: relcompp_assoc)

lemma flag_effect_other: "flag_effect r up c b b' \<Longrightarrow> k \<noteq> (rr_DeviceID r, c) \<Longrightarrow> b' k = b k"
  by (auto simp: flag_effect_def board_raise_def board_resolve_def split: if_splits)

lemma only_keyD: "only_key k0 b b' \<Longrightarrow> k \<noteq> k0 \<Longrightarrow> b' k = b k"
  unfolding only_key_def by blast

lemma flags_other:
  assumes "chain (flags_effects r) b b'" and "k \<notin> Pair (rr_DeviceID r) ` {OFFLINE, FLOAT_HIGH, SENSOR_FAULT, LOW_BATTERY}"
  shows "b' k = b k"
  using assms(1)
proof (rule chain_key)
  fix R c c' assume "R \<in> set (flags_effects r)" "R c c'"
  then show "c' k = c k"
    using assms(2) unfolding flags_effects_def
    by (auto intro: flag_effect_other only_keyD)
qed

text \<open>An episode after an observation at \<open>t\<close> that the condition is present, or absent.\<close>

definition seen :: "instant \<Rightarrow> instant option \<Rightarrow> instant option" where
  "seen t r = Some (case r of None \<Rightarrow> t | Some x \<Rightarrow> min x t)"

definition gone :: "instant \<Rightarrow> instant option \<Rightarrow> instant option" where
  "gone t r = (case r of None \<Rightarrow> None | Some x \<Rightarrow> if x \<le> t then None else Some x)"

lemma flag_effect_this: "flag_effect r up c b b' \<Longrightarrow>
  b' (rr_DeviceID r, c) = (if up then seen (rr_Ts r) else gone (rr_Ts r)) (b (rr_DeviceID r, c))"
  by (simp add: flag_effect_def board_raise_def board_resolve_def seen_def gone_def)

lemma flags_outcome:
  assumes "chain (flags_effects r) b b'"
  shows "b' (rr_DeviceID r, OFFLINE) = gone (rr_Ts r) (b (rr_DeviceID r, OFFLINE))"
    and "b' (rr_DeviceID r, FLOAT_HIGH) =
      (if rr_FloatHigh r then seen (rr_Ts r) else gone (rr_Ts r)) (b (rr_DeviceID r, FLOAT_HIGH))"
    and "b' (rr_DeviceID r, SENSOR_FAULT) =
      (if rr_SensorFault r then seen (rr_Ts r) else gone (rr_Ts r)) (b (rr_DeviceID r, SENSOR_FAULT))"
proof -
  obtain b1 b2 b3 where c: "flag_effect r False OFFLINE b b1"
    "flag_effect r (rr_FloatHigh r) FLOAT_HIGH b1 b2"
    "flag_effect r (rr_SensorFault r) SENSOR_FAULT b2 b3" "only_key (rr_DeviceID r, LOW_BATTERY) b3 b'"
    using assms by (auto simp: flags_effects_def)
  have ne: "OFFLINE \<noteq> FLOAT_HIGH" "OFFLINE \<noteq> SENSOR_FAULT" "OFFLINE \<noteq> LOW_BATTERY"
    "FLOAT_HIGH \<noteq> SENSOR_FAULT" "FLOAT_HIGH \<noteq> LOW_BATTERY" "SENSOR_FAULT \<noteq> LOW_BATTERY"
    by (simp_all add: code_defs)
  note f = flag_effect_other [OF c(1)] flag_effect_other [OF c(2)] flag_effect_other [OF c(3)]
    only_keyD [OF c(4)] and t = flag_effect_this [OF c(1)] flag_effect_this [OF c(2)] flag_effect_this [OF c(3)]
  show "b' (rr_DeviceID r, OFFLINE) = gone (rr_Ts r) (b (rr_DeviceID r, OFFLINE))"
    using ne by (simp add: f t)
  show "b' (rr_DeviceID r, FLOAT_HIGH) =
      (if rr_FloatHigh r then seen (rr_Ts r) else gone (rr_Ts r)) (b (rr_DeviceID r, FLOAT_HIGH))"
    using ne by (simp add: f t ne [symmetric])
  show "b' (rr_DeviceID r, SENSOR_FAULT) =
      (if rr_SensorFault r then seen (rr_Ts r) else gone (rr_Ts r)) (b (rr_DeviceID r, SENSOR_FAULT))"
    using ne by (simp add: f t ne [symmetric])
qed

lemma mains_outcome:
  assumes "chain (mains_effects r) b b'"
  shows "b' (rr_DeviceID r, MAINS_LOST) =
      (if rr_MainsOk r then gone (rr_Ts r) else seen (rr_Ts r)) (b (rr_DeviceID r, MAINS_LOST))"
    and "rr_MainsOk r \<Longrightarrow> b' (rr_DeviceID r, OUTAGE_RISK) = gone (rr_Ts r) (b (rr_DeviceID r, OUTAGE_RISK))"
    and "k \<notin> Pair (rr_DeviceID r) ` {MAINS_LOST, OUTAGE_RISK} \<Longrightarrow> b' k = b k"
proof -
  have ne: "MAINS_LOST \<noteq> OUTAGE_RISK" "OUTAGE_RISK \<noteq> MAINS_LOST" by (simp_all add: code_defs)
  show "b' (rr_DeviceID r, MAINS_LOST) =
      (if rr_MainsOk r then gone (rr_Ts r) else seen (rr_Ts r)) (b (rr_DeviceID r, MAINS_LOST))"
    using assms ne by (auto simp: mains_effects_def flag_effect_other flag_effect_this only_keyD split: if_splits)
  show "rr_MainsOk r \<Longrightarrow> b' (rr_DeviceID r, OUTAGE_RISK) = gone (rr_Ts r) (b (rr_DeviceID r, OUTAGE_RISK))"
    using assms ne by (auto simp: mains_effects_def flag_effect_other flag_effect_this only_keyD split: if_splits)
  assume k: "k \<notin> Pair (rr_DeviceID r) ` {MAINS_LOST, OUTAGE_RISK}"
  show "b' k = b k"
    using assms
  proof (rule chain_key)
    fix R c c' assume "R \<in> set (mains_effects r)" "R c c'"
    then show "c' k = c k" using k unfolding mains_effects_def
      by (auto split: if_splits intro: flag_effect_other only_keyD)
  qed
qed

lemma mains_back_opens_nothing:
  assumes env: "faultless env" and ok: "alerts_ok db" and dev: "adb_devices db (rr_DeviceID r) \<noteq> None"
    and run: "reading_rule env cfg r e db = (e', Inr (db', ()))"
    and before: "board db (rr_DeviceID r, OUTAGE_RISK) = None" and m: "rr_MainsOk r"
  shows "board db' (rr_DeviceID r, OUTAGE_RISK) = None"
proof -
  obtain e2 db2 a where "reading_rule env cfg r e db = (e2, Inr (db2, a))"
    and "chain (flags_effects r @ mains_effects r) (board db) (board db2)"
    using refinesD [OF refines_reading [OF env] ok dev] by metis
  with run obtain b1 where b1: "chain (flags_effects r) (board db) b1" "chain (mains_effects r) b1 (board db')"
    by (auto simp: chain_append)
  have "b1 (rr_DeviceID r, OUTAGE_RISK) = None"
    using flags_other [OF b1(1), of "(rr_DeviceID r, OUTAGE_RISK)"] before by (auto simp: code_defs)
  then show ?thesis using mains_outcome(2) [OF b1(2) m] by (simp add: gone_def)
qed

lemma LastNotifiedAt_within:
  "(\<exists>t. LastNotifiedAt db dev code = Some t \<and> now - t < d) \<longleftrightarrow>
   (\<exists>a \<in> set (adb_alerts db). al_DeviceID a = dev \<and> al_Code a = code \<and> al_NotifyState a = StateSent
      \<and> (\<exists>t. al_NotifiedAt a = Some t \<and> now - t < d))"
proof -
  define ts where "ts = List.map_filter (\<lambda>a. if al_DeviceID a = dev \<and> al_Code a = code \<and> al_NotifyState a = StateSent
     then al_NotifiedAt a else None) (adb_alerts db)"
  have set: "t \<in> set ts \<longleftrightarrow> (\<exists>a \<in> set (adb_alerts db). al_DeviceID a = dev \<and> al_Code a = code
      \<and> al_NotifyState a = StateSent \<and> al_NotifiedAt a = Some t)" for t
    by (auto simp: ts_def map_filter_def image_iff split: if_splits)
  have last: "LastNotifiedAt db dev code = (if ts = [] then None else Some (Max (set ts)))"
    unfolding LastNotifiedAt_def ts_def [symmetric] by (cases ts) simp_all
  have "(\<exists>t. LastNotifiedAt db dev code = Some t \<and> now - t < d) \<longleftrightarrow> (\<exists>t \<in> set ts. now - t < d)"
  proof (cases "ts = []")
    case False
    then have l: "LastNotifiedAt db dev code = Some (Max (set ts))" by (simp add: last)
    have "now - Max (set ts) < d \<longleftrightarrow> (\<exists>t \<in> set ts. now - t < d)"
    proof
      assume "now - Max (set ts) < d"
      then show "\<exists>t \<in> set ts. now - t < d" using False by (metis List.finite_set Max_in set_empty)
    next
      assume "\<exists>t \<in> set ts. now - t < d"
      then obtain t where "t \<in> set ts" "now - t < d" by blast
      moreover from \<open>t \<in> set ts\<close> have "t \<le> Max (set ts)" by simp
      ultimately show "now - Max (set ts) < d" by linarith
    qed
    then show ?thesis by (simp add: l)
  qed (simp add: last)
  then show ?thesis using set by blast
qed

section \<open>Properties\<close>

text \<open>
  C13: The life of an alert. Whatever rows a stage handles and whatever statements fail, a batch that
  commits leaves at most one open alert per device and code, and every alert of the table before only
  evolves: it keeps its identity, an open episode only widens, and a resolved one stays resolved as it
  was; the same holds for the offline sweep.
\<close>

theorem alerts_lifecycle:
  assumes "act \<in> {alarm_Handle env cfg as, reading_Handle env cfg rs, detection_Handle env cfg ds, SweepOffline env cfg}"
    and "act e db = (e', Inr (db', u))" and "alerts_ok db"
  shows "alerts_ok db' \<and> evolves db db'"
proof -
  consider "act = alarm_Handle env cfg as" | "act = reading_Handle env cfg rs"
    | "act = detection_Handle env cfg ds" | "act = SweepOffline env cfg"
    using assms(1) by blast
  then show ?thesis
    using assms(2,3) by cases (simp_all add: alarms.keeps readings.keeps detections.keeps sweep.keeps)
qed

text \<open>
  C14: The engine implements the board. With no failing statement, a known device and a legal code,
  \<^verbatim>\<open>Raise\<close> succeeds and opens an episode at \<open>t\<close> or moves the start of the open one back to \<open>t\<close>, and
  \<^verbatim>\<open>Resolve\<close> succeeds and ends the open episode unless it started after \<open>t\<close>; nothing else on the
  board changes, and the unique index on open alerts is never hit.
\<close>

theorem engine_refines_board:
  assumes "faultless env" and "alerts_ok db" and "adb_devices db dev \<noteq> None" and "1 \<le> code" "code \<le> 9"
    and "src \<in> {''node'', ''heartbeat'', ''detector'', ''sweep''}"
  shows "(\<exists>e' db' b. Raise env cfg dev code t src key msg e db = (e', Inr (db', b))
           \<and> alerts_ok db' \<and> board db' = board_raise (dev, code) t (board db))
    \<and> (\<exists>e' db' b. Resolve env cfg dev code t reason e db = (e', Inr (db', b))
           \<and> alerts_ok db' \<and> board db' = board_resolve (dev, code) t (board db))"
  using refines_Raise [OF assms(1,4,5,6), of dev cfg t key msg] refines_Resolve [OF assms(1), of dev cfg code t reason]
    assms(2,3) unfolding refines_def by blast

text \<open>
  What a heartbeat decides. With no failing statement a heartbeat of a known device succeeds;
  afterwards float, sensor and mains alerts are open exactly as its flags say, except that an episode
  that started after the heartbeat stays open; the device is no longer offline from before; with mains
  back the outage risk ends the same way; other devices are untouched.
\<close>

theorem heartbeat_outcome:
  assumes "faultless env" and "alerts_ok db" and "adb_devices db (rr_DeviceID r) \<noteq> None"
  shows "\<exists>e' db'. reading_rule env cfg r e db = (e', Inr (db', ())) \<and> alerts_ok db' \<and> evolves db db'
    \<and> (let b = (\<lambda>c. board db (rr_DeviceID r, c)); b' = (\<lambda>c. board db' (rr_DeviceID r, c)); t = rr_Ts r
       in b' OFFLINE = gone t (b OFFLINE)
        \<and> b' FLOAT_HIGH = (if rr_FloatHigh r then seen t else gone t) (b FLOAT_HIGH)
        \<and> b' SENSOR_FAULT = (if rr_SensorFault r then seen t else gone t) (b SENSOR_FAULT)
        \<and> b' MAINS_LOST = (if rr_MainsOk r then gone t else seen t) (b MAINS_LOST)
        \<and> (rr_MainsOk r \<longrightarrow> b' OUTAGE_RISK = gone t (b OUTAGE_RISK)))
    \<and> (\<forall>dev c. dev \<noteq> rr_DeviceID r \<longrightarrow> board db' (dev, c) = board db (dev, c))"
proof -
  obtain e' db' a where run: "reading_rule env cfg r e db = (e', Inr (db', a))" "alerts_ok db'" "evolves db db'"
    and "chain (flags_effects r @ mains_effects r) (board db) (board db')"
    using refinesD [OF refines_reading [OF assms(1)] assms(2,3)] by metis
  then obtain m where m: "chain (flags_effects r) (board db) m" "chain (mains_effects r) m (board db')"
    by (auto simp: chain_append)
  have ne: "FLOAT_HIGH \<notin> {MAINS_LOST, OUTAGE_RISK}" "SENSOR_FAULT \<notin> {MAINS_LOST, OUTAGE_RISK}"
    "OFFLINE \<notin> {MAINS_LOST, OUTAGE_RISK}" "MAINS_LOST \<notin> {OFFLINE, FLOAT_HIGH, SENSOR_FAULT, LOW_BATTERY}"
    "OUTAGE_RISK \<notin> {OFFLINE, FLOAT_HIGH, SENSOR_FAULT, LOW_BATTERY}"
    by (simp_all add: code_defs)
  have keep: "board db' (rr_DeviceID r, c) = m (rr_DeviceID r, c)" if "c \<notin> {MAINS_LOST, OUTAGE_RISK}" for c
    using that by (intro mains_outcome(3) [OF m(2)]) auto
  have keep': "m (rr_DeviceID r, c) = board db (rr_DeviceID r, c)"
    if "c \<notin> {OFFLINE, FLOAT_HIGH, SENSOR_FAULT, LOW_BATTERY}" for c
    using that by (intro flags_other [OF m(1)]) auto
  have "board db' (dev, c) = board db (dev, c)" if "dev \<noteq> rr_DeviceID r" for dev c
    using that mains_outcome(3) [OF m(2), of "(dev, c)"] flags_other [OF m(1), of "(dev, c)"] by auto
  then show ?thesis
    using run flags_outcome [OF m(1)] mains_outcome(1,2) [OF m(2)] keep keep' ne
    by (intro exI [of _ e'] exI [of _ db']) (simp add: Let_def)
qed

text \<open>
  Outage risk is raised for cause. If a heartbeat opens an outage-risk alert, mains was lost, the
  device's last three level samples, the newest being this heartbeat's, lie within the rise window and
  rise by at least the minimum, and either rain was recorded in the window or no rainfall data reach
  close enough to the heartbeat to rule it out.
\<close>

theorem outage_risk_for_cause:
  assumes env: "faultless env" and ok: "alerts_ok db" and dev: "adb_devices db (rr_DeviceID r) \<noteq> None"
    and run: "reading_rule env cfg r e db = (e', Inr (db', ()))"
    and before: "board db (rr_DeviceID r, OUTAGE_RISK) = None"
    and after: "board db' (rr_DeviceID r, OUTAGE_RISK) \<noteq> None"
  shows "\<not> rr_MainsOk r \<and> rain_holds (rain_at cfg db (rr_Ts r))
    \<and> (\<exists>ss. e_levels e' (rr_DeviceID r) = Some ss \<and> length ss = 3
         \<and> last ss = (rr_Ts r, rr_LevelMm r) \<and> rising cfg ss)"
proof -
  let ?dev = "rr_DeviceID r" and ?key = "TriggerKey ''readings'' (rr_DeviceID r) (rr_Ts r) (rr_FCnt r)"
  let ?pre = "reading_flags env cfg r @ [Raise env cfg ?dev MAINS_LOST (rr_Ts r) ''heartbeat'' ?key MainsLostMsg]"
  let ?post = "andThen (samples env ?dev r) (outage_rule env cfg r ?key)"
  have out: "OUTAGE_RISK \<notin> {OFFLINE, FLOAT_HIGH, SENSOR_FAULT, LOW_BATTERY}" "OUTAGE_RISK \<noteq> MAINS_LOST"
    by (simp_all add: code_defs)
  have mains: "\<not> rr_MainsOk r"
    using mains_back_opens_nothing [OF env ok dev run before] after by blast
  have "refines ?dev (seq ?pre) (chain (flags_effects r @ [flag_effect r True MAINS_LOST]))"
    by (intro refines_seq list_all2_appendI refines_flags [OF env])
      (simp add: refines_flag_raise [OF env] code_range)
  then obtain e1 db1 u where pre: "seq ?pre e db = (e1, Inr (db1, u))" "alerts_ok db1" "evolves db db1"
    and "chain (flags_effects r @ [flag_effect r True MAINS_LOST]) (board db) (board db1)"
    using refinesD [of ?dev _ _ db] ok dev by metis
  then obtain b1 where b1: "chain (flags_effects r) (board db) b1" "flag_effect r True MAINS_LOST b1 (board db1)"
    by (auto simp: chain_append)
  have none: "board db1 (?dev, OUTAGE_RISK) = None"
    using flags_other [OF b1(1)] flag_effect_other [OF b1(2)] before out by auto
  have "andThen (seq ?pre) (\<lambda>_. seq [?post]) e db = (e', Inr (db', ()))"
    using run mains unfolding reading_rule_def Let_def seq_append [symmetric] by simp
  then have "?post e1 db1 = (e', Inr (db', True)) \<or> ?post e1 db1 = (e', Inr (db', False))"
    using pre(1) by (auto simp: andThen_def ret_def split: prod.splits sum.splits)
  then obtain b e2 ss where s: "samples env ?dev r e1 db1 = (e2, Inr (db1, ss))"
    and o: "outage_rule env cfg r ?key ss e2 db1 = (e', Inr (db', b))"
    using samples_result by (fastforce simp: andThen_def split: prod.splits sum.splits)
  have "rising cfg ss \<and> rain_holds (rain_at cfg db1 (rr_Ts r)) \<and> e_levels e' = e_levels e2"
    using outage_rule_opens [OF o pre(2) env none after] .
  moreover have "rain_at cfg db1 (rr_Ts r) = rain_at cfg db (rr_Ts r)"
    using pre(3) by (simp add: rain_at_def RainNear_def evolves_def)
  ultimately show ?thesis
    using mains samples_result [OF s] by (auto simp: rising_def)
qed

text \<open>
  Which new alerts are announced. With no failing statement a new alert starts suppressed exactly
  when its severity is below the configured minimum or an alert of the same device and code was
  announced within the cooldown; otherwise its notification is pending.
\<close>

theorem initial_state_spec:
  assumes "en_fails env (QLastNotified dev code) = None"
  shows "initial_state env cfg db dev code =
    (if Severity code < ac_MinSeverity cfg
        \<or> (\<exists>a \<in> set (adb_alerts db). al_DeviceID a = dev \<and> al_Code a = code \<and> al_NotifyState a = StateSent
             \<and> (\<exists>t. al_NotifiedAt a = Some t \<and> en_now env - t < ac_NotifyCooldown cfg))
     then StateSuppressed else StatePending)"
  using assms LastNotifiedAt_within [of db dev code "en_now env" "ac_NotifyCooldown cfg"]
  by (auto simp: initial_state_def split: option.splits)

section \<open>Witnesses\<close>

definition demo_env :: env where
  "demo_env = \<lparr>en_now = 100 * hour, en_dbnow = 100 * hour, en_fails = (\<lambda>_. None)\<rparr>"

definition demo_adb :: alert_db where
  "demo_adb = \<lparr>adb_alerts = [], adb_next = 0,
     adb_devices = [''d'' \<mapsto> \<lparr>dv_HomeID = Some ''h'', dv_Kind = ''house'', dv_LastSeenAt = Some 0\<rparr>],
     adb_device_ids = [''d''], adb_homes = [''h'' \<mapsto> Some ''s''], adb_readings = [], adb_rainfall = []\<rparr>"

definition demo_reading :: "instant \<Rightarrow> int \<Rightarrow> bool \<Rightarrow> reading_row" where
  "demo_reading t level mains = \<lparr>rr_DeviceID = ''d'', rr_Ts = t, rr_FCnt = 1, rr_LevelMm = level,
     rr_BattMv = None, rr_MainsOk = mains, rr_FloatHigh = True, rr_SensorFault = False, rr_InsertedAt = t\<rparr>"

definition demo_eng :: eng where
  "demo_eng = \<lparr>e_homes = Map.empty, e_levels = [''d'' \<mapsto> [(97 * hour, 420), (97 * hour + 60 * second, 410)]]\<rparr>"

lemma demo_ok: "faultless demo_env" "alerts_ok demo_adb" "adb_devices demo_adb ''d'' \<noteq> None"
  by (simp_all add: faultless_def demo_env_def alerts_ok_def demo_adb_def)

theorem alerts_lifecycle_witness:
  "\<exists>e' db'. SweepOffline demo_env DefaultConfig demo_eng demo_adb = (e', Inr (db', ()))
     \<and> alerts_ok db' \<and> length (adb_alerts db') = 1"
proof -
  obtain e' db' where run: "SweepOffline demo_env DefaultConfig demo_eng demo_adb = (e', Inr (db', ()))"
    and len: "length (adb_alerts db') = 1"
    by (simp add: SweepOffline_def DefaultConfig_def andThen_def query_def ret_def Raise_def homeOf_def insert_alert_def
        InsertAlert_def GetOpenAlert_def ListStaleDevices_def map_filter_def demo_env_def demo_adb_def
        demo_eng_def Severity_def code_defs sev_defs go_time Let_def)
  from alerts_lifecycle [of "SweepOffline demo_env DefaultConfig" demo_env DefaultConfig "[]" "[]" "[]"
      demo_eng demo_adb e' db' "()"] run len demo_ok(2)
  show ?thesis by blast
qed

theorem engine_refines_board_witness:
  "\<exists>e' db' b. Raise demo_env DefaultConfig ''d'' FLOAT_HIGH 5 ''node'' (SweepKey ''d'' 5) MainsLostMsg demo_eng demo_adb
      = (e', Inr (db', b)) \<and> board db' (''d'', FLOAT_HIGH) = Some 5"
proof -
  have "board demo_adb (''d'', FLOAT_HIGH) = None" by (simp add: board_def GetOpenAlert_def demo_adb_def)
  then show ?thesis
    using engine_refines_board [OF demo_ok, of FLOAT_HIGH "''node''" DefaultConfig 5 "SweepKey ''d'' 5" MainsLostMsg
        demo_eng "''r''"] by (auto simp: code_range board_raise_def)
qed

theorem heartbeat_outcome_witness:
  "\<exists>e' db'. reading_rule demo_env DefaultConfig (demo_reading (98 * hour) 400 True) demo_eng demo_adb
      = (e', Inr (db', ())) \<and> board db' (''d'', FLOAT_HIGH) = Some (98 * hour)"
proof -
  have b: "board demo_adb (''d'', FLOAT_HIGH) = None" by (simp add: board_def GetOpenAlert_def demo_adb_def)
  have "rr_DeviceID (demo_reading (98 * hour) 400 True) = ''d''" "rr_FloatHigh (demo_reading (98 * hour) 400 True)"
    "rr_Ts (demo_reading (98 * hour) 400 True) = 98 * hour" by (simp_all add: demo_reading_def)
  then show ?thesis
    using heartbeat_outcome [OF demo_ok(1,2), of "demo_reading (98 * hour) 400 True" DefaultConfig demo_eng]
      demo_ok(3) b by (auto simp: Let_def seen_def)
qed

theorem initial_state_spec_witness:
  "initial_state demo_env DefaultConfig demo_adb ''d'' FLOAT_HIGH = StatePending"
  using initial_state_spec [of demo_env "''d''" FLOAT_HIGH DefaultConfig demo_adb]
  by (simp add: demo_env_def demo_adb_def DefaultConfig_def Severity_def code_defs sev_defs)

lemmas alerts_eval = reading_rule_def reading_flags_def andThen_def query_def ret_def Raise_def Resolve_def
  homeOf_def insert_alert_def InsertAlert_def GetOpenAlert_def ResolveOpenAlert_def resolvable_def
  open_for_def is_open_def new_alert_def samples_def last3_def outage_rule_def rainTerm_def RainNear_def
  rain_holds_def LevelRising_def code_defs sev_defs go_time Severity_def DefaultConfig_def
  demo_env_def demo_adb_def demo_eng_def demo_reading_def Let_def

lemma demo_outage:
  "\<exists>e' db'. reading_rule demo_env DefaultConfig (demo_reading (97 * hour + 120 * second) 400 False) demo_eng demo_adb
     = (e', Inr (db', ())) \<and> board db' (''d'', OUTAGE_RISK) \<noteq> None"
  by (simp add: alerts_eval board_def)

theorem outage_risk_for_cause_witness:
  "\<not> rr_MainsOk (demo_reading (97 * hour + 120 * second) 400 False)
   \<and> rain_holds (rain_at DefaultConfig demo_adb (97 * hour + 120 * second))"
proof -
  let ?r = "demo_reading (97 * hour + 120 * second) 400 False"
  obtain e' db' where run: "reading_rule demo_env DefaultConfig ?r demo_eng demo_adb = (e', Inr (db', ()))"
    and after: "board db' (''d'', OUTAGE_RISK) \<noteq> None" using demo_outage by blast
  have "board demo_adb (''d'', OUTAGE_RISK) = None" by (simp add: board_def GetOpenAlert_def demo_adb_def)
  moreover have "rr_DeviceID ?r = ''d''" "rr_Ts ?r = 97 * hour + 120 * second" by (simp_all add: demo_reading_def)
  ultimately show ?thesis
    using outage_risk_for_cause [OF demo_ok(1,2) _ run] demo_ok(3) after by simp
qed

end
