(* ===== verification/Notify.thy ===== *)
theory Notify
  imports Alerts
begin

text \<open>
  Delivery of notifications (\<^verbatim>\<open>internal/alerts/notify.go\<close>) and the alert service's RPCs
  (\<^verbatim>\<open>internal/alerts/server.go\<close>). The notifier that sends a message is a parameter: it answers
  whether delivery failed. Message bodies stay templates; a resolved message appends its reason.
\<close>

section \<open>Messages\<close>

datatype body = RaisedBody message | ResolvedBody message string

record notify_message =
  nm_AlertID :: nat
  nm_Event :: string
  nm_Code :: int
  nm_Severity :: int
  nm_DeviceID :: string
  nm_HomeID :: "uuid option"
  nm_SegmentID :: string
  nm_At :: instant
  nm_Body :: body

definition messageFor :: "alert_row \<Rightarrow> string \<Rightarrow> string \<Rightarrow> notify_message" where
  "messageFor a segment event =
     (let m = \<lparr>nm_AlertID = al_ID a, nm_Event = event, nm_Code = al_Code a, nm_Severity = al_Severity a,
               nm_DeviceID = al_DeviceID a, nm_HomeID = al_HomeID a, nm_SegmentID = segment,
               nm_At = al_RaisedAt a, nm_Body = RaisedBody (al_Message a)\<rparr>
      in case (event = ''resolved'', al_ResolvedAt a) of
           (True, Some t) \<Rightarrow>
             m\<lparr>nm_At := t, nm_Body := ResolvedBody (al_Message a)
                  (case al_ResolveReason a of None \<Rightarrow> '''' | Some s \<Rightarrow> s)\<rparr>
         | _ \<Rightarrow> m)"

section \<open>The notifier loop\<close>

record loop_config =
  lc_Retry :: duration
  lc_MaxAttempts :: int

text \<open>
  \<open>send\<close> is the notifier: whether it fails on a message. Statements may fail too: \<open>fails\<close> answers
  for the two list statements and for each mark. The list \<open>sent\<close> records every delivery attempted.
\<close>

datatype loop_stmt = QPendingRaises | QPendingResolves | QMarkRaise nat | QMarkResolve nat

type_synonym loop_state = "alert_db \<times> notify_message list"

definition deliver :: "(notify_message \<Rightarrow> bool) \<Rightarrow> notify_message \<Rightarrow> string" where
  "deliver send m = (if send m then StateSent else StateFailed)"

fun deliver_all ::
  "(notify_message \<Rightarrow> bool) \<Rightarrow> (loop_stmt \<Rightarrow> db_error option) \<Rightarrow> string \<Rightarrow> (nat \<Rightarrow> loop_stmt)
     \<Rightarrow> (string \<Rightarrow> nat \<Rightarrow> alert_db \<Rightarrow> alert_db) \<Rightarrow> (alert_row \<times> string option) list \<Rightarrow> loop_state
     \<Rightarrow> loop_state \<times> db_error option" where
  "deliver_all send fails event q mark [] st = (st, None)"
| "deliver_all send fails event q mark (r # rs) (db, sent) =
     (let msg = messageFor (fst r) (case snd r of None \<Rightarrow> '''' | Some s \<Rightarrow> s) event;
          state = deliver send msg
      in case fails (q (al_ID (fst r))) of
           Some err \<Rightarrow> ((db, sent @ [msg]), Some err)
         | None \<Rightarrow> deliver_all send fails event q mark rs (mark state (al_ID (fst r)) db, sent @ [msg]))"

definition notify_RunOnce ::
  "(notify_message \<Rightarrow> bool) \<Rightarrow> (loop_stmt \<Rightarrow> db_error option) \<Rightarrow> loop_config \<Rightarrow> instant \<Rightarrow> loop_state
     \<Rightarrow> loop_state \<times> db_error option" where
  "notify_RunOnce send fails cfg now st =
     (case fails QPendingRaises of
        Some err \<Rightarrow> (st, Some err)
      | None \<Rightarrow>
        (let raises = ListPendingRaiseNotifications now (lc_MaxAttempts cfg) (lc_Retry cfg) 100 (fst st)
         in case deliver_all send fails ''raised'' QMarkRaise (MarkRaiseNotification now) raises st of
              (st1, Some err) \<Rightarrow> (st1, Some err)
            | (st1, None) \<Rightarrow>
              (case fails QPendingResolves of
                 Some err \<Rightarrow> (st1, Some err)
               | None \<Rightarrow>
                 (let resolves = ListPendingResolveNotifications now (lc_MaxAttempts cfg) (lc_Retry cfg) 100 (fst st1)
                  in deliver_all send fails ''resolved'' QMarkResolve (MarkResolveNotification now) resolves st1))))"

section \<open>SMTP configuration\<close>

record smtp_config =
  sc_Host :: string
  sc_Port :: int
  sc_User :: string
  sc_Password :: string
  sc_From :: string
  sc_To :: "string list"
  sc_TLS :: string

datatype smtp_config_error = BadTLS string | MissingFromTo | PlaintextPassword

text \<open>\<open>ip_loopback\<close> stands for \<^verbatim>\<open>net.ParseIP\<close> with \<^verbatim>\<open>IsLoopback\<close>.\<close>

definition isLoopback :: "(string \<Rightarrow> bool) \<Rightarrow> string \<Rightarrow> bool" where
  "isLoopback ip_loopback host = (if host = ''localhost'' then True else ip_loopback host)"

definition smtp_validate :: "(string \<Rightarrow> bool) \<Rightarrow> smtp_config \<Rightarrow> smtp_config_error option" where
  "smtp_validate ip_loopback c =
     (if sc_Host c = '''' then None
      else if sc_TLS c \<notin> {''auto'', ''starttls'', ''implicit'', ''none''} then Some (BadTLS (sc_TLS c))
      else if sc_From c = '''' \<or> length (sc_To c) = 0 then Some MissingFromTo
      else if sc_TLS c = ''none'' \<and> sc_Password c \<noteq> '''' \<and> \<not> isLoopback ip_loopback (sc_Host c)
        then Some PlaintextPassword
      else None)"

definition smtp_mode :: "smtp_config \<Rightarrow> string" where
  "smtp_mode c =
     (if sc_TLS c \<noteq> ''auto'' then sc_TLS c
      else if sc_Port c = 465 then ''implicit'' else ''starttls'')"

section \<open>The service\<close>

datatype grpc_code = OK | InvalidArgument | NotFound | Internal | Unauthenticated | PermissionDenied | Unavailable | ResourceExhausted | Canceled | DeadlineExceeded | Aborted

record alert_proto =
  ap_Id :: nat
  ap_HomeId :: string
  ap_SegmentId :: string
  ap_Code :: int
  ap_Severity :: int
  ap_RaisedAt :: instant
  ap_AckedAt :: "instant option"
  ap_ResolvedAt :: "instant option"
  ap_Message :: message
  ap_DeviceId :: string

definition toProto :: "alert_row \<Rightarrow> string option \<Rightarrow> alert_proto" where
  "toProto a segment =
     \<lparr>ap_Id = al_ID a, ap_HomeId = (case al_HomeID a of None \<Rightarrow> '''' | Some h \<Rightarrow> h),
      ap_SegmentId = (case segment of None \<Rightarrow> '''' | Some s \<Rightarrow> s), ap_Code = al_Code a,
      ap_Severity = al_Severity a, ap_RaisedAt = al_RaisedAt a, ap_AckedAt = al_AckedAt a,
      ap_ResolvedAt = al_ResolvedAt a, ap_Message = al_Message a, ap_DeviceId = al_DeviceID a\<rparr>"

text \<open>\<open>parse_uuid\<close> stands for \<^verbatim>\<open>uuid.Parse\<close>; \<open>qfail\<close> says whether the statement fails.\<close>

definition list_active_alerts ::
  "(string \<Rightarrow> uuid option) \<Rightarrow> bool \<Rightarrow> string \<Rightarrow> string \<Rightarrow> alert_db \<Rightarrow> grpc_code + alert_proto list" where
  "list_active_alerts parse_uuid qfail home seg db =
     (if home \<noteq> '''' \<and> seg \<noteq> '''' then Inl InvalidArgument
      else if home \<noteq> '''' \<and> parse_uuid home = None then Inl InvalidArgument
      else if qfail then Inl Internal
      else Inr (map (\<lambda>(a, s). toProto a s)
             (ListActiveAlerts (if home \<noteq> '''' then parse_uuid home else None)
                (if seg \<noteq> '''' then Some seg else None) db)))"

definition Acknowledge ::
  "(string \<Rightarrow> nat option) \<Rightarrow> bool \<Rightarrow> bool \<Rightarrow> instant \<Rightarrow> instant \<Rightarrow> string \<Rightarrow> string \<Rightarrow> alert_db
     \<Rightarrow> alert_db \<times> (grpc_code + alert_proto)" where
  "Acknowledge parse_id ackfail getfail now dbnow alert_id note db =
     (case parse_id alert_id of
        None \<Rightarrow> (db, Inl InvalidArgument)
      | Some i \<Rightarrow>
        (if ackfail then (db, Inl Internal)
         else case AcknowledgeAlert dbnow i now (if note \<noteq> '''' then Some note else None) db of
           None \<Rightarrow> (db, Inl NotFound)
         | Some db' \<Rightarrow>
             (if getfail then (db', Inl Internal)
              else case GetAlert i db' of
                     None \<Rightarrow> (db', Inl Internal)
                   | Some (a, s) \<Rightarrow> (db', Inr (toProto a s)))))"

section \<open>One round of deliveries\<close>

lemma messageFor_sel [simp]:
  "nm_AlertID (messageFor a seg event) = al_ID a" "nm_Event (messageFor a seg event) = event"
  by (simp_all add: messageFor_def Let_def split: option.split bool.split)

abbreviation row_message :: "string \<Rightarrow> alert_row \<times> string option \<Rightarrow> notify_message" where
  "row_message event r \<equiv> messageFor (fst r) (case snd r of None \<Rightarrow> '''' | Some s \<Rightarrow> s) event"

text \<open>A pass sends a prefix of its messages and marks the same rows, all of them when no mark fails.\<close>

lemma deliver_all_prefix:
  "deliver_all send fails event q mark rs (db, sent) = ((db', sent'), err) \<Longrightarrow>
     \<exists>n. sent' = sent @ map (row_message event) (take n rs)
       \<and> (err = None \<longrightarrow> n = length rs)"
proof (induction rs arbitrary: db sent)
  case (Cons r rs)
  show ?case
  proof (cases "fails (q (al_ID (fst r)))")
    case None
    then have "deliver_all send fails event q mark rs
        (mark (deliver send (row_message event r)) (al_ID (fst r)) db, sent @ [row_message event r]) = ((db', sent'), err)"
      using Cons.prems by (simp add: Let_def)
    from Cons.IH [OF this] obtain n where
      "sent' = (sent @ [row_message event r]) @ map (row_message event) (take n rs)" "err = None \<longrightarrow> n = length rs"
      by blast
    then show ?thesis by (intro exI [of _ "Suc n"]) simp
  next
    case (Some e)
    then show ?thesis using Cons.prems by (intro exI [of _ 1]) (auto simp: Let_def)
  qed
qed auto

definition mark_raise_row :: "instant \<Rightarrow> (nat \<Rightarrow> string option) \<Rightarrow> alert_row \<Rightarrow> alert_row" where
  "mark_raise_row now out a =
     (case out (al_ID a) of
        None \<Rightarrow> a
      | Some state \<Rightarrow> a\<lparr>al_NotifyState := state,
          al_NotifiedAt := (if state = StateSent then Some now else al_NotifiedAt a),
          al_NotifyAttempts := al_NotifyAttempts a + 1, al_UpdatedAt := now\<rparr>)"

definition outcomes :: "(notify_message \<Rightarrow> bool) \<Rightarrow> string \<Rightarrow> (alert_row \<times> string option) list \<Rightarrow> nat \<Rightarrow> string option" where
  "outcomes send event rs = map_of (map (\<lambda>r. (al_ID (fst r), deliver send (row_message event r))) rs)"

text \<open>The rows after a raise pass: each row marked at most once, with the outcome of its message.\<close>

lemma mark_raise_row_none: "out = Map.empty \<Longrightarrow> map (mark_raise_row now out) xs = xs"
  by (rule map_idI) (simp add: mark_raise_row_def)

lemma deliver_all_marks:
  assumes "deliver_all send fails event q (MarkRaiseNotification now) rs (db, sent) = ((db', sent'), err)"
    and "distinct (map (al_ID \<circ> fst) rs)"
  shows "\<exists>n. adb_alerts db' = map (mark_raise_row now (outcomes send event (take n rs))) (adb_alerts db)
     \<and> adb_homes db' = adb_homes db \<and> (err = None \<longrightarrow> n = length rs)"
  using assms
proof (induction rs arbitrary: db sent)
  case Nil
  then show ?case by (auto simp: mark_raise_row_none outcomes_def)
next
  case (Cons r rs)
  show ?case
  proof (cases "fails (q (al_ID (fst r)))")
    case None
    let ?state = "deliver send (row_message event r)"
    have "deliver_all send fails event q (MarkRaiseNotification now) rs
        (MarkRaiseNotification now ?state (al_ID (fst r)) db, sent @ [row_message event r]) = ((db', sent'), err)"
      using Cons.prems(1) None by (simp add: Let_def)
    from Cons.IH [OF this] Cons.prems(2) obtain n where n:
      "adb_alerts db' = map (mark_raise_row now (outcomes send event (take n rs)))
         (adb_alerts (MarkRaiseNotification now ?state (al_ID (fst r)) db))"
      "adb_homes db' = adb_homes db" "err = None \<longrightarrow> n = length rs"
      by (auto simp: MarkRaiseNotification_def upd_alerts_def)
    have fresh: "outcomes send event (take n rs) (al_ID (fst r)) = None"
      using Cons.prems(2) set_take_subset [of n rs]
      by (auto simp: outcomes_def map_of_eq_None_iff image_iff)
    have "mark_raise_row now (outcomes send event (take (Suc n) (r # rs))) a =
        mark_raise_row now (outcomes send event (take n rs)) (if al_ID a = al_ID (fst r)
          then a\<lparr>al_NotifyState := ?state,
            al_NotifiedAt := (if ?state = StateSent then Some now else al_NotifiedAt a),
            al_NotifyAttempts := al_NotifyAttempts a + 1, al_UpdatedAt := now\<rparr> else a)" for a
      using fresh by (simp add: mark_raise_row_def outcomes_def)
    then have "adb_alerts db' = map (mark_raise_row now (outcomes send event (take (Suc n) (r # rs)))) (adb_alerts db)"
      unfolding n(1) by (simp add: MarkRaiseNotification_def upd_alerts_def)
    then show ?thesis using n(2,3) by (intro exI [of _ "Suc n"]) simp
  next
    case (Some e)
    then have "db' = db \<and> err = Some e" using Cons.prems(1) by (simp add: Let_def)
    then show ?thesis by (intro exI [of _ 0]) (simp add: mark_raise_row_none outcomes_def)
  qed
qed

lemma deliver_all_resolve_keeps:
  "deliver_all send fails event q (MarkResolveNotification now) rs (db, sent) = ((db', sent'), err) \<Longrightarrow>
     map (\<lambda>a. (al_ID a, al_NotifyState a, al_NotifyAttempts a)) (adb_alerts db') =
     map (\<lambda>a. (al_ID a, al_NotifyState a, al_NotifyAttempts a)) (adb_alerts db)"
proof (induction rs arbitrary: db sent)
  case (Cons r rs)
  have "map (\<lambda>a. (al_ID a, al_NotifyState a, al_NotifyAttempts a)) (adb_alerts (MarkResolveNotification now s i db)) =
      map (\<lambda>a. (al_ID a, al_NotifyState a, al_NotifyAttempts a)) (adb_alerts db)" for s i
    by (simp add: MarkResolveNotification_def upd_alerts_def)
  then show ?case
    using Cons by (auto simp: Let_def split: option.splits)
qed auto

lemma distinct_ids_pick:
  "distinct (map al_ID xs) \<Longrightarrow> distinct (map (al_ID \<circ> fst) (map (\<lambda>a. (a, g a)) (take n (sort_key f (filter P xs)))))"
proof -
  assume d: "distinct (map al_ID xs)"
  then have "distinct xs" "inj_on al_ID (set xs)" by (simp_all add: distinct_map)
  moreover have "set (take n (sort_key f (filter P xs))) \<subseteq> set xs"
    using set_take_subset [of n "sort_key f (filter P xs)"] by auto
  ultimately have "distinct (map al_ID (take n (sort_key f (filter P xs))))"
    by (auto simp: distinct_map intro: inj_on_subset)
  then show ?thesis by (simp add: comp_def)
qed

lemma pick_mem: "s \<in> set (map (\<lambda>a. (a, g a)) (take n (sort_key f (filter P xs)))) \<Longrightarrow> fst s \<in> set xs \<and> P (fst s)"
  using set_take_subset [of n "sort_key f (filter P xs)"] by auto

lemma mark_raise_row_id [simp]: "al_ID (mark_raise_row now out a) = al_ID a"
  by (simp add: mark_raise_row_def split: option.split)

lemma resolve_pending_marked:
  "0 \<le> retry \<Longrightarrow> resolve_pending now m retry (mark_raise_row now out a) \<Longrightarrow> resolve_pending now m retry a"
  by (auto simp: resolve_pending_def mark_raise_row_def split: option.splits)

section \<open>Properties\<close>

text \<open>
  C15: What a round may send. Whatever fails, one round of the notifier loop attempts each alert's
  raise message at most once and its resolve message at most once, and only for alerts whose
  notification is pending, or failed with attempts left and the retry time passed; a sent or suppressed
  notification is never attempted again.
\<close>

theorem notifier_attempts:
  assumes run: "notify_RunOnce send fails cfg now (db, []) = ((db', sent), err)"
    and ok: "alerts_ok db" and retry: "0 \<le> lc_Retry cfg"
  shows "distinct (map (\<lambda>m. (nm_AlertID m, nm_Event m)) sent)
    \<and> (\<forall>m \<in> set sent. \<exists>a \<in> set (adb_alerts db). al_ID a = nm_AlertID m \<and>
         (if nm_Event m = ''raised'' then raise_pending now (lc_MaxAttempts cfg) (lc_Retry cfg) a
          else resolve_pending now (lc_MaxAttempts cfg) (lc_Retry cfg) a))"
proof -
  let ?rs = "ListPendingRaiseNotifications now (lc_MaxAttempts cfg) (lc_Retry cfg) 100 db"
  have ids: "distinct (map al_ID (adb_alerts db))" using ok by (simp add: alerts_ok_def)
  have drs: "distinct (map (al_ID \<circ> fst) ?rs)"
    unfolding ListPendingRaiseNotifications_def by (rule distinct_ids_pick [OF ids])
  have rs: "r \<in> set ?rs \<Longrightarrow> fst r \<in> set (adb_alerts db)
      \<and> raise_pending now (lc_MaxAttempts cfg) (lc_Retry cfg) (fst r)" for r
    unfolding ListPendingRaiseNotifications_def by (rule pick_mem)
  obtain db1 sent1 err1 where d1: "deliver_all send fails ''raised'' QMarkRaise (MarkRaiseNotification now) ?rs (db, [])
      = ((db1, sent1), err1)" by (metis prod.exhaust)
  obtain n where n: "sent1 = map (row_message ''raised'') (take n ?rs)"
    using deliver_all_prefix [OF d1] by auto
  let ?ss = "ListPendingResolveNotifications now (lc_MaxAttempts cfg) (lc_Retry cfg) 100 db1"
  obtain k where k: "adb_alerts db1 = map (mark_raise_row now (outcomes send ''raised'' (take k ?rs))) (adb_alerts db)"
    using deliver_all_marks [OF d1 drs] by auto
  have dss: "distinct (map (al_ID \<circ> fst) ?ss)"
    unfolding ListPendingResolveNotifications_def
    by (rule distinct_ids_pick) (use ids in \<open>simp add: k comp_def\<close>)
  have ss: "s \<in> set ?ss \<Longrightarrow> \<exists>a \<in> set (adb_alerts db). al_ID a = al_ID (fst s)
      \<and> resolve_pending now (lc_MaxAttempts cfg) (lc_Retry cfg) a" for s
  proof -
    assume "s \<in> set ?ss"
    then have "fst s \<in> set (adb_alerts db1) \<and> resolve_pending now (lc_MaxAttempts cfg) (lc_Retry cfg) (fst s)"
      unfolding ListPendingResolveNotifications_def by (rule pick_mem)
    then obtain a where "a \<in> set (adb_alerts db)" "fst s = mark_raise_row now (outcomes send ''raised'' (take k ?rs)) a"
      "resolve_pending now (lc_MaxAttempts cfg) (lc_Retry cfg) (fst s)" by (auto simp: k)
    then show ?thesis using resolve_pending_marked [OF retry] by auto
  qed
  have "\<exists>m j. sent = map (row_message ''raised'') (take m ?rs) @ map (row_message ''resolved'') (take j ?ss)"
  proof (cases "fails QPendingRaises = None \<and> err1 = None \<and> fails QPendingResolves = None")
    case True
    then have "deliver_all send fails ''resolved'' QMarkResolve (MarkResolveNotification now) ?ss (db1, sent1)
        = ((db', sent), err)" using run d1 by (simp add: notify_RunOnce_def)
    from deliver_all_prefix [OF this] n show ?thesis by blast
  next
    case False
    then have "sent = [] \<or> sent = sent1" using run d1 by (auto simp: notify_RunOnce_def split: option.splits)
    then have "sent = map (row_message ''raised'') (take 0 ?rs) @ map (row_message ''resolved'') (take 0 ?ss)
        \<or> sent = map (row_message ''raised'') (take n ?rs) @ map (row_message ''resolved'') (take 0 ?ss)"
      unfolding n by simp
    then show ?thesis by blast
  qed
  then obtain m j where sent: "sent = map (row_message ''raised'') (take m ?rs) @ map (row_message ''resolved'') (take j ?ss)"
    by blast
  have inj: "distinct (map (\<lambda>r. (al_ID (fst r), e)) (take i xs))"
    if "distinct (map (al_ID \<circ> fst) xs)" for i e and xs :: "(alert_row \<times> string option) list"
    using distinct_take [OF that, of i] by (auto simp: distinct_map take_map inj_on_def)
  have "distinct (map (\<lambda>m. (nm_AlertID m, nm_Event m)) sent)"
    unfolding sent using inj [OF drs] inj [OF dss] by (auto simp: comp_def)
  moreover have "\<exists>a \<in> set (adb_alerts db). al_ID a = nm_AlertID x \<and>
         (if nm_Event x = ''raised'' then raise_pending now (lc_MaxAttempts cfg) (lc_Retry cfg) a
          else resolve_pending now (lc_MaxAttempts cfg) (lc_Retry cfg) a)" if "x \<in> set sent" for x
    using that rs ss set_take_subset [of m ?rs] set_take_subset [of j ?ss] unfolding sent by fastforce
  ultimately show ?thesis by blast
qed

text \<open>
  A round settles what is pending. When no statement fails and at most 100 raise notifications are
  due, the round ends without error and every due alert's notification is sent or failed as the
  notifier answered for its message, with one more attempt counted; the others are left as they were.
\<close>

theorem notifier_settles:
  assumes ok: "alerts_ok db" and nofail: "fails = (\<lambda>_. None)"
    and few: "length (filter (raise_pending now (lc_MaxAttempts cfg) (lc_Retry cfg)) (adb_alerts db)) \<le> 100"
  shows "\<exists>db' sent. notify_RunOnce send fails cfg now (db, []) = ((db', sent), None)
    \<and> map (\<lambda>a. (al_ID a, al_NotifyState a, al_NotifyAttempts a)) (adb_alerts db') =
      map (\<lambda>a. if raise_pending now (lc_MaxAttempts cfg) (lc_Retry cfg) a
               then (al_ID a, deliver send (row_message ''raised'' (a, segment_of db a)), al_NotifyAttempts a + 1)
               else (al_ID a, al_NotifyState a, al_NotifyAttempts a)) (adb_alerts db)"
proof -
  let ?P = "raise_pending now (lc_MaxAttempts cfg) (lc_Retry cfg)"
  let ?rs = "ListPendingRaiseNotifications now (lc_MaxAttempts cfg) (lc_Retry cfg) 100 db"
  have ids: "distinct (map al_ID (adb_alerts db))" using ok by (simp add: alerts_ok_def)
  have drs: "distinct (map (al_ID \<circ> fst) ?rs)"
    unfolding ListPendingRaiseNotifications_def by (rule distinct_ids_pick [OF ids])
  have none: "snd (deliver_all send fails event q mark xs st) = None" for event q mark xs st
    by (induction xs arbitrary: st) (auto simp: nofail Let_def)
  obtain db1 sent1 where d1: "deliver_all send fails ''raised'' QMarkRaise (MarkRaiseNotification now) ?rs (db, [])
      = ((db1, sent1), None)" using none by (metis prod.exhaust snd_conv)
  let ?ss = "ListPendingResolveNotifications now (lc_MaxAttempts cfg) (lc_Retry cfg) 100 db1"
  obtain db' sent where d2: "deliver_all send fails ''resolved'' QMarkResolve (MarkResolveNotification now) ?ss (db1, sent1)
      = ((db', sent), None)" using none by (metis prod.exhaust snd_conv)
  have run: "notify_RunOnce send fails cfg now (db, []) = ((db', sent), None)"
    by (simp add: notify_RunOnce_def nofail d1 [unfolded nofail] d2 [unfolded nofail])
  have db1: "adb_alerts db1 = map (mark_raise_row now (outcomes send ''raised'' ?rs)) (adb_alerts db)"
    using deliver_all_marks [OF d1 drs] by auto
  have set: "set ?rs = (\<lambda>a. (a, segment_of db a)) ` {a \<in> set (adb_alerts db). ?P a}"
    using few by (simp add: ListPendingRaiseNotifications_def)
  have out: "outcomes send ''raised'' ?rs (al_ID a) =
      (if ?P a then Some (deliver send (row_message ''raised'' (a, segment_of db a))) else None)"
    if a: "a \<in> set (adb_alerts db)" for a
  proof (cases "?P a")
    case True
    then have "(a, segment_of db a) \<in> set ?rs" using a set by blast
    moreover have "distinct (map fst (map (\<lambda>r. (al_ID (fst r), deliver send (row_message ''raised'' r))) ?rs))"
      using drs by (simp add: comp_def)
    ultimately have "outcomes send ''raised'' ?rs (al_ID a) = Some (deliver send (row_message ''raised'' (a, segment_of db a)))"
      unfolding outcomes_def by (intro map_of_is_SomeI) (auto simp: image_iff intro!: bexI [of _ "(a, segment_of db a)"])
    then show ?thesis using True by simp
  next
    case False
    then have "al_ID a \<notin> (al_ID \<circ> fst) ` set ?rs"
      using a ids unfolding set by (auto simp: distinct_map dest: inj_onD)
    then show ?thesis using False by (auto simp: outcomes_def map_of_eq_None_iff image_iff)
  qed
  have "map (\<lambda>a. (al_ID a, al_NotifyState a, al_NotifyAttempts a)) (adb_alerts db') =
      map (\<lambda>a. (al_ID a, al_NotifyState a, al_NotifyAttempts a)) (adb_alerts db1)"
    using deliver_all_resolve_keeps [OF d2] .
  then show ?thesis using run out by (auto simp: db1 mark_raise_row_def)
qed

text \<open>Acknowledging one row, and the table around it.\<close>

definition ack_row :: "instant \<Rightarrow> instant \<Rightarrow> string option \<Rightarrow> alert_row \<Rightarrow> alert_row" where
  "ack_row now acked note a =
     a\<lparr>al_AckedAt := coalesce (al_AckedAt a) (Some acked), al_AckNote := coalesce (al_AckNote a) note,
       al_UpdatedAt := now\<rparr>"

definition ack_db :: "nat \<Rightarrow> instant \<Rightarrow> instant \<Rightarrow> string option \<Rightarrow> alert_db \<Rightarrow> alert_db" where
  "ack_db i now acked note = upd_alerts (map (\<lambda>a. if al_ID a = i then ack_row now acked note a else a))"

lemma ack_db_find:
  assumes "find (\<lambda>a. al_ID a = i) (adb_alerts db) = Some a"
  shows "find (\<lambda>a. al_ID a = i) (adb_alerts (ack_db i now acked note db)) = Some (ack_row now acked note a)"
proof -
  let ?f = "\<lambda>a. if al_ID a = i then ack_row now acked note a else a"
  have "find (\<lambda>a. al_ID a = i) (map ?f (adb_alerts db)) = map_option ?f (find (\<lambda>a. al_ID a = i) (adb_alerts db))"
    by (rule find_map_same) (simp add: ack_row_def)
  moreover have "al_ID a = i" using assms by (auto simp: find_Some_iff)
  ultimately show ?thesis using assms by (simp add: ack_db_def upd_alerts_def)
qed

lemma ack_db_AcknowledgeAlert:
  assumes "find (\<lambda>a. al_ID a = i) (adb_alerts db) = Some a"
  shows "AcknowledgeAlert now i acked note db = Some (ack_db i now acked note db)"
proof -
  have "a \<in> set (adb_alerts db)" "al_ID a = i" using assms by (auto simp: find_Some_iff)
  then show ?thesis by (auto simp: AcknowledgeAlert_def ack_db_def ack_row_def cong: if_cong)
qed

lemma Acknowledge_known:
  assumes "parse_id s = Some i" and "find (\<lambda>a. al_ID a = i) (adb_alerts db) = Some a"
  shows "Acknowledge parse_id False False now dbnow s note db =
    (ack_db i dbnow now (if note \<noteq> [] then Some note else None) db,
     Inr (toProto (ack_row dbnow now (if note \<noteq> [] then Some note else None) a) (segment_of db a)))"
proof -
  let ?n = "if note \<noteq> [] then Some note else None"
  have "AcknowledgeAlert dbnow i now ?n db = Some (ack_db i dbnow now ?n db)"
    using ack_db_AcknowledgeAlert [OF assms(2)] .
  moreover have "segment_of (ack_db i dbnow now ?n db) (ack_row dbnow now ?n a) = segment_of db a"
    by (simp add: segment_of_def ack_db_def ack_row_def upd_alerts_def)
  ultimately show ?thesis
    using assms(1) ack_db_find [OF assms(2)] by (simp add: Acknowledge_def GetAlert_def)
qed

text \<open>
  Acknowledging is idempotent. The service answers \<^verbatim>\<open>NotFound\<close> exactly for ids of no alert and
  changes nothing then; otherwise the first acknowledgement's time and note stay: a second call, later
  and with another note, returns the same alert.
\<close>

theorem acknowledge_idempotent:
  assumes "parse_id s = Some i" and "alerts_ok db"
  shows "case Acknowledge parse_id False False now1 db1 s note1 db of
      (db', Inl c) \<Rightarrow> c = NotFound \<and> db' = db \<and> i \<notin> al_ID ` set (adb_alerts db)
    | (db', Inr p) \<Rightarrow> alerts_ok db' \<and> evolves db db' \<and> ap_Id p = i \<and> ap_AckedAt p \<noteq> None
        \<and> snd (Acknowledge parse_id False False now2 db2 s note2 db') = Inr p"
proof (cases "find (\<lambda>a. al_ID a = i) (adb_alerts db)")
  case None
  then have "i \<notin> al_ID ` set (adb_alerts db)" by (auto simp: find_None_iff)
  then show ?thesis using assms(1) by (auto simp: Acknowledge_def AcknowledgeAlert_def image_iff)
next
  case (Some a)
  let ?a = "ack_row db1 now1 (if note1 \<noteq> [] then Some note1 else None) a"
  let ?db = "ack_db i db1 now1 (if note1 \<noteq> [] then Some note1 else None) db"
  have run: "Acknowledge parse_id False False now1 db1 s note1 db = (?db, Inr (toProto ?a (segment_of db a)))"
    by (rule Acknowledge_known) (fact assms(1) Some)+
  have again: "snd (Acknowledge parse_id False False now2 db2 s note2 ?db) = Inr (toProto ?a (segment_of db a))"
    using Acknowledge_known [where parse_id = parse_id and s = s and i = i, OF assms(1) ack_db_find [OF Some]]
    by (simp add: toProto_def ack_row_def coalesce_def segment_of_def ack_db_def upd_alerts_def split: option.split)
  have "AcknowledgeAlert db1 i now1 (if note1 \<noteq> [] then Some note1 else None) db = Some ?db"
    using ack_db_AcknowledgeAlert [OF Some] .
  from acknowledge_keeps [OF this assms(2)] Some show ?thesis
    unfolding run using again by (auto simp: toProto_def ack_row_def coalesce_def find_Some_iff split: option.split)
qed

section \<open>Witnesses\<close>

definition demo_alert :: alert_row where
  "demo_alert = new_alert 0 0 \<lparr>ip_DeviceID = ''d'', ip_HomeID = Some ''h'', ip_Code = FLOAT_HIGH,
     ip_Severity = SEV_CRITICAL, ip_RaisedAt = 5, ip_Message = MainsLostMsg, ip_Source = ''node'',
     ip_TriggerKey = SweepKey ''d'' 5, ip_NotifyState = StatePending\<rparr>"

definition demo_ndb :: alert_db where
  "demo_ndb = demo_adb\<lparr>adb_alerts := [demo_alert], adb_next := 1\<rparr>"

definition demo_loop :: loop_config where
  "demo_loop = \<lparr>lc_Retry = 5 * minute, lc_MaxAttempts = 5\<rparr>"

lemma demo_ndb_ok: "alerts_ok demo_ndb"
  by (simp add: demo_ndb_def demo_adb_def demo_alert_def new_alert_def alerts_ok_def row_ok_def)

theorem notifier_attempts_witness:
  "\<exists>db' sent err. notify_RunOnce (\<lambda>_. True) (\<lambda>_. None) demo_loop 100 (demo_ndb, []) = ((db', sent), err)
     \<and> distinct (map (\<lambda>m. (nm_AlertID m, nm_Event m)) sent)"
proof -
  obtain db' sent err where run: "notify_RunOnce (\<lambda>_. True) (\<lambda>_. None) demo_loop 100 (demo_ndb, []) = ((db', sent), err)"
    by (metis prod.exhaust)
  then show ?thesis
    using notifier_attempts [OF run demo_ndb_ok] by (auto simp: demo_loop_def go_time)
qed

theorem notifier_settles_witness:
  "\<exists>db' sent. notify_RunOnce (\<lambda>_. True) (\<lambda>_. None) demo_loop 100 (demo_ndb, []) = ((db', sent), None)
     \<and> map al_NotifyState (adb_alerts db') = [StateSent]"
proof -
  have "\<exists>db' sent. notify_RunOnce (\<lambda>_. True) (\<lambda>_. None) demo_loop 100 (demo_ndb, []) = ((db', sent), None)
     \<and> map (\<lambda>a. (al_ID a, al_NotifyState a, al_NotifyAttempts a)) (adb_alerts db') = [(0, StateSent, 1)]"
    using notifier_settles [OF demo_ndb_ok refl, of 100 demo_loop "\<lambda>_. True"]
    by (simp add: demo_ndb_def demo_alert_def new_alert_def raise_pending_def deliver_def)
  then show ?thesis by (auto simp: map_eq_Cons_conv)
qed

theorem acknowledge_idempotent_witness:
  "\<exists>db' p. Acknowledge (\<lambda>_. Some 0) False False 7 7 ''x'' ''seen'' demo_ndb = (db', Inr p)
     \<and> snd (Acknowledge (\<lambda>_. Some 0) False False 9 9 ''x'' ''again'' db') = Inr p"
proof -
  have "0 \<in> al_ID ` set (adb_alerts demo_ndb)"
    by (simp add: demo_ndb_def demo_alert_def new_alert_def)
  then show ?thesis
    using acknowledge_idempotent [where parse_id = "\<lambda>_. Some 0" and i = 0 and s = "''x''" and db = demo_ndb
        and ?now1.0 = 7 and ?db1.0 = 7 and ?note1.0 = "''seen''" and ?now2.0 = 9 and ?db2.0 = 9
        and ?note2.0 = "''again''"] demo_ndb_ok
    by (auto split: prod.splits sum.splits)
qed

end
