(* ===== verification/Gauge.thy ===== *)
theory Gauge
  imports Watermark "HOL-Library.Sublist"
begin

text \<open>
  Rain gauges (\<^verbatim>\<open>internal/weather/gauge.go\<close>): rainfall rows derived from the cumulative tip counter of
  consecutive uplinks, and the handler that reconciles the stored rainfall of a gauge with them. The
  rainfall statements carry the constraints of the table: its key, \<^verbatim>\<open>interval_s > 0\<close>, \<^verbatim>\<open>mm >= 0\<close> and the
  two decimals of \<^verbatim>\<open>numeric(7,2)\<close>.
\<close>

section \<open>Deriving rainfall from uplinks\<close>

definition SourceGauge :: string where "SourceGauge = ''gauge''"
definition SourceECCC :: string where "SourceECCC = ''eccc''"

definition TipWindow :: duration where "TipWindow = 5 * minute"
definition lossSlack :: duration where "lossSlack = 30 * second"

record gauge_uplink =
  gu_At :: instant
  gu_FCnt :: int
  gu_TipCount :: int
  gu_MMPerTip :: real
  gu_IntervalS :: int
  gu_CounterReset :: bool
  gu_SensorFault :: bool

record rain_row =
  rn_Start :: instant
  rn_IntervalS :: int
  rn_MM :: real

definition seconds :: "duration \<Rightarrow> int" where
  "seconds d = wrap32 (min (go_div d second) 2147483647)"

text \<open>The counter difference and the start of the interval, with whether an uplink was lost.\<close>

definition baseline :: "gauge_uplink option \<Rightarrow> gauge_uplink \<Rightarrow> (int \<times> instant \<times> bool) option" where
  "baseline p u =
     (let nodeStart = gu_At u - gu_IntervalS u * second
      in case p of
           None \<Rightarrow> (if \<not> gu_CounterReset u then None else Some (gu_TipCount u, nodeStart, False))
         | Some q \<Rightarrow>
             (if gu_CounterReset u \<or> gu_TipCount u < gu_TipCount q
              then Some (gu_TipCount u, if nodeStart < gu_At q then gu_At q else nodeStart, False)
              else Some (gu_TipCount u - gu_TipCount q, gu_At q, nodeStart - gu_At q > lossSlack)))"

definition deriveOne :: "gauge_uplink option \<Rightarrow> gauge_uplink \<Rightarrow> rain_row list" where
  "deriveOne p u =
     (case baseline p u of
        None \<Rightarrow> []
      | Some (tips, start, lost) \<Rightarrow>
        (let tot = gu_At u - start
         in if tot < second \<or> gu_SensorFault u then []
            else let mm = real_of_int tips * gu_MMPerTip u
            in if tips > 0 \<and> \<not> lost \<and> tot > TipWindow then
                 (let wet = gu_At u - TipWindow
                  in [\<lparr>rn_Start = start, rn_IntervalS = seconds (wet - start), rn_MM = 0\<rparr>,
                      \<lparr>rn_Start = wet, rn_IntervalS = seconds TipWindow, rn_MM = mm\<rparr>])
               else [\<lparr>rn_Start = start, rn_IntervalS = seconds tot, rn_MM = mm\<rparr>]))"

fun DeriveGaugeRainfall :: "gauge_uplink option \<Rightarrow> gauge_uplink list \<Rightarrow> rain_row list" where
  "DeriveGaugeRainfall p [] = []"
| "DeriveGaugeRainfall p (u # ups) = deriveOne p u @ DeriveGaugeRainfall (Some u) ups"

section \<open>The rainfall table\<close>

text \<open>\<^verbatim>\<open>numeric(7,2)\<close>: two decimals, halves rounded up (depths are not negative), and five digits before the point.\<close>

definition numeric2 :: "real \<Rightarrow> real" where
  "numeric2 x = real_of_int \<lfloor>x * 100 + 1 / 2\<rfloor> / 100"

definition depth_fits :: "real \<Rightarrow> bool" where
  "depth_fits x \<longleftrightarrow> \<bar>numeric2 x\<bar> < 100000"

definition rain_key :: "rainfall_row \<Rightarrow> string \<times> string \<times> instant" where
  "rain_key r = (rf_Source r, rf_StationID r, rf_Ts r)"

definition UpsertRainfall ::
  "instant \<Rightarrow> string \<Rightarrow> string \<Rightarrow> instant \<Rightarrow> int \<Rightarrow> real \<Rightarrow> rainfall_row list \<Rightarrow> db_error + (rainfall_row list \<times> nat)" where
  "UpsertRainfall now src station ts interval mm tbl =
     (let row = \<lparr>rf_Source = src, rf_StationID = station, rf_Ts = ts, rf_IntervalS = interval,
                 rf_Mm = numeric2 mm, rf_UpdatedAt = now\<rparr>
      in if \<not> depth_fits mm then Inl (DbError ''numeric_value_out_of_range'')
         else if \<not> interval > 0 then Inl (DbError ''rainfall_interval_s_check'')
         else if \<not> numeric2 mm \<ge> 0 then Inl (DbError ''rainfall_mm_check'')
         else case find (\<lambda>r. rain_key r = (src, station, ts)) tbl of
                None \<Rightarrow> Inr (tbl @ [row], 1)
              | Some r \<Rightarrow>
                  (if rf_IntervalS r \<noteq> interval \<or> rf_Mm r \<noteq> numeric2 mm
                   then Inr (map (\<lambda>x. if rain_key x = (src, station, ts) then row else x) tbl, 1)
                   else Inr (tbl, 0)))"

definition stale_rain :: "string \<Rightarrow> string \<Rightarrow> instant \<Rightarrow> instant \<Rightarrow> instant list \<Rightarrow> rainfall_row \<Rightarrow> bool" where
  "stale_rain src station from_ts to_ts keep r \<longleftrightarrow>
     rf_Source r = src \<and> rf_StationID r = station \<and> from_ts \<le> rf_Ts r \<and> rf_Ts r < to_ts
     \<and> rf_Ts r \<notin> set keep"

definition DeleteRainfallExcept ::
  "string \<Rightarrow> string \<Rightarrow> instant \<Rightarrow> instant \<Rightarrow> instant list \<Rightarrow> rainfall_row list \<Rightarrow> rainfall_row list \<times> nat" where
  "DeleteRainfallExcept src station from_ts to_ts keep tbl =
     (filter (\<lambda>r. \<not> stale_rain src station from_ts to_ts keep r) tbl,
      length (filter (stale_rain src station from_ts to_ts keep) tbl))"

section \<open>The handler\<close>

record gauge_db =
  gd_uplinks :: "gauge_row list"
  gd_rain :: "rainfall_row list"
  gd_notes :: "notification list"

datatype gauge_stmt =
    QUplinkBefore string | QUplinks string | QUplinkAfter string | QDeleteRain string
  | QUpsertRain string instant | QNotifyRain

definition toGaugeUplink :: "gauge_row \<Rightarrow> gauge_uplink" where
  "toGaugeUplink r = \<lparr>gu_At = gr_Ts r, gu_FCnt = gr_FCnt r, gu_TipCount = gr_TipCount r,
     gu_MMPerTip = gr_MmPerTip r, gu_IntervalS = gr_IntervalS r, gu_CounterReset = gr_CounterReset r,
     gu_SensorFault = gr_SensorFault r\<rparr>"

definition PollRainGaugeUplinks :: "gauge_row list \<Rightarrow> instant \<Rightarrow> instant \<Rightarrow> nat \<Rightarrow> gauge_row list" where
  "PollRainGaugeUplinks = poll_rows gr_InsertedAt (\<lambda>r. (gr_DeviceID r, gr_Ts r, gr_FCnt r))"

interpretation gauge_poll: poll_source PollRainGaugeUplinks gr_InsertedAt
  unfolding PollRainGaugeUplinks_def by (rule poll_rows_source)

definition RainGaugeUplinkBefore :: "gauge_row list \<Rightarrow> string \<Rightarrow> instant \<Rightarrow> gauge_row option" where
  "RainGaugeUplinkBefore tbl dev ts =
     (case sort_key (\<lambda>r. (- gr_Ts r, - gr_FCnt r)) (filter (\<lambda>r. gr_DeviceID r = dev \<and> gr_Ts r < ts) tbl) of
        [] \<Rightarrow> None | r # _ \<Rightarrow> Some r)"

definition RainGaugeUplinkAfter :: "gauge_row list \<Rightarrow> string \<Rightarrow> instant \<Rightarrow> gauge_row option" where
  "RainGaugeUplinkAfter tbl dev ts =
     (case sort_key (\<lambda>r. (gr_Ts r, gr_FCnt r)) (filter (\<lambda>r. gr_DeviceID r = dev \<and> gr_Ts r > ts) tbl) of
        [] \<Rightarrow> None | r # _ \<Rightarrow> Some r)"

definition ListRainGaugeUplinks :: "gauge_row list \<Rightarrow> string \<Rightarrow> instant \<Rightarrow> instant \<Rightarrow> gauge_row list" where
  "ListRainGaugeUplinks tbl dev from_ts to_ts =
     sort_key (\<lambda>r. (gr_Ts r, gr_FCnt r))
       (filter (\<lambda>r. gr_DeviceID r = dev \<and> from_ts \<le> gr_Ts r \<and> gr_Ts r \<le> to_ts) tbl)"

fun upsert_all ::
  "(gauge_stmt \<Rightarrow> db_error option) \<Rightarrow> instant \<Rightarrow> string \<Rightarrow> rain_row list \<Rightarrow> rainfall_row list \<Rightarrow> nat
     \<Rightarrow> db_error + (rainfall_row list \<times> nat)" where
  "upsert_all fails now dev [] tbl written = Inr (tbl, written)"
| "upsert_all fails now dev (r # rs) tbl written =
     (case fails (QUpsertRain dev (rn_Start r)) of
        Some e \<Rightarrow> Inl e
      | None \<Rightarrow>
        (case UpsertRainfall now SourceGauge dev (rn_Start r) (rn_IntervalS r) (rn_MM r) tbl of
           Inl e \<Rightarrow> Inl e
         | Inr (tbl', n) \<Rightarrow> upsert_all fails now dev rs tbl' (written + n)))"

text \<open>The uplinks a reconciliation considers, and the stretch of rainfall it owns.\<close>

definition considered :: "gauge_row list \<Rightarrow> string \<Rightarrow> instant \<Rightarrow> instant \<Rightarrow> gauge_uplink list" where
  "considered tbl dev from_ts to_ts =
     map toGaugeUplink (ListRainGaugeUplinks tbl dev from_ts to_ts
       @ (case RainGaugeUplinkAfter tbl dev to_ts of None \<Rightarrow> [] | Some r \<Rightarrow> [r]))"

definition owned_from :: "gauge_uplink option \<Rightarrow> gauge_uplink list \<Rightarrow> rain_row list \<Rightarrow> instant" where
  "owned_from prev ups derived =
     fold (\<lambda>r lo. if rn_Start r < lo then rn_Start r else lo) derived
       (case prev of None \<Rightarrow> gu_At (hd ups) | Some p \<Rightarrow> gu_At p)"

text \<open>An empty list of uplinks is an index out of range in the source; the polled row excludes it.\<close>

definition reconcile ::
  "(gauge_stmt \<Rightarrow> db_error option) \<Rightarrow> instant \<Rightarrow> gauge_row list \<Rightarrow> string \<Rightarrow> instant \<Rightarrow> instant
     \<Rightarrow> rainfall_row list \<Rightarrow> db_error + (nat \<times> instant \<times> instant \<times> rainfall_row list)" where
  "reconcile fails now tbl dev from_ts to_ts rain =
     (case fails (QUplinkBefore dev) of Some e \<Rightarrow> Inl e | None \<Rightarrow>
      let prev = map_option toGaugeUplink (RainGaugeUplinkBefore tbl dev from_ts)
      in case fails (QUplinks dev) of Some e \<Rightarrow> Inl e | None \<Rightarrow>
      case fails (QUplinkAfter dev) of Some e \<Rightarrow> Inl e | None \<Rightarrow>
      let ups = considered tbl dev from_ts to_ts
      in if ups = [] then Inl (DbError ''index out of range'')
      else let derived = DeriveGaugeRainfall prev ups;
               lo = owned_from prev ups derived;
               hi = gu_At (last ups)
      in case fails (QDeleteRain dev) of Some e \<Rightarrow> Inl e | None \<Rightarrow>
      let (rain1, deleted) = DeleteRainfallExcept SourceGauge dev lo hi (map rn_Start derived) rain
      in case upsert_all fails now dev derived rain1 0 of
           Inl e \<Rightarrow> Inl e
         | Inr (rain2, written) \<Rightarrow> Inr (written + deleted, lo, hi, rain2))"

definition span_of :: "gauge_row list \<Rightarrow> string \<Rightarrow> instant \<times> instant" where
  "span_of rows dev =
     (let ts = map gr_Ts (filter (\<lambda>r. gr_DeviceID r = dev) rows)
      in (fold min (tl ts) (hd ts), fold max (tl ts) (hd ts)))"

fun reconcile_all ::
  "(gauge_stmt \<Rightarrow> db_error option) \<Rightarrow> instant \<Rightarrow> gauge_row list \<Rightarrow> gauge_row list \<Rightarrow> string list
     \<Rightarrow> rainfall_row list \<times> nat \<times> instant \<times> instant \<Rightarrow> db_error + (rainfall_row list \<times> nat \<times> instant \<times> instant)" where
  "reconcile_all fails now tbl rows [] acc = Inr acc"
| "reconcile_all fails now tbl rows (dev # devs) (rain, changed, minTS, maxTS) =
     (case reconcile fails now tbl dev (fst (span_of rows dev)) (snd (span_of rows dev)) rain of
        Inl e \<Rightarrow> Inl e
      | Inr (n, lo, hi, rain') \<Rightarrow>
          reconcile_all fails now tbl rows devs
            (if n > 0
             then (rain', changed + n, if is_zero minTS \<or> lo < minTS then lo else minTS,
                   if hi > maxTS then hi else maxTS)
             else (rain', changed, minTS, maxTS)))"

definition gauge_Handle ::
  "(gauge_stmt \<Rightarrow> db_error option) \<Rightarrow> instant \<Rightarrow> gauge_row list \<Rightarrow> gauge_db \<Rightarrow> db_error + gauge_db" where
  "gauge_Handle fails now rows db =
     (case reconcile_all fails now (gd_uplinks db) rows (sort (remdups (map gr_DeviceID rows)))
             (gd_rain db, 0, zero_time, zero_time) of
        Inl e \<Rightarrow> Inl e
      | Inr (rain, changed, minTS, maxTS) \<Rightarrow>
        (if changed > 0
         then (case fails QNotifyRain of
                 Some e \<Rightarrow> Inl e
               | None \<Rightarrow> Inr (db\<lparr>gd_rain := rain, gd_notes := gd_notes db @
                   [\<lparr>n_Table = ''rainfall'', n_N = changed, n_MinTS = minTS, n_MaxTS = maxTS\<rparr>]\<rparr>))
         else Inr (db\<lparr>gd_rain := rain\<rparr>)))"

definition GaugeSource :: "gauge_row source" where
  "GaugeSource = \<lparr>s_Table = ''rain_gauge_uplinks'', s_Poll = PollRainGaugeUplinks, s_InsertedAt = gr_InsertedAt\<rparr>"

section \<open>Rows tile time\<close>

lemma seconds_bounds:
  assumes "0 \<le> d"
  shows "0 \<le> seconds d" "seconds d * second \<le> d" "second \<le> d \<Longrightarrow> 1 \<le> seconds d"
proof -
  have div: "0 \<le> d div 1000000000" "d div 1000000000 * 1000000000 \<le> d" using assms by simp_all
  have s: "seconds d = min (d div 1000000000) 2147483647"
    unfolding seconds_def using assms div(1) by (subst wrap32_id) (simp_all add: go_div_def second_def)
  show "0 \<le> seconds d" using div by (simp add: s)
  have "seconds d * 1000000000 \<le> d div 1000000000 * 1000000000" by (simp add: s)
  then show "seconds d * second \<le> d" using div(2) by (simp add: second_def)
  show "second \<le> d \<Longrightarrow> 1 \<le> seconds d" by (simp add: s second_def)
qed

abbreviation rn_end :: "rain_row \<Rightarrow> instant" where
  "rn_end r \<equiv> rn_Start r + rn_IntervalS r * second"

fun tiles :: "instant \<Rightarrow> rain_row list \<Rightarrow> instant \<Rightarrow> bool" where
  "tiles lo [] hi = (lo \<le> hi)"
| "tiles lo (r # rs) hi = (lo \<le> rn_Start r \<and> 0 \<le> rn_IntervalS r \<and> tiles (rn_end r) rs hi)"

lemma tiles_lower: "tiles lo rs hi \<Longrightarrow> lo' \<le> lo \<Longrightarrow> tiles lo' rs hi"
  by (cases rs) auto

lemma tiles_append: "tiles a xs b \<Longrightarrow> tiles b ys c \<Longrightarrow> tiles a (xs @ ys) c"
  by (induction xs arbitrary: a) (auto intro: tiles_lower)

lemma tiles_le: "tiles lo rs hi \<Longrightarrow> lo \<le> hi"
proof (induction rs arbitrary: lo)
  case (Cons r rs)
  then have "rn_end r \<le> hi" by simp
  moreover have "rn_Start r \<le> rn_end r" using Cons.prems by (simp add: second_def)
  ultimately show ?case using Cons.prems by simp
qed simp

lemma tiles_mem: "tiles lo rs hi \<Longrightarrow> r \<in> set rs \<Longrightarrow> lo \<le> rn_Start r \<and> rn_end r \<le> hi"
proof (induction rs arbitrary: lo)
  case (Cons x rs)
  then have x: "lo \<le> rn_Start x" "0 \<le> rn_IntervalS x" "tiles (rn_end x) rs hi" by simp_all
  then have "lo \<le> rn_end x" by (simp add: second_def)
  then show ?case using Cons x tiles_le [OF x(3)] by fastforce
qed simp

text \<open>Where the interval of an uplink starts, when it has one.\<close>

lemma baseline_start:
  assumes "baseline p u = Some (tips, start, lost)" and "0 \<le> gu_IntervalS u"
  shows "case p of None \<Rightarrow> start = gu_At u - gu_IntervalS u * second | Some q \<Rightarrow> gu_At q \<le> start"
  using assms by (auto simp: baseline_def Let_def split: option.splits if_splits)

lemma deriveOne_tiles:
  assumes "0 \<le> gu_IntervalS u"
    and "lo \<le> gu_At u" and "case p of None \<Rightarrow> lo \<le> gu_At u - gu_IntervalS u * second | Some q \<Rightarrow> lo \<le> gu_At q"
  shows "tiles lo (deriveOne p u) (gu_At u)"
proof (cases "baseline p u")
  case None
  then show ?thesis using assms(2) by (simp add: deriveOne_def)
next
  case (Some b)
  obtain tips start lost where b: "b = (tips, start, lost)" by (metis prod.exhaust)
  let ?tot = "gu_At u - start"
  have lo: "lo \<le> start"
    using baseline_start [OF Some [unfolded b] assms(1)] assms(3) by (auto split: option.splits)
  show ?thesis
  proof (cases "?tot < second \<or> gu_SensorFault u")
    case True
    then show ?thesis using Some b assms(2) by (simp add: deriveOne_def Let_def)
  next
    case False
    then have pos: "0 \<le> ?tot" "second \<le> ?tot" by (auto simp: second_def)
    have w: "0 \<le> TipWindow" by (simp add: TipWindow_def go_time)
    show ?thesis
    proof (cases "tips > 0 \<and> \<not> lost \<and> ?tot > TipWindow")
      case True
      then have "0 \<le> gu_At u - TipWindow - start" by simp
      then show ?thesis
        using Some b lo False True seconds_bounds [of "gu_At u - TipWindow - start"] seconds_bounds [OF w]
        by (simp add: deriveOne_def Let_def)
    next
      case nosplit: False
      then have "deriveOne p u = [\<lparr>rn_Start = start, rn_IntervalS = seconds ?tot, rn_MM = real_of_int tips * gu_MMPerTip u\<rparr>]"
        using Some b False by (auto simp: deriveOne_def Let_def)
      then show ?thesis using lo seconds_bounds [OF pos(1)] by simp
    qed
  qed
qed

lemma derive_tiles_Some:
  "sorted_wrt (\<le>) (map gu_At (q # ups)) \<Longrightarrow> (\<And>u. u \<in> set ups \<Longrightarrow> 0 \<le> gu_IntervalS u) \<Longrightarrow>
     tiles (gu_At q) (DeriveGaugeRainfall (Some q) ups) (gu_At (last (q # ups)))"
proof (induction ups arbitrary: q)
  case (Cons u ups)
  have "tiles (gu_At q) (deriveOne (Some q) u) (gu_At u)"
    using Cons.prems by (intro deriveOne_tiles) auto
  moreover have "tiles (gu_At u) (DeriveGaugeRainfall (Some u) ups) (gu_At (last (u # ups)))"
    using Cons.prems by (intro Cons.IH) auto
  ultimately show ?case using tiles_append by simp
qed simp

lemma derive_tiles:
  assumes "sorted_wrt (\<le>) (map gu_At (case p of None \<Rightarrow> ups | Some q \<Rightarrow> q # ups))" "ups \<noteq> []"
    and "\<And>u. u \<in> set ups \<Longrightarrow> 0 \<le> gu_IntervalS u"
  shows "\<exists>lo. tiles lo (DeriveGaugeRainfall p ups) (gu_At (last ups))
    \<and> (case p of None \<Rightarrow> True | Some q \<Rightarrow> lo = gu_At q)"
proof (cases p)
  case (Some q)
  then show ?thesis using derive_tiles_Some [of q ups] assms by auto
next
  case None
  obtain u us where ups: "ups = u # us" using assms(2) by (cases ups) auto
  have "tiles (gu_At u - gu_IntervalS u * second) (deriveOne None u) (gu_At u)"
    using assms(3) ups by (intro deriveOne_tiles) (auto simp: second_def)
  moreover have "tiles (gu_At u) (DeriveGaugeRainfall (Some u) us) (gu_At (last (u # us)))"
    using assms ups None by (intro derive_tiles_Some) auto
  ultimately have "tiles (gu_At u - gu_IntervalS u * second) (DeriveGaugeRainfall p ups) (gu_At (last ups))"
    using tiles_append None ups by simp
  then show ?thesis using None by auto
qed

section \<open>No rain is lost with an uplink\<close>

definition gauge_next :: "real \<Rightarrow> gauge_uplink \<Rightarrow> gauge_uplink \<Rightarrow> bool" where
  "gauge_next k q u \<longleftrightarrow> \<not> gu_CounterReset u \<and> \<not> gu_SensorFault u \<and> gu_MMPerTip u = k
     \<and> gu_TipCount q \<le> gu_TipCount u \<and> gu_At q + second \<le> gu_At u"

definition total_mm :: "rain_row list \<Rightarrow> real" where
  "total_mm rs = sum_list (map rn_MM rs)"

lemma deriveOne_total:
  "gauge_next k q u \<Longrightarrow> total_mm (deriveOne (Some q) u) = real_of_int (gu_TipCount u - gu_TipCount q) * k"
  by (auto simp: gauge_next_def deriveOne_def baseline_def total_mm_def Let_def)

lemma derive_total:
  "sorted_wrt (gauge_next k) (q # ups) \<Longrightarrow>
     total_mm (DeriveGaugeRainfall (Some q) ups) = real_of_int (gu_TipCount (last (q # ups)) - gu_TipCount q) * k"
proof (induction ups arbitrary: q)
  case Nil
  then show ?case by (simp add: total_mm_def)
next
  case (Cons u ups)
  then have "total_mm (DeriveGaugeRainfall (Some u) ups) = real_of_int (gu_TipCount (last (u # ups)) - gu_TipCount u) * k"
    by simp
  moreover have "total_mm (deriveOne (Some q) u) = real_of_int (gu_TipCount u - gu_TipCount q) * k"
    using Cons.prems by (intro deriveOne_total) simp
  ultimately show ?case by (simp add: total_mm_def algebra_simps)
qed

lemma sorted_wrt_subseq: "subseq xs ys \<Longrightarrow> sorted_wrt P ys \<Longrightarrow> sorted_wrt P xs"
  by (induction rule: list_emb.induct) (auto dest: list_emb_set)

section \<open>Reconciling the table\<close>

text \<open>The table as a finite map from its key; the key is unique, but nothing below needs it.\<close>

definition rain_lookup :: "rainfall_row list \<Rightarrow> string \<times> string \<times> instant \<Rightarrow> (int \<times> real) option" where
  "rain_lookup tbl k = map_option (\<lambda>r. (rf_IntervalS r, rf_Mm r)) (find (\<lambda>r. rain_key r = k) tbl)"

lemma find_filter_key:
  "find (\<lambda>x. key x = k) (filter (\<lambda>x. Q (key x)) xs) = (if Q k then find (\<lambda>x. key x = k) xs else None)"
  by (induction xs) auto

lemma find_snoc: "find P (xs @ [y]) = (case find P xs of None \<Rightarrow> if P y then Some y else None | Some x \<Rightarrow> Some x)"
  by (induction xs) auto

lemma find_map_replace:
  "key row = k \<Longrightarrow> find (\<lambda>x. key x = j) (map (\<lambda>x. if key x = k then row else x) xs) =
     (case find (\<lambda>x. key x = j) xs of None \<Rightarrow> None | Some x \<Rightarrow> Some (if j = k then row else x))"
  by (induction xs) auto

lemma upsert_lookup:
  assumes "UpsertRainfall now src st ts i mm tbl = Inr (tbl', n)"
  shows "rain_lookup tbl' = (rain_lookup tbl)((src, st, ts) \<mapsto> (i, numeric2 mm)) \<and> 0 < i \<and> depth_fits mm
    \<and> (rain_lookup tbl (src, st, ts) = Some (i, numeric2 mm) \<longrightarrow> tbl' = tbl \<and> n = 0)"
proof -
  define row where "row = \<lparr>rf_Source = src, rf_StationID = st, rf_Ts = ts, rf_IntervalS = i,
      rf_Mm = numeric2 mm, rf_UpdatedAt = now\<rparr>"
  have key: "rain_key row = (src, st, ts)" by (simp add: row_def rain_key_def)
  have i: "0 < i" "depth_fits mm" using assms by (auto simp: UpsertRainfall_def Let_def split: if_splits)
  show ?thesis
  proof (cases "find (\<lambda>r. rain_key r = (src, st, ts)) tbl")
    case None
    then have "tbl' = tbl @ [row]"
      using assms by (auto simp: UpsertRainfall_def Let_def row_def split: if_splits)
    then show ?thesis
      using None i key by (auto simp: rain_lookup_def fun_eq_iff find_snoc row_def split: option.splits)
  next
    case (Some r)
    show ?thesis
    proof (cases "rf_IntervalS r \<noteq> i \<or> rf_Mm r \<noteq> numeric2 mm")
      case True
      then have "tbl' = map (\<lambda>x. if rain_key x = (src, st, ts) then row else x) tbl"
        using assms Some by (auto simp: UpsertRainfall_def Let_def row_def split: if_splits)
      then show ?thesis
        using Some i True
        by (auto simp: rain_lookup_def fun_eq_iff find_map_replace [where key = rain_key, OF key] row_def split: option.splits)
    next
      case False
      then have "tbl' = tbl" "n = 0" using assms Some by (auto simp: UpsertRainfall_def Let_def split: if_splits)
      then show ?thesis using Some i False by (auto simp: rain_lookup_def fun_eq_iff)
    qed
  qed
qed

lemma upsert_all_lookup:
  "upsert_all fails now dev rs tbl w = Inr (tbl', w') \<Longrightarrow>
     rain_lookup tbl' = (rain_lookup tbl) ++ map_of (rev (map (\<lambda>r. ((SourceGauge, dev, rn_Start r), (rn_IntervalS r, numeric2 (rn_MM r)))) rs))
     \<and> (\<forall>r \<in> set rs. 0 < rn_IntervalS r \<and> depth_fits (rn_MM r))"
proof (induction rs arbitrary: tbl w)
  case (Cons r rs)
  obtain tbl1 n where u: "UpsertRainfall now SourceGauge dev (rn_Start r) (rn_IntervalS r) (rn_MM r) tbl = Inr (tbl1, n)"
    and rest: "upsert_all fails now dev rs tbl1 (w + n) = Inr (tbl', w')"
    using Cons.prems by (auto split: option.splits sum.splits)
  from Cons.IH [OF rest] upsert_lookup [OF u] show ?case by (simp add: map_add_def fun_eq_iff split: option.split)
qed simp

lemma upsert_all_unchanged:
  "fails = (\<lambda>_. None) \<Longrightarrow> (\<And>r. r \<in> set rs \<Longrightarrow> 0 < rn_IntervalS r \<and> depth_fits (rn_MM r) \<and> 0 \<le> numeric2 (rn_MM r)
     \<and> rain_lookup tbl (SourceGauge, dev, rn_Start r) = Some (rn_IntervalS r, numeric2 (rn_MM r))) \<Longrightarrow>
     upsert_all fails now dev rs tbl w = Inr (tbl, w)"
proof (induction rs)
  case (Cons r rs)
  have "UpsertRainfall now SourceGauge dev (rn_Start r) (rn_IntervalS r) (rn_MM r) tbl = Inr (tbl, 0)"
    using Cons.prems(2) [of r]
    by (auto simp: UpsertRainfall_def Let_def rain_lookup_def split: option.splits)
  then show ?case using Cons by simp
qed simp

lemma delete_lookup:
  "rain_lookup (fst (DeleteRainfallExcept src st lo hi keep tbl)) (s, d, t) =
     (if s = src \<and> d = st \<and> lo \<le> t \<and> t < hi \<and> t \<notin> set keep then None else rain_lookup tbl (s, d, t))"
proof -
  let ?Q = "\<lambda>(s, d, t). \<not> (s = src \<and> d = st \<and> lo \<le> t \<and> t < hi \<and> t \<notin> set keep)"
  have "(\<lambda>r. \<not> stale_rain src st lo hi keep r) = (\<lambda>r. ?Q (rain_key r))"
    by (auto simp: fun_eq_iff stale_rain_def rain_key_def)
  then show ?thesis
    by (simp add: rain_lookup_def DeleteRainfallExcept_def find_filter_key)
qed

lemma stale_none:
  assumes "\<And>t. lo \<le> t \<Longrightarrow> t < hi \<Longrightarrow> t \<notin> set keep \<Longrightarrow> rain_lookup tbl (src, st, t) = None"
  shows "DeleteRainfallExcept src st lo hi keep tbl = (tbl, 0)"
proof -
  have "\<not> stale_rain src st lo hi keep r" if "r \<in> set tbl" for r
  proof
    assume s: "stale_rain src st lo hi keep r"
    then have "rain_lookup tbl (src, st, rf_Ts r) = None" using assms by (simp add: stale_rain_def)
    then show False using that s by (auto simp: rain_lookup_def find_None_iff rain_key_def stale_rain_def)
  qed
  then show ?thesis by (simp add: DeleteRainfallExcept_def filter_empty_conv)
qed

lemma owned_from_le:
  "fold (\<lambda>r lo. if rn_Start r < lo then rn_Start r else lo) rs b \<le> b
   \<and> (\<forall>r \<in> set rs. fold (\<lambda>r lo. if rn_Start r < lo then rn_Start r else lo) rs b \<le> rn_Start r)"
proof (induction rs arbitrary: b)
  case (Cons x rs)
  let ?b = "if rn_Start x < b then rn_Start x else b"
  have "?b \<le> b" "?b \<le> rn_Start x" by auto
  then show ?case using Cons.IH [of ?b] by (auto simp del: if_split split del: if_split)
qed simp

definition uplinks_ok :: "gauge_row list \<Rightarrow> bool" where
  "uplinks_ok tbl \<longleftrightarrow> (\<forall>r \<in> set tbl. 0 \<le> gr_IntervalS r \<and> 0 \<le> gr_TipCount r \<and> 0 < gr_MmPerTip r)"

lemma sorted_pairs: "sorted_wrt (\<le>) (map (\<lambda>r. (f r, g r)) xs) \<Longrightarrow> sorted_wrt (\<le>) (map f xs)"
  for f :: "'a \<Rightarrow> int" and g :: "'a \<Rightarrow> int"
  by (induction xs) auto

lemma hd_sorted_mem: "(case sort_key f (filter P xs) of [] \<Rightarrow> None | r # _ \<Rightarrow> Some r) = Some r \<Longrightarrow> r \<in> set xs \<and> P r"
proof -
  have "set (sort_key f (filter P xs)) = {x \<in> set xs. P x}" by auto
  then show "(case sort_key f (filter P xs) of [] \<Rightarrow> None | r # _ \<Rightarrow> Some r) = Some r \<Longrightarrow> r \<in> set xs \<and> P r"
    by (cases "sort_key f (filter P xs)") auto
qed

lemma considered_props:
  assumes "uplinks_ok tbl" and "from_ts \<le> to_ts"
  shows "sorted_wrt (\<le>) (map gu_At (case map_option toGaugeUplink (RainGaugeUplinkBefore tbl dev from_ts) of
      None \<Rightarrow> considered tbl dev from_ts to_ts | Some q \<Rightarrow> q # considered tbl dev from_ts to_ts))"
    and "u \<in> set (considered tbl dev from_ts to_ts) \<Longrightarrow> 0 \<le> gu_IntervalS u"
proof -
  let ?l = "ListRainGaugeUplinks tbl dev from_ts to_ts"
  have l: "sorted_wrt (\<le>) (map gr_Ts ?l)"
    unfolding ListRainGaugeUplinks_def by (rule sorted_pairs [where g = gr_FCnt]) simp
  have lm: "r \<in> set ?l \<Longrightarrow> r \<in> set tbl \<and> from_ts \<le> gr_Ts r \<and> gr_Ts r \<le> to_ts" for r
    by (auto simp: ListRainGaugeUplinks_def)
  have after: "RainGaugeUplinkAfter tbl dev to_ts = Some r \<Longrightarrow> r \<in> set tbl \<and> gr_DeviceID r = dev \<and> gr_Ts r > to_ts" for r
    unfolding RainGaugeUplinkAfter_def by (rule hd_sorted_mem)
  have before: "RainGaugeUplinkBefore tbl dev from_ts = Some r \<Longrightarrow> r \<in> set tbl \<and> gr_DeviceID r = dev \<and> gr_Ts r < from_ts" for r
    unfolding RainGaugeUplinkBefore_def by (rule hd_sorted_mem)
  show "u \<in> set (considered tbl dev from_ts to_ts) \<Longrightarrow> 0 \<le> gu_IntervalS u"
    using assms lm after by (auto simp: considered_def toGaugeUplink_def uplinks_ok_def split: option.splits)
  have c: "map gu_At (considered tbl dev from_ts to_ts) =
      map gr_Ts ?l @ (case RainGaugeUplinkAfter tbl dev to_ts of None \<Rightarrow> [] | Some r \<Rightarrow> [gr_Ts r])"
    by (auto simp: considered_def toGaugeUplink_def split: option.splits)
  have s: "sorted_wrt (\<le>) (map gu_At (considered tbl dev from_ts to_ts))"
    unfolding c using l lm after by (fastforce simp: sorted_wrt_append split: option.splits)
  have "from_ts \<le> t" if t: "t \<in> set (map gu_At (considered tbl dev from_ts to_ts))" for t
  proof (cases "t \<in> set (map gr_Ts ?l)")
    case True
    then show ?thesis using lm by auto
  next
    case False
    then show ?thesis
      using t after assms(2) unfolding c by (cases "RainGaugeUplinkAfter tbl dev to_ts") force+
  qed
  with s show "sorted_wrt (\<le>) (map gu_At (case map_option toGaugeUplink (RainGaugeUplinkBefore tbl dev from_ts) of
      None \<Rightarrow> considered tbl dev from_ts to_ts | Some q \<Rightarrow> q # considered tbl dev from_ts to_ts))"
    using before by (fastforce simp: toGaugeUplink_def split: option.splits)
qed

text \<open>The stretch of the table a reconciliation owns, and what it writes there.\<close>

definition derived_for :: "gauge_row list \<Rightarrow> string \<Rightarrow> instant \<Rightarrow> instant \<Rightarrow> rain_row list" where
  "derived_for tbl dev from_ts to_ts =
     DeriveGaugeRainfall (map_option toGaugeUplink (RainGaugeUplinkBefore tbl dev from_ts))
       (considered tbl dev from_ts to_ts)"

definition derived_lookup :: "rain_row list \<Rightarrow> instant \<Rightarrow> (int \<times> real) option" where
  "derived_lookup rs t =
     map_option (\<lambda>r. (rn_IntervalS r, numeric2 (rn_MM r))) (find (\<lambda>r. rn_Start r = t) rs)"

lemma tiles_distinct:
  "tiles lo rs hi \<Longrightarrow> \<forall>r \<in> set rs. 0 < rn_IntervalS r \<Longrightarrow> distinct (map rn_Start rs)"
proof (induction rs arbitrary: lo)
  case (Cons x rs)
  have "rn_Start x < rn_end x" using Cons.prems(2) by (simp add: second_def)
  then have "rn_Start x \<notin> rn_Start ` set rs"
    using tiles_mem [of "rn_end x" rs hi] Cons.prems(1) by force
  then show ?case using Cons by auto
qed simp

lemma derived_lookup_map_of:
  assumes "distinct (map rn_Start rs)"
  shows "map_of (rev (map (\<lambda>r. ((a, b, rn_Start r), (rn_IntervalS r, numeric2 (rn_MM r)))) rs)) (s, d, t) =
    (if s = a \<and> d = b then derived_lookup rs t else None)"
proof -
  let ?al = "map (\<lambda>r. ((a, b, rn_Start r), (rn_IntervalS r, numeric2 (rn_MM r)))) rs"
  have "distinct (map fst ?al)"
    using assms by (simp add: comp_def distinct_map inj_on_def)
  then have "map_of (rev ?al) = map_of ?al"
    by (subst map_of_inject_set) (simp_all add: rev_map [symmetric])
  moreover have "map_of ?al (s, d, t) = (if s = a \<and> d = b then derived_lookup rs t else None)"
    by (induction rs) (auto simp: derived_lookup_def)
  ultimately show ?thesis by simp
qed

lemma reconcile_result:
  assumes run: "reconcile fails now tbl dev from_ts to_ts rain = Inr (n, lo, hi, rain')"
    and ok: "uplinks_ok tbl" and le: "from_ts \<le> to_ts"
  defines "ds \<equiv> derived_for tbl dev from_ts to_ts"
  shows "distinct (map rn_Start ds) \<and> (\<forall>r \<in> set ds. 0 < rn_IntervalS r \<and> lo \<le> rn_Start r \<and> rn_Start r < hi \<and> depth_fits (rn_MM r))
    \<and> lo = owned_from (map_option toGaugeUplink (RainGaugeUplinkBefore tbl dev from_ts)) (considered tbl dev from_ts to_ts) ds
    \<and> hi = gu_At (last (considered tbl dev from_ts to_ts)) \<and> considered tbl dev from_ts to_ts \<noteq> []
    \<and> rain_lookup rain' = (\<lambda>(s, d, t). if s = SourceGauge \<and> d = dev \<and> lo \<le> t \<and> t < hi then derived_lookup ds t
         else rain_lookup rain (s, d, t))"
proof -
  let ?prev = "map_option toGaugeUplink (RainGaugeUplinkBefore tbl dev from_ts)"
  let ?ups = "considered tbl dev from_ts to_ts"
  have ne: "?ups \<noteq> []" and lohi: "lo = owned_from ?prev ?ups ds" "hi = gu_At (last ?ups)"
    using run by (auto simp: reconcile_def Let_def ds_def derived_for_def split: option.splits if_splits prod.splits sum.splits)
  obtain w where up: "upsert_all fails now dev ds (fst (DeleteRainfallExcept SourceGauge dev lo hi (map rn_Start ds) rain)) 0
      = Inr (rain', w)"
    using run ne by (auto simp: reconcile_def Let_def lohi ds_def derived_for_def split: option.splits prod.splits sum.splits)
  note ul = upsert_all_lookup [OF up]
  have "\<exists>b. tiles b (DeriveGaugeRainfall ?prev ?ups) (gu_At (last ?ups))
      \<and> (case ?prev of None \<Rightarrow> True | Some q \<Rightarrow> b = gu_At q)"
    by (rule derive_tiles [OF considered_props(1) [OF ok le] ne]) (rule considered_props(2) [OF ok le])
  then obtain b where "tiles b ds hi" unfolding lohi ds_def derived_for_def by blast
  then have "distinct (map rn_Start ds)" and below: "\<forall>r \<in> set ds. rn_end r \<le> hi"
    using tiles_distinct tiles_mem ul by blast+
  moreover have rows: "\<forall>r \<in> set ds. 0 < rn_IntervalS r \<and> lo \<le> rn_Start r \<and> rn_Start r < hi \<and> depth_fits (rn_MM r)"
  proof
    fix r assume r: "r \<in> set ds"
    then have "0 < rn_IntervalS r" "rn_end r \<le> hi" "depth_fits (rn_MM r)" using ul below by blast+
    moreover have "lo \<le> rn_Start r" using r owned_from_le unfolding lohi owned_from_def by blast
    ultimately show "0 < rn_IntervalS r \<and> lo \<le> rn_Start r \<and> rn_Start r < hi \<and> depth_fits (rn_MM r)" by (simp add: second_def)
  qed
  moreover have "rain_lookup rain' (s, d, t) = (if s = SourceGauge \<and> d = dev \<and> lo \<le> t \<and> t < hi then derived_lookup ds t
         else rain_lookup rain (s, d, t))" for s d t
  proof -
    have none: "derived_lookup ds t = None \<longleftrightarrow> t \<notin> set (map rn_Start ds)"
      by (auto simp: derived_lookup_def find_None_iff)
    have inside: "t \<in> set (map rn_Start ds) \<Longrightarrow> lo \<le> t \<and> t < hi" using rows by auto
    have "rain_lookup rain' (s, d, t) =
        (case if s = SourceGauge \<and> d = dev then derived_lookup ds t else None of
           None \<Rightarrow> if s = SourceGauge \<and> d = dev \<and> lo \<le> t \<and> t < hi \<and> t \<notin> set (map rn_Start ds) then None
                   else rain_lookup rain (s, d, t)
         | Some v \<Rightarrow> Some v)"
      unfolding conjunct1 [OF ul] map_add_def delete_lookup derived_lookup_map_of [OF \<open>distinct (map rn_Start ds)\<close>] ..
    also have "\<dots> = (if s = SourceGauge \<and> d = dev \<and> lo \<le> t \<and> t < hi then derived_lookup ds t
         else rain_lookup rain (s, d, t))"
      using none inside by (cases "derived_lookup ds t") (auto simp del: set_map)
    finally show ?thesis .
  qed
  ultimately show ?thesis using lohi ne by (auto simp: fun_eq_iff)
qed

section \<open>Properties\<close>

text \<open>
  C16: A lost uplink loses no rain, as long as the counter runs on. Among the uplinks sent after \<open>q\<close>, let none report a
  counter reset or a sensor fault, all have the same depth per tip, the counter never fall, and at least a second
  lie between any two (\<open>gauge_next\<close>). Whichever of them are lost, if the last one arrives then the depth derived from those
  that arrive equals the depth derived from all that were sent, and both are the counter difference times the
  depth per tip. (The tips counted since a reset are lost with the uplink that reports the reset.)
\<close>

theorem lost_uplinks_keep_rain:
  assumes "sorted_wrt (gauge_next k) (q # ups)" and "subseq arrived ups"
    and "arrived \<noteq> []" and "last arrived = last ups"
  shows "total_mm (DeriveGaugeRainfall (Some q) arrived) = total_mm (DeriveGaugeRainfall (Some q) ups)
    \<and> total_mm (DeriveGaugeRainfall (Some q) ups) = real_of_int (gu_TipCount (last ups) - gu_TipCount q) * k"
proof -
  have "sorted_wrt (gauge_next k) (q # arrived)"
    using assms(1,2) by (intro sorted_wrt_subseq [of "q # arrived" "q # ups"]) auto
  moreover have "ups \<noteq> []" using assms(2,3) by auto
  ultimately show ?thesis using derive_total [OF assms(1)] derive_total [of k q arrived] assms(3,4) by simp
qed

text \<open>
  Derived rows tile time. For uplinks in time order, resets and faults included, the derived rows
  follow one another without overlap between the first uplink's baseline and the last uplink, and no
  depth is negative.
\<close>

theorem derived_rows_tile:
  assumes "sorted_wrt (\<le>) (map gu_At (q # ups))"
    and "\<forall>u \<in> set ups. 0 \<le> gu_IntervalS u \<and> 0 \<le> gu_TipCount u \<and> 0 \<le> gu_MMPerTip u"
  shows "tiles (gu_At q) (DeriveGaugeRainfall (Some q) ups) (gu_At (last (q # ups)))
    \<and> (\<forall>r \<in> set (DeriveGaugeRainfall (Some q) ups). 0 \<le> rn_MM r)"
proof -
  have one: "\<forall>r \<in> set (deriveOne p u). 0 \<le> rn_MM r" if "0 \<le> gu_TipCount u" "0 \<le> gu_MMPerTip u" for p u
    using that by (auto simp: deriveOne_def baseline_def Let_def split: option.splits if_splits prod.splits)
  have "\<forall>r \<in> set (DeriveGaugeRainfall p us). 0 \<le> rn_MM r"
    if "\<forall>u \<in> set us. 0 \<le> gu_TipCount u \<and> 0 \<le> gu_MMPerTip u" for p us
    using that
  proof (induction us arbitrary: p)
    case (Cons u us)
    then show ?case using one [of u p] by auto
  qed simp
  then show ?thesis using assms derive_tiles_Some [OF assms(1)] by blast
qed

text \<open>
  C17: Reconciling makes the stored rainfall the derived rainfall. When it succeeds, the gauge's rows in
  the stretch it owns are exactly the derived ones, every other row is as before, and running it again
  changes nothing and reports no change.
\<close>

theorem reconcile_exact:
  assumes run: "reconcile fails now tbl dev from_ts to_ts rain = Inr (n, lo, hi, rain')"
    and ok: "uplinks_ok tbl" and le: "from_ts \<le> to_ts" and nofail: "fails = (\<lambda>_. None)"
    and mm: "\<forall>r \<in> set (derived_for tbl dev from_ts to_ts). 0 \<le> numeric2 (rn_MM r)"
  shows "(\<forall>s d t. rain_lookup rain' (s, d, t) =
      (if s = SourceGauge \<and> d = dev \<and> lo \<le> t \<and> t < hi then derived_lookup (derived_for tbl dev from_ts to_ts) t
       else rain_lookup rain (s, d, t)))
    \<and> reconcile fails now2 tbl dev from_ts to_ts rain' = Inr (0, lo, hi, rain')"
proof -
  let ?ds = "derived_for tbl dev from_ts to_ts"
  note res = reconcile_result [OF run ok le]
  have rows: "0 < rn_IntervalS r" "lo \<le> rn_Start r" "rn_Start r < hi" "depth_fits (rn_MM r)" if "r \<in> set ?ds" for r
    using res that by blast+
  have dist: "distinct (map rn_Start ?ds)" using res by blast
  have look: "rain_lookup rain' (s, d, t) =
      (if s = SourceGauge \<and> d = dev \<and> lo \<le> t \<and> t < hi then derived_lookup ?ds t else rain_lookup rain (s, d, t))" for s d t
    using res by simp
  have del: "DeleteRainfallExcept SourceGauge dev lo hi (map rn_Start ?ds) rain' = (rain', 0)"
    by (rule stale_none) (auto simp: look derived_lookup_def find_None_iff)
  have "upsert_all fails now2 dev ?ds rain' 0 = Inr (rain', 0)"
  proof (rule upsert_all_unchanged [OF nofail])
    fix r assume r: "r \<in> set ?ds"
    have "find (\<lambda>x. rn_Start x = rn_Start r) ?ds = Some r"
    proof -
      have "find (\<lambda>x. rn_Start x = rn_Start r) ?ds \<noteq> None" using r by (auto simp: find_None_iff)
      then obtain x where "find (\<lambda>x. rn_Start x = rn_Start r) ?ds = Some x" by blast
      moreover then have "x \<in> set ?ds" "rn_Start x = rn_Start r" by (auto simp: find_Some_iff)
      ultimately show ?thesis using r dist by (auto simp: distinct_map dest: inj_onD)
    qed
    then show "0 < rn_IntervalS r \<and> depth_fits (rn_MM r) \<and> 0 \<le> numeric2 (rn_MM r)
       \<and> rain_lookup rain' (SourceGauge, dev, rn_Start r) = Some (rn_IntervalS r, numeric2 (rn_MM r))"
      using rows [OF r] r mm by (simp add: look derived_lookup_def)
  qed
  then have "reconcile fails now2 tbl dev from_ts to_ts rain' = Inr (0, lo, hi, rain')"
    using res del by (simp add: reconcile_def nofail Let_def derived_for_def)
  then show ?thesis using look by blast
qed

section \<open>Witnesses\<close>

definition demo_up :: "int \<Rightarrow> int \<Rightarrow> int \<Rightarrow> gauge_row" where
  "demo_up at_ms tips interval = \<lparr>gr_DeviceID = ''g'', gr_Ts = at_ms * millisecond, gr_FCnt = at_ms, gr_TipCount = tips,
     gr_MmPerTip = 1/5, gr_IntervalS = interval, gr_CounterReset = False, gr_SensorFault = False,
     gr_InsertedAt = at_ms * millisecond\<rparr>"

abbreviation demo_gu :: "int \<Rightarrow> int \<Rightarrow> int \<Rightarrow> gauge_uplink" where
  "demo_gu a t i \<equiv> toGaugeUplink (demo_up a t i)"

theorem lost_uplinks_keep_rain_witness:
  "total_mm (DeriveGaugeRainfall (Some (demo_gu 0 0 300)) [demo_gu 600000 7 300]) =
   total_mm (DeriveGaugeRainfall (Some (demo_gu 0 0 300)) [demo_gu 300000 3 300, demo_gu 600000 7 300])"
  using lost_uplinks_keep_rain [of "1/5" "demo_gu 0 0 300" "[demo_gu 300000 3 300, demo_gu 600000 7 300]"
      "[demo_gu 600000 7 300]"]
  by (simp add: gauge_next_def toGaugeUplink_def demo_up_def go_time)

theorem derived_rows_tile_witness:
  "tiles 0 (DeriveGaugeRainfall (Some (demo_gu 0 0 300)) [demo_gu 300000 3 300]) (300 * second)"
  using derived_rows_tile [of "demo_gu 0 0 300" "[demo_gu 300000 3 300]"]
  by (simp add: toGaugeUplink_def demo_up_def go_time)

definition demo_ups :: "gauge_row list" where
  "demo_ups = [demo_up 0 0 300, demo_up 300000 3 300]"

theorem reconcile_exact_witness:
  "\<exists>n lo hi rain'. reconcile (\<lambda>_. None) 7 demo_ups ''g'' (300 * second) (300 * second) [] = Inr (n, lo, hi, rain')
     \<and> reconcile (\<lambda>_. None) 8 demo_ups ''g'' (300 * second) (300 * second) rain' = Inr (0, lo, hi, rain')"
proof -
  have mm: "numeric2 (3/5) = 3/5" by (simp add: numeric2_def)
  have ds: "derived_for demo_ups ''g'' (300 * second) (300 * second) =
      [\<lparr>rn_Start = 0, rn_IntervalS = 300, rn_MM = 3/5\<rparr>]"
    by (simp add: derived_for_def considered_def demo_ups_def demo_up_def toGaugeUplink_def RainGaugeUplinkBefore_def
        ListRainGaugeUplinks_def RainGaugeUplinkAfter_def deriveOne_def baseline_def go_time seconds_def go_div_def
        lossSlack_def TipWindow_def wrap32_def Let_def)
  obtain n lo hi rain' where run:
    "reconcile (\<lambda>_. None) 7 demo_ups ''g'' (300 * second) (300 * second) [] = Inr (n, lo, hi, rain')"
    using mm by (simp add: reconcile_def considered_def demo_ups_def demo_up_def toGaugeUplink_def
        RainGaugeUplinkBefore_def ListRainGaugeUplinks_def RainGaugeUplinkAfter_def deriveOne_def baseline_def go_time
        seconds_def go_div_def lossSlack_def TipWindow_def wrap32_def DeleteRainfallExcept_def UpsertRainfall_def depth_fits_def Let_def)
  have "uplinks_ok demo_ups" by (simp add: uplinks_ok_def demo_ups_def demo_up_def)
  then show ?thesis using run reconcile_exact [OF run _ order_refl refl, where ?now2.0 = 8] ds mm by simp
qed

section \<open>Where a reconciliation cannot succeed\<close>

text \<open>
  Two uplinks of one gauge five minutes and a fraction of a second apart, with a tip between them and no uplink lost:
  the dry row before the tips is cut to zero seconds.
\<close>

definition fraction_gap :: "gauge_row \<Rightarrow> gauge_row \<Rightarrow> bool" where
  "fraction_gap p u \<longleftrightarrow> gr_Ts p + TipWindow < gr_Ts u \<and> gr_Ts u < gr_Ts p + TipWindow + second \<and> gr_TipCount p < gr_TipCount u
     \<and> \<not> gr_CounterReset u \<and> \<not> gr_SensorFault u \<and> gr_Ts u - gr_IntervalS u * second - gr_Ts p \<le> lossSlack"

lemma fraction_gap_row:
  assumes "fraction_gap p u"
  shows "\<exists>r \<in> set (deriveOne (Some (toGaugeUplink p)) (toGaugeUplink u)). rn_IntervalS r = 0"
proof -
  have zero: "seconds (gr_Ts u - TipWindow - gr_Ts p) = 0"
    using assms by (simp add: fraction_gap_def seconds_def go_div_def wrap32_def second_def)
  have "deriveOne (Some (toGaugeUplink p)) (toGaugeUplink u) =
     [\<lparr>rn_Start = gr_Ts p, rn_IntervalS = seconds (gr_Ts u - TipWindow - gr_Ts p), rn_MM = 0\<rparr>,
      \<lparr>rn_Start = gr_Ts u - TipWindow, rn_IntervalS = seconds TipWindow,
       rn_MM = real_of_int (gr_TipCount u - gr_TipCount p) * gr_MmPerTip u\<rparr>]"
    using assms by (simp add: deriveOne_def baseline_def toGaugeUplink_def fraction_gap_def TipWindow_def go_time Let_def)
  then show ?thesis using zero by simp
qed

text \<open>No table takes a row of no seconds.\<close>

lemma upsert_all_refuses:
  "r \<in> set rs \<Longrightarrow> rn_IntervalS r = 0 \<Longrightarrow> \<exists>e. upsert_all fails now dev rs tbl written = Inl e"
proof (induction rs arbitrary: tbl written)
  case (Cons x rs)
  then show ?case
    by (cases "x = r") (auto simp: UpsertRainfall_def Let_def split: option.splits sum.splits prod.splits if_splits)
qed simp

lemma derive_pair: "set (deriveOne (if as = [] then prev else Some (last as)) u) \<subseteq> set (DeriveGaugeRainfall prev (as @ u # bs))"
proof (induction as arbitrary: prev)
  case (Cons a as)
  show ?case using Cons.IH [of "Some a"] by auto
qed auto

lemma span_covers:
  assumes "u \<in> set rows" and "gr_DeviceID u = dev"
  shows "fst (span_of rows dev) \<le> gr_Ts u \<and> gr_Ts u \<le> snd (span_of rows dev)"
proof -
  let ?ts = "map gr_Ts (filter (\<lambda>r. gr_DeviceID r = dev) rows)"
  have mem: "gr_Ts u \<in> set ?ts" using assms by auto
  have bounds: "fold min xs a \<le> x \<and> x \<le> fold max xs b" if "x \<in> set xs \<or> (a \<le> x \<and> x \<le> b)" for xs and x a b :: instant
    using that
  proof (induction xs arbitrary: a b)
    case (Cons y ys)
    then have "x \<in> set ys \<or> (min y a \<le> x \<and> x \<le> max y b)" by (auto simp: min_le_iff_disj le_max_iff_disj)
    from Cons.IH [OF this] show ?case by simp
  qed simp
  have "gr_Ts u \<in> set (tl ?ts) \<or> gr_Ts u = hd ?ts" using mem by (cases ?ts) auto
  then have "gr_Ts u \<in> set (tl ?ts) \<or> (hd ?ts \<le> gr_Ts u \<and> gr_Ts u \<le> hd ?ts)" by auto
  from bounds [OF this] show ?thesis by (simp add: span_of_def Let_def)
qed

text \<open>The uplink a reconciliation sets before \<open>u\<close> is \<open>p\<close>, when the device has none between them.\<close>

definition adjacent :: "gauge_row list \<Rightarrow> gauge_row \<Rightarrow> gauge_row \<Rightarrow> bool" where
  "adjacent tbl p u \<longleftrightarrow> p \<in> set tbl \<and> u \<in> set tbl \<and> gr_DeviceID p = gr_DeviceID u \<and> gr_Ts p < gr_Ts u
     \<and> (\<forall>x \<in> set tbl. gr_DeviceID x = gr_DeviceID u \<longrightarrow> x = p \<or> x = u \<or> gr_Ts x < gr_Ts p \<or> gr_Ts u < gr_Ts x)"

lemma before_adjacent:
  assumes "adjacent tbl p u" and "gr_Ts p < from_ts" and "from_ts \<le> gr_Ts u"
  shows "RainGaugeUplinkBefore tbl (gr_DeviceID u) from_ts = Some p"
proof -
  let ?xs = "sort_key (\<lambda>r. (- gr_Ts r, - gr_FCnt r)) (filter (\<lambda>r. gr_DeviceID r = gr_DeviceID u \<and> gr_Ts r < from_ts) tbl)"
  have p: "p \<in> set ?xs" using assms(1,2) by (simp add: adjacent_def)
  then obtain y ys where xs: "?xs = y # ys" by (cases ?xs) auto
  have "sorted (map (\<lambda>r. (- gr_Ts r, - gr_FCnt r)) ?xs)" by (rule sorted_sort_key)
  then have "gr_Ts p \<le> gr_Ts y" using p unfolding xs by (auto simp: less_eq_prod_def)
  moreover have "y \<in> set ?xs" unfolding xs by simp
  then have "y \<in> set tbl" "gr_DeviceID y = gr_DeviceID u" "gr_Ts y < from_ts" by simp_all
  ultimately have "y = p" using assms unfolding adjacent_def by fastforce
  then show ?thesis using xs by (simp add: RainGaugeUplinkBefore_def)
qed

lemma considered_adjacent:
  assumes adj: "adjacent tbl p u" and "from_ts \<le> gr_Ts u" "gr_Ts u \<le> to_ts"
  obtains as bs where "considered tbl (gr_DeviceID u) from_ts to_ts = as @ toGaugeUplink u # bs"
    and "(if as = [] then map_option toGaugeUplink (RainGaugeUplinkBefore tbl (gr_DeviceID u) from_ts) else Some (last as)) = Some (toGaugeUplink p)"
proof -
  let ?xs = "ListRainGaugeUplinks tbl (gr_DeviceID u) from_ts to_ts"
  have mem: "x \<in> set ?xs \<longleftrightarrow> x \<in> set tbl \<and> gr_DeviceID x = gr_DeviceID u \<and> from_ts \<le> gr_Ts x \<and> gr_Ts x \<le> to_ts" for x
    by (simp add: ListRainGaugeUplinks_def)
  have "u \<in> set ?xs" using adj assms(2,3) by (simp add: mem adjacent_def)
  then obtain as bs where xs: "?xs = as @ u # bs" and new: "u \<notin> set as" by (metis split_list_first)
  have "sorted (map (\<lambda>r. (gr_Ts r, gr_FCnt r)) ?xs)" unfolding ListRainGaugeUplinks_def by (rule sorted_sort_key)
  then have sorted: "\<forall>x \<in> set as. gr_Ts x \<le> gr_Ts u" "\<forall>x \<in> set bs. gr_Ts u \<le> gr_Ts x" "sorted (map gr_Ts as)"
    unfolding xs using sorted_pairs [of gr_Ts gr_FCnt as] by (auto simp: sorted_append less_eq_prod_def)
  have p_as: "p \<in> set as" if "from_ts \<le> gr_Ts p"
  proof -
    have "p \<in> set (as @ u # bs)" using adj that assms(3) unfolding xs [symmetric] mem adjacent_def by auto
    then show ?thesis using sorted(2) adj unfolding adjacent_def by fastforce
  qed
  have others: "x = p \<or> gr_Ts x < gr_Ts p" if "x \<in> set as" for x
  proof -
    have "x \<in> set ?xs" using that unfolding xs by simp
    then show ?thesis using adj sorted(1) new that unfolding mem adjacent_def by fastforce
  qed
  have "(if as = [] then RainGaugeUplinkBefore tbl (gr_DeviceID u) from_ts else Some (last as)) = Some p"
  proof (cases "as = []")
    case True
    then have "gr_Ts p < from_ts" using p_as by fastforce
    then show ?thesis using True before_adjacent [OF adj _ assms(2)] by simp
  next
    case False
    have "last as \<in> set ?xs" using False unfolding xs by simp
    then have "from_ts \<le> gr_Ts p" using others [OF last_in_set [OF False]] unfolding mem by auto
    then have "p \<in> set as" by (rule p_as)
    then have "gr_Ts p \<le> gr_Ts (last as)"
      using sorted(3) False by (cases as rule: rev_cases) (auto simp: sorted_append)
    then show ?thesis using others [OF last_in_set [OF False]] False by auto
  qed
  then have "(if map toGaugeUplink as = [] then map_option toGaugeUplink (RainGaugeUplinkBefore tbl (gr_DeviceID u) from_ts)
      else Some (last (map toGaugeUplink as))) = Some (toGaugeUplink p)"
    by (auto simp: last_map split: if_splits)
  then show thesis
    using that [of "map toGaugeUplink as"] xs by (auto simp: considered_def)
qed

lemma reconcile_all_refuses:
  assumes "\<And>rain. \<exists>e. reconcile fails now tbl dev (fst (span_of rows dev)) (snd (span_of rows dev)) rain = Inl e"
  shows "dev \<in> set devs \<Longrightarrow> \<exists>e. reconcile_all fails now tbl rows devs (rain, rest) = Inl e"
proof (induction devs arbitrary: rain rest)
  case (Cons d devs)
  obtain e where "reconcile fails now tbl dev (fst (span_of rows dev)) (snd (span_of rows dev)) rain = Inl e" using assms by blast
  then show ?case using Cons by (cases rest) (auto split: sum.splits prod.splits)
qed simp

text \<open>
  C29: A gap of five minutes and a fraction stops the gauge stage. If the uplink table holds, for one gauge, two neighbouring
  uplinks between 300 and 301 seconds apart with a tip between them, the handler fails on every batch that has
  the later one, whatever rainfall is stored, whatever else is in the batch or the table, and however often it is
  tried: the dry row of zero seconds is one the rainfall table refuses.
\<close>

theorem zero_length_dry_row_blocks:
  assumes "adjacent (gd_uplinks db) p u" and "fraction_gap p u" and "u \<in> set rows"
  shows "\<exists>e. gauge_Handle fails now rows db = Inl e"
proof -
  let ?dev = "gr_DeviceID u" and ?tbl = "gd_uplinks db"
  let ?from = "fst (span_of rows ?dev)" and ?to = "snd (span_of rows ?dev)"
  let ?prev = "map_option toGaugeUplink (RainGaugeUplinkBefore ?tbl ?dev ?from)" and ?ups = "considered ?tbl ?dev ?from ?to"
  have span: "?from \<le> gr_Ts u" "gr_Ts u \<le> ?to" using span_covers [OF assms(3) refl] by simp_all
  obtain as bs where ups: "?ups = as @ toGaugeUplink u # bs" "(if as = [] then ?prev else Some (last as)) = Some (toGaugeUplink p)"
    using considered_adjacent [OF assms(1) span] by metis
  obtain r where r: "r \<in> set (DeriveGaugeRainfall ?prev ?ups)" "rn_IntervalS r = 0"
    using derive_pair [of as ?prev "toGaugeUplink u" bs] fraction_gap_row [OF assms(2)] unfolding ups by blast
  have "\<exists>e. reconcile fails now ?tbl ?dev ?from ?to rain = Inl e" for rain
  proof -
    have up: "\<exists>e. upsert_all fails now ?dev (DeriveGaugeRainfall ?prev ?ups) tbl 0 = Inl e" for tbl
      using upsert_all_refuses [OF r] .
    obtain e where "upsert_all fails now ?dev (DeriveGaugeRainfall ?prev ?ups) (fst (DeleteRainfallExcept SourceGauge ?dev
        (owned_from ?prev ?ups (DeriveGaugeRainfall ?prev ?ups)) (gu_At (last ?ups)) (map rn_Start (DeriveGaugeRainfall ?prev ?ups)) rain)) 0 = Inl e"
      using up by blast
    then show ?thesis unfolding reconcile_def Let_def by (auto split: option.splits prod.splits)
  qed
  moreover have "?dev \<in> set (sort (remdups (map gr_DeviceID rows)))" using assms(3) by simp
  ultimately obtain e where
    "reconcile_all fails now ?tbl rows (sort (remdups (map gr_DeviceID rows))) (gd_rain db, 0, zero_time, zero_time) = Inl e"
    using reconcile_all_refuses by meson
  then show ?thesis by (simp add: gauge_Handle_def)
qed

theorem zero_length_dry_row_blocks_witness:
  "\<exists>e. gauge_Handle (\<lambda>_. None) 7 [demo_up 300500 1 300]
     \<lparr>gd_uplinks = [demo_up 0 0 300, demo_up 300500 1 300, demo_up 900000 1 300], gd_rain = [], gd_notes = []\<rparr> = Inl e"
  by (rule zero_length_dry_row_blocks [of _ "demo_up 0 0 300" "demo_up 300500 1 300"])
    (simp_all add: adjacent_def fraction_gap_def demo_up_def TipWindow_def lossSlack_def go_time)

end
