(* ===== verification/Rain.thy ===== *)
theory Rain
  imports Hydrology "HOL-Library.AList"
begin

text \<open>
  The rain and storm arithmetic of \<^verbatim>\<open>internal/hydrology/storm.go\<close>: rain intervals, merging several
  stations onto a grid of bins, grouping the merged series into storms, and the prorated sum of rain
  between two instants. A Go map keyed by bin is an association list with distinct keys; the loops that
  accumulate into one are \<open>tally_all\<close>. The theorems say which bins the merge produces and with what
  depth, that merging one station conserves its depth, and which groups of wet intervals become storms.
\<close>

section \<open>Thresholds and intervals\<close>

definition StormMinTotalMM :: real where "StormMinTotalMM = 5"
definition StormMaxGap :: duration where "StormMaxGap = 6 * hour"
definition OnsetMinIntensity :: real where "OnsetMinIntensity = 1"
definition RainBin :: duration where "RainBin = 5 * minute"
definition rainEpsilonMM :: real where "rainEpsilonMM = 1 / 10 ^ 9"
definition intensityTolerance :: real where "intensityTolerance = 1 / 10 ^ 9"

record rain_interval =
  ri_Start :: instant
  ri_Dur :: duration
  ri_MM :: real

definition ri_End :: "rain_interval \<Rightarrow> instant" where
  "ri_End r = ri_Start r + ri_Dur r"

definition hours_of :: "duration \<Rightarrow> real" where
  "hours_of d = real_of_int d / real_of_int hour"

definition IntensityMMH :: "rain_interval \<Rightarrow> real" where
  "IntensityMMH r = (if ri_Dur r \<le> 0 then 0 else ri_MM r / hours_of (ri_Dur r))"

definition Wet :: "rain_interval \<Rightarrow> bool" where
  "Wet r \<longleftrightarrow> ri_MM r > rainEpsilonMM"

definition floorDiv :: "int \<Rightarrow> int \<Rightarrow> int" where
  "floorDiv a b = (let q = go_div a b; rem = a - q * b
     in if rem \<noteq> 0 \<and> (a < 0) \<noteq> (b < 0) then q - 1 else q)"

definition minTime :: "instant \<Rightarrow> instant \<Rightarrow> instant" where
  "minTime a b = (if a < b then a else b)"

definition maxTime :: "instant \<Rightarrow> instant \<Rightarrow> instant" where
  "maxTime a b = (if a > b then a else b)"

section \<open>Maps the loops accumulate into\<close>

text \<open>One more value for key \<open>k\<close>: stored when the key is new, combined with what is there otherwise.\<close>

definition tally :: "('v \<Rightarrow> 'v \<Rightarrow> 'v) \<Rightarrow> 'k \<Rightarrow> 'v \<Rightarrow> ('k \<times> 'v) list \<Rightarrow> ('k \<times> 'v) list" where
  "tally comb k v al = AList.map_default k v (\<lambda>old. comb old v) al"

definition tally_all :: "('v \<Rightarrow> 'v \<Rightarrow> 'v) \<Rightarrow> ('k \<times> 'v) list \<Rightarrow> ('k \<times> 'v) list" where
  "tally_all comb kvs = foldl (\<lambda>al (k, v). tally comb k v al) [] kvs"

section \<open>Merging stations\<close>

definition bin_overlap :: "duration \<Rightarrow> rain_interval \<Rightarrow> int \<Rightarrow> duration" where
  "bin_overlap bin r b = minTime (b * bin + bin) (ri_End r) - maxTime (b * bin) (ri_Start r)"

text \<open>What one interval adds to each bin it overlaps.\<close>

definition contributions :: "duration \<Rightarrow> rain_interval \<Rightarrow> (int \<times> real) list" where
  "contributions bin r =
     (if ri_Dur r \<le> 0 then []
      else let first = floorDiv (ri_Start r) bin; last' = floorDiv (ri_End r - 1) bin
        in [(b, ri_MM r * real_of_int (bin_overlap bin r b) / real_of_int (ri_Dur r)).
              b \<leftarrow> [first..last'], \<not> bin_overlap bin r b \<le> 0])"

definition station_bins :: "duration \<Rightarrow> rain_interval list \<Rightarrow> (int \<times> real) list" where
  "station_bins bin st = tally_all (+) (concat (map (contributions bin) st))"

text \<open>The accumulator of a bin: the depths of its stations and their number.\<close>

type_synonym acc = "real \<times> nat"

definition add_station :: "acc \<Rightarrow> acc \<Rightarrow> acc" where
  "add_station a x = (fst a + fst x, snd a + snd x)"

definition merged_bins :: "duration \<Rightarrow> rain_interval list list \<Rightarrow> (int \<times> acc) list" where
  "merged_bins bin stations =
     tally_all add_station (concat (map (\<lambda>st. map (\<lambda>(b, mm). (b, (mm, 1))) (station_bins bin st)) stations))"

definition MergeRain :: "rain_interval list list \<Rightarrow> duration \<Rightarrow> rain_interval list" where
  "MergeRain stations bin0 =
     (let bin = (if bin0 \<le> 0 then RainBin else bin0);
          bins = merged_bins bin stations;
          keys = sort (map fst bins)
      in map (\<lambda>k. case map_of bins k of
            Some (mm, n) \<Rightarrow> \<lparr>ri_Start = k * bin, ri_Dur = bin, ri_MM = mm / real n\<rparr>
          | None \<Rightarrow> \<lparr>ri_Start = k * bin, ri_Dur = bin, ri_MM = 0\<rparr>) keys)"

section \<open>Storms\<close>

record storm =
  st_FirstRain :: instant
  st_Onset :: instant
  st_RainEnd :: instant
  st_TotalMM :: real
  st_PeakMMH :: real
  st_Closed :: bool

text \<open>The loop state of \<^verbatim>\<open>SegmentStorms\<close>: storms reported, the current one, whether its onset is found.\<close>

type_synonym segment_state = "storm list \<times> storm option \<times> bool"

definition flush :: "storm list \<Rightarrow> storm option \<Rightarrow> storm list" where
  "flush out cur = (case cur of
     Some s \<Rightarrow> if st_TotalMM s + rainEpsilonMM \<ge> StormMinTotalMM then out @ [s] else out
   | None \<Rightarrow> out)"

definition segment_step :: "segment_state \<Rightarrow> rain_interval \<Rightarrow> segment_state" where
  "segment_step = (\<lambda>(out, cur, onsetFound) r.
     if \<not> Wet r then (out, cur, onsetFound)
     else
       let (out, cur) = (case cur of
             Some s \<Rightarrow> if ri_Start r - st_RainEnd s \<ge> StormMaxGap
                       then (flush out (Some (s\<lparr>st_Closed := True\<rparr>)), None) else (out, cur)
           | None \<Rightarrow> (out, cur));
           (s, onsetFound) = (case cur of
             None \<Rightarrow> (\<lparr>st_FirstRain = ri_Start r, st_Onset = ri_Start r, st_RainEnd = zero_time,
                        st_TotalMM = 0, st_PeakMMH = 0, st_Closed = False\<rparr>, False)
           | Some s \<Rightarrow> (s, onsetFound));
           intensity = IntensityMMH r;
           (s, onsetFound) = (if \<not> onsetFound \<and> intensity + intensityTolerance \<ge> OnsetMinIntensity
                              then (s\<lparr>st_Onset := ri_Start r\<rparr>, True) else (s, onsetFound))
       in (out, Some (s\<lparr>st_RainEnd := maxTime (st_RainEnd s) (ri_End r),
                         st_TotalMM := st_TotalMM s + ri_MM r,
                         st_PeakMMH := max (st_PeakMMH s) intensity\<rparr>), onsetFound))"

definition SegmentStorms :: "rain_interval list \<Rightarrow> instant \<Rightarrow> storm list" where
  "SegmentStorms rain horizon =
     (let (out, cur, _) = foldl segment_step ([], None, False) rain
      in case cur of
           Some s \<Rightarrow> flush out (Some (s\<lparr>st_Closed := \<not> horizon < st_RainEnd s + StormMaxGap\<rparr>))
         | None \<Rightarrow> out)"

text \<open>One station interval's part in a storm's onset and end; the zero time stands for not found yet.\<close>

definition refine_step :: "instant \<Rightarrow> instant \<Rightarrow> instant \<times> instant \<Rightarrow> rain_interval \<Rightarrow> instant \<times> instant" where
  "refine_step from_ts to_ts = (\<lambda>(onset, end_ts) r.
     if \<not> Wet r \<or> \<not> ri_End r > from_ts \<or> \<not> ri_Start r < to_ts then (onset, end_ts)
     else (if IntensityMMH r + intensityTolerance \<ge> OnsetMinIntensity \<and> (is_zero onset \<or> ri_Start r < onset)
           then ri_Start r else onset,
           maxTime end_ts (ri_End r)))"

definition refine_storm :: "rain_interval list list \<Rightarrow> storm \<Rightarrow> storm" where
  "refine_storm stations s =
     (let from_ts = st_FirstRain s - RainBin; to_ts = st_RainEnd s + RainBin;
          (onset, end_ts) = foldl (refine_step from_ts to_ts) (zero_time, zero_time) (concat stations);
          s1 = (if is_zero onset then s
                else s\<lparr>st_Onset := onset, st_FirstRain := minTime (st_FirstRain s) onset\<rparr>)
      in if is_zero end_ts then s1 else s1\<lparr>st_RainEnd := end_ts\<rparr>)"

definition FindStorms :: "rain_interval list list \<Rightarrow> instant \<Rightarrow> storm list" where
  "FindStorms stations horizon = map (refine_storm stations) (SegmentStorms (MergeRain stations RainBin) horizon)"

definition rain_overlap :: "instant \<Rightarrow> instant \<Rightarrow> rain_interval \<Rightarrow> real" where
  "rain_overlap from_ts to_ts r =
     (let overlap = minTime to_ts (ri_End r) - maxTime from_ts (ri_Start r)
      in if overlap \<le> 0 \<or> ri_Dur r \<le> 0 then 0 else ri_MM r * real_of_int overlap / real_of_int (ri_Dur r))"

definition RainBetween :: "rain_interval list \<Rightarrow> instant \<Rightarrow> instant \<Rightarrow> real" where
  "RainBetween rain from_ts to_ts = foldl (\<lambda>mm r. mm + rain_overlap from_ts to_ts r) 0 rain"

definition SegmentLoad :: "real list \<Rightarrow> real" where
  "SegmentLoad volumesL = (if volumesL = [] then 0 else foldl (+) 0 volumesL / real (length volumesL))"

section \<open>Helper lemmas\<close>

lemma floorDiv_eq: "0 < b \<Longrightarrow> floorDiv a b = a div b"
proof (cases "0 \<le> a")
  case False
  assume b: "0 < b"
  have q: "go_div a b = (if a mod b = 0 then a div b else a div b + 1)"
    using False b by (simp add: go_div_def zdiv_zminus1_eq_if)
  have "a - (a div b + 1) * b = a mod b - b" by (simp add: algebra_simps minus_mult_div_eq_mod [symmetric])
  then have "a - (a div b + 1) * b \<noteq> 0" using pos_mod_bound [OF b, of a] by simp
  then show ?thesis using False b q by (cases "a mod b = 0") (simp_all add: floorDiv_def Let_def mod_eq_0_iff_dvd)
qed (simp add: floorDiv_def go_div_def Let_def)

lemma minTime_min [simp]: "minTime a b = min a b"
  by (simp add: minTime_def min_def)

lemma maxTime_max [simp]: "maxTime a b = max a b"
  by (simp add: maxTime_def max_def)

lemma RainBetween_sum: "RainBetween rain a b = sum_list (map (rain_overlap a b) rain)"
proof -
  have "foldl (\<lambda>mm r. mm + rain_overlap a b r) x rain = x + sum_list (map (rain_overlap a b) rain)" for x
    by (induction rain arbitrary: x) simp_all
  then show ?thesis by (simp add: RainBetween_def)
qed

text \<open>What a tallied key holds: the combination, in order, of the values given for it.\<close>

definition ocomb :: "('v \<Rightarrow> 'v \<Rightarrow> 'v) \<Rightarrow> 'v option \<Rightarrow> 'v \<Rightarrow> 'v option" where
  "ocomb comb o1 v = (case o1 of None \<Rightarrow> Some v | Some u \<Rightarrow> Some (comb u v))"

definition for_key :: "'k \<Rightarrow> ('k \<times> 'v) list \<Rightarrow> 'v list" where
  "for_key k kvs = map snd (filter (\<lambda>p. fst p = k) kvs)"

lemma for_key_simps [simp]:
  "for_key k [] = []"
  "for_key k ((k', v) # kvs) = (if k' = k then v # for_key k kvs else for_key k kvs)"
  "for_key k (xs @ ys) = for_key k xs @ for_key k ys"
  by (simp_all add: for_key_def)

lemma for_key_concat: "for_key k (concat xss) = concat (map (for_key k) xss)"
  by (induction xss) simp_all

lemma for_key_distinct: "distinct (map fst al) \<Longrightarrow> for_key k al = (case map_of al k of None \<Rightarrow> [] | Some v \<Rightarrow> [v])"
proof (induction al)
  case (Cons p al)
  have "map_of al (fst p) = None" using Cons.prems by (simp add: map_of_eq_None_iff)
  then show ?case using Cons by (cases p) (auto split: option.splits)
qed simp

lemma tally_all_lookup:
  "map_of (tally_all comb kvs) k = foldl (ocomb comb) None (for_key k kvs) \<and> distinct (map fst (tally_all comb kvs))
   \<and> fst ` set (tally_all comb kvs) = fst ` set kvs"
proof -
  have "map_of (foldl (\<lambda>al (k, v). tally comb k v al) al kvs) k = foldl (ocomb comb) (map_of al k) (for_key k kvs)
    \<and> (distinct (map fst al) \<longrightarrow> distinct (map fst (foldl (\<lambda>al (k, v). tally comb k v al) al kvs)))
    \<and> fst ` set (foldl (\<lambda>al (k, v). tally comb k v al) al kvs) = fst ` set al \<union> fst ` set kvs" for al
  proof (induction kvs arbitrary: al)
    case (Cons p kvs)
    obtain k' v where p: "p = (k', v)" by fastforce
    then show ?case using Cons.IH [of "tally comb k' v al"]
      by (auto simp: tally_def map_of_map_default dom_map_default distinct_map_default ocomb_def split: option.splits)
  qed simp
  then show ?thesis by (simp add: tally_all_def)
qed

lemma tally_real: "foldl (ocomb (+)) None xs = (if xs = [] then None else Some (sum_list xs :: real))"
proof -
  have "foldl (ocomb (+)) (Some y) ys = Some (y + sum_list ys)" for y :: real and ys
    by (induction ys arbitrary: y) (simp_all add: ocomb_def)
  then show ?thesis by (cases xs) (simp_all add: ocomb_def)
qed

lemma tally_acc:
  "foldl (ocomb add_station) None xs = (if xs = [] then None else Some (sum_list (map fst xs), sum_list (map snd xs)))"
proof -
  have "foldl (ocomb add_station) (Some y) ys = Some (fst y + sum_list (map fst ys), snd y + sum_list (map snd ys))" for y ys
    by (induction ys arbitrary: y) (simp_all add: ocomb_def add_station_def)
  then show ?thesis by (cases xs) (simp_all add: ocomb_def)
qed

lemma for_key_image:
  "distinct bs \<Longrightarrow> for_key b (concat (map (\<lambda>b. if P b then [(b, f b)] else []) bs)) = (if b \<in> set bs \<and> P b then [f b] else [])"
  by (induction bs) auto

lemma bin_overlap_range:
  assumes "0 < bin" and "0 < bin_overlap bin r b"
  shows "b \<in> {ri_Start r div bin..(ri_End r - 1) div bin}"
proof -
  have "b * bin \<le> ri_End r - 1" and s: "ri_Start r < (b + 1) * bin"
    using assms by (auto simp: bin_overlap_def algebra_simps)
  then have "b \<le> (ri_End r - 1) div bin" using assms(1) by (metis nonzero_mult_div_cancel_right zdiv_mono1 less_irrefl)
  moreover have "ri_Start r div bin \<le> b"
  proof (rule ccontr)
    assume "\<not> ri_Start r div bin \<le> b"
    then have "(b + 1) * bin \<le> ri_Start r div bin * bin" using assms(1) by (intro mult_right_mono) auto
    also have "\<dots> \<le> ri_Start r" using pos_mod_sign [OF assms(1), of "ri_Start r"] div_mult_mod_eq [of "ri_Start r" bin] by linarith
    finally show False using s by simp
  qed
  ultimately show ?thesis by simp
qed

lemma for_key_contributions:
  assumes "0 < bin"
  shows "for_key b (contributions bin r) =
    (if 0 < bin_overlap bin r b \<and> 0 < ri_Dur r then [rain_overlap (b * bin) (b * bin + bin) r] else [])"
proof (cases "0 < ri_Dur r")
  case True
  let ?f = "\<lambda>b. ri_MM r * real_of_int (bin_overlap bin r b) / real_of_int (ri_Dur r)"
  have "contributions bin r = concat (map (\<lambda>b. if 0 < bin_overlap bin r b then [(b, ?f b)] else [])
      [ri_Start r div bin..(ri_End r - 1) div bin])"
    using True assms by (simp add: contributions_def floorDiv_eq Let_def not_le)
  then have "for_key b (contributions bin r) = (if 0 < bin_overlap bin r b then [?f b] else [])"
    using bin_overlap_range [OF assms, of r b] by (auto simp: for_key_image)
  moreover have "rain_overlap (b * bin) (b * bin + bin) r = ?f b" if "0 < bin_overlap bin r b"
    using that True unfolding rain_overlap_def bin_overlap_def Let_def by (subst if_not_P) auto
  ultimately show ?thesis using True by simp
qed (simp add: contributions_def)

text \<open>A station covers a bin when one of its intervals overlaps it.\<close>

definition covers :: "duration \<Rightarrow> rain_interval list \<Rightarrow> int \<Rightarrow> bool" where
  "covers bin st b \<longleftrightarrow> (\<exists>r \<in> set st. 0 < ri_Dur r \<and> ri_Start r < b * bin + bin \<and> b * bin < ri_End r)"

lemma station_bins_lookup:
  assumes "0 < bin"
  shows "map_of (station_bins bin st) b = (if covers bin st b then Some (RainBetween st (b * bin) (b * bin + bin)) else None)"
proof -
  let ?ov = "\<lambda>r. 0 < bin_overlap bin r b \<and> 0 < ri_Dur r"
  have vals: "for_key b (concat (map (contributions bin) st)) = map (rain_overlap (b * bin) (b * bin + bin)) (filter ?ov st)"
    by (induction st) (simp_all add: for_key_contributions [OF assms])
  have "sum_list (map (rain_overlap (b * bin) (b * bin + bin)) (filter ?ov st)) = RainBetween st (b * bin) (b * bin + bin)"
    unfolding RainBetween_sum
    by (rule sum_list_map_filter) (auto simp: rain_overlap_def bin_overlap_def Let_def)
  moreover have "filter ?ov st = [] \<longleftrightarrow> \<not> covers bin st b"
    using assms by (auto simp: filter_empty_conv covers_def bin_overlap_def ri_End_def)
  ultimately show ?thesis
    using tally_all_lookup [of "(+)" "concat (map (contributions bin) st)" b] by (auto simp: station_bins_def vals tally_real)
qed

lemma station_bins_distinct: "distinct (map fst (station_bins bin st))"
  by (simp add: station_bins_def tally_all_lookup)

definition bin_depth :: "rain_interval list list \<Rightarrow> duration \<Rightarrow> int \<Rightarrow> real" where
  "bin_depth stations bin b = (\<Sum>st \<leftarrow> stations. RainBetween st (b * bin) (b * bin + bin))
     / real (length (filter (\<lambda>st. covers bin st b) stations))"

lemma merged_bins_lookup:
  assumes "0 < bin"
  shows "map_of (merged_bins bin stations) b =
    (if \<exists>st \<in> set stations. covers bin st b
     then Some (\<Sum>st \<leftarrow> stations. RainBetween st (b * bin) (b * bin + bin), length (filter (\<lambda>st. covers bin st b) stations))
     else None)"
proof -
  let ?in = "\<lambda>st. map (\<lambda>(b, mm). (b, (mm, 1 :: nat))) (station_bins bin st)"
  let ?d = "\<lambda>st. RainBetween st (b * bin) (b * bin + bin)"
  have one: "for_key b (?in st) = (if covers bin st b then [(?d st, 1)] else [])" for st
  proof -
    have "for_key b (map (\<lambda>(b, mm). (b, (mm, 1 :: nat))) al) = map (\<lambda>mm. (mm, 1)) (for_key b al)" for al :: "(int \<times> real) list"
      by (induction al) auto
    then show ?thesis
      using for_key_distinct [OF station_bins_distinct, of b bin st] by (simp add: station_bins_lookup [OF assms])
  qed
  have vals: "for_key b (concat (map ?in stations)) = map (\<lambda>st. (?d st, 1)) (filter (\<lambda>st. covers bin st b) stations)"
    by (induction stations) (simp_all add: one del: One_nat_def)
  have "sum_list (map ?d (filter (\<lambda>st. covers bin st b) stations)) = sum_list (map ?d stations)"
  proof (rule sum_list_map_filter)
    fix st assume "st \<in> set stations" and no: "\<not> covers bin st b"
    have "rain_overlap (b * bin) (b * bin + bin) r = 0" if "r \<in> set st" for r
      using that no assms by (force simp: rain_overlap_def covers_def Let_def)
    then show "?d st = 0" unfolding RainBetween_sum by (simp cong: map_cong)
  qed
  then show ?thesis unfolding merged_bins_def conjunct1 [OF tally_all_lookup] vals tally_acc
    by (auto simp: comp_def filter_empty_conv sum_list_triv)
qed

lemma MergeRain_bins:
  assumes "0 < bin"
  shows "\<exists>bs. sorted_wrt (<) bs \<and> set bs = {b. \<exists>st \<in> set stations. covers bin st b}
    \<and> MergeRain stations bin = map (\<lambda>b. \<lparr>ri_Start = b * bin, ri_Dur = bin, ri_MM = bin_depth stations bin b\<rparr>) bs"
proof (intro exI conjI)
  let ?bins = "merged_bins bin stations"
  let ?bs = "sort (map fst ?bins)"
  have "distinct (map fst ?bins)" by (simp add: merged_bins_def tally_all_lookup)
  then show "sorted_wrt (<) ?bs" by (simp add: strict_sorted_iff)
  have mem: "b \<in> fst ` set ?bins \<longleftrightarrow> (\<exists>st \<in> set stations. covers bin st b)" for b
    using map_of_eq_None_iff [of ?bins b] by (auto simp: merged_bins_lookup [OF assms] split: if_splits)
  then show "set ?bs = {b. \<exists>st \<in> set stations. covers bin st b}" by auto
  show "MergeRain stations bin = map (\<lambda>b. \<lparr>ri_Start = b * bin, ri_Dur = bin, ri_MM = bin_depth stations bin b\<rparr>) ?bs"
    using assms mem by (auto simp: MergeRain_def Let_def merged_bins_lookup [OF assms] bin_depth_def)
qed

text \<open>The part of an interval up to an instant, which telescopes over the bins.\<close>

lemma overlap_telescopes:
  fixes a b s e :: int
  assumes "a \<le> b" and "s \<le> e"
  shows "max 0 (min b e - max a s) = min (max b s) e - min (max a s) e"
  using assms by (auto simp: min_def max_def)

lemma sum_overlap:
  fixes s e bin :: int
  assumes "0 < bin" and "s \<le> e" and "f \<le> l"
  shows "(\<Sum>b = f..l. max 0 (min (b * bin + bin) e - max (b * bin) s)) =
    min (max ((l + 1) * bin) s) e - min (max (f * bin) s) e"
  using assms(3)
proof (induction l rule: int_ge_induct)
  case base
  then show ?case using overlap_telescopes [OF _ assms(2), of "f * bin" "f * bin + bin"] assms(1)
    by (simp add: algebra_simps)
next
  case (step l)
  have "{f..l + 1} = insert (l + 1) {f..l}" using step by auto
  then show ?case using step overlap_telescopes [OF _ assms(2), of "(l + 1) * bin" "(l + 1) * bin + bin"] assms(1)
    by (simp add: algebra_simps)
qed

lemma rain_overlap_max:
  "0 < ri_Dur r \<Longrightarrow> rain_overlap a b r = ri_MM r * real_of_int (max 0 (min b (ri_End r) - max a (ri_Start r))) / real_of_int (ri_Dur r)"
  by (auto simp: rain_overlap_def Let_def max_def)

lemma sum_rain_overlap:
  assumes bin: "0 < bin" and r: "0 < ri_Dur r" and fin: "finite B"
    and cov: "{b. ri_Start r < b * bin + bin \<and> b * bin < ri_End r} \<subseteq> B"
  shows "(\<Sum>b \<in> B. rain_overlap (b * bin) (b * bin + bin) r) = ri_MM r"
proof -
  let ?f = "ri_Start r div bin" and ?l = "(ri_End r - 1) div bin"
  let ?ov = "\<lambda>b. max 0 (min (b * bin + bin) (ri_End r) - max (b * bin) (ri_Start r))"
  have se: "ri_Start r \<le> ri_End r - 1" using r by (simp add: ri_End_def)
  have fb: "?f * bin \<le> ri_Start r" "ri_Start r < (?f + 1) * bin"
    and lb: "?l * bin \<le> ri_End r - 1" "ri_End r - 1 < (?l + 1) * bin"
    using pos_mod_sign [OF bin] pos_mod_bound [OF bin] div_mult_mod_eq [of "ri_Start r" bin]
      div_mult_mod_eq [of "ri_End r - 1" bin] unfolding distrib_right mult_1 by smt+
  have zero: "?ov b = 0" if "b \<notin> {?f..?l}" for b
    using bin_overlap_range [OF bin, of r b] that by (force simp: bin_overlap_def)
  have "(\<Sum>b \<in> B. ?ov b) = (\<Sum>b \<in> {?f..?l}. ?ov b)"
  proof (rule sum.mono_neutral_cong)
    fix b assume "b \<in> {?f..?l} - B"
    then show "?ov b = 0" using cov by force
  qed (use fin zero in auto)
  also have "\<dots> = ri_End r - ri_Start r"
    using sum_overlap [OF bin, of "ri_Start r" "ri_End r" ?f ?l] se fb lb zdiv_mono1 [OF se bin] by simp
  also have "\<dots> = ri_Dur r" by (simp add: ri_End_def)
  finally have "(\<Sum>b \<in> B. real_of_int (?ov b)) = real_of_int (ri_Dur r)" by (metis of_int_sum)
  then have "(\<Sum>b \<in> B. ri_MM r * real_of_int (?ov b) / real_of_int (ri_Dur r)) = ri_MM r"
    using r unfolding sum_divide_distrib [symmetric] sum_distrib_left [symmetric] by simp
  then show ?thesis by (simp add: rain_overlap_max [OF r])
qed

section \<open>Groups of wet intervals\<close>

text \<open>
  What a storm is made of: its wet intervals in order. \<open>split_groups g rs\<close> splits the rest of a series
  after the current group \<open>g\<close> wherever the dry gap reaches the limit.
\<close>

fun split_groups :: "rain_interval list \<Rightarrow> rain_interval list \<Rightarrow> rain_interval list list" where
  "split_groups g [] = [g]"
| "split_groups g (r # rs) =
     (if ri_Start r - ri_End (last g) \<ge> StormMaxGap then g # split_groups [r] rs else split_groups (g @ [r]) rs)"

definition intense :: "rain_interval \<Rightarrow> bool" where
  "intense r \<longleftrightarrow> IntensityMMH r + intensityTolerance \<ge> OnsetMinIntensity"

definition storm_of :: "rain_interval list \<Rightarrow> bool \<Rightarrow> storm" where
  "storm_of g fin = \<lparr>st_FirstRain = ri_Start (hd g),
     st_Onset = (case find intense g of Some r \<Rightarrow> ri_Start r | None \<Rightarrow> ri_Start (hd g)),
     st_RainEnd = ri_End (last g),
     st_TotalMM = sum_list (map ri_MM g),
     st_PeakMMH = Max (insert 0 (set (map IntensityMMH g))),
     st_Closed = fin\<rparr>"

definition big :: "rain_interval list \<Rightarrow> bool" where
  "big g \<longleftrightarrow> StormMinTotalMM \<le> sum_list (map ri_MM g) + rainEpsilonMM"

text \<open>Sorted, non-overlapping intervals of positive length, none before year 1.\<close>

definition rain_series :: "rain_interval list \<Rightarrow> bool" where
  "rain_series rain \<longleftrightarrow> sorted_wrt (\<lambda>a b. ri_End a \<le> ri_Start b) rain
     \<and> (\<forall>r \<in> set rain. 0 < ri_Dur r \<and> zero_time \<le> ri_Start r)"

lemma storm_of_select [simp]:
  "st_RainEnd (storm_of g c) = ri_End (last g)" "st_TotalMM (storm_of g c) = sum_list (map ri_MM g)"
  "storm_of g c\<lparr>st_Closed := c'\<rparr> = storm_of g c'"
  by (simp_all add: storm_of_def)

lemma flush_storm_of: "flush out (Some (storm_of g c)) = out @ (if big g then [storm_of g c] else [])"
  by (simp add: flush_def big_def)

lemma storm_of_snoc:
  assumes "g \<noteq> []" and "ri_End (last g) \<le> ri_End r"
  shows "storm_of (g @ [r]) c = (storm_of g c)\<lparr>
     st_Onset := (if find intense g = None \<and> intense r then ri_Start r else st_Onset (storm_of g c)),
     st_RainEnd := max (ri_End (last g)) (ri_End r), st_TotalMM := sum_list (map ri_MM g) + ri_MM r,
     st_PeakMMH := max (st_PeakMMH (storm_of g c)) (IntensityMMH r)\<rparr>"
proof -
  have "find intense (g @ [r]) = (case find intense g of None \<Rightarrow> if intense r then Some r else None | Some x \<Rightarrow> Some x)"
    by (induction g) (simp_all split: option.splits)
  moreover have "Max (insert 0 (set (map IntensityMMH (g @ [r])))) = max (Max (insert 0 (set (map IntensityMMH g)))) (IntensityMMH r)"
  proof -
    have "insert 0 (set (map IntensityMMH (g @ [r]))) = insert (IntensityMMH r) (insert 0 (set (map IntensityMMH g)))" by auto
    then show ?thesis using Max_insert [of "insert 0 (set (map IntensityMMH g))" "IntensityMMH r"] by (simp add: max.commute)
  qed
  ultimately show ?thesis using assms
    by (auto simp: storm_of_def max_def split: option.splits)
qed

lemma storm_of_single: "zero_time \<le> ri_Start r \<Longrightarrow> 0 < ri_Dur r \<Longrightarrow> storm_of [r] False =
  \<lparr>st_FirstRain = ri_Start r, st_Onset = ri_Start r, st_RainEnd = max zero_time (ri_End r), st_TotalMM = 0 + ri_MM r,
   st_PeakMMH = max 0 (IntensityMMH r), st_Closed = False\<rparr>"
  by (auto simp: storm_of_def ri_End_def max_def)

lemma segment_first:
  "Wet r \<Longrightarrow> zero_time \<le> ri_Start r \<Longrightarrow> 0 < ri_Dur r \<Longrightarrow>
   segment_step (out, None, found) r = (out, Some (storm_of [r] False), intense r)"
  by (simp add: segment_step_def storm_of_single intense_def Let_def)

lemma segment_next:
  assumes "Wet r" and "g \<noteq> []" and "ri_End (last g) \<le> ri_Start r" and "zero_time \<le> ri_Start r" and "0 < ri_Dur r"
  shows "segment_step (out, Some (storm_of g False), find intense g \<noteq> None) r =
    (if ri_Start r - ri_End (last g) \<ge> StormMaxGap
     then (out @ (if big g then [storm_of g True] else []), Some (storm_of [r] False), find intense [r] \<noteq> None)
     else (out, Some (storm_of (g @ [r]) False), find intense (g @ [r]) \<noteq> None))"
proof (cases "ri_Start r - ri_End (last g) \<ge> StormMaxGap")
  case True
  then have "segment_step (out, Some (storm_of g False), find intense g \<noteq> None) r
      = segment_step (flush out (Some (storm_of g True)), None, find intense g \<noteq> None) r"
    using assms(1) by (simp add: segment_step_def)
  then show ?thesis using True assms by (simp add: segment_first flush_storm_of)
next
  case False
  have le: "ri_End (last g) \<le> ri_End r" using assms(3,5) by (simp add: ri_End_def)
  have f: "find intense (g @ [r]) \<noteq> None \<longleftrightarrow> find intense g \<noteq> None \<or> intense r"
    by (auto simp: find_None_iff)
  show ?thesis unfolding storm_of_snoc [OF assms(2) le] using False assms(1) f
    by (auto simp: segment_step_def intense_def Let_def)
qed

lemma rain_series_sub: "rain_series rain \<Longrightarrow> rain_series (filter P rain)"
  by (simp add: rain_series_def sorted_wrt_filter)

lemma rain_series_mid:
  "rain_series (g @ r # rs) \<Longrightarrow> g \<noteq> [] \<Longrightarrow> ri_End (last g) \<le> ri_Start r \<and> zero_time \<le> ri_Start r \<and> 0 < ri_Dur r"
  by (simp add: rain_series_def sorted_wrt_append)

lemma segment_filter: "foldl segment_step st rain = foldl segment_step st (filter Wet rain)"
  by (induction rain arbitrary: st) (simp_all add: segment_step_def split: prod.splits)

lemma split_groups_hd: "g \<noteq> [] \<Longrightarrow> split_groups g rs \<noteq> [] \<and> hd (hd (split_groups g rs)) = hd g"
  by (induction g rs rule: split_groups.induct) auto

lemma segment_fold:
  assumes "g \<noteq> []" and "rain_series (g @ rs)" and "\<forall>r \<in> set rs. Wet r"
  shows "\<exists>f. foldl segment_step (out, Some (storm_of g False), find intense g \<noteq> None) rs =
    (out @ map (\<lambda>g. storm_of g True) (filter big (butlast (split_groups g rs))),
     Some (storm_of (last (split_groups g rs)) False), f)"
  using assms
proof (induction g rs arbitrary: out rule: split_groups.induct)
  case (2 g r rs)
  note mid = rain_series_mid [OF 2(4) 2(3)]
  have wet: "Wet r" "\<forall>r \<in> set rs. Wet r" using 2(5) by simp_all
  have "rain_series ([r] @ rs)" using 2(4) by (simp add: rain_series_def sorted_wrt_append)
  moreover have "rain_series ((g @ [r]) @ rs)" using 2(4) by simp
  ultimately show ?case
    using 2(1) [of "out @ (if big g then [storm_of g True] else [])"] 2(2) [of out] wet
      split_groups_hd [of "[r]" rs] segment_next [of r g out] mid 2(3)
    by (cases "StormMaxGap \<le> ri_Start r - ri_End (last g)"; cases "big g")
      (simp_all del: not_None_eq find.simps)
qed simp

definition tight :: "rain_interval list \<Rightarrow> bool" where
  "tight g \<longleftrightarrow> g \<noteq> [] \<and> successively (\<lambda>a b. ri_Start b - ri_End a < StormMaxGap) g"

definition apart :: "rain_interval list \<Rightarrow> rain_interval list \<Rightarrow> bool" where
  "apart g h \<longleftrightarrow> StormMaxGap \<le> ri_Start (hd h) - ri_End (last g)"

lemma split_groups_spec:
  "tight g \<Longrightarrow> concat (split_groups g rs) = g @ rs \<and> (\<forall>h \<in> set (split_groups g rs). tight h)
     \<and> successively apart (split_groups g rs)"
proof (induction g rs rule: split_groups.induct)
  case (2 g r rs)
  have "tight [r]" by (simp add: tight_def)
  moreover have "successively apart (g # split_groups [r] rs)"
    if "StormMaxGap \<le> ri_Start r - ri_End (last g)" "successively apart (split_groups [r] rs)"
    using that split_groups_hd [of "[r]" rs] by (cases "split_groups [r] rs") (simp_all add: apart_def)
  moreover have "tight (g @ [r])" if "\<not> StormMaxGap \<le> ri_Start r - ri_End (last g)"
    using that 2(3) by (simp add: tight_def successively_append_iff)
  ultimately show ?case using 2 by auto
qed simp

lemma SegmentStorms_groups:
  assumes "rain_series rain" and wet: "filter Wet rain = r # rs"
  defines "gs \<equiv> split_groups [r] rs"
  shows "SegmentStorms rain horizon = map (\<lambda>g. storm_of g True) (filter big (butlast gs))
    @ (if big (last gs) then [storm_of (last gs) (ri_End (last (last gs)) + StormMaxGap \<le> horizon)] else [])"
proof -
  have ser: "rain_series ([r] @ rs)" using rain_series_sub [OF assms(1), of Wet] by (simp add: wet)
  have "set (r # rs) \<subseteq> {r. Wet r}" unfolding wet [symmetric] by auto
  then have wets: "Wet r" "\<forall>r \<in> set rs. Wet r" by auto
  have first: "segment_step ([], None, False) r = ([], Some (storm_of [r] False), find intense [r] \<noteq> None)"
    using wets ser by (simp add: segment_first rain_series_def)
  obtain f where "foldl segment_step ([], None, False) (r # rs) =
      (map (\<lambda>g. storm_of g True) (filter big (butlast gs)), Some (storm_of (last gs) False), f)"
    using segment_fold [of "[r]" rs "[]"] ser wets first unfolding gs_def by auto
  then show ?thesis
    by (simp add: SegmentStorms_def segment_filter [of _ rain] wet flush_storm_of not_less del: foldl_Cons)
qed

section \<open>Properties\<close>

text \<open>
  C18: Merging stations gives one interval per bin some station covers, in strictly increasing order, with
  the mean over exactly the stations that cover the bin of the rain each of them had in it. Merging a
  single station moves no rain: the depths add up to what the station reported.
\<close>

theorem merge_rain_spec:
  assumes "0 < bin"
  shows "(\<exists>bs. sorted_wrt (<) bs \<and> set bs = {b. \<exists>st \<in> set stations. covers bin st b}
      \<and> MergeRain stations bin = map (\<lambda>b. \<lparr>ri_Start = b * bin, ri_Dur = bin,
          ri_MM = (\<Sum>st \<leftarrow> stations. RainBetween st (b * bin) (b * bin + bin))
            / real (length (filter (\<lambda>st. covers bin st b) stations))\<rparr>) bs)
    \<and> sum_list (map ri_MM (MergeRain [st] bin)) = sum_list (map ri_MM (filter (\<lambda>r. 0 < ri_Dur r) st))"
proof
  show "\<exists>bs. sorted_wrt (<) bs \<and> set bs = {b. \<exists>st \<in> set stations. covers bin st b}
      \<and> MergeRain stations bin = map (\<lambda>b. \<lparr>ri_Start = b * bin, ri_Dur = bin,
          ri_MM = (\<Sum>st \<leftarrow> stations. RainBetween st (b * bin) (b * bin + bin))
            / real (length (filter (\<lambda>st. covers bin st b) stations))\<rparr>) bs"
    using MergeRain_bins [OF assms] unfolding bin_depth_def .
  obtain bs where bs: "sorted_wrt (<) bs" "set bs = {b. covers bin st b}"
    and m: "MergeRain [st] bin = map (\<lambda>b. \<lparr>ri_Start = b * bin, ri_Dur = bin, ri_MM = bin_depth [st] bin b\<rparr>) bs"
    using MergeRain_bins [OF assms, of "[st]"] by auto
  have "sum_list (map ri_MM (MergeRain [st] bin)) = (\<Sum>b \<leftarrow> bs. RainBetween st (b * bin) (b * bin + bin))"
    using bs(2) by (auto simp: m comp_def bin_depth_def intro!: arg_cong [where f = sum_list])
  also have "\<dots> = (\<Sum>b \<in> set bs. RainBetween st (b * bin) (b * bin + bin))"
    using bs(1) by (simp add: sum_list_distinct_conv_sum_set strict_sorted_iff)
  also have "\<dots> = (\<Sum>r \<leftarrow> st. \<Sum>b \<in> set bs. rain_overlap (b * bin) (b * bin + bin) r)"
    unfolding RainBetween_sum by (induction st) (simp_all add: sum.distrib)
  also have "\<dots> = (\<Sum>r \<leftarrow> st. if 0 < ri_Dur r then ri_MM r else 0)"
  proof (intro arg_cong [where f = sum_list] map_cong refl)
    fix r assume "r \<in> set st"
    then have "{b. ri_Start r < b * bin + bin \<and> b * bin < ri_End r} \<subseteq> set bs" if "0 < ri_Dur r"
      using that by (auto simp: bs(2) covers_def)
    then show "(\<Sum>b \<in> set bs. rain_overlap (b * bin) (b * bin + bin) r) = (if 0 < ri_Dur r then ri_MM r else 0)"
      using sum_rain_overlap [OF assms, of r "set bs"] by (simp add: rain_overlap_def)
  qed
  also have "\<dots> = sum_list (map ri_MM (filter (\<lambda>r. 0 < ri_Dur r) st))"
    by (induction st) simp_all
  finally show "sum_list (map ri_MM (MergeRain [st] bin)) = sum_list (map ri_MM (filter (\<lambda>r. 0 < ri_Dur r) st))" .
qed

text \<open>
  C19: Storms are the maximal groups of wet intervals. The wet intervals of a sorted series split into
  consecutive groups with every gap inside a group below six hours and every gap between groups at least
  six hours; the storms reported are those of the groups with five millimetres or more, each with its
  first and last instant, total, peak and onset, all closed but the last, which is closed exactly when
  the horizon is six hours past its end.
\<close>

theorem segment_storms_spec:
  assumes "rain_series rain"
  shows "\<exists>gs. concat gs = filter Wet rain \<and> (\<forall>g \<in> set gs. tight g) \<and> successively apart gs
    \<and> SegmentStorms rain horizon = map (\<lambda>g. storm_of g True) (filter big (butlast gs))
      @ (if gs \<noteq> [] \<and> big (last gs) then [storm_of (last gs) (ri_End (last (last gs)) + StormMaxGap \<le> horizon)] else [])"
proof (cases "filter Wet rain")
  case Nil
  then have "SegmentStorms rain horizon = []" by (simp add: SegmentStorms_def segment_filter [of _ rain])
  then show ?thesis using Nil by (intro exI [of _ "[]"]) simp
next
  case (Cons r rs)
  have "tight [r]" by (simp add: tight_def)
  then show ?thesis
    using split_groups_spec [of "[r]" rs] split_groups_hd [of "[r]" rs] SegmentStorms_groups [OF assms Cons] Cons
    by (intro exI [of _ "split_groups [r] rs"]) simp
qed

definition demo_rain :: "rain_interval list" where
  "demo_rain = [\<lparr>ri_Start = 0, ri_Dur = hour, ri_MM = 3\<rparr>, \<lparr>ri_Start = hour, ri_Dur = hour, ri_MM = 4\<rparr>,
     \<lparr>ri_Start = 9 * hour, ri_Dur = hour, ri_MM = 2\<rparr>]"

theorem merge_rain_spec_witness:
  "sum_list (map ri_MM (MergeRain [demo_rain] RainBin)) = 9"
  using merge_rain_spec [of RainBin "[]" demo_rain] by (simp add: demo_rain_def RainBin_def go_time)

theorem segment_storms_spec_witness:
  "rain_series demo_rain \<and> (\<exists>gs. concat gs = filter Wet demo_rain \<and> (\<forall>g \<in> set gs. tight g) \<and> successively apart gs
    \<and> SegmentStorms demo_rain 0 = map (\<lambda>g. storm_of g True) (filter big (butlast gs))
      @ (if gs \<noteq> [] \<and> big (last gs) then [storm_of (last gs) (ri_End (last (last gs)) + StormMaxGap \<le> 0)] else []))
   \<and> map st_TotalMM (SegmentStorms demo_rain 0) = [7]"
proof -
  have ser: "rain_series demo_rain"
    by (simp add: rain_series_def demo_rain_def ri_End_def go_time zero_time_def)
  have "map st_TotalMM (SegmentStorms demo_rain 0) = [7]"
    by (simp add: SegmentStorms_def demo_rain_def segment_step_def Wet_def ri_End_def IntensityMMH_def hours_of_def flush_def
        StormMaxGap_def StormMinTotalMM_def rainEpsilonMM_def intensityTolerance_def OnsetMinIntensity_def zero_time_def
        go_time Let_def)
  then show ?thesis using ser segment_storms_spec [OF ser, of 0] by blast
qed

end
