(* ===== verification/Response.thy ===== *)
theory Response
  imports Rain
begin

text \<open>
  A home's response to a storm, \<^verbatim>\<open>internal/hydrology/response.go\<close>: the dry-weather baseflow, the
  volume pumped, cumulative inflow and its rate on a time grid, the response lag and the recession, and
  the analysis of one home and one storm that puts them together. Median and least squares are computed
  over \<^typ>\<open>real\<close>; the median of no values, not a number in the source, is \<^term>\<open>None\<close>.
\<close>

section \<open>Data\<close>

definition LagRateFactor :: real where "LagRateFactor = 2"
definition RecessionRateFactor :: real where "RecessionRateFactor = 12 / 10"
definition BaseflowDryFor :: duration where "BaseflowDryFor = 72 * hour"
definition BaseflowMinSamples :: nat where "BaseflowMinSamples = 2"

record response_params =
  rp_Step :: duration
  rp_LagWindow :: duration
  rp_LagHold :: duration
  rp_RecessionWindow :: duration
  rp_RecessionHold :: duration
  rp_BaseflowLookback :: duration
  rp_MaxRecession :: duration

definition DefaultResponseParams :: response_params where
  "DefaultResponseParams = \<lparr>rp_Step = minute, rp_LagWindow = 20 * minute, rp_LagHold = 30 * minute,
     rp_RecessionWindow = 2 * hour, rp_RecessionHold = hour, rp_BaseflowLookback = 14 * 24 * hour,
     rp_MaxRecession = 7 * 24 * hour\<rparr>"

record level_sample =
  ls_At :: instant
  ls_DistanceMM :: int

record rollup =
  su_WindowEnd :: instant
  su_WindowS :: int
  su_Count :: int
  su_TotalRunS :: int

definition WindowStart :: "rollup \<Rightarrow> instant" where
  "WindowStart s = su_WindowEnd s - su_WindowS s * second"

record home_obs =
  ho_Cycles :: "cycle list"
  ho_Summaries :: "rollup list"
  ho_Levels :: "level_sample list"

definition Sort :: "home_obs \<Rightarrow> home_obs" where
  "Sort o1 = o1\<lparr>ho_Cycles := sort_key cy_StartedAt (ho_Cycles o1),
     ho_Summaries := sort_key su_WindowEnd (ho_Summaries o1), ho_Levels := sort_key ls_At (ho_Levels o1)\<rparr>"

record baseflow =
  bf_CPD :: real
  bf_DropMM :: real
  bf_Samples :: nat
  bf_PumpMMPerS :: real

definition PumpRateDryWeather :: string where "PumpRateDryWeather = ''dry_weather''"

definition PumpRateLPS :: "baseflow \<Rightarrow> real \<Rightarrow> real \<times> bool" where
  "PumpRateLPS b pitAreaM2 =
     (if pitAreaM2 \<le> 0 \<or> bf_PumpMMPerS b \<le> 0 then (0, False) else (pitAreaM2 * bf_PumpMMPerS b, True))"

definition median :: "real list \<Rightarrow> real option" where
  "median xs = (if xs = [] then None
     else let s = sort xs; n = length s
       in Some (if n mod 2 = 1 then s ! (n div 2) else (s ! (n div 2 - 1) + s ! (n div 2)) / 2))"

section \<open>Baseflow\<close>

definition primary :: "cycle \<Rightarrow> bool" where
  "primary c \<longleftrightarrow> cy_Pump c = '''' \<or> cy_Pump c = ''primary''"

text \<open>The loop state: the previous cycle, the rates, drops and pump rates collected.\<close>

type_synonym baseflow_state = "cycle option \<times> real list \<times> real list \<times> real list"

definition baseflow_step :: "rain_interval list \<Rightarrow> instant \<Rightarrow> instant \<Rightarrow> baseflow_state \<Rightarrow> cycle \<Rightarrow> baseflow_state" where
  "baseflow_step rain from_ts to_ts = (\<lambda>(prev, rates, drops, pumps) c.
     if cy_Pump c \<noteq> '''' \<and> cy_Pump c \<noteq> ''primary'' then (prev, rates, drops, pumps)
     else if cy_StartedAt c < from_ts \<or> \<not> cy_StartedAt c < to_ts \<or> \<not> IsCycle c then (None, rates, drops, pumps)
     else case prev of
         None \<Rightarrow> (Some c, rates, drops, pumps)
       | Some p \<Rightarrow>
           let gap = cy_StartedAt c - cy_StartedAt p
           in if gap > 0 \<and> RainBetween rain (cy_StartedAt p - BaseflowDryFor) (cy_StartedAt c) \<le> rainEpsilonMM
              then (Some c, rates @ [86400 / seconds_of gap], drops @ [real_of_int (DropMM p)],
                    if cy_RunS p > 0 then pumps @ [real_of_int (DropMM p) / real_of_int (cy_RunS p)] else pumps)
              else (Some c, rates, drops, pumps))"

definition EstimateBaseflow :: "cycle list \<Rightarrow> rain_interval list \<Rightarrow> instant \<Rightarrow> instant \<Rightarrow> baseflow \<times> bool" where
  "EstimateBaseflow cycles rain from_ts to_ts =
     (let (_, rates, drops, pumps) = foldl (baseflow_step rain from_ts to_ts) (None, [], [], []) cycles
      in if length rates < BaseflowMinSamples
         then (\<lparr>bf_CPD = 0, bf_DropMM = 0, bf_Samples = length rates, bf_PumpMMPerS = 0\<rparr>, False)
         else (\<lparr>bf_CPD = the (median rates), bf_DropMM = the (median drops), bf_Samples = length rates,
                bf_PumpMMPerS = (if pumps \<noteq> [] then the (median pumps) else 0)\<rparr>, True))"

section \<open>Pumped volume\<close>

record pumped =
  pu_Cycles :: int
  pu_FloorL :: real
  pu_EstL :: real

definition in_span :: "instant \<Rightarrow> instant \<Rightarrow> instant \<Rightarrow> bool" where
  "in_span from_ts to_ts t \<longleftrightarrow> \<not> t < from_ts \<and> t < to_ts"

definition pump_cycle :: "instant \<Rightarrow> instant \<Rightarrow> real \<Rightarrow> real \<Rightarrow> pumped \<Rightarrow> cycle \<Rightarrow> pumped" where
  "pump_cycle from_ts to_ts area pumpLPS p c =
     (if \<not> in_span from_ts to_ts (cy_StartedAt c) then p
      else let floor_l = area * max 0 (real_of_int (DropMM c));
               est = (if pumpLPS > 0 \<and> primary c then max floor_l (pumpLPS * real_of_int (cy_RunS c)) else floor_l)
        in \<lparr>pu_Cycles = pu_Cycles p + 1, pu_FloorL = pu_FloorL p + floor_l, pu_EstL = pu_EstL p + est\<rparr>)"

definition pump_rollup :: "instant \<Rightarrow> instant \<Rightarrow> real \<Rightarrow> real \<Rightarrow> real \<Rightarrow> pumped \<Rightarrow> rollup \<Rightarrow> pumped" where
  "pump_rollup from_ts to_ts area dropMM pumpLPS p s =
     (if \<not> in_span from_ts to_ts (su_WindowEnd s) then p
      else let floor_l = area * real_of_int (su_Count s) * max 0 dropMM
        in \<lparr>pu_Cycles = pu_Cycles p + su_Count s, pu_FloorL = pu_FloorL p + floor_l,
            pu_EstL = pu_EstL p + max floor_l (max 0 pumpLPS * real_of_int (su_TotalRunS s))\<rparr>)"

definition PumpedVolume :: "home_obs \<Rightarrow> instant \<Rightarrow> instant \<Rightarrow> real \<Rightarrow> real \<Rightarrow> real \<Rightarrow> pumped" where
  "PumpedVolume o1 from_ts to_ts pitAreaM2 dropMM pumpLPS =
     (let area = max 0 pitAreaM2;
          p = foldl (pump_cycle from_ts to_ts area pumpLPS) \<lparr>pu_Cycles = 0, pu_FloorL = 0, pu_EstL = 0\<rparr> (ho_Cycles o1);
          p = foldl (pump_rollup from_ts to_ts area dropMM pumpLPS) p (ho_Summaries o1)
      in if pumpLPS \<le> 0 then p\<lparr>pu_EstL := 0\<rparr> else p)"

section \<open>Cumulative inflow\<close>

record rate =
  ra_At :: instant
  ra_CPD :: real

record vol_sample =
  vs_At :: instant
  vs_MM :: real

datatype inflow_event = EvCycle cycle | EvLevel level_sample | EvSummary rollup

fun ev_at :: "inflow_event \<Rightarrow> instant" where
  "ev_at (EvCycle c) = cy_StartedAt c"
| "ev_at (EvLevel l) = ls_At l"
| "ev_at (EvSummary s) = su_WindowEnd s"

definition summaryAt :: "rollup list \<Rightarrow> instant \<Rightarrow> rollup option" where
  "summaryAt ss t =
     (let j = go_search (length ss) (\<lambda>k. \<not> su_WindowEnd (ss ! k) < t)
      in if j < length ss \<and> \<not> t < WindowStart (ss ! j) then Some (ss ! j) else None)"

text \<open>The loop state: what has been pumped, the runs in progress with their end and drop, the samples.\<close>

type_synonym inflow_state = "real \<times> (instant \<times> real) list \<times> vol_sample list"

definition inflow_step :: "rollup list \<Rightarrow> real \<Rightarrow> inflow_state \<Rightarrow> inflow_event \<Rightarrow> inflow_state" where
  "inflow_step summaries dropMM = (\<lambda>(pumped, running, out) e.
     let pumped = pumped + sum_list (map snd (filter (\<lambda>p. \<not> fst p > ev_at e) running));
         running = filter (\<lambda>p. fst p > ev_at e) running;
         quiet = (running = [] \<and> summaryAt summaries (ev_at e) = None)
     in case e of
          EvCycle c \<Rightarrow> (pumped, running @ [(EndedAt c, real_of_int (DropMM c))],
             if quiet then out @ [\<lparr>vs_At = ev_at e, vs_MM = pumped - real_of_int (cy_LevelStartMM c)\<rparr>] else out)
        | EvLevel l \<Rightarrow> (pumped, running,
             if quiet then out @ [\<lparr>vs_At = ev_at e, vs_MM = pumped - real_of_int (ls_DistanceMM l)\<rparr>] else out)
        | EvSummary s \<Rightarrow> (pumped + real_of_int (su_Count s) * dropMM, running, out))"

definition inflow_events :: "home_obs \<Rightarrow> inflow_event list" where
  "inflow_events o1 = sort_key ev_at (map EvCycle (ho_Cycles o1) @ map EvLevel (ho_Levels o1) @ map EvSummary (ho_Summaries o1))"

definition cumulativeInflow :: "home_obs \<Rightarrow> real \<Rightarrow> vol_sample list" where
  "cumulativeInflow o1 dropMM = snd (snd (foldl (inflow_step (ho_Summaries o1) dropMM) (0, [], []) (inflow_events o1)))"

section \<open>Rates\<close>

definition slope_sums :: "vol_sample list \<Rightarrow> real \<times> real \<times> real \<times> real" where
  "slope_sums s = foldl (\<lambda>(sx, sy, sxx, sxy) p.
      let x = seconds_of (vs_At p - vs_At (hd s))
      in (sx + x, sy + vs_MM p, sxx + x * x, sxy + x * vs_MM p)) (0, 0, 0, 0) s"

definition slopePerSecond :: "vol_sample list \<Rightarrow> real" where
  "slopePerSecond s =
     (let n = real (length s); (sx, sy, sxx, sxy) = slope_sums s; den = n * sxx - sx * sx
      in if den = 0 then 0 else (n * sxy - sx * sy) / den)"

text \<open>One grid point: the slope of the samples in its window, else the rate of the roll-up it lies in.\<close>

definition rate_at :: "rollup list \<Rightarrow> real \<Rightarrow> duration \<Rightarrow> vol_sample list \<Rightarrow> instant \<Rightarrow> rate list" where
  "rate_at summaries dropMM window win t =
     (if length win \<ge> 2 \<and> vs_At (last win) - vs_At (hd win) \<ge> go_div window 3
      then [\<lparr>ra_At = t, ra_CPD = slopePerSecond win * 86400 / dropMM\<rparr>]
      else case summaryAt summaries t of
          Some s \<Rightarrow> if su_WindowS s > 0
                    then [\<lparr>ra_At = t, ra_CPD = real_of_int (su_Count s) * 86400 / real_of_int (su_WindowS s)\<rparr>] else []
        | None \<Rightarrow> [])"

text \<open>
  The grid loop. \<open>rest\<close> is the slice of the samples from the index \<^verbatim>\<open>lo\<close> on; \<^verbatim>\<open>InflowRates\<close> only enters
  the loop with a positive step.
\<close>

function rates_loop :: "rollup list \<Rightarrow> real \<Rightarrow> duration \<Rightarrow> duration \<Rightarrow> instant \<Rightarrow> vol_sample list \<Rightarrow> instant \<Rightarrow> rate list" where
  "rates_loop summaries dropMM step window to_ts rest t =
     (if t > to_ts \<or> step \<le> 0 then []
      else let a = t + go_div (- window) 2; b = t + go_div window 2;
               rest = dropWhile (\<lambda>s. vs_At s < a) rest;
               win = takeWhile (\<lambda>s. \<not> vs_At s > b) rest
        in rate_at summaries dropMM window win t @ rates_loop summaries dropMM step window to_ts rest (t + step))"
  by auto
termination
  by (relation "measure (\<lambda>(_, _, step, _, to_ts, _, t). nat (to_ts + 1 - t))") auto

declare rates_loop.simps [simp del]

definition InflowRates :: "home_obs \<Rightarrow> real \<Rightarrow> instant \<Rightarrow> instant \<Rightarrow> duration \<Rightarrow> duration \<Rightarrow> rate list" where
  "InflowRates o1 dropMM from_ts to_ts step window =
     (if dropMM \<le> 0 \<or> step \<le> 0 \<or> window \<le> 0 then []
      else rates_loop (ho_Summaries o1) dropMM step window to_ts (cumulativeInflow o1 dropMM) from_ts)"

section \<open>Lag and recession\<close>

definition maxStep :: "rate list \<Rightarrow> duration" where
  "maxStep rates = (if length rates < 2 then 0 else ra_At (rates ! 1) - ra_At (rates ! 0))"

definition rate_cond :: "real \<Rightarrow> bool \<Rightarrow> real \<Rightarrow> bool" where
  "rate_cond threshold up r = (if up then r > threshold else r \<le> threshold)"

text \<open>The instant of the crossing into the run that starts at index \<open>start\<close>.\<close>

definition crossing :: "rate list \<Rightarrow> real \<Rightarrow> nat \<Rightarrow> instant" where
  "crossing rates threshold start =
     (if start > 0
      then let p = rates ! (start - 1); c = rates ! start; gap = ra_At c - ra_At p
        in if gap > 0 \<and> gap \<le> 2 * maxStep rates \<and> ra_CPD c \<noteq> ra_CPD p
           then let f = max 0 (min 1 ((threshold - ra_CPD p) / (ra_CPD c - ra_CPD p)))
             in ra_At p + \<lfloor>f * real_of_int gap\<rfloor>
           else ra_At c
      else ra_At (rates ! start))"

text \<open>The loop over the remaining rates; \<open>i\<close> is the index of the first of them.\<close>

fun sustained_loop :: "rate list \<Rightarrow> instant \<Rightarrow> duration \<Rightarrow> real \<Rightarrow> bool \<Rightarrow> rate list \<Rightarrow> nat \<Rightarrow> nat option \<Rightarrow> instant option" where
  "sustained_loop rates from_ts hold threshold up [] i start = None"
| "sustained_loop rates from_ts hold threshold up (r # rs) i start =
     (if ra_At r < from_ts then sustained_loop rates from_ts hold threshold up rs (i + 1) start
      else if \<not> rate_cond threshold up (ra_CPD r) then sustained_loop rates from_ts hold threshold up rs (i + 1) None
      else let st = (case start of None \<Rightarrow> i | Some k \<Rightarrow> k)
        in if ra_At r - ra_At (rates ! st) < hold
           then sustained_loop rates from_ts hold threshold up rs (i + 1) (Some st)
           else let t = crossing rates threshold st in Some (if t < from_ts then from_ts else t))"

definition firstSustained :: "rate list \<Rightarrow> instant \<Rightarrow> duration \<Rightarrow> real \<Rightarrow> bool \<Rightarrow> instant option" where
  "firstSustained rates from_ts hold threshold up = sustained_loop rates from_ts hold threshold up rates 0 None"

definition ResponseLag :: "rate list \<Rightarrow> real \<Rightarrow> instant \<Rightarrow> duration \<Rightarrow> duration \<times> bool" where
  "ResponseLag rates baseCPD onset hold =
     (case firstSustained rates onset hold (LagRateFactor * baseCPD) True of
        Some t \<Rightarrow> (max 0 (t - onset), True)
      | None \<Rightarrow> (max 0 (zero_time - onset), False))"

definition Recession :: "rate list \<Rightarrow> real \<Rightarrow> instant \<Rightarrow> duration \<Rightarrow> duration \<times> bool" where
  "Recession rates baseCPD rainEnd hold =
     (case firstSustained rates rainEnd hold (RecessionRateFactor * baseCPD) False of
        Some t \<Rightarrow> (max 0 (t - rainEnd), True)
      | None \<Rightarrow> (max 0 (zero_time - rainEnd), False))"

section \<open>One home and one storm\<close>

record home_storm =
  hs_Baseflow :: baseflow
  hs_HasBaseflow :: bool
  hs_Lag :: duration
  hs_HasLag :: bool
  hs_Recession :: duration
  hs_HasRecession :: bool
  hs_Cycles :: int
  hs_VolumeL :: real
  hs_InflowEstL :: real
  hs_PumpRateLPS :: real
  hs_PumpRateSource :: string
  hs_HasPumpRate :: bool
  hs_WindowEnd :: instant
  hs_HasSamples :: bool

definition analysis_end :: "storm \<Rightarrow> instant \<Rightarrow> instant \<Rightarrow> response_params \<Rightarrow> instant" where
  "analysis_end s until_ts dataEnd p =
     (let e = st_RainEnd s + rp_MaxRecession p;
          e = (if \<not> is_zero until_ts \<and> until_ts < e then until_ts else e)
      in if dataEnd < e then dataEnd else e)"

text \<open>Lag and recession of a home with a baseflow, as (lag, has lag, recession, has recession).\<close>

definition response_times ::
  "home_obs \<Rightarrow> storm \<Rightarrow> baseflow \<Rightarrow> instant \<Rightarrow> response_params \<Rightarrow> duration \<times> bool \<times> duration \<times> bool" where
  "response_times o1 s bf end_ts p =
     (let lagRates = InflowRates o1 (bf_DropMM bf) (st_Onset s - rp_LagWindow p) end_ts (rp_Step p) (rp_LagWindow p);
          (lag, hasLag) = ResponseLag lagRates (bf_CPD bf) (st_Onset s) (rp_LagHold p);
          recFrom = (if hasLag \<and> st_Onset s + lag > st_RainEnd s then st_Onset s + lag else st_RainEnd s);
          recRates = InflowRates o1 (bf_DropMM bf) recFrom end_ts (rp_Step p) (rp_RecessionWindow p)
      in case firstSustained recRates recFrom (rp_RecessionHold p) (RecessionRateFactor * bf_CPD bf) False of
           Some t \<Rightarrow> (lag, hasLag, t - st_RainEnd s, True)
         | None \<Rightarrow> (lag, hasLag, 0, False))"

definition AnalyseHomeStorm ::
  "home_obs \<Rightarrow> real \<Rightarrow> storm \<Rightarrow> rain_interval list \<Rightarrow> instant \<Rightarrow> instant \<Rightarrow> response_params \<Rightarrow> home_storm" where
  "AnalyseHomeStorm o1 pitAreaM2 s rain until_ts dataEnd p =
     (let end_ts = analysis_end s until_ts dataEnd p;
          (bf, hasBf) = EstimateBaseflow (ho_Cycles o1) rain (st_FirstRain s - rp_BaseflowLookback p) (st_FirstRain s);
          (lag, hasLag, recn, hasRec) = (if hasBf then response_times o1 s bf end_ts p else (0, False, 0, False));
          windowEnd = (if hasRec then minTime end_ts (st_RainEnd s + recn) else end_ts);
          drops = map (\<lambda>c. real_of_int (DropMM c))
                    (filter (\<lambda>c. in_span (st_Onset s) windowEnd (cy_StartedAt c) \<and> DropMM c > 0) (ho_Cycles o1));
          dropMM = (if \<not> hasBf \<and> drops \<noteq> [] then the (median drops) else bf_DropMM bf);
          (lps, hasRate) = (if hasBf then PumpRateLPS bf pitAreaM2 else (0, False));
          pv = PumpedVolume o1 (st_Onset s) windowEnd pitAreaM2 dropMM lps
      in \<lparr>hs_Baseflow = bf, hs_HasBaseflow = hasBf, hs_Lag = lag, hs_HasLag = hasLag,
          hs_Recession = recn, hs_HasRecession = hasRec, hs_Cycles = pu_Cycles pv, hs_VolumeL = pu_FloorL pv,
          hs_InflowEstL = pu_EstL pv, hs_PumpRateLPS = lps,
          hs_PumpRateSource = (if hasRate then PumpRateDryWeather else ''''), hs_HasPumpRate = hasRate,
          hs_WindowEnd = windowEnd,
          hs_HasSamples = (pu_Cycles pv > 0 \<or> list_ex (\<lambda>l. in_span (st_Onset s) windowEnd (ls_At l)) (ho_Levels o1))\<rparr>)"

section \<open>Sustained crossings\<close>

definition good_rate :: "rate list \<Rightarrow> instant \<Rightarrow> real \<Rightarrow> bool \<Rightarrow> nat \<Rightarrow> bool" where
  "good_rate rates from_ts threshold up k \<longleftrightarrow> from_ts \<le> ra_At (rates ! k) \<and> rate_cond threshold up (ra_CPD (rates ! k))"

text \<open>A sustained run: good rates from index \<open>a\<close> to \<open>b\<close> that span at least \<open>hold\<close>.\<close>

definition sustained :: "rate list \<Rightarrow> instant \<Rightarrow> duration \<Rightarrow> real \<Rightarrow> bool \<Rightarrow> nat \<Rightarrow> nat \<Rightarrow> bool" where
  "sustained rates from_ts hold threshold up a b \<longleftrightarrow> a \<le> b \<and> b < length rates
     \<and> (\<forall>k \<in> {a..b}. good_rate rates from_ts threshold up k) \<and> hold \<le> ra_At (rates ! b) - ra_At (rates ! a)"

lemma crossing_le:
  assumes "0 \<le> ra_At (rates ! start) - ra_At (rates ! (start - 1))"
  shows "crossing rates threshold start \<le> ra_At (rates ! start)"
proof -
  have "\<lfloor>max 0 (min 1 x) * real_of_int g\<rfloor> \<le> g" if "0 < g" for x g
  proof -
    have "max 0 (min 1 x) * real_of_int g \<le> 1 * real_of_int g" using that by (intro mult_right_mono) auto
    then show ?thesis by (simp add: floor_le_iff)
  qed
  from this [where g = "ra_At (rates ! start) - ra_At (rates ! (start - 1))" and
      x = "(threshold - ra_CPD (rates ! (start - 1))) / (ra_CPD (rates ! start) - ra_CPD (rates ! (start - 1)))"]
  show ?thesis using assms by (auto simp: crossing_def Let_def)
qed

lemma sustained_loop_spec:
  fixes rates from_ts hold threshold up
  defines "good \<equiv> good_rate rates from_ts threshold up"
    and "sus \<equiv> sustained rates from_ts hold threshold up"
  assumes sorted: "sorted (map ra_At rates)"
  shows "rates = pre @ rs \<Longrightarrow> i = length pre \<Longrightarrow> (\<forall>a b. b < i \<longrightarrow> \<not> sus a b) \<Longrightarrow>
    (case start of None \<Rightarrow> 0 < i \<longrightarrow> \<not> good (i - 1)
     | Some s \<Rightarrow> s < i \<and> (\<forall>k \<in> {s..<i}. good k) \<and> (0 < s \<longrightarrow> \<not> good (s - 1))) \<Longrightarrow>
    (case sustained_loop rates from_ts hold threshold up rs i start of
       None \<Rightarrow> \<forall>a b. \<not> sus a b
     | Some t \<Rightarrow> \<exists>a b. sus a b \<and> (0 < a \<longrightarrow> \<not> good (a - 1)) \<and> (\<forall>a' b'. b' < b \<longrightarrow> \<not> sus a' b')
         \<and> t = max from_ts (crossing rates threshold a))"
proof (induction rs arbitrary: pre i start)
  case Nil
  then show ?case by (auto simp: sus_def sustained_def)
next
  case (Cons r rs)
  have len: "i < length rates" and r: "rates ! i = r" using Cons.prems(1,2) by (simp_all add: nth_append)
  have mono: "ra_At (rates ! a) \<le> ra_At (rates ! b)" if "a \<le> b" "b < length rates" for a b
    using sorted_nth_mono [OF sorted] that by simp
  note IH = Cons.IH [of "pre @ [r]" "i + 1"]
  show ?case
  proof (cases "good i")
    case False
    have no: "\<forall>a b. b < i + 1 \<longrightarrow> \<not> sus a b"
    proof (intro allI impI notI)
      fix a b assume "b < i + 1" and sus: "sus a b"
      then have "b = i" using Cons.prems(3) by (metis less_antisym add.commute plus_1_eq_Suc)
      then show False using sus False by (simp add: sus_def sustained_def good_def)
    qed
    have "start = None" if "ra_At r < from_ts"
    proof (rule ccontr)
      assume "start \<noteq> None"
      then obtain s where "s < i" "good s" using Cons.prems(4) by (auto split: option.splits)
      then show False using mono [of s i] len r that by (simp add: good_def good_rate_def)
    qed
    then have "sustained_loop rates from_ts hold threshold up (r # rs) i start
        = sustained_loop rates from_ts hold threshold up rs (i + 1) None"
      using False r by (auto simp: good_def good_rate_def)
    then show ?thesis using IH [of None] Cons.prems(1,2) no False by simp
  next
    case True
    define s where "s = (case start of None \<Rightarrow> i | Some k \<Rightarrow> k)"
    have s: "s \<le> i" "\<forall>k \<in> {s..i}. good k" "0 < s \<longrightarrow> \<not> good (s - 1)"
      using Cons.prems(4) True by (auto simp: s_def le_less split: option.splits)
    have step: "sustained_loop rates from_ts hold threshold up (r # rs) i start =
      (if ra_At r - ra_At (rates ! s) < hold then sustained_loop rates from_ts hold threshold up rs (i + 1) (Some s)
       else Some (max from_ts (crossing rates threshold s)))"
      using True r by (auto simp: good_def good_rate_def s_def Let_def max_def)
    have best: "s \<le> a" if "sus a i" for a
    proof (rule ccontr)
      assume "\<not> s \<le> a"
      then have "s - 1 \<in> {a..i}" "0 < s" using s(1) by auto
      then show False using that s(3) by (auto simp: sus_def sustained_def good_def)
    qed
    show ?thesis
    proof (cases "ra_At r - ra_At (rates ! s) < hold")
      case short: True
      have "\<not> sus a b" if "b < i + 1" for a b
      proof
        assume sus: "sus a b"
        then have "b = i" using Cons.prems(3) that by (metis less_Suc_eq add.commute plus_1_eq_Suc)
        then show False using sus best [of a] mono [of s a] short r by (auto simp: sus_def sustained_def)
      qed
      then show ?thesis using IH [of "Some s"] Cons.prems(1,2) step short s by (auto simp: less_Suc_eq_le)
    next
      case False
      then have "sus s i" using s len r by (simp add: sus_def sustained_def good_def)
      then show ?thesis using step False s Cons.prems(3) by auto
    qed
  qed
qed

lemma firstSustained_cases:
  assumes "sorted (map ra_At rates)"
  shows "case firstSustained rates from_ts hold threshold up of
       None \<Rightarrow> \<forall>a b. \<not> sustained rates from_ts hold threshold up a b
     | Some t \<Rightarrow> \<exists>a b. sustained rates from_ts hold threshold up a b
         \<and> (0 < a \<longrightarrow> \<not> good_rate rates from_ts threshold up (a - 1))
         \<and> (\<forall>a' b'. b' < b \<longrightarrow> \<not> sustained rates from_ts hold threshold up a' b')
         \<and> t = max from_ts (crossing rates threshold a)"
  using sustained_loop_spec [OF assms, of "[]" rates 0 from_ts hold threshold up None] by (simp add: firstSustained_def)

lemma firstSustained_ge: "firstSustained rates from_ts hold threshold up = Some t \<Longrightarrow> from_ts \<le> t"
proof -
  have "sustained_loop rates from_ts hold threshold up rs i start = Some t \<Longrightarrow> from_ts \<le> t" for rs i start
    by (induction rs arbitrary: i start) (auto simp: Let_def split: if_splits)
  then show "firstSustained rates from_ts hold threshold up = Some t \<Longrightarrow> from_ts \<le> t" by (simp add: firstSustained_def)
qed

lemma rate_at_time: "r \<in> set (rate_at ss d w win t) \<Longrightarrow> ra_At r = t"
  by (auto simp: rate_at_def split: if_splits option.splits)

lemma rates_loop_times:
  "sorted_wrt (<) (map ra_At (rates_loop ss d step w to_ts rest t))
   \<and> (\<forall>r \<in> set (rates_loop ss d step w to_ts rest t). t \<le> ra_At r \<and> ra_At r \<le> to_ts)"
proof (induction ss d step w to_ts rest t rule: rates_loop.induct)
  case (1 ss d step w to_ts rest t)
  show ?case
  proof (cases "t > to_ts \<or> step \<le> 0")
    case False
    let ?a = "t + go_div (- w) 2" and ?b = "t + go_div w 2"
    let ?rest = "dropWhile (\<lambda>s. vs_At s < ?a) rest"
    let ?win = "takeWhile (\<lambda>s. \<not> vs_At s > ?b) ?rest"
    have eq: "rates_loop ss d step w to_ts rest t = rate_at ss d w ?win t @ rates_loop ss d step w to_ts ?rest (t + step)"
      using False by (subst rates_loop.simps) (simp add: Let_def)
    have "length (rate_at ss d w ?win t) \<le> 1" by (auto simp: rate_at_def split: option.splits)
    then have one: "sorted_wrt (<) (map ra_At (rate_at ss d w ?win t))"
      by (cases "rate_at ss d w ?win t") auto
    note IH = 1 [OF False refl refl refl refl]
    show ?thesis unfolding eq using one IH False
      by (auto simp: sorted_wrt_append dest!: rate_at_time)
  qed (simp add: rates_loop.simps)
qed

lemma InflowRates_sorted: "sorted (map ra_At (InflowRates o1 d f t step w))"
  using rates_loop_times by (auto simp: InflowRates_def strict_sorted_iff)

lemma InflowRates_short:
  assumes "t - f < hold"
  shows "firstSustained (InflowRates o1 d f t step w) from_ts hold threshold up = None"
proof -
  let ?r = "InflowRates o1 d f t step w"
  have "f \<le> ra_At r \<and> ra_At r \<le> t" if "r \<in> set ?r" for r
    using rates_loop_times that by (fastforce simp: InflowRates_def split: if_splits)
  then have "f \<le> ra_At (?r ! a) \<and> ra_At (?r ! b) \<le> t" if "a \<le> b" "b < length ?r" for a b
    using that by (meson le_less_trans nth_mem)
  then have "\<not> sustained ?r from_ts hold threshold up a b" for a b
    using assms by (fastforce simp: sustained_def)
  then show ?thesis
    using firstSustained_cases [OF InflowRates_sorted, of o1 d f t step w from_ts hold threshold up]
    by (auto split: option.splits)
qed

lemma pump_cycle_mono:
  "0 \<le> area \<Longrightarrow> 0 \<le> pu_FloorL p \<and> pu_FloorL p \<le> pu_EstL p \<Longrightarrow>
   0 \<le> pu_FloorL (pump_cycle f t area lps p c) \<and> pu_FloorL (pump_cycle f t area lps p c) \<le> pu_EstL (pump_cycle f t area lps p c)"
  by (auto simp: pump_cycle_def Let_def intro!: add_nonneg_nonneg add_mono)

lemma pump_rollup_mono:
  "0 \<le> area \<Longrightarrow> 0 \<le> su_Count s \<Longrightarrow> 0 \<le> pu_FloorL p \<and> pu_FloorL p \<le> pu_EstL p \<Longrightarrow>
   0 \<le> pu_FloorL (pump_rollup f t area d lps p s)
   \<and> pu_FloorL (pump_rollup f t area d lps p s) \<le> pu_EstL (pump_rollup f t area d lps p s)"
  by (auto simp: pump_rollup_def Let_def intro!: add_nonneg_nonneg add_mono)

lemma foldl_invariant: "P a \<Longrightarrow> (\<And>a x. x \<in> set xs \<Longrightarrow> P a \<Longrightarrow> P (f a x)) \<Longrightarrow> P (foldl f a xs)"
  by (induction xs arbitrary: a) auto

lemma PumpedVolume_bounds:
  assumes "\<forall>s \<in> set (ho_Summaries o1). 0 \<le> su_Count s"
  shows "0 \<le> pu_FloorL (PumpedVolume o1 f t area d lps)
    \<and> (0 < lps \<longrightarrow> pu_FloorL (PumpedVolume o1 f t area d lps) \<le> pu_EstL (PumpedVolume o1 f t area d lps))
    \<and> (lps \<le> 0 \<longrightarrow> pu_EstL (PumpedVolume o1 f t area d lps) = 0)"
proof -
  let ?P = "\<lambda>p. 0 \<le> pu_FloorL p \<and> pu_FloorL p \<le> pu_EstL p"
  let ?p1 = "foldl (pump_cycle f t (max 0 area) lps) \<lparr>pu_Cycles = 0, pu_FloorL = 0, pu_EstL = 0\<rparr> (ho_Cycles o1)"
  have "?P ?p1" by (rule foldl_invariant) (simp_all add: pump_cycle_mono)
  then have "?P (foldl (pump_rollup f t (max 0 area) d lps) ?p1 (ho_Summaries o1))"
    by (rule foldl_invariant) (use assms in \<open>simp add: pump_rollup_mono\<close>)
  then show ?thesis by (simp add: PumpedVolume_def Let_def)
qed

section \<open>Properties\<close>

text \<open>
  Lag and recession are found exactly when they happened. On the rates computed for a home, the
  search fails exactly when no run of rates at or after the start stays on the wanted side for the hold
  time; otherwise it answers for the run whose hold is completed first, with an instant at or after the
  start and not after the run's first rate.
\<close>

theorem first_sustained_spec:
  "case firstSustained (InflowRates o1 d f t step w) from_ts hold threshold up of
     None \<Rightarrow> \<not> (\<exists>a b. sustained (InflowRates o1 d f t step w) from_ts hold threshold up a b)
   | Some at_ts \<Rightarrow> \<exists>a b. sustained (InflowRates o1 d f t step w) from_ts hold threshold up a b
       \<and> \<not> (\<exists>a' b'. b' < b \<and> sustained (InflowRates o1 d f t step w) from_ts hold threshold up a' b')
       \<and> from_ts \<le> at_ts \<and> at_ts \<le> ra_At (InflowRates o1 d f t step w ! a)"
proof -
  let ?r = "InflowRates o1 d f t step w"
  have "at_ts \<le> ra_At (?r ! a)" if "sustained ?r from_ts hold threshold up a b" "at_ts = max from_ts (crossing ?r threshold a)" for a b at_ts
  proof -
    have "a < length ?r" "from_ts \<le> ra_At (?r ! a)" using that by (auto simp: sustained_def good_rate_def)
    moreover have "ra_At (?r ! (a - 1)) \<le> ra_At (?r ! a)"
      using sorted_nth_mono [OF InflowRates_sorted, of "a - 1" a] \<open>a < length ?r\<close> by simp
    ultimately show ?thesis using that(2) crossing_le [of ?r a threshold] by simp
  qed
  then show ?thesis
    using firstSustained_cases [OF InflowRates_sorted, of o1 d f t step w from_ts hold threshold up]
    by (cases "firstSustained ?r from_ts hold threshold up") (simp, fastforce)
qed

text \<open>
  C20: What an analysis may report. Its window never ends after the longest recession, the data or the next
  storm; lag and recession are not negative and a recession never precedes the response; without a
  baseflow there is neither lag, recession nor pump rate; the volume is not negative, and with a
  calibrated pump the estimate is never below it, without one it is zero.
\<close>

theorem analyse_home_storm_bounds:
  assumes "\<forall>s \<in> set (ho_Summaries o1). 0 \<le> su_Count s"
    and "h = AnalyseHomeStorm o1 pitAreaM2 s rain until_ts dataEnd p"
  shows "hs_WindowEnd h \<le> st_RainEnd s + rp_MaxRecession p \<and> hs_WindowEnd h \<le> dataEnd
    \<and> (until_ts \<noteq> zero_time \<longrightarrow> hs_WindowEnd h \<le> until_ts)
    \<and> 0 \<le> hs_Lag h
    \<and> (hs_HasRecession h \<longrightarrow> 0 \<le> hs_Recession h
         \<and> (hs_HasLag h \<longrightarrow> st_Onset s + hs_Lag h \<le> st_RainEnd s + hs_Recession h))
    \<and> (\<not> hs_HasBaseflow h \<longrightarrow> \<not> hs_HasLag h \<and> \<not> hs_HasRecession h \<and> \<not> hs_HasPumpRate h)
    \<and> 0 \<le> hs_VolumeL h
    \<and> (hs_HasPumpRate h \<longrightarrow> 0 < hs_PumpRateLPS h \<and> hs_VolumeL h \<le> hs_InflowEstL h)
    \<and> (\<not> hs_HasPumpRate h \<longrightarrow> hs_InflowEstL h = 0)"
proof -
  define e where "e = analysis_end s until_ts dataEnd p"
  obtain bf hasBf where bf: "EstimateBaseflow (ho_Cycles o1) rain (st_FirstRain s - rp_BaseflowLookback p) (st_FirstRain s) = (bf, hasBf)"
    by fastforce
  obtain lag hasLag recn hasRec where rt:
    "(if hasBf then response_times o1 s bf e p else (0, False, 0, False)) = (lag, hasLag, recn, hasRec)"
    by (metis prod_cases4)
  obtain lps hasRate where pr: "(if hasBf then PumpRateLPS bf pitAreaM2 else (0, False)) = (lps, hasRate)" by fastforce
  have e: "e \<le> st_RainEnd s + rp_MaxRecession p \<and> e \<le> dataEnd \<and> (until_ts \<noteq> zero_time \<longrightarrow> e \<le> until_ts)"
    by (auto simp: e_def analysis_end_def is_zero_def Let_def)
  have times: "0 \<le> lag \<and> (hasRec \<longrightarrow> 0 \<le> recn \<and> (hasLag \<longrightarrow> st_Onset s + lag \<le> st_RainEnd s + recn))"
    using rt by (auto simp: response_times_def ResponseLag_def Let_def dest!: firstSustained_ge split: if_splits option.splits prod.splits)
  have rate: "(hasRate \<longrightarrow> 0 < lps) \<and> (\<not> hasRate \<longrightarrow> lps = 0) \<and> (\<not> hasBf \<longrightarrow> \<not> hasLag \<and> \<not> hasRec \<and> \<not> hasRate)"
    using pr rt by (auto simp: PumpRateLPS_def split: if_splits)
  define w where "w = (if hasRec then minTime e (st_RainEnd s + recn) else e)"
  define drops where "drops = map (\<lambda>c. real_of_int (DropMM c))
    (filter (\<lambda>c. in_span (st_Onset s) w (cy_StartedAt c) \<and> DropMM c > 0) (ho_Cycles o1))"
  define d where "d = (if \<not> hasBf \<and> drops \<noteq> [] then the (median drops) else bf_DropMM bf)"
  have h: "hs_HasBaseflow h = hasBf" "hs_Lag h = lag" "hs_HasLag h = hasLag"
    "hs_Recession h = recn" "hs_HasRecession h = hasRec" "hs_PumpRateLPS h = lps" "hs_HasPumpRate h = hasRate" "hs_WindowEnd h = w"
    "hs_VolumeL h = pu_FloorL (PumpedVolume o1 (st_Onset s) w pitAreaM2 d lps)"
    "hs_InflowEstL h = pu_EstL (PumpedVolume o1 (st_Onset s) w pitAreaM2 d lps)"
    by (simp_all only: assms(2) AnalyseHomeStorm_def Let_def e_def [symmetric] bf rt pr prod.case w_def [symmetric]
        drops_def [symmetric] d_def [symmetric] home_storm.select_convs)
  have w: "w \<le> e" by (simp add: w_def)
  show ?thesis unfolding h
    using w e times rate PumpedVolume_bounds [OF assms(1), of "st_Onset s" w pitAreaM2 d lps] by auto
qed

definition demo_cycle :: "int \<Rightarrow> cycle" where
  "demo_cycle h = \<lparr>cy_StartedAt = h * hour, cy_RunS = 10, cy_LevelStartMM = 100, cy_LevelEndMM = 200, cy_Pump = ''primary''\<rparr>"

definition demo_level :: "int \<Rightarrow> int \<Rightarrow> level_sample" where
  "demo_level h mm = \<lparr>ls_At = h * hour, ls_DistanceMM = mm\<rparr>"

definition demo_obs :: home_obs where
  "demo_obs = \<lparr>ho_Cycles = [demo_cycle 0, demo_cycle 24, demo_cycle 48], ho_Summaries = [],
     ho_Levels = [demo_level 73 190, demo_level 74 150, demo_level 75 150, demo_level 76 150]\<rparr>"

definition demo_storm :: storm where
  "demo_storm = \<lparr>st_FirstRain = 72 * hour, st_Onset = 72 * hour, st_RainEnd = 73 * hour, st_TotalMM = 6, st_PeakMMH = 6, st_Closed = True\<rparr>"

definition demo_params :: response_params where
  "demo_params = \<lparr>rp_Step = hour, rp_LagWindow = 2 * hour, rp_LagHold = 50 * hour, rp_RecessionWindow = 2 * hour,
     rp_RecessionHold = hour, rp_BaseflowLookback = 14 * 24 * hour, rp_MaxRecession = 7 * 24 * hour\<rparr>"

theorem analyse_home_storm_bounds_witness:
  "hs_WindowEnd (AnalyseHomeStorm demo_obs 1 demo_storm [] (76 * hour) (100 * hour) demo_params) \<le> 76 * hour"
  using analyse_home_storm_bounds [of demo_obs "AnalyseHomeStorm demo_obs 1 demo_storm [] (76 * hour) (100 * hour) demo_params"
      1 demo_storm "[]" "76 * hour" "100 * hour" demo_params]
  by (simp add: demo_obs_def zero_time_def go_time)

lemma demo_baseflow: "EstimateBaseflow [demo_cycle 0, demo_cycle 24, demo_cycle 48] [] (- (264 * hour)) (72 * hour)
    = (\<lparr>bf_CPD = 1, bf_DropMM = 100, bf_Samples = 2, bf_PumpMMPerS = 10\<rparr>, True)"
  by (simp add: EstimateBaseflow_def baseflow_step_def demo_cycle_def IsCycle_def DropMM_def cycle_thresholds
      RainBetween_def rainEpsilonMM_def go_time seconds_of_def median_def BaseflowMinSamples_def)

lemma demo_inflow:
  "cumulativeInflow demo_obs 100 = map (\<lambda>(h, mm). \<lparr>vs_At = h * hour, vs_MM = mm\<rparr>)
     [(0, -100), (24, 0), (48, 100), (73, 110), (74, 150), (75, 150), (76, 150)]"
  "cumulativeInflow (demo_obs\<lparr>ho_Levels := ho_Levels demo_obs @ [demo_level 77 50]\<rparr>) 100 = map (\<lambda>(h, mm). \<lparr>vs_At = h * hour, vs_MM = mm\<rparr>)
     [(0, -100), (24, 0), (48, 100), (73, 110), (74, 150), (75, 150), (76, 150), (77, 250)]"
  by (simp_all add: cumulativeInflow_def inflow_events_def inflow_step_def demo_obs_def demo_cycle_def demo_level_def
      summaryAt_def go_search_def search_loop.simps EndedAt_def DropMM_def go_time)

lemmas rates_eval = InflowRates_def rates_loop.simps rate_at_def summaryAt_def go_search_def search_loop.simps
  slopePerSecond_def slope_sums_def go_div_def seconds_of_def

lemma demo_lag:
  "ResponseLag (InflowRates o1 100 (70 * hour) (76 * hour) hour (2 * hour)) 1 (72 * hour) (50 * hour) = (0, False)"
  using InflowRates_short [of "76 * hour" "70 * hour" "50 * hour"]
  by (simp add: ResponseLag_def zero_time_def go_time)

lemma demo_recession:
  "firstSustained (InflowRates demo_obs 100 (73 * hour) (76 * hour) hour (2 * hour)) (73 * hour) hour (RecessionRateFactor * 1) False \<noteq> None"
  "firstSustained (InflowRates (demo_obs\<lparr>ho_Levels := ho_Levels demo_obs @ [demo_level 77 50]\<rparr>) 100 (73 * hour) (76 * hour) hour (2 * hour))
     (73 * hour) hour (RecessionRateFactor * 1) False = None"
proof -
  show "firstSustained (InflowRates demo_obs 100 (73 * hour) (76 * hour) hour (2 * hour)) (73 * hour) hour (RecessionRateFactor * 1) False \<noteq> None"
    by (simp add: InflowRates_def demo_inflow) 
       (simp add: demo_obs_def rates_eval go_time firstSustained_def rate_cond_def RecessionRateFactor_def Let_def)
  show "firstSustained (InflowRates (demo_obs\<lparr>ho_Levels := ho_Levels demo_obs @ [demo_level 77 50]\<rparr>) 100 (73 * hour) (76 * hour) hour (2 * hour))
     (73 * hour) hour (RecessionRateFactor * 1) False = None"
    by (simp add: InflowRates_def demo_inflow) 
       (simp add: demo_obs_def rates_eval go_time firstSustained_def rate_cond_def RecessionRateFactor_def)
qed

text \<open>
  An analysis can depend on data after the next storm began. Both homes report the same up to the next
  storm's first rain at hour 76; a level reported at hour 77 turns a recession found into none.
\<close>

theorem analysis_reads_past_until:
  "hs_HasRecession (AnalyseHomeStorm demo_obs 1 demo_storm [] (76 * hour) (100 * hour) demo_params)
   \<and> \<not> hs_HasRecession (AnalyseHomeStorm (demo_obs\<lparr>ho_Levels := ho_Levels demo_obs @ [demo_level 77 50]\<rparr>) 1 demo_storm []
         (76 * hour) (100 * hour) demo_params)"
proof -
  have e: "analysis_end demo_storm (76 * hour) (100 * hour) demo_params = 76 * hour"
    by (simp add: analysis_end_def demo_storm_def demo_params_def is_zero_def zero_time_def go_time)
  have c: "ho_Cycles demo_obs = [demo_cycle 0, demo_cycle 24, demo_cycle 48]" by (simp add: demo_obs_def)
  have st: "st_FirstRain demo_storm = 72 * hour" "st_Onset demo_storm = 72 * hour" "st_RainEnd demo_storm = 73 * hour"
    "rp_Step demo_params = hour" "rp_LagWindow demo_params = 2 * hour" "rp_LagHold demo_params = 50 * hour"
    "rp_RecessionWindow demo_params = 2 * hour" "rp_RecessionHold demo_params = hour"
    "rp_BaseflowLookback demo_params = 336 * hour"
    by (simp_all add: demo_storm_def demo_params_def)
  show ?thesis
    using demo_recession
    by (auto simp: AnalyseHomeStorm_def e c st demo_baseflow response_times_def demo_lag PumpRateLPS_def Let_def split: option.splits)
qed

end
