(* ===== verification/Rain_Select.thy ===== *)
theory Rain_Select
  imports Rain Gauge
begin

text \<open>
  The choice of rainfall, \<^verbatim>\<open>internal/storms/select.go\<close>: rows grouped into one series per station, own
  gauges first, and the intervals of the public source kept only where no gauge interval overlaps them.
  The table has two sources (\<^verbatim>\<open>gauge\<close> and \<^verbatim>\<open>eccc\<close>), on which the source's comparison is the order used
  here: gauges first, then by station.
\<close>

section \<open>Definitions\<close>

record rain_set =
  rs_stations :: "rain_interval list list"
  rs_gauge :: "bool list"

definition interval_of :: "rainfall_row \<Rightarrow> rain_interval" where
  "interval_of r = \<lparr>ri_Start = rf_Ts r, ri_Dur = rf_IntervalS r * second, ri_MM = rf_Mm r\<rparr>"

type_synonym time_span = "instant \<times> instant"

definition union_step :: "time_span list \<Rightarrow> rain_interval \<Rightarrow> time_span list" where
  "union_step out r =
     (if ri_Dur r \<le> 0 then out
      else if out \<noteq> [] \<and> \<not> ri_Start r > snd (last out)
        then (if ri_End r > snd (last out) then butlast out @ [(fst (last out), ri_End r)] else out)
      else out @ [(ri_Start r, ri_End r)])"

definition unionSpans :: "rain_interval list \<Rightarrow> time_span list" where
  "unionSpans iv = foldl union_step [] (sort_key ri_Start iv)"

definition covered_by :: "time_span list \<Rightarrow> rain_interval \<Rightarrow> bool" where
  "covered_by spans r =
     (let j = go_search (length spans) (\<lambda>k. snd (spans ! k) > ri_Start r)
      in j < length spans \<and> fst (spans ! j) < ri_End r)"

definition uncovered :: "rain_interval list \<Rightarrow> time_span list \<Rightarrow> rain_interval list" where
  "uncovered iv spans = filter (\<lambda>r. \<not> covered_by spans r) iv"

definition station_key :: "rainfall_row \<Rightarrow> string \<times> string" where
  "station_key r = (rf_Source r, rf_StationID r)"

text \<open>Keys in order of first appearance, then sorted.\<close>

definition station_keys :: "rainfall_row list \<Rightarrow> (string \<times> string) list" where
  "station_keys rows = sort_key (\<lambda>k. (fst k \<noteq> SourceGauge, snd k)) (first_keys (map station_key rows) [])"

definition series_of :: "rainfall_row list \<Rightarrow> string \<times> string \<Rightarrow> rain_interval list" where
  "series_of rows k = map interval_of (filter (\<lambda>r. station_key r = k) rows)"

definition selectRain :: "rainfall_row list \<Rightarrow> rain_set" where
  "selectRain rows =
     (let keys = station_keys rows;
          cover = concat (map (series_of rows) (filter (\<lambda>k. fst k = SourceGauge) keys));
          spans = unionSpans cover
      in foldl (\<lambda>set k.
           let iv = sort_key ri_Start (series_of rows k);
               isGauge = (fst k = SourceGauge);
               iv = (if \<not> isGauge then uncovered iv spans else iv)
           in if iv = [] then set
              else \<lparr>rs_stations = rs_stations set @ [iv], rs_gauge = rs_gauge set @ [isGauge]\<rparr>)
         \<lparr>rs_stations = [], rs_gauge = []\<rparr> keys)"

definition wet_step :: "(instant \<times> instant) option \<Rightarrow> rain_interval \<Rightarrow> (instant \<times> instant) option" where
  "wet_step ext r =
     (if \<not> Wet r then ext
      else case ext of
          None \<Rightarrow> Some (ri_Start r, ri_End r)
        | Some (first, last') \<Rightarrow> Some (if ri_Start r < first then ri_Start r else first, if ri_End r > last' then ri_End r else last'))"

definition wetExtent :: "rain_set \<Rightarrow> (instant \<times> instant) option" where
  "wetExtent s = foldl wet_step None (concat (rs_stations s))"

definition flatten :: "rain_set \<Rightarrow> rain_interval list" where
  "flatten s = concat (rs_stations s)"

definition sourceFor :: "rain_set \<Rightarrow> storm \<Rightarrow> string" where
  "sourceFor s st =
     (if list_ex (\<lambda>(iv, isGauge). isGauge \<and> list_ex (\<lambda>r. Wet r \<and> ri_End r > st_FirstRain st \<and> ri_Start r < st_RainEnd st) iv)
           (zip (rs_stations s) (rs_gauge s))
      then SourceGauge else SourceECCC)"

section \<open>Spans\<close>

definition spans_ok :: "time_span list \<Rightarrow> bool" where
  "spans_ok spans \<longleftrightarrow> sorted_wrt (\<lambda>a b. snd a < fst b) spans \<and> (\<forall>p \<in> set spans. fst p < snd p)"

definition in_spans :: "time_span list \<Rightarrow> instant \<Rightarrow> bool" where
  "in_spans spans t \<longleftrightarrow> (\<exists>p \<in> set spans. fst p \<le> t \<and> t < snd p)"

definition in_rain :: "rain_interval list \<Rightarrow> instant \<Rightarrow> bool" where
  "in_rain iv t \<longleftrightarrow> (\<exists>r \<in> set iv. ri_Start r \<le> t \<and> t < ri_End r)"

lemma union_step_spec:
  assumes ok: "spans_ok out" and le: "\<forall>p \<in> set out. fst p \<le> ri_Start r"
  shows "spans_ok (union_step out r) \<and> (\<forall>t. in_spans (union_step out r) t \<longleftrightarrow> in_spans out t \<or> (ri_Start r \<le> t \<and> t < ri_End r))
    \<and> (\<forall>p \<in> set (union_step out r). fst p \<le> ri_Start r)"
proof (cases out rule: rev_cases)
  case Nil
  then show ?thesis by (auto simp: union_step_def spans_ok_def in_spans_def ri_End_def)
next
  case (snoc ys y)
  obtain a b where y: "y = (a, b)" by fastforce
  have before: "\<forall>p \<in> set ys. fst p < snd p \<and> snd p < a" "a < b" "a \<le> ri_Start r" "sorted_wrt (\<lambda>a b. snd a < fst b) ys"
    using ok le by (auto simp: spans_ok_def snoc y sorted_wrt_append)
  show ?thesis using before le
    by (auto simp: union_step_def spans_ok_def in_spans_def snoc y sorted_wrt_append ri_End_def)
qed

lemma unionSpans_spec: "spans_ok (unionSpans iv) \<and> (\<forall>t. in_spans (unionSpans iv) t \<longleftrightarrow> in_rain iv t)"
proof -
  have "sorted (map ri_Start rs) \<Longrightarrow> spans_ok out \<Longrightarrow> (\<forall>p \<in> set out. \<forall>r \<in> set rs. fst p \<le> ri_Start r) \<Longrightarrow>
      spans_ok (foldl union_step out rs) \<and> (\<forall>t. in_spans (foldl union_step out rs) t \<longleftrightarrow> in_spans out t \<or> in_rain rs t)"
    for rs out
  proof (induction rs arbitrary: out)
    case (Cons r rs)
    have u: "spans_ok (union_step out r)" "\<And>t. in_spans (union_step out r) t \<longleftrightarrow> in_spans out t \<or> (ri_Start r \<le> t \<and> t < ri_End r)"
      "\<forall>p \<in> set (union_step out r). fst p \<le> ri_Start r"
      using union_step_spec [OF Cons.prems(2), of r] Cons.prems(3) by auto
    have "\<forall>p \<in> set (union_step out r). \<forall>x \<in> set rs. fst p \<le> ri_Start x"
      using u(3) Cons.prems(1) by fastforce
    then show ?case using Cons.IH [OF _ u(1)] Cons.prems(1) u(2) by (auto simp: in_rain_def)
  qed (simp add: in_rain_def)
  from this [of "sort_key ri_Start iv" "[]"] show ?thesis
    by (simp add: unionSpans_def in_rain_def) (simp add: in_spans_def spans_ok_def)
qed

definition overlaps :: "rain_interval \<Rightarrow> rain_interval \<Rightarrow> bool" where
  "overlaps a b \<longleftrightarrow> ri_Start a < ri_End b \<and> ri_Start b < ri_End a"

lemma covered_by_spec:
  assumes ok: "spans_ok spans" and r: "0 < ri_Dur r"
  shows "covered_by spans r \<longleftrightarrow> (\<exists>t. in_spans spans t \<and> ri_Start r \<le> t \<and> t < ri_End r)"
proof -
  let ?P = "\<lambda>p. snd p > ri_Start r"
  let ?j = "length (takeWhile (\<lambda>p. \<not> ?P p) spans)"
  have sorted: "snd (spans ! a) < fst (spans ! b)" if "a < b" "b < length spans" for a b
    using ok that by (simp add: spans_ok_def sorted_wrt_iff_nth_less)
  have ne: "fst (spans ! k) < snd (spans ! k)" if "k < length spans" for k
    using ok that nth_mem by (fastforce simp: spans_ok_def)
  have j: "go_search (length spans) (\<lambda>k. ?P (spans ! k)) = ?j"
  proof (rule go_search_list)
    fix a b assume "a \<le> b" "b < length spans" "?P (spans ! a)"
    then show "?P (spans ! b)" using sorted [of a b] ne [of b] by (cases "a = b") auto
  qed
  have before: "\<not> ?P (spans ! k)" if "k < ?j" for k using that by (metis nth_mem set_takeWhileD takeWhile_nth)
  show ?thesis
  proof
    assume "covered_by spans r"
    then have jl: "?j < length spans" and f: "fst (spans ! ?j) < ri_End r" by (simp_all add: covered_by_def j Let_def)
    have "?P (spans ! ?j)" using nth_length_takeWhile [OF jl] by simp
    then have "in_spans spans (max (ri_Start r) (fst (spans ! ?j)))"
      using jl ne [OF jl] unfolding in_spans_def by (intro bexI [of _ "spans ! ?j"]) auto
    then show "\<exists>t. in_spans spans t \<and> ri_Start r \<le> t \<and> t < ri_End r"
      using f r by (intro exI [of _ "max (ri_Start r) (fst (spans ! ?j))"]) (auto simp: ri_End_def)
  next
    assume "\<exists>t. in_spans spans t \<and> ri_Start r \<le> t \<and> t < ri_End r"
    then obtain t k where t: "ri_Start r \<le> t" "t < ri_End r" "k < length spans" "fst (spans ! k) \<le> t" "t < snd (spans ! k)"
      by (auto simp: in_spans_def in_set_conv_nth)
    then have "?j \<le> k" using before [of k] by (metis le_less_trans not_le)
    then have "?j < length spans" "fst (spans ! ?j) \<le> fst (spans ! k)"
      using t(3) sorted [of ?j k] ne [of ?j] by (auto simp: le_less)
    then show "covered_by spans r" using t by (simp add: covered_by_def j Let_def)
  qed
qed

section \<open>What is selected\<close>

lemma series_set: "set (series_of rows k) = interval_of ` {r \<in> set rows. station_key r = k}"
  by (auto simp: series_of_def)

text \<open>The series of one key, and the loop as a list of the series that are not empty.\<close>

definition chosen :: "rainfall_row list \<Rightarrow> time_span list \<Rightarrow> string \<times> string \<Rightarrow> rain_interval list" where
  "chosen rows spans k = (let iv = sort_key ri_Start (series_of rows k) in if fst k = SourceGauge then iv else uncovered iv spans)"

definition gauge_spans :: "rainfall_row list \<Rightarrow> time_span list" where
  "gauge_spans rows = unionSpans (concat (map (series_of rows) (filter (\<lambda>k. fst k = SourceGauge) (station_keys rows))))"

lemma selectRain_chosen:
  "selectRain rows = (let ks = filter (\<lambda>k. chosen rows (gauge_spans rows) k \<noteq> []) (station_keys rows)
     in \<lparr>rs_stations = map (chosen rows (gauge_spans rows)) ks, rs_gauge = map (\<lambda>k. fst k = SourceGauge) ks\<rparr>)"
proof -
  have "foldl (\<lambda>set k.
           let iv = sort_key ri_Start (series_of rows k);
               isGauge = (fst k = SourceGauge);
               iv = (if \<not> isGauge then uncovered iv spans else iv)
           in if iv = [] then set
              else \<lparr>rs_stations = rs_stations set @ [iv], rs_gauge = rs_gauge set @ [isGauge]\<rparr>) s keys
    = \<lparr>rs_stations = rs_stations s @ map (chosen rows spans) (filter (\<lambda>k. chosen rows spans k \<noteq> []) keys),
       rs_gauge = rs_gauge s @ map (\<lambda>k. fst k = SourceGauge) (filter (\<lambda>k. chosen rows spans k \<noteq> []) keys)\<rparr>" for s :: rain_set and keys spans
    by (induction keys arbitrary: s) (simp_all add: chosen_def Let_def)
  then show ?thesis unfolding selectRain_def gauge_spans_def [symmetric] Let_def by simp
qed

lemma gauge_spans_spec:
  "spans_ok (gauge_spans rows)
   \<and> (\<forall>t. in_spans (gauge_spans rows) t \<longleftrightarrow> (\<exists>g \<in> set rows. rf_Source g = SourceGauge \<and> rf_Ts g \<le> t \<and> t < rain_end g))"
proof -
  have "set (concat (map (series_of rows) (filter (\<lambda>k. fst k = SourceGauge) (station_keys rows))))
      = interval_of ` {g \<in> set rows. rf_Source g = SourceGauge}"
    by (auto simp: station_keys_def series_set station_key_def)
  then show ?thesis using unionSpans_spec
    by (auto simp: gauge_spans_def in_rain_def interval_of_def ri_End_def rain_end_def)
qed

lemma chosen_mem:
  assumes "\<forall>r \<in> set rows. 0 < rf_IntervalS r"
  shows "x \<in> set (chosen rows (gauge_spans rows) k) \<longleftrightarrow>
    (\<exists>r \<in> set rows. station_key r = k \<and> x = interval_of r
       \<and> (rf_Source r = SourceGauge \<or> \<not> (\<exists>g \<in> set rows. rf_Source g = SourceGauge \<and> rf_Ts g < rain_end r \<and> rf_Ts r < rain_end g)))"
proof -
  let ?g = "\<lambda>r. \<exists>g \<in> set rows. rf_Source g = SourceGauge \<and> rf_Ts g < rain_end r \<and> rf_Ts r < rain_end g"
  have cov: "covered_by (gauge_spans rows) (interval_of r) \<longleftrightarrow> ?g r" if r: "r \<in> set rows" for r
  proof -
    have "0 < ri_Dur (interval_of r)" using assms r by (simp add: interval_of_def second_def)
    then have "covered_by (gauge_spans rows) (interval_of r) \<longleftrightarrow>
        (\<exists>t. (\<exists>g \<in> set rows. rf_Source g = SourceGauge \<and> rf_Ts g \<le> t \<and> t < rain_end g) \<and> rf_Ts r \<le> t \<and> t < rain_end r)"
      using covered_by_spec gauge_spans_spec [of rows] by (auto simp: interval_of_def ri_End_def rain_end_def)
    also have "\<dots> \<longleftrightarrow> ?g r"
    proof
      assume "?g r"
      then obtain g where g: "g \<in> set rows" "rf_Source g = SourceGauge" "rf_Ts g < rain_end r" "rf_Ts r < rain_end g" by blast
      moreover have "rf_Ts g < rain_end g" "rf_Ts r < rain_end r" using assms r g(1) by (auto simp: rain_end_def second_def)
      ultimately show "\<exists>t. (\<exists>g \<in> set rows. rf_Source g = SourceGauge \<and> rf_Ts g \<le> t \<and> t < rain_end g) \<and> rf_Ts r \<le> t \<and> t < rain_end r"
        by (intro exI [of _ "max (rf_Ts g) (rf_Ts r)"]) auto
    qed force
    finally show ?thesis .
  qed
  have "x \<in> set (chosen rows (gauge_spans rows) k) \<longleftrightarrow> (\<exists>r \<in> set rows. station_key r = k \<and> x = interval_of r
      \<and> (fst k = SourceGauge \<or> \<not> covered_by (gauge_spans rows) (interval_of r)))"
    by (auto simp: chosen_def uncovered_def series_set Let_def)
  also have "\<dots> \<longleftrightarrow> (\<exists>r \<in> set rows. station_key r = k \<and> x = interval_of r \<and> (rf_Source r = SourceGauge \<or> \<not> ?g r))"
    by (intro bex_cong refl) (auto simp: cov station_key_def)
  finally show ?thesis .
qed

text \<open>
  C21: Own gauges win. The rainfall the storms are computed from holds every gauge interval, and an interval
  of the public source exactly when no gauge interval overlaps it; no station series is empty, each is
  in time order, and the series of gauges come first and are marked.
\<close>

theorem select_rain_spec:
  assumes "\<forall>r \<in> set rows. 0 < rf_IntervalS r"
  shows "set (flatten (selectRain rows)) = interval_of ` {r \<in> set rows. rf_Source r = SourceGauge
      \<or> \<not> (\<exists>g \<in> set rows. rf_Source g = SourceGauge \<and> rf_Ts g < rain_end r \<and> rf_Ts r < rain_end g)}
    \<and> (\<forall>iv \<in> set (rs_stations (selectRain rows)). iv \<noteq> [] \<and> sorted (map ri_Start iv))
    \<and> length (rs_gauge (selectRain rows)) = length (rs_stations (selectRain rows))
    \<and> sorted_wrt (\<lambda>a b. b \<longrightarrow> a) (rs_gauge (selectRain rows))"
proof -
  let ?ch = "chosen rows (gauge_spans rows)"
  let ?ks = "filter (\<lambda>k. ?ch k \<noteq> []) (station_keys rows)"
  have sel: "rs_stations (selectRain rows) = map ?ch ?ks" "rs_gauge (selectRain rows) = map (\<lambda>k. fst k = SourceGauge) ?ks"
    by (simp_all add: selectRain_chosen Let_def)
  have "set (flatten (selectRain rows)) = (\<Union>k \<in> station_key ` set rows. set (?ch k))"
    by (force simp: flatten_def sel station_keys_def)
  also have "\<dots> = interval_of ` {r \<in> set rows. rf_Source r = SourceGauge
      \<or> \<not> (\<exists>g \<in> set rows. rf_Source g = SourceGauge \<and> rf_Ts g < rain_end r \<and> rf_Ts r < rain_end g)}"
    by (simp only: set_eq_iff UN_iff chosen_mem [OF assms] image_iff mem_Collect_eq) blast
  finally have flat: "set (flatten (selectRain rows)) = interval_of ` {r \<in> set rows. rf_Source r = SourceGauge
      \<or> \<not> (\<exists>g \<in> set rows. rf_Source g = SourceGauge \<and> rf_Ts g < rain_end r \<and> rf_Ts r < rain_end g)}" .
  have "sorted (map ri_Start (?ch k))" for k
    by (simp add: chosen_def uncovered_def Let_def sorted_filter)
  then have series: "\<forall>iv \<in> set (rs_stations (selectRain rows)). iv \<noteq> [] \<and> sorted (map ri_Start iv)"
    by (auto simp: sel)
  have "sorted_wrt (\<lambda>a b. (fst a \<noteq> SourceGauge, snd a) \<le> (fst b \<noteq> SourceGauge, snd b)) (station_keys rows)"
    using sorted_sort_key [of "\<lambda>k. (fst k \<noteq> SourceGauge, snd k)" "first_keys (map station_key rows) []"]
    unfolding sorted_map station_keys_def .
  then have "sorted_wrt (\<lambda>a b. fst b = SourceGauge \<longrightarrow> fst a = SourceGauge) (station_keys rows)"
    by (rule sorted_wrt_mono_rel [rotated]) (auto simp: less_eq_prod_def)
  then have first: "sorted_wrt (\<lambda>a b. b \<longrightarrow> a) (rs_gauge (selectRain rows))"
    unfolding sel(2) sorted_wrt_map by (rule sorted_wrt_filter)
  have "length (rs_gauge (selectRain rows)) = length (rs_stations (selectRain rows))" by (simp add: sel)
  then show ?thesis by (intro conjI flat series first)
qed

theorem select_rain_spec_witness:
  "set (flatten (selectRain
     [\<lparr>rf_Source = ''eccc'', rf_StationID = ''a'', rf_Ts = 0, rf_IntervalS = 60, rf_Mm = 1, rf_UpdatedAt = 0\<rparr>,
      \<lparr>rf_Source = ''eccc'', rf_StationID = ''a'', rf_Ts = 90 * second, rf_IntervalS = 60, rf_Mm = 3, rf_UpdatedAt = 0\<rparr>,
      \<lparr>rf_Source = ''gauge'', rf_StationID = ''g'', rf_Ts = 30 * second, rf_IntervalS = 60, rf_Mm = 2, rf_UpdatedAt = 0\<rparr>]))
   = {\<lparr>ri_Start = 30 * second, ri_Dur = 60 * second, ri_MM = 2\<rparr>, \<lparr>ri_Start = 90 * second, ri_Dur = 60 * second, ri_MM = 3\<rparr>}"
proof -
  let ?rows = "[\<lparr>rf_Source = ''eccc'', rf_StationID = ''a'', rf_Ts = 0, rf_IntervalS = 60, rf_Mm = 1, rf_UpdatedAt = 0\<rparr>,
      \<lparr>rf_Source = ''eccc'', rf_StationID = ''a'', rf_Ts = 90 * second, rf_IntervalS = 60, rf_Mm = 3, rf_UpdatedAt = 0\<rparr>,
      \<lparr>rf_Source = ''gauge'', rf_StationID = ''g'', rf_Ts = 30 * second, rf_IntervalS = 60, rf_Mm = 2, rf_UpdatedAt = 0\<rparr>]"
  have pos: "\<forall>r \<in> set ?rows. 0 < rf_IntervalS r" by simp
  have "{r \<in> set ?rows. rf_Source r = SourceGauge
      \<or> \<not> (\<exists>g \<in> set ?rows. rf_Source g = SourceGauge \<and> rf_Ts g < rain_end r \<and> rf_Ts r < rain_end g)} = set (tl ?rows)"
    by (auto simp: SourceGauge_def rain_end_def second_def)
  then show ?thesis using conjunct1 [OF select_rain_spec [OF pos]] by (auto simp: interval_of_def)
qed

end
