(* ===== verification/Storms.thy ===== *)
theory Storms
  imports Rain_Select Response
begin

text \<open>
  Storm analytics, \<^verbatim>\<open>internal/storms/storms.go\<close>: the tables \<^verbatim>\<open>storm_events\<close> and \<^verbatim>\<open>home_storm_metrics\<close>
  with the statements the analyzer runs on them, the reconciliation of stored storms with the storms
  computed from rainfall, the recomputation of a home's metrics, and the handlers of the four stages.
  A statement fails when the oracle \<open>fails\<close> says so or when a constraint of the table is violated; the
  transaction is rolled back by the consumer, so an error carries no state. Row ids are numbers drawn
  from a counter; the columns that only record when a row was written are left out.
\<close>

section \<open>Tables\<close>

text \<open>A row of the join of house devices with their homes.\<close>

record linked_device =
  ld_DevEui :: string
  ld_HomeID :: uuid
  ld_PitAreaM2 :: real
  ld_LastSeenAt :: "instant option"

record storm_db =
  sd_storms :: "storm_row list"
  sd_next :: nat
  sd_metrics :: "metric_row list"
  sd_rain :: "rainfall_row list"
  sd_devices :: "linked_device list"
  sd_cycles :: "cycle_row list"
  sd_summaries :: "summary_row list"
  sd_readings :: "reading_row list"
  sd_notes :: "notification list"

datatype storm_stmt =
    SCandidates | SCovered string | SRainfall instant instant | SExisting | SNextStorm instant
  | SInsertStorm instant | SUpdateStorm nat | SDeleteStorm nat | SDevices | SMetrics nat
  | SCycles string | SSummaries string | SLevels string | SUpsertMetrics nat uuid | SDeleteMetrics nat uuid | SNotifyStorms

type_synonym stmt_faults = "storm_stmt \<Rightarrow> db_error option"

text \<open>A statement that reads: its result, or the error the oracle gives it.\<close>

definition query :: "stmt_faults \<Rightarrow> storm_stmt \<Rightarrow> 'a \<Rightarrow> db_error + 'a" where
  "query fails q x = (case fails q of Some e \<Rightarrow> Inl e | None \<Rightarrow> Inr x)"

section \<open>Statements\<close>

definition ListStormEventsOverlapping :: "storm_db \<Rightarrow> instant \<Rightarrow> instant \<Rightarrow> storm_row list" where
  "ListStormEventsOverlapping db from_ts to_ts =
     sort_key (\<lambda>r. (se_StartedAt r, se_ID r))
       (filter (\<lambda>r. se_StartedAt r < to_ts \<and> (case se_EndedAt r of None \<Rightarrow> True | Some e \<Rightarrow> e > from_ts)) (sd_storms db))"

definition storm_check :: "real \<Rightarrow> real \<Rightarrow> bool" where
  "storm_check tot peak \<longleftrightarrow> 0 \<le> tot \<and> 0 \<le> peak"

record storm_want =
  sw_startedAt :: instant
  sw_endedAt :: "instant option"
  sw_total :: real
  sw_peak :: real
  sw_source :: string
  sw_status :: string

definition row_of :: "nat \<Rightarrow> storm_want \<Rightarrow> storm_row" where
  "row_of i w = \<lparr>se_ID = i, se_StartedAt = sw_startedAt w, se_EndedAt = sw_endedAt w, se_TotalRainMm = sw_total w,
     se_PeakIntensityMmH = sw_peak w, se_RainSource = sw_source w, se_Status = sw_status w\<rparr>"

definition InsertStormEvent :: "storm_want \<Rightarrow> storm_db \<Rightarrow> db_error + (nat \<times> storm_db)" where
  "InsertStormEvent w db =
     (if \<not> storm_check (sw_total w) (sw_peak w) then Inl (DbError ''storm_events_check'')
      else Inr (sd_next db, db\<lparr>sd_storms := sd_storms db @ [row_of (sd_next db) w], sd_next := sd_next db + 1\<rparr>))"

definition UpdateStormEvent :: "nat \<Rightarrow> storm_want \<Rightarrow> storm_db \<Rightarrow> db_error + storm_db" where
  "UpdateStormEvent i w db =
     (if \<not> storm_check (sw_total w) (sw_peak w) then Inl (DbError ''storm_events_check'')
      else Inr (db\<lparr>sd_storms := map (\<lambda>r. if se_ID r = i then row_of i w else r) (sd_storms db)\<rparr>))"

text \<open>Deleting a storm deletes its metrics with it.\<close>

definition DeleteStormEvent :: "nat \<Rightarrow> storm_db \<Rightarrow> storm_db" where
  "DeleteStormEvent i db = db\<lparr>sd_storms := filter (\<lambda>r. se_ID r \<noteq> i) (sd_storms db),
     sd_metrics := filter (\<lambda>m. hm_StormID m \<noteq> i) (sd_metrics db)\<rparr>"

definition ListHomeMetricsForStorm :: "storm_db \<Rightarrow> nat \<Rightarrow> metric_row list" where
  "ListHomeMetricsForStorm db i = sort_key hm_HomeID (filter (\<lambda>m. hm_StormID m = i) (sd_metrics db))"

definition pump_rate_complete :: "metric_row \<Rightarrow> bool" where
  "pump_rate_complete m \<longleftrightarrow> (hm_PumpRateLps m = None) = (hm_PumpRateSource m = None)
     \<and> (hm_InflowEstL m = None) = (hm_PumpRateLps m = None)"

definition UpsertHomeStormMetrics :: "metric_row \<Rightarrow> storm_db \<Rightarrow> db_error + storm_db" where
  "UpsertHomeStormMetrics m db =
     (if hm_StormID m \<notin> set (map se_ID (sd_storms db)) then Inl (DbError ''home_storm_metrics_storm_id_fkey'')
      else if \<not> pump_rate_complete m then Inl (DbError ''home_storm_metrics_pump_rate_complete'')
      else Inr (db\<lparr>sd_metrics :=
        (if \<exists>x \<in> set (sd_metrics db). hm_StormID x = hm_StormID m \<and> hm_HomeID x = hm_HomeID m
         then map (\<lambda>x. if hm_StormID x = hm_StormID m \<and> hm_HomeID x = hm_HomeID m then m else x) (sd_metrics db)
         else sd_metrics db @ [m])\<rparr>))"

definition DeleteHomeStormMetrics :: "nat \<Rightarrow> uuid \<Rightarrow> storm_db \<Rightarrow> storm_db" where
  "DeleteHomeStormMetrics i h db =
     db\<lparr>sd_metrics := filter (\<lambda>m. \<not> (hm_StormID m = i \<and> hm_HomeID m = h)) (sd_metrics db)\<rparr>"

definition ListLinkedHouseDevices :: "storm_db \<Rightarrow> linked_device list" where
  "ListLinkedHouseDevices db = sort_key (\<lambda>d. (ld_HomeID d, ld_DevEui d)) (sd_devices db)"

definition ListRainfall :: "storm_db \<Rightarrow> instant \<Rightarrow> instant \<Rightarrow> instant \<Rightarrow> rainfall_row list" where
  "ListRainfall db scan_from from_ts to_ts =
     sort_key (\<lambda>r. (rf_Source r, rf_StationID r, rf_Ts r))
       (filter (\<lambda>r. rf_Ts r \<ge> scan_from \<and> rf_Ts r < to_ts \<and> rain_end r > from_ts) (sd_rain db))"

definition RainfallCoveredUntil :: "storm_db \<Rightarrow> string \<Rightarrow> instant \<Rightarrow> instant" where
  "RainfallCoveredUntil db src scan_from =
     (case map rain_end (filter (\<lambda>r. rf_Source r = src \<and> rf_Ts r \<ge> scan_from) (sd_rain db)) of
        [] \<Rightarrow> 0
      | t # ts \<Rightarrow> fold max ts t)"

definition ListCycleEventsForDevice :: "storm_db \<Rightarrow> string \<Rightarrow> instant \<Rightarrow> instant \<Rightarrow> cycle_row list" where
  "ListCycleEventsForDevice db dev from_ts to_ts =
     sort_key (\<lambda>r. (cr_StartedAt r, cr_FCnt r))
       (filter (\<lambda>r. cr_DeviceID r = dev \<and> cr_StartedAt r \<ge> from_ts \<and> cr_StartedAt r < to_ts) (sd_cycles db))"

definition ListStormSummariesForDevice :: "storm_db \<Rightarrow> string \<Rightarrow> instant \<Rightarrow> instant \<Rightarrow> summary_row list" where
  "ListStormSummariesForDevice db dev from_ts to_ts =
     sort_key (\<lambda>r. (sr_WindowEnd r, sr_FCnt r))
       (filter (\<lambda>r. sr_DeviceID r = dev \<and> sr_WindowEnd r \<ge> from_ts \<and> sr_WindowEnd r < to_ts) (sd_summaries db))"

definition ListLevelsForDevice :: "storm_db \<Rightarrow> string \<Rightarrow> instant \<Rightarrow> instant \<Rightarrow> reading_row list" where
  "ListLevelsForDevice db dev from_ts to_ts =
     sort_key (\<lambda>r. (rr_Ts r, rr_FCnt r))
       (filter (\<lambda>r. rr_DeviceID r = dev \<and> rr_Ts r \<ge> from_ts \<and> rr_Ts r < to_ts \<and> \<not> rr_SensorFault r) (sd_readings db))"

definition PollRainfall :: "rainfall_row list \<Rightarrow> instant \<Rightarrow> instant \<Rightarrow> nat \<Rightarrow> rainfall_row list" where
  "PollRainfall = poll_rows rf_UpdatedAt (\<lambda>r. (rf_Source r, rf_StationID r, rf_Ts r))"

interpretation rainfall_poll: poll_source PollRainfall rf_UpdatedAt
  unfolding PollRainfall_def by (rule poll_rows_source)

section \<open>Constants and small helpers\<close>

definition edgePad :: duration where "edgePad = StormMaxGap + hour"
definition extendStep :: duration where "extendStep = 24 * hour"
definition maxExtensions :: nat where "maxExtensions = 90"
definition rainScanBefore :: duration where "rainScanBefore = 7 * 24 * hour"
definition nextStormHorizon :: duration where "nextStormHorizon = 60 * 24 * hour"
definition statusOpen :: string where "statusOpen = ''open''"
definition statusClosed :: string where "statusClosed = ''closed''"

text \<open>A span that may not be set yet.\<close>

type_synonym span = "(instant \<times> instant) option"

definition span_add :: "span \<Rightarrow> instant \<Rightarrow> instant \<Rightarrow> span" where
  "span_add s from_ts to_ts = (case s of
     None \<Rightarrow> Some (from_ts, to_ts)
   | Some (f, t) \<Rightarrow> Some (if from_ts < f then from_ts else f, if to_ts > t then to_ts else t))"

definition round_to :: "real \<Rightarrow> nat \<Rightarrow> real" where
  "round_to v places = math_round (v * 10 ^ places) / 10 ^ places"

definition optFloat :: "real \<Rightarrow> bool \<Rightarrow> nat \<Rightarrow> real option" where
  "optFloat v ok places = (if \<not> ok then None else Some (round_to v places))"

definition dbTime :: "instant \<Rightarrow> instant" where
  "dbTime t = t - t mod 1000"

definition stormRowFor :: "storm \<Rightarrow> string \<Rightarrow> storm_want" where
  "stormRowFor s src = \<lparr>sw_startedAt = dbTime (st_Onset s),
     sw_endedAt = (if st_Closed s then Some (dbTime (st_RainEnd s)) else None),
     sw_total = round_to (st_TotalMM s) 2, sw_peak = round_to (st_PeakMMH s) 2, sw_source = src,
     sw_status = (if st_Closed s then statusClosed else statusOpen)\<rparr>"

definition sameAs :: "storm_want \<Rightarrow> storm_row \<Rightarrow> bool" where
  "sameAs w e \<longleftrightarrow> se_StartedAt e = sw_startedAt w \<and> (se_EndedAt e = None) = (sw_endedAt w = None)
     \<and> (sw_endedAt w = None \<or> se_EndedAt e = sw_endedAt w)
     \<and> se_TotalRainMm e = sw_total w \<and> se_PeakIntensityMmH e = sw_peak w
     \<and> se_RainSource e = sw_source w \<and> se_Status e = sw_status w"

section \<open>Reconciling storms\<close>

record storm_info =
  si_id :: nat
  si_storm :: storm
  si_source :: string
  si_until :: instant

definition horizon :: "stmt_faults \<Rightarrow> storm_db \<Rightarrow> instant \<Rightarrow> db_error + instant" where
  "horizon fails db from_ts =
     bind_sum (query fails (SCovered ''gauge'') (RainfallCoveredUntil db ''gauge'' (from_ts - rainScanBefore))) (\<lambda>t1.
     let h = (if t1 > zero_time then t1 else zero_time)
     in bind_sum (query fails (SCovered ''eccc'') (RainfallCoveredUntil db ''eccc'' (from_ts - rainScanBefore))) (\<lambda>t2.
     Inr (if t2 > h then t2 else h)))"

text \<open>The widening loop; \<open>n\<close> is the number of extensions left.\<close>

fun widen :: "stmt_faults \<Rightarrow> storm_db \<Rightarrow> instant \<Rightarrow> nat \<Rightarrow> instant \<Rightarrow> instant \<Rightarrow> db_error + (instant \<times> instant \<times> rain_set)" where
  "widen fails db hz n lo hi =
     bind_sum (query fails (SRainfall lo hi) (ListRainfall db (lo - rainScanBefore) lo hi)) (\<lambda>rows.
     let rset = selectRain rows
     in case wetExtent rset of
          None \<Rightarrow> Inr (lo, hi, rset)
        | Some (first, last') \<Rightarrow>
          (case n of
             0 \<Rightarrow> Inr (lo, hi, rset)
           | Suc m \<Rightarrow>
             let l = (first - lo < edgePad); r = (hi - last' < edgePad \<and> hi < hz)
             in if \<not> l \<and> \<not> r then Inr (lo, hi, rset)
                else widen fails db hz m (if l then lo - extendStep else lo) (if r then hi + extendStep else hi)))"

declare widen.simps [simp del]

text \<open>Rows the reconciliation owns, each with whether a computed storm has used it.\<close>

type_synonym owned = "(storm_row \<times> bool) list"

text \<open>The rows one computed storm takes: the first becomes its row, the others are deleted.\<close>

fun match_rows :: "storm \<Rightarrow> owned \<Rightarrow> storm_row option \<Rightarrow> owned \<times> storm_row option \<times> nat list" where
  "match_rows c [] m = ([], m, [])"
| "match_rows c ((e, u) # own) m =
     (if u \<or> se_StartedAt e < st_FirstRain c \<or> se_StartedAt e > st_RainEnd c
      then let (own', m', ds) = match_rows c own m in ((e, u) # own', m', ds)
      else case m of
          None \<Rightarrow> let (own', m', ds) = match_rows c own (Some e) in ((e, True) # own', m', ds)
        | Some _ \<Rightarrow> let (own', m', ds) = match_rows c own m in ((e, True) # own', m', se_ID e # ds))"

fun delete_storms :: "stmt_faults \<Rightarrow> nat list \<Rightarrow> storm_db \<Rightarrow> db_error + storm_db" where
  "delete_storms fails [] db = Inr db"
| "delete_storms fails (i # is) db =
     (case fails (SDeleteStorm i) of Some e \<Rightarrow> Inl e | None \<Rightarrow> delete_storms fails is (DeleteStormEvent i db))"

definition nextStormOnset :: "stmt_faults \<Rightarrow> storm_db \<Rightarrow> instant \<Rightarrow> db_error + instant" where
  "nextStormOnset fails db after =
     bind_sum (query fails (SNextStorm after) (ListStormEventsOverlapping db after (after + nextStormHorizon))) (\<lambda>rows.
     Inr (case find (\<lambda>r. se_StartedAt r > after) rows of Some r \<Rightarrow> se_StartedAt r | None \<Rightarrow> zero_time))"

text \<open>The row of one computed storm: inserted, updated when it differs, or left. The number is 1 for a change.\<close>

definition put_storm :: "stmt_faults \<Rightarrow> storm_want \<Rightarrow> storm_row option \<Rightarrow> storm_db \<Rightarrow> db_error + (nat \<times> bool \<times> storm_db)" where
  "put_storm fails w m db =
     (case m of
        None \<Rightarrow> (case fails (SInsertStorm (sw_startedAt w)) of
            Some e \<Rightarrow> Inl e
          | None \<Rightarrow> bind_sum (InsertStormEvent w db) (\<lambda>(i, db'). Inr (i, True, db')))
      | Some e \<Rightarrow>
          if sameAs w e then Inr (se_ID e, False, db)
          else (case fails (SUpdateStorm (se_ID e)) of
              Some err \<Rightarrow> Inl err
            | None \<Rightarrow> bind_sum (UpdateStormEvent (se_ID e) w db) (\<lambda>db'. Inr (se_ID e, True, db'))))"

type_synonym refresh_state = "storm_db \<times> owned \<times> storm_info list \<times> nat list \<times> nat"

text \<open>The body of the loop for one computed storm, \<open>nxt\<close> being the one after it.\<close>

definition refresh_one :: "stmt_faults \<Rightarrow> rain_set \<Rightarrow> storm \<Rightarrow> storm option \<Rightarrow> refresh_state \<Rightarrow> db_error + refresh_state" where
  "refresh_one fails rset c nxt = (\<lambda>(db, own, infos, changed, changes).
     let w = stormRowFor c (sourceFor rset c);
         (own, m, ds) = match_rows c own None
     in bind_sum (delete_storms fails ds db) (\<lambda>db.
        bind_sum (put_storm fails w m db) (\<lambda>(i, ch, db).
        bind_sum (case nxt of Some c' \<Rightarrow> Inr (st_Onset c') | None \<Rightarrow> nextStormOnset fails db (st_RainEnd c)) (\<lambda>until_ts.
        Inr (db, own, infos @ [\<lparr>si_id = i, si_storm = c, si_source = sw_source w, si_until = until_ts\<rparr>],
             (if ch then changed @ [i] else changed), changes + length ds + (if ch then 1 else 0))))))"

fun refresh_loop :: "stmt_faults \<Rightarrow> rain_set \<Rightarrow> instant \<Rightarrow> instant \<Rightarrow> storm list \<Rightarrow> refresh_state \<Rightarrow> db_error + refresh_state" where
  "refresh_loop fails rset lo hi [] st = Inr st"
| "refresh_loop fails rset lo hi (c # cs) st =
     (if \<not> st_RainEnd c > lo \<or> \<not> st_FirstRain c < hi
      then refresh_loop fails rset lo hi cs st
      else bind_sum (refresh_one fails rset c (case cs of [] \<Rightarrow> None | c' # _ \<Rightarrow> Some c') st)
             (\<lambda>st. refresh_loop fails rset lo hi cs st))"

definition delete_unused :: "stmt_faults \<Rightarrow> refresh_state \<Rightarrow> db_error + (storm_db \<times> storm_info list \<times> nat list \<times> nat)" where
  "delete_unused fails = (\<lambda>(db, own, infos, changed, changes).
     let rest = map (\<lambda>p. se_ID (fst p)) (filter (\<lambda>p. \<not> snd p) own)
     in bind_sum (delete_storms fails rest db) (\<lambda>db. Inr (db, infos, changed, changes + length rest)))"

definition refreshStorms :: "stmt_faults \<Rightarrow> storm_db \<Rightarrow> instant \<Rightarrow> instant \<Rightarrow> db_error + (storm_db \<times> storm_info list \<times> nat list \<times> nat)" where
  "refreshStorms fails db lo0 hi0 =
     bind_sum (horizon fails db lo0) (\<lambda>hz.
     bind_sum (widen fails db hz maxExtensions lo0 hi0) (\<lambda>(lo, hi, rset).
     let computed = FindStorms (rs_stations rset) hz
     in bind_sum (query fails SExisting (ListStormEventsOverlapping db lo hi)) (\<lambda>existing.
     let owned = map (\<lambda>e. (e, False)) (filter (\<lambda>e. \<not> se_StartedAt e < lo) existing)
     in bind_sum (refresh_loop fails rset lo hi computed (db, owned, [], [], 0)) (delete_unused fails))))"

section \<open>Metrics of a home\<close>

record device =
  dv_dev :: string
  dv_home :: uuid
  dv_pitArea :: real
  dv_lastSeen :: instant

text \<open>One device per home: the first by device id that has been seen.\<close>

fun first_devices :: "linked_device list \<Rightarrow> uuid list \<Rightarrow> device list" where
  "first_devices [] seen = []"
| "first_devices (r # rs) seen =
     (case ld_LastSeenAt r of
        None \<Rightarrow> first_devices rs seen
      | Some t \<Rightarrow>
          if ld_HomeID r \<in> set seen then first_devices rs seen
          else \<lparr>dv_dev = ld_DevEui r, dv_home = ld_HomeID r, dv_pitArea = ld_PitAreaM2 r, dv_lastSeen = t\<rparr>
               # first_devices rs (ld_HomeID r # seen))"

definition devices :: "stmt_faults \<Rightarrow> storm_db \<Rightarrow> db_error + device list" where
  "devices fails db = bind_sum (query fails SDevices (ListLinkedHouseDevices db)) (\<lambda>rows. Inr (first_devices rows []))"

definition targets :: "response_params \<Rightarrow> storm_info \<Rightarrow> bool \<Rightarrow> device list \<Rightarrow> (string \<rightharpoonup> instant \<times> instant) \<Rightarrow> device list" where
  "targets p si stormChanged devs touched =
     (if stormChanged then devs
      else let dependsFrom = st_FirstRain (si_storm si) - rp_BaseflowLookback p;
               dependsTo = st_RainEnd (si_storm si) + rp_MaxRecession p
        in filter (\<lambda>d. case touched (dv_dev d) of
             None \<Rightarrow> False
           | Some (f, t) \<Rightarrow> \<not> t < dependsFrom \<and> \<not> f > dependsTo) devs)"

definition baseflowRain :: "stmt_faults \<Rightarrow> response_params \<Rightarrow> storm_db \<Rightarrow> storm \<Rightarrow> db_error + rain_interval list" where
  "baseflowRain fails p db s =
     (let from_ts = st_FirstRain s - rp_BaseflowLookback p - BaseflowDryFor
      in bind_sum (query fails (SRainfall from_ts (st_FirstRain s)) (ListRainfall db (from_ts - rainScanBefore) from_ts (st_FirstRain s)))
           (\<lambda>rows. Inr (flatten (selectRain rows))))"

definition loadObs :: "stmt_faults \<Rightarrow> response_params \<Rightarrow> storm_db \<Rightarrow> string \<Rightarrow> storm \<Rightarrow> instant \<Rightarrow> db_error + home_obs" where
  "loadObs fails p db dev s end_ts =
     (let from_ts = st_FirstRain s - rp_BaseflowLookback p;
          near = minTime (st_FirstRain s) (st_Onset s) + (- rp_LagWindow p - hour)
      in bind_sum (query fails (SCycles dev) (ListCycleEventsForDevice db dev from_ts end_ts)) (\<lambda>cs.
         bind_sum (query fails (SSummaries dev) (ListStormSummariesForDevice db dev near end_ts)) (\<lambda>ss.
         bind_sum (query fails (SLevels dev) (ListLevelsForDevice db dev near end_ts)) (\<lambda>ls.
         Inr (Sort \<lparr>ho_Cycles = map (\<lambda>c. \<lparr>cy_StartedAt = cr_StartedAt c, cy_RunS = cr_RunS c, cy_LevelStartMM = cr_LevelStartMm c,
                 cy_LevelEndMM = cr_LevelEndMm c, cy_Pump = cr_PumpID c\<rparr>) cs,
               ho_Summaries = map (\<lambda>m. \<lparr>su_WindowEnd = sr_WindowEnd m, su_WindowS = sr_WindowS m, su_Count = sr_CycleCount m,
                 su_TotalRunS = sr_TotalRunS m\<rparr>) ss,
               ho_Levels = map (\<lambda>l. \<lparr>ls_At = rr_Ts l, ls_DistanceMM = rr_LevelMm l\<rparr>) ls\<rparr>)))))"

definition minutes_of :: "duration \<Rightarrow> real" where
  "minutes_of d = real_of_int d / real_of_int minute"

definition metrics_row :: "nat \<Rightarrow> uuid \<Rightarrow> home_storm \<Rightarrow> metric_row" where
  "metrics_row i home h = \<lparr>hm_StormID = i, hm_HomeID = home,
     hm_LagMin = optFloat (minutes_of (hs_Lag h)) (hs_HasLag h) 1,
     hm_RecessionMin = optFloat (minutes_of (hs_Recession h)) (hs_HasRecession h) 1,
     hm_VolumeL = round_to (hs_VolumeL h) 1,
     hm_Cycles = wrap32 (min (hs_Cycles h) 2147483647),
     hm_BaseflowCpd = optFloat (bf_CPD (hs_Baseflow h)) (hs_HasBaseflow h) 3,
     hm_InflowEstL = optFloat (hs_InflowEstL h) (hs_HasPumpRate h) 1,
     hm_PumpRateLps = optFloat (hs_PumpRateLPS h) (hs_HasPumpRate h) 4,
     hm_PumpRateSource = (if hs_HasPumpRate h then Some (hs_PumpRateSource h) else None)\<rparr>"

definition recompute_end :: "response_params \<Rightarrow> storm_info \<Rightarrow> device \<Rightarrow> instant" where
  "recompute_end p si d =
     (let e = st_RainEnd (si_storm si) + rp_MaxRecession p;
          e = (if \<not> is_zero (si_until si) \<and> si_until si < e then si_until si else e)
      in if dv_lastSeen d + second < e then dv_lastSeen d + second else e)"

definition recomputeHome ::
  "stmt_faults \<Rightarrow> response_params \<Rightarrow> storm_info \<Rightarrow> device \<Rightarrow> rain_interval list \<Rightarrow> (uuid \<rightharpoonup> metric_row) \<Rightarrow> storm_db
     \<Rightarrow> db_error + (nat \<times> storm_db)" where
  "recomputeHome fails p si d rain existing db =
     bind_sum (loadObs fails p db (dv_dev d) (si_storm si) (recompute_end p si d)) (\<lambda>obs.
     let h = AnalyseHomeStorm obs (dv_pitArea d) (si_storm si) rain (si_until si) (dv_lastSeen d) p
     in if \<not> hs_HasSamples h
        then (case existing (dv_home d) of
            None \<Rightarrow> Inr (0, db)
          | Some _ \<Rightarrow> (case fails (SDeleteMetrics (si_id si) (dv_home d)) of
                Some e \<Rightarrow> Inl e
              | None \<Rightarrow> Inr (1, DeleteHomeStormMetrics (si_id si) (dv_home d) db)))
        else let row = metrics_row (si_id si) (dv_home d) h
          in if (case existing (dv_home d) of
                   None \<Rightarrow> False
                 | Some old \<Rightarrow> old\<lparr>hm_StormID := si_id si, hm_HomeID := dv_home d\<rparr> = row)
             then Inr (0, db)
             else (case fails (SUpsertMetrics (si_id si) (dv_home d)) of
                 Some e \<Rightarrow> Inl e
               | None \<Rightarrow> bind_sum (UpsertHomeStormMetrics row db) (\<lambda>db. Inr (1, db))))"

fun recompute_all ::
  "stmt_faults \<Rightarrow> response_params \<Rightarrow> storm_info \<Rightarrow> rain_interval list \<Rightarrow> (uuid \<rightharpoonup> metric_row) \<Rightarrow> device list \<Rightarrow> nat \<times> storm_db
     \<Rightarrow> db_error + (nat \<times> storm_db)" where
  "recompute_all fails p si rain existing [] acc = Inr acc"
| "recompute_all fails p si rain existing (d # ds) (n, db) =
     bind_sum (recomputeHome fails p si d rain existing db) (\<lambda>(k, db). recompute_all fails p si rain existing ds (n + k, db))"

text \<open>The metrics of one storm, read into a map by home (a later row of the same home would win).\<close>

definition by_home :: "metric_row list \<Rightarrow> (uuid \<rightharpoonup> metric_row)" where
  "by_home ms = map_of (rev (map (\<lambda>m. (hm_HomeID m, m)) ms))"

fun storms_loop ::
  "stmt_faults \<Rightarrow> response_params \<Rightarrow> nat list \<Rightarrow> device list \<Rightarrow> (string \<rightharpoonup> instant \<times> instant) \<Rightarrow> storm_info list \<Rightarrow> nat \<times> storm_db
     \<Rightarrow> db_error + (nat \<times> storm_db)" where
  "storms_loop fails p changed devs touched [] acc = Inr acc"
| "storms_loop fails p changed devs touched (si # sis) (n, db) =
     (let ts = targets p si (si_id si \<in> set changed) devs touched
      in if ts = [] then storms_loop fails p changed devs touched sis (n, db)
         else bind_sum (query fails (SMetrics (si_id si)) (ListHomeMetricsForStorm db (si_id si))) (\<lambda>existing.
              bind_sum (baseflowRain fails p db (si_storm si)) (\<lambda>rain.
              bind_sum (recompute_all fails p si rain (by_home existing) ts (n, db)) (\<lambda>acc.
              storms_loop fails p changed devs touched sis acc))))"

section \<open>Processing a batch\<close>

definition cand_window :: "span \<Rightarrow> storm_row \<Rightarrow> span" where
  "cand_window w c = span_add w (se_StartedAt c - edgePad)
     ((case se_EndedAt c of None \<Rightarrow> se_StartedAt c | Some e \<Rightarrow> e) + edgePad)"

text \<open>Touched devices as an association list in some order, one entry per device.\<close>

definition window_of :: "stmt_faults \<Rightarrow> response_params \<Rightarrow> storm_db \<Rightarrow> span \<Rightarrow> (string \<times> instant \<times> instant) list \<Rightarrow> db_error + span" where
  "window_of fails p db rain devs =
     (let w = (case rain of None \<Rightarrow> None | Some (f, t) \<Rightarrow> span_add None (f - edgePad) (t + edgePad))
      in case foldl (\<lambda>s (_, f, t). span_add s f t) None devs of
           None \<Rightarrow> Inr w
         | Some (f, t) \<Rightarrow>
             bind_sum (query fails SCandidates (ListStormEventsOverlapping db (f + (- rp_MaxRecession p - 24 * hour))
                 (t + (rp_BaseflowLookback p + 24 * hour))))
               (\<lambda>cands. Inr (foldl cand_window w cands)))"

definition process :: "stmt_faults \<Rightarrow> response_params \<Rightarrow> span \<Rightarrow> (string \<times> instant \<times> instant) list \<Rightarrow> storm_db \<Rightarrow> db_error + storm_db" where
  "process fails p rain devs db =
     bind_sum (window_of fails p db rain devs) (\<lambda>window.
     case window of
       None \<Rightarrow> Inr db
     | Some (w_from, w_to) \<Rightarrow>
       bind_sum (refreshStorms fails db w_from w_to) (\<lambda>(db, infos, changed, stormChanges).
       bind_sum (if infos = [] then Inr (0, db)
                 else bind_sum (devices fails db) (\<lambda>ds. storms_loop fails p changed ds (map_of devs) infos (0, db))) (\<lambda>(metricChanges, db).
       if stormChanges + metricChanges > 0
       then (case fails SNotifyStorms of
           Some e \<Rightarrow> Inl e
         | None \<Rightarrow> Inr (db\<lparr>sd_notes := sd_notes db @ [\<lparr>n_Table = ''storm_events'', n_N = stormChanges + metricChanges,
             n_MinTS = w_from, n_MaxTS = w_to\<rparr>]\<rparr>))
       else Inr db)))"

definition rainfall_Handle :: "stmt_faults \<Rightarrow> response_params \<Rightarrow> rainfall_row list \<Rightarrow> storm_db \<Rightarrow> db_error + storm_db" where
  "rainfall_Handle fails p rows db =
     process fails p (foldl (\<lambda>s r. span_add s (rf_Ts r) (rain_end r)) None rows) [] db"

definition touch_device :: "(string \<times> instant \<times> instant) list \<Rightarrow> string \<times> instant \<Rightarrow> (string \<times> instant \<times> instant) list" where
  "touch_device devs = (\<lambda>(dev, t). AList.map_default dev (t, t)
     (\<lambda>(f, u). (if t < f then t else f, if t > u then t else u)) devs)"

definition telemetry_Handle :: "stmt_faults \<Rightarrow> response_params \<Rightarrow> ('r \<Rightarrow> string \<times> instant) \<Rightarrow> 'r list \<Rightarrow> storm_db \<Rightarrow> db_error + storm_db" where
  "telemetry_Handle fails p at_of rows db = process fails p None (foldl touch_device [] (map at_of rows)) db"

definition rainfall_stage :: "rainfall_row source" where
  "rainfall_stage = \<lparr>s_Table = ''rainfall'', s_Poll = PollRainfall, s_InsertedAt = rf_UpdatedAt\<rparr>"

definition cycle_at :: "cycle_row \<Rightarrow> string \<times> instant" where "cycle_at r = (cr_DeviceID r, cr_StartedAt r)"
definition summary_at :: "summary_row \<Rightarrow> string \<times> instant" where "summary_at r = (sr_DeviceID r, sr_WindowEnd r)"
definition reading_at :: "reading_row \<Rightarrow> string \<times> instant" where "reading_at r = (rr_DeviceID r, rr_Ts r)"

text \<open>The handlers the stages run: no state of their own.\<close>

definition stateless :: "('r list \<Rightarrow> 'w \<Rightarrow> db_error + 'w) \<Rightarrow> ('r, unit, 'w) handler_ops" where
  "stateless f = \<lparr>h_Handle = (\<lambda>s w rows. (s, f rows w)), h_Reset = id\<rparr>"

definition rainfall_ops :: "stmt_faults \<Rightarrow> response_params \<Rightarrow> (rainfall_row, unit, storm_db) handler_ops" where
  "rainfall_ops fails p = stateless (rainfall_Handle fails p)"

definition telemetry_ops :: "stmt_faults \<Rightarrow> response_params \<Rightarrow> ('r \<Rightarrow> string \<times> instant) \<Rightarrow> ('r, unit, storm_db) handler_ops" where
  "telemetry_ops fails p at_of = stateless (telemetry_Handle fails p at_of)"

section \<open>Outcomes of fallible code\<close>

text \<open>
  \<open>outcome fails P m\<close>: the computation \<open>m\<close> either returns a value satisfying \<open>P\<close> or fails with an error the
  oracle gave to some statement. The rules compose it along the code.
\<close>

definition outcome :: "stmt_faults \<Rightarrow> ('a \<Rightarrow> bool) \<Rightarrow> db_error + 'a \<Rightarrow> bool" where
  "outcome fails P m = (case m of Inl e \<Rightarrow> \<exists>q. fails q = Some e | Inr x \<Rightarrow> P x)"

named_theorems outcome_rules "rules that compose outcomes along the code"

lemma outcome_Inr [outcome_rules]: "P x \<Longrightarrow> outcome fails P (Inr x)"
  by (simp add: outcome_def)

lemma outcome_bind [outcome_rules]:
  "outcome fails P m \<Longrightarrow> (\<And>x. P x \<Longrightarrow> outcome fails Q (f x)) \<Longrightarrow> outcome fails Q (bind_sum m f)"
  by (cases m) (simp_all add: outcome_def bind_sum_def)

lemma outcome_seq:
  "outcome fails P m \<Longrightarrow> (\<And>x. m = Inr x \<Longrightarrow> P x \<Longrightarrow> outcome fails Q (f x)) \<Longrightarrow> outcome fails Q (bind_sum m f)"
  by (cases m) (simp_all add: outcome_def bind_sum_def)

lemma outcome_query [outcome_rules]: "outcome fails (\<lambda>y. y = x) (query fails q x)"
  by (auto simp: outcome_def query_def split: option.splits)

lemma outcome_fail [outcome_rules]:
  "(fails q = None \<Longrightarrow> outcome fails P m) \<Longrightarrow> outcome fails P (case fails q of Some e \<Rightarrow> Inl e | None \<Rightarrow> m)"
  by (auto simp: outcome_def split: option.splits)

lemma outcome_mono: "outcome fails P m \<Longrightarrow> (\<And>x. P x \<Longrightarrow> Q x) \<Longrightarrow> outcome fails Q m"
  by (auto simp: outcome_def split: sum.splits)

lemma outcome_dest: "outcome fails P m \<Longrightarrow> m = Inr x \<Longrightarrow> P x"
  by (simp add: outcome_def)

section \<open>The tables' invariant\<close>

definition storm_at :: "storm_db \<Rightarrow> nat \<Rightarrow> storm_row option" where
  "storm_at db = map_of (map (\<lambda>r. (se_ID r, r)) (sd_storms db))"

definition metric_key :: "metric_row \<Rightarrow> nat \<times> uuid" where
  "metric_key m = (hm_StormID m, hm_HomeID m)"

definition storms_ok :: "storm_db \<Rightarrow> bool" where
  "storms_ok db \<longleftrightarrow> distinct (map se_ID (sd_storms db)) \<and> (\<forall>r \<in> set (sd_storms db). se_ID r < sd_next db)
     \<and> distinct (map metric_key (sd_metrics db))
     \<and> (\<forall>m \<in> set (sd_metrics db). hm_StormID m \<in> se_ID ` set (sd_storms db) \<and> pump_rate_complete m)"

lemma storm_at_Some: "storms_ok db \<Longrightarrow> storm_at db i = Some r \<longleftrightarrow> r \<in> set (sd_storms db) \<and> se_ID r = i"
  by (auto simp: storm_at_def storms_ok_def comp_def map_of_eq_Some_iff)

lemma storm_at_None: "storm_at db i = None \<longleftrightarrow> i \<notin> se_ID ` set (sd_storms db)"
  by (force simp: storm_at_def map_of_eq_None_iff)

lemma storm_at_next: "storms_ok db \<Longrightarrow> storm_at db i \<noteq> None \<Longrightarrow> i < sd_next db"
  by (auto simp: storm_at_None storms_ok_def)

lemma delete_at: "storm_at (DeleteStormEvent i db) = (storm_at db)(i := None)"
proof -
  have "map_of (map (\<lambda>r. (se_ID r, r)) (filter (\<lambda>r. se_ID r \<noteq> i) rs)) = (map_of (map (\<lambda>r. (se_ID r, r)) rs))(i := None)" for rs
    by (induction rs) (auto simp: fun_eq_iff)
  then show ?thesis by (simp add: storm_at_def DeleteStormEvent_def)
qed

lemma delete_ok: "storms_ok db \<Longrightarrow> storms_ok (DeleteStormEvent i db)"
  by (auto simp: storms_ok_def DeleteStormEvent_def distinct_map inj_on_def)

lemma delete_next [simp]: "sd_next (DeleteStormEvent i db) = sd_next db"
  by (simp add: DeleteStormEvent_def)

lemma storms_ok_update:
  assumes "storms_ok db" and "map se_ID rs = map se_ID (sd_storms db)"
  shows "storms_ok (db\<lparr>sd_storms := rs\<rparr>)"
proof -
  have "se_ID ` set rs = se_ID ` set (sd_storms db)" using assms(2) by (metis set_map)
  moreover from this have "\<forall>r \<in> set rs. se_ID r < sd_next db" using assms(1) by (force simp: storms_ok_def)
  ultimately show ?thesis using assms by (simp add: storms_ok_def)
qed

lemma put_outcome:
  assumes ok: "storms_ok db" and w: "storm_check (sw_total w) (sw_peak w)"
    and m: "\<And>e. m = Some e \<Longrightarrow> storm_at db (se_ID e) = Some e"
  shows "outcome fails (\<lambda>(i, ch, db'). storms_ok db' \<and> storm_at db' = (storm_at db)(i \<mapsto> row_of i w)
     \<and> i = (case m of None \<Rightarrow> sd_next db | Some e \<Rightarrow> se_ID e) \<and> sd_next db \<le> sd_next db') (put_storm fails w m db)"
proof (cases m)
  case None
  let ?db = "db\<lparr>sd_storms := sd_storms db @ [row_of (sd_next db) w], sd_next := sd_next db + 1\<rparr>"
  have new: "sd_next db \<notin> se_ID ` set (sd_storms db)" using ok by (auto simp: storms_ok_def)
  then have "storms_ok ?db" using ok by (auto simp: storms_ok_def row_of_def)
  moreover have "storm_at ?db = (storm_at db)(sd_next db \<mapsto> row_of (sd_next db) w)"
    using storm_at_None [of db "sd_next db"] new by (auto simp: storm_at_def row_of_def fun_eq_iff map_add_def split: option.splits)
  ultimately show ?thesis
    unfolding put_storm_def None option.case
    by (intro outcome_rules) (auto simp: InsertStormEvent_def w bind_sum_def outcome_def)
next
  case (Some e)
  note e = m [OF Some]
  let ?db = "db\<lparr>sd_storms := map (\<lambda>r. if se_ID r = se_ID e then row_of (se_ID e) w else r) (sd_storms db)\<rparr>"
  have "storms_ok ?db" by (rule storms_ok_update [OF ok]) (simp add: row_of_def)
  moreover have "storm_at ?db = (storm_at db)(se_ID e \<mapsto> row_of (se_ID e) w)"
  proof -
    have "e \<in> set rs \<Longrightarrow> map_of (map (\<lambda>r. (se_ID r, r)) (map (\<lambda>r. if se_ID r = se_ID e then row_of (se_ID e) w else r) rs))
        = (map_of (map (\<lambda>r. (se_ID r, r)) rs))(se_ID e \<mapsto> row_of (se_ID e) w)" for rs
    proof (induction rs)
      case (Cons r rs)
      have "map_of (map (\<lambda>r. (se_ID r, r)) (map (\<lambda>r. if se_ID r = se_ID e then row_of (se_ID e) w else r) rs)) j
          = map_of (map (\<lambda>r. (se_ID r, r)) rs) j" if "j \<noteq> se_ID e" for j
        using that by (induction rs) (auto simp: row_of_def)
      then show ?case using Cons by (auto simp: fun_eq_iff row_of_def)
    qed simp
    then show ?thesis using e storm_at_Some [OF ok] by (simp add: storm_at_def comp_def)
  qed
  moreover have "e = row_of (se_ID e) w" if "sameAs w e" using that by (cases e) (auto simp: sameAs_def row_of_def)
  ultimately show ?thesis
    unfolding put_storm_def Some option.case
    using ok e by (auto simp: UpdateStormEvent_def w bind_sum_def outcome_def fun_eq_iff split: option.splits)
qed

lemma delete_storms_outcome:
  "storms_ok db \<Longrightarrow> outcome fails (\<lambda>db'. storms_ok db' \<and> (\<forall>j. storm_at db' j = (if j \<in> set is then None else storm_at db j))
     \<and> sd_next db' = sd_next db) (delete_storms fails is db)"
proof (induction "is" arbitrary: db)
  case (Cons i "is")
  show ?case unfolding delete_storms.simps
    by (rule outcome_fail, rule outcome_mono [OF Cons.IH [OF delete_ok [OF Cons.prems]]]) (auto simp: delete_at)
qed (simp add: outcome_def)

section \<open>Matching stored rows\<close>

definition hit :: "storm \<Rightarrow> storm_row \<Rightarrow> bool" where
  "hit c e \<longleftrightarrow> \<not> se_StartedAt e < st_FirstRain c \<and> \<not> se_StartedAt e > st_RainEnd c"

definition hits :: "storm \<Rightarrow> owned \<Rightarrow> storm_row list" where
  "hits c own = map fst (filter (\<lambda>(e, u). \<not> u \<and> hit c e) own)"

lemma match_rows_spec:
  "match_rows c own m = (map (\<lambda>(e, u). (e, u \<or> hit c e)) own,
     (case m of Some x \<Rightarrow> Some x | None \<Rightarrow> (case hits c own of [] \<Rightarrow> None | h # _ \<Rightarrow> Some h)),
     map se_ID (case m of Some x \<Rightarrow> hits c own | None \<Rightarrow> tl (hits c own)))"
proof (induction c own m rule: match_rows.induct)
  case (2 c e u own m)
  then show ?case by (cases m) (auto simp: hits_def hit_def split: list.splits)
qed (simp add: hits_def split: option.splits)

definition want_of :: "storm_info \<Rightarrow> storm_row" where
  "want_of si = row_of (si_id si) (stormRowFor (si_storm si) (si_source si))"

text \<open>
  The state of the reconciliation: the rows it owns and has not used are as they were, the used ones are
  either gone or the row of a computed storm, and no other row has changed.
\<close>

definition refresh_inv :: "storm_db \<Rightarrow> refresh_state \<Rightarrow> bool" where
  "refresh_inv db0 = (\<lambda>(db, own, infos, changed, changes).
     storms_ok db \<and> sd_next db0 \<le> sd_next db \<and> distinct (map si_id infos)
     \<and> (\<forall>si \<in> set infos. storm_at db (si_id si) = Some (want_of si))
     \<and> distinct (map (\<lambda>p. se_ID (fst p)) own)
     \<and> (\<forall>p \<in> set own. se_ID (fst p) < sd_next db0
          \<and> (if snd p then se_ID (fst p) \<in> si_id ` set infos \<or> storm_at db (se_ID (fst p)) = None
             else storm_at db (se_ID (fst p)) = Some (fst p) \<and> se_ID (fst p) \<notin> si_id ` set infos))
     \<and> (\<forall>j. j \<notin> si_id ` set infos \<and> j \<notin> (\<lambda>p. se_ID (fst p)) ` set own \<longrightarrow> storm_at db j = storm_at db0 j)
     \<and> (\<forall>j \<in> si_id ` set infos. j < sd_next db0 \<longrightarrow> (\<exists>p \<in> set own. se_ID (fst p) = j)))"

definition storm_sane :: "storm \<Rightarrow> bool" where
  "storm_sane c \<longleftrightarrow> 0 \<le> st_TotalMM c \<and> 0 \<le> st_PeakMMH c"

lemma round_to_nonneg: "0 \<le> v \<Longrightarrow> 0 \<le> round_to v n"
  by (simp add: round_to_def math_round_def)

lemma stormRowFor_check: "storm_sane c \<Longrightarrow> storm_check (sw_total (stormRowFor c s)) (sw_peak (stormRowFor c s))"
  by (simp add: storm_sane_def storm_check_def stormRowFor_def round_to_nonneg)

lemma refresh_invD:
  assumes "refresh_inv db0 (db, own, infos, changed, changes)"
  shows "distinct (map (\<lambda>p. se_ID (fst p)) own)" and "distinct (map si_id infos)"
    and "\<And>si. si \<in> set infos \<Longrightarrow> storm_at db (si_id si) = Some (want_of si)"
    and "sd_next db0 \<le> sd_next db" and "storms_ok db"
    and "\<And>p. p \<in> set own \<Longrightarrow> se_ID (fst p) < sd_next db0"
    and "\<And>e. (e, True) \<in> set own \<Longrightarrow> se_ID e \<in> si_id ` set infos \<or> storm_at db (se_ID e) = None"
    and "\<And>e. (e, False) \<in> set own \<Longrightarrow> storm_at db (se_ID e) = Some e \<and> se_ID e \<notin> si_id ` set infos"
    and "\<And>j. j \<notin> si_id ` set infos \<Longrightarrow> j \<notin> (\<lambda>p. se_ID (fst p)) ` set own \<Longrightarrow> storm_at db j = storm_at db0 j"
    and "\<And>j. j \<in> si_id ` set infos \<Longrightarrow> j < sd_next db0 \<Longrightarrow> \<exists>p \<in> set own. se_ID (fst p) = j"
  using assms unfolding refresh_inv_def prod.case by (blast, blast, blast, blast, blast, blast, force, force, blast, blast)

lemma refresh_step_inv:
  assumes inv: "refresh_inv db0 (db, own, infos, changed, changes)"
    and m: "match_rows c own None = (own', m, ds)"
    and del: "storms_ok db1" "\<And>j. storm_at db1 j = (if j \<in> set ds then None else storm_at db j)" "sd_next db1 = sd_next db"
    and put: "storms_ok db2" "storm_at db2 = (storm_at db1)(i \<mapsto> row_of i (stormRowFor c src))"
      "i = (case m of None \<Rightarrow> sd_next db1 | Some e \<Rightarrow> se_ID e)" "sd_next db1 \<le> sd_next db2"
  shows "refresh_inv db0 (db2, own', infos @ [\<lparr>si_id = i, si_storm = c, si_source = src, si_until = u\<rparr>], changed', changes')"
proof -
  let ?id = "\<lambda>p :: storm_row \<times> bool. se_ID (fst p)"
  let ?si = "\<lparr>si_id = i, si_storm = c, si_source = src, si_until = u\<rparr>"
  define hs where "hs = hits c own"
  have own': "own' = map (\<lambda>(e, u). (e, u \<or> hit c e)) own" and mh: "m = (case hs of [] \<Rightarrow> None | h # _ \<Rightarrow> Some h)"
    and ds: "ds = map se_ID (tl hs)"
    using m by (simp_all add: match_rows_spec hs_def)
  have ids': "map ?id own' = map ?id own" by (simp add: own' comp_def case_prod_unfold)
  note dist = refresh_invD(1) [OF inv] and infos = refresh_invD(2,3) [OF inv] and next0 = refresh_invD(4) [OF inv]
    and okdb = refresh_invD(5) [OF inv] and bound = refresh_invD(6) [OF inv] and used = refresh_invD(7) [OF inv]
    and unused = refresh_invD(8) [OF inv] and other = refresh_invD(9) [OF inv] and old = refresh_invD(10) [OF inv]
  have hs_mem: "e \<in> set hs \<longleftrightarrow> (e, False) \<in> set own \<and> hit c e" for e by (force simp: hs_def hits_def)
  have same: "e = e'" if "(e, b) \<in> set own" "(e', b') \<in> set own" "se_ID e = se_ID e'" for e e' b b'
    using dist that inj_onD [of ?id "set own" "(e, b)" "(e', b')"] by (simp add: distinct_map)
  have "distinct (map se_ID hs)"
    using distinct_map_filter [OF dist] by (simp add: hs_def hits_def comp_def)
  have new: "i \<notin> si_id ` set infos \<and> i \<notin> set ds \<and> (\<forall>e b. (e, b) \<in> set own \<longrightarrow> se_ID e = i \<longrightarrow> e \<in> set hs)
    \<and> (i < sd_next db0 \<longrightarrow> (\<exists>p \<in> set own. ?id p = i)) \<and> (\<forall>e \<in> set hs. se_ID e = i \<or> se_ID e \<in> set ds)"
  proof (cases hs)
    case Nil
    then have "i = sd_next db" using put(3) del(3) mh by simp
    moreover have "sd_next db \<notin> si_id ` set infos" using infos(2) storm_at_next [OF okdb] by fastforce
    ultimately show ?thesis using Nil ds bound next0 by fastforce
  next
    case (Cons h t)
    then have i: "i = se_ID h" and h: "(h, False) \<in> set own" using put(3) mh hs_mem [of h] by simp_all
    have "i \<notin> set ds" using \<open>distinct (map se_ID hs)\<close> by (simp add: Cons ds i)
    then show ?thesis using unused [OF h] same [OF _ h] h Cons ds i by force
  qed
  have ds_own: "j \<in> set ds \<Longrightarrow> \<exists>e. (e, False) \<in> set own \<and> hit c e \<and> se_ID e = j" for j
    using hs_mem ds by (cases hs) auto
  have at2: "storm_at db2 j = (if j = i then Some (row_of i (stormRowFor c src)) else if j \<in> set ds then None else storm_at db j)" for j
    using put(2) del(2) by simp
  have ds_infos: "j \<notin> si_id ` set infos" if "j \<in> set ds" for j using ds_own [OF that] unused by blast
  have rows: "se_ID e < sd_next db0 \<and> (if u' then se_ID e \<in> si_id ` set (infos @ [?si]) \<or> storm_at db2 (se_ID e) = None
      else storm_at db2 (se_ID e) = Some e \<and> se_ID e \<notin> si_id ` set (infos @ [?si]))" if p: "(e, u') \<in> set own'" for e u'
  proof -
    obtain u0 where o: "(e, u0) \<in> set own" "u' = (u0 \<or> hit c e)" using p by (auto simp: own')
    show ?thesis
    proof (cases u')
      case True
      then have "se_ID e \<in> si_id ` set infos \<or> storm_at db (se_ID e) = None \<or> e \<in> set hs"
        using o used [of e] hs_mem [of e] by (cases u0) auto
      then show ?thesis using True new bound [OF o(1)] at2 [of "se_ID e"] by auto
    next
      case False
      then have f: "(e, False) \<in> set own" "\<not> hit c e" using o by auto
      then have "se_ID e \<noteq> i" using new hs_mem by blast
      moreover have "se_ID e \<notin> set ds" using ds_own [of "se_ID e"] same [OF f(1)] f(2) by metis
      ultimately show ?thesis using unused [OF f(1)] False bound [OF o(1)] at2 [of "se_ID e"] by simp
    qed
  qed
  have "storm_at db2 j = storm_at db0 j" if "j \<notin> si_id ` set (infos @ [?si])" "j \<notin> ?id ` set own'" for j
  proof -
    have j: "j \<notin> ?id ` set own" using that(2) ids' by (metis set_map)
    then have "j \<notin> set ds" using ds_own by force
    then show ?thesis using that(1) other [OF _ j] at2 [of j] by simp
  qed
  moreover have "\<exists>p \<in> set own'. ?id p = j" if ji: "j \<in> si_id ` set (infos @ [?si])" and jl: "j < sd_next db0" for j
  proof -
    consider "j \<in> si_id ` set infos" | "j = i" using ji by auto
    then have "\<exists>p \<in> set own. ?id p = j" using old jl new by cases blast+
    then have "j \<in> set (map ?id own')" unfolding ids' by auto
    then show ?thesis by auto
  qed
  moreover have "storm_at db2 (si_id si) = Some (want_of si)" if "si \<in> set (infos @ [?si])" for si
  proof (cases "si \<in> set infos")
    case True
    then have "si_id si \<noteq> i" "si_id si \<notin> set ds" using new ds_infos by blast+
    then show ?thesis using infos(2) [OF True] at2 by simp
  next
    case False
    then show ?thesis using that at2 by (simp add: want_of_def)
  qed
  moreover have "distinct (map si_id (infos @ [?si]))" using infos(1) new by simp
  moreover have "distinct (map ?id own')" using dist ids' by simp
  moreover have "?id p < sd_next db0 \<and> (if snd p then ?id p \<in> si_id ` set (infos @ [?si]) \<or> storm_at db2 (?id p) = None
      else storm_at db2 (?id p) = Some (fst p) \<and> ?id p \<notin> si_id ` set (infos @ [?si]))" if "p \<in> set own'" for p
    using rows [of "fst p" "snd p", unfolded prod.collapse, OF that] .
  moreover have "sd_next db0 \<le> sd_next db2" using put(4) del(3) next0 by simp
  ultimately show ?thesis unfolding refresh_inv_def prod.case using put(1) by blast
qed

lemma nextStormOnset_outcome: "outcome fails (\<lambda>_. True) (nextStormOnset fails db t)"
  unfolding nextStormOnset_def by (rule outcome_bind [OF outcome_query]) (simp add: outcome_def)

text \<open>What a reconciliation step adds: the rows it owns stay the same rows, and \<open>cs\<close> are the storms recorded.\<close>

definition refreshed :: "storm_db \<Rightarrow> refresh_state \<Rightarrow> storm list \<Rightarrow> refresh_state \<Rightarrow> bool" where
  "refreshed db0 st cs st' \<longleftrightarrow> refresh_inv db0 st' \<and> map fst (fst (snd st')) = map fst (fst (snd st))
     \<and> map si_storm (fst (snd (snd st'))) = map si_storm (fst (snd (snd st))) @ cs"

lemma match_head:
  assumes inv: "refresh_inv db0 (db, own, infos, changed, changes)"
    and m: "match_rows c own None = (own', Some e, ds)"
    and d: "\<forall>j. storm_at db1 j = (if j \<in> set ds then None else storm_at db j)"
  shows "storm_at db1 (se_ID e) = Some e"
proof -
  obtain t where h: "hits c own = e # t" and ds: "ds = map se_ID t" using m by (auto simp: match_rows_spec split: list.splits)
  have "distinct (map se_ID (hits c own))"
    using inv distinct_map_filter [of "\<lambda>p. se_ID (fst p)" own] by (simp add: refresh_inv_def hits_def comp_def)
  moreover have "e \<in> set (hits c own)" using h by simp
  then have "(e, False) \<in> set own" by (auto simp: hits_def)
  then have "storm_at db (se_ID e) = Some e" using inv by (force simp: refresh_inv_def)
  ultimately show ?thesis using d h ds by simp
qed

lemma refresh_one_outcome:
  assumes inv: "refresh_inv db0 st" and sane: "storm_sane c"
  shows "outcome fails (refreshed db0 st [c]) (refresh_one fails rset c nxt st)"
proof -
  obtain db own infos changed changes where st: "st = (db, own, infos, changed, changes)" by (cases st) auto
  let ?w = "stormRowFor c (sourceFor rset c)"
  obtain own' m ds where mr: "match_rows c own None = (own', m, ds)" by (metis prod_cases3)
  have ok: "storms_ok db" using inv by (simp add: refresh_inv_def st)
  have src: "sw_source ?w = sourceFor rset c" by (simp add: stormRowFor_def)
  have own': "map fst own' = map fst own" using mr by (auto simp: match_rows_spec)
  have put: "outcome fails (\<lambda>(i, ch, db2). refresh_inv db0 (db2, own', infos @ [\<lparr>si_id = i, si_storm = c,
        si_source = sw_source ?w, si_until = u\<rparr>], changed', changes')) (put_storm fails ?w m db1)"
    if d: "storms_ok db1 \<and> (\<forall>j. storm_at db1 j = (if j \<in> set ds then None else storm_at db j)) \<and> sd_next db1 = sd_next db"
    for db1 u changed' changes'
  proof (rule outcome_mono [OF put_outcome [where db = db1]])
    show "storms_ok db1" using d by blast
    show "storm_check (sw_total ?w) (sw_peak ?w)" by (rule stormRowFor_check [OF sane])
    show "storm_at db1 (se_ID e) = Some e" if "m = Some e" for e
      using match_head [of db0 db own infos changed changes c own' e ds db1] inv mr d that st by simp
    fix r assume r: "case r of (i, ch, db') \<Rightarrow> storms_ok db' \<and> storm_at db' = (storm_at db1)(i \<mapsto> row_of i ?w)
       \<and> i = (case m of None \<Rightarrow> sd_next db1 | Some e \<Rightarrow> se_ID e) \<and> sd_next db1 \<le> sd_next db'"
    obtain i ch db2 where rr: "r = (i, ch, db2)" by (cases r) auto
    show "case r of (i, ch, db2) \<Rightarrow> refresh_inv db0 (db2, own', infos @ [\<lparr>si_id = i, si_storm = c,
        si_source = sw_source ?w, si_until = u\<rparr>], changed', changes')"
      unfolding rr prod.case src
      by (rule refresh_step_inv [OF inv [unfolded st] mr, of db1 db2]) (use d r rr src in auto)
  qed
  have "outcome fails (refreshed db0 st [c])
     (bind_sum (delete_storms fails ds db) (\<lambda>db.
        bind_sum (put_storm fails ?w m db) (\<lambda>(i, ch, db).
        bind_sum (case nxt of Some c' \<Rightarrow> Inr (st_Onset c') | None \<Rightarrow> nextStormOnset fails db (st_RainEnd c)) (\<lambda>until_ts.
        Inr (db, own', infos @ [\<lparr>si_id = i, si_storm = c, si_source = sw_source ?w, si_until = until_ts\<rparr>],
             (if ch then changed @ [i] else changed), changes + length ds + (if ch then 1 else 0))))))"
  proof (rule outcome_bind [OF delete_storms_outcome [OF ok]])
    fix db1 assume d: "storms_ok db1 \<and> (\<forall>j. storm_at db1 j = (if j \<in> set ds then None else storm_at db j)) \<and> sd_next db1 = sd_next db"
    have all: "outcome fails (\<lambda>(i, ch, db2). \<forall>u changed' changes'. refresh_inv db0 (db2, own', infos @ [\<lparr>si_id = i, si_storm = c,
        si_source = sw_source ?w, si_until = u\<rparr>], changed', changes')) (put_storm fails ?w m db1)"
      using put [OF d] by (auto simp: outcome_def split: sum.splits prod.splits)
    show "outcome fails (refreshed db0 st [c])
       (bind_sum (put_storm fails ?w m db1) (\<lambda>(i, ch, db).
        bind_sum (case nxt of Some c' \<Rightarrow> Inr (st_Onset c') | None \<Rightarrow> nextStormOnset fails db (st_RainEnd c)) (\<lambda>until_ts.
        Inr (db, own', infos @ [\<lparr>si_id = i, si_storm = c, si_source = sw_source ?w, si_until = until_ts\<rparr>],
             (if ch then changed @ [i] else changed), changes + length ds + (if ch then 1 else 0)))))"
    proof (rule outcome_bind [OF all])
      fix r :: "nat \<times> bool \<times> storm_db"
      assume r: "case r of (i, ch, db2) \<Rightarrow> \<forall>u changed' changes'. refresh_inv db0 (db2, own', infos @ [\<lparr>si_id = i, si_storm = c,
        si_source = sw_source ?w, si_until = u\<rparr>], changed', changes')"
      obtain i ch db2 where rr: "r = (i, ch, db2)" by (cases r) auto
      have n: "outcome fails (\<lambda>_. True) (case nxt of Some c' \<Rightarrow> Inr (st_Onset c') | None \<Rightarrow> nextStormOnset fails db2 (st_RainEnd c))"
        using nextStormOnset_outcome by (auto simp: outcome_Inr split: option.splits)
      show "outcome fails (refreshed db0 st [c]) (case r of (i, ch, db) \<Rightarrow>
        bind_sum (case nxt of Some c' \<Rightarrow> Inr (st_Onset c') | None \<Rightarrow> nextStormOnset fails db (st_RainEnd c)) (\<lambda>until_ts.
        Inr (db, own', infos @ [\<lparr>si_id = i, si_storm = c, si_source = sw_source ?w, si_until = until_ts\<rparr>],
             (if ch then changed @ [i] else changed), changes + length ds + (if ch then 1 else 0))))"
        unfolding rr prod.case
        by (rule outcome_bind [OF n], rule outcome_Inr) (use r rr own' st in \<open>auto simp: refreshed_def\<close>)
    qed
  qed
  then show ?thesis by (simp add: refresh_one_def st mr Let_def)
qed

lemma refresh_loop_outcome:
  assumes "refresh_inv db0 st" and "\<forall>c \<in> set cs. storm_sane c"
  shows "outcome fails (refreshed db0 st (filter (\<lambda>c. lo < st_RainEnd c \<and> st_FirstRain c < hi) cs)) (refresh_loop fails rset lo hi cs st)"
  using assms
proof (induction cs arbitrary: st)
  case Nil
  then show ?case by (simp add: outcome_def refreshed_def)
next
  case (Cons c cs)
  have sane: "storm_sane c" "\<forall>c \<in> set cs. storm_sane c" using Cons.prems(2) by auto
  show ?case
  proof (cases "\<not> st_RainEnd c > lo \<or> \<not> st_FirstRain c < hi")
    case True
    then show ?thesis using Cons.IH [OF Cons.prems(1) sane(2)] by auto
  next
    case False
    have "outcome fails (refreshed db0 st (c # filter (\<lambda>c. lo < st_RainEnd c \<and> st_FirstRain c < hi) cs))
       (bind_sum (refresh_one fails rset c nxt st) (\<lambda>st. refresh_loop fails rset lo hi cs st))" for nxt
    proof (rule outcome_bind [OF refresh_one_outcome [OF Cons.prems(1) sane(1)]])
      fix st1 assume r: "refreshed db0 st [c] st1"
      then have "refresh_inv db0 st1" by (simp add: refreshed_def)
      from outcome_mono [OF Cons.IH [OF this sane(2)]]
      show "outcome fails (refreshed db0 st (c # filter (\<lambda>c. lo < st_RainEnd c \<and> st_FirstRain c < hi) cs)) (refresh_loop fails rset lo hi cs st1)"
        using r by (auto simp: refreshed_def intro: outcome_mono [OF Cons.IH [OF \<open>refresh_inv db0 st1\<close> sane(2)]])
    qed
    then show ?thesis using False by simp
  qed
qed

text \<open>Computed storms satisfy the table's checks.\<close>

lemma flush_sane: "x \<in> set (flush out (Some s)) \<Longrightarrow> x \<in> set out \<or> (x = s \<and> 0 \<le> st_TotalMM s)"
  by (auto simp: flush_def StormMinTotalMM_def rainEpsilonMM_def split: if_splits)

lemma segment_step_sane:
  assumes "\<forall>s \<in> set out. storm_sane s" and "\<forall>s. cur = Some s \<longrightarrow> 0 \<le> st_PeakMMH s"
    and "segment_step (out, cur, f) r = (out', cur', f')"
  shows "(\<forall>s \<in> set out'. storm_sane s) \<and> (\<forall>s. cur' = Some s \<longrightarrow> 0 \<le> st_PeakMMH s)"
  using assms by (auto simp: segment_step_def Let_def storm_sane_def dest!: flush_sane split: if_splits option.splits prod.splits)

lemma segment_foldl_sane:
  "\<forall>s \<in> set out. storm_sane s \<Longrightarrow> \<forall>s. cur = Some s \<longrightarrow> 0 \<le> st_PeakMMH s \<Longrightarrow>
   foldl segment_step (out, cur, f) rain = (out', cur', f') \<Longrightarrow>
   (\<forall>s \<in> set out'. storm_sane s) \<and> (\<forall>s. cur' = Some s \<longrightarrow> 0 \<le> st_PeakMMH s)"
proof (induction rain arbitrary: out cur f)
  case (Cons r rain)
  obtain o1 c1 f1 where s: "segment_step (out, cur, f) r = (o1, c1, f1)" by (metis prod_cases3)
  then show ?case using segment_step_sane [OF Cons.prems(1,2) s] Cons.IH [of o1 c1 f1] Cons.prems(3) by simp
qed simp

lemma FindStorms_sane: "\<forall>c \<in> set (FindStorms stations hz). storm_sane c"
proof -
  have "\<forall>c \<in> set (SegmentStorms rain hz). storm_sane c" for rain
  proof -
    obtain out cur f where f: "foldl segment_step ([], None, False) rain = (out, cur, f)" by (metis prod_cases3)
    then show ?thesis using segment_foldl_sane [OF _ _ f]
      by (auto simp: SegmentStorms_def storm_sane_def dest!: flush_sane split: option.splits)
  qed
  then show ?thesis by (auto simp: FindStorms_def refine_storm_def storm_sane_def Let_def split: prod.splits)
qed

section \<open>The reconciliation as a whole\<close>

definition owned_row :: "instant \<Rightarrow> instant \<Rightarrow> storm_row \<Rightarrow> bool" where
  "owned_row lo hi e \<longleftrightarrow> lo \<le> se_StartedAt e \<and> se_StartedAt e < hi \<and> (case se_EndedAt e of None \<Rightarrow> True | Some t \<Rightarrow> t > lo)"

text \<open>
  What a reconciliation of the window from \<open>lo\<close> to \<open>hi\<close> with the computed storms \<open>cs\<close> leaves: a row with the
  computed values for each of them, none of the rows it owned besides, and every other row as it was.
\<close>

definition reconciled :: "storm_db \<Rightarrow> instant \<Rightarrow> instant \<Rightarrow> storm list \<Rightarrow> storm_db \<Rightarrow> storm_info list \<Rightarrow> bool" where
  "reconciled db lo hi cs db' infos \<longleftrightarrow> storms_ok db' \<and> distinct (map si_id infos)
     \<and> map si_storm infos = filter (\<lambda>c. lo < st_RainEnd c \<and> st_FirstRain c < hi) cs
     \<and> (\<forall>si \<in> set infos. storm_at db' (si_id si) = Some (want_of si))
     \<and> (\<forall>j. j \<notin> si_id ` set infos \<longrightarrow> storm_at db' j =
          (case storm_at db j of None \<Rightarrow> None | Some e \<Rightarrow> if owned_row lo hi e then None else Some e))"

lemma owned_mem:
  "e \<in> set (filter (\<lambda>e. \<not> se_StartedAt e < lo) (ListStormEventsOverlapping db lo hi)) \<longleftrightarrow> e \<in> set (sd_storms db) \<and> owned_row lo hi e"
  by (auto simp: ListStormEventsOverlapping_def owned_row_def split: option.splits)

lemma owned_distinct:
  assumes "storms_ok db"
  shows "distinct (map se_ID (filter (\<lambda>e. \<not> se_StartedAt e < lo) (ListStormEventsOverlapping db lo hi)))"
proof -
  have "distinct (sd_storms db)" "inj_on se_ID (set (sd_storms db))" using assms by (simp_all add: storms_ok_def distinct_map)
  then show ?thesis by (auto simp: ListStormEventsOverlapping_def distinct_map intro: inj_on_subset)
qed

lemma refresh_inv_init:
  assumes ok: "storms_ok db"
  shows "refresh_inv db (db, map (\<lambda>e. (e, False)) (filter (\<lambda>e. \<not> se_StartedAt e < lo) (ListStormEventsOverlapping db lo hi)), [], [], 0)"
proof -
  let ?es = "filter (\<lambda>e. \<not> se_StartedAt e < lo) (ListStormEventsOverlapping db lo hi)"
  have "storm_at db (se_ID e) = Some e \<and> se_ID e < sd_next db" if "e \<in> set ?es" for e
    using that ok storm_at_Some [OF ok, of "se_ID e" e] unfolding owned_mem by (simp add: storms_ok_def)
  then have rows: "\<forall>p \<in> set (map (\<lambda>e. (e, False)) ?es). se_ID (fst p) < sd_next db \<and> storm_at db (se_ID (fst p)) = Some (fst p)"
    by force
  show ?thesis unfolding refresh_inv_def using ok owned_distinct [OF ok, of lo hi] rows
    by (simp add: comp_def)
qed

lemma refresh_inv_final:
  assumes inv: "refresh_inv db0 (db, own, infos, changed, changes)" and ok: "storms_ok db0"
    and own: "map fst own = filter (\<lambda>e. \<not> se_StartedAt e < lo) (ListStormEventsOverlapping db0 lo hi)"
    and infos: "map si_storm infos = filter (\<lambda>c. lo < st_RainEnd c \<and> st_FirstRain c < hi) cs"
    and del: "storms_ok db'" "\<forall>j. storm_at db' j = (if j \<in> set (map (\<lambda>p. se_ID (fst p)) (filter (\<lambda>p. \<not> snd p) own)) then None else storm_at db j)"
  shows "reconciled db0 lo hi cs db' infos"
proof -
  have mem: "(\<exists>u. (e, u) \<in> set own) \<longleftrightarrow> e \<in> set (sd_storms db0) \<and> owned_row lo hi e" for e
  proof -
    have "(\<exists>u. (e, u) \<in> set own) \<longleftrightarrow> e \<in> set (map fst own)" by force
    then show ?thesis unfolding own owned_mem .
  qed
  have at': "storm_at db' j = (if \<exists>e. (e, False) \<in> set own \<and> se_ID e = j then None else storm_at db j)" for j
    using del(2) by (force split: if_splits)
  have "storm_at db' (si_id si) = Some (want_of si)" if "si \<in> set infos" for si
    using refresh_invD(3) [OF inv that] refresh_invD(8) [OF inv] at' [of "si_id si"] that by (auto split: if_splits)
  moreover have "storm_at db' j = (case storm_at db0 j of None \<Rightarrow> None | Some e \<Rightarrow> if owned_row lo hi e then None else Some e)"
    if j: "j \<notin> si_id ` set infos" for j
  proof (cases "\<exists>p \<in> set own. se_ID (fst p) = j")
    case True
    then obtain e u where e: "(e, u) \<in> set own" "se_ID e = j" by force
    have "storm_at db' j = None"
    proof (cases u)
      case True
      then have "storm_at db j = None" using refresh_invD(7) [OF inv, of e] e j by simp
      then show ?thesis using at' by simp
    qed (use at' e in auto)
    moreover have "storm_at db0 j = Some e" "owned_row lo hi e" using mem [of e] e storm_at_Some [OF ok] by auto
    ultimately show ?thesis by simp
  next
    case False
    then have "storm_at db' j = storm_at db0 j" using refresh_invD(9) [OF inv j] at' [of j] by force
    moreover have "\<not> owned_row lo hi e" if "storm_at db0 j = Some e" for e
      using that False mem [of e] storm_at_Some [OF ok, of j e] by force
    ultimately show ?thesis by (auto split: option.splits)
  qed
  moreover note refresh_invD(2) [OF inv]
  ultimately show ?thesis using del(1) infos by (simp add: reconciled_def)
qed

lemma widen_outcome: "outcome fails (\<lambda>_. True) (widen fails db hz n lo hi)"
proof (induction n arbitrary: lo hi)
  case 0
  then show ?case by (subst widen.simps, rule outcome_bind [OF outcome_query]) (simp add: outcome_def Let_def split: option.splits)
next
  case (Suc n)
  then show ?case
    by (subst widen.simps, intro outcome_bind [OF outcome_query]) (auto simp: outcome_Inr Let_def split: option.splits)
qed

lemma horizon_outcome: "outcome fails (\<lambda>_. True) (horizon fails db lo)"
  unfolding horizon_def by (intro outcome_bind [OF outcome_query]) (simp add: outcome_Inr Let_def outcome_bind [OF outcome_query])

lemma refreshStorms_outcome:
  assumes ok: "storms_ok db"
  shows "outcome fails (\<lambda>(db', infos, changed, n). \<exists>lo hi rset hz. horizon fails db lo0 = Inr hz
      \<and> widen fails db hz maxExtensions lo0 hi0 = Inr (lo, hi, rset)
      \<and> reconciled db lo hi (FindStorms (rs_stations rset) hz) db' infos) (refreshStorms fails db lo0 hi0)"
    (is "outcome fails ?P _")
  unfolding refreshStorms_def
proof (rule outcome_seq [OF horizon_outcome], rule outcome_seq [OF widen_outcome], clarify)
  fix hz lo hi rset
  assume h: "horizon fails db lo0 = Inr hz" and w: "widen fails db hz maxExtensions lo0 hi0 = Inr (lo, hi, rset)"
  let ?own = "map (\<lambda>e. (e, False)) (filter (\<lambda>e. \<not> se_StartedAt e < lo) (ListStormEventsOverlapping db lo hi))"
  let ?cs = "FindStorms (rs_stations rset) hz"
  have un: "outcome fails ?P (delete_unused fails st)"
    if r: "refreshed db (db, ?own, [], [], 0) (filter (\<lambda>c. lo < st_RainEnd c \<and> st_FirstRain c < hi) ?cs) st" for st
  proof -
    obtain db1 own infos changed changes where st: "st = (db1, own, infos, changed, changes)" by (cases st) auto
    have inv: "refresh_inv db (db1, own, infos, changed, changes)" using r by (simp add: refreshed_def st)
    have own: "map fst own = filter (\<lambda>e. \<not> se_StartedAt e < lo) (ListStormEventsOverlapping db lo hi)"
      and infos: "map si_storm infos = filter (\<lambda>c. lo < st_RainEnd c \<and> st_FirstRain c < hi) ?cs"
      using r by (simp_all add: refreshed_def st comp_def)
    have "storms_ok db1" using inv by (simp add: refresh_inv_def)
    from delete_storms_outcome [OF this, of fails "map (\<lambda>p. se_ID (fst p)) (filter (\<lambda>p. \<not> snd p) own)"]
    show ?thesis unfolding st delete_unused_def prod.case Let_def
      by (rule outcome_bind, intro outcome_Inr) (use h w refresh_inv_final [OF inv ok own infos] in auto)
  qed
  show "outcome fails ?P (let computed = ?cs in bind_sum (query fails SExisting (ListStormEventsOverlapping db lo hi)) (\<lambda>existing.
     let owned = map (\<lambda>e. (e, False)) (filter (\<lambda>e. \<not> se_StartedAt e < lo) existing)
     in bind_sum (refresh_loop fails rset lo hi computed (db, owned, [], [], 0)) (delete_unused fails)))"
    unfolding Let_def
    by (rule outcome_bind [OF outcome_query], simp only:,
        rule outcome_bind [OF refresh_loop_outcome [OF refresh_inv_init [OF ok] FindStorms_sane] un])
qed

section \<open>Metrics\<close>

lemma metrics_row_complete: "pump_rate_complete (metrics_row i h r)"
  by (simp add: metrics_row_def pump_rate_complete_def optFloat_def)

lemma metrics_row_key [simp]: "hm_StormID (metrics_row i h r) = i" "hm_HomeID (metrics_row i h r) = h"
  by (simp_all add: metrics_row_def)

definition metric_at :: "storm_db \<Rightarrow> nat \<times> uuid \<Rightarrow> metric_row option" where
  "metric_at db = map_of (map (\<lambda>m. (metric_key m, m)) (sd_metrics db))"

lemma metric_at_Some: "storms_ok db \<Longrightarrow> metric_at db k = Some m \<longleftrightarrow> m \<in> set (sd_metrics db) \<and> metric_key m = k"
  by (auto simp: metric_at_def storms_ok_def comp_def map_of_eq_Some_iff)

lemma by_home_metric_at:
  assumes "storms_ok db"
  shows "by_home (ListHomeMetricsForStorm db i) h = metric_at db (i, h)"
proof -
  let ?ms = "ListHomeMetricsForStorm db i"
  have "inj_on metric_key (set (sd_metrics db))" "distinct (sd_metrics db)" using assms by (simp_all add: storms_ok_def distinct_map)
  then have "inj_on hm_HomeID (set ?ms)" "distinct ?ms"
    by (auto simp: ListHomeMetricsForStorm_def inj_on_def metric_key_def)
  then have "by_home ?ms h = Some m \<longleftrightarrow> m \<in> set ?ms \<and> hm_HomeID m = h" for m
    by (auto simp: by_home_def map_of_eq_Some_iff distinct_map comp_def rev_map [symmetric])
  then have "by_home ?ms h = Some m \<longleftrightarrow> metric_at db (i, h) = Some m" for m
    by (auto simp: metric_at_Some [OF assms] ListHomeMetricsForStorm_def metric_key_def)
  then show ?thesis by (metis not_Some_eq)
qed

lemma upsert_ok:
  assumes ok: "storms_ok db" and i: "storm_at db (hm_StormID m) \<noteq> None" and c: "pump_rate_complete m"
  shows "\<exists>ms. UpsertHomeStormMetrics m db = Inr (db\<lparr>sd_metrics := ms\<rparr>) \<and> storms_ok (db\<lparr>sd_metrics := ms\<rparr>)
     \<and> metric_at (db\<lparr>sd_metrics := ms\<rparr>) = (metric_at db)(metric_key m \<mapsto> m)"
proof -
  let ?eq = "\<lambda>x. hm_StormID x = hm_StormID m \<and> hm_HomeID x = hm_HomeID m"
  have key: "?eq x \<longleftrightarrow> metric_key x = metric_key m" for x by (auto simp: metric_key_def)
  let ?ms = "if \<exists>x \<in> set (sd_metrics db). ?eq x then map (\<lambda>x. if ?eq x then m else x) (sd_metrics db) else sd_metrics db @ [m]"
  have keys: "map metric_key (map (\<lambda>x. if ?eq x then m else x) ms) = map metric_key ms" for ms by (simp add: key)
  have id: "hm_StormID m \<in> se_ID ` set (sd_storms db)" using i by (simp add: storm_at_None)
  have "distinct (map metric_key ?ms)"
  proof (cases "\<exists>x \<in> set (sd_metrics db). ?eq x")
    case True
    then show ?thesis using ok by (simp only: if_True keys storms_ok_def)
  next
    case False
    then show ?thesis using ok unfolding key by (auto simp: storms_ok_def)
  qed
  moreover have "\<forall>x \<in> set ?ms. hm_StormID x \<in> se_ID ` set (sd_storms db) \<and> pump_rate_complete x"
    using ok id c by (auto simp: storms_ok_def)
  ultimately have ok': "storms_ok (db\<lparr>sd_metrics := ?ms\<rparr>)" using ok by (simp add: storms_ok_def)
  have mem: "x \<in> set ?ms \<longleftrightarrow> x = m \<or> (x \<in> set (sd_metrics db) \<and> metric_key x \<noteq> metric_key m)" for x
    unfolding key by (cases "\<exists>x \<in> set (sd_metrics db). metric_key x = metric_key m") auto
  define db' where "db' = db\<lparr>sd_metrics := ?ms\<rparr>"
  have "set (sd_metrics db') = set ?ms" by (simp add: db'_def)
  then have "metric_at db' k = Some x \<longleftrightarrow> (x = m \<or> (x \<in> set (sd_metrics db) \<and> metric_key x \<noteq> metric_key m)) \<and> metric_key x = k" for k x
    using metric_at_Some [OF ok' [folded db'_def], of k x] mem [of x] by (simp only:)
  then have "metric_at db' k = Some x \<longleftrightarrow> ((metric_at db)(metric_key m \<mapsto> m)) k = Some x" for k x
    by (cases "k = metric_key m") (auto simp: metric_at_Some [OF ok])
  then have at': "metric_at db' = (metric_at db)(metric_key m \<mapsto> m)" by (intro ext) (metis not_Some_eq)
  have "UpsertHomeStormMetrics m db = Inr db'" using id c unfolding UpsertHomeStormMetrics_def db'_def by (simp only: set_map if_False not_True_eq_False simp_thms)
  then show ?thesis using ok' at' unfolding db'_def by blast
qed

lemma delete_metrics_ok:
  assumes "storms_ok db"
  shows "storms_ok (DeleteHomeStormMetrics i h db) \<and> metric_at (DeleteHomeStormMetrics i h db) = (metric_at db)((i, h) := None)"
proof
  show ok: "storms_ok (DeleteHomeStormMetrics i h db)"
    using assms by (auto simp: storms_ok_def DeleteHomeStormMetrics_def distinct_map inj_on_def)
  have "metric_at (DeleteHomeStormMetrics i h db) k = Some x \<longleftrightarrow> ((metric_at db)((i, h) := None)) k = Some x" for k x
    unfolding metric_at_Some [OF ok] by (auto simp: metric_at_Some [OF assms] DeleteHomeStormMetrics_def metric_key_def)
  then show "metric_at (DeleteHomeStormMetrics i h db) = (metric_at db)((i, h) := None)"
    by (intro ext) (metis not_Some_eq)
qed

text \<open>The row a home should have for a storm: none without samples.\<close>

definition home_metrics :: "response_params \<Rightarrow> storm_info \<Rightarrow> device \<Rightarrow> rain_interval list \<Rightarrow> home_obs \<Rightarrow> metric_row option" where
  "home_metrics p si d rain obs =
     (let h = AnalyseHomeStorm obs (dv_pitArea d) (si_storm si) rain (si_until si) (dv_lastSeen d) p
      in if hs_HasSamples h then Some (metrics_row (si_id si) (dv_home d) h) else None)"

lemma loadObs_outcome: "outcome fails (\<lambda>_. True) (loadObs fails p db dev s e)"
  unfolding loadObs_def Let_def by (intro outcome_bind [OF outcome_query] outcome_Inr) simp

lemma recomputeHome_outcome:
  assumes ok: "storms_ok db" and ex: "storm_at db (si_id si) \<noteq> None"
    and existing: "existing (dv_home d) = metric_at db (si_id si, dv_home d)"
  shows "outcome fails (\<lambda>(k, db'). \<exists>ms obs. db' = db\<lparr>sd_metrics := ms\<rparr> \<and> storms_ok db'
      \<and> loadObs fails p db (dv_dev d) (si_storm si) (recompute_end p si d) = Inr obs
      \<and> metric_at db' = (metric_at db)((si_id si, dv_home d) := home_metrics p si d rain obs))
    (recomputeHome fails p si d rain existing db)"
  unfolding recomputeHome_def
proof (rule outcome_seq [OF loadObs_outcome])
  fix obs assume obs: "loadObs fails p db (dv_dev d) (si_storm si) (recompute_end p si d) = Inr obs"
  let ?h = "AnalyseHomeStorm obs (dv_pitArea d) (si_storm si) rain (si_until si) (dv_lastSeen d) p"
  let ?row = "metrics_row (si_id si) (dv_home d) ?h"
  let ?k = "(si_id si, dv_home d)"
  have same: "\<exists>ms. db = db\<lparr>sd_metrics := ms\<rparr>" by (rule exI [of _ "sd_metrics db"]) simp
  have del: "DeleteHomeStormMetrics (si_id si) (dv_home d) db = db\<lparr>sd_metrics := sd_metrics (DeleteHomeStormMetrics (si_id si) (dv_home d) db)\<rparr>"
    by (simp add: DeleteHomeStormMetrics_def)
  have key: "metric_key ?row = ?k" by (simp add: metric_key_def)
  have old: "old\<lparr>hm_StormID := si_id si, hm_HomeID := dv_home d\<rparr> = old" if "metric_at db ?k = Some old" for old
    using that metric_at_Some [OF ok, of ?k old] by (auto simp: metric_key_def)
  show "outcome fails (\<lambda>(k, db'). \<exists>ms obs. db' = db\<lparr>sd_metrics := ms\<rparr> \<and> storms_ok db'
      \<and> loadObs fails p db (dv_dev d) (si_storm si) (recompute_end p si d) = Inr obs
      \<and> metric_at db' = (metric_at db)(?k := home_metrics p si d rain obs))
    (let h = ?h
     in if \<not> hs_HasSamples h
        then (case existing (dv_home d) of
            None \<Rightarrow> Inr (0, db)
          | Some _ \<Rightarrow> (case fails (SDeleteMetrics (si_id si) (dv_home d)) of
                Some e \<Rightarrow> Inl e
              | None \<Rightarrow> Inr (1, DeleteHomeStormMetrics (si_id si) (dv_home d) db)))
        else let row = metrics_row (si_id si) (dv_home d) h
          in if (case existing (dv_home d) of
                   None \<Rightarrow> False
                 | Some old \<Rightarrow> old\<lparr>hm_StormID := si_id si, hm_HomeID := dv_home d\<rparr> = row)
             then Inr (0, db)
             else (case fails (SUpsertMetrics (si_id si) (dv_home d)) of
                 Some e \<Rightarrow> Inl e
               | None \<Rightarrow> bind_sum (UpsertHomeStormMetrics row db) (\<lambda>db. Inr (1, db))))"
  proof (cases "hs_HasSamples ?h")
    case False
    then have hm: "home_metrics p si d rain obs = None" by (simp add: home_metrics_def)
    show ?thesis
    proof (cases "metric_at db ?k")
      case None
      then show ?thesis using False hm obs ok existing same by (auto simp: Let_def outcome_def fun_upd_idem)
    next
      case (Some old)
      then show ?thesis using False hm obs existing del delete_metrics_ok [OF ok, of "si_id si" "dv_home d"]
        by (auto simp: Let_def outcome_def split: option.splits)
    qed
  next
    case True
    then have hm: "home_metrics p si d rain obs = Some ?row" by (simp add: home_metrics_def)
    obtain ms where up: "UpsertHomeStormMetrics ?row db = Inr (db\<lparr>sd_metrics := ms\<rparr>)" "storms_ok (db\<lparr>sd_metrics := ms\<rparr>)"
      "metric_at (db\<lparr>sd_metrics := ms\<rparr>) = (metric_at db)(?k \<mapsto> ?row)"
      using upsert_ok [OF ok _ metrics_row_complete, of "si_id si" "dv_home d" ?h] ex by (auto simp: key)
    show ?thesis
    proof (cases "metric_at db ?k = Some ?row")
      case same_row: True
      then show ?thesis using True hm obs ok existing old same by (auto simp: Let_def outcome_def fun_upd_idem)
    next
      case False
      then have "\<not> (case existing (dv_home d) of None \<Rightarrow> False
          | Some old \<Rightarrow> old\<lparr>hm_StormID := si_id si, hm_HomeID := dv_home d\<rparr> = ?row)"
        using existing old by (auto split: option.splits)
      then show ?thesis using True hm obs up by (auto simp: Let_def outcome_def bind_sum_def split: option.splits)
    qed
  qed
qed

lemma first_devices_homes: "distinct (map dv_home (first_devices rs seen)) \<and> dv_home ` set (first_devices rs seen) \<inter> set seen = {}"
proof (induction rs arbitrary: seen)
  case (Cons r rs)
  then show ?case using Cons.IH [of "ld_HomeID r # seen"] by (auto split: option.splits)
qed simp

text \<open>Recomputing keeps the storms and the invariant, and sets the metrics of every target.\<close>

lemma recompute_all_outcome:
  assumes "storms_ok db" and "storm_at db (si_id si) \<noteq> None" and "distinct (map dv_home ds)"
    and "\<forall>d \<in> set ds. existing (dv_home d) = metric_at db (si_id si, dv_home d)"
  shows "outcome fails (\<lambda>(k, db'). storms_ok db' \<and> storm_at db' = storm_at db) (recompute_all fails p si rain existing ds (n, db))"
  using assms
proof (induction ds arbitrary: n db)
  case (Cons d ds)
  have ex: "existing (dv_home d) = metric_at db (si_id si, dv_home d)" using Cons.prems(4) by simp
  show ?case unfolding recompute_all.simps
  proof (rule outcome_bind [OF recomputeHome_outcome [where existing = existing, OF Cons.prems(1,2) ex]], clarify)
    fix k db1 ms obs
    assume ok: "storms_ok (db\<lparr>sd_metrics := ms\<rparr>)"
      and at': "metric_at (db\<lparr>sd_metrics := ms\<rparr>) = (metric_at db)((si_id si, dv_home d) := home_metrics p si d rain obs)"
    have st: "storm_at (db\<lparr>sd_metrics := ms\<rparr>) = storm_at db" by (simp add: storm_at_def)
    have "\<forall>x \<in> set ds. existing (dv_home x) = metric_at (db\<lparr>sd_metrics := ms\<rparr>) (si_id si, dv_home x)"
    proof
      fix x assume x: "x \<in> set ds"
      then have "dv_home x \<in> dv_home ` set ds" by simp
      then have "dv_home x \<noteq> dv_home d" using Cons.prems(3) by auto
      then show "existing (dv_home x) = metric_at (db\<lparr>sd_metrics := ms\<rparr>) (si_id si, dv_home x)"
        using Cons.prems(4) x by (simp add: at')
    qed
    from Cons.IH [OF ok _ _ this, of "n + k"] show "outcome fails (\<lambda>(k, db'). storms_ok db' \<and> storm_at db' = storm_at db)
        (recompute_all fails p si rain existing ds (n + k, db\<lparr>sd_metrics := ms\<rparr>))"
      using Cons.prems(2,3) st by simp
  qed
qed (simp add: outcome_def)

lemma storms_loop_outcome:
  assumes "storms_ok db" and "\<forall>si \<in> set sis. storm_at db (si_id si) \<noteq> None" and "distinct (map dv_home devs)"
  shows "outcome fails (\<lambda>(k, db'). storms_ok db' \<and> storm_at db' = storm_at db) (storms_loop fails p changed devs touched sis (n, db))"
  using assms
proof (induction sis arbitrary: n db)
  case (Cons si sis)
  let ?ts = "targets p si (si_id si \<in> set changed) devs touched"
  have ts: "distinct (map dv_home ?ts)" using Cons.prems(3) by (simp add: targets_def Let_def distinct_map_filter)
  show ?case
  proof (cases "?ts = []")
    case True
    then show ?thesis using Cons.IH [OF Cons.prems(1) _ Cons.prems(3)] Cons.prems(2) by simp
  next
    case False
    have rain: "outcome fails (\<lambda>_. True) (baseflowRain fails p db (si_storm si))"
      unfolding baseflowRain_def Let_def by (intro outcome_bind [OF outcome_query] outcome_Inr) simp
    have all: "outcome fails (\<lambda>(k, db'). storms_ok db' \<and> storm_at db' = storm_at db)
        (recompute_all fails p si r (by_home (ListHomeMetricsForStorm db (si_id si))) ?ts (n, db))" for r
      using Cons.prems(2) by (intro recompute_all_outcome Cons.prems(1) ts) (simp_all add: by_home_metric_at [OF Cons.prems(1)])
    have rest: "outcome fails (\<lambda>(k, db'). storms_ok db' \<and> storm_at db' = storm_at db) (storms_loop fails p changed devs touched sis acc)"
      if "case acc of (k, db') \<Rightarrow> storms_ok db' \<and> storm_at db' = storm_at db" for acc
      using that Cons.IH [of "snd acc" "fst acc"] Cons.prems(2,3) by (cases acc) auto
    show ?thesis using False
      by (simp add: Let_def)
        (rule outcome_bind [OF outcome_query], simp only:, rule outcome_bind [OF rain], rule outcome_bind [OF all rest])
  qed
qed (simp add: outcome_def)

lemma window_outcome: "outcome fails (\<lambda>_. True) (window_of fails p db rain devs)"
  unfolding window_of_def Let_def
  by (auto split: option.splits intro!: outcome_bind [OF outcome_query] outcome_Inr)

lemma process_outcome:
  assumes ok: "storms_ok db"
  shows "outcome fails storms_ok (process fails p rain devs db)"
  unfolding process_def
proof (rule outcome_bind [OF window_outcome])
  fix window
  show "outcome fails storms_ok (case window of
       None \<Rightarrow> Inr db
     | Some (w_from, w_to) \<Rightarrow>
       bind_sum (refreshStorms fails db w_from w_to) (\<lambda>(db, infos, changed, stormChanges).
       bind_sum (if infos = [] then Inr (0, db)
                 else bind_sum (devices fails db) (\<lambda>ds. storms_loop fails p changed ds (map_of devs) infos (0, db))) (\<lambda>(metricChanges, db).
       if stormChanges + metricChanges > 0
       then (case fails SNotifyStorms of
           Some e \<Rightarrow> Inl e
         | None \<Rightarrow> Inr (db\<lparr>sd_notes := sd_notes db @ [\<lparr>n_Table = ''storm_events'', n_N = stormChanges + metricChanges,
             n_MinTS = w_from, n_MaxTS = w_to\<rparr>]\<rparr>))
       else Inr db)))"
  proof (cases window)
    case (Some w)
    obtain w_from w_to where w: "w = (w_from, w_to)" by fastforce
    have metrics: "outcome fails (\<lambda>(k, db'). storms_ok db')
        (if infos = [] then Inr (0, db1) else bind_sum (devices fails db1) (\<lambda>ds. storms_loop fails p changed ds (map_of devs) infos (0, db1)))"
      if "storms_ok db1" "\<forall>si \<in> set infos. storm_at db1 (si_id si) \<noteq> None" for db1 infos changed
    proof -
      have "outcome fails (\<lambda>ds. distinct (map dv_home ds)) (devices fails db1)"
        unfolding devices_def by (intro outcome_bind [OF outcome_query] outcome_Inr) (simp add: first_devices_homes)
      then have "outcome fails (\<lambda>(k, db'). storms_ok db') (bind_sum (devices fails db1) (\<lambda>ds. storms_loop fails p changed ds (map_of devs) infos (0, db1)))"
        by (rule outcome_bind) (rule outcome_mono [OF storms_loop_outcome [OF that]], auto)
      then show ?thesis using that by (simp add: outcome_Inr)
    qed
    have note_ok: "storms_ok (db1\<lparr>sd_notes := ns\<rparr>) = storms_ok db1" for db1 ns by (simp add: storms_ok_def)
    show ?thesis unfolding Some w option.case prod.case
    proof (rule outcome_bind [OF refreshStorms_outcome [OF ok]], clarify)
      fix db1 infos changed n lo hi rset hz
      assume "reconciled db lo hi (FindStorms (rs_stations rset) hz) db1 infos"
      then have r: "storms_ok db1" "\<forall>si \<in> set infos. storm_at db1 (si_id si) \<noteq> None" by (auto simp: reconciled_def)
      show "outcome fails storms_ok (bind_sum (if infos = [] then Inr (0, db1)
                 else bind_sum (devices fails db1) (\<lambda>ds. storms_loop fails p changed ds (map_of devs) infos (0, db1))) (\<lambda>(metricChanges, db).
       if n + metricChanges > 0
       then (case fails SNotifyStorms of
           Some e \<Rightarrow> Inl e
         | None \<Rightarrow> Inr (db\<lparr>sd_notes := sd_notes db @ [\<lparr>n_Table = ''storm_events'', n_N = n + metricChanges,
             n_MinTS = w_from, n_MaxTS = w_to\<rparr>]\<rparr>))
       else Inr db))"
        by (rule outcome_bind [OF metrics [OF r]]) (auto simp: note_ok intro!: outcome_rules)
    qed
  qed (simp add: outcome_Inr ok)
qed

section \<open>Properties\<close>

text \<open>
  C23: The storm tables keep their constraints. Whatever a batch of rainfall or telemetry contains, processing
  it either keeps the tables' invariant (row ids unique, one metrics row per storm and home, every metrics
  row of a stored storm, pump rates complete) or fails with the error of a failed statement; the values it
  computes never violate a constraint, so without failing statements it succeeds.
\<close>

theorem process_keeps_tables:
  assumes "storms_ok db"
  shows "case process fails p rain devs db of Inl e \<Rightarrow> \<exists>q. fails q = Some e | Inr db' \<Rightarrow> storms_ok db'"
  using process_outcome [OF assms, of fails p rain devs] by (simp add: outcome_def)

text \<open>
  C22: Stored storms follow the rain. A successful refresh leaves in the window it settled on exactly one row
  per computed storm, with the computed onset, end, total, peak, source and status, under an id of its
  own; the other rows that started in the window are gone and every row outside it is untouched.
\<close>

theorem refresh_reconciles:
  assumes "storms_ok db" and "refreshStorms fails db lo0 hi0 = Inr (db', infos, changed, n)"
  shows "\<exists>lo hi rset hz. horizon fails db lo0 = Inr hz \<and> widen fails db hz maxExtensions lo0 hi0 = Inr (lo, hi, rset)
    \<and> distinct (map si_id infos)
    \<and> map si_storm infos = filter (\<lambda>c. lo < st_RainEnd c \<and> st_FirstRain c < hi) (FindStorms (rs_stations rset) hz)
    \<and> (\<forall>si \<in> set infos. storm_at db' (si_id si) = Some (row_of (si_id si) (stormRowFor (si_storm si) (si_source si))))
    \<and> (\<forall>j. j \<notin> si_id ` set infos \<longrightarrow> storm_at db' j =
         (case storm_at db j of None \<Rightarrow> None | Some e \<Rightarrow> if owned_row lo hi e then None else Some e))"
  using outcome_dest [OF refreshStorms_outcome [OF assms(1)] assms(2)]
  by (auto simp: reconciled_def want_of_def)

text \<open>
  Recomputing a home converges. After a home's metrics for a storm were recomputed, the stored row is the
  one the analysis of its observations gives (none without samples), no other row changed, and
  recomputing again from the stored rows writes nothing.
\<close>

theorem recompute_converges:
  assumes ok: "storms_ok db" and ex: "storm_at db (si_id si) \<noteq> None"
    and run: "recomputeHome fails p si d rain (by_home (ListHomeMetricsForStorm db (si_id si))) db = Inr (k, db')"
  shows "(\<exists>obs. loadObs fails p db (dv_dev d) (si_storm si) (recompute_end p si d) = Inr obs
      \<and> metric_at db' = (metric_at db)((si_id si, dv_home d) := home_metrics p si d rain obs))
    \<and> recomputeHome fails p si d rain (by_home (ListHomeMetricsForStorm db' (si_id si))) db' = Inr (0, db')"
proof -
  let ?ex = "by_home (ListHomeMetricsForStorm db (si_id si))"
  obtain ms obs where db': "db' = db\<lparr>sd_metrics := ms\<rparr>" and ok': "storms_ok db'"
    and obs: "loadObs fails p db (dv_dev d) (si_storm si) (recompute_end p si d) = Inr obs"
    and at': "metric_at db' = (metric_at db)((si_id si, dv_home d) := home_metrics p si d rain obs)"
    using outcome_dest [OF recomputeHome_outcome [where existing = ?ex and d = d, OF ok ex by_home_metric_at [OF ok]] run] by auto
  have load: "loadObs fails p db' (dv_dev d) (si_storm si) (recompute_end p si d) = Inr obs"
    using obs by (simp add: db' loadObs_def ListCycleEventsForDevice_def ListStormSummariesForDevice_def ListLevelsForDevice_def)
  have "by_home (ListHomeMetricsForStorm db' (si_id si)) (dv_home d) = home_metrics p si d rain obs"
    by (simp add: by_home_metric_at [OF ok'] at')
  then have "recomputeHome fails p si d rain (by_home (ListHomeMetricsForStorm db' (si_id si))) db' = Inr (0, db')"
    by (simp add: recomputeHome_def bind_sum_def load home_metrics_def Let_def metrics_row_def split: if_splits)
  then show ?thesis using obs at' by blast
qed

section \<open>Witnesses\<close>

definition demo_sdb :: storm_db where
  "demo_sdb = \<lparr>sd_storms = [], sd_next = 0, sd_metrics = [], sd_rain = [], sd_devices = [], sd_cycles = [],
     sd_summaries = [], sd_readings = [], sd_notes = []\<rparr>"

definition demo_sdb1 :: storm_db where
  "demo_sdb1 = demo_sdb\<lparr>sd_storms := [row_of 0 (stormRowFor demo_storm SourceECCC)], sd_next := 1\<rparr>"

lemma demo_sdb_ok: "storms_ok demo_sdb" "storms_ok demo_sdb1"
  by (simp_all add: storms_ok_def demo_sdb_def demo_sdb1_def row_of_def)

theorem process_keeps_tables_witness:
  "case process (\<lambda>_. None) DefaultResponseParams (Some (0, hour)) [] demo_sdb1 of Inl e \<Rightarrow> False | Inr db' \<Rightarrow> storms_ok db'"
  using process_keeps_tables [OF demo_sdb_ok(2), of "\<lambda>_. None" DefaultResponseParams "Some (0, hour)" "[]"]
  by (simp split: sum.splits)

text \<open>A stored storm with no rain behind it any more is removed.\<close>

lemma demo_widen: "widen (\<lambda>_. None) demo_sdb1 hz maxExtensions lo hi = Inr (lo, hi, \<lparr>rs_stations = [], rs_gauge = []\<rparr>)"
  by (simp add: widen.simps query_def bind_sum_def demo_sdb_def demo_sdb1_def ListRainfall_def selectRain_def station_keys_def
      wetExtent_def Let_def)

lemma demo_refresh: "refreshStorms (\<lambda>_. None) demo_sdb1 (70 * hour) (80 * hour) = Inr (demo_sdb1\<lparr>sd_storms := []\<rparr>, [], [], 1)"
  by (simp add: refreshStorms_def horizon_def query_def bind_sum_def RainfallCoveredUntil_def demo_widen zero_time_def
      FindStorms_def MergeRain_def merged_bins_def tally_all_def SegmentStorms_def delete_unused_def Let_def)
    (simp add: demo_sdb_def demo_sdb1_def ListStormEventsOverlapping_def row_of_def stormRowFor_def demo_storm_def dbTime_def
      DeleteStormEvent_def go_time)

theorem refresh_reconciles_witness:
  "storm_at demo_sdb1 0 \<noteq> None \<and> storm_at (demo_sdb1\<lparr>sd_storms := []\<rparr>) 0 = None
   \<and> refreshStorms (\<lambda>_. None) demo_sdb1 (70 * hour) (80 * hour) = Inr (demo_sdb1\<lparr>sd_storms := []\<rparr>, [], [], 1)"
proof -
  have "storm_at demo_sdb1 0 = Some (row_of 0 (stormRowFor demo_storm SourceECCC))"
    by (simp add: storm_at_def demo_sdb1_def row_of_def)
  moreover have "owned_row (70 * hour) (80 * hour) (row_of 0 (stormRowFor demo_storm SourceECCC))"
    by (simp add: owned_row_def row_of_def stormRowFor_def demo_storm_def dbTime_def go_time)
  ultimately show ?thesis
    using refresh_reconciles [OF demo_sdb_ok(2) demo_refresh] demo_refresh by (auto simp: demo_widen)
qed

definition demo_info :: storm_info where
  "demo_info = \<lparr>si_id = 0, si_storm = demo_storm, si_source = SourceECCC, si_until = zero_time\<rparr>"

definition demo_device :: device where
  "demo_device = \<lparr>dv_dev = ''d'', dv_home = ''h'', dv_pitArea = 1, dv_lastSeen = 100 * hour\<rparr>"

lemma demo_recompute:
  "\<exists>k db'. recomputeHome (\<lambda>_. None) demo_params demo_info demo_device [] (by_home (ListHomeMetricsForStorm demo_sdb1 (si_id demo_info))) demo_sdb1 = Inr (k, db')"
proof -
  have ex: "storm_at demo_sdb1 (si_id demo_info) \<noteq> None"
    by (simp add: storm_at_def demo_sdb1_def demo_info_def row_of_def)
  show ?thesis
    using recomputeHome_outcome [where existing = "by_home (ListHomeMetricsForStorm demo_sdb1 (si_id demo_info))" and fails = "\<lambda>_. None"
        and d = demo_device and p = demo_params and rain = "[]", OF demo_sdb_ok(2) ex by_home_metric_at [OF demo_sdb_ok(2)]]
    by (auto simp: outcome_def split: sum.splits)
qed

theorem recompute_converges_witness:
  "\<exists>k db'. recomputeHome (\<lambda>_. None) demo_params demo_info demo_device [] (by_home (ListHomeMetricsForStorm demo_sdb1 0)) demo_sdb1 = Inr (k, db')
    \<and> recomputeHome (\<lambda>_. None) demo_params demo_info demo_device [] (by_home (ListHomeMetricsForStorm db' 0)) db' = Inr (0, db')"
proof -
  have ex: "storm_at demo_sdb1 (si_id demo_info) \<noteq> None"
    by (simp add: storm_at_def demo_sdb1_def demo_info_def row_of_def)
  have i: "si_id demo_info = 0" by (simp add: demo_info_def)
  obtain k db' where run: "recomputeHome (\<lambda>_. None) demo_params demo_info demo_device [] (by_home (ListHomeMetricsForStorm demo_sdb1 (si_id demo_info))) demo_sdb1 = Inr (k, db')"
    using demo_recompute by blast
  show ?thesis using run conjunct2 [OF recompute_converges [OF demo_sdb_ok(2) ex run]] unfolding i by blast
qed

end
