(* ===== verification/Privacy.thy ===== *)
theory Privacy
  imports Rows
begin

text \<open>
  The public views: \<^verbatim>\<open>internal/privacy/privacy.go\<close> with its threshold of three homes, and the conversions of
  \<^verbatim>\<open>internal/gateway/convert.go\<close> that build every public segment view with it. The theorems state what the
  views hide: with fewer than three homes reporting, a view is the same whatever those homes reported.
\<close>

section \<open>Aggregates\<close>

definition MinHomes :: nat where "MinHomes = 3"

definition Visible :: "int \<Rightarrow> bool" where
  "Visible homesReporting \<longleftrightarrow> homesReporting \<ge> int MinHomes"

record home_report =
  ph_HomeID :: uuid
  ph_VolumeL :: real
  ph_LagMin :: "real option"
  ph_RecessionMin :: "real option"

record segment_storm =
  ss_SegmentID :: string
  ss_HomesReporting :: int
  ss_Suppressed :: bool
  ss_LoadLPerHome :: real
  ss_MedianLagMin :: real
  ss_MedianRecessionMin :: real

definition median :: "real list \<Rightarrow> real" where
  "median xs = (if xs = [] then 0
     else let s = sort xs; n = length s
       in if n mod 2 = 1 then s ! (n div 2)
          else math_round ((s ! (n div 2 - 1) + s ! (n div 2)) / 2 * 10 ^ 9) / 10 ^ 9)"

text \<open>The loop state: homes seen, total volume, lags and recessions.\<close>

type_synonym agg_state = "uuid list \<times> real \<times> real list \<times> real list"

definition add_home :: "agg_state \<Rightarrow> home_report \<Rightarrow> agg_state" where
  "add_home = (\<lambda>(seen, tot, lags, recs) h.
     if ph_HomeID h \<in> set seen then (seen, tot, lags, recs)
     else (seen @ [ph_HomeID h], tot + ph_VolumeL h,
           (case ph_LagMin h of None \<Rightarrow> lags | Some l \<Rightarrow> lags @ [l]),
           (case ph_RecessionMin h of None \<Rightarrow> recs | Some r \<Rightarrow> recs @ [r])))"

definition AggregateStorm :: "string \<Rightarrow> home_report list \<Rightarrow> segment_storm" where
  "AggregateStorm segmentID homes =
     (let (seen, tot, lags, recs) = foldl add_home ([], 0, [], []) homes;
          n = int (length seen)
      in if \<not> Visible n
         then \<lparr>ss_SegmentID = segmentID, ss_HomesReporting = n, ss_Suppressed = True, ss_LoadLPerHome = 0,
               ss_MedianLagMin = 0, ss_MedianRecessionMin = 0\<rparr>
         else \<lparr>ss_SegmentID = segmentID, ss_HomesReporting = n, ss_Suppressed = False,
               ss_LoadLPerHome = tot / real_of_int n, ss_MedianLagMin = median lags, ss_MedianRecessionMin = median recs\<rparr>)"

record segment_status =
  sg_SegmentID :: string
  sg_HomesReporting :: int
  sg_Suppressed :: bool
  sg_CyclesPerHour :: real
  sg_ActiveAlerts :: int

definition AggregateStatus :: "string \<Rightarrow> int \<Rightarrow> real \<Rightarrow> int \<Rightarrow> segment_status" where
  "AggregateStatus segmentID homesReporting totalCyclesPerHour activeAlerts =
     (if \<not> Visible homesReporting
      then \<lparr>sg_SegmentID = segmentID, sg_HomesReporting = homesReporting, sg_Suppressed = True, sg_CyclesPerHour = 0, sg_ActiveAlerts = 0\<rparr>
      else \<lparr>sg_SegmentID = segmentID, sg_HomesReporting = homesReporting, sg_Suppressed = False,
            sg_CyclesPerHour = totalCyclesPerHour / real_of_int homesReporting, sg_ActiveAlerts = activeAlerts\<rparr>)"

section \<open>Building the views\<close>

definition u32 :: "int \<Rightarrow> int" where
  "u32 n = (if n \<le> 0 then 0 else if n > 4294967295 then 4294967295 else n)"

definition mergeIDs :: "string list \<Rightarrow> string list \<Rightarrow> string list" where
  "mergeIDs catalogue extra = sort (first_keys extra (first_keys catalogue []))"

record storm_metric_row =
  sm_SegmentID :: string
  sm_HomeID :: uuid
  sm_VolumeL :: real
  sm_LagMin :: "real option"
  sm_RecessionMin :: "real option"

definition report_of :: "storm_metric_row \<Rightarrow> home_report" where
  "report_of r = \<lparr>ph_HomeID = sm_HomeID r, ph_VolumeL = sm_VolumeL r, ph_LagMin = sm_LagMin r, ph_RecessionMin = sm_RecessionMin r\<rparr>"

text \<open>The reports of a segment, in row order: the value the source's map has for it.\<close>

definition segment_reports :: "storm_metric_row list \<Rightarrow> string \<Rightarrow> home_report list" where
  "segment_reports rows i = map report_of (filter (\<lambda>r. sm_SegmentID r = i) rows)"

record segment_storm_proto =
  sp_StormId :: string
  sp_View :: segment_storm

definition aggregateStorm :: "string \<Rightarrow> string list \<Rightarrow> storm_metric_row list \<Rightarrow> segment_storm_proto list" where
  "aggregateStorm stormID segmentIDs rows =
     map (\<lambda>i. let a = AggregateStorm i (segment_reports rows i)
              in \<lparr>sp_StormId = stormID, sp_View = a\<lparr>ss_HomesReporting := u32 (ss_HomesReporting a)\<rparr>\<rparr>)
       (mergeIDs segmentIDs (map sm_SegmentID rows))"

record activity_row =
  ac_SegmentID :: string
  ac_HomesReporting :: int
  ac_Cycles :: int

record alert_count_row =
  ca_SegmentID :: string
  ca_ActiveAlerts :: int

record totals =
  to_homes :: int
  to_cycles :: int
  to_alerts :: int

definition no_totals :: totals where
  "no_totals = \<lparr>to_homes = 0, to_cycles = 0, to_alerts = 0\<rparr>"

definition get_totals :: "(string \<rightharpoonup> totals) \<Rightarrow> string \<Rightarrow> totals" where
  "get_totals tots i = (case tots i of None \<Rightarrow> no_totals | Some t \<Rightarrow> t)"

definition add_activity :: "(string \<rightharpoonup> totals) \<Rightarrow> activity_row \<Rightarrow> (string \<rightharpoonup> totals)" where
  "add_activity tots a = tots(ac_SegmentID a \<mapsto>
     (get_totals tots (ac_SegmentID a))\<lparr>to_homes := ac_HomesReporting a, to_cycles := ac_Cycles a\<rparr>)"

definition add_alerts :: "(string \<rightharpoonup> totals) \<Rightarrow> alert_count_row \<Rightarrow> (string \<rightharpoonup> totals)" where
  "add_alerts tots a = tots(ca_SegmentID a \<mapsto> (get_totals tots (ca_SegmentID a))\<lparr>to_alerts := ca_ActiveAlerts a\<rparr>)"

definition segment_totals :: "activity_row list \<Rightarrow> alert_count_row list \<Rightarrow> (string \<rightharpoonup> totals)" where
  "segment_totals activity alerts = foldl add_alerts (foldl add_activity Map.empty activity) alerts"

definition status_of :: "string \<Rightarrow> totals \<Rightarrow> duration \<Rightarrow> segment_status" where
  "status_of i t window =
     (let s = AggregateStatus i (to_homes t) (real_of_int (to_cycles t) / (real_of_int window / real_of_int hour)) (to_alerts t)
      in s\<lparr>sg_HomesReporting := u32 (sg_HomesReporting s), sg_ActiveAlerts := u32 (sg_ActiveAlerts s)\<rparr>)"

definition buildStatuses ::
  "string list \<Rightarrow> activity_row list \<Rightarrow> alert_count_row list \<Rightarrow> duration \<Rightarrow> (string \<rightharpoonup> segment_status) \<times> string list" where
  "buildStatuses segmentIDs activity alerts window =
     (let tots = segment_totals activity alerts;
          ids = mergeIDs segmentIDs (map ac_SegmentID activity @ map ca_SegmentID alerts)
      in (map_of (map (\<lambda>i. (i, status_of i (get_totals tots i) window)) ids), ids))"

section \<open>Which homes count\<close>

text \<open>The first report of each home, in order.\<close>

fun first_reports :: "uuid list \<Rightarrow> home_report list \<Rightarrow> home_report list" where
  "first_reports seen [] = []"
| "first_reports seen (h # hs) =
     (if ph_HomeID h \<in> set seen then first_reports seen hs else h # first_reports (seen @ [ph_HomeID h]) hs)"

lemma add_home_foldl:
  "foldl add_home (seen, tot, lags, recs) homes =
     (seen @ map ph_HomeID (first_reports seen homes), tot + sum_list (map ph_VolumeL (first_reports seen homes)),
      lags @ List.map_filter ph_LagMin (first_reports seen homes),
      recs @ List.map_filter ph_RecessionMin (first_reports seen homes))"
  by (induction homes arbitrary: seen tot lags recs)
    (auto simp: add_home_def List.map_filter_simps split: option.splits)

lemma first_reports_homes:
  "distinct (map ph_HomeID (first_reports seen homes)) \<and> ph_HomeID ` set (first_reports seen homes) = ph_HomeID ` set homes - set seen"
proof (induction homes arbitrary: seen)
  case (Cons h hs)
  show ?case using Cons.IH [of seen] Cons.IH [of "seen @ [ph_HomeID h]"] by auto
qed simp

lemma first_reports_count: "length (first_reports [] homes) = card (ph_HomeID ` set homes)"
  using first_reports_homes [of "[]" homes] by (metis Diff_empty distinct_card length_map list.set(1) set_map)

lemma AggregateStorm_eq:
  "AggregateStorm s homes =
     (let fs = first_reports [] homes; n = card (ph_HomeID ` set homes)
      in if n < MinHomes
         then \<lparr>ss_SegmentID = s, ss_HomesReporting = int n, ss_Suppressed = True, ss_LoadLPerHome = 0,
               ss_MedianLagMin = 0, ss_MedianRecessionMin = 0\<rparr>
         else \<lparr>ss_SegmentID = s, ss_HomesReporting = int n, ss_Suppressed = False,
               ss_LoadLPerHome = sum_list (map ph_VolumeL fs) / real n,
               ss_MedianLagMin = median (List.map_filter ph_LagMin fs), ss_MedianRecessionMin = median (List.map_filter ph_RecessionMin fs)\<rparr>)"
  by (simp add: AggregateStorm_def add_home_foldl first_reports_count Visible_def Let_def)

lemma mergeIDs_set: "set (mergeIDs c e) = set c \<union> set e"
  by (auto simp: mergeIDs_def)

lemma mergeIDs_unique: "set c \<union> set e = set c' \<union> set e' \<Longrightarrow> mergeIDs c e = mergeIDs c' e'"
  using mergeIDs_set [of c e] mergeIDs_set [of c' e']
  by (intro sorted_distinct_set_unique) (auto simp: mergeIDs_def first_keys_distinct)

section \<open>Properties\<close>

text \<open>
  C24: A storm's public view hides small segments. Two sets of metrics that differ only within one catalogued
  segment, where both have the same number of homes and fewer than three, give the same response; a
  suppressed view shows no value, and every other view stands for three homes or more.
\<close>

theorem storm_view_hides_small_segments:
  assumes "\<forall>i. i \<noteq> s \<longrightarrow> segment_reports rows i = segment_reports rows' i"
    and "s \<in> set segs" and "card (ph_HomeID ` set (segment_reports rows s)) < MinHomes"
    and "card (ph_HomeID ` set (segment_reports rows' s)) = card (ph_HomeID ` set (segment_reports rows s))"
  shows "aggregateStorm storm_id segs rows = aggregateStorm storm_id segs rows'
    \<and> (\<forall>p \<in> set (aggregateStorm storm_id segs rows). ss_Suppressed (sp_View p) \<longrightarrow>
         ss_LoadLPerHome (sp_View p) = 0 \<and> ss_MedianLagMin (sp_View p) = 0 \<and> ss_MedianRecessionMin (sp_View p) = 0)
    \<and> (\<forall>p \<in> set (aggregateStorm storm_id segs rows). \<not> ss_Suppressed (sp_View p) \<longrightarrow>
         int MinHomes \<le> ss_HomesReporting (sp_View p))"
proof -
  have keys: "i \<in> set (map sm_SegmentID rows) \<longleftrightarrow> segment_reports rows i \<noteq> []" for rows i
    by (auto simp: segment_reports_def filter_empty_conv)
  have "i \<in> set segs \<union> set (map sm_SegmentID rows) \<longleftrightarrow> i \<in> set segs \<union> set (map sm_SegmentID rows')" for i
    using assms(1,2) unfolding Un_iff keys by (cases "i = s") simp_all
  then have "set segs \<union> set (map sm_SegmentID rows) = set segs \<union> set (map sm_SegmentID rows')" by (rule set_eqI)
  then have ids: "mergeIDs segs (map sm_SegmentID rows) = mergeIDs segs (map sm_SegmentID rows')" by (rule mergeIDs_unique)
  have view: "AggregateStorm i (segment_reports rows i) = AggregateStorm i (segment_reports rows' i)" for i
    using assms(1,3,4) by (cases "i = s") (simp_all add: AggregateStorm_eq)
  have "aggregateStorm storm_id segs rows = aggregateStorm storm_id segs rows'"
    by (simp add: aggregateStorm_def ids view)
  moreover have "int MinHomes \<le> u32 (int n)" if "MinHomes \<le> n" for n
    using that by (simp add: u32_def MinHomes_def)
  ultimately show ?thesis
    by (auto simp: aggregateStorm_def AggregateStorm_eq Let_def split: if_splits)
qed

text \<open>
  A live status hides small segments. With fewer than three homes reporting in a segment its status is
  the same whatever its cycles and open alerts are, and every status without suppression stands for
  three homes or more.
\<close>

theorem status_hides_small_segments:
  assumes "to_homes t = to_homes t'" and "to_homes t < int MinHomes"
  shows "status_of i t window = status_of i t' window \<and> sg_Suppressed (status_of i t window)
    \<and> sg_CyclesPerHour (status_of i t window) = 0 \<and> sg_ActiveAlerts (status_of i t window) = 0
    \<and> (\<forall>st. fst (buildStatuses segs activity alerts window) j = Some st \<and> \<not> sg_Suppressed st \<longrightarrow> int MinHomes \<le> sg_HomesReporting st)"
proof -
  have small: "status_of i x window = \<lparr>sg_SegmentID = i, sg_HomesReporting = u32 (to_homes x), sg_Suppressed = True,
      sg_CyclesPerHour = 0, sg_ActiveAlerts = 0\<rparr>" if "to_homes x < int MinHomes" for x
    using that by (simp add: status_of_def AggregateStatus_def Visible_def u32_def Let_def)
  have big: "int MinHomes \<le> sg_HomesReporting (status_of k x window)" if "\<not> sg_Suppressed (status_of k x window)" for k x
    using that by (auto simp: status_of_def AggregateStatus_def Visible_def u32_def Let_def MinHomes_def split: if_splits)
  have "int MinHomes \<le> sg_HomesReporting st"
    if "fst (buildStatuses segs activity alerts window) j = Some st" "\<not> sg_Suppressed st" for st
    using that big by (auto simp: buildStatuses_def Let_def dest!: map_of_SomeD)
  then show ?thesis using small [of t] small [of t'] assms by auto
qed

section \<open>Witnesses\<close>

definition demo_metric :: "string \<Rightarrow> string \<Rightarrow> real \<Rightarrow> storm_metric_row" where
  "demo_metric s h v = \<lparr>sm_SegmentID = s, sm_HomeID = h, sm_VolumeL = v, sm_LagMin = None, sm_RecessionMin = None\<rparr>"

theorem storm_view_hides_small_segments_witness:
  "aggregateStorm ''x'' [''s''] [demo_metric ''s'' ''a'' 10] = aggregateStorm ''x'' [''s''] [demo_metric ''s'' ''b'' 99]"
  using storm_view_hides_small_segments [of "''s''" "[demo_metric ''s'' ''a'' 10]" "[demo_metric ''s'' ''b'' 99]" "[''s'']" "''x''"]
  by (simp add: segment_reports_def demo_metric_def report_of_def MinHomes_def)

theorem status_hides_small_segments_witness:
  "status_of ''s'' \<lparr>to_homes = 2, to_cycles = 7, to_alerts = 1\<rparr> hour = status_of ''s'' \<lparr>to_homes = 2, to_cycles = 0, to_alerts = 0\<rparr> hour"
  using status_hides_small_segments [of "\<lparr>to_homes = 2, to_cycles = 7, to_alerts = 1\<rparr>" "\<lparr>to_homes = 2, to_cycles = 0, to_alerts = 0\<rparr>"]
  by (simp add: MinHomes_def)

end
