(* ===== verification/Auth.thy ===== *)
theory Auth
  imports Notify Go_Strings
begin

text \<open>
  Caller identity: \<^verbatim>\<open>internal/auth/auth.go\<close> and \<^verbatim>\<open>internal/auth/grpc.go\<close>. The JWT parser is code outside the
  repository and is a parameter \<open>parse\<close> that gives the claims of an accepted token or the sentinels its error
  wraps. Header values are printable ASCII, so trimming and case folding are those of ASCII. The theorem says
  exactly which calls run with which subject.
\<close>

section \<open>Configuration\<close>

record auth_config =
  cf_Issuer :: string
  cf_JWKSURL :: string
  cf_AuthorizedParties :: "string list"

definition Enabled :: "auth_config \<Rightarrow> bool" where
  "Enabled c \<longleftrightarrow> cf_Issuer c \<noteq> ''''"

definition jwksURL :: "auth_config \<Rightarrow> string" where
  "jwksURL c = (if cf_JWKSURL c \<noteq> '''' then cf_JWKSURL c else cf_Issuer c @ ''/.well-known/jwks.json'')"

definition splitList :: "string \<Rightarrow> string list" where
  "splitList s = filter (\<lambda>p. p \<noteq> []) (map (\<lambda>p. trim_right (\<lambda>c. c = CHR ''/'') (TrimSpace p)) (Split (CHR '','') s))"

section \<open>Verification\<close>

record principal =
  pr_Subject :: string
  pr_SessionID :: string

record claims =
  cl_Subject :: string
  cl_AuthorizedParty :: string
  cl_SessionID :: string

datatype jwt_sentinel = ErrTokenExpired | ErrTokenNotValidYet | ErrTokenUsedBeforeIssued | ErrTokenInvalidIssuer
  | ErrTokenSignatureInvalid | ErrTokenUnverifiable | ErrTokenMalformed

datatype auth_error = ErrDisabled | ErrInvalidToken auth_detail
  and auth_detail = ParseFailed "jwt_sentinel list" | MissingSub | BadParty string

definition reason :: "jwt_sentinel list \<Rightarrow> string" where
  "reason errs =
     (if ErrTokenExpired \<in> set errs then ''expired''
      else if ErrTokenNotValidYet \<in> set errs \<or> ErrTokenUsedBeforeIssued \<in> set errs then ''not_yet_valid''
      else if ErrTokenInvalidIssuer \<in> set errs then ''issuer''
      else if ErrTokenSignatureInvalid \<in> set errs \<or> ErrTokenUnverifiable \<in> set errs then ''signature''
      else if ErrTokenMalformed \<in> set errs then ''malformed''
      else ''invalid'')"

text \<open>The outcome and the label passed to the result hook.\<close>

definition Verify ::
  "(string \<Rightarrow> jwt_sentinel list + claims) \<Rightarrow> auth_config \<Rightarrow> string \<Rightarrow> (auth_error + principal) \<times> string" where
  "Verify parse cfg raw =
     (if \<not> Enabled cfg then (Inl ErrDisabled, ''disabled'')
      else case parse raw of
        Inl errs \<Rightarrow> (Inl (ErrInvalidToken (ParseFailed errs)), reason errs)
      | Inr c \<Rightarrow>
          if cl_Subject c = '''' then (Inl (ErrInvalidToken MissingSub), ''no_subject'')
          else if cf_AuthorizedParties cfg \<noteq> [] \<and> cl_AuthorizedParty c \<notin> set (cf_AuthorizedParties cfg)
          then (Inl (ErrInvalidToken (BadParty (cl_AuthorizedParty c))), ''azp'')
          else (Inr \<lparr>pr_Subject = cl_Subject c, pr_SessionID = cl_SessionID c\<rparr>, ''ok''))"

section \<open>Request contexts\<close>

text \<open>A request context as far as identity goes: the principal it carries, if any.\<close>

type_synonym context_id = "principal option"

definition FromContext :: "context_id \<Rightarrow> principal \<times> bool" where
  "FromContext ctx = (case ctx of None \<Rightarrow> (\<lparr>pr_Subject = '''', pr_SessionID = ''''\<rparr>, False) | Some p \<Rightarrow> (p, pr_Subject p \<noteq> ''''))"

definition RequireOwner :: "context_id \<Rightarrow> grpc_code + principal" where
  "RequireOwner ctx = (let (p, ok) = FromContext ctx in if \<not> ok then Inl Unauthenticated else Inr p)"

text \<open>\<open>vals\<close> are the values of the \<^verbatim>\<open>authorization\<close> metadata of a call whose context carries \<open>ctx\<close>.\<close>

definition Authenticate ::
  "(string \<Rightarrow> jwt_sentinel list + claims) \<Rightarrow> auth_config \<Rightarrow> string list \<Rightarrow> context_id \<Rightarrow> grpc_code + context_id" where
  "Authenticate parse cfg vals ctx =
     (case vals of
        [] \<Rightarrow> Inr ctx
      | [v] \<Rightarrow>
          (let (scheme, token, found) = Cut (CHR '' '') (TrimSpace v); token = TrimSpace token
           in if \<not> found \<or> \<not> EqualFold scheme ''bearer'' \<or> token = '''' then Inl Unauthenticated
              else case fst (Verify parse cfg token) of
                Inl _ \<Rightarrow> Inl Unauthenticated
              | Inr p \<Rightarrow> Inr (Some p))
      | _ # _ # _ \<Rightarrow> Inl Unauthenticated)"

definition UnaryInterceptor ::
  "(string \<Rightarrow> jwt_sentinel list + claims) \<Rightarrow> auth_config \<Rightarrow> (context_id \<Rightarrow> 'q \<Rightarrow> grpc_code + 'r)
     \<Rightarrow> string list \<Rightarrow> context_id \<Rightarrow> 'q \<Rightarrow> grpc_code + 'r" where
  "UnaryInterceptor parse cfg handler vals ctx req =
     (case Authenticate parse cfg vals ctx of Inl e \<Rightarrow> Inl e | Inr ctx' \<Rightarrow> handler ctx' req)"

section \<open>Who a call runs as\<close>

definition bearer_token :: "string \<Rightarrow> string option" where
  "bearer_token v =
     (let (scheme, token, found) = Cut (CHR '' '') (TrimSpace v)
      in if found \<and> EqualFold scheme ''bearer'' \<and> TrimSpace token \<noteq> '''' then Some (TrimSpace token) else None)"

definition accepted :: "(string \<Rightarrow> jwt_sentinel list + claims) \<Rightarrow> auth_config \<Rightarrow> string \<Rightarrow> claims \<Rightarrow> bool" where
  "accepted parse cfg token c \<longleftrightarrow> Enabled cfg \<and> parse token = Inr c \<and> cl_Subject c \<noteq> ''''
     \<and> (cf_AuthorizedParties cfg = [] \<or> cl_AuthorizedParty c \<in> set (cf_AuthorizedParties cfg))"

lemma Verify_ok:
  "fst (Verify parse cfg t) = Inr p \<longleftrightarrow>
     (\<exists>c. accepted parse cfg t c \<and> p = \<lparr>pr_Subject = cl_Subject c, pr_SessionID = cl_SessionID c\<rparr>)"
  by (auto simp: Verify_def accepted_def split: sum.splits if_splits)

lemma Verify_label: "snd (Verify parse cfg t) = ''ok'' \<longleftrightarrow> (\<exists>p. fst (Verify parse cfg t) = Inr p)"
  by (auto simp: Verify_def reason_def split: sum.splits if_splits)

lemma Verify_verdict:
  "(case fst (Verify parse cfg t) of Inl _ \<Rightarrow> Inl Unauthenticated | Inr p \<Rightarrow> Inr (Some p)) =
     (if \<exists>c. accepted parse cfg t c
      then Inr (Some \<lparr>pr_Subject = cl_Subject (projr (parse t)), pr_SessionID = cl_SessionID (projr (parse t))\<rparr>)
      else Inl Unauthenticated)"
  by (cases "parse t") (auto simp: Verify_def accepted_def)

lemma Verify_label_iff: "snd (Verify parse cfg t) = ''ok'' \<longleftrightarrow> (\<exists>c. accepted parse cfg t c)"
  using Verify_ok [of parse cfg t] by (auto simp: Verify_label)

lemma Authenticate_one:
  "Authenticate parse cfg [v] ctx =
     (case bearer_token v of None \<Rightarrow> Inl Unauthenticated
      | Some t \<Rightarrow> (case fst (Verify parse cfg t) of Inl _ \<Rightarrow> Inl Unauthenticated | Inr p \<Rightarrow> Inr (Some p)))"
  by (simp add: Authenticate_def bearer_token_def Let_def split: prod.split)

lemma Authenticate_anonymous: "Authenticate parse cfg [] ctx = Inr ctx"
  by (simp add: Authenticate_def)

lemma Authenticate_many: "Suc 0 < length vals \<Longrightarrow> Authenticate parse cfg vals ctx = Inl Unauthenticated"
  by (auto simp: Authenticate_def split: list.split)

text \<open>
  A call is served in exactly two cases: without an authorization header, as an anonymous caller; or
  with a single header carrying a bearer token that the JWT parser accepts, with a subject and, where
  authorized parties are configured, one of them, and then it runs as that subject. Every other call is
  refused as unauthenticated before its handler runs, on public methods too, and the result hook sees
  the label ok exactly for the accepted tokens.
\<close>

theorem calls_run_as_token_subject:
  "UnaryInterceptor parse cfg handler vals None req =
     (case vals of
        [] \<Rightarrow> handler None req
      | [v] \<Rightarrow> (case bearer_token v of
            Some t \<Rightarrow> if \<exists>c. accepted parse cfg t c
                     then handler (Some \<lparr>pr_Subject = cl_Subject (projr (parse t)), pr_SessionID = cl_SessionID (projr (parse t))\<rparr>) req
                     else Inl Unauthenticated
          | None \<Rightarrow> Inl Unauthenticated)
      | _ \<Rightarrow> Inl Unauthenticated)
   \<and> (snd (Verify parse cfg t) = ''ok'' \<longleftrightarrow> (\<exists>c. accepted parse cfg t c))"
  by (auto simp: UnaryInterceptor_def Authenticate_one Authenticate_anonymous Authenticate_many Verify_label_iff Verify_verdict
      split: list.split option.split)

end
