(* ===== verification/Cursor.thy ===== *)
theory Cursor
  imports Go_Strings
begin

text \<open>
  Page tokens of \<^verbatim>\<open>internal/gateway/convert.go\<close>: unpadded base64url of the start of a storm in microseconds, a dot
  and the storm's id. The parts of the standard library it uses are modelled: \<^verbatim>\<open>strconv.FormatInt\<close> and
  \<^verbatim>\<open>strconv.ParseInt\<close> in base 10 and \<^verbatim>\<open>base64.RawURLEncoding\<close>. Storm ids print and parse through \<^verbatim>\<open>google/uuid\<close>,
  two parameters of the definitions.
\<close>

section \<open>Tokens\<close>

text \<open>\<^verbatim>\<open>Time.UnixMicro\<close> and \<^verbatim>\<open>time.UnixMicro\<close>.\<close>

definition UnixMicro :: "instant \<Rightarrow> int" where
  "UnixMicro t = t div 1000"

definition of_UnixMicro :: "int \<Rightarrow> instant" where
  "of_UnixMicro us = us * 1000"

definition encodeCursor :: "(nat \<Rightarrow> string) \<Rightarrow> instant \<Rightarrow> nat \<Rightarrow> string" where
  "encodeCursor id_string startedAt i = EncodeToString (FormatInt (UnixMicro startedAt) @ ''.'' @ id_string i)"

definition decodeCursor :: "(string \<Rightarrow> nat option) \<Rightarrow> string \<Rightarrow> (instant \<times> nat) option" where
  "decodeCursor parse_id tok =
     (case DecodeString tok of
        None \<Rightarrow> None
      | Some raw \<Rightarrow>
          (let (ts, i, ok) = Cut (CHR ''.'') raw
           in if \<not> ok then None
              else case ParseInt ts of
                None \<Rightarrow> None
              | Some us \<Rightarrow> (case parse_id i of None \<Rightarrow> None | Some u \<Rightarrow> Some (of_UnixMicro us, u))))"

text \<open>Instants a database column can hold: whole microseconds within 64 bits.\<close>

definition db_instant :: "instant \<Rightarrow> bool" where
  "db_instant t \<longleftrightarrow> t mod 1000 = 0 \<and> int64_ok (UnixMicro t)"

lemma Cut_append: "c \<notin> set xs \<Longrightarrow> Cut c (xs @ c # ys) = (xs, ys, True)"
  by (simp add: Cut_def takeWhile_append dropWhile_append)

lemma cursor_roundtrip:
  assumes "db_instant t" and "parse_id (id_string i) = Some i"
  shows "decodeCursor parse_id (encodeCursor id_string t i) = Some (t, i)"
proof -
  have "UnixMicro t * 1000 = t" using assms(1) mult_div_mod_eq [of 1000 t] by (simp add: db_instant_def UnixMicro_def)
  then show ?thesis
    using assms Cut_append [OF FormatInt_no_dot, of "UnixMicro t" "id_string i"]
    by (simp add: decodeCursor_def encodeCursor_def DecodeString_EncodeToString ParseInt_FormatInt db_instant_def of_UnixMicro_def)
qed

lemma b64_groups_empty [simp]: "b64_groups bs = [] \<longleftrightarrow> bs = []"
  by (cases bs rule: b64_groups.cases) auto

lemma encodeCursor_nonempty [simp]: "encodeCursor id_string t i \<noteq> []"
  by (simp add: encodeCursor_def EncodeToString_def)

end
