(* ===== verification/Gateway_Db.thy ===== *)
theory Gateway_Db
  imports Notify Privacy
begin

text \<open>
  What the API gateway reads: the tables behind \<^verbatim>\<open>internal/store/queries/query.sql\<close> and every statement of it as a
  function on them (\<^verbatim>\<open>internal/store/sqlcgen/query.sql.go\<close>). Joins are written as the nested selections they stand
  for. Where a statement leaves an order open, the order of the table is taken.
\<close>

section \<open>Tables\<close>

record segment_row =
  sgr_ID :: string
  sgr_Name :: string
  sgr_Geometry :: string
  sgr_Kind :: string

record home_row =
  hr_ID :: uuid
  hr_SegmentID :: "string option"
  hr_PitAreaM2 :: "real option"
  hr_ConsentAt :: "instant option"
  hr_CreatedAt :: instant

record owner_row =
  ow_AuthSubject :: string
  ow_HomeID :: uuid

record fleet_device =
  fd_DevEui :: string
  fd_HomeID :: "uuid option"
  fd_Kind :: string
  fd_InstalledAt :: "instant option"
  fd_LastSeenAt :: "instant option"

record heartbeat_row = reading_row +
  rr_CyclesSinceLast :: int

record stamped_storm = storm_row +
  se_UpdatedAt :: instant

record gw_db =
  gd_segments :: "segment_row list"
  gd_homes :: "home_row list"
  gd_owners :: "owner_row list"
  gd_devices :: "fleet_device list"
  gd_readings :: "heartbeat_row list"
  gd_alerts :: "alert_row list"
  gd_storms :: "stamped_storm list"
  gd_metrics :: "metric_row list"

section \<open>Statements\<close>

definition house :: "fleet_device \<Rightarrow> bool" where
  "house d \<longleftrightarrow> fd_Kind d = ''house''"

record listed_segment = segment_row +
  sgr_HomeCount :: int

definition GatewayListSegments :: "gw_db \<Rightarrow> listed_segment list" where
  "GatewayListSegments db =
     map (\<lambda>s. segment_row.extend s
       \<lparr>sgr_HomeCount = int (length (remdups [hr_ID h. d \<leftarrow> gd_devices db, h \<leftarrow> gd_homes db,
          fd_HomeID d = Some (hr_ID h) \<and> hr_SegmentID h = Some (sgr_ID s) \<and> house d]))\<rparr>)
     (sort_key sgr_ID (gd_segments db))"

definition owned_homes :: "gw_db \<Rightarrow> string \<Rightarrow> home_row list" where
  "owned_homes db subject = [h. h \<leftarrow> gd_homes db, w \<leftarrow> gd_owners db, ow_HomeID w = hr_ID h \<and> ow_AuthSubject w = subject]"

definition ListOwnedHomes :: "gw_db \<Rightarrow> string \<Rightarrow> home_row list" where
  "ListOwnedHomes db subject = sort_key (\<lambda>h. (hr_CreatedAt h, hr_ID h)) (owned_homes db subject)"

text \<open>\<^verbatim>\<open>:one\<close> statements: the first row, or none (\<^verbatim>\<open>pgx.ErrNoRows\<close>).\<close>

definition first_row :: "'a list \<Rightarrow> 'a option" where
  "first_row xs = (case xs of [] \<Rightarrow> None | x # _ \<Rightarrow> Some x)"

definition GetOwnedHome :: "gw_db \<Rightarrow> string \<Rightarrow> uuid \<Rightarrow> home_row option" where
  "GetOwnedHome db subject home = first_row (filter (\<lambda>h. hr_ID h = home) (owned_homes db subject))"

definition ListHomeDevices :: "gw_db \<Rightarrow> uuid \<Rightarrow> fleet_device list" where
  "ListHomeDevices db home = sort_key fd_DevEui (filter (\<lambda>d. fd_HomeID d = Some home) (gd_devices db))"

definition GetHomeLatestReading :: "gw_db \<Rightarrow> uuid \<Rightarrow> (instant \<times> int option \<times> bool) option" where
  "GetHomeLatestReading db home =
     map_option (\<lambda>r. (rr_Ts r, rr_BattMv r, rr_MainsOk r))
       (first_row (sort_key (\<lambda>r. - rr_Ts r)
          (filter (\<lambda>r. rr_DeviceID r \<in> set (map fd_DevEui (filter (\<lambda>d. fd_HomeID d = Some home \<and> house d) (gd_devices db))))
             (gd_readings db))))"

definition CountOpenAlertsForHome :: "gw_db \<Rightarrow> uuid \<Rightarrow> int" where
  "CountOpenAlertsForHome db home = int (length (filter (\<lambda>a. al_HomeID a = Some home \<and> is_open a) (gd_alerts db)))"

text \<open>The metrics of a home joined with their storms, newest storm first.\<close>

definition home_storms :: "gw_db \<Rightarrow> uuid \<Rightarrow> (metric_row \<times> stamped_storm) list" where
  "home_storms db home =
     sort_key (\<lambda>(m, s). (- se_StartedAt s, - int (se_ID s)))
       [(m, s). m \<leftarrow> gd_metrics db, s \<leftarrow> gd_storms db, se_ID s = hm_StormID m \<and> hm_HomeID m = home]"

definition GetHomeLatestBaseflow :: "gw_db \<Rightarrow> uuid \<Rightarrow> real option" where
  "GetHomeLatestBaseflow db home =
     map_option (\<lambda>(m, s). the (hm_BaseflowCpd m)) (first_row (filter (\<lambda>(m, s). hm_BaseflowCpd m \<noteq> None) (home_storms db home)))"

definition ListHomeStormMetrics :: "gw_db \<Rightarrow> uuid \<Rightarrow> nat \<Rightarrow> (metric_row \<times> instant) list" where
  "ListHomeStormMetrics db home n = map (\<lambda>(m, s). (m, se_StartedAt s)) (take n (home_storms db home))"

text \<open>Newest first: the order \<^verbatim>\<open>started_at DESC, id DESC\<close>.\<close>

definition storm_key :: "stamped_storm \<Rightarrow> instant \<times> nat" where
  "storm_key e = (se_StartedAt e, se_ID e)"

definition storm_order :: "stamped_storm \<Rightarrow> instant \<times> int" where
  "storm_order e = (- se_StartedAt e, - int (se_ID e))"

record page_params =
  pp_Since :: "instant option"
  pp_Until :: "instant option"
  pp_Cursor :: "(instant \<times> nat) option"
  pp_Lim :: nat

definition in_page :: "page_params \<Rightarrow> stamped_storm \<Rightarrow> bool" where
  "in_page p e \<longleftrightarrow>
     (case pp_Since p of None \<Rightarrow> True | Some t \<Rightarrow> se_StartedAt e \<ge> t)
     \<and> (case pp_Until p of None \<Rightarrow> True | Some t \<Rightarrow> se_StartedAt e < t)
     \<and> (case pp_Cursor p of None \<Rightarrow> True | Some c \<Rightarrow> storm_key e < c)"

definition ListStormEventsPage :: "gw_db \<Rightarrow> page_params \<Rightarrow> stamped_storm list" where
  "ListStormEventsPage db p = take (pp_Lim p) (sort_key storm_order (filter (in_page p) (gd_storms db)))"

definition GetStormEventByID :: "gw_db \<Rightarrow> nat \<Rightarrow> stamped_storm option" where
  "GetStormEventByID db i = first_row (filter (\<lambda>e. se_ID e = i) (gd_storms db))"

definition metric_view :: "string \<Rightarrow> metric_row \<Rightarrow> storm_metric_row" where
  "metric_view seg m = \<lparr>sm_SegmentID = seg, sm_HomeID = hm_HomeID m, sm_VolumeL = hm_VolumeL m,
     sm_LagMin = hm_LagMin m, sm_RecessionMin = hm_RecessionMin m\<rparr>"

definition linked :: "gw_db \<Rightarrow> uuid \<Rightarrow> bool" where
  "linked db home \<longleftrightarrow> (\<exists>d \<in> set (gd_devices db). fd_HomeID d = Some home \<and> house d)"

definition ListStormHomeMetrics :: "gw_db \<Rightarrow> nat \<Rightarrow> storm_metric_row list" where
  "ListStormHomeMetrics db storm_id =
     sort_key (\<lambda>r. (sm_SegmentID r, sm_HomeID r))
       [metric_view (the (hr_SegmentID h)) m. m \<leftarrow> gd_metrics db, h \<leftarrow> gd_homes db,
          hr_ID h = hm_HomeID m \<and> hm_StormID m = storm_id \<and> hr_SegmentID h \<noteq> None \<and> linked db (hr_ID h)]"

text \<open>\<open>now\<close> is the database clock of the transaction.\<close>

definition NeighbourhoodClock :: "instant \<Rightarrow> gw_db \<Rightarrow> instant" where
  "NeighbourhoodClock now db =
     (case List.map_filter fd_LastSeenAt (filter (\<lambda>d. fd_HomeID d \<noteq> None \<and> house d) (gd_devices db)) of
        [] \<Rightarrow> now
      | t # ts \<Rightarrow> min (Max (set (t # ts))) now)"

text \<open>The readings of linked homes in a window, each with its home.\<close>

definition window_rows :: "gw_db \<Rightarrow> instant \<Rightarrow> instant \<Rightarrow> (heartbeat_row \<times> home_row) list" where
  "window_rows db from_ts to_ts =
     [(r, h). r \<leftarrow> gd_readings db, d \<leftarrow> gd_devices db, h \<leftarrow> gd_homes db,
        fd_DevEui d = rr_DeviceID r \<and> fd_HomeID d = Some (hr_ID h) \<and> rr_Ts r > from_ts \<and> rr_Ts r \<le> to_ts
        \<and> house d \<and> hr_SegmentID h \<noteq> None]"

definition SegmentActivity :: "gw_db \<Rightarrow> instant \<Rightarrow> instant \<Rightarrow> activity_row list" where
  "SegmentActivity db from_ts to_ts =
     (let rows = window_rows db from_ts to_ts
      in map (\<lambda>s. let g = filter (\<lambda>(r, h). hr_SegmentID h = Some s) rows
           in \<lparr>ac_SegmentID = s, ac_HomesReporting = int (length (remdups (map (\<lambda>(r, h). hr_ID h) g))),
               ac_Cycles = sum_list (map (\<lambda>(r, h). rr_CyclesSinceLast r) g)\<rparr>)
         (first_keys (map (\<lambda>(r, h). the (hr_SegmentID h)) rows) []))"

text \<open>Alerts joined with the home they are on.\<close>

definition alert_homes :: "gw_db \<Rightarrow> (alert_row \<times> home_row) list" where
  "alert_homes db = [(a, h). a \<leftarrow> gd_alerts db, h \<leftarrow> gd_homes db, al_HomeID a = Some (hr_ID h)]"

definition SegmentOpenAlertCounts :: "gw_db \<Rightarrow> alert_count_row list" where
  "SegmentOpenAlertCounts db =
     (let segs = [s. (a, h) \<leftarrow> alert_homes db, is_open a, s \<leftarrow> (case hr_SegmentID h of None \<Rightarrow> [] | Some s \<Rightarrow> [s])]
      in map (\<lambda>s. \<lparr>ca_SegmentID = s, ca_ActiveAlerts = int (length (filter (\<lambda>x. x = s) segs))\<rparr>) (first_keys segs []))"

definition ListStormEventsChangedSince :: "gw_db \<Rightarrow> instant \<Rightarrow> stamped_storm list" where
  "ListStormEventsChangedSince db after =
     sort_key (\<lambda>e. (se_UpdatedAt e, se_ID e)) (filter (\<lambda>e. se_UpdatedAt e > after) (gd_storms db))"

definition ListSnapshotStormEvents :: "gw_db \<Rightarrow> nat \<Rightarrow> stamped_storm list" where
  "ListSnapshotStormEvents db recent =
     sort_key storm_key
       (filter (\<lambda>e. se_Status e = ''open'' \<or> se_ID e \<in> set (map se_ID (take recent (sort_key storm_order (gd_storms db))))) (gd_storms db))"

definition ListAlertsChangedSince :: "gw_db \<Rightarrow> instant \<Rightarrow> (alert_row \<times> string option) list" where
  "ListAlertsChangedSince db after =
     sort_key (\<lambda>(a, s). (al_UpdatedAt a, al_ID a))
       (map (\<lambda>(a, h). (a, hr_SegmentID h)) (filter (\<lambda>(a, h). al_UpdatedAt a > after) (alert_homes db)))"

definition ListOwnersOfHomes :: "gw_db \<Rightarrow> uuid list \<Rightarrow> owner_row list" where
  "ListOwnersOfHomes db homes = filter (\<lambda>w. ow_HomeID w \<in> set homes) (gd_owners db)"

definition ListOwnerActiveAlerts :: "gw_db \<Rightarrow> string \<Rightarrow> uuid option \<Rightarrow> (alert_row \<times> string option) list" where
  "ListOwnerActiveAlerts db subject home =
     sort_key (\<lambda>(a, s). (- al_RaisedAt a, al_ID a))
       [(a, hr_SegmentID h). (a, h) \<leftarrow> alert_homes db, w \<leftarrow> gd_owners db,
          ow_HomeID w = hr_ID h \<and> ow_AuthSubject w = subject \<and> is_open a
          \<and> (home = None \<or> al_HomeID a = home)]"

definition OwnsHome :: "gw_db \<Rightarrow> string \<Rightarrow> uuid \<Rightarrow> bool" where
  "OwnsHome db subject home \<longleftrightarrow> (\<exists>w \<in> set (gd_owners db). ow_AuthSubject w = subject \<and> ow_HomeID w = home)"

definition OwnsAlert :: "gw_db \<Rightarrow> string \<Rightarrow> nat \<Rightarrow> bool" where
  "OwnsAlert db subject i \<longleftrightarrow> (\<exists>a \<in> set (gd_alerts db). al_ID a = i \<and> (case al_HomeID a of None \<Rightarrow> False | Some h \<Rightarrow> OwnsHome db subject h))"

end
