(* ===== verification/Gateway.thy ===== *)
theory Gateway
  imports Gateway_Db Auth Cursor
begin

text \<open>
  The query service of \<^verbatim>\<open>internal/gateway/server.go\<close>: every method with its checks, statements and error codes. A call
  has an environment: the caller's context (its end, if it has ended), the statements that fail, and the three
  functions of \<^verbatim>\<open>google/uuid\<close> the methods use. Message texts are left out. The theorems state what an owner can see,
  that paging through the storms lists each of them once, and what a public storm view may reveal.
\<close>

section \<open>Environment\<close>

datatype gw_stmt =
    GSegments | GOwnedHomes | GOwnedHome uuid | GHomeDevices uuid | GLatestReading uuid | GOpenAlerts uuid | GBaseflow uuid
  | GHomeStorms uuid | GStormPage | GStorm nat | GStormMetrics nat | GOwnerAlerts | GOwnsAlert nat | GOwnsHome uuid
  | GClock | GActivity | GAlertCounts | GStormsChanged | GAlertsChanged | GOwners | GSnapshotStorms

record gw_env =
  ge_ctx :: "grpc_code option"
  ge_fails :: "gw_stmt \<Rightarrow> db_error option"
  ge_parse_uuid :: "string \<Rightarrow> uuid option"
  ge_parse_id :: "string \<Rightarrow> nat option"
  ge_id_string :: "nat \<Rightarrow> string"

definition gq :: "gw_env \<Rightarrow> gw_stmt \<Rightarrow> 'a \<Rightarrow> db_error + 'a" where
  "gq env st x = (case ge_fails env st of Some e \<Rightarrow> Inl e | None \<Rightarrow> Inr x)"

definition internal :: "gw_env \<Rightarrow> grpc_code" where
  "internal env = (case ge_ctx env of Some c \<Rightarrow> c | None \<Rightarrow> Internal)"

definition or_internal :: "gw_env \<Rightarrow> db_error + 'a \<Rightarrow> grpc_code + 'a" where
  "or_internal env m = (case m of Inl _ \<Rightarrow> Inl (internal env) | Inr x \<Rightarrow> Inr x)"

definition defaultPageSize :: int where "defaultPageSize = 50"
definition maxPageSize :: int where "maxPageSize = 200"
definition recentHomeStorms :: nat where "recentHomeStorms = 10"
definition maxNoteLen :: nat where "maxNoteLen = 500"
definition maxWatchSegments :: nat where "maxWatchSegments = 100"

section \<open>Conversions\<close>

definition segment_kind :: "string \<Rightarrow> nat" where
  "segment_kind k = (if k = ''standard'' then 1 else if k = ''wooded'' then 2 else if k = ''near_pond'' then 3
     else if k = ''high_ground'' then 4 else 0)"

record segment_proto =
  gp_Id :: string
  gp_Name :: string
  gp_GeometryGeojson :: string
  gp_HomeCount :: int
  gp_Kind :: nat

definition segmentToProto :: "listed_segment \<Rightarrow> segment_proto" where
  "segmentToProto s = \<lparr>gp_Id = sgr_ID s, gp_Name = sgr_Name s, gp_GeometryGeojson = sgr_Geometry s,
     gp_HomeCount = u32 (sgr_HomeCount s), gp_Kind = segment_kind (sgr_Kind s)\<rparr>"

record storm_proto =
  tp_Id :: string
  tp_StartedAt :: instant
  tp_EndedAt :: "instant option"
  tp_TotalRainMm :: real
  tp_PeakIntensityMmH :: real

definition stormToProto :: "gw_env \<Rightarrow> stamped_storm \<Rightarrow> storm_proto" where
  "stormToProto env e = \<lparr>tp_Id = ge_id_string env (se_ID e), tp_StartedAt = se_StartedAt e, tp_EndedAt = se_EndedAt e,
     tp_TotalRainMm = se_TotalRainMm e, tp_PeakIntensityMmH = se_PeakIntensityMmH e\<rparr>"

definition alertToProto :: "alert_row \<Rightarrow> string option \<Rightarrow> alert_proto" where
  "alertToProto a segment =
     \<lparr>ap_Id = al_ID a, ap_HomeId = (case al_HomeID a of None \<Rightarrow> '''' | Some h \<Rightarrow> h),
      ap_SegmentId = (case segment of None \<Rightarrow> '''' | Some s \<Rightarrow> s), ap_Code = al_Code a,
      ap_Severity = al_Severity a, ap_RaisedAt = al_RaisedAt a, ap_AckedAt = al_AckedAt a,
      ap_ResolvedAt = al_ResolvedAt a, ap_Message = al_Message a, ap_DeviceId = al_DeviceID a\<rparr>"

record home_storm_proto =
  hp_StormId :: string
  hp_HomeId :: string
  hp_LagMin :: real
  hp_LagReached :: bool
  hp_RecessionMin :: real
  hp_RecessionReached :: bool
  hp_VolumeL :: real
  hp_Cycles :: int
  hp_StormStartedAt :: instant

definition homeStormToProto :: "gw_env \<Rightarrow> metric_row \<times> instant \<Rightarrow> home_storm_proto" where
  "homeStormToProto env = (\<lambda>(m, started).
     \<lparr>hp_StormId = ge_id_string env (hm_StormID m), hp_HomeId = hm_HomeID m,
      hp_LagMin = (case hm_LagMin m of None \<Rightarrow> 0 | Some x \<Rightarrow> x), hp_LagReached = (hm_LagMin m \<noteq> None),
      hp_RecessionMin = (case hm_RecessionMin m of None \<Rightarrow> 0 | Some x \<Rightarrow> x), hp_RecessionReached = (hm_RecessionMin m \<noteq> None),
      hp_VolumeL = hm_VolumeL m, hp_Cycles = u32 (hm_Cycles m), hp_StormStartedAt = started\<rparr>)"

section \<open>Homes\<close>

record device_proto =
  dp_DevEui :: string
  dp_Kind :: string
  dp_InstalledAt :: "instant option"

record health_proto =
  he_LastSeen :: "instant option"
  he_BattMv :: int
  he_MainsOk :: bool
  he_ActiveAlerts :: int
  he_BaseflowCyclesPerDay :: real

record home_proto =
  op_Id :: string
  op_SegmentId :: string
  op_PitAreaM2 :: real
  op_ConsentAt :: "instant option"
  op_Devices :: "device_proto list"
  op_Health :: health_proto

definition home :: "gw_env \<Rightarrow> gw_db \<Rightarrow> home_row \<Rightarrow> db_error + home_proto" where
  "home env db h =
     bind_sum (gq env (GHomeDevices (hr_ID h)) (ListHomeDevices db (hr_ID h))) (\<lambda>devs.
     bind_sum (gq env (GLatestReading (hr_ID h)) (GetHomeLatestReading db (hr_ID h))) (\<lambda>r.
     bind_sum (gq env (GOpenAlerts (hr_ID h)) (CountOpenAlertsForHome db (hr_ID h))) (\<lambda>n.
     bind_sum (gq env (GBaseflow (hr_ID h)) (GetHomeLatestBaseflow db (hr_ID h))) (\<lambda>bf.
       Inr \<lparr>op_Id = hr_ID h, op_SegmentId = (case hr_SegmentID h of None \<Rightarrow> '''' | Some s \<Rightarrow> s),
            op_PitAreaM2 = (case hr_PitAreaM2 h of None \<Rightarrow> 0 | Some x \<Rightarrow> x), op_ConsentAt = hr_ConsentAt h,
            op_Devices = map (\<lambda>d. \<lparr>dp_DevEui = fd_DevEui d, dp_Kind = fd_Kind d, dp_InstalledAt = fd_InstalledAt d\<rparr>) devs,
            op_Health = \<lparr>he_LastSeen = map_option fst r,
              he_BattMv = (case r of Some (_, Some mv, _) \<Rightarrow> u32 mv | _ \<Rightarrow> 0),
              he_MainsOk = (case r of Some (_, _, ok) \<Rightarrow> ok | None \<Rightarrow> False),
              he_ActiveAlerts = u32 n, he_BaseflowCyclesPerDay = (case bf of None \<Rightarrow> 0 | Some x \<Rightarrow> x)\<rparr>\<rparr>))))"

definition GetHome :: "gw_env \<Rightarrow> gw_db \<Rightarrow> context_id \<Rightarrow> string \<Rightarrow> grpc_code + (home_proto \<times> home_storm_proto list)" where
  "GetHome env db ctx home_id =
     bind_sum (RequireOwner ctx) (\<lambda>p.
     case ge_parse_uuid env home_id of
       None \<Rightarrow> Inl InvalidArgument
     | Some i \<Rightarrow>
         bind_sum (or_internal env (gq env (GOwnedHome i) (GetOwnedHome db (pr_Subject p) i))) (\<lambda>r.
         case r of
           None \<Rightarrow> Inl NotFound
         | Some h \<Rightarrow>
             bind_sum (or_internal env (home env db h)) (\<lambda>hp.
             bind_sum (or_internal env (gq env (GHomeStorms i) (ListHomeStormMetrics db i recentHomeStorms))) (\<lambda>rows.
               Inr (hp, map (homeStormToProto env) rows)))))"

fun homes_loop :: "gw_env \<Rightarrow> gw_db \<Rightarrow> home_row list \<Rightarrow> grpc_code + home_proto list" where
  "homes_loop env db [] = Inr []"
| "homes_loop env db (h # hs) =
     bind_sum (or_internal env (home env db h)) (\<lambda>p. bind_sum (homes_loop env db hs) (\<lambda>ps. Inr (p # ps)))"

definition ListMyHomes :: "gw_env \<Rightarrow> gw_db \<Rightarrow> context_id \<Rightarrow> grpc_code + home_proto list" where
  "ListMyHomes env db ctx =
     bind_sum (RequireOwner ctx) (\<lambda>p.
     bind_sum (or_internal env (gq env GOwnedHomes (ListOwnedHomes db (pr_Subject p)))) (\<lambda>homes. homes_loop env db homes))"

section \<open>Storms and segments\<close>

text \<open>A timestamp of a request as \<^verbatim>\<open>CheckValid\<close> and \<^verbatim>\<open>AsTime\<close> read it.\<close>

datatype ts_arg = NoTime | BadTime | Time instant

text \<open>A \<^verbatim>\<open>timestamptz\<close> parameter is cut to the microsecond by the driver.\<close>

definition micros :: "instant \<Rightarrow> instant" where
  "micros t = t div 1000 * 1000"

definition ts_param :: "ts_arg \<Rightarrow> grpc_code + instant option" where
  "ts_param a = (case a of NoTime \<Rightarrow> Inr None | BadTime \<Rightarrow> Inl InvalidArgument | Time t \<Rightarrow> Inr (Some t))"

record storms_request =
  lr_PageSize :: int
  lr_Since :: ts_arg
  lr_Until :: ts_arg
  lr_PageToken :: string

definition page_size :: "int \<Rightarrow> grpc_code + nat" where
  "page_size n =
     (if n < 0 then Inl InvalidArgument
      else if n = 0 then Inr (nat defaultPageSize)
      else if n > maxPageSize then Inr (nat maxPageSize)
      else Inr (nat n))"

definition cursor_param :: "gw_env \<Rightarrow> string \<Rightarrow> grpc_code + (instant \<times> nat) option" where
  "cursor_param env tok =
     (if tok = '''' then Inr None
      else case decodeCursor (ge_parse_id env) tok of None \<Rightarrow> Inl InvalidArgument | Some c \<Rightarrow> Inr (Some c))"

text \<open>The page and the token of the next one, empty on the last page.\<close>

definition ListStormEvents :: "gw_env \<Rightarrow> gw_db \<Rightarrow> storms_request \<Rightarrow> grpc_code + (storm_proto list \<times> string)" where
  "ListStormEvents env db req =
     bind_sum (page_size (lr_PageSize req)) (\<lambda>size.
     bind_sum (ts_param (lr_Since req)) (\<lambda>since_ts.
     bind_sum (ts_param (lr_Until req)) (\<lambda>until_ts.
     bind_sum (cursor_param env (lr_PageToken req)) (\<lambda>c.
     bind_sum (or_internal env (gq env GStormPage (ListStormEventsPage db
        \<lparr>pp_Since = map_option micros since_ts, pp_Until = map_option micros until_ts, pp_Cursor = c, pp_Lim = size + 1\<rparr>))) (\<lambda>rows.
       if length rows > size
       then let rows = take size rows
            in Inr (map (stormToProto env) rows,
                 encodeCursor (ge_id_string env) (se_StartedAt (last rows)) (se_ID (last rows)))
       else Inr (map (stormToProto env) rows, ''''))))))"

definition GetStormEvent :: "gw_env \<Rightarrow> gw_db \<Rightarrow> string \<Rightarrow> grpc_code + (storm_proto \<times> segment_storm_proto list)" where
  "GetStormEvent env db storm_id =
     (case ge_parse_id env storm_id of
        None \<Rightarrow> Inl InvalidArgument
      | Some i \<Rightarrow>
          bind_sum (or_internal env (gq env (GStorm i) (GetStormEventByID db i))) (\<lambda>r.
          case r of
            None \<Rightarrow> Inl NotFound
          | Some ev \<Rightarrow>
              bind_sum (or_internal env (gq env GSegments (GatewayListSegments db))) (\<lambda>segs.
              bind_sum (or_internal env (gq env (GStormMetrics i) (ListStormHomeMetrics db i))) (\<lambda>rows.
                Inr (stormToProto env ev, aggregateStorm (ge_id_string env (se_ID ev)) (map sgr_ID segs) rows)))))"

definition ListSegments :: "gw_env \<Rightarrow> gw_db \<Rightarrow> grpc_code + segment_proto list" where
  "ListSegments env db =
     bind_sum (or_internal env (gq env GSegments (GatewayListSegments db))) (\<lambda>segs. Inr (map segmentToProto segs))"

section \<open>Alerts\<close>

definition ListMyAlerts :: "gw_env \<Rightarrow> gw_db \<Rightarrow> context_id \<Rightarrow> string \<Rightarrow> grpc_code + alert_proto list" where
  "ListMyAlerts env db ctx home_id =
     bind_sum (RequireOwner ctx) (\<lambda>p.
     bind_sum
       (if home_id \<noteq> '''' then
          (case ge_parse_uuid env home_id of
             None \<Rightarrow> Inl InvalidArgument
           | Some i \<Rightarrow>
               bind_sum (or_internal env (gq env (GOwnsHome i) (OwnsHome db (pr_Subject p) i))) (\<lambda>owned.
               if \<not> owned then Inl NotFound else Inr (Some i)))
        else Inr None) (\<lambda>home.
     bind_sum (or_internal env (gq env GOwnerAlerts (ListOwnerActiveAlerts db (pr_Subject p) home))) (\<lambda>rows.
       Inr (map (\<lambda>(a, s). alertToProto a s) rows))))"

text \<open>
  \<open>alerts\<close> is the client of the alerts service: none when it is not configured, else the effect of an \<^verbatim>\<open>Acknowledge\<close>
  with the given id and note on the state of that service, with its answer. A note is its list of Unicode
  characters.
\<close>

definition AcknowledgeMyAlert ::
  "gw_env \<Rightarrow> gw_db \<Rightarrow> (string \<Rightarrow> string \<Rightarrow> 's \<Rightarrow> 's \<times> (grpc_code + alert_proto)) option \<Rightarrow> context_id \<Rightarrow> string \<Rightarrow> string
     \<Rightarrow> 's \<Rightarrow> 's \<times> (grpc_code + alert_proto)" where
  "AcknowledgeMyAlert env db alerts ctx alert_id note st =
     (case RequireOwner ctx of
        Inl e \<Rightarrow> (st, Inl e)
      | Inr p \<Rightarrow>
        (case ge_parse_id env alert_id of
           None \<Rightarrow> (st, Inl InvalidArgument)
         | Some i \<Rightarrow>
           (if length note > maxNoteLen then (st, Inl InvalidArgument)
            else case or_internal env (gq env (GOwnsAlert i) (OwnsAlert db (pr_Subject p) i)) of
              Inl e \<Rightarrow> (st, Inl e)
            | Inr owned \<Rightarrow>
              (if \<not> owned then (st, Inl NotFound)
               else case alerts of
                 None \<Rightarrow> (st, Inl Unavailable)
               | Some call \<Rightarrow>
                 (case call (ge_id_string env i) note st of
                    (st', Inr a) \<Rightarrow> (st', Inr a)
                  | (st', Inl code) \<Rightarrow>
                      (st', Inl (if code = NotFound \<or> code = InvalidArgument then code
                                 else case ge_ctx env of Some c \<Rightarrow> c | None \<Rightarrow> Unavailable)))))))"

section \<open>What an owner sees\<close>

text \<open>The part of the database a subject owns; storms and segments are public.\<close>

definition owned_devices :: "gw_db \<Rightarrow> string \<Rightarrow> fleet_device list" where
  "owned_devices db s = filter (\<lambda>d. case fd_HomeID d of None \<Rightarrow> False | Some h \<Rightarrow> OwnsHome db s h) (gd_devices db)"

definition owner_view :: "string \<Rightarrow> gw_db \<Rightarrow> gw_db" where
  "owner_view s db = db
     \<lparr>gd_homes := filter (\<lambda>h. OwnsHome db s (hr_ID h)) (gd_homes db),
      gd_owners := filter (\<lambda>w. ow_AuthSubject w = s) (gd_owners db),
      gd_devices := owned_devices db s,
      gd_readings := filter (\<lambda>r. rr_DeviceID r \<in> fd_DevEui ` set (owned_devices db s)) (gd_readings db),
      gd_alerts := filter (\<lambda>a. case al_HomeID a of None \<Rightarrow> False | Some h \<Rightarrow> OwnsHome db s h) (gd_alerts db),
      gd_metrics := filter (\<lambda>m. OwnsHome db s (hm_HomeID m)) (gd_metrics db)\<rparr>"

lemma concat_map_filter: "(\<And>x. x \<in> set xs \<Longrightarrow> \<not> P x \<Longrightarrow> f x = []) \<Longrightarrow> concat (map f (filter P xs)) = concat (map f xs)"
  by (induction xs) auto

lemma concat_map_cong: "(\<And>x. x \<in> set xs \<Longrightarrow> f x = g x) \<Longrightarrow> concat (map f xs) = concat (map g xs)"
  by (metis map_cong)

text \<open>The owner links of a subject: dropping those of others changes no selection for it.\<close>

lemma owner_links:
  "concat (map (\<lambda>w. if ow_HomeID w = h \<and> ow_AuthSubject w = s then [x] else []) (filter (\<lambda>w. ow_AuthSubject w = s) ws))
     = concat (map (\<lambda>w. if ow_HomeID w = h \<and> ow_AuthSubject w = s then [x] else []) ws)"
  "concat (map (\<lambda>w. if ow_HomeID w = h \<and> ow_AuthSubject w = s \<and> Q then [x] else []) (filter (\<lambda>w. ow_AuthSubject w = s) ws))
     = concat (map (\<lambda>w. if ow_HomeID w = h \<and> ow_AuthSubject w = s \<and> Q then [x] else []) ws)"
  by (rule concat_map_filter, simp)+

lemma owns_view [simp]: "OwnsHome (owner_view s db) s h = OwnsHome db s h"
  by (auto simp: OwnsHome_def owner_view_def)

lemma owned_homes_view: "owned_homes (owner_view s db) s = owned_homes db s"
proof -
  have "concat (map (\<lambda>h. concat (map (\<lambda>w. if ow_HomeID w = hr_ID h \<and> ow_AuthSubject w = s then [h] else []) (gd_owners db)))
      (filter (\<lambda>h. OwnsHome db s (hr_ID h)) (gd_homes db))) = owned_homes db s"
    unfolding owned_homes_def by (rule concat_map_filter) (auto simp: OwnsHome_def)
  then show ?thesis
    by (simp add: owned_homes_def owner_view_def owner_links)
qed

lemma home_devices_view: "OwnsHome db s h \<Longrightarrow> ListHomeDevices (owner_view s db) h = ListHomeDevices db h"
  by (auto simp: ListHomeDevices_def owner_view_def owned_devices_def conj_commute intro!: arg_cong [where f = "sort_key fd_DevEui"] filter_cong)

lemma latest_reading_view:
  assumes "OwnsHome db s h"
  shows "GetHomeLatestReading (owner_view s db) h = GetHomeLatestReading db h"
proof -
  have devs: "filter (\<lambda>d. fd_HomeID d = Some h \<and> house d) (owned_devices db s) = filter (\<lambda>d. fd_HomeID d = Some h \<and> house d) (gd_devices db)"
    using assms by (auto simp: owned_devices_def intro!: filter_cong)
  have "rr_DeviceID r \<in> fd_DevEui ` set (owned_devices db s)"
    if "rr_DeviceID r \<in> set (map fd_DevEui (filter (\<lambda>d. fd_HomeID d = Some h \<and> house d) (gd_devices db)))" for r :: heartbeat_row
    using that assms by (auto simp: owned_devices_def)
  then have "filter (\<lambda>r. rr_DeviceID r \<in> set (map fd_DevEui (filter (\<lambda>d. fd_HomeID d = Some h \<and> house d) (gd_devices db)))) (gd_readings (owner_view s db))
      = filter (\<lambda>r. rr_DeviceID r \<in> set (map fd_DevEui (filter (\<lambda>d. fd_HomeID d = Some h \<and> house d) (gd_devices db)))) (gd_readings db)"
    by (auto simp: owner_view_def intro!: filter_cong)
  then show ?thesis unfolding GetHomeLatestReading_def by (simp add: owner_view_def devs)
qed

lemma open_alerts_view: "OwnsHome db s h \<Longrightarrow> CountOpenAlertsForHome (owner_view s db) h = CountOpenAlertsForHome db h"
  by (auto simp: CountOpenAlertsForHome_def owner_view_def intro!: arg_cong [where f = length] filter_cong)

lemma home_storms_view: "OwnsHome db s h \<Longrightarrow> home_storms (owner_view s db) h = home_storms db h"
  unfolding home_storms_def by (rule arg_cong [where f = "sort_key _"]) (simp add: owner_view_def, rule concat_map_filter, auto)

lemma home_view: "OwnsHome db s (hr_ID h) \<Longrightarrow> home env (owner_view s db) h = home env db h"
  by (simp add: home_def home_devices_view latest_reading_view open_alerts_view GetHomeLatestBaseflow_def home_storms_view)

lemma homes_loop_view: "\<forall>h \<in> set hs. OwnsHome db s (hr_ID h) \<Longrightarrow> homes_loop env (owner_view s db) hs = homes_loop env db hs"
  by (induction hs) (auto simp: home_view)

lemma owned_homes_owned: "h \<in> set (owned_homes db s) \<Longrightarrow> OwnsHome db s (hr_ID h)"
  by (auto simp: owned_homes_def OwnsHome_def split: if_splits)

lemma alert_homes_view: "alert_homes (owner_view s db) = filter (\<lambda>(a, h). OwnsHome db s (hr_ID h)) (alert_homes db)"
proof -
  let ?g = "\<lambda>a h. if al_HomeID a = Some (hr_ID h) then [(a, h)] else []"
  have inner: "concat (map (?g a) (filter (\<lambda>h. OwnsHome db s (hr_ID h)) hs)) = filter (\<lambda>(a, h). OwnsHome db s (hr_ID h)) (concat (map (?g a) hs))" for a hs
    by (induction hs) auto
  have "concat (map (\<lambda>a. concat (map (?g a) (filter (\<lambda>h. OwnsHome db s (hr_ID h)) (gd_homes db))))
        (filter (\<lambda>a. case al_HomeID a of None \<Rightarrow> False | Some h \<Rightarrow> OwnsHome db s h) (gd_alerts db)))
      = concat (map (\<lambda>a. concat (map (?g a) (filter (\<lambda>h. OwnsHome db s (hr_ID h)) (gd_homes db)))) (gd_alerts db))"
    by (rule concat_map_filter) (auto split: option.splits)
  then show ?thesis by (simp add: alert_homes_def owner_view_def inner filter_concat comp_def)
qed

lemma owner_alerts_view: "ListOwnerActiveAlerts (owner_view s db) s h = ListOwnerActiveAlerts db s h"
proof -
  have owners: "gd_owners (owner_view s db) = filter (\<lambda>w. ow_AuthSubject w = s) (gd_owners db)" by (simp add: owner_view_def)
  show ?thesis
    unfolding ListOwnerActiveAlerts_def alert_homes_view owners owner_links
    by (rule arg_cong [where f = "sort_key _"], rule concat_map_filter) (auto simp: OwnsHome_def)
qed

lemma owns_alert_view: "OwnsAlert (owner_view s db) s i = OwnsAlert db s i"
  by (auto simp: OwnsAlert_def owner_view_def OwnsHome_def split: option.splits)

text \<open>
  C27: An owner's calls depend on nothing but the owner's own data. Every owner method gives, on the whole
  database, the answer it gives on the part of it that belongs to the homes of the caller's subject, so
  no home, device, reading, alert or metric of somebody else can change it; in particular a home of
  somebody else is answered like one that does not exist.
\<close>

theorem owner_calls_see_only_own:
  "GetHome env db ctx home_id = GetHome env (owner_view (pr_Subject (fst (FromContext ctx))) db) ctx home_id
   \<and> ListMyHomes env db ctx = ListMyHomes env (owner_view (pr_Subject (fst (FromContext ctx))) db) ctx
   \<and> ListMyAlerts env db ctx home_id = ListMyAlerts env (owner_view (pr_Subject (fst (FromContext ctx))) db) ctx home_id
   \<and> AcknowledgeMyAlert env db alerts ctx alert_id note st =
       AcknowledgeMyAlert env (owner_view (pr_Subject (fst (FromContext ctx))) db) alerts ctx alert_id note st"
proof (cases "RequireOwner ctx")
  case (Inl e)
  then show ?thesis by (simp add: GetHome_def ListMyHomes_def ListMyAlerts_def AcknowledgeMyAlert_def)
next
  case (Inr p)
  then have p: "fst (FromContext ctx) = p" by (auto simp: RequireOwner_def split: prod.splits if_splits)
  have owned: "OwnsHome db (pr_Subject p) i \<and> hr_ID h = i" if "GetOwnedHome db (pr_Subject p) i = Some h" for i h
    using that owned_homes_owned [of h db "pr_Subject p"]
    by (auto simp: GetOwnedHome_def first_row_def filter_eq_Cons_iff split: list.splits)
  have get: "GetOwnedHome (owner_view (pr_Subject p) db) (pr_Subject p) i = GetOwnedHome db (pr_Subject p) i" for i
    by (simp add: GetOwnedHome_def owned_homes_view)
  have "GetHome env db ctx home_id = GetHome env (owner_view (pr_Subject p) db) ctx home_id"
    using owned by (auto simp: GetHome_def Inr get gq_def or_internal_def home_view ListHomeStormMetrics_def home_storms_view
        split: option.split)
  moreover have "ListMyHomes env db ctx = ListMyHomes env (owner_view (pr_Subject p) db) ctx"
    using homes_loop_view [of "ListOwnedHomes db (pr_Subject p)" db "pr_Subject p"] owned_homes_owned
    by (simp add: ListMyHomes_def Inr ListOwnedHomes_def owned_homes_view gq_def or_internal_def split: option.split)
  ultimately show ?thesis
    unfolding p ListMyAlerts_def AcknowledgeMyAlert_def Inr bind_sum_simps sum.case owner_alerts_view owns_alert_view owns_view
    by (intro conjI refl)
qed

section \<open>Acknowledging\<close>

lemma Acknowledge_effect:
  assumes "Acknowledge parse_id ackfail getfail now dbnow alert_id note st = (st', r)" and "parse_id alert_id = Some i"
  shows "x \<in> set (adb_alerts st) \<Longrightarrow> x \<notin> set (adb_alerts st') \<Longrightarrow> al_ID x = i"
    and "r = Inr a \<Longrightarrow> ap_Id a = i \<and> ap_AckedAt a \<noteq> None"
proof -
  let ?n = "if note \<noteq> '''' then Some note else None"
  have run: "(if ackfail then (st, Inl Internal)
      else case AcknowledgeAlert dbnow i now ?n st of None \<Rightarrow> (st, Inl NotFound)
        | Some db' \<Rightarrow> if getfail then (db', Inl Internal)
            else case GetAlert i db' of None \<Rightarrow> (db', Inl Internal) | Some (a, s) \<Rightarrow> (db', Inr (toProto a s))) = (st', r)"
    using assms by (simp add: Acknowledge_def)
  consider (same) "st' = st" "\<forall>a. r \<noteq> Inr a" | (failed) "AcknowledgeAlert dbnow i now ?n st = Some st'" "\<forall>a. r \<noteq> Inr a"
    | (served) y s where "AcknowledgeAlert dbnow i now ?n st = Some st'" "GetAlert i st' = Some (y, s)" "r = Inr (toProto y s)"
  proof (cases "AcknowledgeAlert dbnow i now ?n st")
    case None
    then show thesis using run same by (auto split: if_splits)
  next
    case (Some db')
    then show thesis using run that by (cases "GetAlert i db'") (auto split: if_splits)
  qed
  note outcome = this
  have acked: "(x \<in> set (adb_alerts st) \<longrightarrow> x \<notin> set (adb_alerts st') \<longrightarrow> al_ID x = i)
      \<and> (\<forall>y \<in> set (adb_alerts st'). al_ID y = i \<longrightarrow> al_AckedAt y \<noteq> None)"
    if ack: "AcknowledgeAlert dbnow i now ?n st = Some st'" for x
  proof -
    define f where "f a = (if al_ID a = i then a\<lparr>al_AckedAt := coalesce (al_AckedAt a) (Some now),
        al_AckNote := coalesce (al_AckNote a) ?n, al_UpdatedAt := dbnow\<rparr> else a)" for a :: alert_row
    have st': "adb_alerts st' = map f (adb_alerts st)"
      using ack unfolding AcknowledgeAlert_def upd_alerts_def f_def [abs_def] by (auto split: if_split_asm)
    have "al_ID x = i" if "x \<in> set (adb_alerts st)" "x \<notin> set (adb_alerts st')"
    proof (rule ccontr)
      assume "al_ID x \<noteq> i"
      then have "f x = x" by (simp add: f_def)
      then show False using that image_eqI [of x f x "set (adb_alerts st)"] by (simp add: st')
    qed
    moreover have "al_AckedAt y \<noteq> None" if y: "y \<in> set (adb_alerts st')" and yi: "al_ID y = i" for y
    proof -
      obtain a where a: "y = f a" using y unfolding st' set_map by (rule imageE)
      then show ?thesis using yi by (cases "al_ID a = i") (simp_all add: f_def coalesce_def split: option.split)
    qed
    ultimately show ?thesis by blast
  qed
  show "x \<in> set (adb_alerts st) \<Longrightarrow> x \<notin> set (adb_alerts st') \<Longrightarrow> al_ID x = i"
    using outcome acked by cases auto
  show "r = Inr a \<Longrightarrow> ap_Id a = i \<and> ap_AckedAt a \<noteq> None"
    using outcome
  proof cases
    case (served y s)
    then have "y \<in> set (adb_alerts st')" "al_ID y = i" by (auto simp: GetAlert_def find_Some_iff split: option.splits)
    moreover assume "r = Inr a"
    ultimately show ?thesis using acked [OF served(1)] served by (auto simp: toProto_def)
  qed auto
qed

text \<open>
  Only an owner acknowledges. With the gateway wired to the alerts service, an alert changes only when the
  caller is signed in, names that very alert and owns its home; and an answer with an alert is the
  acknowledged alert asked for, again of a home the caller owns.
\<close>

theorem acknowledge_needs_owner:
  assumes "\<forall>i. ge_parse_id env (ge_id_string env i) = Some i"
    and "alerts = Some (Acknowledge (ge_parse_id env) ackfail getfail now dbnow)"
    and "gd_alerts db = adb_alerts st" and "distinct (map al_ID (adb_alerts st))"
    and "AcknowledgeMyAlert env db alerts ctx alert_id note st = (st', r)"
  shows "(\<forall>x \<in> set (adb_alerts st). x \<notin> set (adb_alerts st') \<longrightarrow>
       (\<exists>p h. RequireOwner ctx = Inr p \<and> ge_parse_id env alert_id = Some (al_ID x) \<and> al_HomeID x = Some h \<and> OwnsHome db (pr_Subject p) h))
     \<and> (\<forall>a. r = Inr a \<longrightarrow> (\<exists>p i. RequireOwner ctx = Inr p \<and> ge_parse_id env alert_id = Some i \<and> OwnsAlert db (pr_Subject p) i
          \<and> ap_Id a = i \<and> ap_AckedAt a \<noteq> None))"
proof -
  let ?call = "Acknowledge (ge_parse_id env) ackfail getfail now dbnow"
  consider "st' = st" "\<forall>a. r \<noteq> Inr a"
    | p i r' where "RequireOwner ctx = Inr p" "ge_parse_id env alert_id = Some i" "OwnsAlert db (pr_Subject p) i"
        "?call (ge_id_string env i) note st = (st', r')" "\<forall>a. r = Inr a \<longrightarrow> r' = Inr a"
    using assms(5) unfolding assms(2)
    by (auto simp: AcknowledgeMyAlert_def or_internal_def gq_def split: sum.splits option.splits if_splits prod.splits)
  then show ?thesis
  proof cases
    case (2 p i r')
    note effect = Acknowledge_effect [OF 2(4) assms(1) [rule_format]]
    obtain y h where y: "y \<in> set (adb_alerts st)" "al_ID y = i" "al_HomeID y = Some h" "OwnsHome db (pr_Subject p) h"
      using 2(3) assms(3) by (auto simp: OwnsAlert_def split: option.splits)
    have "x = y" if "x \<in> set (adb_alerts st)" "al_ID x = i" for x
      using that y assms(4) by (metis distinct_map inj_onD)
    then show ?thesis using effect y 2 by blast
  qed auto
qed
section \<open>Paging\<close>

text \<open>A client that follows the tokens until a page has none; \<open>n\<close> bounds the number of calls.\<close>

fun list_all_storms :: "nat \<Rightarrow> gw_env \<Rightarrow> gw_db \<Rightarrow> storms_request \<Rightarrow> storm_proto list option" where
  "list_all_storms 0 env db req = None"
| "list_all_storms (Suc n) env db req =
     (case ListStormEvents env db req of
        Inl _ \<Rightarrow> None
      | Inr (page, tok) \<Rightarrow>
          if tok = '''' then Some page
          else map_option (\<lambda>rest. page @ rest) (list_all_storms n env db (req\<lparr>lr_PageToken := tok\<rparr>)))"

definition in_range :: "storms_request \<Rightarrow> stamped_storm \<Rightarrow> bool" where
  "in_range req e \<longleftrightarrow> (case lr_Since req of Time t \<Rightarrow> micros t \<le> se_StartedAt e | _ \<Rightarrow> True)
     \<and> (case lr_Until req of Time t \<Rightarrow> se_StartedAt e < micros t | _ \<Rightarrow> True)"

definition storms_in_range :: "gw_db \<Rightarrow> storms_request \<Rightarrow> stamped_storm list" where
  "storms_in_range db req = sort_key storm_order (filter (in_range req) (gd_storms db))"

lemma storm_order_less: "storm_order e < storm_order e' \<longleftrightarrow> storm_key e' < storm_key e"
  by (auto simp: storm_order_def storm_key_def less_prod_def')

text \<open>In a list in strict order, what follows a position is what lies beyond its element.\<close>

lemma strict_filter_drop:
  fixes f :: "'a \<Rightarrow> 'b::linorder"
  assumes "sorted_wrt (\<lambda>x y. f x < f y) xs" and "k < length xs"
  shows "filter (\<lambda>x. f (xs ! k) < f x) xs = drop (Suc k) xs"
proof -
  have parts: "xs = take k xs @ xs ! k # drop (Suc k) xs" using assms(2) by (rule id_take_nth_drop)
  then have "sorted_wrt (\<lambda>x y. f x < f y) (take k xs @ xs ! k # drop (Suc k) xs)" using assms(1) by simp
  then have "\<forall>x \<in> set (take k xs). \<not> f (xs ! k) < f x" "\<forall>x \<in> set (drop (Suc k) xs). f (xs ! k) < f x"
    by (auto simp: sorted_wrt_append not_less less_imp_le)
  then show ?thesis by (subst (2) parts) (simp add: filter_empty_conv filter_id_conv)
qed

lemma storms_in_range_strict:
  assumes "distinct (map se_ID (gd_storms db))"
  shows "sorted_wrt (\<lambda>x y. storm_order x < storm_order y) (storms_in_range db req)"
proof -
  let ?L = "storms_in_range db req"
  have "mset (map storm_order ?L) = mset (map storm_order (filter (in_range req) (gd_storms db)))"
    by (simp add: storms_in_range_def)
  moreover have "inj_on storm_order (set (gd_storms db))"
    using assms by (auto simp: inj_on_def storm_order_def distinct_map)
  then have "distinct (map storm_order (filter (in_range req) (gd_storms db)))"
    using assms by (simp add: distinct_map inj_on_def)
  ultimately have "distinct (map storm_order ?L)" by (metis mset_eq_imp_distinct_iff)
  moreover have "sorted (map storm_order ?L)" by (simp add: storms_in_range_def)
  ultimately have "sorted_wrt (<) (map storm_order ?L)" by (simp add: strict_sorted_iff)
  then show ?thesis by (simp add: sorted_wrt_map)
qed

definition token_at :: "gw_env \<Rightarrow> stamped_storm list \<Rightarrow> nat \<Rightarrow> string" where
  "token_at env xs k = (if k = 0 then '''' else encodeCursor (ge_id_string env) (se_StartedAt (xs ! (k - 1))) (se_ID (xs ! (k - 1))))"

definition paging_ok :: "gw_env \<Rightarrow> gw_db \<Rightarrow> storms_request \<Rightarrow> bool" where
  "paging_ok env db req \<longleftrightarrow> distinct (map se_ID (gd_storms db)) \<and> (\<forall>e \<in> set (gd_storms db). db_instant (se_StartedAt e))
     \<and> ge_fails env GStormPage = None \<and> lr_Since req \<noteq> BadTime \<and> lr_Until req \<noteq> BadTime"

lemma page_rows:
  assumes "distinct (map se_ID (gd_storms db))" and "k \<le> length (storms_in_range db req)"
    and "pp_Since p = (case lr_Since req of Time t \<Rightarrow> Some (micros t) | _ \<Rightarrow> None)" "pp_Until p = (case lr_Until req of Time t \<Rightarrow> Some (micros t) | _ \<Rightarrow> None)"
    and "pp_Cursor p = (if k = 0 then None else Some (storm_key (storms_in_range db req ! (k - 1))))"
  shows "ListStormEventsPage db p = take (pp_Lim p) (drop k (storms_in_range db req))"
proof -
  let ?L = "storms_in_range db req"
  let ?after = "\<lambda>e. case pp_Cursor p of None \<Rightarrow> True | Some c \<Rightarrow> storm_key e < c"
  have "in_page p = (\<lambda>e. in_range req e \<and> ?after e)"
    using assms(3,4) by (auto simp: fun_eq_iff in_page_def in_range_def split: ts_arg.splits)
  then have "sort_key storm_order (filter (in_page p) (gd_storms db)) = filter ?after ?L"
    by (simp add: storms_in_range_def filter_sort)
  moreover have "filter ?after ?L = drop k ?L"
  proof (cases k)
    case 0
    then show ?thesis using assms(5) by simp
  next
    case (Suc j)
    then show ?thesis
      using strict_filter_drop [OF storms_in_range_strict [OF assms(1)], of j req] assms(2,5) by (simp add: storm_order_less)
  qed
  ultimately show ?thesis by (simp add: ListStormEventsPage_def)
qed

lemma ListStormEvents_at:
  assumes "paging_ok env db req" and ids: "\<forall>i. ge_parse_id env (ge_id_string env i) = Some i"
    and L: "L = storms_in_range db req" and "k \<le> length L" and n: "page_size (lr_PageSize req) = Inr n" "0 < n"
  shows "ListStormEvents env db (req\<lparr>lr_PageToken := token_at env L k\<rparr>) =
    Inr (map (stormToProto env) (take n (drop k L)), if k + n < length L then token_at env L (k + n) else '''')"
proof -
  have "storm \<in> set L \<Longrightarrow> db_instant (se_StartedAt storm)" for storm
    using assms(1) by (auto simp: L storms_in_range_def paging_ok_def)
  then have "0 < k \<Longrightarrow> decodeCursor (ge_parse_id env) (token_at env L k) = Some (storm_key (L ! (k - 1)))"
    using ids \<open>k \<le> length L\<close> by (simp add: token_at_def cursor_roundtrip storm_key_def)
  then have cursor: "cursor_param env (token_at env L k) = Inr (if k = 0 then None else Some (storm_key (L ! (k - 1))))"
    by (auto simp: cursor_param_def token_at_def)
  have times: "ts_param (lr_Since req) = Inr (case lr_Since req of Time t \<Rightarrow> Some t | _ \<Rightarrow> None)"
      "ts_param (lr_Until req) = Inr (case lr_Until req of Time t \<Rightarrow> Some t | _ \<Rightarrow> None)"
    using assms(1) by (auto simp: paging_ok_def ts_param_def split: ts_arg.split)
  have cut: "map_option micros (case a of Time t \<Rightarrow> Some t | _ \<Rightarrow> None) = (case a of Time t \<Rightarrow> Some (micros t) | _ \<Rightarrow> None)" for a
    by (simp split: ts_arg.split)
  have rows: "ListStormEventsPage db \<lparr>pp_Since = (case lr_Since req of Time t \<Rightarrow> Some (micros t) | _ \<Rightarrow> None),
      pp_Until = (case lr_Until req of Time t \<Rightarrow> Some (micros t) | _ \<Rightarrow> None),
      pp_Cursor = (if k = 0 then None else Some (storm_key (L ! (k - 1)))), pp_Lim = n + 1\<rparr> = take (n + 1) (drop k L)"
    using page_rows [where k = k and req = req and db = db] assms by (simp add: paging_ok_def)
  have last: "last (take n (drop k L)) = L ! (k + n - 1)" if "k + n < length L"
    using that n(2) by (subst last_conv_nth) auto
  have query: "gq env GStormPage x = Inr x" for x :: "stamped_storm list" using assms(1) by (simp add: gq_def paging_ok_def)
  have "ListStormEvents env db (req\<lparr>lr_PageToken := token_at env L k\<rparr>) =
      (let rows = take (n + 1) (drop k L)
       in if length rows > n
          then Inr (map (stormToProto env) (take n rows),
                 encodeCursor (ge_id_string env) (se_StartedAt (last (take n rows))) (se_ID (last (take n rows))))
          else Inr (map (stormToProto env) rows, ''''))"
    by (simp add: ListStormEvents_def n(1) times cut cursor rows query or_internal_def Let_def del: One_nat_def)
  moreover have "n < length (take (n + 1) (drop k L)) \<longleftrightarrow> k + n < length L" by auto
  moreover have "take n (take (n + 1) (drop k L)) = take n (drop k L)" by (simp add: min_def)
  moreover have "take (n + 1) (drop k L) = take n (drop k L)" if "\<not> k + n < length L" using that by simp
  moreover have "token_at env L (k + n) = encodeCursor (ge_id_string env) (se_StartedAt (L ! (k + n - 1))) (se_ID (L ! (k + n - 1)))"
    using n(2) by (simp add: token_at_def)
  ultimately show ?thesis using last unfolding Let_def by presburger
qed

lemma list_all_storms_at:
  assumes "paging_ok env db req" and "\<forall>i. ge_parse_id env (ge_id_string env i) = Some i"
    and "L = storms_in_range db req" and "page_size (lr_PageSize req) = Inr n" "0 < n"
    and "k \<le> length L" and "length L - k < fuel"
  shows "list_all_storms fuel env db (req\<lparr>lr_PageToken := token_at env L k\<rparr>) = Some (map (stormToProto env) (drop k L))"
  using assms(6,7)
proof (induction fuel arbitrary: k)
  case (Suc fuel)
  note page = ListStormEvents_at [OF assms(1-3) Suc.prems(1) assms(4,5)]
  show ?case
  proof (cases "k + n < length L")
    case True
    then have rest: "list_all_storms fuel env db (req\<lparr>lr_PageToken := token_at env L (k + n)\<rparr>) = Some (map (stormToProto env) (drop (k + n) L))"
      using Suc.prems assms(5) by (intro Suc.IH) auto
    have "take n (drop k L) @ drop (k + n) L = drop k L" by (metis add.commute append_take_drop_id drop_drop)
    then have "map (stormToProto env) (take n (drop k L)) @ map (stormToProto env) (drop (k + n) L) = map (stormToProto env) (drop k L)"
      by (metis map_append)
    moreover have "token_at env L (k + n) \<noteq> ''''" using assms(5) by (simp add: token_at_def)
    ultimately show ?thesis using True rest by (simp add: page)
  next
    case False
    then show ?thesis by (simp add: page)
  qed
qed simp

lemma page_size_range: "page_size n = Inr m \<Longrightarrow> 0 < m \<and> m \<le> 200"
  by (auto simp: page_size_def defaultPageSize_def maxPageSize_def split: if_splits)

text \<open>
  C28: Paging lists every storm once. A client that starts without a token and follows the tokens ends
  after at most one call more than there are storms, and has received exactly the storms in the range
  asked for (its bounds cut to the microsecond), newest first, none twice and none left out; every page has at most 200 storms.
\<close>

theorem storm_pages_complete:
  assumes "distinct (map se_ID (gd_storms db))" and "\<forall>e \<in> set (gd_storms db). db_instant (se_StartedAt e)"
    and "\<forall>i. ge_parse_id env (ge_id_string env i) = Some i" and "ge_fails env GStormPage = None"
    and "0 \<le> lr_PageSize req" and "lr_Since req \<noteq> BadTime" "lr_Until req \<noteq> BadTime" and "lr_PageToken req = ''''"
  shows "list_all_storms (length (gd_storms db) + 1) env db req =
      Some (map (stormToProto env) (sort_key storm_order (filter (in_range req) (gd_storms db))))
    \<and> (\<forall>req' page tok. ListStormEvents env db req' = Inr (page, tok) \<longrightarrow> length page \<le> 200)"
proof -
  have "\<exists>n. page_size (lr_PageSize req) = Inr n" using assms(5) by (simp add: page_size_def)
  then obtain n where n: "page_size (lr_PageSize req) = Inr n" ..
  have "paging_ok env db req" using assms by (simp add: paging_ok_def)
  moreover have "length (storms_in_range db req) \<le> length (gd_storms db)" by (simp add: storms_in_range_def)
  ultimately have "list_all_storms (length (gd_storms db) + 1) env db (req\<lparr>lr_PageToken := token_at env (storms_in_range db req) 0\<rparr>)
      = Some (map (stormToProto env) (drop 0 (storms_in_range db req)))"
    using n assms(3) page_size_range [OF n] by (intro list_all_storms_at) auto
  moreover have "req\<lparr>lr_PageToken := token_at env (storms_in_range db req) 0\<rparr> = req" using assms(8) by (simp add: token_at_def)
  moreover have "length page \<le> 200" if "ListStormEvents env db req' = Inr (page, tok)" for req' page tok
    using that page_size_range by (auto simp: ListStormEvents_def bind_sum_Inr_iff Let_def split: if_splits dest!: page_size_range)
  ultimately show ?thesis unfolding drop_0 storms_in_range_def by metis
qed

section \<open>Witnesses\<close>

definition demo_genv :: gw_env where
  "demo_genv = \<lparr>ge_ctx = None, ge_fails = (\<lambda>_. None), ge_parse_uuid = Some, ge_parse_id = parse_uint, ge_id_string = format_nat\<rparr>"

definition demo_storm :: "nat \<Rightarrow> instant \<Rightarrow> stamped_storm" where
  "demo_storm i t = \<lparr>se_ID = i, se_StartedAt = t, se_EndedAt = None, se_TotalRainMm = 9, se_PeakIntensityMmH = 4,
     se_RainSource = ''gauge'', se_Status = ''open'', se_UpdatedAt = t\<rparr>"

definition demo_gdb :: "alert_row list \<Rightarrow> gw_db" where
  "demo_gdb as = \<lparr>gd_segments = [], gd_homes = [\<lparr>hr_ID = ''h'', hr_SegmentID = None, hr_PitAreaM2 = None, hr_ConsentAt = None, hr_CreatedAt = 0\<rparr>],
     gd_owners = [\<lparr>ow_AuthSubject = ''u'', ow_HomeID = ''h''\<rparr>], gd_devices = [], gd_readings = [], gd_alerts = as,
     gd_storms = [demo_storm 0 1000, demo_storm 1 5000, demo_storm 2 5000], gd_metrics = []\<rparr>"

lemma demo_ids: "\<forall>i. ge_parse_id demo_genv (ge_id_string demo_genv i) = Some i"
  by (simp add: demo_genv_def parse_uint_def parse_format_nat)

theorem storm_pages_complete_witness:
  "list_all_storms 4 demo_genv (demo_gdb []) \<lparr>lr_PageSize = 1, lr_Since = NoTime, lr_Until = NoTime, lr_PageToken = ''''\<rparr> =
     Some (map (stormToProto demo_genv) [demo_storm 2 5000, demo_storm 1 5000, demo_storm 0 1000])"
  using storm_pages_complete [of "demo_gdb []" demo_genv "\<lparr>lr_PageSize = 1, lr_Since = NoTime, lr_Until = NoTime, lr_PageToken = ''''\<rparr>", OF _ _ demo_ids]
  by (simp add: demo_gdb_def demo_storm_def demo_genv_def db_instant_def int64_ok_def UnixMicro_def in_range_def storm_order_def
      eval_nat_numeral del: list_all_storms.simps)

theorem acknowledge_needs_owner_witness:
  "snd (AcknowledgeMyAlert demo_genv (demo_gdb (adb_alerts demo_ndb)) (Some (Acknowledge parse_uint False False 7 7)) None ''0'' [] demo_ndb) = Inl Unauthenticated
   \<and> (\<forall>x \<in> set (adb_alerts demo_ndb). x \<in> set (adb_alerts (fst (AcknowledgeMyAlert demo_genv (demo_gdb (adb_alerts demo_ndb))
        (Some (Acknowledge parse_uint False False 7 7)) None ''0'' [] demo_ndb))))"
  using acknowledge_needs_owner [of demo_genv "Some (Acknowledge parse_uint False False 7 7)" False False 7 7
      "demo_gdb (adb_alerts demo_ndb)" demo_ndb None "''0''" "[]" _ _, OF demo_ids _ _ _ surjective_pairing]
  by (auto simp: demo_genv_def demo_gdb_def demo_ndb_def AcknowledgeMyAlert_def RequireOwner_def FromContext_def)

end
