(* ===== verification/Change_Tracker.thy ===== *)
theory Change_Tracker
  imports Sumpnet_Prelude
begin

text \<open>
  The change tracker of \<^verbatim>\<open>internal/gateway/watch.go\<close>: rows changed since a mark, less an overlap, are read again and
  again, and each version of a row is let through once. A version is a row's id with its \<^verbatim>\<open>updated_at\<close>.
\<close>

definition changeOverlap :: duration where "changeOverlap = minute"

type_synonym version = "nat \<times> instant"

record changeTracker =
  ct_mark :: instant
  ct_seen :: "nat \<rightharpoonup> instant"

definition newChangeTracker :: "instant \<Rightarrow> changeTracker" where
  "newChangeTracker mark = \<lparr>ct_mark = mark, ct_seen = Map.empty\<rparr>"

definition since :: "changeTracker \<Rightarrow> instant" where
  "since c = ct_mark c - changeOverlap"

definition isNew :: "changeTracker \<Rightarrow> nat \<Rightarrow> instant \<Rightarrow> bool" where
  "isNew c i updatedAt = (case ct_seen c i of None \<Rightarrow> True | Some prev \<Rightarrow> prev \<noteq> updatedAt)"

definition see_version :: "changeTracker \<Rightarrow> version \<Rightarrow> changeTracker" where
  "see_version c = (\<lambda>(i, t). c\<lparr>ct_seen := (ct_seen c)(i \<mapsto> t), ct_mark := (if t > ct_mark c then t else ct_mark c)\<rparr>)"

definition prune :: "changeTracker \<Rightarrow> changeTracker" where
  "prune c = c\<lparr>ct_seen := (\<lambda>i. case ct_seen c i of None \<Rightarrow> None | Some t \<Rightarrow> if t < since c then None else Some t)\<rparr>"

definition record_versions :: "changeTracker \<Rightarrow> version list \<Rightarrow> changeTracker" where
  "record_versions c vs = prune (foldl see_version c vs)"

section \<open>Rounds\<close>

text \<open>
  One round over the versions visible in the database: those after the mark less the overlap are read, the new
  ones among them are sent and recorded.
\<close>

definition new_versions :: "changeTracker \<Rightarrow> version list \<Rightarrow> version list" where
  "new_versions c visible = filter (\<lambda>(i, t). isNew c i t) (filter (\<lambda>(i, t). t > since c) visible)"

fun track :: "changeTracker \<Rightarrow> version list list \<Rightarrow> changeTracker \<times> version list" where
  "track c [] = (c, [])"
| "track c (v # views) =
     (let vs = new_versions c v; (c', sent) = track (record_versions c vs) views in (c', vs @ sent))"

lemma track_append:
  "track c (xs @ ys) = (let (c', sent) = track c xs; (c'', sent') = track c' ys in (c'', sent @ sent'))"
  by (induction xs arbitrary: c) (auto simp: Let_def split: prod.split)

lemma isNew_iff: "isNew c i t \<longleftrightarrow> ct_seen c i \<noteq> Some t"
  by (auto simp: isNew_def split: option.split)

lemma see_versions:
  "ct_seen (foldl see_version c vs) = ct_seen c ++ map_of (rev vs)"
  "ct_mark (foldl see_version c vs) = fold max (map snd vs) (ct_mark c)"
  by (induction vs arbitrary: c) (auto simp: see_version_def max_def map_add_def split: option.split)

lemma fold_max_bounds:
  fixes m :: int
  shows "m \<le> fold max xs m \<and> (\<forall>x \<in> set xs. x \<le> fold max xs m) \<and> (fold max xs m = m \<or> fold max xs m \<in> set xs)"
  by (induction xs arbitrary: m) (fastforce simp: max_def)+

lemma record_versions_seen:
  "ct_seen (record_versions c vs) i = Some t \<longleftrightarrow>
     (ct_seen c ++ map_of (rev vs)) i = Some t \<and> since (record_versions c vs) \<le> t"
  by (auto simp: record_versions_def prune_def since_def see_versions split: option.splits if_splits)

lemma record_versions_mark: "ct_mark (record_versions c vs) = fold max (map snd vs) (ct_mark c)"
  by (simp add: record_versions_def prune_def see_versions)

section \<open>Once per version\<close>

text \<open>A version that has gone does not come back.\<close>

definition no_return :: "version list list \<Rightarrow> bool" where
  "no_return views \<longleftrightarrow> (\<forall>j k. j < k \<and> k < length views \<longrightarrow> (\<forall>i < j. set (views ! i) \<inter> set (views ! k) \<subseteq> set (views ! j)))"

text \<open>
  A version that becomes visible after the first round is stamped less than the overlap before anything seen
  earlier: transactions commit within the overlap.
\<close>

definition timely :: "instant \<Rightarrow> version list list \<Rightarrow> bool" where
  "timely start views \<longleftrightarrow> (\<forall>j < length views. 0 < j \<longrightarrow>
     (\<forall>v \<in> set (views ! j). v \<notin> (\<Union>w \<in> set (take j views). set w) \<longrightarrow>
        (\<forall>t \<in> insert start (snd ` (\<Union>w \<in> set (take j views). set w)). t - changeOverlap < snd v)))"

definition tracked :: "instant \<Rightarrow> version list list \<Rightarrow> version set" where
  "tracked start views =
     {v \<in> (\<Union>w \<in> set views. set w). v \<in> set (hd views) \<longrightarrow> start - changeOverlap < snd v}"

definition tracker_inv :: "instant \<Rightarrow> version list list \<Rightarrow> changeTracker \<Rightarrow> version list \<Rightarrow> bool" where
  "tracker_inv start views c sent \<longleftrightarrow> distinct sent \<and> set sent = tracked start views
     \<and> start \<le> ct_mark c \<and> ct_mark c \<in> insert start (snd ` (\<Union>w \<in> set views. set w))
     \<and> (\<forall>i t. ct_seen c i = Some t \<longrightarrow> (i, t) \<in> set sent)
     \<and> (views \<noteq> [] \<longrightarrow> (\<forall>(i, t) \<in> set (last views) \<inter> set sent. since c < t \<longrightarrow> ct_seen c i = Some t))"

lemma no_return_prefix: "no_return (views @ [w]) \<Longrightarrow> no_return views"
  unfolding no_return_def
proof (intro allI impI)
  fix j k i
  assume "\<forall>j k. j < k \<and> k < length (views @ [w]) \<longrightarrow>
      (\<forall>i < j. set ((views @ [w]) ! i) \<inter> set ((views @ [w]) ! k) \<subseteq> set ((views @ [w]) ! j))"
    and "j < k \<and> k < length views" "i < j"
  then have "set ((views @ [w]) ! i) \<inter> set ((views @ [w]) ! k) \<subseteq> set ((views @ [w]) ! j)" by simp
  with \<open>j < k \<and> k < length views\<close> \<open>i < j\<close> show "set (views ! i) \<inter> set (views ! k) \<subseteq> set (views ! j)"
    by (simp add: nth_append)
qed

lemma timely_prefix: "timely start (views @ [w]) \<Longrightarrow> timely start views"
  unfolding timely_def by (simp add: nth_append less_Suc_eq)

lemma no_return_last:
  assumes "no_return (views @ [w])" and "v \<in> set w" and "v \<in> (\<Union>u \<in> set views. set u)"
  shows "views \<noteq> [] \<and> v \<in> set (last views)"
proof -
  obtain i where i: "i < length views" "v \<in> set (views ! i)" using assms(3) by (metis UN_E in_set_conv_nth)
  then have ne: "views \<noteq> []" by auto
  show ?thesis
  proof (cases "i = length views - 1")
    case True
    then show ?thesis using ne i by (simp add: last_conv_nth)
  next
    case False
    then have "set ((views @ [w]) ! i) \<inter> set ((views @ [w]) ! length views) \<subseteq> set ((views @ [w]) ! (length views - 1))"
      using assms(1) [unfolded no_return_def, rule_format, of "length views - 1" "length views" i] i ne by simp
    then show ?thesis using i ne assms(2) by (auto simp: nth_append last_conv_nth)
  qed
qed

lemma timely_last:
  assumes "timely start (views @ [w])" and "views \<noteq> []" and "v \<in> set w" and "v \<notin> (\<Union>u \<in> set views. set u)"
    and "t \<in> insert start (snd ` (\<Union>u \<in> set views. set u))"
  shows "t - changeOverlap < snd v"
  using assms unfolding timely_def by (force dest: spec [of _ "length views"])

lemma tracked_snoc:
  "tracked start (views @ [w]) = (if views = [] then {v \<in> set w. start - changeOverlap < snd v}
     else tracked start views \<union> (set w - (\<Union>u \<in> set views. set u)))"
  by (cases views) (auto simp: tracked_def)

lemma tracker_round:
  assumes inv: "tracker_inv start views c sent" and "no_return (views @ [w])" and "timely start (views @ [w])"
    and "distinct (map fst w)"
  shows "tracker_inv start (views @ [w]) (record_versions c (new_versions c w)) (sent @ new_versions c w)"
proof -
  let ?vs = "new_versions c w" and ?all = "\<Union>u \<in> set views. set u"
  let ?c = "record_versions c ?vs"
  note parts = inv [unfolded tracker_inv_def]
  have sent: "set sent = tracked start views" "distinct sent" and mark: "start \<le> ct_mark c" "ct_mark c \<in> insert start (snd ` ?all)"
    and seen: "\<And>i t. ct_seen c i = Some t \<Longrightarrow> (i, t) \<in> set sent"
    and last: "\<And>i t. views \<noteq> [] \<Longrightarrow> (i, t) \<in> set (last views) \<Longrightarrow> (i, t) \<in> set sent \<Longrightarrow> since c < t \<Longrightarrow> ct_seen c i = Some t"
    using parts by blast+
  have sub: "set sent \<subseteq> ?all" by (auto simp: sent tracked_def)
  have vs: "(i, t) \<in> set ?vs \<longleftrightarrow> (i, t) \<in> set w \<and> since c < t \<and> ct_seen c i \<noteq> Some t" for i t
    by (auto simp: new_versions_def isNew_iff)
  have unsent: "(i, t) \<notin> set sent" if "(i, t) \<in> set ?vs" for i t
  proof
    assume s: "(i, t) \<in> set sent"
    have "views \<noteq> [] \<and> (i, t) \<in> set (last views)"
      using that s sub vs by (intro no_return_last [OF assms(2)]) auto
    then show False using last s that vs by blast
  qed
  have fresh: "(i, t) \<notin> ?all" if "(i, t) \<in> set ?vs" for i t
  proof
    assume "(i, t) \<in> ?all"
    then have "(i, t) \<in> tracked start views" using that mark(1) vs by (auto simp: tracked_def since_def)
    then show False using unsent that sent by auto
  qed
  have complete: "(i, t) \<in> set ?vs" if "views \<noteq> []" "(i, t) \<in> set w" "(i, t) \<notin> ?all" for i t
  proof -
    have "since c < t" using timely_last [OF assms(3) that mark(2)] by (simp add: since_def)
    moreover have "ct_seen c i \<noteq> Some t" using seen sub that(3) by blast
    ultimately show ?thesis using vs that(2) by blast
  qed
  have first: "(i, t) \<in> set ?vs \<longleftrightarrow> (i, t) \<in> set w \<and> start - changeOverlap < t" if "views = []" for i t
  proof -
    have "ct_mark c = start" "set sent = {}" using that mark(2) sent by (auto simp: tracked_def)
    then show ?thesis using vs seen by (auto simp: since_def)
  qed
  have all: "set (sent @ ?vs) = tracked start (views @ [w])"
  proof (cases "views = []")
    case True
    then have "set sent = {}" by (simp add: sent tracked_def)
    then show ?thesis using True first by (auto simp: tracked_def)
  next
    case False
    then have "set ?vs = set w - ?all" using fresh complete vs by (intro set_eqI) (metis DiffE DiffI surj_pair)
    then show ?thesis using False sent by (simp add: tracked_snoc)
  qed
  have keys: "distinct (map fst ?vs)" using assms(4) by (auto simp: new_versions_def distinct_map inj_on_def)
  then have latest: "map_of (rev ?vs) i = Some t \<longleftrightarrow> (i, t) \<in> set ?vs" for i t
    by (subst map_of_eq_Some_iff) (auto simp flip: rev_map)
  have grows: "ct_mark c \<le> ct_mark ?c" "ct_mark ?c = ct_mark c \<or> ct_mark ?c \<in> snd ` set ?vs"
    using fold_max_bounds [of "ct_mark c" "map snd ?vs"] by (auto simp: record_versions_mark)
  have "ct_mark ?c \<in> insert start (snd ` (\<Union>u \<in> set (views @ [w]). set u))"
  proof (cases "ct_mark ?c = ct_mark c")
    case True
    then show ?thesis using mark(2) by auto
  next
    case False
    then have "ct_mark ?c \<in> snd ` set w" using grows(2) vs by auto
    then show ?thesis by auto
  qed
  moreover have "(i, t) \<in> set (sent @ ?vs)" if "ct_seen ?c i = Some t" for i t
    using that seen latest by (auto simp: record_versions_seen map_add_Some_iff)
  moreover have "ct_seen ?c i = Some t" if "(i, t) \<in> set w" "(i, t) \<in> set (sent @ ?vs)" "since ?c < t" for i t
  proof (cases "(i, t) \<in> set ?vs")
    case True
    then show ?thesis using latest that(3) by (simp add: record_versions_seen)
  next
    case False
    then have s: "(i, t) \<in> set sent" using that(2) by simp
    then have "views \<noteq> [] \<and> (i, t) \<in> set (last views)" using sub that(1) by (intro no_return_last [OF assms(2)]) auto
    moreover have "since c < t" using that(3) grows(1) by (simp add: since_def)
    ultimately have "ct_seen c i = Some t" using last s by blast
    moreover have "map_of (rev ?vs) i = None"
    proof (rule ccontr)
      assume "map_of (rev ?vs) i \<noteq> None"
      then obtain t' where "(i, t') \<in> set ?vs" using latest by auto
      moreover from this have "t' = t" using vs that(1) assms(4) by (metis eq_key_imp_eq_value)
      ultimately show False using False by simp
    qed
    ultimately show ?thesis using that(3) by (simp add: record_versions_seen map_add_def)
  qed
  moreover have "distinct (sent @ ?vs)"
    using sent(2) keys unsent by (auto simp: distinct_map)
  moreover have "start \<le> ct_mark ?c" using mark(1) grows(1) by simp
  ultimately show ?thesis
    unfolding tracker_inv_def last_snoc by (intro conjI allI impI ballI all) (blast | fast)+
qed

text \<open>
  Each change is sent once. Over any sequence of rounds of the tracker in which a version that has gone
  does not return and a version becomes visible within a minute of being stamped, the versions sent are
  distinct, and they are exactly the visible ones, less those of the first round stamped more than a
  minute before the start.
\<close>

theorem tracker_exactly_once:
  assumes "no_return views" and "timely start views" and "\<forall>w \<in> set views. distinct (map fst w)"
  shows "distinct (snd (track (newChangeTracker start) views))
    \<and> set (snd (track (newChangeTracker start) views)) = tracked start views"
proof -
  have "tracker_inv start views (fst (track (newChangeTracker start) views)) (snd (track (newChangeTracker start) views))"
    using assms
  proof (induction views rule: rev_induct)
    case Nil
    then show ?case by (simp add: tracker_inv_def tracked_def newChangeTracker_def)
  next
    case (snoc w views)
    then have "tracker_inv start views (fst (track (newChangeTracker start) views)) (snd (track (newChangeTracker start) views))"
      using no_return_prefix timely_prefix by auto
    from tracker_round [OF this snoc.prems(1,2)] snoc.prems(3) show ?case
      by (simp add: track_append Let_def case_prod_beta)
  qed
  then show ?thesis by (simp add: tracker_inv_def)
qed

theorem tracker_exactly_once_witness:
  "set (snd (track (newChangeTracker 0) [[(1, 5)], [(1, 5), (2, 4)], [(1, 9), (2, 4)]])) = {(1, 5), (2, 4), (1, 9)}"
proof -
  have "no_return [[(1, 5)], [(1, 5), (2, 4)], [(1, 9), (2, 4)]]"
    by (auto simp: no_return_def less_Suc_eq numeral_3_eq_3)
  moreover have "timely 0 [[(1, 5)], [(1, 5), (2, 4)], [(1, 9), (2, 4)]]"
    by (auto simp: timely_def less_Suc_eq numeral_3_eq_3 changeOverlap_def go_time)
  ultimately show ?thesis
    using tracker_exactly_once [of "[[(1, 5)], [(1, 5), (2, 4)], [(1, 9), (2, 4)]]" 0]
    by (auto simp: tracked_def changeOverlap_def go_time)
qed

text \<open>Rows stamped in the minute before the start are sent, although a comment says that they are not replayed.\<close>

theorem tracker_replays_recent: "snd (track (newChangeTracker start) [[(1, start - second)]]) = [(1, start - second)]"
  by (simp add: new_versions_def isNew_iff since_def newChangeTracker_def changeOverlap_def go_time Let_def)

end
