(* ===== verification/Hub.thy ===== *)
theory Hub
  imports Gateway Change_Tracker
begin

text \<open>
  Live updates: the hub of \<^verbatim>\<open>internal/gateway/watch.go\<close>. One goroutine runs rounds, each stream runs in its own; they
  share the hub under its lock. A step of the model is what one of them does under the lock or between two
  points where others may run: a round, the opening of a stream, its snapshot query, one send, its end. The
  theorems hold in every reachable state: a live stream's client can rebuild the hub's statuses from what it
  was sent and what is queued, and alerts reach only owners.
\<close>

section \<open>Updates and subscribers\<close>

datatype update =
    StatusUpdate instant segment_status
  | StormUpdate instant storm_proto
  | AlertUpdate instant alert_proto

datatype updateKind = kindStatus | kindStorm | kindAlert

record routed =
  rt_kind :: updateKind
  rt_segment :: string
  rt_owners :: "string list"
  rt_u :: update

definition statusUpdate :: "instant \<Rightarrow> segment_status \<Rightarrow> update" where
  "statusUpdate ts st = StatusUpdate ts st"

definition stormUpdate :: "gw_env \<Rightarrow> stamped_storm \<Rightarrow> routed" where
  "stormUpdate env e = \<lparr>rt_kind = kindStorm, rt_segment = '''', rt_owners = [], rt_u = StormUpdate (se_UpdatedAt e) (stormToProto env e)\<rparr>"

definition alertUpdate :: "alert_row \<Rightarrow> string option \<Rightarrow> string list \<Rightarrow> routed" where
  "alertUpdate a segment owners =
     \<lparr>rt_kind = kindAlert, rt_segment = (case segment of None \<Rightarrow> '''' | Some s \<Rightarrow> s), rt_owners = owners,
      rt_u = AlertUpdate (al_UpdatedAt a) (alertToProto a segment)\<rparr>"

record subscriber =
  sb_subject :: string
  sb_segments :: "string list option"
  sb_buffer :: nat
  sb_ch :: "update list"
  sb_gone :: bool

definition newSubscriber :: "string \<Rightarrow> string list \<Rightarrow> nat \<Rightarrow> subscriber" where
  "newSubscriber subject segmentIDs buffer =
     \<lparr>sb_subject = subject, sb_segments = (if length segmentIDs > 0 then Some segmentIDs else None), sb_buffer = buffer,
      sb_ch = [], sb_gone = False\<rparr>"

definition wantsSegment :: "subscriber \<Rightarrow> string \<Rightarrow> bool" where
  "wantsSegment s i = (case sb_segments s of None \<Rightarrow> True | Some ids \<Rightarrow> i \<in> set ids)"

definition wants :: "subscriber \<Rightarrow> routed \<Rightarrow> bool" where
  "wants s r = (case rt_kind r of
     kindStatus \<Rightarrow> wantsSegment s (rt_segment r)
   | kindStorm \<Rightarrow> True
   | kindAlert \<Rightarrow> sb_subject s \<noteq> '''' \<and> sb_subject s \<in> set (rt_owners r) \<and> wantsSegment s (rt_segment r))"

section \<open>The hub\<close>

record watch_config =
  wc_StatusWindow :: duration
  wc_Buffer :: nat
  wc_RecentStorms :: nat

text \<open>Subscribers live in a heap, since a stream keeps its own after the hub has dropped it.\<close>

record hub =
  hb_heap :: "nat \<Rightarrow> subscriber"
  hb_subs :: "nat list"
  hb_statuses :: "string \<rightharpoonup> segment_status"
  hb_order :: "string list"
  hb_clock :: instant
  hb_storms :: changeTracker
  hb_alerts :: changeTracker
  hb_ready :: bool
  hb_done :: bool

definition upd_sub :: "nat \<Rightarrow> (subscriber \<Rightarrow> subscriber) \<Rightarrow> hub \<Rightarrow> hub" where
  "upd_sub i f h = h\<lparr>hb_heap := (hb_heap h)(i := f (hb_heap h i))\<rparr>"

text \<open>\<^verbatim>\<open>NewHub\<close>, and the trackers as \<^verbatim>\<open>Run\<close> sets them from the database clock before its first round.\<close>

definition NewHub :: hub where
  "NewHub = \<lparr>hb_heap = (\<lambda>_. newSubscriber '''' [] 0), hb_subs = [], hb_statuses = Map.empty, hb_order = [], hb_clock = zero_time,
     hb_storms = newChangeTracker zero_time, hb_alerts = newChangeTracker zero_time, hb_ready = False, hb_done = False\<rparr>"

definition start_Run :: "instant \<Rightarrow> hub \<Rightarrow> hub" where
  "start_Run now h = h\<lparr>hb_storms := newChangeTracker now, hb_alerts := newChangeTracker now\<rparr>"

definition hub_remove :: "nat \<Rightarrow> hub \<Rightarrow> hub" where
  "hub_remove i h = h\<lparr>hb_subs := filter (\<lambda>j. j \<noteq> i) (hb_subs h)\<rparr>"

definition hub_deliver :: "nat \<Rightarrow> update \<Rightarrow> hub \<Rightarrow> hub \<times> bool" where
  "hub_deliver i u h =
     (let s = hb_heap h i
      in if length (sb_ch s) < sb_buffer s then (upd_sub i (\<lambda>s. s\<lparr>sb_ch := sb_ch s @ [u]\<rparr>) h, True)
         else (upd_sub i (\<lambda>s. s\<lparr>sb_gone := True\<rparr>) (hub_remove i h), False))"

fun deliver_updates :: "nat \<Rightarrow> routed list \<Rightarrow> hub \<Rightarrow> hub" where
  "deliver_updates i [] h = h"
| "deliver_updates i (r # rs) h =
     (if wants (hb_heap h i) r
      then let (h', ok) = hub_deliver i (rt_u r) h in if \<not> ok then h' else deliver_updates i rs h'
      else deliver_updates i rs h)"

definition changed_statuses :: "hub \<Rightarrow> instant \<Rightarrow> (string \<rightharpoonup> segment_status) \<Rightarrow> string list \<Rightarrow> routed list" where
  "changed_statuses h clock statuses order =
     map (\<lambda>i. \<lparr>rt_kind = kindStatus, rt_segment = i, rt_owners = [], rt_u = statusUpdate clock (the (statuses i))\<rparr>)
       (filter (\<lambda>i. \<not> (hb_statuses h i \<noteq> None \<and> hb_statuses h i = statuses i)) order)"

definition publish :: "instant \<Rightarrow> (string \<rightharpoonup> segment_status) \<Rightarrow> string list \<Rightarrow> routed list \<Rightarrow> hub \<Rightarrow> hub" where
  "publish clock statuses order extra h =
     (let updates = changed_statuses h clock statuses order @ extra;
          h' = h\<lparr>hb_statuses := statuses, hb_order := order, hb_clock := clock\<rparr>
      in foldl (\<lambda>h i. deliver_updates i updates h) h' (hb_subs h'))"

section \<open>A round\<close>

definition computeStatuses ::
  "gw_env \<Rightarrow> instant \<Rightarrow> duration \<Rightarrow> gw_db \<Rightarrow> db_error + (instant \<times> (string \<rightharpoonup> segment_status) \<times> string list)" where
  "computeStatuses env now window db =
     bind_sum (gq env GClock (NeighbourhoodClock now db)) (\<lambda>clock.
     bind_sum (gq env GSegments (GatewayListSegments db)) (\<lambda>segs.
     bind_sum (gq env GActivity (SegmentActivity db (clock - window) clock)) (\<lambda>act.
     bind_sum (gq env GAlertCounts (SegmentOpenAlertCounts db)) (\<lambda>al.
       let (statuses, order) = buildStatuses (map sgr_ID segs) act al window
       in Inr (clock, statuses, order)))))"

definition storm_version :: "stamped_storm \<Rightarrow> version" where
  "storm_version e = (se_ID e, se_UpdatedAt e)"

definition alert_version :: "alert_row \<Rightarrow> version" where
  "alert_version a = (al_ID a, al_UpdatedAt a)"

definition owners_of :: "owner_row list \<Rightarrow> uuid \<Rightarrow> string list" where
  "owners_of rows i = map ow_AuthSubject (filter (\<lambda>w. ow_HomeID w = i) rows)"

text \<open>\<open>begin_err\<close> is the error of the transaction's start, \<open>now\<close> its clock.\<close>

definition hub_round ::
  "gw_env \<Rightarrow> watch_config \<Rightarrow> db_error option \<Rightarrow> instant \<Rightarrow> gw_db \<Rightarrow> hub \<Rightarrow> db_error + hub" where
  "hub_round env cfg begin_err now db h =
     (case begin_err of
        Some e \<Rightarrow> Inl e
      | None \<Rightarrow>
        bind_sum (computeStatuses env now (wc_StatusWindow cfg) db) (\<lambda>(clock, statuses, order).
        bind_sum (gq env GStormsChanged (ListStormEventsChangedSince db (since (hb_storms h)))) (\<lambda>storms.
        bind_sum (gq env GAlertsChanged (ListAlertsChangedSince db (since (hb_alerts h)))) (\<lambda>alertRows.
        let new_storms = filter (\<lambda>e. isNew (hb_storms h) (se_ID e) (se_UpdatedAt e)) storms;
            changed = filter (\<lambda>(a, s). isNew (hb_alerts h) (al_ID a) (al_UpdatedAt a)) alertRows;
            homeIDs = map (\<lambda>(a, s). case al_HomeID a of Some i \<Rightarrow> i | None \<Rightarrow> '''') changed
        in bind_sum (if changed \<noteq> [] then gq env GOwners (ListOwnersOfHomes db homeIDs) else Inr []) (\<lambda>owners.
           let extra = map (stormUpdate env) new_storms
                 @ map (\<lambda>(a, s). alertUpdate a s (owners_of owners (case al_HomeID a of Some i \<Rightarrow> i | None \<Rightarrow> ''''))) changed
           in Inr (publish clock statuses order extra
                (h\<lparr>hb_storms := record_versions (hb_storms h) (map storm_version new_storms),
                   hb_alerts := record_versions (hb_alerts h) (map (\<lambda>(a, s). alert_version a) changed)\<rparr>)))))))"

section \<open>Streams\<close>

text \<open>
  Where \<^verbatim>\<open>Serve\<close> is: it reads the snapshot, sends it, loops, or has returned (without error or with a code).
\<close>

datatype phase = Reading | Sending "update list" | Looping | Ended "grpc_code option"

record stream =
  sm_snapshot :: bool
  sm_statuses :: "update list"
  sm_phase :: phase
  sm_sent :: "update list"

definition status_snapshot :: "hub \<Rightarrow> subscriber \<Rightarrow> update list" where
  "status_snapshot h s = map (\<lambda>i. statusUpdate (hb_clock h) (the (hb_statuses h i))) (filter (wantsSegment s) (hb_order h))"

text \<open>Registration, under one lock with the capture of the statuses.\<close>

definition serve_open :: "watch_config \<Rightarrow> nat \<Rightarrow> string \<Rightarrow> string list \<Rightarrow> bool \<Rightarrow> hub \<Rightarrow> hub \<times> stream" where
  "serve_open cfg i subject segment_ids send_snapshot h =
     (let sub = newSubscriber subject segment_ids (wc_Buffer cfg)
      in (h\<lparr>hb_heap := (hb_heap h)(i := sub), hb_subs := hb_subs h @ [i]\<rparr>,
          \<lparr>sm_snapshot = send_snapshot, sm_statuses = (if send_snapshot then status_snapshot h sub else []),
           sm_phase = (if send_snapshot then Reading else Looping), sm_sent = []\<rparr>))"

definition hub_snapshot :: "gw_env \<Rightarrow> watch_config \<Rightarrow> gw_db \<Rightarrow> subscriber \<Rightarrow> db_error + update list" where
  "hub_snapshot env cfg db sub =
     bind_sum (gq env GSnapshotStorms (ListSnapshotStormEvents db (wc_RecentStorms cfg))) (\<lambda>storms.
     let out = map (\<lambda>e. rt_u (stormUpdate env e)) storms
     in if sb_subject sub = '''' then Inr out
        else bind_sum (gq env GOwnerAlerts (ListOwnerActiveAlerts db (sb_subject sub) None)) (\<lambda>rows.
          Inr (out @ map (\<lambda>(a, s). rt_u (alertUpdate a s []))
            (filter (\<lambda>(a, s). wantsSegment sub (case s of None \<Rightarrow> '''' | Some x \<Rightarrow> x)) rows))))"

record world =
  wd_hub :: hub
  wd_streams :: "nat \<rightharpoonup> stream"

definition finish :: "nat \<Rightarrow> stream \<Rightarrow> grpc_code option \<Rightarrow> world \<Rightarrow> world" where
  "finish i s r w = w\<lparr>wd_hub := hub_remove i (wd_hub w), wd_streams := (wd_streams w)(i \<mapsto> s\<lparr>sm_phase := Ended r\<rparr>)\<rparr>"

text \<open>
  One step, for a set \<open>D\<close> of database states. A stream may end whenever its context ends, a send fails (\<open>send_err\<close> with
  the code the transport gives), its subscriber is gone or the hub is done.
\<close>

inductive hub_step :: "gw_env \<Rightarrow> watch_config \<Rightarrow> gw_db set \<Rightarrow> world \<Rightarrow> world \<Rightarrow> bool"
  for env cfg D where
  round_ok: "\<not> hb_done (wd_hub w) \<Longrightarrow> db \<in> D \<Longrightarrow> hub_round (env\<lparr>ge_fails := fl\<rparr>) cfg b now db (wd_hub w) = Inr h \<Longrightarrow>
    hub_step env cfg D w (w\<lparr>wd_hub := h\<lparr>hb_ready := True\<rparr>\<rparr>)"
| round_fails: "\<not> hb_done (wd_hub w) \<Longrightarrow> hub_round (env\<lparr>ge_fails := fl\<rparr>) cfg b now db (wd_hub w) = Inl e \<Longrightarrow> hub_step env cfg D w w"
| shut_down: "hub_step env cfg D w (w\<lparr>wd_hub := (wd_hub w)\<lparr>hb_done := True\<rparr>\<rparr>)"
| opens: "hb_ready (wd_hub w) \<Longrightarrow> wd_streams w i = None \<Longrightarrow> serve_open cfg i subject ids snap (wd_hub w) = (h, s) \<Longrightarrow>
    hub_step env cfg D w (w\<lparr>wd_hub := h, wd_streams := (wd_streams w)(i \<mapsto> s)\<rparr>)"
| reads: "wd_streams w i = Some s \<Longrightarrow> sm_phase s = Reading \<Longrightarrow> db \<in> D \<Longrightarrow>
    hub_snapshot (env\<lparr>ge_fails := fl\<rparr>) cfg db (hb_heap (wd_hub w) i) = Inr rest \<Longrightarrow>
    hub_step env cfg D w (w\<lparr>wd_streams := (wd_streams w)(i \<mapsto> s\<lparr>sm_phase := Sending (sm_statuses s @ rest)\<rparr>)\<rparr>)"
| read_fails: "wd_streams w i = Some s \<Longrightarrow> sm_phase s = Reading \<Longrightarrow>
    hub_snapshot (env\<lparr>ge_fails := fl\<rparr>) cfg db (hb_heap (wd_hub w) i) = Inl e \<Longrightarrow> hub_step env cfg D w (finish i s (Some Internal) w)"
| sends: "wd_streams w i = Some s \<Longrightarrow> sm_phase s = Sending (u # us) \<Longrightarrow>
    hub_step env cfg D w (w\<lparr>wd_streams := (wd_streams w)(i \<mapsto> s\<lparr>sm_phase := Sending us, sm_sent := sm_sent s @ [u]\<rparr>)\<rparr>)"
| sent_all: "wd_streams w i = Some s \<Longrightarrow> sm_phase s = Sending [] \<Longrightarrow>
    hub_step env cfg D w (w\<lparr>wd_streams := (wd_streams w)(i \<mapsto> s\<lparr>sm_phase := Looping\<rparr>)\<rparr>)"
| receives: "wd_streams w i = Some s \<Longrightarrow> sm_phase s = Looping \<Longrightarrow> sb_ch (hb_heap (wd_hub w) i) = u # us \<Longrightarrow>
    hub_step env cfg D w (w\<lparr>wd_hub := upd_sub i (\<lambda>b. b\<lparr>sb_ch := us\<rparr>) (wd_hub w),
      wd_streams := (wd_streams w)(i \<mapsto> s\<lparr>sm_sent := sm_sent s @ [u]\<rparr>)\<rparr>)"
| falls_behind: "wd_streams w i = Some s \<Longrightarrow> sm_phase s = Looping \<Longrightarrow> sb_gone (hb_heap (wd_hub w) i) \<Longrightarrow>
    hub_step env cfg D w (finish i s (Some ResourceExhausted) w)"
| hub_gone: "wd_streams w i = Some s \<Longrightarrow> sm_phase s = Looping \<Longrightarrow> hb_done (wd_hub w) \<Longrightarrow> hub_step env cfg D w (finish i s (Some Unavailable) w)"
| send_fails: "wd_streams w i = Some s \<Longrightarrow> sm_phase s = Sending (u # us) \<Longrightarrow> hub_step env cfg D w (finish i s (Some send_err) w)"
| forward_fails: "wd_streams w i = Some s \<Longrightarrow> sm_phase s = Looping \<Longrightarrow> sb_ch (hb_heap (wd_hub w) i) = u # us \<Longrightarrow>
    hub_step env cfg D w (finish i s (Some send_err) (w\<lparr>wd_hub := upd_sub i (\<lambda>b. b\<lparr>sb_ch := us\<rparr>) (wd_hub w)\<rparr>))"
| context_ends: "wd_streams w i = Some s \<Longrightarrow> sm_phase s = Reading \<or> sm_phase s = Looping \<Longrightarrow> hub_step env cfg D w (finish i s None w)"

inductive hub_reachable :: "gw_env \<Rightarrow> watch_config \<Rightarrow> gw_db set \<Rightarrow> world \<Rightarrow> bool"
  for env cfg D where
  start: "hub_reachable env cfg D \<lparr>wd_hub = start_Run now NewHub, wd_streams = Map.empty\<rparr>"
| step: "hub_reachable env cfg D w \<Longrightarrow> hub_step env cfg D w w' \<Longrightarrow> hub_reachable env cfg D w'"

section \<open>What a publication does to a subscriber\<close>

lemma upd_sub_simps [simp]:
  "hb_heap (upd_sub i f h) = (hb_heap h)(i := f (hb_heap h i))" "hb_subs (upd_sub i f h) = hb_subs h"
  "hb_statuses (upd_sub i f h) = hb_statuses h" "hb_order (upd_sub i f h) = hb_order h"
  by (simp_all add: upd_sub_def)

lemma hub_remove_simps [simp]:
  "hb_heap (hub_remove i h) = hb_heap h" "hb_subs (hub_remove i h) = filter (\<lambda>j. j \<noteq> i) (hb_subs h)"
  "hb_statuses (hub_remove i h) = hb_statuses h" "hb_order (hub_remove i h) = hb_order h"
  by (simp_all add: hub_remove_def)

lemma upd_sub_upd: "upd_sub i f (upd_sub i g h) = upd_sub i (\<lambda>s. f (g s)) h"
  by (simp add: upd_sub_def)

lemma upd_sub_remove: "hub_remove i (upd_sub i g h) = upd_sub i g (hub_remove i h)"
  by (simp add: upd_sub_def hub_remove_def)

lemma wants_cong: "sb_subject s = sb_subject s' \<Longrightarrow> sb_segments s = sb_segments s' \<Longrightarrow> wants s = wants s' \<and> wantsSegment s = wantsSegment s'"
  by (simp add: wants_def wantsSegment_def fun_eq_iff split: updateKind.split)

text \<open>Same subscriber up to its queue and its gone flag.\<close>

definition same_sub :: "subscriber \<Rightarrow> subscriber \<Rightarrow> bool" where
  "same_sub s s' \<longleftrightarrow> sb_subject s' = sb_subject s \<and> sb_segments s' = sb_segments s \<and> sb_buffer s' = sb_buffer s"

lemma deliver_updates_eq:
  assumes "length (sb_ch (hb_heap h i)) \<le> sb_buffer (hb_heap h i)"
  shows "deliver_updates i us h =
    (let ws = map rt_u (filter (wants (hb_heap h i)) us)
     in if length (sb_ch (hb_heap h i)) + length ws \<le> sb_buffer (hb_heap h i)
        then upd_sub i (\<lambda>s. s\<lparr>sb_ch := sb_ch s @ ws\<rparr>) h
        else upd_sub i (\<lambda>s. s\<lparr>sb_ch := take (sb_buffer s) (sb_ch s @ ws), sb_gone := True\<rparr>) (hub_remove i h))"
  using assms
proof (induction us arbitrary: h)
  case Nil
  then show ?case by (simp add: upd_sub_def)
next
  case (Cons r us)
  let ?s = "hb_heap h i"
  show ?case
  proof (cases "wants ?s r \<and> length (sb_ch ?s) < sb_buffer ?s")
    case True
    let ?h = "upd_sub i (\<lambda>s. s\<lparr>sb_ch := sb_ch s @ [rt_u r]\<rparr>) h"
    have step: "deliver_updates i (r # us) h = deliver_updates i us ?h"
      using True by (simp add: hub_deliver_def Let_def)
    have w: "wants (hb_heap ?h i) = wants ?s" by (intro wants_cong [THEN conjunct1]) simp_all
    have len: "length (sb_ch (hb_heap ?h i)) \<le> sb_buffer (hb_heap ?h i)" using True by simp
    show ?thesis unfolding step Cons.IH [OF len] w using True by (simp add: upd_sub_upd upd_sub_remove Let_def del: take_append)
  next
    case False
    consider "\<not> wants ?s r" | "wants ?s r" "length (sb_ch ?s) = sb_buffer ?s" using False Cons.prems by linarith
    then show ?thesis
    proof cases
      case 1
      then show ?thesis using Cons.IH [OF Cons.prems] by simp
    next
      case 2
      then have "deliver_updates i (r # us) h = upd_sub i (\<lambda>s. s\<lparr>sb_gone := True\<rparr>) (hub_remove i h)"
        by (simp add: hub_deliver_def Let_def)
      then show ?thesis using 2 by (simp add: upd_sub_def hub_remove_def)
    qed
  qed
qed

definition within_buffer :: "hub \<Rightarrow> bool" where
  "within_buffer h \<longleftrightarrow> (\<forall>i. length (sb_ch (hb_heap h i)) \<le> sb_buffer (hb_heap h i))"

text \<open>The whole loop over the registered subscribers.\<close>

definition published :: "nat list \<Rightarrow> hub \<Rightarrow> hub \<Rightarrow> routed list \<Rightarrow> bool" where
  "published js h h' us \<longleftrightarrow> set (hb_subs h') \<subseteq> set (hb_subs h) \<and> distinct (hb_subs h') \<and> within_buffer h'
     \<and> hb_statuses h' = hb_statuses h \<and> hb_order h' = hb_order h
     \<and> (\<forall>i. same_sub (hb_heap h i) (hb_heap h' i))
     \<and> (\<forall>i. set (sb_ch (hb_heap h' i)) \<subseteq> set (sb_ch (hb_heap h i)) \<union> rt_u ` {r \<in> set us. wants (hb_heap h i) r})
     \<and> (\<forall>i. i \<notin> set js \<longrightarrow> hb_heap h' i = hb_heap h i)
     \<and> (\<forall>i \<in> set (hb_subs h') \<inter> set js. sb_gone (hb_heap h' i) = sb_gone (hb_heap h i)
          \<and> sb_ch (hb_heap h' i) = sb_ch (hb_heap h i) @ map rt_u (filter (wants (hb_heap h i)) us))"

lemma published_one:
  assumes "within_buffer h" and "distinct (hb_subs h)"
  shows "published [i] h (deliver_updates i us h) us"
proof -
  have len: "length (sb_ch (hb_heap h i)) \<le> sb_buffer (hb_heap h i)" using assms(1) by (simp add: within_buffer_def)
  show ?thesis
  proof (cases "length (sb_ch (hb_heap h i)) + length (filter (wants (hb_heap h i)) us) \<le> sb_buffer (hb_heap h i)")
    case True
    then have "deliver_updates i us h = upd_sub i (\<lambda>s. s\<lparr>sb_ch := sb_ch s @ map rt_u (filter (wants (hb_heap h i)) us)\<rparr>) h"
      using deliver_updates_eq [OF len, of us] by (simp add: Let_def)
    then show ?thesis using True assms by (auto simp: published_def within_buffer_def same_sub_def)
  next
    case False
    let ?ws = "map rt_u (filter (wants (hb_heap h i)) us)"
    have "deliver_updates i us h =
        upd_sub i (\<lambda>s. s\<lparr>sb_ch := take (sb_buffer s) (sb_ch s @ ?ws), sb_gone := True\<rparr>) (hub_remove i h)"
      using False deliver_updates_eq [OF len, of us] by (simp add: Let_def)
    moreover have "set (take n (sb_ch (hb_heap h i) @ ?ws)) \<subseteq> set (sb_ch (hb_heap h i)) \<union> rt_u ` {r \<in> set us. wants (hb_heap h i) r}" for n
      by (rule subset_trans [OF set_take_subset]) auto
    moreover have "length (take n (sb_ch (hb_heap h i) @ ?ws)) \<le> n" for n by simp
    ultimately show ?thesis using assms by (auto simp: published_def within_buffer_def same_sub_def simp del: take_append length_take)
  qed
qed

lemma published_trans:
  assumes "published [j] h h1 us" and "published js h1 h2 us" and "j \<notin> set js"
  shows "published (j # js) h h2 us"
proof -
  have w: "wants (hb_heap h1 i) = wants (hb_heap h i)" for i
    using assms(1) by (intro wants_cong [THEN conjunct1]) (auto simp: published_def same_sub_def)
  have j: "hb_heap h2 j = hb_heap h1 j" using assms(2,3) by (simp add: published_def)
  have other: "i \<noteq> j \<Longrightarrow> hb_heap h1 i = hb_heap h i" for i using assms(1) by (simp add: published_def)
  have subs: "set (hb_subs h2) \<subseteq> set (hb_subs h1)" "set (hb_subs h1) \<subseteq> set (hb_subs h)" using assms(1,2) by (simp_all add: published_def)
  have "set (sb_ch (hb_heap h1 i)) \<subseteq> set (sb_ch (hb_heap h i)) \<union> rt_u ` {r \<in> set us. wants (hb_heap h i) r}"
      "set (sb_ch (hb_heap h2 i)) \<subseteq> set (sb_ch (hb_heap h1 i)) \<union> rt_u ` {r \<in> set us. wants (hb_heap h i) r}" for i
    using assms(1,2) w [of i] unfolding published_def by metis+
  then have "set (sb_ch (hb_heap h2 i)) \<subseteq> set (sb_ch (hb_heap h i)) \<union> rt_u ` {r \<in> set us. wants (hb_heap h i) r}" for i
    by blast
  moreover have "same_sub (hb_heap h i) (hb_heap h2 i)" for i
    using assms(1,2) by (simp add: published_def same_sub_def)
  moreover have "sb_gone (hb_heap h2 i) = sb_gone (hb_heap h i)
      \<and> sb_ch (hb_heap h2 i) = sb_ch (hb_heap h i) @ map rt_u (filter (wants (hb_heap h i)) us)"
    if "i \<in> set (hb_subs h2)" "i \<in> set (j # js)" for i
  proof (cases "i = j")
    case True
    then show ?thesis using assms(1) j subs(1) that unfolding published_def by auto
  next
    case False
    then show ?thesis using assms(2) other that unfolding published_def by simp
  qed
  ultimately show ?thesis using assms(1,2) subs other unfolding published_def by auto
qed

lemma deliver_loop:
  assumes "distinct js" and "distinct (hb_subs h)" and "within_buffer h"
  shows "published js h (foldl (\<lambda>h i. deliver_updates i us h) h js) us"
  using assms
proof (induction js arbitrary: h)
  case Nil
  then show ?case by (auto simp: published_def same_sub_def)
next
  case (Cons j js)
  have one: "published [j] h (deliver_updates j us h) us" using published_one Cons.prems by simp
  then have "distinct (hb_subs (deliver_updates j us h))" "within_buffer (deliver_updates j us h)" by (simp_all add: published_def)
  then have "published js (deliver_updates j us h) (foldl (\<lambda>h i. deliver_updates i us h) (deliver_updates j us h) js) us"
    using Cons by simp
  from published_trans [OF one this] Cons.prems(1) show ?case by simp
qed

lemma publish_effect:
  assumes "distinct (hb_subs h)" and "within_buffer h"
  shows "published (hb_subs h) (h\<lparr>hb_statuses := statuses, hb_order := order, hb_clock := clock\<rparr>) (publish clock statuses order extra h)
    (changed_statuses h clock statuses order @ extra)"
  using deliver_loop [of "hb_subs h" "h\<lparr>hb_statuses := statuses, hb_order := order, hb_clock := clock\<rparr>"] assms
  by (simp add: publish_def Let_def within_buffer_def)

section \<open>The client's view\<close>

text \<open>A client keeps the last status it was sent for each segment.\<close>

fun apply_update :: "(string \<rightharpoonup> segment_status) \<Rightarrow> update \<Rightarrow> (string \<rightharpoonup> segment_status)" where
  "apply_update m (StatusUpdate ts st) = m(sg_SegmentID st \<mapsto> st)"
| "apply_update m (StormUpdate ts e) = m"
| "apply_update m (AlertUpdate ts a) = m"

definition client_view :: "update list \<Rightarrow> (string \<rightharpoonup> segment_status)" where
  "client_view us = foldl apply_update Map.empty us"

fun is_status :: "update \<Rightarrow> bool" where
  "is_status (StatusUpdate ts st) = True"
| "is_status (StormUpdate ts e) = False"
| "is_status (AlertUpdate ts a) = False"

lemma apply_other: "\<forall>u \<in> set us. \<not> is_status u \<Longrightarrow> foldl apply_update m us = m"
proof (induction us arbitrary: m)
  case (Cons u us)
  then show ?case by (cases u) simp_all
qed simp

lemma apply_statuses:
  assumes "\<forall>i \<in> set is. sg_SegmentID (S i) = i"
  shows "foldl apply_update m (map (\<lambda>i. StatusUpdate ts (S i)) is) i = (if i \<in> set is then Some (S i) else m i)"
  using assms by (induction "is" arbitrary: m) auto

definition statuses_ok :: "(string \<rightharpoonup> segment_status) \<Rightarrow> string list \<Rightarrow> bool" where
  "statuses_ok statuses order \<longleftrightarrow> dom statuses = set order \<and> (\<forall>i st. statuses i = Some st \<longrightarrow> sg_SegmentID st = i)"

lemma buildStatuses_ok: "buildStatuses segs act al window = (statuses, order) \<Longrightarrow> statuses_ok statuses order"
  by (auto simp: buildStatuses_def statuses_ok_def Let_def map_of_map_restrict status_of_def AggregateStatus_def restrict_map_def
      split: if_splits)

text \<open>Updates beside statuses: storms go to everybody, alerts carry the owners of their home.\<close>

definition extra_ok :: "gw_db \<Rightarrow> routed \<Rightarrow> bool" where
  "extra_ok db r \<longleftrightarrow> (case rt_u r of
     StatusUpdate _ _ \<Rightarrow> False
   | StormUpdate _ _ \<Rightarrow> True
   | AlertUpdate _ a \<Rightarrow> rt_kind r = kindAlert \<and> (\<forall>s \<in> set (rt_owners r). OwnsHome db s (ap_HomeId a)))"

lemma client_view_step:
  assumes "statuses_ok (hb_statuses h) (hb_order h)" and "statuses_ok statuses order" and "\<forall>r \<in> set extra. extra_ok db r"
    and "\<forall>i \<in> set (hb_order h). wantsSegment s i \<longrightarrow> client_view us i = hb_statuses h i"
  shows "\<forall>i \<in> set order. wantsSegment s i \<longrightarrow>
    client_view (us @ map rt_u (filter (wants s) (changed_statuses h clock statuses order @ extra))) i = statuses i"
proof (intro ballI impI)
  fix i
  assume i: "i \<in> set order" "wantsSegment s i"
  let ?new = "filter (\<lambda>i. \<not> (hb_statuses h i \<noteq> None \<and> hb_statuses h i = statuses i)) order"
  let ?S = "\<lambda>i. the (statuses i)"
  have "map rt_u (filter (wants s) (changed_statuses h clock statuses order))
      = map (\<lambda>i. StatusUpdate clock (?S i)) (filter (wantsSegment s) ?new)"
    by (simp add: changed_statuses_def filter_map comp_def wants_def statusUpdate_def)
  moreover have "\<forall>u \<in> set (map rt_u (filter (wants s) extra)). \<not> is_status u"
    using assms(3) by (auto simp: extra_ok_def split: update.splits elim: is_status.elims)
  moreover have "\<forall>i \<in> set (filter (wantsSegment s) ?new). sg_SegmentID (?S i) = i"
    using assms(2) unfolding statuses_ok_def by (metis domD filter_is_subset option.sel subsetD)
  ultimately have view: "client_view (us @ map rt_u (filter (wants s) (changed_statuses h clock statuses order @ extra))) i
      = (if i \<in> set (filter (wantsSegment s) ?new) then Some (?S i) else client_view us i)"
    by (simp add: client_view_def apply_other apply_statuses del: set_filter)
  have some: "statuses i = Some (?S i)" using i assms(2) by (metis domD option.sel statuses_ok_def)
  show "client_view (us @ map rt_u (filter (wants s) (changed_statuses h clock statuses order @ extra))) i = statuses i"
  proof (cases "i \<in> set ?new")
    case True
    then show ?thesis using view i some by simp
  next
    case False
    then have "hb_statuses h i = statuses i" "i \<in> set (hb_order h)"
      using i assms(1) by (auto simp: statuses_ok_def)
    then show ?thesis using view False assms(4) i by simp
  qed
qed

lemma hub_round_publishes:
  assumes "hub_round env cfg b now db h = Inr h'"
  shows "\<exists>clock statuses order extra st al. h' = publish clock statuses order extra (h\<lparr>hb_storms := st, hb_alerts := al\<rparr>)
     \<and> statuses_ok statuses order \<and> (\<forall>r \<in> set extra. extra_ok db r)"
proof -
  have storm: "extra_ok db (stormUpdate env e)" for e by (simp add: extra_ok_def stormUpdate_def)
  have owned: "OwnsHome db s i" if "s \<in> set (owners_of (ListOwnersOfHomes db hs) i)" for s i hs
    using that by (auto simp: owners_of_def ListOwnersOfHomes_def OwnsHome_def)
  have alert: "extra_ok db (alertUpdate a seg (owners_of (ListOwnersOfHomes db hs) (case al_HomeID a of Some i \<Rightarrow> i | None \<Rightarrow> '''')))"
      "extra_ok db (alertUpdate a seg (owners_of [] (case al_HomeID a of Some i \<Rightarrow> i | None \<Rightarrow> '''')))" for a seg hs
    using owned by (auto simp: extra_ok_def alertUpdate_def alertToProto_def owners_of_def split: option.splits)
  obtain clock statuses order where status: "computeStatuses env now (wc_StatusWindow cfg) db = Inr (clock, statuses, order)"
    using assms by (auto simp: hub_round_def bind_sum_Inr_iff split: option.splits)
  then have ok: "statuses_ok statuses order"
    by (auto simp: computeStatuses_def bind_sum_Inr_iff Let_def split: prod.splits intro: buildStatuses_ok)
  let ?storms = "filter (\<lambda>e. isNew (hb_storms h) (se_ID e) (se_UpdatedAt e)) (ListStormEventsChangedSince db (since (hb_storms h)))"
  let ?changed = "filter (\<lambda>(a, s). isNew (hb_alerts h) (al_ID a) (al_UpdatedAt a)) (ListAlertsChangedSince db (since (hb_alerts h)))"
  have qs: "gq env st x = Inr y \<Longrightarrow> y = x" for st and x y :: "stamped_storm list" by (simp add: gq_def split: option.splits)
  have qa: "gq env st x = Inr y \<Longrightarrow> y = x" for st and x y :: "(alert_row \<times> string option) list" by (simp add: gq_def split: option.splits)
  have qo: "gq env st x = Inr y \<Longrightarrow> y = x" for st and x y :: "owner_row list" by (simp add: gq_def split: option.splits)
  let ?homes = "map (\<lambda>(a, s). case al_HomeID a of Some i \<Rightarrow> i | None \<Rightarrow> '''') ?changed"
  have "\<exists>owners. (if ?changed \<noteq> [] then gq env GOwners (ListOwnersOfHomes db ?homes) else Inr []) = Inr owners
    \<and> h' = publish clock statuses order (map (stormUpdate env) ?storms
        @ map (\<lambda>(a, s). alertUpdate a s (owners_of owners (case al_HomeID a of Some i \<Rightarrow> i | None \<Rightarrow> ''''))) ?changed)
      (h\<lparr>hb_storms := record_versions (hb_storms h) (map storm_version ?storms),
         hb_alerts := record_versions (hb_alerts h) (map (\<lambda>(a, s). alert_version a) ?changed)\<rparr>)"
    using assms by (auto simp: hub_round_def status bind_sum_Inr_iff Let_def dest!: qs qa split: option.splits)
  then obtain owners where "(if ?changed \<noteq> [] then gq env GOwners (ListOwnersOfHomes db ?homes) else Inr []) = Inr owners"
    and h': "h' = publish clock statuses order (map (stormUpdate env) ?storms
        @ map (\<lambda>(a, s). alertUpdate a s (owners_of owners (case al_HomeID a of Some i \<Rightarrow> i | None \<Rightarrow> ''''))) ?changed)
      (h\<lparr>hb_storms := record_versions (hb_storms h) (map storm_version ?storms),
         hb_alerts := record_versions (hb_alerts h) (map (\<lambda>(a, s). alert_version a) ?changed)\<rparr>)" by blast
  then have owners: "owners = [] \<or> (\<exists>hs. owners = ListOwnersOfHomes db hs)"
    by (auto split: if_splits dest: qo)
  have "extra_ok db r" if "r \<in> set (map (stormUpdate env) ?storms
        @ map (\<lambda>(a, s). alertUpdate a s (owners_of owners (case al_HomeID a of Some i \<Rightarrow> i | None \<Rightarrow> ''''))) ?changed)" for r
    using that storm alert owners by auto
  then show ?thesis using h' ok by blast
qed

text \<open>The storms a round sends are those the change tracker lets through.\<close>

lemma round_storms_tracked:
  "map storm_version (filter (\<lambda>e. isNew c (se_ID e) (se_UpdatedAt e)) (ListStormEventsChangedSince db (since c)))
     = new_versions c (map storm_version (sort_key (\<lambda>e. (se_UpdatedAt e, se_ID e)) (gd_storms db)))"
  by (simp add: ListStormEventsChangedSince_def new_versions_def storm_version_def filter_map filter_sort comp_def conj_commute)

section \<open>Streams follow the hub\<close>

definition pending :: "stream \<Rightarrow> update list" where
  "pending s = (case sm_phase s of Reading \<Rightarrow> sm_statuses s | Sending us \<Rightarrow> us | Looping \<Rightarrow> [] | Ended _ \<Rightarrow> [])"

definition live :: "stream \<Rightarrow> bool" where
  "live s = (case sm_phase s of Ended _ \<Rightarrow> False | _ \<Rightarrow> True)"

text \<open>All a client has got or will get without further rounds.\<close>

definition in_flight :: "hub \<Rightarrow> nat \<Rightarrow> stream \<Rightarrow> update list" where
  "in_flight h i s = sm_sent s @ pending s @ sb_ch (hb_heap h i)"

definition follows :: "hub \<Rightarrow> nat \<Rightarrow> stream \<Rightarrow> bool" where
  "follows h i s \<longleftrightarrow> (\<forall>k \<in> set (hb_order h). wantsSegment (hb_heap h i) k \<longrightarrow> client_view (in_flight h i s) k = hb_statuses h k)"

definition hub_inv :: "world \<Rightarrow> bool" where
  "hub_inv w \<longleftrightarrow> statuses_ok (hb_statuses (wd_hub w)) (hb_order (wd_hub w)) \<and> distinct (hb_subs (wd_hub w)) \<and> within_buffer (wd_hub w)
     \<and> (\<forall>i \<in> set (hb_subs (wd_hub w)). \<not> sb_gone (hb_heap (wd_hub w) i)
          \<and> (\<exists>s. wd_streams w i = Some s \<and> live s \<and> (sm_snapshot s \<longrightarrow> follows (wd_hub w) i s)))"

lemma hub_inv_stream:
  assumes inv: "hub_inv w" and s: "wd_streams w i = Some s" and b: "same_sub (hb_heap (wd_hub w) i) b" "sb_gone b = sb_gone (hb_heap (wd_hub w) i)"
      "length (sb_ch b) \<le> sb_buffer b"
    and s': "live s'" "sm_snapshot s' = sm_snapshot s"
      "client_view (sm_sent s' @ pending s' @ sb_ch b) = client_view (in_flight (wd_hub w) i s)"
  shows "hub_inv (w\<lparr>wd_hub := upd_sub i (\<lambda>_. b) (wd_hub w), wd_streams := (wd_streams w)(i \<mapsto> s')\<rparr>)"
proof -
  have "wantsSegment b = wantsSegment (hb_heap (wd_hub w) i)"
    using b(1) by (intro wants_cong [THEN conjunct2]) (simp_all add: same_sub_def)
  then have "follows (upd_sub i (\<lambda>_. b) (wd_hub w)) i s'" if "follows (wd_hub w) i s"
    using that s'(3) by (simp add: follows_def in_flight_def)
  moreover have "follows (upd_sub i (\<lambda>_. b) (wd_hub w)) j s'' = follows (wd_hub w) j s''" if "j \<noteq> i" for j s''
    using that by (simp add: follows_def in_flight_def)
  ultimately show ?thesis using inv s b s' by (auto simp: hub_inv_def within_buffer_def)
qed

lemma upd_sub_id: "upd_sub i (\<lambda>_. hb_heap h i) h = h"
  by (simp add: upd_sub_def)

lemmas hub_inv_stream_only = hub_inv_stream [where b = "hb_heap (wd_hub w) i" and w = w and i = i for w i, unfolded upd_sub_id]

lemma hub_inv_finish: "hub_inv w \<Longrightarrow> hub_inv (finish i s r w)"
  by (auto simp: hub_inv_def finish_def within_buffer_def follows_def in_flight_def)

lemma hub_inv_pop:
  assumes "hub_inv w" and "sb_ch (hb_heap (wd_hub w) i) = u # us"
  shows "hub_inv (finish i s r (w\<lparr>wd_hub := upd_sub i (\<lambda>b. b\<lparr>sb_ch := us\<rparr>) (wd_hub w)\<rparr>))"
proof -
  have "length us \<le> sb_buffer (hb_heap (wd_hub w) i)"
    using assms by (auto simp: hub_inv_def within_buffer_def dest!: spec [of _ i])
  then show ?thesis using assms(1) by (auto simp: hub_inv_def finish_def within_buffer_def follows_def in_flight_def)
qed

lemma hub_inv_open:
  assumes "hub_inv w" and "wd_streams w i = None" and "serve_open cfg i subject ids snap (wd_hub w) = (h, s)"
  shows "hub_inv (w\<lparr>wd_hub := h, wd_streams := (wd_streams w)(i \<mapsto> s)\<rparr>)"
proof -
  let ?sub = "newSubscriber subject ids (wc_Buffer cfg)"
  have h: "h = (wd_hub w)\<lparr>hb_heap := (hb_heap (wd_hub w))(i := ?sub), hb_subs := hb_subs (wd_hub w) @ [i]\<rparr>"
    and s: "sm_snapshot s = snap" "snap \<longrightarrow> in_flight h i s = status_snapshot (wd_hub w) ?sub" "live s"
    using assms(3) by (auto simp: serve_open_def Let_def in_flight_def pending_def live_def newSubscriber_def)
  have new: "i \<notin> set (hb_subs (wd_hub w))" using assms(1,2) by (auto simp: hub_inv_def)
  have ok: "statuses_ok (hb_statuses (wd_hub w)) (hb_order (wd_hub w))" using assms(1) by (simp add: hub_inv_def)
  then have some: "hb_statuses (wd_hub w) k = Some (the (hb_statuses (wd_hub w) k)) \<and> sg_SegmentID (the (hb_statuses (wd_hub w) k)) = k"
    if "k \<in> set (hb_order (wd_hub w))" for k
    using that unfolding statuses_ok_def by (metis domD option.sel)
  have "client_view (status_snapshot (wd_hub w) ?sub) k = hb_statuses (wd_hub w) k"
    if "k \<in> set (hb_order (wd_hub w))" "wantsSegment ?sub k" for k
    unfolding client_view_def status_snapshot_def statusUpdate_def using that some by (subst apply_statuses) auto
  then have "snap \<longrightarrow> follows h i s" using s(2) by (simp add: follows_def h)
  moreover have "follows h j s'' = follows (wd_hub w) j s''" if "j \<noteq> i" for j s''
    using that by (simp add: follows_def in_flight_def h)
  ultimately show ?thesis
    using assms(1) new s by (auto simp: hub_inv_def h within_buffer_def newSubscriber_def)
qed

lemma hub_inv_round:
  assumes inv: "hub_inv w" and round: "hub_round env cfg b now db (wd_hub w) = Inr h'"
  shows "hub_inv (w\<lparr>wd_hub := h'\<lparr>hb_ready := True\<rparr>\<rparr>)"
proof -
  obtain clock statuses order extra st al where h': "h' = publish clock statuses order extra ((wd_hub w)\<lparr>hb_storms := st, hb_alerts := al\<rparr>)"
    and ok: "statuses_ok statuses order" "\<forall>r \<in> set extra. extra_ok db r"
    using hub_round_publishes [OF round] by blast
  let ?h = "(wd_hub w)\<lparr>hb_storms := st, hb_alerts := al\<rparr>"
  let ?us = "changed_statuses ?h clock statuses order @ extra"
  have pub: "published (hb_subs ?h) (?h\<lparr>hb_statuses := statuses, hb_order := order, hb_clock := clock\<rparr>) h' ?us"
    unfolding h' using inv by (intro publish_effect) (simp_all add: hub_inv_def within_buffer_def)
  have "follows h' i s" if "i \<in> set (hb_subs h')" "follows (wd_hub w) i s" for i s
  proof -
    have ch: "sb_ch (hb_heap h' i) = sb_ch (hb_heap (wd_hub w) i) @ map rt_u (filter (wants (hb_heap (wd_hub w) i)) ?us)"
      and same: "same_sub (hb_heap (wd_hub w) i) (hb_heap h' i)"
      using pub that(1) unfolding published_def by auto
    then have w: "wantsSegment (hb_heap h' i) = wantsSegment (hb_heap (wd_hub w) i)"
      by (intro wants_cong [THEN conjunct2]) (simp_all add: same_sub_def)
    have "\<forall>k \<in> set order. wantsSegment (hb_heap (wd_hub w) i) k \<longrightarrow>
        client_view (in_flight (wd_hub w) i s @ map rt_u (filter (wants (hb_heap (wd_hub w) i)) ?us)) k = statuses k"
      using inv ok that(2) by (intro client_view_step) (auto simp: hub_inv_def follows_def)
    moreover have "hb_order h' = order" "hb_statuses h' = statuses" using pub by (simp_all add: published_def)
    ultimately show ?thesis by (simp add: follows_def w in_flight_def ch)
  qed
  moreover have "follows (h'\<lparr>hb_ready := True\<rparr>) = follows h'" by (simp add: fun_eq_iff follows_def in_flight_def)
  moreover have "sb_gone (hb_heap h' i) = sb_gone (hb_heap (wd_hub w) i) \<and> i \<in> set (hb_subs (wd_hub w))" if "i \<in> set (hb_subs h')" for i
    using pub that unfolding published_def by auto
  moreover have "hb_order h' = order" "hb_statuses h' = statuses" "distinct (hb_subs h')" "within_buffer h'"
    using pub by (simp_all add: published_def)
  ultimately show ?thesis using inv ok(1) by (simp add: hub_inv_def within_buffer_def) blast
qed

lemma hub_snapshot_quiet: "hub_snapshot env cfg db sub = Inr rest \<Longrightarrow> \<forall>u \<in> set rest. \<not> is_status u"
  by (auto simp: hub_snapshot_def bind_sum_Inr_iff Let_def stormUpdate_def alertUpdate_def split: if_splits)

lemma client_view_quiet: "\<forall>u \<in> set rest. \<not> is_status u \<Longrightarrow> client_view (xs @ rest @ ys) = client_view (xs @ ys)"
  by (simp add: client_view_def apply_other)

lemma hub_inv_step: "hub_step env cfg D w w' \<Longrightarrow> hub_inv w \<Longrightarrow> hub_inv w'"
proof (induction rule: hub_step.induct)
  case (round_ok w db fl b now h)
  then show ?case by (blast intro: hub_inv_round)
next
  case (shut_down w)
  then show ?case by (simp add: hub_inv_def within_buffer_def follows_def in_flight_def)
next
  case (opens w i subject ids snap h s)
  then show ?case by (intro hub_inv_open)
next
  case (reads w i s db fl rest)
  have len: "length (sb_ch (hb_heap (wd_hub w) i)) \<le> sb_buffer (hb_heap (wd_hub w) i)"
    using reads.prems by (simp add: hub_inv_def within_buffer_def)
  have "client_view ((sm_sent s @ sm_statuses s) @ rest @ sb_ch (hb_heap (wd_hub w) i)) =
      client_view ((sm_sent s @ sm_statuses s) @ sb_ch (hb_heap (wd_hub w) i))"
    using reads(4) by (intro client_view_quiet hub_snapshot_quiet)
  then have "hub_inv (w\<lparr>wd_hub := wd_hub w, wd_streams := (wd_streams w)(i \<mapsto> s\<lparr>sm_phase := Sending (sm_statuses s @ rest)\<rparr>)\<rparr>)"
    using reads(1,2) reads.prems len
    by (intro hub_inv_stream_only [where s = s]) (simp_all add: same_sub_def live_def pending_def in_flight_def)
  then show ?case by simp
next
  case (sends w i s u us)
  have len: "length (sb_ch (hb_heap (wd_hub w) i)) \<le> sb_buffer (hb_heap (wd_hub w) i)"
    using sends.prems by (simp add: hub_inv_def within_buffer_def)
  then have "hub_inv (w\<lparr>wd_hub := wd_hub w, wd_streams := (wd_streams w)(i \<mapsto> s\<lparr>sm_phase := Sending us, sm_sent := sm_sent s @ [u]\<rparr>)\<rparr>)"
    using sends by (intro hub_inv_stream_only [where s = s]) (simp_all add: same_sub_def live_def pending_def in_flight_def)
  then show ?case by simp
next
  case (sent_all w i s)
  have len: "length (sb_ch (hb_heap (wd_hub w) i)) \<le> sb_buffer (hb_heap (wd_hub w) i)"
    using sent_all.prems by (simp add: hub_inv_def within_buffer_def)
  then have "hub_inv (w\<lparr>wd_hub := wd_hub w, wd_streams := (wd_streams w)(i \<mapsto> s\<lparr>sm_phase := Looping\<rparr>)\<rparr>)"
    using sent_all by (intro hub_inv_stream_only [where s = s]) (simp_all add: same_sub_def live_def pending_def in_flight_def)
  then show ?case by simp
next
  case (receives w i s u us)
  have len: "length (sb_ch (hb_heap (wd_hub w) i)) \<le> sb_buffer (hb_heap (wd_hub w) i)"
    using receives.prems by (simp add: hub_inv_def within_buffer_def)
  have "upd_sub i (\<lambda>b. b\<lparr>sb_ch := us\<rparr>) (wd_hub w) = upd_sub i (\<lambda>_. (hb_heap (wd_hub w) i)\<lparr>sb_ch := us\<rparr>) (wd_hub w)"
    by (simp add: upd_sub_def)
  then show ?case
    using receives len by (simp only:) (intro hub_inv_stream [where s = s]; simp add: same_sub_def live_def pending_def in_flight_def)
next
  case (forward_fails w i s u us send_err)
  then show ?case by (intro hub_inv_pop)
qed (simp_all add: hub_inv_finish)

lemma hub_inv_reachable: "hub_reachable env cfg D w \<Longrightarrow> hub_inv w"
proof (induction rule: hub_reachable.induct)
  case (start now)
  then show ?case by (simp add: hub_inv_def start_Run_def NewHub_def statuses_ok_def within_buffer_def newSubscriber_def)
next
  case (step w w')
  then show ?case by (blast intro: hub_inv_step)
qed


section \<open>Alerts reach owners only\<close>

definition may_have :: "(string \<Rightarrow> uuid \<Rightarrow> bool) \<Rightarrow> string \<Rightarrow> update \<Rightarrow> bool" where
  "may_have own subject u \<longleftrightarrow> (case u of AlertUpdate _ a \<Rightarrow> subject \<noteq> '''' \<and> own subject (ap_HomeId a) | _ \<Rightarrow> True)"

definition alerts_private :: "(string \<Rightarrow> uuid \<Rightarrow> bool) \<Rightarrow> world \<Rightarrow> bool" where
  "alerts_private own w \<longleftrightarrow> (\<forall>i s. wd_streams w i = Some s \<longrightarrow>
     (\<forall>u \<in> set (in_flight (wd_hub w) i s) \<union> set (sm_statuses s). may_have own (sb_subject (hb_heap (wd_hub w) i)) u))"

lemma alerts_private_round:
  assumes priv: "alerts_private own w" and inv: "hub_inv w" and round: "hub_round env cfg b now db (wd_hub w) = Inr h'"
    and own: "\<And>s h. OwnsHome db s h \<Longrightarrow> own s h"
  shows "alerts_private own (w\<lparr>wd_hub := h'\<lparr>hb_ready := True\<rparr>\<rparr>)"
proof -
  obtain clock statuses order extra st al where h': "h' = publish clock statuses order extra ((wd_hub w)\<lparr>hb_storms := st, hb_alerts := al\<rparr>)"
    and ok: "\<forall>r \<in> set extra. extra_ok db r"
    using hub_round_publishes [OF round] by blast
  let ?h = "(wd_hub w)\<lparr>hb_storms := st, hb_alerts := al\<rparr>"
  let ?us = "changed_statuses ?h clock statuses order @ extra"
  have pub: "published (hb_subs ?h) (?h\<lparr>hb_statuses := statuses, hb_order := order, hb_clock := clock\<rparr>) h' ?us"
    unfolding h' using inv by (intro publish_effect) (simp_all add: hub_inv_def within_buffer_def)
  have wanted: "may_have own (sb_subject s) (rt_u r)" if "r \<in> set ?us" "wants s r" for r s
  proof (cases "r \<in> set extra")
    case True
    then show ?thesis using ok that(2) own by (auto simp: extra_ok_def may_have_def wants_def split: update.splits)
  next
    case False
    then show ?thesis using that(1) by (auto simp: changed_statuses_def may_have_def statusUpdate_def)
  qed
  have "may_have own (sb_subject (hb_heap h' i)) u"
    if "u \<in> set (sb_ch (hb_heap h' i))" "\<forall>u \<in> set (sb_ch (hb_heap (wd_hub w) i)). may_have own (sb_subject (hb_heap (wd_hub w) i)) u" for i u
  proof -
    have "sb_subject (hb_heap h' i) = sb_subject (hb_heap (wd_hub w) i)" using pub by (simp add: published_def same_sub_def)
    moreover have "u \<in> set (sb_ch (hb_heap (wd_hub w) i)) \<union> rt_u ` {r \<in> set ?us. wants (hb_heap (wd_hub w) i) r}"
      using pub that(1) unfolding published_def by auto
    ultimately show ?thesis using that(2) wanted by auto
  qed
  moreover have "sb_subject (hb_heap h' i) = sb_subject (hb_heap (wd_hub w) i)" for i using pub by (simp add: published_def same_sub_def)
  ultimately show ?thesis using priv by (auto simp: alerts_private_def in_flight_def)
qed

lemma hub_snapshot_private:
  assumes "hub_snapshot env cfg db sub = Inr rest" and own: "\<And>s h. OwnsHome db s h \<Longrightarrow> own s h" and "u \<in> set rest"
  shows "may_have own (sb_subject sub) u"
proof -
  have owned: "OwnsHome db s (ap_HomeId (alertToProto a seg))" if "(a, seg) \<in> set (ListOwnerActiveAlerts db s None)" for a seg s
    using that by (auto simp: ListOwnerActiveAlerts_def alert_homes_def OwnsHome_def alertToProto_def split: if_splits)
  have q: "gq env st x = Inr y \<Longrightarrow> y = x" for st and x y :: "(alert_row \<times> string option) list" by (simp add: gq_def split: option.splits)
  show ?thesis
    using assms(1,3) owned own
    by (auto simp: hub_snapshot_def bind_sum_Inr_iff Let_def may_have_def stormUpdate_def alertUpdate_def dest!: q split: if_splits)
qed

lemma alerts_private_stream:
  assumes "alerts_private own w" and "wd_streams w i = Some s" and "sb_subject (f (hb_heap (wd_hub w) i)) = sb_subject (hb_heap (wd_hub w) i)"
    and "set (sm_sent s' @ pending s' @ sb_ch (f (hb_heap (wd_hub w) i))) \<subseteq> set (in_flight (wd_hub w) i s) \<union> set (sm_statuses s) \<union> set us"
    and "sm_statuses s' = sm_statuses s" and "\<forall>u \<in> set us. may_have own (sb_subject (hb_heap (wd_hub w) i)) u"
  shows "alerts_private own (w\<lparr>wd_hub := upd_sub i f (wd_hub w), wd_streams := (wd_streams w)(i \<mapsto> s')\<rparr>)"
  unfolding alerts_private_def
proof (intro allI impI ballI)
  fix j t u
  let ?w = "w\<lparr>wd_hub := upd_sub i f (wd_hub w), wd_streams := (wd_streams w)(i \<mapsto> s')\<rparr>"
  assume t: "wd_streams ?w j = Some t" and u: "u \<in> set (in_flight (wd_hub ?w) j t) \<union> set (sm_statuses t)"
  show "may_have own (sb_subject (hb_heap (wd_hub ?w) j)) u"
  proof (cases "j = i")
    case True
    then have "u \<in> set (in_flight (wd_hub w) i s) \<union> set (sm_statuses s) \<union> set us" using t u assms(4,5) by (auto simp: in_flight_def)
    then show ?thesis using True assms(1,2,3,6) by (auto simp: alerts_private_def)
  next
    case False
    then show ?thesis using t u assms(1) by (simp add: alerts_private_def in_flight_def)
  qed
qed

lemma upd_sub_ident: "upd_sub i (\<lambda>b. b) h = h"
  by (simp add: upd_sub_def)

lemmas alerts_private_stream_only = alerts_private_stream [where f = "\<lambda>b. b", unfolded upd_sub_ident]

lemma alerts_private_finish:
  assumes "alerts_private own w" and "wd_streams w i = Some s" and "sb_ch (hb_heap (wd_hub w) i) = [] @ us \<or> sb_ch (hb_heap (wd_hub w) i) = [u] @ us"
  shows "alerts_private own (finish i s r (w\<lparr>wd_hub := upd_sub i (\<lambda>b. b\<lparr>sb_ch := us\<rparr>) (wd_hub w)\<rparr>))"
  using assms by (auto simp: alerts_private_def finish_def in_flight_def pending_def)

lemma alerts_private_ended: "alerts_private own w \<Longrightarrow> wd_streams w i = Some s \<Longrightarrow> alerts_private own (finish i s r w)"
  by (auto simp: alerts_private_def finish_def in_flight_def pending_def)

lemma alerts_private_step:
  assumes "\<And>db s h. db \<in> D \<Longrightarrow> OwnsHome db s h \<Longrightarrow> own s h"
  shows "hub_step env cfg D w w' \<Longrightarrow> hub_inv w \<Longrightarrow> alerts_private own w \<Longrightarrow> alerts_private own w'"
proof (induction rule: hub_step.induct)
  case (round_ok w db fl b now h)
  then show ?case using assms by (intro alerts_private_round) auto
next
  case (shut_down w)
  then show ?case by (simp add: alerts_private_def in_flight_def)
next
  case (opens w i subject ids snap h s)
  then have h: "hb_heap h = (hb_heap (wd_hub w))(i := newSubscriber subject ids (wc_Buffer cfg))"
    and s: "\<forall>u \<in> set (in_flight h i s) \<union> set (sm_statuses s). is_status u"
    by (auto simp: serve_open_def Let_def in_flight_def pending_def status_snapshot_def statusUpdate_def newSubscriber_def split: if_splits)
  have "may_have own x u" if "is_status u" for x u using that by (cases u) (simp_all add: may_have_def)
  then show ?case using opens.prems(2) s by (auto simp: alerts_private_def in_flight_def h)
next
  case (reads w i s db fl rest)
  then have "\<forall>u \<in> set rest. may_have own (sb_subject (hb_heap (wd_hub w) i)) u"
    using hub_snapshot_private assms by blast
  then have "alerts_private own (w\<lparr>wd_hub := wd_hub w, wd_streams := (wd_streams w)(i \<mapsto> s\<lparr>sm_phase := Sending (sm_statuses s @ rest)\<rparr>)\<rparr>)"
    using reads by (intro alerts_private_stream_only [where s = s and us = rest]) (auto simp: in_flight_def pending_def)
  then show ?case by simp
next
  case (sends w i s u us)
  then have "alerts_private own (w\<lparr>wd_hub := wd_hub w, wd_streams := (wd_streams w)(i \<mapsto> s\<lparr>sm_phase := Sending us, sm_sent := sm_sent s @ [u]\<rparr>)\<rparr>)"
    by (intro alerts_private_stream_only [where s = s and us = "[]"]) (auto simp: in_flight_def pending_def)
  then show ?case by simp
next
  case (sent_all w i s)
  then have "alerts_private own (w\<lparr>wd_hub := wd_hub w, wd_streams := (wd_streams w)(i \<mapsto> s\<lparr>sm_phase := Looping\<rparr>)\<rparr>)"
    by (intro alerts_private_stream_only [where s = s and us = "[]"]) (auto simp: in_flight_def pending_def)
  then show ?case by simp
next
  case (receives w i s u us)
  then show ?case by (intro alerts_private_stream [where s = s and us = "[]"]) (auto simp: in_flight_def pending_def)
next
  case (forward_fails w i s u us send_err)
  then show ?case by (intro alerts_private_finish [where u = u]) auto
qed (simp_all add: alerts_private_ended)

text \<open>
  C26: Alerts reach owners only. Whatever rounds, openings, snapshots and sends are interleaved, an alert that is
  sent to a stream, or waits in its snapshot or its queue, is on a home that the stream's subject owns in
  some database state read; an anonymous stream never has one.
\<close>

theorem streamed_alerts_are_owned:
  assumes "hub_reachable env cfg D w" and "wd_streams w i = Some s"
    and "AlertUpdate ts a \<in> set (sm_sent s @ pending s @ sb_ch (hb_heap (wd_hub w) i))"
  shows "sb_subject (hb_heap (wd_hub w) i) \<noteq> '''' \<and> (\<exists>db \<in> D. OwnsHome db (sb_subject (hb_heap (wd_hub w) i)) (ap_HomeId a))"
proof -
  let ?own = "\<lambda>s h. \<exists>db \<in> D. OwnsHome db s h"
  have "alerts_private ?own w"
    using assms(1)
  proof (induction rule: hub_reachable.induct)
    case (start now)
    then show ?case by (simp add: alerts_private_def)
  next
    case (step w w')
    then show ?case using hub_inv_reachable by (blast intro: alerts_private_step)
  qed
  then have "may_have ?own (sb_subject (hb_heap (wd_hub w) i)) (AlertUpdate ts a)"
    using assms(2,3) by (auto simp: alerts_private_def in_flight_def)
  then show ?thesis by (simp add: may_have_def)
qed

section \<open>Witnesses\<close>

definition demo_watch :: watch_config where
  "demo_watch = \<lparr>wc_StatusWindow = hour, wc_Buffer = 16, wc_RecentStorms = 5\<rparr>"

definition demo_wdb :: gw_db where
  "demo_wdb = demo_gdb [demo_alert\<lparr>al_HomeID := Some ''h''\<rparr>]"

lemma demo_hub_reachable:
  "\<exists>w s rest. hub_reachable demo_genv demo_watch {demo_wdb} w \<and> 0 \<in> set (hb_subs (wd_hub w)) \<and> wd_streams w 0 = Some s
     \<and> sb_subject (hb_heap (wd_hub w) 0) = ''u'' \<and> pending s = rest @ [AlertUpdate (al_UpdatedAt demo_alert) (alertToProto (demo_alert\<lparr>al_HomeID := Some ''h''\<rparr>) None)]"
proof -
  let ?w0 = "\<lparr>wd_hub = start_Run 0 NewHub, wd_streams = Map.empty\<rparr>"
  have env: "demo_genv\<lparr>ge_fails := \<lambda>_. None\<rparr> = demo_genv" by (simp add: demo_genv_def)
  have ok: "gq demo_genv st x = Inr x" for st x by (simp add: gq_def demo_genv_def)
  have "\<exists>h. hub_round demo_genv demo_watch None 0 demo_wdb (start_Run 0 NewHub) = Inr h"
    by (simp add: hub_round_def computeStatuses_def ok Let_def split: prod.split)
  then obtain h where "hub_round (demo_genv\<lparr>ge_fails := \<lambda>_. None\<rparr>) demo_watch None 0 demo_wdb (start_Run 0 NewHub) = Inr h" unfolding env by blast
  then have "hub_step demo_genv demo_watch {demo_wdb} ?w0 (?w0\<lparr>wd_hub := h\<lparr>hb_ready := True\<rparr>\<rparr>)"
    by (intro round_ok [where db = demo_wdb]) (simp_all add: start_Run_def NewHub_def)
  then have r1: "hub_reachable demo_genv demo_watch {demo_wdb} (?w0\<lparr>wd_hub := h\<lparr>hb_ready := True\<rparr>\<rparr>)"
    using hub_reachable.start hub_reachable.step by blast
  obtain h2 s where open_s: "serve_open demo_watch 0 ''u'' [] True (h\<lparr>hb_ready := True\<rparr>) = (h2, s)" by fastforce
  let ?w2 = "\<lparr>wd_hub = h2, wd_streams = [0 \<mapsto> s]\<rparr>"
  have "hub_step demo_genv demo_watch {demo_wdb} (?w0\<lparr>wd_hub := h\<lparr>hb_ready := True\<rparr>\<rparr>)
      ((?w0\<lparr>wd_hub := h\<lparr>hb_ready := True\<rparr>\<rparr>)\<lparr>wd_hub := h2, wd_streams := (wd_streams (?w0\<lparr>wd_hub := h\<lparr>hb_ready := True\<rparr>\<rparr>))(0 \<mapsto> s)\<rparr>)"
    using open_s by (intro opens) simp_all
  then have r2: "hub_reachable demo_genv demo_watch {demo_wdb} ?w2" using hub_reachable.step [OF r1] by simp
  have s: "sm_phase s = Reading" "hb_heap h2 0 = newSubscriber ''u'' [] 16" "0 \<in> set (hb_subs h2)"
    using open_s by (auto simp: serve_open_def Let_def demo_watch_def)
  have alerts: "ListOwnerActiveAlerts demo_wdb ''u'' None = [(demo_alert\<lparr>al_HomeID := Some ''h''\<rparr>, None)]"
    by (simp add: ListOwnerActiveAlerts_def demo_wdb_def demo_gdb_def alert_homes_def demo_alert_def new_alert_def is_open_def)
  then have "\<exists>rest. hub_snapshot demo_genv demo_watch demo_wdb (hb_heap h2 0) = Inr (rest @ [AlertUpdate (al_UpdatedAt demo_alert) (alertToProto (demo_alert\<lparr>al_HomeID := Some ''h''\<rparr>) None)])"
    by (simp add: hub_snapshot_def ok s newSubscriber_def wantsSegment_def alertUpdate_def)
  then obtain rest where snap: "hub_snapshot (demo_genv\<lparr>ge_fails := \<lambda>_. None\<rparr>) demo_watch demo_wdb (hb_heap h2 0) =
      Inr (rest @ [AlertUpdate (al_UpdatedAt demo_alert) (alertToProto (demo_alert\<lparr>al_HomeID := Some ''h''\<rparr>) None)])" unfolding env by blast
  let ?s = "s\<lparr>sm_phase := Sending (sm_statuses s @ rest @ [AlertUpdate (al_UpdatedAt demo_alert) (alertToProto (demo_alert\<lparr>al_HomeID := Some ''h''\<rparr>) None)])\<rparr>"
  have "hub_step demo_genv demo_watch {demo_wdb} ?w2 (?w2\<lparr>wd_streams := (wd_streams ?w2)(0 \<mapsto> ?s)\<rparr>)"
    using s snap by (intro reads [where db = demo_wdb]) simp_all
  then have "hub_reachable demo_genv demo_watch {demo_wdb} (?w2\<lparr>wd_streams := (wd_streams ?w2)(0 \<mapsto> ?s)\<rparr>)"
    using hub_reachable.step [OF r2] by blast
  then show ?thesis
    using s by (intro exI [of _ "?w2\<lparr>wd_streams := (wd_streams ?w2)(0 \<mapsto> ?s)\<rparr>"] exI [of _ ?s] exI [of _ "sm_statuses s @ rest"])
      (simp add: pending_def newSubscriber_def)
qed


theorem streamed_alerts_are_owned_witness:
  "\<exists>w s. hub_reachable demo_genv demo_watch {demo_wdb} w \<and> wd_streams w 0 = Some s
     \<and> AlertUpdate (al_UpdatedAt demo_alert) (alertToProto (demo_alert\<lparr>al_HomeID := Some ''h''\<rparr>) None) \<in> set (pending s)
     \<and> OwnsHome demo_wdb (sb_subject (hb_heap (wd_hub w) 0)) ''h''"
proof -
  obtain w s rest where w: "hub_reachable demo_genv demo_watch {demo_wdb} w" "wd_streams w 0 = Some s"
    "pending s = rest @ [AlertUpdate (al_UpdatedAt demo_alert) (alertToProto (demo_alert\<lparr>al_HomeID := Some ''h''\<rparr>) None)]"
    using demo_hub_reachable by blast
  then have "\<exists>db \<in> {demo_wdb}. OwnsHome db (sb_subject (hb_heap (wd_hub w) 0)) (ap_HomeId (alertToProto (demo_alert\<lparr>al_HomeID := Some ''h''\<rparr>) None))"
    by (intro streamed_alerts_are_owned [OF w(1,2), where ts = "al_UpdatedAt demo_alert", THEN conjunct2]) simp
  then show ?thesis using w by (auto simp: alertToProto_def)
qed

section \<open>The method\<close>

text \<open>The check before a stream is opened, and the subject it is opened with.\<close>

definition WatchNeighbourhood :: "context_id \<Rightarrow> string list \<Rightarrow> grpc_code + string" where
  "WatchNeighbourhood ctx segment_ids =
     (if length segment_ids > maxWatchSegments then Inl InvalidArgument else Inr (pr_Subject (fst (FromContext ctx))))"

end
