(* ===== verification/Bulk_Store.thy ===== *)
theory Bulk_Store
  imports Rows
begin

text \<open>
  The bulk path of \<^verbatim>\<open>internal/store/bulk.go\<close>: a batch is copied into a staging table, its devices are registered or its
  unknown senders dropped, new rows are merged by primary key, and listeners are notified, all in one
  transaction. The path is the same for the five telemetry tables, so it is modelled once over a table
  description and the columns of its rows. A stored row carries the \<^verbatim>\<open>inserted_at\<close> of its transaction.
\<close>

section \<open>Tables\<close>

record result =
  rs_Accepted :: int
  rs_Duplicates :: int
  rs_Rejected :: int

definition no_result :: result where
  "no_result = \<lparr>rs_Accepted = 0, rs_Duplicates = 0, rs_Rejected = 0\<rparr>"

record table =
  tb_name :: string
  tb_timeCol :: string
  tb_partitioned :: bool
  tb_kind :: string

definition tReadings :: table where
  "tReadings = \<lparr>tb_name = ''readings'', tb_timeCol = ''ts'', tb_partitioned = True, tb_kind = ''house''\<rparr>"
definition tCycleEvents :: table where
  "tCycleEvents = \<lparr>tb_name = ''cycle_events'', tb_timeCol = ''started_at'', tb_partitioned = True, tb_kind = ''house''\<rparr>"
definition tStormSummaries :: table where
  "tStormSummaries = \<lparr>tb_name = ''storm_summaries'', tb_timeCol = ''window_end'', tb_partitioned = False, tb_kind = ''house''\<rparr>"
definition tAlarmEvents :: table where
  "tAlarmEvents = \<lparr>tb_name = ''alarm_events'', tb_timeCol = ''raised_at'', tb_partitioned = False, tb_kind = ''house''\<rparr>"
definition tRainGaugeUplinks :: table where
  "tRainGaugeUplinks = \<lparr>tb_name = ''rain_gauge_uplinks'', tb_timeCol = ''ts'', tb_partitioned = True, tb_kind = ''rain''\<rparr>"

text \<open>
  What the path uses of a row: its primary key (device, event time and frame counter in every table), the
  row as the columns hold it (an instant in whole microseconds, a fixed-point number rounded to its scale),
  whether its values fit the numeric and enum types of the columns, whether its instants and texts are ones
  the columns can hold, and whether it satisfies the checks of its table.
\<close>

record 'r columns =
  co_device :: "'r \<Rightarrow> string"
  co_time :: "'r \<Rightarrow> instant"
  co_fcnt :: "'r \<Rightarrow> int"
  co_store :: "'r \<Rightarrow> 'r"
  co_fits :: "'r \<Rightarrow> bool"
  co_encodes :: "'r \<Rightarrow> bool"
  co_check :: "'r \<Rightarrow> bool"

definition row_key :: "'r columns \<Rightarrow> 'r \<Rightarrow> string \<times> instant \<times> int" where
  "row_key c r = (co_device c r, co_time c r, co_fcnt c r)"

text \<open>A \<^verbatim>\<open>timestamptz\<close> holds whole microseconds; the driver cuts the rest off.\<close>

definition db_time :: "instant \<Rightarrow> instant" where
  "db_time t = t div 1000 * 1000"

text \<open>
  Its range: from the start of Julian day 0 (November 4714 BC) to the end of the year 294276. A \<^verbatim>\<open>text\<close> holds any
  string without the NUL character.
\<close>

definition timestamptz :: "instant \<Rightarrow> bool" where
  "timestamptz t \<longleftrightarrow> - 210866803200 * second \<le> t \<and> t < 9224318016000 * second"

definition pg_text :: "string \<Rightarrow> bool" where
  "pg_text s \<longleftrightarrow> CHR 0x00 \<notin> set s"

definition is_hex :: "char \<Rightarrow> bool" where
  "is_hex c \<longleftrightarrow> c \<in> set ''0123456789abcdef''"

text \<open>The pattern \<^verbatim>\<open>^[0-9a-f]{16}$\<close>.\<close>

definition devEUI_ok :: "string \<Rightarrow> bool" where
  "devEUI_ok s \<longleftrightarrow> length s = 16 \<and> list_all is_hex s"

text \<open>A device is its kind and the newest event time seen.\<close>

record 'r tstore =
  ts_devices :: "string \<rightharpoonup> string \<times> instant option"
  ts_rows :: "('r \<times> instant) list"
  ts_notes :: "notification list"
  ts_months :: "string list"

section \<open>Partitions\<close>

text \<open>Year and month of an instant in UTC, by the civil calendar.\<close>

definition civil_month :: "instant \<Rightarrow> int \<times> int" where
  "civil_month t =
     (let z = t div (24 * hour) + 719468;
          era = z div 146097;
          doe = z - era * 146097;
          yoe = (doe - doe div 1460 + doe div 36524 - doe div 146096) div 365;
          doy = doe - (365 * yoe + yoe div 4 - yoe div 100);
          mp = (5 * doy + 2) div 153;
          m = (if mp < 10 then mp + 3 else mp - 9);
          y = yoe + era * 400
      in (if m \<le> 2 then y + 1 else y, m))"

definition digits2 :: "int \<Rightarrow> string" where
  "digits2 n = [char_of (48 + nat (n div 10 mod 10)), char_of (48 + nat (n mod 10))]"

definition month_key :: "table \<Rightarrow> instant \<Rightarrow> string" where
  "month_key t ts = (let (y, m) = civil_month ts in tb_name t @ '':'' @ digits2 (y div 100) @ digits2 (y mod 100) @ ''-'' @ digits2 m)"

datatype create_error = DuplicateTable | OtherError db_error

text \<open>
  \<open>create\<close> answers the call of the partition manager for a key on a given attempt. A duplicate table on the first
  attempt is another replica's doing and is tried once more.
\<close>

definition createPartition :: "(string \<Rightarrow> nat \<Rightarrow> create_error + bool) \<Rightarrow> string \<Rightarrow> db_error + bool" where
  "createPartition create key =
     (case create key 0 of
        Inr created \<Rightarrow> Inr created
      | Inl (OtherError e) \<Rightarrow> Inl e
      | Inl DuplicateTable \<Rightarrow>
          (case create key 1 of
             Inr created \<Rightarrow> Inr created
           | Inl (OtherError e) \<Rightarrow> Inl e
           | Inl DuplicateTable \<Rightarrow> Inl (DbError ''42P07'')))"

fun ensure_months :: "(string \<Rightarrow> nat \<Rightarrow> create_error + bool) \<Rightarrow> string list \<Rightarrow> string list \<Rightarrow> string list \<times> db_error option" where
  "ensure_months create [] seen = (seen, None)"
| "ensure_months create (k # ks) seen =
     (if k \<in> set seen then ensure_months create ks seen
      else case createPartition create k of
        Inl e \<Rightarrow> (seen, Some e)
      | Inr _ \<Rightarrow> ensure_months create ks (seen @ [k]))"

definition ensurePartitions ::
  "(string \<Rightarrow> nat \<Rightarrow> create_error + bool) \<Rightarrow> table \<Rightarrow> instant list \<Rightarrow> string list \<Rightarrow> string list \<times> db_error option" where
  "ensurePartitions create t tss seen = ensure_months create (first_keys (map (month_key t) tss) []) seen"

section \<open>The insert\<close>

datatype bulk_stmt = BAcquire | BBegin | BCopy | BRegister | BReject | BTouch | BMerge | BNotify | BCommit

definition greatest :: "instant option \<Rightarrow> instant \<Rightarrow> instant option" where
  "greatest a b = (case a of None \<Rightarrow> Some b | Some x \<Rightarrow> Some (max x b))"

definition batch_latest :: "'r columns \<Rightarrow> 'r list \<Rightarrow> string \<Rightarrow> instant" where
  "batch_latest c rows d = Max (set (map (co_time c) (filter (\<lambda>r. co_device c r = d) rows)))"

definition register_devices :: "table \<Rightarrow> 'r columns \<Rightarrow> 'r list \<Rightarrow> (string \<rightharpoonup> string \<times> instant option) \<Rightarrow> (string \<rightharpoonup> string \<times> instant option)" where
  "register_devices t c rows devs = (\<lambda>d.
     if d \<in> set (map (co_device c) rows)
     then (case devs d of
             None \<Rightarrow> Some (tb_kind t, Some (batch_latest c rows d))
           | Some (k, seen) \<Rightarrow> Some (k, greatest seen (batch_latest c rows d)))
     else devs d)"

definition touch_devices :: "'r columns \<Rightarrow> 'r list \<Rightarrow> (string \<rightharpoonup> string \<times> instant option) \<Rightarrow> (string \<rightharpoonup> string \<times> instant option)" where
  "touch_devices c rows devs = (\<lambda>d.
     if d \<in> set (map (co_device c) rows)
     then map_option (\<lambda>(k, seen). (k, greatest seen (batch_latest c rows d))) (devs d)
     else devs d)"

text \<open>\<^verbatim>\<open>ON CONFLICT DO NOTHING\<close>: the first row of a key wins, whether it is stored or earlier in the batch.\<close>

fun merge_rows :: "'r columns \<Rightarrow> instant \<Rightarrow> 'r list \<Rightarrow> ('r \<times> instant) list \<Rightarrow> ('r \<times> instant) list" where
  "merge_rows c now [] stored = stored"
| "merge_rows c now (r # rs) stored =
     (if row_key c r \<in> set (map (\<lambda>p. row_key c (fst p)) stored) then merge_rows c now rs stored
      else merge_rows c now rs (stored @ [(r, now)]))"

definition stmt :: "(bulk_stmt \<Rightarrow> db_error option) \<Rightarrow> bulk_stmt \<Rightarrow> db_error + 'a \<Rightarrow> db_error + 'a" where
  "stmt fails b x = (case fails b of Some e \<Rightarrow> Inl e | None \<Rightarrow> x)"

text \<open>The devices step: the devices after it, the rows left in the staging table and the number rejected.\<close>

definition devices_step ::
  "bool \<Rightarrow> (bulk_stmt \<Rightarrow> db_error option) \<Rightarrow> table \<Rightarrow> 'r columns \<Rightarrow> 'r list \<Rightarrow> (string \<rightharpoonup> string \<times> instant option)
     \<Rightarrow> db_error + ((string \<rightharpoonup> string \<times> instant option) \<times> 'r list \<times> nat)" where
  "devices_step autoRegister fails t c rows devs =
     (if autoRegister
      then stmt fails BRegister
        (if \<forall>r \<in> set rows. devEUI_ok (co_device c r) then Inr (register_devices t c rows devs, rows, 0)
         else Inl (DbError ''devices_dev_eui_check''))
      else stmt fails BReject
        (let kept = filter (\<lambda>r. devs (co_device c r) \<noteq> None) rows
         in stmt fails BTouch (Inr (touch_devices c kept devs, kept, length rows - length kept))))"

text \<open>The transaction on the state before it; an error leaves that state.\<close>

definition insert_tx ::
  "bool \<Rightarrow> (bulk_stmt \<Rightarrow> db_error option) \<Rightarrow> instant \<Rightarrow> table \<Rightarrow> 'r columns \<Rightarrow> 'r list \<Rightarrow> 'r tstore \<Rightarrow> db_error + ('r tstore \<times> result)" where
  "insert_tx autoRegister fails now t c rows st =
     stmt fails BAcquire (stmt fails BBegin (stmt fails BCopy (
     if \<exists>r \<in> set rows. \<not> (co_fits c r \<and> co_encodes c r) then Inl (DbError ''data_exception'')
     else bind_sum (devices_step autoRegister fails t c (map (co_store c) rows) (ts_devices st)) (\<lambda>(devs, staged, rejected).
     stmt fails BMerge (
       if \<exists>r \<in> set staged. \<not> co_check c r then Inl (DbError ''check_violation'')
       else
       let merged = merge_rows c now staged (ts_rows st);
           accepted = int (length merged) - int (length (ts_rows st));
           res = \<lparr>rs_Accepted = accepted, rs_Duplicates = int (length rows) - accepted - int rejected, rs_Rejected = int rejected\<rparr>;
           note = \<lparr>n_Table = tb_name t, n_N = nat accepted, n_MinTS = Min (set (map (co_time c) rows)), n_MaxTS = Max (set (map (co_time c) rows))\<rparr>;
           st' = st\<lparr>ts_devices := devs, ts_rows := merged\<rparr>
       in if accepted > 0 then stmt fails BNotify (stmt fails BCommit (Inr (st'\<lparr>ts_notes := ts_notes st @ [note]\<rparr>, res)))
          else stmt fails BCommit (Inr (st', res)))))))"

text \<open>\<open>insert\<close> on the store: the months already seen stay known even when the transaction fails.\<close>

definition bulk_insert ::
  "(string \<Rightarrow> nat \<Rightarrow> create_error + bool) \<Rightarrow> bool \<Rightarrow> (bulk_stmt \<Rightarrow> db_error option) \<Rightarrow> instant \<Rightarrow> table \<Rightarrow> 'r columns \<Rightarrow> 'r list \<Rightarrow> 'r tstore
     \<Rightarrow> 'r tstore \<times> (db_error + result)" where
  "bulk_insert create autoRegister fails now t c rows st =
     (if rows = [] then (st, Inr no_result)
      else let (seen, err) = (if tb_partitioned t then ensurePartitions create t (map (co_time c) rows) (ts_months st) else (ts_months st, None));
               st = st\<lparr>ts_months := seen\<rparr>
           in case err of
                Some e \<Rightarrow> (st, Inl e)
              | None \<Rightarrow> (case insert_tx autoRegister fails now t c rows st of
                  Inl e \<Rightarrow> (st, Inl e)
                | Inr (st', res) \<Rightarrow> (st', Inr res)))"

section \<open>Merging\<close>

definition keys_of :: "'r columns \<Rightarrow> ('r \<times> instant) list \<Rightarrow> (string \<times> instant \<times> int) list" where
  "keys_of c stored = map (\<lambda>p. row_key c (fst p)) stored"

lemma merge_rows_spec:
  "\<exists>new. merge_rows c now rows stored = stored @ map (\<lambda>r. (r, now)) new \<and> set new \<subseteq> set rows
     \<and> set (keys_of c (merge_rows c now rows stored)) = set (keys_of c stored) \<union> row_key c ` set rows
     \<and> (distinct (keys_of c stored) \<longrightarrow> distinct (keys_of c (merge_rows c now rows stored)))
     \<and> length new \<le> length rows"
proof (induction rows arbitrary: stored)
  case Nil
  then show ?case by (simp add: exI [of _ "[]"])
next
  case (Cons r rows)
  show ?case
  proof (cases "row_key c r \<in> set (keys_of c stored)")
    case True
    then have "merge_rows c now (r # rows) stored = merge_rows c now rows stored" by (simp add: keys_of_def)
    then show ?thesis using Cons.IH [of stored] True by fastforce
  next
    case False
    then have step: "merge_rows c now (r # rows) stored = merge_rows c now rows (stored @ [(r, now)])" by (simp add: keys_of_def)
    obtain new where new: "merge_rows c now rows (stored @ [(r, now)]) = (stored @ [(r, now)]) @ map (\<lambda>r. (r, now)) new" "set new \<subseteq> set rows"
        "set (keys_of c (merge_rows c now rows (stored @ [(r, now)]))) = set (keys_of c (stored @ [(r, now)])) \<union> row_key c ` set rows"
        "distinct (keys_of c (stored @ [(r, now)])) \<longrightarrow> distinct (keys_of c (merge_rows c now rows (stored @ [(r, now)])))"
        "length new \<le> length rows"
      using Cons.IH by blast
    show ?thesis
      unfolding step using new False by (intro exI [of _ "r # new"]) (auto simp: keys_of_def)
  qed
qed

lemma merge_rows_present: "row_key c ` set rows \<subseteq> set (keys_of c stored) \<Longrightarrow> merge_rows c now rows stored = stored"
  by (induction rows arbitrary: stored) (auto simp: keys_of_def)

section \<open>Outcomes\<close>

definition unknown_dropped :: "bool \<Rightarrow> 'r columns \<Rightarrow> 'r tstore \<Rightarrow> 'r \<Rightarrow> bool" where
  "unknown_dropped autoRegister c st r \<longleftrightarrow> \<not> autoRegister \<and> ts_devices st (co_device c r) = None"

lemma stmt_Inr: "stmt fails b x = Inr y \<longleftrightarrow> fails b = None \<and> x = Inr y"
  by (auto simp: stmt_def split: option.splits)

lemma devices_step_rows:
  assumes "devices_step autoRegister fails t c rows (ts_devices st) = Inr (devs, staged, rejected)"
  shows "set staged = {r \<in> set rows. \<not> unknown_dropped autoRegister c st r} \<and> length staged + rejected = length rows
    \<and> (\<forall>d. ts_devices st d \<noteq> None \<longrightarrow> devs d \<noteq> None)"
  using assms
  by (auto simp: devices_step_def stmt_Inr Let_def unknown_dropped_def register_devices_def touch_devices_def split: if_splits option.splits)

definition added :: "'r columns \<Rightarrow> instant \<Rightarrow> 'r list \<Rightarrow> 'r tstore \<Rightarrow> 'r tstore \<Rightarrow> 'r list \<Rightarrow> bool" where
  "added c now rows st st' new \<longleftrightarrow> ts_rows st' = ts_rows st @ map (\<lambda>r. (r, now)) new \<and> set new \<subseteq> co_store c ` set rows
     \<and> (distinct (keys_of c (ts_rows st)) \<longrightarrow> distinct (keys_of c (ts_rows st')))"

lemma insert_tx_outcome:
  assumes "insert_tx autoRegister fails now t c rows st = Inr (st', res)"
  shows "\<exists>new. added c now rows st st' new \<and> rs_Accepted res = int (length new)
     \<and> rs_Accepted res + rs_Duplicates res + rs_Rejected res = int (length rows) \<and> 0 \<le> rs_Duplicates res \<and> 0 \<le> rs_Rejected res
     \<and> (\<forall>r \<in> set rows. row_key c (co_store c r) \<in> set (keys_of c (ts_rows st')) \<or> unknown_dropped autoRegister c st (co_store c r))
     \<and> (\<forall>d. ts_devices st d \<noteq> None \<longrightarrow> ts_devices st' d \<noteq> None)"
proof -
  obtain devs staged rejected where step: "devices_step autoRegister fails t c (map (co_store c) rows) (ts_devices st) = Inr (devs, staged, rejected)"
    and run: "ts_rows st' = merge_rows c now staged (ts_rows st)" "ts_devices st' = devs"
      "rs_Accepted res = int (length (ts_rows st')) - int (length (ts_rows st))" "rs_Rejected res = int rejected"
      "rs_Duplicates res = int (length rows) - rs_Accepted res - int rejected"
    using assms by (auto simp: insert_tx_def stmt_Inr bind_sum_Inr_iff Let_def split: if_splits)
  obtain new where new: "ts_rows st' = ts_rows st @ map (\<lambda>r. (r, now)) new" "set new \<subseteq> set staged"
      "set (keys_of c (ts_rows st')) = set (keys_of c (ts_rows st)) \<union> row_key c ` set staged"
      "distinct (keys_of c (ts_rows st)) \<longrightarrow> distinct (keys_of c (ts_rows st'))" "length new \<le> length staged"
    using merge_rows_spec [of c now staged "ts_rows st"] unfolding run(1) by blast
  note rows = devices_step_rows [OF step]
  show ?thesis
    using new rows run by (intro exI [of _ new]) (auto simp: added_def)
qed

lemma bulk_insert_effect:
  assumes "bulk_insert create autoRegister fails now t c rows st = (st', r)"
  shows "case r of
      Inl e \<Rightarrow> ts_rows st' = ts_rows st \<and> ts_devices st' = ts_devices st \<and> ts_notes st' = ts_notes st
    | Inr res \<Rightarrow> (\<exists>new. added c now rows st st' new \<and> rs_Accepted res = int (length new))
        \<and> rs_Accepted res + rs_Duplicates res + rs_Rejected res = int (length rows) \<and> 0 \<le> rs_Duplicates res \<and> 0 \<le> rs_Rejected res
        \<and> (\<forall>x \<in> set rows. row_key c (co_store c x) \<in> set (keys_of c (ts_rows st')) \<or> unknown_dropped autoRegister c st (co_store c x))"
proof (cases "rows = []")
  case True
  then show ?thesis using assms by (auto simp: bulk_insert_def no_result_def added_def)
next
  case False
  then obtain seen err where ens: "(if tb_partitioned t then ensurePartitions create t (map (co_time c) rows) (ts_months st) else (ts_months st, None)) = (seen, err)"
    by fastforce
  let ?st = "st\<lparr>ts_months := seen\<rparr>"
  show ?thesis
  proof (cases "err = None \<and> (\<exists>x. insert_tx autoRegister fails now t c rows ?st = Inr x)")
    case True
    then obtain st'' res where tx: "insert_tx autoRegister fails now t c rows ?st = Inr (st'', res)" by auto
    then have "st' = st''" "r = Inr res" using assms False ens True by (auto simp: bulk_insert_def Let_def)
    then show ?thesis using insert_tx_outcome [OF tx] by (auto simp: added_def unknown_dropped_def)
  next
    case fails: False
    then have "st' = ?st \<and> (\<exists>e. r = Inl e)"
      using assms False ens by (auto simp: bulk_insert_def Let_def split: option.splits sum.splits)
    then show ?thesis by auto
  qed
qed

text \<open>
  C7: A batch is stored at most once and accounted for in full. A failed insert leaves rows, devices and
  notifications as they were; a successful one keeps every stored row, adds exactly the accepted ones with
  the time of the transaction, leaves the primary keys distinct, has every row of the batch stored under
  its key unless its sender is unknown and registration is off, and its three counts add up to the batch.
\<close>

theorem bulk_insert_outcome:
  assumes "bulk_insert create autoRegister fails now t c rows st = (st', r)" and "distinct (keys_of c (ts_rows st))"
  shows "case r of
      Inl e \<Rightarrow> ts_rows st' = ts_rows st \<and> ts_devices st' = ts_devices st \<and> ts_notes st' = ts_notes st
    | Inr res \<Rightarrow> (\<exists>new. ts_rows st' = ts_rows st @ map (\<lambda>r. (r, now)) new \<and> set new \<subseteq> co_store c ` set rows \<and> rs_Accepted res = int (length new))
        \<and> distinct (keys_of c (ts_rows st'))
        \<and> rs_Accepted res + rs_Duplicates res + rs_Rejected res = int (length rows) \<and> 0 \<le> rs_Duplicates res \<and> 0 \<le> rs_Rejected res
        \<and> (\<forall>x \<in> set rows. row_key c (co_store c x) \<in> set (keys_of c (ts_rows st')) \<or> unknown_dropped autoRegister c st (co_store c x))"
  using bulk_insert_effect [OF assms(1)] assms(2) by (cases r) (auto simp: added_def)

lemma devices_step_unknown:
  "devices_step False fails t c rows devs = Inr (devs', staged, rejected) \<Longrightarrow> devs' d = None \<longleftrightarrow> devs d = None"
  by (auto simp: devices_step_def stmt_Inr Let_def touch_devices_def split: if_splits)

lemma insert_tx_unknown: "insert_tx False fails now t c rows st = Inr (st', res) \<Longrightarrow> ts_devices st' d = None \<longleftrightarrow> ts_devices st d = None"
  by (auto simp: insert_tx_def stmt_Inr bind_sum_Inr_iff Let_def devices_step_unknown split: if_splits)

text \<open>Rows and devices are only ever added, and no device is added with registration off.\<close>

lemma bulk_insert_keeps:
  assumes "bulk_insert create autoRegister fails now t c rows st = (st', r)"
  shows "set (ts_rows st) \<subseteq> set (ts_rows st') \<and> (\<forall>d. ts_devices st d \<noteq> None \<longrightarrow> ts_devices st' d \<noteq> None)
    \<and> (\<not> autoRegister \<longrightarrow> (\<forall>d. ts_devices st' d = None \<longleftrightarrow> ts_devices st d = None))"
proof (cases "rows = []")
  case True
  then show ?thesis using assms by (simp add: bulk_insert_def)
next
  case False
  obtain seen err where ens: "(if tb_partitioned t then ensurePartitions create t (map (co_time c) rows) (ts_months st) else (ts_months st, None)) = (seen, err)"
    by fastforce
  show ?thesis
  proof (cases "\<exists>st'' res. err = None \<and> insert_tx autoRegister fails now t c rows (st\<lparr>ts_months := seen\<rparr>) = Inr (st'', res)")
    case True
    then obtain st'' res where tx: "err = None" "insert_tx autoRegister fails now t c rows (st\<lparr>ts_months := seen\<rparr>) = Inr (st'', res)" by blast
    then have "st' = st''" using assms False ens by (auto simp: bulk_insert_def Let_def)
    then show ?thesis using insert_tx_outcome [OF tx(2)] insert_tx_unknown [of fails now t c rows "st\<lparr>ts_months := seen\<rparr>" st'' res] tx(2)
      by (cases autoRegister) (auto simp: added_def)
  next
    case fails: False
    then have "st' = st\<lparr>ts_months := seen\<rparr>"
      using assms False ens by (auto simp: bulk_insert_def Let_def split: option.splits sum.splits)
    then show ?thesis by simp
  qed
qed

lemma ensure_months_ok: "ensure_months create ks seen = (seen', None) \<Longrightarrow> set ks \<union> set seen \<subseteq> set seen'"
  by (induction ks arbitrary: seen) (auto split: if_splits sum.splits, fastforce+)

lemma ensure_months_known: "set ks \<subseteq> set seen \<Longrightarrow> ensure_months create ks seen = (seen, None)"
  by (induction ks) auto

lemma devices_step_again:
  assumes "devices_step autoRegister fails t c rows devs = Inr (devs', staged, rejected)"
  shows "\<exists>devs''. devices_step autoRegister (\<lambda>_. None) t c rows devs' = Inr (devs'', staged, rejected)"
proof (cases autoRegister)
  case True
  then show ?thesis using assms by (auto simp: devices_step_def stmt_def split: if_splits option.splits)
next
  case False
  then have "devs' = touch_devices c staged devs" "staged = filter (\<lambda>r. devs (co_device c r) \<noteq> None) rows" "rejected = length rows - length staged"
    using assms by (auto simp: devices_step_def stmt_Inr Let_def)
  moreover from this have "filter (\<lambda>r. devs' (co_device c r) \<noteq> None) rows = staged"
    by (auto simp: touch_devices_def intro!: filter_cong)
  ultimately show ?thesis using False by (simp add: devices_step_def stmt_def Let_def)
qed

lemma insert_tx_again:
  assumes "insert_tx autoRegister fails now t c rows st = Inr (st', res)" and "ts_rows st2 = ts_rows st'" "ts_devices st2 = ts_devices st'"
  shows "\<exists>st'' res'. insert_tx autoRegister (\<lambda>_. None) later t c rows st2 = Inr (st'', res') \<and> rs_Accepted res' = 0
    \<and> rs_Rejected res' = rs_Rejected res \<and> rs_Duplicates res' = int (length rows) - rs_Rejected res
    \<and> ts_rows st'' = ts_rows st2 \<and> ts_notes st'' = ts_notes st2"
proof -
  obtain devs staged rejected where step: "devices_step autoRegister fails t c (map (co_store c) rows) (ts_devices st) = Inr (devs, staged, rejected)"
    and run: "ts_rows st' = merge_rows c now staged (ts_rows st)" "ts_devices st' = devs" "rs_Rejected res = int rejected" "\<forall>r \<in> set staged. co_check c r" "\<forall>r \<in> set rows. co_fits c r \<and> co_encodes c r"
    using assms by (auto simp: insert_tx_def stmt_Inr bind_sum_Inr_iff Let_def split: if_splits)
  obtain devs' where again: "devices_step autoRegister (\<lambda>_. None) t c (map (co_store c) rows) devs = Inr (devs', staged, rejected)"
    using devices_step_again [OF step] by blast
  have "row_key c ` set staged \<subseteq> set (keys_of c (ts_rows st'))"
    using merge_rows_spec [of c now staged "ts_rows st"] unfolding run(1) by auto
  then have "merge_rows c later staged (ts_rows st2) = ts_rows st2" using merge_rows_present assms(2) by metis
  then show ?thesis using again run assms(2,3) by (simp add: insert_tx_def stmt_def Let_def)
qed

text \<open>
  Redelivery stores nothing twice. Inserting a batch again after it was stored succeeds with no accepted
  row, leaves the rows and the notifications as they are, and rejects the same rows as before.
\<close>

theorem bulk_insert_redelivery:
  assumes "bulk_insert create autoRegister fails now t c rows st = (st', Inr res)" and "rows \<noteq> []"
  shows "\<exists>st'' res'. bulk_insert create autoRegister (\<lambda>_. None) later t c rows st' = (st'', Inr res') \<and> rs_Accepted res' = 0
    \<and> ts_rows st'' = ts_rows st' \<and> ts_notes st'' = ts_notes st' \<and> rs_Rejected res' = rs_Rejected res"
proof -
  obtain seen err where ens: "(if tb_partitioned t then ensurePartitions create t (map (co_time c) rows) (ts_months st) else (ts_months st, None)) = (seen, err)"
    by fastforce
  have tx: "insert_tx autoRegister fails now t c rows (st\<lparr>ts_months := seen\<rparr>) = Inr (st', res)" and err: "err = None"
    using assms ens by (auto simp: bulk_insert_def Let_def split: option.splits sum.splits)
  then have months: "ts_months st' = seen"
    by (auto simp: insert_tx_def stmt_Inr bind_sum_Inr_iff Let_def split: if_splits)
  have "(if tb_partitioned t then ensurePartitions create t (map (co_time c) rows) seen else (seen, None)) = (seen, None)"
  proof (cases "tb_partitioned t")
    case True
    then have "set (first_keys (map (month_key t) (map (co_time c) rows)) []) \<subseteq> set seen"
      using ens err ensure_months_ok by (metis (full_types) Un_subset_iff ensurePartitions_def)
    then show ?thesis using True by (simp add: ensurePartitions_def ensure_months_known del: first_keys_set)
  qed simp
  moreover have "st'\<lparr>ts_months := seen\<rparr> = st'" using months by simp
  ultimately show ?thesis
    using insert_tx_again [OF tx, of st' later] assms(2) months by (auto simp: bulk_insert_def Let_def)
qed

section \<open>Integrity\<close>

text \<open>
  The constraints the database keeps: distinct primary keys, the checks of the table, the reference of a row
  to its device, and the form of a device's name.
\<close>

definition tstore_ok :: "'r columns \<Rightarrow> 'r tstore \<Rightarrow> bool" where
  "tstore_ok c st \<longleftrightarrow> distinct (keys_of c (ts_rows st))
     \<and> (\<forall>p \<in> set (ts_rows st). co_check c (fst p) \<and> ts_devices st (co_device c (fst p)) \<noteq> None)
     \<and> (\<forall>d. ts_devices st d \<noteq> None \<longrightarrow> devEUI_ok d)"

lemma devices_step_ok:
  assumes "devices_step autoRegister fails t c rows devs = Inr (devs', staged, rejected)"
  shows "(\<forall>r \<in> set staged. devs' (co_device c r) \<noteq> None)
    \<and> ((\<forall>d. devs d \<noteq> None \<longrightarrow> devEUI_ok d) \<longrightarrow> (\<forall>d. devs' d \<noteq> None \<longrightarrow> devEUI_ok d))
    \<and> (\<forall>d. devs d \<noteq> None \<longrightarrow> devs' d \<noteq> None)"
proof (cases autoRegister)
  case True
  then have "devs' = register_devices t c rows devs" "staged = rows" "\<forall>r \<in> set rows. devEUI_ok (co_device c r)"
    using assms by (auto simp: devices_step_def stmt_Inr split: if_splits)
  then show ?thesis by (auto simp: register_devices_def split: if_splits option.splits)
next
  case False
  then have "devs' = touch_devices c staged devs" "staged = filter (\<lambda>r. devs (co_device c r) \<noteq> None) rows"
    using assms by (auto simp: devices_step_def stmt_Inr Let_def)
  then show ?thesis by (auto simp: touch_devices_def split: if_splits)
qed

lemma insert_tx_ok:
  assumes "insert_tx autoRegister fails now t c rows st = Inr (st', res)" and "tstore_ok c st"
  shows "tstore_ok c st'"
proof -
  obtain devs staged rejected where step: "devices_step autoRegister fails t c (map (co_store c) rows) (ts_devices st) = Inr (devs, staged, rejected)"
    and run: "ts_rows st' = merge_rows c now staged (ts_rows st)" "ts_devices st' = devs" "\<forall>r \<in> set staged. co_check c r"
    using assms(1) by (auto simp: insert_tx_def stmt_Inr bind_sum_Inr_iff Let_def split: if_splits)
  obtain new where new: "ts_rows st' = ts_rows st @ map (\<lambda>r. (r, now)) new" "set new \<subseteq> set staged"
      "distinct (keys_of c (ts_rows st)) \<longrightarrow> distinct (keys_of c (ts_rows st'))"
    using merge_rows_spec [of c now staged "ts_rows st"] unfolding run(1) by blast
  show ?thesis
    unfolding tstore_ok_def
  proof (intro conjI)
    show "distinct (keys_of c (ts_rows st'))" using new(3) assms(2) by (simp add: tstore_ok_def)
    show "\<forall>p \<in> set (ts_rows st'). co_check c (fst p) \<and> ts_devices st' (co_device c (fst p)) \<noteq> None"
    proof
      fix p assume "p \<in> set (ts_rows st')"
      then consider "p \<in> set (ts_rows st)" | "fst p \<in> set staged" using new(1,2) by auto
      then show "co_check c (fst p) \<and> ts_devices st' (co_device c (fst p)) \<noteq> None"
      proof cases
        case 1
        then show ?thesis using assms(2) devices_step_ok [OF step] run(2) unfolding tstore_ok_def by blast
      next
        case 2
        then show ?thesis using devices_step_ok [OF step] run(2,3) by blast
      qed
    qed
    show "\<forall>d. ts_devices st' d \<noteq> None \<longrightarrow> devEUI_ok d"
      using assms(2) devices_step_ok [OF step] run(2) unfolding tstore_ok_def by blast
  qed
qed

lemma tstore_ok_months [simp]: "tstore_ok c (st\<lparr>ts_months := m\<rparr>) = tstore_ok c st"
  by (simp add: tstore_ok_def)

lemma bulk_insert_ok:
  assumes "bulk_insert create autoRegister fails now t c rows st = (st', r)" and "tstore_ok c st"
  shows "tstore_ok c st'"
proof (cases "rows = []")
  case True
  then show ?thesis using assms by (simp add: bulk_insert_def)
next
  case False
  obtain seen err where ens: "(if tb_partitioned t then ensurePartitions create t (map (co_time c) rows) (ts_months st) else (ts_months st, None)) = (seen, err)"
    by fastforce
  show ?thesis
  proof (cases "\<exists>st'' res. err = None \<and> insert_tx autoRegister fails now t c rows (st\<lparr>ts_months := seen\<rparr>) = Inr (st'', res)")
    case True
    then obtain st'' res where tx: "err = None" "insert_tx autoRegister fails now t c rows (st\<lparr>ts_months := seen\<rparr>) = Inr (st'', res)" by blast
    then have "st' = st''" using assms(1) False ens by (auto simp: bulk_insert_def Let_def)
    then show ?thesis using insert_tx_ok [OF tx(2)] assms(2) by simp
  next
    case fails: False
    then have "st' = st\<lparr>ts_months := seen\<rparr>"
      using assms(1) False ens by (auto simp: bulk_insert_def Let_def split: option.splits sum.splits)
    then show ?thesis using assms(2) by simp
  qed
qed

text \<open>With no fault, rows that fit and pass the checks of their table are always stored.\<close>

lemma ensure_months_total:
  "(\<And>k n. \<exists>b. create k n = Inr b) \<Longrightarrow> snd (ensure_months create ks seen) = None"
proof (induction ks arbitrary: seen)
  case (Cons k ks)
  then obtain b where "create k 0 = Inr b" by blast
  then show ?case using Cons by (simp add: createPartition_def)
qed simp

lemma bulk_insert_succeeds:
  assumes create: "\<And>k n. \<exists>b. create k n = Inr b"
    and rows: "\<forall>r \<in> set rows. co_fits c r \<and> co_encodes c r \<and> co_check c (co_store c r) \<and> devEUI_ok (co_device c (co_store c r))"
  shows "\<exists>st' res. bulk_insert create autoRegister (\<lambda>_. None) now t c rows st = (st', Inr res)"
proof -
  have "snd (ensurePartitions create t (map (co_time c) rows) (ts_months st)) = None"
    unfolding ensurePartitions_def by (rule ensure_months_total [OF create])
  then obtain seen where ens: "(if tb_partitioned t then ensurePartitions create t (map (co_time c) rows) (ts_months st) else (ts_months st, None)) = (seen, None)"
    by (metis (full_types) prod.collapse)
  obtain devs staged rejected where step:
      "devices_step autoRegister (\<lambda>_. None) t c (map (co_store c) rows) (ts_devices st) = Inr (devs, staged, rejected)"
      "set staged \<subseteq> co_store c ` set rows"
    using rows by (cases autoRegister) (auto simp: devices_step_def stmt_def Let_def)
  then have "\<exists>x. insert_tx autoRegister (\<lambda>_. None) now t c rows (st\<lparr>ts_months := seen\<rparr>) = Inr x"
    using rows by (auto simp: insert_tx_def stmt_def Let_def)
  then show ?thesis using ens by (auto simp: bulk_insert_def no_result_def Let_def)
qed

text \<open>One row the columns cannot hold fails the whole batch, whatever the database does.\<close>

lemma bulk_insert_encodes:
  assumes "bulk_insert create autoRegister fails now t c rows st = (st', Inr res)" and "r \<in> set rows"
  shows "co_fits c r \<and> co_encodes c r"
  using assms
  by (auto simp: bulk_insert_def insert_tx_def stmt_Inr Let_def split: prod.splits option.splits sum.splits if_splits)

section \<open>An example\<close>

text \<open>Rows that are just their key, in a table without partitions.\<close>

definition demo_cols :: "(string \<times> int \<times> int) columns" where
  "demo_cols = \<lparr>co_device = fst, co_time = (\<lambda>r. fst (snd r)), co_fcnt = (\<lambda>r. snd (snd r)), co_store = (\<lambda>r. (fst r, db_time (fst (snd r)), snd (snd r))),
     co_fits = (\<lambda>_. True), co_encodes = (\<lambda>_. True), co_check = (\<lambda>_. True)\<rparr>"

definition demo_dev :: string where "demo_dev = ''70b3d57ed0000001''"

definition demo_keys :: "(string \<times> int \<times> int) list" where
  "demo_keys = [(demo_dev, 5000, 1), (demo_dev, 5001, 1), (''00000000000000ff'', 7000, 2)]"

definition demo_ts :: "(string \<times> int \<times> int) tstore" where
  "demo_ts = \<lparr>ts_devices = [demo_dev \<mapsto> (''house'', None)], ts_rows = [((demo_dev, 1000, 0), 900)], ts_notes = [], ts_months = []\<rparr>"

definition demo_ts' :: "(string \<times> int \<times> int) tstore" where
  "demo_ts' = \<lparr>ts_devices = [demo_dev \<mapsto> (''house'', Some 5000)], ts_rows = [((demo_dev, 1000, 0), 900), ((demo_dev, 5000, 1), 9000)],
     ts_notes = [\<lparr>n_Table = ''storm_summaries'', n_N = 1, n_MinTS = 5000, n_MaxTS = 7000\<rparr>], ts_months = []\<rparr>"

lemma demo_insert:
  "bulk_insert (\<lambda>_ _. Inr True) False (\<lambda>_. None) 9000 tStormSummaries demo_cols demo_keys demo_ts =
     (demo_ts', Inr \<lparr>rs_Accepted = 1, rs_Duplicates = 1, rs_Rejected = 1\<rparr>)"
  by (simp add: bulk_insert_def insert_tx_def devices_step_def stmt_def demo_ts_def demo_ts'_def demo_keys_def demo_cols_def demo_dev_def tStormSummaries_def
    touch_devices_def batch_latest_def greatest_def db_time_def row_key_def fun_eq_iff Let_def)

theorem bulk_insert_outcome_witness:
  "distinct (keys_of demo_cols (ts_rows demo_ts'))
   \<and> (row_key demo_cols (co_store demo_cols (demo_dev, 5001, 1)) \<in> set (keys_of demo_cols (ts_rows demo_ts'))
        \<or> unknown_dropped False demo_cols demo_ts (co_store demo_cols (demo_dev, 5001, 1)))"
  using bulk_insert_outcome [OF demo_insert]
  by (simp add: demo_ts_def keys_of_def demo_keys_def)

theorem bulk_insert_redelivery_witness:
  "\<exists>st'' res'. bulk_insert (\<lambda>_ _. Inr True) False (\<lambda>_. None) 9999 tStormSummaries demo_cols demo_keys demo_ts' = (st'', Inr res')
     \<and> rs_Accepted res' = 0 \<and> ts_rows st'' = ts_rows demo_ts' \<and> ts_notes st'' = ts_notes demo_ts' \<and> rs_Rejected res' = 1"
  using bulk_insert_redelivery [OF demo_insert, of 9999] by (simp add: demo_keys_def)

end
