(* ===== verification/Ingest.thy ===== *)
theory Ingest
  imports Bulk_Store Go_Strings Notify
begin

text \<open>
  The ingest service: validation and conversion of \<^verbatim>\<open>telemetry.v1\<close> messages into store rows
  (\<^verbatim>\<open>internal/ingest/convert.go\<close>, \<^verbatim>\<open>internal/store/rows.go\<close>), the five inserts of \<^verbatim>\<open>internal/store/bulk.go\<close> on
  one database, and the batching streams of \<^verbatim>\<open>internal/ingest/server.go\<close>.
\<close>

section \<open>Messages\<close>

text \<open>Protobuf messages: an absent submessage is \<open>None\<close>, an enum is its open integer.\<close>

record uplink_meta =
  um_DevEui :: string
  um_FCnt :: uint32
  um_ReceivedAt :: "instant option"
  um_DeduplicationId :: string
  um_RssiDbm :: int
  um_SnrDb :: real
  um_SpreadingFactor :: uint32
  um_GatewayId :: string

record pb_flags =
  fl_MainsOk :: bool
  fl_FloatHigh :: bool
  fl_BackupRan :: bool
  fl_SensorFault :: bool

record pb_reading =
  pr_Meta :: "uplink_meta option"
  pr_Ts :: "instant option"
  pr_LevelMm :: uint32
  pr_TempC :: real
  pr_RhPct :: uint32
  pr_BattMv :: uint32
  pr_CyclesSinceLast :: uint32
  pr_Flags :: "pb_flags option"

definition PUMP_ID_PRIMARY :: int where "PUMP_ID_PRIMARY = 1"
definition PUMP_ID_BACKUP :: int where "PUMP_ID_BACKUP = 2"

record pb_cycle =
  pc_Meta :: "uplink_meta option"
  pc_StartedAt :: "instant option"
  pc_RunS :: uint32
  pc_PeakCurrentA :: real
  pc_LevelStartMm :: uint32
  pc_LevelEndMm :: uint32
  pc_PumpId :: int

record pb_alarm =
  pa_Meta :: "uplink_meta option"
  pa_RaisedAt :: "instant option"
  pa_Code :: int
  pa_Value :: uint32

record pb_summary =
  ps_Meta :: "uplink_meta option"
  ps_WindowEnd :: "instant option"
  ps_WindowS :: uint32
  ps_Count :: uint32
  ps_TotalRunS :: uint32
  ps_MaxPeakCurrentA :: real
  ps_MinLevelMm :: uint32

record pb_rain =
  pg_Meta :: "uplink_meta option"
  pg_Ts :: "instant option"
  pg_TipCount :: uint32
  pg_MmPerTip :: real
  pg_IntervalS :: uint32
  pg_BattMv :: uint32
  pg_CounterReset :: bool
  pg_SensorFault :: bool

section \<open>Store rows\<close>

record reading_in =
  ri_DeviceID :: string
  ri_TS :: instant
  ri_FCnt :: int
  ri_LevelMM :: int
  ri_TempC :: real
  ri_RHPct :: int
  ri_BattMV :: int
  ri_CyclesSinceLast :: int
  ri_MainsOK :: bool
  ri_FloatHigh :: bool
  ri_BackupRan :: bool
  ri_SensorFault :: bool
  ri_Meta :: meta

record cycle_in =
  ci_DeviceID :: string
  ci_StartedAt :: instant
  ci_FCnt :: int
  ci_ReceivedAt :: instant
  ci_RunS :: int
  ci_PeakCurrentA :: real
  ci_LevelStartMM :: int
  ci_LevelEndMM :: int
  ci_PumpID :: string
  ci_Meta :: meta

record summary_in =
  si_DeviceID :: string
  si_WindowEnd :: instant
  si_FCnt :: int
  si_WindowS :: int
  si_CycleCount :: int
  si_TotalRunS :: int
  si_MaxPeakCurrentA :: real
  si_MinLevelMM :: int
  si_Meta :: meta

record alarm_in =
  ai_DeviceID :: string
  ai_RaisedAt :: instant
  ai_FCnt :: int
  ai_Code :: int
  ai_Value :: int
  ai_Meta :: meta

record gauge_in =
  gi_DeviceID :: string
  gi_TS :: instant
  gi_FCnt :: int
  gi_TipCount :: int
  gi_MMPerTip :: real
  gi_IntervalS :: int
  gi_BattMV :: int
  gi_CounterReset :: bool
  gi_SensorFault :: bool
  gi_Meta :: meta

section \<open>Validation\<close>

datatype reject = RejNoMeta | RejDevEUI | RejNoTime | RejFuture | RejBadPump | RejBadCode | RejBadValue

record ingest_config =
  ig_BatchMax :: nat
  ig_BatchDelay :: duration
  ig_QueueBatches :: nat
  ig_MaxFuture :: duration

definition ingest_DefaultConfig :: ingest_config where
  "ingest_DefaultConfig = \<lparr>ig_BatchMax = 500, ig_BatchDelay = 250 * millisecond, ig_QueueBatches = 2, ig_MaxFuture = hour\<rparr>"

text \<open>The server's clock reading, its configuration, and the UUID parser it calls.\<close>

record ingest_server =
  is_now :: instant
  is_cfg :: ingest_config
  is_parse_uuid :: "string \<Rightarrow> uuid option"

definition clamp :: "int \<Rightarrow> int \<Rightarrow> int \<Rightarrow> int" where
  "clamp v lo hi = max lo (min hi v)"

text \<open>The cap is taken on the unsigned value, then the bits are read at the signed width.\<close>

definition i32 :: "uint32 \<Rightarrow> int" where
  "i32 v = sint (min (push_bit 31 1 - 1) v)"

definition i16 :: "uint32 \<Rightarrow> int" where
  "i16 v = sint (ucast (min (push_bit 15 1 - 1) v) :: 16 word)"

definition too_far :: "ingest_server \<Rightarrow> instant \<Rightarrow> bool" where
  "too_far s t \<longleftrightarrow> t > is_now s + ig_MaxFuture (is_cfg s)"

definition metaOf :: "ingest_server \<Rightarrow> uplink_meta option \<Rightarrow> reject + (string \<times> instant \<times> meta)" where
  "metaOf s mo =
     (case mo of
        None \<Rightarrow> Inl RejNoMeta
      | Some m \<Rightarrow>
          (let devEUI = map to_lower (um_DevEui m) in
           if \<not> devEUI_ok devEUI then Inl RejDevEUI
           else case um_ReceivedAt m of
             None \<Rightarrow> Inl RejNoTime
           | Some received \<Rightarrow>
               if too_far s received then Inl RejFuture
               else let gw = (um_GatewayId m \<noteq> '''') in
                 Inr (devEUI, received,
                   \<lparr>m_RSSIDBm = (if gw then Some (clamp (um_RssiDbm m) (- 32768) 32767) else None),
                    m_SNRDb = (if gw then Some (um_SnrDb m) else None),
                    m_SF = (if um_SpreadingFactor m \<noteq> 0 then Some (clamp (uint (um_SpreadingFactor m)) 0 12) else None),
                    m_GatewayID = (if gw then Some (um_GatewayId m) else None),
                    m_DedupID = is_parse_uuid s (um_DeduplicationId m)\<rparr>)))"

definition get_FCnt :: "uplink_meta option \<Rightarrow> int" where
  "get_FCnt mo = (case mo of None \<Rightarrow> 0 | Some m \<Rightarrow> uint (um_FCnt m))"

definition get_flag :: "(pb_flags \<Rightarrow> bool) \<Rightarrow> pb_flags option \<Rightarrow> bool" where
  "get_flag f fo = (case fo of None \<Rightarrow> False | Some x \<Rightarrow> f x)"

definition readingRow :: "ingest_server \<Rightarrow> pb_reading \<Rightarrow> reject + reading_in" where
  "readingRow s r =
     bind_sum (metaOf s (pr_Meta r)) (\<lambda>(dev, received, meta).
     if (case pr_Ts r of Some t \<Rightarrow> too_far s t | None \<Rightarrow> False) then Inl RejFuture
     else Inr \<lparr>ri_DeviceID = dev, ri_TS = (case pr_Ts r of Some t \<Rightarrow> t | None \<Rightarrow> received), ri_FCnt = get_FCnt (pr_Meta r),
       ri_LevelMM = i32 (pr_LevelMm r), ri_TempC = pr_TempC r, ri_RHPct = i16 (pr_RhPct r),
       ri_BattMV = i32 (pr_BattMv r), ri_CyclesSinceLast = i16 (pr_CyclesSinceLast r),
       ri_MainsOK = get_flag fl_MainsOk (pr_Flags r), ri_FloatHigh = get_flag fl_FloatHigh (pr_Flags r),
       ri_BackupRan = get_flag fl_BackupRan (pr_Flags r), ri_SensorFault = get_flag fl_SensorFault (pr_Flags r),
       ri_Meta = meta\<rparr>)"

definition cycleRow :: "ingest_server \<Rightarrow> pb_cycle \<Rightarrow> reject + cycle_in" where
  "cycleRow s c =
     bind_sum (metaOf s (pc_Meta c)) (\<lambda>(dev, received, meta).
     case pc_StartedAt c of
       None \<Rightarrow> Inl RejNoTime
     | Some started \<Rightarrow>
         if pc_PumpId c \<noteq> PUMP_ID_PRIMARY \<and> pc_PumpId c \<noteq> PUMP_ID_BACKUP then Inl RejBadPump
         else if pc_PeakCurrentA c < 0 then Inl RejBadValue
         else Inr \<lparr>ci_DeviceID = dev, ci_StartedAt = started, ci_FCnt = get_FCnt (pc_Meta c), ci_ReceivedAt = received,
           ci_RunS = i32 (pc_RunS c), ci_PeakCurrentA = pc_PeakCurrentA c,
           ci_LevelStartMM = i32 (pc_LevelStartMm c), ci_LevelEndMM = i32 (pc_LevelEndMm c),
           ci_PumpID = (if pc_PumpId c = PUMP_ID_PRIMARY then ''primary'' else ''backup''), ci_Meta = meta\<rparr>)"

definition summaryRow :: "ingest_server \<Rightarrow> pb_summary \<Rightarrow> reject + summary_in" where
  "summaryRow s x =
     bind_sum (metaOf s (ps_Meta x)) (\<lambda>(dev, received, meta).
     Inr \<lparr>si_DeviceID = dev, si_WindowEnd = (case ps_WindowEnd x of Some t \<Rightarrow> t | None \<Rightarrow> received), si_FCnt = get_FCnt (ps_Meta x),
       si_WindowS = i32 (ps_WindowS x), si_CycleCount = i32 (ps_Count x), si_TotalRunS = i32 (ps_TotalRunS x),
       si_MaxPeakCurrentA = ps_MaxPeakCurrentA x, si_MinLevelMM = i32 (ps_MinLevelMm x), si_Meta = meta\<rparr>)"

definition alarmRow :: "ingest_server \<Rightarrow> pb_alarm \<Rightarrow> reject + alarm_in" where
  "alarmRow s a =
     bind_sum (metaOf s (pa_Meta a)) (\<lambda>(dev, received, meta).
     if pa_Code a < 1 \<or> pa_Code a > 5 then Inl RejBadCode
     else Inr \<lparr>ai_DeviceID = dev, ai_RaisedAt = (case pa_RaisedAt a of Some t \<Rightarrow> t | None \<Rightarrow> received), ai_FCnt = get_FCnt (pa_Meta a),
       ai_Code = pa_Code a, ai_Value = i32 (pa_Value a), ai_Meta = meta\<rparr>)"

definition maxMMPerTip :: real where "maxMMPerTip = 999.999"

definition rainGaugeRow :: "ingest_server \<Rightarrow> pb_rain \<Rightarrow> reject + gauge_in" where
  "rainGaugeRow s r =
     bind_sum (metaOf s (pg_Meta r)) (\<lambda>(dev, received, meta).
     if (case pg_Ts r of Some t \<Rightarrow> too_far s t | None \<Rightarrow> False) then Inl RejFuture
     else if \<not> pg_MmPerTip r > 0 \<or> pg_MmPerTip r > maxMMPerTip then Inl RejBadValue
     else Inr \<lparr>gi_DeviceID = dev, gi_TS = (case pg_Ts r of Some t \<Rightarrow> t | None \<Rightarrow> received), gi_FCnt = get_FCnt (pg_Meta r),
       gi_TipCount = uint (pg_TipCount r), gi_MMPerTip = pg_MmPerTip r, gi_IntervalS = i32 (pg_IntervalS r),
       gi_BattMV = i32 (pg_BattMv r), gi_CounterReset = pg_CounterReset r, gi_SensorFault = pg_SensorFault r, gi_Meta = meta\<rparr>)"

section \<open>Tables\<close>

text \<open>
  The columns of the five tables (\<^verbatim>\<open>migrations/0001_base.up.sql\<close>, \<^verbatim>\<open>migrations/0005_rain_gauges.up.sql\<close>): the values
  of a row in the order of the column lists of \<^verbatim>\<open>rows.go\<close>, the ranges of \<^verbatim>\<open>integer\<close>, \<^verbatim>\<open>smallint\<close> and \<^verbatim>\<open>bigint\<close>, the
  enum of pump kinds, and the table checks. A \<^verbatim>\<open>numeric(6,3)\<close> is rounded to three decimals.
\<close>

definition int2 :: "int \<Rightarrow> bool" where "int2 v \<longleftrightarrow> - 32768 \<le> v \<and> v \<le> 32767"
definition int4 :: "int \<Rightarrow> bool" where "int4 v \<longleftrightarrow> - 2147483648 \<le> v \<and> v \<le> 2147483647"
definition int8 :: "int \<Rightarrow> bool" where "int8 v \<longleftrightarrow> - (2 ^ 63) \<le> v \<and> v < 2 ^ 63"

definition numeric_6_3 :: "real \<Rightarrow> real" where
  "numeric_6_3 x = math_round (x * 1000) / 1000"

definition meta_fits :: "meta \<Rightarrow> bool" where
  "meta_fits m \<longleftrightarrow> pred_option int2 (m_RSSIDBm m) \<and> pred_option int2 (m_SF m)"

text \<open>The instants and the gateway's name, as the columns can hold them.\<close>

definition meta_encodes :: "meta \<Rightarrow> bool" where
  "meta_encodes m \<longleftrightarrow> pred_option pg_text (m_GatewayID m)"

definition readingCols :: "reading_in columns" where
  "readingCols = \<lparr>co_device = ri_DeviceID, co_time = ri_TS, co_fcnt = ri_FCnt, co_store = (\<lambda>r. r\<lparr>ri_TS := db_time (ri_TS r)\<rparr>),
     co_fits = (\<lambda>r. int8 (ri_FCnt r) \<and> int4 (ri_LevelMM r) \<and> int2 (ri_RHPct r) \<and> int4 (ri_BattMV r) \<and> int2 (ri_CyclesSinceLast r) \<and> meta_fits (ri_Meta r)),
     co_encodes = (\<lambda>r. timestamptz (ri_TS r) \<and> meta_encodes (ri_Meta r)),
     co_check = (\<lambda>_. True)\<rparr>"

definition cycleEventCols :: "cycle_in columns" where
  "cycleEventCols = \<lparr>co_device = ci_DeviceID, co_time = ci_StartedAt, co_fcnt = ci_FCnt,
     co_store = (\<lambda>r. r\<lparr>ci_StartedAt := db_time (ci_StartedAt r), ci_ReceivedAt := db_time (ci_ReceivedAt r)\<rparr>),
     co_fits = (\<lambda>r. int8 (ci_FCnt r) \<and> int4 (ci_RunS r) \<and> int4 (ci_LevelStartMM r) \<and> int4 (ci_LevelEndMM r)
       \<and> ci_PumpID r \<in> {''primary'', ''backup''} \<and> meta_fits (ci_Meta r)),
     co_encodes = (\<lambda>r. timestamptz (ci_StartedAt r) \<and> timestamptz (ci_ReceivedAt r) \<and> meta_encodes (ci_Meta r)),
     co_check = (\<lambda>_. True)\<rparr>"

definition stormSummaryCols :: "summary_in columns" where
  "stormSummaryCols = \<lparr>co_device = si_DeviceID, co_time = si_WindowEnd, co_fcnt = si_FCnt, co_store = (\<lambda>r. r\<lparr>si_WindowEnd := db_time (si_WindowEnd r)\<rparr>),
     co_fits = (\<lambda>r. int8 (si_FCnt r) \<and> int4 (si_WindowS r) \<and> int4 (si_CycleCount r) \<and> int4 (si_TotalRunS r) \<and> int4 (si_MinLevelMM r) \<and> meta_fits (si_Meta r)),
     co_encodes = (\<lambda>r. timestamptz (si_WindowEnd r) \<and> meta_encodes (si_Meta r)),
     co_check = (\<lambda>_. True)\<rparr>"

definition alarmEventCols :: "alarm_in columns" where
  "alarmEventCols = \<lparr>co_device = ai_DeviceID, co_time = ai_RaisedAt, co_fcnt = ai_FCnt, co_store = (\<lambda>r. r\<lparr>ai_RaisedAt := db_time (ai_RaisedAt r)\<rparr>),
     co_fits = (\<lambda>r. int8 (ai_FCnt r) \<and> int2 (ai_Code r) \<and> int4 (ai_Value r) \<and> meta_fits (ai_Meta r)),
     co_encodes = (\<lambda>r. timestamptz (ai_RaisedAt r) \<and> meta_encodes (ai_Meta r)),
     co_check = (\<lambda>r. 1 \<le> ai_Code r \<and> ai_Code r \<le> 5)\<rparr>"

definition rainGaugeUplinkCols :: "gauge_in columns" where
  "rainGaugeUplinkCols = \<lparr>co_device = gi_DeviceID, co_time = gi_TS, co_fcnt = gi_FCnt,
     co_store = (\<lambda>r. r\<lparr>gi_TS := db_time (gi_TS r), gi_MMPerTip := numeric_6_3 (gi_MMPerTip r)\<rparr>),
     co_fits = (\<lambda>r. int8 (gi_FCnt r) \<and> int8 (gi_TipCount r) \<and> \<bar>numeric_6_3 (gi_MMPerTip r)\<bar> < 1000 \<and> int4 (gi_IntervalS r) \<and> int4 (gi_BattMV r) \<and> meta_fits (gi_Meta r)),
     co_encodes = (\<lambda>r. timestamptz (gi_TS r) \<and> meta_encodes (gi_Meta r)),
     co_check = (\<lambda>r. 0 \<le> gi_TipCount r \<and> gi_MMPerTip r > 0 \<and> 0 \<le> gi_IntervalS r)\<rparr>"

lemmas cols_defs = readingCols_def cycleEventCols_def stormSummaryCols_def alarmEventCols_def rainGaugeUplinkCols_def

section \<open>Conversion produces rows their table takes\<close>

text \<open>
  The contract between conversion and store: a message that passes validation becomes a row whose numbers fit
  the columns, sent by a well-formed device. \<open>clean\<close> says of the message that its stamps and texts are ones the
  columns hold, and \<open>sound\<close> that its row passes the checks of the table; validation asks neither.
\<close>

definition gateway_clean :: "uplink_meta option \<Rightarrow> bool" where
  "gateway_clean mo \<longleftrightarrow> pred_option (\<lambda>m. pg_text (um_GatewayId m)) mo"

text \<open>The stamp of a row: the message's own, else the time it was received.\<close>

definition stamp_clean :: "instant option \<Rightarrow> uplink_meta option \<Rightarrow> bool" where
  "stamp_clean ts mo \<longleftrightarrow> pred_option timestamptz (case ts of Some t \<Rightarrow> Some t | None \<Rightarrow> Option.bind mo um_ReceivedAt)"

definition reading_clean :: "pb_reading \<Rightarrow> bool" where
  "reading_clean p \<longleftrightarrow> stamp_clean (pr_Ts p) (pr_Meta p) \<and> gateway_clean (pr_Meta p)"
definition cycle_clean :: "pb_cycle \<Rightarrow> bool" where
  "cycle_clean p \<longleftrightarrow> stamp_clean (pc_StartedAt p) (pc_Meta p) \<and> stamp_clean None (pc_Meta p) \<and> gateway_clean (pc_Meta p)"
definition summary_clean :: "pb_summary \<Rightarrow> bool" where
  "summary_clean p \<longleftrightarrow> stamp_clean (ps_WindowEnd p) (ps_Meta p) \<and> gateway_clean (ps_Meta p)"
definition alarm_clean :: "pb_alarm \<Rightarrow> bool" where
  "alarm_clean p \<longleftrightarrow> stamp_clean (pa_RaisedAt p) (pa_Meta p) \<and> gateway_clean (pa_Meta p)"
definition rain_clean :: "pb_rain \<Rightarrow> bool" where
  "rain_clean p \<longleftrightarrow> stamp_clean (pg_Ts p) (pg_Meta p) \<and> gateway_clean (pg_Meta p)"

lemmas clean_defs = reading_clean_def cycle_clean_def summary_clean_def alarm_clean_def rain_clean_def
  stamp_clean_def meta_encodes_def

locale row_conversion =
  fixes conv :: "'p \<Rightarrow> reject + 'r" and c :: "'r columns" and clean :: "'p \<Rightarrow> bool" and sound :: "'p \<Rightarrow> bool"
  assumes conv_fits: "conv p = Inr r \<Longrightarrow> co_fits c r"
    and conv_device: "conv p = Inr r \<Longrightarrow> devEUI_ok (co_device c (co_store c r))"
    and conv_encodes: "conv p = Inr r \<Longrightarrow> co_encodes c r \<longleftrightarrow> clean p"
    and conv_check: "conv p = Inr r \<Longrightarrow> co_check c (co_store c r) \<longleftrightarrow> sound p"
begin

text \<open>
  A batch of converted messages is stored unless a statement of the transaction fails, when every message is
  clean and sound; one that is not clean fails it in any case.
\<close>

lemma converted_batch_stored:
  assumes "\<And>k n. \<exists>b. create k n = Inr b" and "\<forall>r \<in> set rows. \<exists>p. clean p \<and> sound p \<and> conv p = Inr r"
  shows "\<exists>st' res. bulk_insert create autoRegister (\<lambda>_. None) now t c rows st = (st', Inr res)"
  using assms(2) conv_fits conv_device conv_check conv_encodes by (intro bulk_insert_succeeds [OF assms(1)]) blast

lemma stored_batch_clean:
  "bulk_insert create autoRegister fails now t c rows st = (st', Inr res) \<Longrightarrow> conv p = Inr r \<Longrightarrow> r \<in> set rows \<Longrightarrow> clean p"
  using bulk_insert_encodes conv_encodes by metis

end

lemma neg_le_uint [simp]: "- numeral n \<le> uint (w :: 'a :: len word)"
  by (rule order_trans [OF _ uint_ge_0]) simp

lemma sint_small: "uint w < 2 ^ (LENGTH('a :: len) - 1) \<Longrightarrow> sint (w :: 'a word) = uint w"
  by (simp add: sint_uint signed_take_bit_int_eq_self order_trans [OF _ uint_ge_0])

lemma i32_uint: "i32 v = min 2147483647 (uint v)"
proof -
  have "i32 v = sint (min 2147483647 v)" by (simp add: i32_def push_bit_of_1)
  moreover have "uint (min (2147483647 :: 32 word) v) = min 2147483647 (uint v)"
    by (simp add: min_def word_le_def)
  ultimately show ?thesis by (simp add: sint_small)
qed

lemma i16_uint: "i16 v = min 32767 (uint v)"
proof -
  let ?m = "min (32767 :: 32 word) v"
  have "i16 v = sint (ucast ?m :: 16 word)" by (simp add: i16_def push_bit_of_1)
  moreover have m: "uint ?m = min 32767 (uint v)"
    by (simp add: min_def word_le_def)
  moreover have "uint (ucast ?m :: 16 word) = uint ?m"
    using m by (simp add: unsigned_ucast_eq take_bit_int_eq_self)
  ultimately show ?thesis by (simp add: sint_small)
qed

lemma i32_int4 [simp]: "int4 (i32 v)" "0 \<le> i32 v"
  by (simp_all add: int4_def i32_uint)

lemma i16_int2 [simp]: "int2 (i16 v)"
  by (simp add: int2_def i16_uint)

lemma uint32_int8 [simp]: "int8 (uint (v :: uint32))" "int8 (get_FCnt mo)"
proof -
  have b: "int8 (uint (v :: uint32))" for v
    using uint_bounded [of v] by (simp add: int8_def)
  show "int8 (uint v)" "int8 (get_FCnt mo)"
    using b by (auto simp: get_FCnt_def int8_def split: option.splits)
qed

lemma clamp_int2 [simp]: "- 32768 \<le> lo \<Longrightarrow> lo \<le> hi \<Longrightarrow> hi \<le> 32767 \<Longrightarrow> int2 (clamp v lo hi)"
  by (auto simp: int2_def clamp_def)

lemma metaOf_Inr: "metaOf s mo = Inr (dev, received, meta) \<Longrightarrow> devEUI_ok dev \<and> meta_fits meta \<and> \<not> too_far s received
  \<and> Option.bind mo um_ReceivedAt = Some received \<and> (meta_encodes meta \<longleftrightarrow> gateway_clean mo)"
  by (auto simp: metaOf_def Let_def meta_fits_def meta_encodes_def gateway_clean_def pg_text_def split: option.splits if_splits)

lemma bind_metaOf_cases:
  assumes "bind_sum (metaOf s mo) f = Inr r"
  obtains dev received meta where "metaOf s mo = Inr (dev, received, meta)" "devEUI_ok dev" "meta_fits meta" "\<not> too_far s received"
    "Option.bind mo um_ReceivedAt = Some received" "meta_encodes meta \<longleftrightarrow> gateway_clean mo" "f (dev, received, meta) = Inr r"
  using assms metaOf_Inr unfolding bind_sum_Inr_iff by (metis prod_cases3)

lemma numeric_6_3_bounds:
  assumes "0 < x" "x \<le> maxMMPerTip"
  shows "\<bar>numeric_6_3 x\<bar> < 1000" and "5 / 10000 \<le> x \<Longrightarrow> 0 < numeric_6_3 x" and "x < 5 / 10000 \<Longrightarrow> numeric_6_3 x = 0"
proof -
  have eq: "numeric_6_3 x = real_of_int \<lfloor>x * 1000 + 1 / 2\<rfloor> / 1000" using assms by (simp add: numeric_6_3_def math_round_def)
  have "x * 1000 + 1 / 2 < 1000000" "0 \<le> x * 1000 + 1 / 2" using assms by (simp_all add: maxMMPerTip_def)
  then have "\<lfloor>x * 1000 + 1 / 2\<rfloor> < 1000000" "0 \<le> \<lfloor>x * 1000 + 1 / 2\<rfloor>" by linarith+
  then show "\<bar>numeric_6_3 x\<bar> < 1000" unfolding eq by simp
  show "0 < numeric_6_3 x" if "5 / 10000 \<le> x" using that unfolding eq by (simp add: field_simps)
  show "numeric_6_3 x = 0" if "x < 5 / 10000"
    using that assms unfolding eq by (simp add: floor_eq_iff field_simps)
qed

lemma numeric_6_3_pos: "0 < x \<Longrightarrow> x \<le> maxMMPerTip \<Longrightarrow> 0 < numeric_6_3 x \<longleftrightarrow> 5 / 10000 \<le> x"
  using numeric_6_3_bounds [of x] by (cases "5 / 10000 \<le> x") auto

definition row_fits :: "'r columns \<Rightarrow> 'r \<Rightarrow> bool" where
  "row_fits c r \<longleftrightarrow> co_fits c r \<and> devEUI_ok (co_device c (co_store c r))"

lemma readingRow_fits: "readingRow s p = Inr r \<Longrightarrow> row_fits readingCols r \<and> co_check readingCols (co_store readingCols r)"
  unfolding readingRow_def row_fits_def by (erule bind_metaOf_cases) (auto simp: cols_defs split: if_splits)

lemma cycleRow_fits: "cycleRow s p = Inr r \<Longrightarrow> row_fits cycleEventCols r \<and> co_check cycleEventCols (co_store cycleEventCols r)"
  unfolding cycleRow_def row_fits_def by (erule bind_metaOf_cases) (auto simp: cols_defs split: if_splits option.splits)

lemma summaryRow_fits: "summaryRow s p = Inr r \<Longrightarrow> row_fits stormSummaryCols r \<and> co_check stormSummaryCols (co_store stormSummaryCols r)"
  unfolding summaryRow_def row_fits_def by (erule bind_metaOf_cases) (auto simp: cols_defs)

lemma alarmRow_fits: "alarmRow s p = Inr r \<Longrightarrow> row_fits alarmEventCols r \<and> co_check alarmEventCols (co_store alarmEventCols r)"
  unfolding alarmRow_def row_fits_def by (erule bind_metaOf_cases) (auto simp: cols_defs int2_def split: if_splits)

lemma rainGaugeRow_fits:
  "rainGaugeRow s p = Inr r \<Longrightarrow> row_fits rainGaugeUplinkCols r
     \<and> (co_check rainGaugeUplinkCols (co_store rainGaugeUplinkCols r) \<longleftrightarrow> 5 / 10000 \<le> pg_MmPerTip p)"
  unfolding rainGaugeRow_def row_fits_def
  by (erule bind_metaOf_cases) (auto simp: cols_defs numeric_6_3_bounds(1) numeric_6_3_pos not_less split: if_splits)

text \<open>The stamps are passed on unchecked: a row's are within the columns' range exactly when the message's are.\<close>

lemma readingRow_encodes: "readingRow s p = Inr r \<Longrightarrow> co_encodes readingCols r \<longleftrightarrow> reading_clean p"
  unfolding readingRow_def by (erule bind_metaOf_cases) (auto simp: cols_defs clean_defs split: if_splits option.splits)

lemma cycleRow_encodes: "cycleRow s p = Inr r \<Longrightarrow> co_encodes cycleEventCols r \<longleftrightarrow> cycle_clean p"
  unfolding cycleRow_def by (erule bind_metaOf_cases) (auto simp: cols_defs clean_defs split: if_splits option.splits)

lemma summaryRow_encodes: "summaryRow s p = Inr r \<Longrightarrow> co_encodes stormSummaryCols r \<longleftrightarrow> summary_clean p"
  unfolding summaryRow_def by (erule bind_metaOf_cases) (auto simp: cols_defs clean_defs split: option.splits)

lemma alarmRow_encodes: "alarmRow s p = Inr r \<Longrightarrow> co_encodes alarmEventCols r \<longleftrightarrow> alarm_clean p"
  unfolding alarmRow_def by (erule bind_metaOf_cases) (auto simp: cols_defs clean_defs split: if_splits option.splits)

lemma rainGaugeRow_encodes: "rainGaugeRow s p = Inr r \<Longrightarrow> co_encodes rainGaugeUplinkCols r \<longleftrightarrow> rain_clean p"
  unfolding rainGaugeRow_def by (erule bind_metaOf_cases) (auto simp: cols_defs clean_defs split: if_splits option.splits)

interpretation reading_conv: row_conversion "readingRow s" readingCols reading_clean "\<lambda>_. True" for s
  by unfold_locales (use readingRow_fits readingRow_encodes in \<open>auto simp: row_fits_def\<close>)

interpretation cycle_conv: row_conversion "cycleRow s" cycleEventCols cycle_clean "\<lambda>_. True" for s
  by unfold_locales (use cycleRow_fits cycleRow_encodes in \<open>auto simp: row_fits_def\<close>)

interpretation summary_conv: row_conversion "summaryRow s" stormSummaryCols summary_clean "\<lambda>_. True" for s
  by unfold_locales (use summaryRow_fits summaryRow_encodes in \<open>auto simp: row_fits_def\<close>)

interpretation alarm_conv: row_conversion "alarmRow s" alarmEventCols alarm_clean "\<lambda>_. True" for s
  by unfold_locales (use alarmRow_fits alarmRow_encodes in \<open>auto simp: row_fits_def\<close>)

interpretation rain_conv: row_conversion "rainGaugeRow s" rainGaugeUplinkCols rain_clean "\<lambda>p. 5 / 10000 \<le> pg_MmPerTip p" for s
  by unfold_locales (use rainGaugeRow_fits rainGaugeRow_encodes in \<open>auto simp: row_fits_def\<close>)

section \<open>The database and the five inserts\<close>

record telemetry_db =
  td_devices :: "string \<rightharpoonup> string \<times> instant option"
  td_months :: "string list"
  td_notes :: "notification list"
  td_readings :: "(reading_in \<times> instant) list"
  td_cycles :: "(cycle_in \<times> instant) list"
  td_summaries :: "(summary_in \<times> instant) list"
  td_alarms :: "(alarm_in \<times> instant) list"
  td_gauges :: "(gauge_in \<times> instant) list"

text \<open>What the database does on one insert: partition calls, failing statements, and the time of the transaction.\<close>

record store_env =
  sv_create :: "string \<Rightarrow> nat \<Rightarrow> create_error + bool"
  sv_fails :: "bulk_stmt \<Rightarrow> db_error option"
  sv_now :: instant

text \<open>The bulk path on one table of the database: devices, known months and notifications are shared.\<close>

definition table_view :: "('r \<times> instant) list \<Rightarrow> telemetry_db \<Rightarrow> 'r tstore" where
  "table_view rows db = \<lparr>ts_devices = td_devices db, ts_rows = rows, ts_notes = td_notes db, ts_months = td_months db\<rparr>"

definition shared_of :: "'r tstore \<Rightarrow> telemetry_db \<Rightarrow> telemetry_db" where
  "shared_of st db = db\<lparr>td_devices := ts_devices st, td_months := ts_months st, td_notes := ts_notes st\<rparr>"

definition insert_into :: "bool \<Rightarrow> store_env \<Rightarrow> table \<Rightarrow> 'r columns \<Rightarrow> 'r list \<Rightarrow> ('r \<times> instant) list \<Rightarrow> telemetry_db \<Rightarrow> 'r tstore \<times> (db_error + result)" where
  "insert_into auto env t c rows stored db = bulk_insert (sv_create env) auto (sv_fails env) (sv_now env) t c rows (table_view stored db)"

definition InsertReadings :: "bool \<Rightarrow> store_env \<Rightarrow> reading_in list \<Rightarrow> telemetry_db \<Rightarrow> telemetry_db \<times> (db_error + result)" where
  "InsertReadings auto env rows db =
     (let (st, r) = insert_into auto env tReadings readingCols rows (td_readings db) db
      in ((shared_of st db)\<lparr>td_readings := ts_rows st\<rparr>, r))"

definition InsertCycleEvents :: "bool \<Rightarrow> store_env \<Rightarrow> cycle_in list \<Rightarrow> telemetry_db \<Rightarrow> telemetry_db \<times> (db_error + result)" where
  "InsertCycleEvents auto env rows db =
     (let (st, r) = insert_into auto env tCycleEvents cycleEventCols rows (td_cycles db) db
      in ((shared_of st db)\<lparr>td_cycles := ts_rows st\<rparr>, r))"

definition InsertStormSummaries :: "bool \<Rightarrow> store_env \<Rightarrow> summary_in list \<Rightarrow> telemetry_db \<Rightarrow> telemetry_db \<times> (db_error + result)" where
  "InsertStormSummaries auto env rows db =
     (let (st, r) = insert_into auto env tStormSummaries stormSummaryCols rows (td_summaries db) db
      in ((shared_of st db)\<lparr>td_summaries := ts_rows st\<rparr>, r))"

definition InsertAlarmEvents :: "bool \<Rightarrow> store_env \<Rightarrow> alarm_in list \<Rightarrow> telemetry_db \<Rightarrow> telemetry_db \<times> (db_error + result)" where
  "InsertAlarmEvents auto env rows db =
     (let (st, r) = insert_into auto env tAlarmEvents alarmEventCols rows (td_alarms db) db
      in ((shared_of st db)\<lparr>td_alarms := ts_rows st\<rparr>, r))"

definition InsertRainGaugeUplinks :: "bool \<Rightarrow> store_env \<Rightarrow> gauge_in list \<Rightarrow> telemetry_db \<Rightarrow> telemetry_db \<times> (db_error + result)" where
  "InsertRainGaugeUplinks auto env rows db =
     (let (st, r) = insert_into auto env tRainGaugeUplinks rainGaugeUplinkCols rows (td_gauges db) db
      in ((shared_of st db)\<lparr>td_gauges := ts_rows st\<rparr>, r))"

section \<open>Streams\<close>

text \<open>
  What the batching goroutine sees: a request, or the age timer of the pending batch. A stream ends with EOF,
  or breaks; when it breaks, the store goroutine has flushed some number of the batches before the
  cancellation reaches it, and the first error of the group is a context error or another one.
\<close>

datatype 'q event = Arrive 'q | Due

datatype ending = Eof | Broken nat bool

text \<open>The extraction loop of the handlers: rejected messages are left out.\<close>

fun extract_rows :: "('p \<Rightarrow> reject + 'r) \<Rightarrow> 'p list \<Rightarrow> 'r list" where
  "extract_rows conv [] = []"
| "extract_rows conv (p # ps) = (case conv p of Inl why \<Rightarrow> extract_rows conv ps | Inr row \<Rightarrow> row # extract_rows conv ps)"

fun batch_loop :: "nat \<Rightarrow> ('q \<Rightarrow> 'r list) \<Rightarrow> 'q event list \<Rightarrow> 'r list \<Rightarrow> 'r list list" where
  "batch_loop BatchMax extract [] cur = (if cur = [] then [] else [cur])"
| "batch_loop BatchMax extract (Arrive req # es) cur =
     (let rows = extract req in
      if rows = [] then batch_loop BatchMax extract es cur
      else let cur = cur @ rows in
        if length cur \<ge> BatchMax then cur # batch_loop BatchMax extract es [] else batch_loop BatchMax extract es cur)"
| "batch_loop BatchMax extract (Due # es) cur =
     (if cur = [] then batch_loop BatchMax extract es cur else cur # batch_loop BatchMax extract es [])"

text \<open>The running totals are \<^verbatim>\<open>uint32\<close>.\<close>

record counts =
  cn_accepted :: uint32
  cn_duplicates :: uint32
  cn_rejected :: uint32

definition no_counts :: counts where
  "no_counts = \<lparr>cn_accepted = 0, cn_duplicates = 0, cn_rejected = 0\<rparr>"

definition add_result :: "counts \<Rightarrow> result \<Rightarrow> counts" where
  "add_result c res = \<lparr>cn_accepted = cn_accepted c + word_of_int (rs_Accepted res),
     cn_duplicates = cn_duplicates c + word_of_int (rs_Duplicates res), cn_rejected = cn_rejected c + word_of_int (rs_Rejected res)\<rparr>"

text \<open>The store goroutine: batch \<open>n\<close> is flushed by \<open>flush n\<close>; the first error stops it.\<close>

fun store_batches :: "(nat \<Rightarrow> 'r list \<Rightarrow> 'db \<Rightarrow> 'db \<times> (db_error + result)) \<Rightarrow> nat \<Rightarrow> 'r list list \<Rightarrow> 'db \<Rightarrow> counts \<Rightarrow> 'db \<times> (db_error + counts)" where
  "store_batches flush n [] db c = (db, Inr c)"
| "store_batches flush n (b # bs) db c =
     (case flush n b db of
        (db, Inl e) \<Rightarrow> (db, Inl e)
      | (db, Inr res) \<Rightarrow> store_batches flush (Suc n) bs db (add_result c res))"

definition context_error :: "db_error \<Rightarrow> bool" where
  "context_error e \<longleftrightarrow> e = DbError ''context canceled'' \<or> e = DbError ''context deadline exceeded''"

definition runStream ::
  "ingest_server \<Rightarrow> ('q \<Rightarrow> 'r list) \<Rightarrow> (nat \<Rightarrow> 'r list \<Rightarrow> 'db \<Rightarrow> 'db \<times> (db_error + result)) \<Rightarrow> 'q event list \<Rightarrow> ending \<Rightarrow> 'db
     \<Rightarrow> 'db \<times> (grpc_code + counts)" where
  "runStream s extract flush es fin db =
     (let batches = batch_loop (ig_BatchMax (is_cfg s)) extract es [] in
      case fin of
        Eof \<Rightarrow> (case store_batches flush 0 batches db no_counts of
            (db, Inl e) \<Rightarrow> (db, Inl (if context_error e then Canceled else Unavailable))
          | (db, Inr c) \<Rightarrow> (db, Inr c))
      | Broken n ctx \<Rightarrow> (fst (store_batches flush 0 (take n batches) db no_counts), Inl (if ctx then Canceled else Unavailable)))"

text \<open>The environment of the store at batch \<open>n\<close>, per table.\<close>

type_synonym stream_env = "nat \<Rightarrow> table \<Rightarrow> store_env"

record submit_response =
  sp_Accepted :: uint32
  sp_Duplicates :: uint32

definition respond :: "'db \<times> (grpc_code + counts) \<Rightarrow> 'db \<times> (grpc_code + submit_response)" where
  "respond x = (case x of (db, Inl e) \<Rightarrow> (db, Inl e) | (db, Inr c) \<Rightarrow> (db, Inr \<lparr>sp_Accepted = cn_accepted c, sp_Duplicates = cn_duplicates c\<rparr>))"

definition SubmitReadings ::
  "ingest_server \<Rightarrow> bool \<Rightarrow> stream_env \<Rightarrow> pb_reading list event list \<Rightarrow> ending \<Rightarrow> telemetry_db \<Rightarrow> telemetry_db \<times> (grpc_code + submit_response)" where
  "SubmitReadings s auto env es fin db =
     respond (runStream s (extract_rows (readingRow s)) (\<lambda>n. InsertReadings auto (env n tReadings)) es fin db)"

datatype cycle_item = ItemCycle cycle_in | ItemSummary summary_in

record cycle_request =
  rq_CycleEvents :: "pb_cycle list"
  rq_StormSummaries :: "pb_summary list"

definition extract_items :: "ingest_server \<Rightarrow> cycle_request \<Rightarrow> cycle_item list" where
  "extract_items s req = map ItemCycle (extract_rows (cycleRow s) (rq_CycleEvents req)) @ map ItemSummary (extract_rows (summaryRow s) (rq_StormSummaries req))"

fun item_cycles :: "cycle_item list \<Rightarrow> cycle_in list" where
  "item_cycles [] = []"
| "item_cycles (ItemCycle c # is') = c # item_cycles is'"
| "item_cycles (ItemSummary x # is') = item_cycles is'"

fun item_summaries :: "cycle_item list \<Rightarrow> summary_in list" where
  "item_summaries [] = []"
| "item_summaries (ItemCycle c # is') = item_summaries is'"
| "item_summaries (ItemSummary x # is') = x # item_summaries is'"

definition plus_result :: "result \<Rightarrow> result \<Rightarrow> result" where
  "plus_result a b = \<lparr>rs_Accepted = rs_Accepted a + rs_Accepted b, rs_Duplicates = rs_Duplicates a + rs_Duplicates b,
     rs_Rejected = rs_Rejected a + rs_Rejected b\<rparr>"

text \<open>Cycles are stored before summaries, in two transactions.\<close>

definition flush_items :: "bool \<Rightarrow> (table \<Rightarrow> store_env) \<Rightarrow> cycle_item list \<Rightarrow> telemetry_db \<Rightarrow> telemetry_db \<times> (db_error + result)" where
  "flush_items auto env items db =
     (case (if item_cycles items = [] then (db, Inr no_result) else InsertCycleEvents auto (env tCycleEvents) (item_cycles items) db) of
        (db, Inl e) \<Rightarrow> (db, Inl e)
      | (db, Inr r1) \<Rightarrow>
          (case (if item_summaries items = [] then (db, Inr no_result) else InsertStormSummaries auto (env tStormSummaries) (item_summaries items) db) of
             (db, Inl e) \<Rightarrow> (db, Inl e)
           | (db, Inr r2) \<Rightarrow> (db, Inr (plus_result r1 r2))))"

definition SubmitCycleEvents ::
  "ingest_server \<Rightarrow> bool \<Rightarrow> stream_env \<Rightarrow> cycle_request event list \<Rightarrow> ending \<Rightarrow> telemetry_db \<Rightarrow> telemetry_db \<times> (grpc_code + submit_response)" where
  "SubmitCycleEvents s auto env es fin db = respond (runStream s (extract_items s) (\<lambda>n. flush_items auto (env n)) es fin db)"

definition SubmitAlarms ::
  "ingest_server \<Rightarrow> bool \<Rightarrow> stream_env \<Rightarrow> pb_alarm list event list \<Rightarrow> ending \<Rightarrow> telemetry_db \<Rightarrow> telemetry_db \<times> (grpc_code + submit_response)" where
  "SubmitAlarms s auto env es fin db =
     respond (runStream s (extract_rows (alarmRow s)) (\<lambda>n. InsertAlarmEvents auto (env n tAlarmEvents)) es fin db)"

definition SubmitRainGaugeReadings ::
  "ingest_server \<Rightarrow> bool \<Rightarrow> stream_env \<Rightarrow> pb_rain list event list \<Rightarrow> ending \<Rightarrow> telemetry_db \<Rightarrow> telemetry_db \<times> (grpc_code + submit_response)" where
  "SubmitRainGaugeReadings s auto env es fin db =
     respond (runStream s (extract_rows (rainGaugeRow s)) (\<lambda>n. InsertRainGaugeUplinks auto (env n tRainGaugeUplinks)) es fin db)"

section \<open>What a stream does with any store\<close>

definition arrived :: "('q \<Rightarrow> 'r list) \<Rightarrow> 'q event list \<Rightarrow> 'r list" where
  "arrived ex es = concat (map (\<lambda>e. case e of Arrive q \<Rightarrow> ex q | Due \<Rightarrow> []) es)"

lemma arrived_simps [simp]:
  "arrived ex [] = []" "arrived ex (Arrive q # es) = ex q @ arrived ex es" "arrived ex (Due # es) = arrived ex es"
  by (simp_all add: arrived_def)

lemma batch_loop_concat: "concat (batch_loop m ex es cur) = cur @ arrived ex es"
  by (induction m ex es cur rule: batch_loop.induct) (auto simp: Let_def)

lemma batch_loop_nonempty: "[] \<notin> set (batch_loop m ex es cur)"
  by (induction m ex es cur rule: batch_loop.induct) (auto simp: Let_def)

lemma batch_loop_bound:
  assumes "\<forall>q. Arrive q \<in> set es \<longrightarrow> length (ex q) \<le> k" and "length cur < m"
  shows "\<forall>b \<in> set (batch_loop m ex es cur). length b < m + k"
  using assms
proof (induction m ex es cur rule: batch_loop.induct)
  case (2 m ex q es cur)
  let ?rows = "ex q"
  have len: "length ?rows \<le> k" and rest: "\<forall>q. Arrive q \<in> set es \<longrightarrow> length (ex q) \<le> k" using "2.prems" by simp_all
  show ?case
  proof (cases "?rows = []")
    case True
    then show ?thesis using 2 by simp
  next
    case False
    show ?thesis
    proof (cases "m \<le> length (cur @ ?rows)")
      case True
      have "\<forall>b \<in> set (batch_loop m ex es []). length b < m + k"
        using "2.IH"(2) [OF refl False refl True rest] "2.prems"(2) by fastforce
      then show ?thesis using False True len "2.prems"(2) by (simp add: Let_def)
    next
      case small: False
      then have "\<forall>b \<in> set (batch_loop m ex es (cur @ ?rows)). length b < m + k"
        using "2.IH"(3) [OF refl False refl small rest] by simp
      then show ?thesis using False small by (simp add: Let_def)
    qed
  qed
next
  case (3 m ex es cur)
  have rest: "\<forall>q. Arrive q \<in> set es \<longrightarrow> length (ex q) \<le> k" using "3.prems"(1) by simp
  show ?case
  proof (cases "cur = []")
    case True
    then show ?thesis using "3.IH"(1) [OF True rest "3.prems"(2)] by simp
  next
    case False
    then have "length ([] :: 'a list) < m" using "3.prems"(2) by simp
    then show ?thesis using "3.IH"(2) [OF False rest] "3.prems"(2) False by simp
  qed
qed auto

text \<open>
  The interface of a store under a stream: \<open>safe db r\<close> says that nothing is left to do for row \<open>r\<close>; a successful
  flush makes its rows safe, and no flush, failed or not, makes a safe row unsafe. \<open>inv\<close> is any invariant of the store.
\<close>

locale sink =
  fixes flush :: "nat \<Rightarrow> 'r list \<Rightarrow> 'db \<Rightarrow> 'db \<times> (db_error + result)"
    and safe :: "'db \<Rightarrow> 'r \<Rightarrow> bool" and grows :: "'db \<Rightarrow> 'db \<Rightarrow> bool" and inv :: "'db \<Rightarrow> bool"
  assumes grows_refl: "grows db db"
    and grows_trans: "grows a b \<Longrightarrow> grows b d \<Longrightarrow> grows a d"
    and safe_grows: "grows db db' \<Longrightarrow> safe db r \<Longrightarrow> safe db' r"
    and flush_grows: "flush n rows db = (db', out) \<Longrightarrow> grows db db'"
    and flush_safe: "flush n rows db = (db', Inr res) \<Longrightarrow> r \<in> set rows \<Longrightarrow> safe db' r"
    and flush_counts: "flush n rows db = (db', Inr res) \<Longrightarrow> rs_Accepted res + rs_Duplicates res + rs_Rejected res = int (length rows)"
    and flush_inv: "flush n rows db = (db', out) \<Longrightarrow> inv db \<Longrightarrow> inv db'"
begin

lemma store_batches_inv:
  "store_batches flush n bs db c = (db', out) \<Longrightarrow> grows db db' \<and> (inv db \<longrightarrow> inv db')"
proof (induction bs arbitrary: n db c)
  case Nil
  then show ?case using grows_refl by simp
next
  case (Cons b bs)
  obtain db1 o1 where f: "flush n b db = (db1, o1)" by fastforce
  note one = flush_grows [OF f] flush_inv [OF f]
  show ?case
  proof (cases o1)
    case (Inl e)
    then show ?thesis using Cons.prems f one by simp
  next
    case (Inr res)
    then have "store_batches flush (Suc n) bs db1 (add_result c res) = (db', out)" using Cons.prems f by simp
    then show ?thesis using Cons.IH one grows_trans by blast
  qed
qed

lemma store_batches_safe:
  "store_batches flush n bs db c = (db', Inr c') \<Longrightarrow> r \<in> set (concat bs) \<Longrightarrow> safe db' r"
proof (induction bs arbitrary: n db c)
  case (Cons b bs)
  obtain db1 res where f: "flush n b db = (db1, Inr res)" and rest: "store_batches flush (Suc n) bs db1 (add_result c res) = (db', Inr c')"
    using Cons.prems(1) by (auto split: prod.splits sum.splits)
  show ?case
  proof (cases "r \<in> set b")
    case True
    then show ?thesis using flush_safe [OF f] store_batches_inv [OF rest] safe_grows by blast
  next
    case False
    then show ?thesis using Cons.IH [OF rest] Cons.prems(2) by simp
  qed
qed simp

lemma store_batches_counts:
  "store_batches flush n bs db c = (db', Inr c') \<Longrightarrow>
     cn_accepted c' + cn_duplicates c' + cn_rejected c' = cn_accepted c + cn_duplicates c + cn_rejected c + word_of_nat (length (concat bs))"
proof (induction bs arbitrary: n db c)
  case (Cons b bs)
  obtain db1 res where f: "flush n b db = (db1, Inr res)" and rest: "store_batches flush (Suc n) bs db1 (add_result c res) = (db', Inr c')"
    using Cons.prems(1) by (auto split: prod.splits sum.splits)
  have "(word_of_int (rs_Accepted res) + word_of_int (rs_Duplicates res) + word_of_int (rs_Rejected res) :: uint32) = word_of_nat (length b)"
    unfolding of_int_add [symmetric] flush_counts [OF f] by simp
  then show ?case using Cons.IH [OF rest] by (simp add: add_result_def algebra_simps)
qed simp

lemma runStream_grows: "runStream s ex flush es fin db = (db', out) \<Longrightarrow> grows db db' \<and> (inv db \<longrightarrow> inv db')"
proof (cases fin)
  case Eof
  then show "runStream s ex flush es fin db = (db', out) \<Longrightarrow> grows db db' \<and> (inv db \<longrightarrow> inv db')"
    unfolding runStream_def Let_def by (auto split: prod.splits sum.splits dest: store_batches_inv)
next
  case (Broken n ctx)
  let ?run = "store_batches flush 0 (take n (batch_loop (ig_BatchMax (is_cfg s)) ex es [])) db no_counts"
  have "grows db (fst ?run) \<and> (inv db \<longrightarrow> inv (fst ?run))" by (rule store_batches_inv [of _ _ _ _ _ "snd ?run"]) simp
  then show "runStream s ex flush es fin db = (db', out) \<Longrightarrow> grows db db' \<and> (inv db \<longrightarrow> inv db')"
    unfolding runStream_def Let_def Broken by auto
qed

lemma runStream_safe:
  assumes "runStream s ex flush es fin db = (db', Inr c)"
  shows "fin = Eof \<and> (\<forall>r \<in> set (arrived ex es). safe db' r)
    \<and> cn_accepted c + cn_duplicates c + cn_rejected c = word_of_nat (length (arrived ex es))"
proof -
  let ?bs = "batch_loop (ig_BatchMax (is_cfg s)) ex es []"
  have fin: "fin = Eof" and run: "store_batches flush 0 ?bs db no_counts = (db', Inr c)"
    using assms by (auto simp: runStream_def Let_def split: ending.splits prod.splits sum.splits)
  show ?thesis
    using fin store_batches_safe [OF run] store_batches_counts [OF run] unfolding batch_loop_concat by (simp add: no_counts_def)
qed

lemma respond_stream:
  assumes "respond (runStream s ex flush es fin db) = (db', out)"
  shows "grows db db' \<and> (inv db \<longrightarrow> inv db') \<and> (\<forall>resp. out = Inr resp \<longrightarrow> fin = Eof \<and> (\<forall>r \<in> set (arrived ex es). safe db' r)
    \<and> (\<exists>rejected. sp_Accepted resp + sp_Duplicates resp + rejected = word_of_nat (length (arrived ex es))))"
proof -
  obtain out' where run: "runStream s ex flush es fin db = (db', out')" using assms by (auto simp: respond_def split: prod.splits sum.splits)
  show ?thesis
    using runStream_grows [OF run] runStream_safe [of s ex es fin db db'] assms run
    by (cases out') (auto simp: respond_def)
qed

text \<open>If no flush of the arriving rows fails, the stream is answered.\<close>

lemma store_batches_total:
  "(\<And>n b db. b \<in> set bs \<Longrightarrow> \<exists>db' res. flush n b db = (db', Inr res)) \<Longrightarrow> \<exists>db' c'. store_batches flush n bs db c = (db', Inr c')"
proof (induction bs arbitrary: n db c)
  case (Cons b bs)
  obtain db1 res where "flush n b db = (db1, Inr res)" using Cons.prems [of b n db] by auto
  moreover have "\<exists>db' c'. store_batches flush (Suc n) bs db1 (add_result c res) = (db', Inr c')"
    using Cons.prems by (intro Cons.IH) simp
  ultimately show ?case by simp
qed simp

end

section \<open>The telemetry database as a sink\<close>

definition row_safe :: "bool \<Rightarrow> 'r columns \<Rightarrow> (string \<rightharpoonup> string \<times> instant option) \<Rightarrow> ('r \<times> instant) list \<Rightarrow> 'r \<Rightarrow> bool" where
  "row_safe auto c devs stored r \<longleftrightarrow> row_key c (co_store c r) \<in> set (keys_of c stored) \<or> (\<not> auto \<and> devs (co_device c (co_store c r)) = None)"

text \<open>A telemetry database only grows, and learns no device with registration off.\<close>

definition db_grows :: "bool \<Rightarrow> telemetry_db \<Rightarrow> telemetry_db \<Rightarrow> bool" where
  "db_grows auto db db' \<longleftrightarrow> set (td_readings db) \<subseteq> set (td_readings db') \<and> set (td_cycles db) \<subseteq> set (td_cycles db')
     \<and> set (td_summaries db) \<subseteq> set (td_summaries db') \<and> set (td_alarms db) \<subseteq> set (td_alarms db') \<and> set (td_gauges db) \<subseteq> set (td_gauges db')
     \<and> (\<forall>d. td_devices db d \<noteq> None \<longrightarrow> td_devices db' d \<noteq> None)
     \<and> (\<not> auto \<longrightarrow> (\<forall>d. td_devices db' d = None \<longleftrightarrow> td_devices db d = None))"

definition db_ok :: "telemetry_db \<Rightarrow> bool" where
  "db_ok db \<longleftrightarrow> tstore_ok readingCols (table_view (td_readings db) db) \<and> tstore_ok cycleEventCols (table_view (td_cycles db) db)
     \<and> tstore_ok stormSummaryCols (table_view (td_summaries db) db) \<and> tstore_ok alarmEventCols (table_view (td_alarms db) db)
     \<and> tstore_ok rainGaugeUplinkCols (table_view (td_gauges db) db)"

lemma db_grows_refl [simp]: "db_grows auto db db"
  by (simp add: db_grows_def)

lemma db_grows_trans: "db_grows auto a b \<Longrightarrow> db_grows auto b d \<Longrightarrow> db_grows auto a d"
  by (auto simp: db_grows_def)

lemma row_safe_mono:
  "row_safe auto c devs stored r \<Longrightarrow> set stored \<subseteq> set stored' \<Longrightarrow> (\<not> auto \<Longrightarrow> (\<And>d. devs' d = None \<longleftrightarrow> devs d = None)) \<Longrightarrow> row_safe auto c devs' stored' r"
  by (auto simp: row_safe_def keys_of_def)

lemma insert_into_effect:
  assumes "insert_into auto env t c rows stored db = (st, out)"
  shows "set stored \<subseteq> set (ts_rows st)" "\<forall>d. td_devices db d \<noteq> None \<longrightarrow> ts_devices st d \<noteq> None"
    "\<not> auto \<longrightarrow> (\<forall>d. ts_devices st d = None \<longleftrightarrow> td_devices db d = None)"
    "tstore_ok c (table_view stored db) \<longrightarrow> tstore_ok c st"
    "\<And>res r. out = Inr res \<Longrightarrow> r \<in> set rows \<Longrightarrow> row_safe auto c (ts_devices st) (ts_rows st) r"
    "\<And>res. out = Inr res \<Longrightarrow> rs_Accepted res + rs_Duplicates res + rs_Rejected res = int (length rows)"
proof -
  note run = assms [unfolded insert_into_def]
  note kept = bulk_insert_keeps [OF run]
  show "set stored \<subseteq> set (ts_rows st)" "\<forall>d. td_devices db d \<noteq> None \<longrightarrow> ts_devices st d \<noteq> None"
    "\<not> auto \<longrightarrow> (\<forall>d. ts_devices st d = None \<longleftrightarrow> td_devices db d = None)"
    using kept by (simp_all add: table_view_def)
  show "tstore_ok c (table_view stored db) \<longrightarrow> tstore_ok c st" using bulk_insert_ok [OF run] by blast
  fix res assume out: "out = Inr res"
  note eff = bulk_insert_effect [OF run, unfolded out, simplified]
  show "rs_Accepted res + rs_Duplicates res + rs_Rejected res = int (length rows)" using eff by simp
  fix r assume "r \<in> set rows"
  then have "row_key c (co_store c r) \<in> set (keys_of c (ts_rows st)) \<or> unknown_dropped auto c (table_view stored db) (co_store c r)" using eff by blast
  then show "row_safe auto c (ts_devices st) (ts_rows st) r" using kept by (auto simp: row_safe_def unknown_dropped_def)
qed

text \<open>The other tables keep their constraints: their rows stay and so do the devices they refer to.\<close>

lemma tstore_ok_other:
  assumes "tstore_ok c (table_view stored db)" and "tstore_ok c' st" and "\<forall>d. td_devices db d \<noteq> None \<longrightarrow> ts_devices st d \<noteq> None"
    and "td_devices db' = ts_devices st"
  shows "tstore_ok c (table_view stored db')"
  using assms unfolding tstore_ok_def table_view_def by auto

lemma tstore_ok_same: "tstore_ok c st \<Longrightarrow> td_devices db' = ts_devices st \<Longrightarrow> tstore_ok c (table_view (ts_rows st) db')"
  by (simp add: tstore_ok_def table_view_def)

lemma shared_of_simps [simp]:
  "td_devices (shared_of st db) = ts_devices st" "td_readings (shared_of st db) = td_readings db" "td_cycles (shared_of st db) = td_cycles db"
  "td_summaries (shared_of st db) = td_summaries db" "td_alarms (shared_of st db) = td_alarms db" "td_gauges (shared_of st db) = td_gauges db"
  by (simp_all add: shared_of_def)

text \<open>
  A table of the database: its insert is the bulk path on its rows, and putting its rows back keeps the other
  tables. Every table is a sink.
\<close>

locale telemetry_table =
  fixes insert_rows :: "bool \<Rightarrow> store_env \<Rightarrow> 'r list \<Rightarrow> telemetry_db \<Rightarrow> telemetry_db \<times> (db_error + result)"
    and get_rows :: "telemetry_db \<Rightarrow> ('r \<times> instant) list" and put_rows :: "('r \<times> instant) list \<Rightarrow> telemetry_db \<Rightarrow> telemetry_db"
    and t :: table and c :: "'r columns"
  assumes insert_rows_eq: "insert_rows auto env rows db =
      (let (st, r) = insert_into auto env t c rows (get_rows db) db in (put_rows (ts_rows st) (shared_of st db), r))"
    and get_put: "get_rows (put_rows stored db) = stored" "td_devices (put_rows stored db) = td_devices db"
    and get_grows: "db_grows auto db db' \<Longrightarrow> set (get_rows db) \<subseteq> set (get_rows db')"
    and put_grows: "set (get_rows db) \<subseteq> set (ts_rows st) \<Longrightarrow> \<forall>d. td_devices db d \<noteq> None \<longrightarrow> ts_devices st d \<noteq> None \<Longrightarrow>
      \<not> auto \<longrightarrow> (\<forall>d. ts_devices st d = None \<longleftrightarrow> td_devices db d = None) \<Longrightarrow> db_grows auto db (put_rows (ts_rows st) (shared_of st db))"
    and get_ok: "db_ok db \<Longrightarrow> tstore_ok c (table_view (get_rows db) db)"
    and put_ok: "db_ok db \<Longrightarrow> tstore_ok c st \<Longrightarrow> \<forall>d. td_devices db d \<noteq> None \<longrightarrow> ts_devices st d \<noteq> None \<Longrightarrow>
      db_ok (put_rows (ts_rows st) (shared_of st db))"
begin

lemma insert_rows_cases:
  assumes "insert_rows auto env rows db = (db', out)"
  obtains st where "insert_into auto env t c rows (get_rows db) db = (st, out)" "db' = put_rows (ts_rows st) (shared_of st db)"
  using assms by (auto simp: insert_rows_eq split: prod.splits)

lemma insert_rows_effect:
  assumes "insert_rows auto env rows db = (db', out)"
  shows "db_grows auto db db' \<and> (db_ok db \<longrightarrow> db_ok db')
    \<and> (\<forall>res. out = Inr res \<longrightarrow> (\<forall>r \<in> set rows. row_safe auto c (td_devices db') (get_rows db') r)
        \<and> rs_Accepted res + rs_Duplicates res + rs_Rejected res = int (length rows))"
proof (rule insert_rows_cases [OF assms])
  fix st assume ins: "insert_into auto env t c rows (get_rows db) db = (st, out)" and db': "db' = put_rows (ts_rows st) (shared_of st db)"
  note eff = insert_into_effect [OF ins]
  have "db_grows auto db db'" using put_grows [OF eff(1-3)] by (simp add: db')
  moreover have "db_ok db \<longrightarrow> db_ok db'" using put_ok get_ok eff(2,4) by (simp add: db')
  moreover have "\<forall>r \<in> set rows. row_safe auto c (td_devices db') (get_rows db') r" if "out = Inr res" for res
    using eff(5) [OF that] by (simp add: db' get_put)
  ultimately show ?thesis using eff(6) by blast
qed

lemma safe_grows_rows:
  "db_grows auto db db' \<Longrightarrow> row_safe auto c (td_devices db) (get_rows db) r \<Longrightarrow> row_safe auto c (td_devices db') (get_rows db') r"
proof (erule row_safe_mono)
  assume g: "db_grows auto db db'"
  show "set (get_rows db) \<subseteq> set (get_rows db')" using g by (rule get_grows)
  show "td_devices db' d = None \<longleftrightarrow> td_devices db d = None" if "\<not> auto" for d using g that by (simp add: db_grows_def)
qed

text \<open>With no failing statement, rows that fit the table are always stored.\<close>

lemma insert_rows_succeeds:
  assumes "\<And>k n. \<exists>b. sv_create env k n = Inr b" and "sv_fails env = (\<lambda>_. None)" and "\<forall>r \<in> set rows. row_fits c r \<and> co_encodes c r \<and> co_check c (co_store c r)"
  shows "\<exists>db' res. insert_rows auto env rows db = (db', Inr res)"
proof -
  have "\<exists>st res. bulk_insert (sv_create env) auto (\<lambda>_. None) (sv_now env) t c rows (table_view (get_rows db) db) = (st, Inr res)"
    using assms(3) by (intro bulk_insert_succeeds [OF assms(1)]) (auto simp: row_fits_def)
  then show ?thesis by (auto simp: insert_rows_eq insert_into_def assms(2))
qed

lemma insert_rows_encodes: "insert_rows auto env rows db = (db', Inr res) \<Longrightarrow> r \<in> set rows \<Longrightarrow> co_encodes c r"
  by (elim insert_rows_cases) (auto simp: insert_into_def dest: bulk_insert_encodes)

end

sublocale telemetry_table \<subseteq> table: sink "\<lambda>n. insert_rows auto (env n)" "\<lambda>db. row_safe auto c (td_devices db) (get_rows db)" "db_grows auto" db_ok
  for auto env
  by unfold_locales (use insert_rows_effect safe_grows_rows db_grows_trans in \<open>blast | simp\<close>)+

text \<open>The same contract on the rows themselves: what is stored was in the range of its columns.\<close>

sublocale telemetry_table \<subseteq> range: sink "\<lambda>n. insert_rows auto (env n)" "\<lambda>_. co_encodes c" "\<lambda>_ _. True" "\<lambda>_. True"
  for auto env
  by unfold_locales (simp, simp, simp, simp, erule (1) insert_rows_encodes, erule table.flush_counts, simp)

lemmas table_laws = db_grows_def db_ok_def Let_def

interpretation readings: telemetry_table InsertReadings td_readings "\<lambda>rows db. db\<lparr>td_readings := rows\<rparr>" tReadings readingCols
  by unfold_locales (auto simp: InsertReadings_def table_laws intro: tstore_ok_other tstore_ok_same)

interpretation cycles: telemetry_table InsertCycleEvents td_cycles "\<lambda>rows db. db\<lparr>td_cycles := rows\<rparr>" tCycleEvents cycleEventCols
  by unfold_locales (auto simp: InsertCycleEvents_def table_laws intro: tstore_ok_other tstore_ok_same)

interpretation summaries: telemetry_table InsertStormSummaries td_summaries "\<lambda>rows db. db\<lparr>td_summaries := rows\<rparr>" tStormSummaries stormSummaryCols
  by unfold_locales (auto simp: InsertStormSummaries_def table_laws intro: tstore_ok_other tstore_ok_same)

interpretation alarms: telemetry_table InsertAlarmEvents td_alarms "\<lambda>rows db. db\<lparr>td_alarms := rows\<rparr>" tAlarmEvents alarmEventCols
  by unfold_locales (auto simp: InsertAlarmEvents_def table_laws intro: tstore_ok_other tstore_ok_same)

interpretation gauges: telemetry_table InsertRainGaugeUplinks td_gauges "\<lambda>rows db. db\<lparr>td_gauges := rows\<rparr>" tRainGaugeUplinks rainGaugeUplinkCols
  by unfold_locales (auto simp: InsertRainGaugeUplinks_def table_laws intro: tstore_ok_other tstore_ok_same)

fun item_safe :: "bool \<Rightarrow> telemetry_db \<Rightarrow> cycle_item \<Rightarrow> bool" where
  "item_safe auto db (ItemCycle r) = row_safe auto cycleEventCols (td_devices db) (td_cycles db) r"
| "item_safe auto db (ItemSummary r) = row_safe auto stormSummaryCols (td_devices db) (td_summaries db) r"

lemma item_cycles_set: "set (item_cycles items) = {r. ItemCycle r \<in> set items}"
  by (induction items rule: item_cycles.induct) auto

lemma item_summaries_set: "set (item_summaries items) = {r. ItemSummary r \<in> set items}"
  by (induction items rule: item_summaries.induct) auto

lemma item_lengths: "length (item_cycles items) + length (item_summaries items) = length items"
  by (induction items rule: item_cycles.induct) auto

lemma item_safe_grows: "db_grows auto db db' \<Longrightarrow> item_safe auto db x \<Longrightarrow> item_safe auto db' x"
  by (cases x) (auto intro: cycles.safe_grows_rows summaries.safe_grows_rows)

text \<open>A store call that is skipped for an empty list behaves as the insert of that list.\<close>

lemma insert_skipped:
  "InsertCycleEvents auto env [] db = (db, Inr no_result)" "InsertStormSummaries auto env [] db = (db, Inr no_result)"
  by (simp_all add: InsertCycleEvents_def InsertStormSummaries_def insert_into_def bulk_insert_def shared_of_def table_view_def)

lemma flush_items_eq:
  "flush_items auto env items db =
     (case InsertCycleEvents auto (env tCycleEvents) (item_cycles items) db of
        (db1, Inl e) \<Rightarrow> (db1, Inl e)
      | (db1, Inr r1) \<Rightarrow>
          (case InsertStormSummaries auto (env tStormSummaries) (item_summaries items) db1 of
             (db2, Inl e) \<Rightarrow> (db2, Inl e)
           | (db2, Inr r2) \<Rightarrow> (db2, Inr (plus_result r1 r2))))"
  by (cases "item_cycles items"; cases "item_summaries items") (simp_all add: flush_items_def insert_skipped split: prod.splits sum.splits)

lemma flush_items_effect:
  assumes "flush_items auto env items db = (db', out)"
  shows "db_grows auto db db' \<and> (db_ok db \<longrightarrow> db_ok db')
    \<and> (\<forall>res. out = Inr res \<longrightarrow> (\<forall>x \<in> set items. item_safe auto db' x) \<and> rs_Accepted res + rs_Duplicates res + rs_Rejected res = int (length items))"
proof -
  obtain db1 o1 where c: "InsertCycleEvents auto (env tCycleEvents) (item_cycles items) db = (db1, o1)" by fastforce
  note ce = cycles.insert_rows_effect [OF c]
  show ?thesis
  proof (cases o1)
    case (Inl e)
    then show ?thesis using assms c ce by (auto simp: flush_items_eq)
  next
    case (Inr r1)
    obtain db2 o2 where x: "InsertStormSummaries auto (env tStormSummaries) (item_summaries items) db1 = (db2, o2)" by fastforce
    note xe = summaries.insert_rows_effect [OF x]
    have db': "db' = db2" and out: "out = (case o2 of Inl e \<Rightarrow> Inl e | Inr r2 \<Rightarrow> Inr (plus_result r1 r2))"
      using assms c x Inr by (auto simp: flush_items_eq split: sum.splits)
    have "item_safe auto db' i" if "o2 = Inr r2" "i \<in> set items" for r2 i
      using that ce xe Inr cycles.safe_grows_rows
      by (cases i) (auto simp: item_cycles_set item_summaries_set db')
    moreover have "rs_Accepted (plus_result r1 r2) + rs_Duplicates (plus_result r1 r2) + rs_Rejected (plus_result r1 r2) = int (length items)" if "o2 = Inr r2" for r2
      using that ce xe Inr by (simp add: plus_result_def item_lengths [symmetric])
    ultimately show ?thesis using ce xe db_grows_trans unfolding db' out by (auto split: sum.splits)
  qed
qed

interpretation items: sink "\<lambda>n. flush_items auto (env n)" "item_safe auto" "db_grows auto" db_ok for auto env
  by unfold_locales (use flush_items_effect item_safe_grows db_grows_trans in \<open>blast | simp\<close>)+

fun item_encodes :: "cycle_item \<Rightarrow> bool" where
  "item_encodes (ItemCycle r) = co_encodes cycleEventCols r"
| "item_encodes (ItemSummary r) = co_encodes stormSummaryCols r"

lemma flush_items_encodes:
  assumes "flush_items auto env items db = (db', Inr res)" and "x \<in> set items"
  shows "item_encodes x"
  using assms cycles.insert_rows_encodes summaries.insert_rows_encodes
  by (cases x) (auto simp: flush_items_eq item_cycles_set item_summaries_set split: prod.splits sum.splits)

interpretation item_range: sink "\<lambda>n. flush_items auto (env n)" "\<lambda>_. item_encodes" "\<lambda>_ _. True" "\<lambda>_. True" for auto env
  by unfold_locales (simp, simp, simp, simp, erule (1) flush_items_encodes, erule items.flush_counts, simp)

section \<open>Guarantees\<close>

text \<open>
  C8: What validation establishes of a row, and what it leaves open. A message that is accepted becomes a row
  whose numbers are within the integer ranges, enum and scale of its table's columns and whose device name has the
  required form, and which satisfies the table's checks; for a rain gauge report the last holds exactly when the
  bucket size is at least half a micrometre, since a smaller one is accepted and then rounded to zero. The stamps
  and the gateway's name are passed on as they are: the row is within the range of \<^verbatim>\<open>timestamptz\<close> and \<^verbatim>\<open>text\<close>
  exactly when the message's own stamps and gateway name are.
\<close>

theorem accepted_rows_typed:
  "(readingRow s r = Inr row1 \<longrightarrow> row_fits readingCols row1 \<and> co_check readingCols (co_store readingCols row1)
        \<and> (co_encodes readingCols row1 \<longleftrightarrow> reading_clean r))
   \<and> (cycleRow s c = Inr row2 \<longrightarrow> row_fits cycleEventCols row2 \<and> co_check cycleEventCols (co_store cycleEventCols row2)
        \<and> (co_encodes cycleEventCols row2 \<longleftrightarrow> cycle_clean c))
   \<and> (summaryRow s x = Inr row3 \<longrightarrow> row_fits stormSummaryCols row3 \<and> co_check stormSummaryCols (co_store stormSummaryCols row3)
        \<and> (co_encodes stormSummaryCols row3 \<longleftrightarrow> summary_clean x))
   \<and> (alarmRow s a = Inr row4 \<longrightarrow> row_fits alarmEventCols row4 \<and> co_check alarmEventCols (co_store alarmEventCols row4)
        \<and> (co_encodes alarmEventCols row4 \<longleftrightarrow> alarm_clean a))
   \<and> (rainGaugeRow s g = Inr row5 \<longrightarrow> row_fits rainGaugeUplinkCols row5
        \<and> (co_check rainGaugeUplinkCols (co_store rainGaugeUplinkCols row5) \<longleftrightarrow> 5 / 10000 \<le> pg_MmPerTip g)
        \<and> (co_encodes rainGaugeUplinkCols row5 \<longleftrightarrow> rain_clean g))"
  using readingRow_fits [of s r row1] cycleRow_fits [of s c row2] summaryRow_fits [of s x row3] alarmRow_fits [of s a row4]
    rainGaugeRow_fits [of s g row5] readingRow_encodes [of s r row1] cycleRow_encodes [of s c row2]
    summaryRow_encodes [of s x row3] alarmRow_encodes [of s a row4] rainGaugeRow_encodes [of s g row5]
  by blast

lemma extract_rows_set: "set (extract_rows conv ps) = {row. \<exists>p \<in> set ps. conv p = Inr row}"
  by (induction ps) (auto split: sum.splits)

lemma arrived_set: "set (arrived ex es) = {row. \<exists>q. Arrive q \<in> set es \<and> row \<in> set (ex q)}"
  by (induction es) (auto simp: arrived_def split: event.splits)

lemma extract_items_set:
  "set (extract_items s q) = {ItemCycle row |row. \<exists>p \<in> set (rq_CycleEvents q). cycleRow s p = Inr row}
     \<union> {ItemSummary row |row. \<exists>p \<in> set (rq_StormSummaries q). summaryRow s p = Inr row}"
  by (auto simp: extract_items_def extract_rows_set)

lemmas stream_rows = arrived_set extract_rows_set extract_items_set

text \<open>
  Batching neither loses, repeats nor reorders rows, whatever the interleaving of requests and timer: the
  batches of a stream concatenate to the rows of its requests in order, none is empty, and a batch is
  shorter than the batch limit plus the largest request.
\<close>

theorem batch_loop_partitions:
  assumes "0 < BatchMax" and "\<forall>q. Arrive q \<in> set es \<longrightarrow> length (extract q) \<le> k"
  shows "concat (batch_loop BatchMax extract es []) = arrived extract es
    \<and> (\<forall>b \<in> set (batch_loop BatchMax extract es []). b \<noteq> [] \<and> length b < BatchMax + k)"
  using batch_loop_concat [of BatchMax "extract" es "[]"] batch_loop_nonempty [of BatchMax "extract" es "[]"]
    batch_loop_bound [OF assms(2), of "[]" BatchMax] assms(1) by auto

theorem batch_loop_partitions_witness:
  "concat (batch_loop 3 (\<lambda>q. q) [Arrive [1, 2 :: nat], Due, Arrive [], Arrive [3], Arrive [4, 5]] []) = [1, 2, 3, 4, 5]
   \<and> batch_loop 3 (\<lambda>q. q) [Arrive [1, 2 :: nat], Due, Arrive [], Arrive [3], Arrive [4, 5]] [] = [[1, 2], [3, 4, 5]]"
  using batch_loop_partitions [of 3 "[Arrive [1, 2 :: nat], Due, Arrive [], Arrive [3], Arrive [4, 5]]" "\<lambda>q. q" 2] by simp

text \<open>A message is handled when validation rejects it or its row is safe.\<close>

definition handled :: "('p \<Rightarrow> reject + 'r) \<Rightarrow> ('r \<Rightarrow> bool) \<Rightarrow> 'p \<Rightarrow> bool" where
  "handled conv safe p \<longleftrightarrow> (case conv p of Inl why \<Rightarrow> True | Inr row \<Rightarrow> safe row)"

definition reading_handled :: "ingest_server \<Rightarrow> bool \<Rightarrow> telemetry_db \<Rightarrow> pb_reading \<Rightarrow> bool" where
  "reading_handled s auto db = handled (readingRow s) (row_safe auto readingCols (td_devices db) (td_readings db))"
definition cycle_handled :: "ingest_server \<Rightarrow> bool \<Rightarrow> telemetry_db \<Rightarrow> pb_cycle \<Rightarrow> bool" where
  "cycle_handled s auto db = handled (cycleRow s) (row_safe auto cycleEventCols (td_devices db) (td_cycles db))"
definition summary_handled :: "ingest_server \<Rightarrow> bool \<Rightarrow> telemetry_db \<Rightarrow> pb_summary \<Rightarrow> bool" where
  "summary_handled s auto db = handled (summaryRow s) (row_safe auto stormSummaryCols (td_devices db) (td_summaries db))"
definition alarm_handled :: "ingest_server \<Rightarrow> bool \<Rightarrow> telemetry_db \<Rightarrow> pb_alarm \<Rightarrow> bool" where
  "alarm_handled s auto db = handled (alarmRow s) (row_safe auto alarmEventCols (td_devices db) (td_alarms db))"
definition rain_handled :: "ingest_server \<Rightarrow> bool \<Rightarrow> telemetry_db \<Rightarrow> pb_rain \<Rightarrow> bool" where
  "rain_handled s auto db = handled (rainGaugeRow s) (row_safe auto rainGaugeUplinkCols (td_devices db) (td_gauges db))"

lemmas handled_defs = handled_def reading_handled_def cycle_handled_def summary_handled_def alarm_handled_def rain_handled_def

text \<open>What a submit call guarantees, over its requests.\<close>

definition submit_ok :: "bool \<Rightarrow> telemetry_db \<Rightarrow> telemetry_db \<Rightarrow> ending \<Rightarrow> grpc_code + submit_response \<Rightarrow> bool \<Rightarrow> bool" where
  "submit_ok auto db db' fin out all_handled \<longleftrightarrow> db_grows auto db db' \<and> (db_ok db \<longrightarrow> db_ok db') \<and> ((\<exists>resp. out = Inr resp) \<longrightarrow> fin = Eof \<and> all_handled)"

lemma submit_ok_inv: "submit_ok auto db db' fin out h \<Longrightarrow> db_ok db \<Longrightarrow> db_ok db'"
  by (simp add: submit_ok_def)

lemma SubmitReadings_ok:
  assumes "SubmitReadings s auto env es fin db = (db', out)"
  shows "submit_ok auto db db' fin out (\<forall>q. Arrive q \<in> set es \<longrightarrow> (\<forall>p \<in> set q. reading_handled s auto db' p))"
  using readings.table.respond_stream [OF assms [unfolded SubmitReadings_def]]
  unfolding submit_ok_def stream_rows handled_defs by (fastforce split: sum.splits)

lemma SubmitAlarms_ok:
  assumes "SubmitAlarms s auto env es fin db = (db', out)"
  shows "submit_ok auto db db' fin out (\<forall>q. Arrive q \<in> set es \<longrightarrow> (\<forall>p \<in> set q. alarm_handled s auto db' p))"
  using alarms.table.respond_stream [OF assms [unfolded SubmitAlarms_def]]
  unfolding submit_ok_def stream_rows handled_defs by (fastforce split: sum.splits)

lemma SubmitRainGaugeReadings_ok:
  assumes "SubmitRainGaugeReadings s auto env es fin db = (db', out)"
  shows "submit_ok auto db db' fin out (\<forall>q. Arrive q \<in> set es \<longrightarrow> (\<forall>p \<in> set q. rain_handled s auto db' p))"
  using gauges.table.respond_stream [OF assms [unfolded SubmitRainGaugeReadings_def]]
  unfolding submit_ok_def stream_rows handled_defs by (fastforce split: sum.splits)

lemma SubmitCycleEvents_ok:
  assumes "SubmitCycleEvents s auto env es fin db = (db', out)"
  shows "submit_ok auto db db' fin out (\<forall>q. Arrive q \<in> set es \<longrightarrow>
    (\<forall>p \<in> set (rq_CycleEvents q). cycle_handled s auto db' p) \<and> (\<forall>p \<in> set (rq_StormSummaries q). summary_handled s auto db' p))"
proof -
  note run = items.respond_stream [OF assms [unfolded SubmitCycleEvents_def], unfolded arrived_set]
  have safe: "item_safe auto db' x" if "out = Inr resp" "Arrive q \<in> set es" "x \<in> set (extract_items s q)" for resp q x
    using run that by blast
  have "cycle_handled s auto db' p" if "out = Inr resp" "Arrive q \<in> set es" "p \<in> set (rq_CycleEvents q)" for resp q p
    using safe [OF that(1,2), of "ItemCycle _"] that(3) by (auto simp: handled_defs extract_items_set split: sum.splits)
  moreover have "summary_handled s auto db' p" if "out = Inr resp" "Arrive q \<in> set es" "p \<in> set (rq_StormSummaries q)" for resp q p
    using safe [OF that(1,2), of "ItemSummary _"] that(3) by (auto simp: handled_defs extract_items_set split: sum.splits)
  ultimately show ?thesis using run unfolding submit_ok_def by blast
qed

text \<open>
  C5: A stream that is answered has stored everything. Whatever happens to a stream, the database only
  grows; and when one of the four submit calls returns counts, the client's stream ended normally and every
  message was rejected by validation, or has its row stored under its primary key, or comes from an unknown
  sender while registration is off.
\<close>

theorem submit_stores_every_row:
  "(SubmitReadings s auto env es1 fin db = (db1, out1) \<longrightarrow> db_grows auto db db1
      \<and> (\<forall>resp. out1 = Inr resp \<longrightarrow> fin = Eof \<and> (\<forall>q. Arrive q \<in> set es1 \<longrightarrow> (\<forall>p \<in> set q. reading_handled s auto db1 p))))
   \<and> (SubmitCycleEvents s auto env es2 fin db = (db2, out2) \<longrightarrow> db_grows auto db db2
      \<and> (\<forall>resp. out2 = Inr resp \<longrightarrow> fin = Eof \<and> (\<forall>q. Arrive q \<in> set es2 \<longrightarrow>
           (\<forall>p \<in> set (rq_CycleEvents q). cycle_handled s auto db2 p) \<and> (\<forall>p \<in> set (rq_StormSummaries q). summary_handled s auto db2 p))))
   \<and> (SubmitAlarms s auto env es3 fin db = (db3, out3) \<longrightarrow> db_grows auto db db3
      \<and> (\<forall>resp. out3 = Inr resp \<longrightarrow> fin = Eof \<and> (\<forall>q. Arrive q \<in> set es3 \<longrightarrow> (\<forall>p \<in> set q. alarm_handled s auto db3 p))))
   \<and> (SubmitRainGaugeReadings s auto env es4 fin db = (db4, out4) \<longrightarrow> db_grows auto db db4
      \<and> (\<forall>resp. out4 = Inr resp \<longrightarrow> fin = Eof \<and> (\<forall>q. Arrive q \<in> set es4 \<longrightarrow> (\<forall>p \<in> set q. rain_handled s auto db4 p))))"
  using SubmitReadings_ok [of s auto env es1 fin db db1 out1] SubmitCycleEvents_ok [of s auto env es2 fin db db2 out2]
    SubmitAlarms_ok [of s auto env es3 fin db db3 out3] SubmitRainGaugeReadings_ok [of s auto env es4 fin db db4 out4]
  unfolding submit_ok_def by blast

lemma arrived_row:
  "\<forall>r \<in> set (arrived (extract_rows conv) es). enc r \<Longrightarrow> Arrive q \<in> set es \<Longrightarrow> p \<in> set q \<Longrightarrow> conv p = Inr row \<Longrightarrow> enc row"
  by (auto simp: stream_rows)

lemma SubmitReadings_encodes:
  assumes "SubmitReadings s auto env es fin db = (db', Inr resp)"
  shows "\<forall>r \<in> set (arrived (extract_rows (readingRow s)) es). co_encodes readingCols r"
  using readings.range.respond_stream [OF assms [unfolded SubmitReadings_def]] by blast

lemma SubmitCycleEvents_encodes:
  assumes "SubmitCycleEvents s auto env es fin db = (db', Inr resp)"
  shows "\<forall>r \<in> set (arrived (extract_items s) es). item_encodes r"
  using item_range.respond_stream [OF assms [unfolded SubmitCycleEvents_def]] by blast

lemma SubmitAlarms_encodes:
  assumes "SubmitAlarms s auto env es fin db = (db', Inr resp)"
  shows "\<forall>r \<in> set (arrived (extract_rows (alarmRow s)) es). co_encodes alarmEventCols r"
  using alarms.range.respond_stream [OF assms [unfolded SubmitAlarms_def]] by blast

lemma SubmitRainGaugeReadings_encodes:
  assumes "SubmitRainGaugeReadings s auto env es fin db = (db', Inr resp)"
  shows "\<forall>r \<in> set (arrived (extract_rows (rainGaugeRow s)) es). co_encodes rainGaugeUplinkCols r"
  using gauges.range.respond_stream [OF assms [unfolded SubmitRainGaugeReadings_def]] by blast

lemma out_cases:
  assumes "\<And>db' resp. x = (db', Inr resp) \<Longrightarrow> False"
  shows "\<exists>e. snd x = Inl e"
  using assms by (cases x; cases "snd x") auto

text \<open>
  A message the columns cannot hold blocks its stream. If validation accepts a message one of whose stamps is
  outside the range of \<^verbatim>\<open>timestamptz\<close>, or whose gateway name has a NUL, then the submit call that carries it is
  never answered with counts, whatever the database does, however the messages are batched, and however
  often the client sends them again.
\<close>

theorem unclean_messages_block:
  "(Arrive q1 \<in> set es1 \<and> p1 \<in> set q1 \<and> readingRow s p1 = Inr row1 \<and> \<not> reading_clean p1
      \<longrightarrow> (\<exists>e. snd (SubmitReadings s auto env es1 fin db) = Inl e))
   \<and> (Arrive q2 \<in> set es2 \<and> p2 \<in> set (rq_CycleEvents q2) \<and> cycleRow s p2 = Inr row2 \<and> \<not> cycle_clean p2
      \<longrightarrow> (\<exists>e. snd (SubmitCycleEvents s auto env es2 fin db) = Inl e))
   \<and> (Arrive q2 \<in> set es2 \<and> p3 \<in> set (rq_StormSummaries q2) \<and> summaryRow s p3 = Inr row3 \<and> \<not> summary_clean p3
      \<longrightarrow> (\<exists>e. snd (SubmitCycleEvents s auto env es2 fin db) = Inl e))
   \<and> (Arrive q4 \<in> set es4 \<and> p4 \<in> set q4 \<and> alarmRow s p4 = Inr row4 \<and> \<not> alarm_clean p4
      \<longrightarrow> (\<exists>e. snd (SubmitAlarms s auto env es4 fin db) = Inl e))
   \<and> (Arrive q5 \<in> set es5 \<and> p5 \<in> set q5 \<and> rainGaugeRow s p5 = Inr row5 \<and> \<not> rain_clean p5
      \<longrightarrow> (\<exists>e. snd (SubmitRainGaugeReadings s auto env es5 fin db) = Inl e))"
proof (intro conjI impI; elim conjE; rule out_cases)
  fix db' resp assume m: "Arrive q1 \<in> set es1" "p1 \<in> set q1" "readingRow s p1 = Inr row1" "\<not> reading_clean p1"
    and run: "SubmitReadings s auto env es1 fin db = (db', Inr resp)"
  show False using arrived_row [OF SubmitReadings_encodes [OF run] m(1-3)] readingRow_encodes [OF m(3)] m(4) by blast
next
  fix db' resp assume m: "Arrive q2 \<in> set es2" "p2 \<in> set (rq_CycleEvents q2)" "cycleRow s p2 = Inr row2" "\<not> cycle_clean p2"
    and run: "SubmitCycleEvents s auto env es2 fin db = (db', Inr resp)"
  have "ItemCycle row2 \<in> set (arrived (extract_items s) es2)" using m(1-3) by (auto simp: stream_rows)
  then have "co_encodes cycleEventCols row2" using SubmitCycleEvents_encodes [OF run] item_encodes.simps(1) by blast
  then show False using cycleRow_encodes [OF m(3)] m(4) by blast
next
  fix db' resp assume m: "Arrive q2 \<in> set es2" "p3 \<in> set (rq_StormSummaries q2)" "summaryRow s p3 = Inr row3" "\<not> summary_clean p3"
    and run: "SubmitCycleEvents s auto env es2 fin db = (db', Inr resp)"
  have "ItemSummary row3 \<in> set (arrived (extract_items s) es2)" using m(1-3) by (auto simp: stream_rows)
  then have "co_encodes stormSummaryCols row3" using SubmitCycleEvents_encodes [OF run] item_encodes.simps(2) by blast
  then show False using summaryRow_encodes [OF m(3)] m(4) by blast
next
  fix db' resp assume m: "Arrive q4 \<in> set es4" "p4 \<in> set q4" "alarmRow s p4 = Inr row4" "\<not> alarm_clean p4"
    and run: "SubmitAlarms s auto env es4 fin db = (db', Inr resp)"
  show False using arrived_row [OF SubmitAlarms_encodes [OF run] m(1-3)] alarmRow_encodes [OF m(3)] m(4) by blast
next
  fix db' resp assume m: "Arrive q5 \<in> set es5" "p5 \<in> set q5" "rainGaugeRow s p5 = Inr row5" "\<not> rain_clean p5"
    and run: "SubmitRainGaugeReadings s auto env es5 fin db = (db', Inr resp)"
  show False using arrived_row [OF SubmitRainGaugeReadings_encodes [OF run] m(1-3)] rainGaugeRow_encodes [OF m(3)] m(4) by blast
qed

text \<open>
  The constraints of the database survive every stream, whether it is answered, fails or breaks off:
  primary keys stay distinct, every row of the five tables keeps its checks and a registered device, and
  device names keep their form.
\<close>

theorem streams_keep_constraints:
  assumes "db_ok db"
  shows "db_ok (fst (SubmitReadings s auto env es1 fin db)) \<and> db_ok (fst (SubmitCycleEvents s auto env es2 fin db))
    \<and> db_ok (fst (SubmitAlarms s auto env es3 fin db)) \<and> db_ok (fst (SubmitRainGaugeReadings s auto env es4 fin db))"
  by (intro conjI submit_ok_inv [OF SubmitReadings_ok [OF surjective_pairing] assms] submit_ok_inv [OF SubmitCycleEvents_ok [OF surjective_pairing] assms]
    submit_ok_inv [OF SubmitAlarms_ok [OF surjective_pairing] assms] submit_ok_inv [OF SubmitRainGaugeReadings_ok [OF surjective_pairing] assms])

section \<open>Progress\<close>

text \<open>The database answers every statement.\<close>

definition store_answers :: "store_env \<Rightarrow> bool" where
  "store_answers env \<longleftrightarrow> (\<forall>k n. \<exists>b. sv_create env k n = Inr b) \<and> sv_fails env = (\<lambda>_. None)"

lemma runStream_answered:
  assumes "\<And>n rows db. set rows \<subseteq> set (arrived ex es) \<Longrightarrow> \<exists>db' res. flush n rows db = (db', Inr res)"
  shows "\<exists>db' resp. respond (runStream s ex flush es Eof db) = (db', Inr resp)"
proof -
  let ?bs = "batch_loop (ig_BatchMax (is_cfg s)) ex es []"
  have "store_batches flush n bs db c = (db', out) \<Longrightarrow> set (concat bs) \<subseteq> set (arrived ex es) \<Longrightarrow> \<exists>c'. out = Inr c'" for n bs db c db' out
  proof (induction bs arbitrary: n db c)
    case (Cons b bs)
    then obtain db1 res where "flush n b db = (db1, Inr res)" using assms [of b n db] by auto
    then show ?case using Cons by simp
  qed auto
  then obtain db' c where "store_batches flush 0 ?bs db no_counts = (db', Inr c)"
    using batch_loop_concat [of _ ex es "[]"] by (metis append_Nil order_refl prod.collapse)
  then show ?thesis by (simp add: runStream_def respond_def)
qed

lemma items_succeed:
  assumes "store_answers (env tCycleEvents)" "store_answers (env tStormSummaries)"
    and "\<forall>x \<in> set items. case x of ItemCycle r \<Rightarrow> row_fits cycleEventCols r \<and> co_encodes cycleEventCols r \<and> co_check cycleEventCols (co_store cycleEventCols r)
       | ItemSummary r \<Rightarrow> row_fits stormSummaryCols r \<and> co_encodes stormSummaryCols r \<and> co_check stormSummaryCols (co_store stormSummaryCols r)"
  shows "\<exists>db' res. flush_items auto env items db = (db', Inr res)"
proof -
  have rows: "\<forall>r \<in> set (item_cycles items). row_fits cycleEventCols r \<and> co_encodes cycleEventCols r \<and> co_check cycleEventCols (co_store cycleEventCols r)"
    "\<forall>r \<in> set (item_summaries items). row_fits stormSummaryCols r \<and> co_encodes stormSummaryCols r \<and> co_check stormSummaryCols (co_store stormSummaryCols r)"
    using assms(3) by (auto simp: item_cycles_set item_summaries_set)
  obtain db1 r1 where c: "InsertCycleEvents auto (env tCycleEvents) (item_cycles items) db = (db1, Inr r1)"
    using cycles.insert_rows_succeeds [of "env tCycleEvents"] assms(1) rows(1) unfolding store_answers_def by metis
  obtain db2 r2 where "InsertStormSummaries auto (env tStormSummaries) (item_summaries items) db1 = (db2, Inr r2)"
    using summaries.insert_rows_succeeds [of "env tStormSummaries"] assms(2) rows(2) unfolding store_answers_def by metis
  then show ?thesis using c by (simp add: flush_items_eq)
qed

lemma store_answers_env: "store_answers env \<Longrightarrow> \<exists>b. sv_create env k j = Inr b" "store_answers env \<Longrightarrow> sv_fails env = (\<lambda>_. None)"
  by (simp_all add: store_answers_def)

text \<open>Every accepted message of the stream is one the columns hold.\<close>

definition stream_clean :: "('p \<Rightarrow> reject + 'r) \<Rightarrow> ('p \<Rightarrow> bool) \<Rightarrow> ('q \<Rightarrow> 'p list) \<Rightarrow> 'q event list \<Rightarrow> bool" where
  "stream_clean conv clean msgs es \<longleftrightarrow> (\<forall>q p row. Arrive q \<in> set es \<longrightarrow> p \<in> set (msgs q) \<longrightarrow> conv p = Inr row \<longrightarrow> clean p)"

lemma SubmitReadings_answered:
  assumes "\<forall>n t. store_answers (env n t)" and "stream_clean (readingRow s) reading_clean id es"
  shows "\<exists>db' resp. SubmitReadings s auto env es Eof db = (db', Inr resp)"
  unfolding SubmitReadings_def
  by (rule runStream_answered, rule readings.insert_rows_succeeds [OF store_answers_env])
    (use assms in \<open>auto simp: stream_rows stream_clean_def readingRow_encodes subset_iff dest: readingRow_fits\<close>)

lemma SubmitAlarms_answered:
  assumes "\<forall>n t. store_answers (env n t)" and "stream_clean (alarmRow s) alarm_clean id es"
  shows "\<exists>db' resp. SubmitAlarms s auto env es Eof db = (db', Inr resp)"
  unfolding SubmitAlarms_def
  by (rule runStream_answered, rule alarms.insert_rows_succeeds [OF store_answers_env])
    (use assms in \<open>auto simp: stream_rows stream_clean_def alarmRow_encodes subset_iff dest: alarmRow_fits\<close>)

lemma SubmitRainGaugeReadings_answered:
  assumes "\<forall>n t. store_answers (env n t)" and "stream_clean (rainGaugeRow s) rain_clean id es"
    and "\<forall>q p row. Arrive q \<in> set es \<longrightarrow> p \<in> set q \<longrightarrow> rainGaugeRow s p = Inr row \<longrightarrow> 5 / 10000 \<le> pg_MmPerTip p"
  shows "\<exists>db' resp. SubmitRainGaugeReadings s auto env es Eof db = (db', Inr resp)"
  unfolding SubmitRainGaugeReadings_def
proof (rule runStream_answered, rule gauges.insert_rows_succeeds [OF store_answers_env], goal_cases)
  case (3 n rows db)
  show ?case
  proof
    fix r assume "r \<in> set rows"
    then obtain q p where "Arrive q \<in> set es" "p \<in> set q" "rainGaugeRow s p = Inr r" using 3 by (auto simp: stream_rows)
    then show "row_fits rainGaugeUplinkCols r \<and> co_encodes rainGaugeUplinkCols r \<and> co_check rainGaugeUplinkCols (co_store rainGaugeUplinkCols r)"
      using rainGaugeRow_fits rainGaugeRow_encodes assms(2,3) unfolding stream_clean_def by (metis id_apply)
  qed
qed (use assms(1) in auto)

lemma SubmitCycleEvents_answered:
  assumes "\<forall>n t. store_answers (env n t)" and "stream_clean (cycleRow s) cycle_clean rq_CycleEvents es"
    "stream_clean (summaryRow s) summary_clean rq_StormSummaries es"
  shows "\<exists>db' resp. SubmitCycleEvents s auto env es Eof db = (db', Inr resp)"
  unfolding SubmitCycleEvents_def
proof (rule runStream_answered, rule items_succeed, goal_cases)
  case (3 n rows db)
  show ?case
  proof
    fix x assume "x \<in> set rows"
    then have "x \<in> set (arrived (extract_items s) es)" using 3 by blast
    then show "case x of ItemCycle r \<Rightarrow> row_fits cycleEventCols r \<and> co_encodes cycleEventCols r \<and> co_check cycleEventCols (co_store cycleEventCols r)
        | ItemSummary r \<Rightarrow> row_fits stormSummaryCols r \<and> co_encodes stormSummaryCols r \<and> co_check stormSummaryCols (co_store stormSummaryCols r)"
      using assms(2,3) unfolding stream_clean_def
      by (auto simp: stream_rows cycleRow_encodes summaryRow_encodes dest: cycleRow_fits summaryRow_fits)
  qed
qed (use assms in auto)

text \<open>
  A stream that ends normally is answered whenever the database answers: no message, however malformed,
  makes a submit call fail, provided the accepted messages are clean and every accepted rain gauge report has a
  bucket of at least half a micrometre.
\<close>

theorem faultless_streams_answered:
  assumes "\<forall>n t. store_answers (env n t)"
    and "stream_clean (readingRow s) reading_clean id es1" "stream_clean (cycleRow s) cycle_clean rq_CycleEvents es2"
      "stream_clean (summaryRow s) summary_clean rq_StormSummaries es2" "stream_clean (alarmRow s) alarm_clean id es3"
      "stream_clean (rainGaugeRow s) rain_clean id es4"
    and "\<forall>q p row. Arrive q \<in> set es4 \<longrightarrow> p \<in> set q \<longrightarrow> rainGaugeRow s p = Inr row \<longrightarrow> 5 / 10000 \<le> pg_MmPerTip p"
  shows "(\<exists>db' resp. SubmitReadings s auto env es1 Eof db = (db', Inr resp)) \<and> (\<exists>db' resp. SubmitCycleEvents s auto env es2 Eof db = (db', Inr resp))
    \<and> (\<exists>db' resp. SubmitAlarms s auto env es3 Eof db = (db', Inr resp)) \<and> (\<exists>db' resp. SubmitRainGaugeReadings s auto env es4 Eof db = (db', Inr resp))"
  by (intro conjI SubmitReadings_answered [OF assms(1,2)] SubmitCycleEvents_answered [OF assms(1,3,4)] SubmitAlarms_answered [OF assms(1,5)]
    SubmitRainGaugeReadings_answered [OF assms(1,6,7)])

section \<open>Examples\<close>

definition demo_server :: ingest_server where
  "demo_server = \<lparr>is_now = 1000 * second, is_cfg = ingest_DefaultConfig, is_parse_uuid = (\<lambda>_. None)\<rparr>"

definition demo_meta :: "uplink_meta option" where
  "demo_meta = Some \<lparr>um_DevEui = ''70B3D57ED0000001'', um_FCnt = 7, um_ReceivedAt = Some (900 * second), um_DeduplicationId = '''',
     um_RssiDbm = - 90, um_SnrDb = 5, um_SpreadingFactor = 7, um_GatewayId = ''gw''\<rparr>"

definition demo_pb_reading :: pb_reading where
  "demo_pb_reading = \<lparr>pr_Meta = demo_meta, pr_Ts = None, pr_LevelMm = 4000000000, pr_TempC = 12, pr_RhPct = 70000, pr_BattMv = 3600, pr_CyclesSinceLast = 2, pr_Flags = None\<rparr>"

definition demo_pb_rain :: pb_rain where
  "demo_pb_rain = \<lparr>pg_Meta = demo_meta, pg_Ts = None, pg_TipCount = 3, pg_MmPerTip = 1 / 5000, pg_IntervalS = 60, pg_BattMv = 3600,
     pg_CounterReset = False, pg_SensorFault = False\<rparr>"

definition demo_stream_env :: stream_env where
  "demo_stream_env = (\<lambda>_ _. \<lparr>sv_create = (\<lambda>_ _. Inr True), sv_fails = (\<lambda>_. None), sv_now = 2000 * second\<rparr>)"

definition demo_tdb :: telemetry_db where
  "demo_tdb = \<lparr>td_devices = Map.empty, td_months = [], td_notes = [], td_readings = [], td_cycles = [], td_summaries = [], td_alarms = [], td_gauges = []\<rparr>"

lemma demo_dev_ok: "map to_lower ''70B3D57ED0000001'' = ''70b3d57ed0000001''" "devEUI_ok ''70b3d57ed0000001''"
  by code_simp+

lemma demo_meta_ok: "\<exists>received meta. metaOf demo_server demo_meta = Inr (''70b3d57ed0000001'', received, meta)"
  by (simp add: metaOf_def demo_meta_def demo_server_def ingest_DefaultConfig_def too_far_def go_time demo_dev_ok Let_def del: list.map)

lemma demo_rows_ok: "\<exists>row. readingRow demo_server demo_pb_reading = Inr row" "\<exists>row. rainGaugeRow demo_server demo_pb_rain = Inr row"
  using demo_meta_ok by (auto simp: readingRow_def rainGaugeRow_def demo_pb_reading_def demo_pb_rain_def maxMMPerTip_def)

lemma demo_env_answers: "\<forall>n t. store_answers (demo_stream_env n t)"
  by (auto simp: store_answers_def demo_stream_env_def)

lemma demo_clean: "stream_clean (readingRow demo_server) reading_clean id [Arrive [demo_pb_reading], Due]"
  by (simp add: stream_clean_def clean_defs gateway_clean_def pg_text_def timestamptz_def demo_pb_reading_def demo_meta_def go_time)

lemma demo_stream: "\<exists>db' resp. SubmitReadings demo_server True demo_stream_env [Arrive [demo_pb_reading], Due] Eof demo_tdb = (db', Inr resp)"
  using SubmitReadings_answered [OF demo_env_answers demo_clean] by blast

theorem accepted_rows_typed_witness:
  "\<exists>row1 row5. readingRow demo_server demo_pb_reading = Inr row1 \<and> row_fits readingCols row1
     \<and> rainGaugeRow demo_server demo_pb_rain = Inr row5 \<and> row_fits rainGaugeUplinkCols row5 \<and> \<not> co_check rainGaugeUplinkCols (co_store rainGaugeUplinkCols row5)
     \<and> co_encodes rainGaugeUplinkCols row5"
proof -
  obtain row1 row5 where rows: "readingRow demo_server demo_pb_reading = Inr row1" "rainGaugeRow demo_server demo_pb_rain = Inr row5"
    using demo_rows_ok by blast
  have "\<not> 5 / 10000 \<le> pg_MmPerTip demo_pb_rain" "rain_clean demo_pb_rain"
    by (simp_all add: clean_defs gateway_clean_def pg_text_def timestamptz_def demo_pb_rain_def demo_meta_def go_time)
  then show ?thesis using accepted_rows_typed [of demo_server demo_pb_reading row1 _ _ _ _ _ _ demo_pb_rain row5] rows by blast
qed

theorem submit_stores_every_row_witness:
  "\<exists>db' resp. SubmitReadings demo_server True demo_stream_env [Arrive [demo_pb_reading], Due] Eof demo_tdb = (db', Inr resp) \<and> reading_handled demo_server True db' demo_pb_reading"
proof -
  obtain db' resp where run: "SubmitReadings demo_server True demo_stream_env [Arrive [demo_pb_reading], Due] Eof demo_tdb = (db', Inr resp)"
    using demo_stream by blast
  show ?thesis
    using submit_stores_every_row [of demo_server True demo_stream_env "[Arrive [demo_pb_reading], Due]" Eof demo_tdb db' "Inr resp"] run by auto
qed

text \<open>An alarm raised in the year 30000 BC, give or take, from a sender the validation accepts.\<close>

definition demo_pb_alarm :: pb_alarm where
  "demo_pb_alarm = \<lparr>pa_Meta = demo_meta, pa_RaisedAt = Some (- 1000000000000 * second), pa_Code = 1, pa_Value = 0\<rparr>"

theorem unclean_messages_block_witness:
  "(\<exists>row. alarmRow demo_server demo_pb_alarm = Inr row)
   \<and> (\<exists>e. snd (SubmitAlarms demo_server True demo_stream_env [Arrive [demo_pb_alarm]] Eof demo_tdb) = Inl e)"
proof -
  obtain row where row: "alarmRow demo_server demo_pb_alarm = Inr row"
    using demo_meta_ok by (auto simp: alarmRow_def demo_pb_alarm_def)
  have "\<not> alarm_clean demo_pb_alarm" by (simp add: clean_defs timestamptz_def demo_pb_alarm_def go_time)
  then show ?thesis
    using unclean_messages_block [of _ _ _ demo_server _ True demo_stream_env Eof demo_tdb _ _ _ _ _ _ "[demo_pb_alarm]" "[Arrive [demo_pb_alarm]]" demo_pb_alarm row] row
    by auto
qed

theorem streams_keep_constraints_witness:
  "db_ok (fst (SubmitReadings demo_server True demo_stream_env [Arrive [demo_pb_reading], Due] Eof demo_tdb))"
  using streams_keep_constraints [of demo_tdb] by (simp add: db_ok_def tstore_ok_def table_view_def keys_of_def demo_tdb_def)

theorem faultless_streams_answered_witness:
  "\<exists>db' resp. SubmitReadings demo_server True demo_stream_env [Arrive [demo_pb_reading], Due] Eof demo_tdb = (db', Inr resp)"
  using faultless_streams_answered [OF demo_env_answers demo_clean, of "[]" "[]" "[]"] by (simp add: stream_clean_def)

end
