(* ===== verification/Frames.thy ===== *)
theory Frames
  imports Ingest Codec
begin

text \<open>
  From MQTT messages to telemetry messages: \<^verbatim>\<open>FromUplink\<close> of \<^verbatim>\<open>internal/bridge/convert.go\<close>, the topics and the decoder
  of ChirpStack events (\<^verbatim>\<open>internal/chirpstack/uplink.go\<close>, \<^verbatim>\<open>internal/lorabridge/convert.go\<close>) and of Wi-Fi nodes
  (\<^verbatim>\<open>internal/nodebridge/convert.go\<close>). The JSON readers and the name-based UUID are parameters.
\<close>

section \<open>Decoded uplinks\<close>

record decoded =
  dc_Reading :: "pb_reading option"
  dc_Cycle :: "pb_cycle option"
  dc_Summary :: "pb_summary option"
  dc_Alarm :: "pb_alarm option"
  dc_RainGauge :: "pb_rain option"
  dc_TimeFallback :: bool

definition no_decoded :: decoded where
  "no_decoded = \<lparr>dc_Reading = None, dc_Cycle = None, dc_Summary = None, dc_Alarm = None, dc_RainGauge = None, dc_TimeFallback = False\<rparr>"

datatype drop_error = DropError string

definition FromUplink :: "uplink \<Rightarrow> uplink_meta \<Rightarrow> instant \<Rightarrow> decoded" where
  "FromUplink u meta eventTime =
     (case u of
        Heartbeat v \<Rightarrow> no_decoded\<lparr>dc_Reading := Some \<lparr>pr_Meta = Some meta, pr_Ts = Some eventTime,
          pr_LevelMm = ucast (hb_LevelMM v), pr_TempC = real_of_int (sint (hb_TempCentiC v)) / 100, pr_RhPct = ucast (hb_RHPct v),
          pr_BattMv = ucast (hb_BattMV v), pr_CyclesSinceLast = ucast (hb_CyclesSinceLast v),
          pr_Flags = Some \<lparr>fl_MainsOk = Has (hb_Flags v) FlagMainsOK, fl_FloatHigh = Has (hb_Flags v) FlagFloatHigh,
            fl_BackupRan = Has (hb_Flags v) FlagBackupRan, fl_SensorFault = Has (hb_Flags v) FlagSensorFault\<rparr>\<rparr>\<rparr>
      | CycleEvent v \<Rightarrow> no_decoded\<lparr>dc_Cycle := Some \<lparr>pc_Meta = Some meta, pc_StartedAt = Some (eventTime - uint (ce_StartOffsetS v) * second),
          pc_RunS = ucast (ce_RunS v), pc_PeakCurrentA = real (unat (ce_PeakCurrentDA v)) / 10,
          pc_LevelStartMm = ucast (ce_LevelStartMM v), pc_LevelEndMm = ucast (ce_LevelEndMM v),
          pc_PumpId = (if ce_PumpID v = PumpBackup then PUMP_ID_BACKUP else PUMP_ID_PRIMARY)\<rparr>\<rparr>
      | Alarm v \<Rightarrow> no_decoded\<lparr>dc_Alarm := Some \<lparr>pa_Meta = Some meta, pa_RaisedAt = Some eventTime, pa_Code = uint (al_Code v), pa_Value = ucast (al_Value v)\<rparr>\<rparr>
      | StormSummary v \<Rightarrow> no_decoded\<lparr>dc_Summary := Some \<lparr>ps_Meta = Some meta, ps_WindowEnd = Some eventTime, ps_WindowS = ucast (ss_WindowS v),
          ps_Count = ucast (ss_Count v), ps_TotalRunS = ucast (ss_TotalRunS v), ps_MaxPeakCurrentA = real (unat (ss_MaxPeakCurrentDA v)) / 10,
          ps_MinLevelMm = ucast (ss_MinLevelMM v)\<rparr>\<rparr>
      | RainGauge v \<Rightarrow> no_decoded\<lparr>dc_RainGauge := Some \<lparr>pg_Meta = Some meta, pg_Ts = Some eventTime, pg_TipCount = rg_TipCount v,
          pg_MmPerTip = real (unat (rg_MMPerTipUM v)) / 1000, pg_IntervalS = ucast (rg_IntervalS v), pg_BattMv = ucast (rg_BattMV v),
          pg_CounterReset = Has (rg_Flags v) RainCounterReset, pg_SensorFault = Has (rg_Flags v) RainSensorFault\<rparr>\<rparr>)"

text \<open>The reason a frame is dropped for, from the codec's error.\<close>

definition codec_drop :: "codec_error \<Rightarrow> drop_error" where
  "codec_drop e = (case e of ErrUnknownPort _ \<Rightarrow> DropError ''unknown_port'' | _ \<Rightarrow> DropError ''bad_payload'')"

section \<open>Topics\<close>

definition node_Topic :: "string \<Rightarrow> string" where
  "node_Topic devEUI = ''sumpnet/v1/'' @ map to_lower devEUI @ ''/up''"

definition ParseTopic :: "string \<Rightarrow> string option" where
  "ParseTopic topic =
     (case Split (CHR ''/'') topic of
        [a, b, dev, d] \<Rightarrow> if a = ''sumpnet'' \<and> b = ''v1'' \<and> d = ''up'' \<and> devEUI_ok dev then Some dev else None
      | _ \<Rightarrow> None)"

definition UplinkTopic :: "string \<Rightarrow> string \<Rightarrow> string" where
  "UplinkTopic applicationID devEUI = ''application/'' @ applicationID @ ''/device/'' @ map to_lower devEUI @ ''/event/up''"

definition ParseUplinkTopic :: "string \<Rightarrow> (string \<times> string) option" where
  "ParseUplinkTopic topic =
     (case Split (CHR ''/'') topic of
        [a, app, b, dev, c, d] \<Rightarrow>
          if a = ''application'' \<and> b = ''device'' \<and> c = ''event'' \<and> d = ''up'' \<and> app \<noteq> '''' \<and> dev \<noteq> '''' then Some (app, dev) else None
      | _ \<Rightarrow> None)"

section \<open>The LoRaWAN decoder\<close>

text \<open>What the decoder reads of a ChirpStack uplink event; absent submessages read as zero values.\<close>

record rx_info =
  rx_GwTime :: "instant option"
  rx_GatewayId :: string
  rx_Rssi :: int
  rx_Snr :: real

record uplink_event =
  ev_DevEui :: string
  ev_Time :: "instant option"
  ev_RxInfo :: "rx_info list"
  ev_FPort :: uint32
  ev_FCnt :: uint32
  ev_Data :: "byte list"
  ev_DeduplicationId :: string
  ev_SpreadingFactor :: uint32

fun first_gw_time :: "rx_info list \<Rightarrow> instant" where
  "first_gw_time [] = zero_time"
| "first_gw_time (rx # rxs) = (case rx_GwTime rx of Some t \<Rightarrow> t | None \<Rightarrow> first_gw_time rxs)"

text \<open>The event time and whether it is the bridge's clock.\<close>

definition event_time :: "uplink_event \<Rightarrow> instant \<Rightarrow> instant \<times> bool" where
  "event_time ev now =
     (case ev_Time ev of
        Some t \<Rightarrow> (t, False)
      | None \<Rightarrow> (let t = first_gw_time (ev_RxInfo ev) in if is_zero t then (now, True) else (t, False)))"

text \<open>The loop over the gateways: the first one, then any with a stronger signal than the best so far.\<close>

fun best_gateway :: "bool \<Rightarrow> rx_info list \<Rightarrow> uplink_meta \<Rightarrow> uplink_meta" where
  "best_gateway first [] meta = meta"
| "best_gateway first (rx # rxs) meta =
     best_gateway False rxs
       (if first \<or> rx_Rssi rx > um_RssiDbm meta
        then meta\<lparr>um_GatewayId := rx_GatewayId rx, um_RssiDbm := rx_Rssi rx, um_SnrDb := rx_Snr rx\<rparr> else meta)"

definition lora_Decode :: "(byte list \<Rightarrow> uplink_event option) \<Rightarrow> string \<Rightarrow> byte list \<Rightarrow> instant \<Rightarrow> drop_error + decoded" where
  "lora_Decode unmarshalEvent topic payload now =
     (case ParseUplinkTopic topic of
        None \<Rightarrow> Inl (DropError ''bad_topic'')
      | Some (_, topicDev) \<Rightarrow>
     (case unmarshalEvent payload of
        None \<Rightarrow> Inl (DropError ''bad_json'')
      | Some ev \<Rightarrow>
     (let dev = map to_lower (ev_DevEui ev) in
      if dev \<noteq> topicDev then Inl (DropError ''bad_topic'')
      else let (t, fallback) = event_time ev now in
      if ev_FPort ev > 255 then Inl (DropError ''unknown_port'')
      else case Decode (ucast (ev_FPort ev)) (ev_Data ev) of
        Inl e \<Rightarrow> Inl (codec_drop e)
      | Inr u \<Rightarrow>
          (let meta = best_gateway True (ev_RxInfo ev)
                 \<lparr>um_DevEui = dev, um_FCnt = ev_FCnt ev, um_ReceivedAt = Some t, um_DeduplicationId = ev_DeduplicationId ev,
                  um_RssiDbm = 0, um_SnrDb = 0, um_SpreadingFactor = ev_SpreadingFactor ev, um_GatewayId = ''''\<rparr>
           in Inr ((FromUplink u meta t)\<lparr>dc_TimeFallback := fallback\<rparr>)))))"

section \<open>The Wi-Fi decoder\<close>

definition GatewayID :: string where "GatewayID = ''wifi''"

record node_envelope =
  en_FCnt :: uint32
  en_FPort :: uint8
  en_Data :: "byte list"
  en_T :: "int option"
  en_RSSI :: "int option"

definition DedupID :: "(string \<Rightarrow> uuid) \<Rightarrow> string \<Rightarrow> uint32 \<Rightarrow> uint8 \<Rightarrow> uuid" where
  "DedupID newSHA1 devEUI fcnt fport = newSHA1 (devEUI @ '':'' @ FormatInt (uint fcnt) @ '':'' @ FormatInt (uint fport))"

definition node_Decode ::
  "(byte list \<Rightarrow> node_envelope option) \<Rightarrow> (string \<Rightarrow> uuid) \<Rightarrow> string \<Rightarrow> byte list \<Rightarrow> instant \<Rightarrow> drop_error + decoded" where
  "node_Decode unmarshal newSHA1 topic payload now =
     (case ParseTopic topic of
        None \<Rightarrow> Inl (DropError ''bad_topic'')
      | Some dev \<Rightarrow>
     (case unmarshal payload of
        None \<Rightarrow> Inl (DropError ''bad_json'')
      | Some env \<Rightarrow>
     (let (t, fallback) = (case en_T env of Some t \<Rightarrow> (t * second, False) | None \<Rightarrow> (now, True)) in
      case Decode (en_FPort env) (en_Data env) of
        Inl e \<Rightarrow> Inl (codec_drop e)
      | Inr u \<Rightarrow>
          (let meta = \<lparr>um_DevEui = dev, um_FCnt = en_FCnt env, um_ReceivedAt = Some t, um_DeduplicationId = DedupID newSHA1 dev (en_FCnt env) (en_FPort env),
                 um_RssiDbm = (case en_RSSI env of Some r \<Rightarrow> r | None \<Rightarrow> 0), um_SnrDb = 0, um_SpreadingFactor = 0, um_GatewayId = GatewayID\<rparr>
           in Inr ((FromUplink u meta t)\<lparr>dc_TimeFallback := fallback\<rparr>)))))"

section \<open>Topics round trip\<close>

lemma Split_word: "c \<notin> set w \<Longrightarrow> Split c w = [w]"
  by (induction w) auto

lemma Split_cons: "c \<notin> set w \<Longrightarrow> Split c (w @ c # rest) = w # Split c rest"
  by (induction w) auto

lemma to_lower_slash: "to_lower c = CHR ''/'' \<longleftrightarrow> c = CHR ''/''"
proof
  assume eq: "to_lower c = CHR ''/''"
  show "c = CHR ''/''"
  proof (cases "65 \<le> (of_char c :: nat) \<and> (of_char c :: nat) \<le> 90")
    case True
    then have "(of_char (to_lower c) :: nat) = of_char c + 32" by (simp add: to_lower_def)
    then show ?thesis using True eq by simp
  next
    case False
    then show ?thesis using eq unfolding to_lower_def by (simp split: if_splits)
  qed
qed (simp add: to_lower_def)

lemma lower_no_slash: "CHR ''/'' \<notin> set w \<Longrightarrow> CHR ''/'' \<notin> set (map to_lower w)"
  by (induction w) (auto simp: to_lower_slash eq_commute [of "CHR ''/''"])

lemma devEUI_no_slash: "devEUI_ok d \<Longrightarrow> CHR ''/'' \<notin> set d"
  by (auto simp: devEUI_ok_def list_all_iff is_hex_def)

lemma ParseTopic_Topic: "devEUI_ok (map to_lower dev) \<Longrightarrow> ParseTopic (node_Topic dev) = Some (map to_lower dev)"
proof -
  assume ok: "devEUI_ok (map to_lower dev)"
  have "Split (CHR ''/'') (''sumpnet/v1/'' @ map to_lower dev @ ''/up'') = [''sumpnet'', ''v1'', map to_lower dev, ''up'']"
    using Split_cons [of "CHR ''/''" "''sumpnet''" "''v1/'' @ map to_lower dev @ ''/up''"]
      Split_cons [of "CHR ''/''" "''v1''" "map to_lower dev @ ''/up''"]
      Split_cons [OF devEUI_no_slash [OF ok], of "''up''"] by simp
  then show ?thesis using ok by (simp add: ParseTopic_def node_Topic_def)
qed

lemma ParseUplinkTopic_UplinkTopic:
  assumes "CHR ''/'' \<notin> set app" "CHR ''/'' \<notin> set dev" "app \<noteq> ''''" "dev \<noteq> ''''"
  shows "ParseUplinkTopic (UplinkTopic app dev) = Some (app, map to_lower dev)"
proof -
  have "Split (CHR ''/'') (''application/'' @ app @ ''/device/'' @ map to_lower dev @ ''/event/up'')
      = [''application'', app, ''device'', map to_lower dev, ''event'', ''up'']"
    using Split_cons [of "CHR ''/''" "''application''" "app @ ''/device/'' @ map to_lower dev @ ''/event/up''"]
      Split_cons [OF assms(1), of "''device/'' @ map to_lower dev @ ''/event/up''"]
      Split_cons [of "CHR ''/''" "''device''" "map to_lower dev @ ''/event/up''"]
      Split_cons [OF lower_no_slash [OF assms(2)], of "''event/up''"]
      Split_cons [of "CHR ''/''" "''event''" "''up''"] by simp
  then show ?thesis using assms(3,4) by (simp add: ParseUplinkTopic_def UplinkTopic_def)
qed

section \<open>From the wire to the row\<close>

text \<open>
  The reference: the row a payload means, read directly off the wire fields, for sender \<open>dev\<close>, event time \<open>t\<close>,
  frame counter \<open>fcnt\<close> and stored metadata \<open>m\<close>.
\<close>

datatype table_row = RowReading reading_in | RowCycle cycle_in | RowSummary summary_in | RowAlarm alarm_in | RowGauge gauge_in

definition wire_row :: "string \<Rightarrow> instant \<Rightarrow> uint32 \<Rightarrow> meta \<Rightarrow> uplink \<Rightarrow> table_row" where
  "wire_row dev t fcnt m u =
     (case u of
        Heartbeat v \<Rightarrow> RowReading \<lparr>ri_DeviceID = dev, ri_TS = t, ri_FCnt = uint fcnt, ri_LevelMM = uint (hb_LevelMM v),
          ri_TempC = real_of_int (sint (hb_TempCentiC v)) / 100, ri_RHPct = uint (hb_RHPct v), ri_BattMV = uint (hb_BattMV v),
          ri_CyclesSinceLast = uint (hb_CyclesSinceLast v), ri_MainsOK = bit (hb_Flags v) 0, ri_FloatHigh = bit (hb_Flags v) 1,
          ri_BackupRan = bit (hb_Flags v) 2, ri_SensorFault = bit (hb_Flags v) 3, ri_Meta = m\<rparr>
      | CycleEvent v \<Rightarrow> RowCycle \<lparr>ci_DeviceID = dev, ci_StartedAt = t - uint (ce_StartOffsetS v) * second, ci_FCnt = uint fcnt, ci_ReceivedAt = t,
          ci_RunS = uint (ce_RunS v), ci_PeakCurrentA = real (unat (ce_PeakCurrentDA v)) / 10, ci_LevelStartMM = uint (ce_LevelStartMM v),
          ci_LevelEndMM = uint (ce_LevelEndMM v), ci_PumpID = (if ce_PumpID v = 0 then ''primary'' else ''backup''), ci_Meta = m\<rparr>
      | Alarm v \<Rightarrow> RowAlarm \<lparr>ai_DeviceID = dev, ai_RaisedAt = t, ai_FCnt = uint fcnt, ai_Code = uint (al_Code v), ai_Value = uint (al_Value v), ai_Meta = m\<rparr>
      | StormSummary v \<Rightarrow> RowSummary \<lparr>si_DeviceID = dev, si_WindowEnd = t, si_FCnt = uint fcnt, si_WindowS = uint (ss_WindowS v),
          si_CycleCount = uint (ss_Count v), si_TotalRunS = uint (ss_TotalRunS v), si_MaxPeakCurrentA = real (unat (ss_MaxPeakCurrentDA v)) / 10,
          si_MinLevelMM = uint (ss_MinLevelMM v), si_Meta = m\<rparr>
      | RainGauge v \<Rightarrow> RowGauge \<lparr>gi_DeviceID = dev, gi_TS = t, gi_FCnt = uint fcnt, gi_TipCount = uint (rg_TipCount v),
          gi_MMPerTip = real (unat (rg_MMPerTipUM v)) / 1000, gi_IntervalS = uint (rg_IntervalS v), gi_BattMV = uint (rg_BattMV v),
          gi_CounterReset = bit (rg_Flags v) 0, gi_SensorFault = bit (rg_Flags v) 1, gi_Meta = m\<rparr>)"

text \<open>What ingest makes of a decoded uplink: the row of the field that is set.\<close>

definition ingest_row :: "ingest_server \<Rightarrow> decoded \<Rightarrow> (reject + table_row) option" where
  "ingest_row s d =
     (case dc_Reading d of Some p \<Rightarrow> Some (map_sum id RowReading (readingRow s p)) | None \<Rightarrow>
     (case dc_Cycle d of Some p \<Rightarrow> Some (map_sum id RowCycle (cycleRow s p)) | None \<Rightarrow>
     (case dc_Summary d of Some p \<Rightarrow> Some (map_sum id RowSummary (summaryRow s p)) | None \<Rightarrow>
     (case dc_Alarm d of Some p \<Rightarrow> Some (map_sum id RowAlarm (alarmRow s p)) | None \<Rightarrow>
      map_option (\<lambda>p. map_sum id RowGauge (rainGaugeRow s p)) (dc_RainGauge d)))))"

definition fits_table :: "'r columns \<Rightarrow> 'r \<Rightarrow> bool" where
  "fits_table c r \<longleftrightarrow> row_fits c r \<and> co_check c (co_store c r)"

fun table_row_ok :: "table_row \<Rightarrow> bool" where
  "table_row_ok (RowReading r) = fits_table readingCols r"
| "table_row_ok (RowCycle r) = fits_table cycleEventCols r"
| "table_row_ok (RowSummary r) = fits_table stormSummaryCols r"
| "table_row_ok (RowAlarm r) = fits_table alarmEventCols r"
| "table_row_ok (RowGauge r) = fits_table rainGaugeUplinkCols r"

lemma uint_ucast32: "uint (ucast (v :: uint16) :: uint32) = uint v" "uint (ucast (w :: uint8) :: uint32) = uint w"
  by (simp_all add: unsigned_ucast_eq take_bit_int_eq_self_iff uint_lt2p [THEN order_less_trans])

lemma ucast_small [simp]:
  "i32 (ucast (v :: uint16)) = uint v" "i16 (ucast (w :: uint8)) = uint w" "i32 (ucast w) = uint w"
  using uint_lt2p [of v] uint_lt2p [of w] by (simp_all add: i16_uint i32_uint uint_ucast32)

lemma Has_bit [simp]:
  "Has f FlagMainsOK = bit f 0" "Has f FlagFloatHigh = bit f 1" "Has f FlagBackupRan = bit f 2" "Has f FlagSensorFault = bit f 3"
  "Has f RainCounterReset = bit f 0" "Has f RainSensorFault = bit f 1"
proof -
  have b: "f AND push_bit n 1 = push_bit n 1 \<longleftrightarrow> bit f n" if "n < 8" for n
  proof
    assume "f AND push_bit n 1 = push_bit n 1"
    then have "bit (f AND push_bit n 1) n = bit (push_bit n 1 :: uint8) n" by simp
    then show "bit f n" using that by (simp add: bit_simps)
  next
    assume "bit f n"
    then show "f AND push_bit n 1 = push_bit n 1" by (auto intro!: bit_word_eqI simp: bit_simps)
  qed
  show "Has f FlagMainsOK = bit f 0" "Has f FlagFloatHigh = bit f 1" "Has f FlagBackupRan = bit f 2" "Has f FlagSensorFault = bit f 3"
    "Has f RainCounterReset = bit f 0" "Has f RainSensorFault = bit f 1"
    unfolding Has_def flag_defs by (rule b, simp)+
qed

lemma FromUplink_row:
  assumes valid: "valid_uplink u" and meta: "metaOf s (Some meta) = Inr (dev, t, m)"
  shows "ingest_row s ((FromUplink u meta t)\<lparr>dc_TimeFallback := fb\<rparr>) = Some (Inr (wire_row dev t (um_FCnt meta) m u))"
proof -
  have t: "\<not> too_far s t" using metaOf_Inr [OF meta] by simp
  note defs = ingest_row_def FromUplink_def no_decoded_def wire_row_def get_FCnt_def meta
  show ?thesis
  proof (cases u)
    case (Heartbeat v)
    then show ?thesis using t by (simp add: defs readingRow_def get_flag_def)
  next
    case (CycleEvent v)
    then have "ce_PumpID v \<le> 1" using valid by (simp add: valid_cycle_def PumpBackup_def)
    then have "ce_PumpID v = 0 \<or> ce_PumpID v = 1" using word_less_1 [of "ce_PumpID v"] by (auto simp: order.order_iff_strict)
    moreover have "\<not> real (unat (ce_PeakCurrentDA v)) / 10 < 0" by (simp del: of_nat_unat)
    ultimately show ?thesis using CycleEvent
      by (auto simp: defs cycleRow_def PUMP_ID_PRIMARY_def PUMP_ID_BACKUP_def PumpBackup_def simp del: of_nat_unat)
  next
    case (Alarm v)
    then have "1 \<le> al_Code v \<and> al_Code v \<le> 5" using valid by (simp add: valid_alarm_def AlarmFloatHigh_def AlarmSensorFault_def)
    then have "1 \<le> uint (al_Code v) \<and> uint (al_Code v) \<le> 5" by (simp add: word_le_def)
    then show ?thesis using Alarm by (simp add: defs alarmRow_def)
  next
    case (StormSummary v)
    then show ?thesis by (simp add: defs summaryRow_def)
  next
    case (RainGauge v)
    have "rg_MMPerTipUM v \<noteq> 0" using valid RainGauge by (simp add: valid_rain_def)
    then have "0 < unat (rg_MMPerTipUM v)" by (simp add: unat_gt_0)
    moreover have "unat (rg_MMPerTipUM v) < 65536" using unsigned_less [of "rg_MMPerTipUM v"] by simp
    ultimately have "0 < real (unat (rg_MMPerTipUM v)) / 1000" "\<not> real (unat (rg_MMPerTipUM v)) / 1000 > maxMMPerTip"
      by (simp_all add: maxMMPerTip_def del: of_nat_unat)
    then show ?thesis using RainGauge t by (simp add: defs rainGaugeRow_def del: of_nat_unat)
  qed
qed

lemma wire_row_ok:
  assumes valid: "valid_uplink u" and meta: "metaOf s (Some meta) = Inr (dev, t, m)"
  shows "table_row_ok (wire_row dev t (um_FCnt meta) m u)"
proof -
  have row: "ingest_row s ((FromUplink u meta t)\<lparr>dc_TimeFallback := fb\<rparr>) = Some (Inr (wire_row dev t (um_FCnt meta) m u))" for fb
    by (rule FromUplink_row [OF valid meta])
  show ?thesis
  proof (cases u)
    case (RainGauge v)
    have "rg_MMPerTipUM v \<noteq> 0" using valid RainGauge by (simp add: valid_rain_def)
    then have "1 \<le> unat (rg_MMPerTipUM v)" by (simp add: unat_gt_0 Suc_le_eq)
    then have "real 1 \<le> real (unat (rg_MMPerTipUM v))" unfolding of_nat_le_iff .
    then have "5 / 10000 \<le> real (unat (rg_MMPerTipUM v)) / 1000" by simp
    then show ?thesis using row RainGauge rainGaugeRow_fits
      by (auto simp: ingest_row_def FromUplink_def no_decoded_def map_sum_Inr_iff wire_row_def fits_table_def)
  qed (use row in \<open>auto simp: ingest_row_def FromUplink_def no_decoded_def map_sum_Inr_iff wire_row_def fits_table_def
      dest: readingRow_fits cycleRow_fits alarmRow_fits summaryRow_fits\<close>)
qed

lemma Decode_valid: "Decode p b = Inr u \<Longrightarrow> valid_uplink u"
  using marshal_defined_uplink by (auto simp: Decode_eq_MarshalBinary)

text \<open>Hexadecimal names are already lower case.\<close>

lemma to_lower_hex: "is_hex c \<Longrightarrow> to_lower c = c"
  by (auto simp: is_hex_def to_lower_def)

lemma lower_devEUI: "devEUI_ok d \<Longrightarrow> map to_lower d = d"
  unfolding devEUI_ok_def list_all_iff by (intro map_idI) (simp add: to_lower_hex)

text \<open>
  C6: A frame means the same row on every path. For any uplink the codec can produce, converting it to a
  telemetry message in a bridge and then to a store row in the ingest service gives exactly the row read
  off the wire fields: nothing is clamped, rejected or lost, the row's numbers and device name fit the columns and it
  passes its table's checks. (Whether a column can hold the time itself is a matter of the time, see C8.)
\<close>

theorem frame_conversion_exact:
  assumes "Decode port data = Inr u" and "metaOf s (Some meta) = Inr (dev, t, m)"
  shows "ingest_row s (FromUplink u meta t) = Some (Inr (wire_row dev t (um_FCnt meta) m u)) \<and> table_row_ok (wire_row dev t (um_FCnt meta) m u)"
proof -
  have "(FromUplink u meta t)\<lparr>dc_TimeFallback := False\<rparr> = FromUplink u meta t" by (cases u) (simp_all add: FromUplink_def no_decoded_def)
  then show ?thesis using FromUplink_row wire_row_ok Decode_valid [OF assms(1)] assms(2) by metis
qed

text \<open>
  A Wi-Fi node's frame reaches its table. If a node publishes the encoding of an uplink on its own topic
  in an envelope the bridge can read, with an event time not too far in the future, the bridge decodes it
  and ingest stores the row of that uplink for that device at that time, which the database accepts.
\<close>

theorem node_frame_reaches_row:
  assumes "Encode u = Inr (en_FPort env, en_Data env)" and "unmarshal payload = Some env" and "devEUI_ok (map to_lower dev)"
    and "\<not> too_far s t" and "t = (case en_T env of Some sec \<Rightarrow> sec * second | None \<Rightarrow> now)"
  shows "\<exists>d m. node_Decode unmarshal newSHA1 (node_Topic dev) payload now = Inr d \<and> dc_TimeFallback d = (en_T env = None)
    \<and> ingest_row s d = Some (Inr (wire_row (map to_lower dev) t (en_FCnt env) m u)) \<and> table_row_ok (wire_row (map to_lower dev) t (en_FCnt env) m u)"
proof -
  let ?dev = "map to_lower dev"
  let ?meta = "\<lparr>um_DevEui = ?dev, um_FCnt = en_FCnt env, um_ReceivedAt = Some t, um_DeduplicationId = DedupID newSHA1 ?dev (en_FCnt env) (en_FPort env),
    um_RssiDbm = (case en_RSSI env of Some r \<Rightarrow> r | None \<Rightarrow> 0), um_SnrDb = 0, um_SpreadingFactor = 0, um_GatewayId = GatewayID\<rparr>"
  have dec: "Decode (en_FPort env) (en_Data env) = Inr u" using assms(1) by (simp add: Decode_eq_MarshalBinary Encode_iff)
  have "map to_lower ?dev = ?dev" using lower_devEUI assms(3) by blast
  then obtain m where meta: "metaOf s (Some ?meta) = Inr (?dev, t, m)" using assms(3,4) by (simp add: metaOf_def Let_def del: map_map)
  have "node_Decode unmarshal newSHA1 (node_Topic dev) payload now = Inr ((FromUplink u ?meta t)\<lparr>dc_TimeFallback := (en_T env = None)\<rparr>)"
    using dec assms(2,5) by (cases "en_T env") (simp_all add: node_Decode_def ParseTopic_Topic [OF assms(3)] del: map_map)
  then show ?thesis using FromUplink_row [OF Decode_valid [OF dec] meta] wire_row_ok [OF Decode_valid [OF dec] meta] by auto
qed

definition heard_by :: "rx_info \<Rightarrow> uplink_meta \<Rightarrow> bool" where
  "heard_by rx meta \<longleftrightarrow> um_GatewayId meta = rx_GatewayId rx \<and> um_RssiDbm meta = rx_Rssi rx \<and> um_SnrDb meta = rx_Snr rx"

lemma best_gateway_later:
  assumes "heard_by rx meta"
  shows "\<exists>rx' \<in> set (rx # rxs). heard_by rx' (best_gateway False rxs meta) \<and> (\<forall>x \<in> set (rx # rxs). rx_Rssi x \<le> rx_Rssi rx')"
  using assms
proof (induction rxs arbitrary: rx meta)
  case (Cons y rxs)
  show ?case
  proof (cases "rx_Rssi y > um_RssiDbm meta")
    case True
    let ?m = "meta\<lparr>um_GatewayId := rx_GatewayId y, um_RssiDbm := rx_Rssi y, um_SnrDb := rx_Snr y\<rparr>"
    have "heard_by y ?m" by (simp add: heard_by_def)
    from Cons.IH [OF this] obtain z where z: "z \<in> set (y # rxs)" "heard_by z (best_gateway False rxs ?m)" "\<forall>x \<in> set (y # rxs). rx_Rssi x \<le> rx_Rssi z"
      by blast
    moreover have "rx_Rssi rx \<le> rx_Rssi z" using z(3) True Cons.prems by (auto simp: heard_by_def)
    ultimately show ?thesis using True by (intro bexI [of _ z]) auto
  next
    case False
    from Cons.IH [OF Cons.prems] obtain z where z: "z \<in> set (rx # rxs)" "heard_by z (best_gateway False rxs meta)" "\<forall>x \<in> set (rx # rxs). rx_Rssi x \<le> rx_Rssi z"
      by blast
    moreover have "rx_Rssi y \<le> rx_Rssi rx" using False Cons.prems by (simp add: heard_by_def)
    ultimately show ?thesis using False by (intro bexI [of _ z]) auto
  qed
qed simp

lemma best_gateway_strongest:
  assumes "rxs \<noteq> []"
  shows "\<exists>rx \<in> set rxs. heard_by rx (best_gateway True rxs meta) \<and> (\<forall>x \<in> set rxs. rx_Rssi x \<le> rx_Rssi rx)"
proof -
  obtain y ys where rxs: "rxs = y # ys" using assms by (cases rxs) auto
  have "heard_by y (meta\<lparr>um_GatewayId := rx_GatewayId y, um_RssiDbm := rx_Rssi y, um_SnrDb := rx_Snr y\<rparr>)" by (simp add: heard_by_def)
  from best_gateway_later [OF this, of ys] show ?thesis by (simp add: rxs)
qed

lemma best_gateway_keeps [simp]:
  "um_DevEui (best_gateway first rxs meta) = um_DevEui meta" "um_FCnt (best_gateway first rxs meta) = um_FCnt meta"
  "um_ReceivedAt (best_gateway first rxs meta) = um_ReceivedAt meta"
  by (induction rxs arbitrary: first meta) auto

text \<open>What the decoder makes of such an event: the uplink's message, with metadata the ingest service accepts.\<close>

lemma lora_decoded:
  assumes "Encode u = Inr (port, ev_Data ev)" and "ev_FPort ev = ucast port" and "unmarshalEvent payload = Some ev"
    and "devEUI_ok (map to_lower dev)" and "map to_lower (ev_DevEui ev) = map to_lower dev" and "CHR ''/'' \<notin> set app" and "app \<noteq> ''''"
    and "event_time ev now = (t, fb)" and "\<not> too_far s t"
  obtains meta m where "lora_Decode unmarshalEvent (UplinkTopic app dev) payload now = Inr ((FromUplink u meta t)\<lparr>dc_TimeFallback := fb\<rparr>)"
    "metaOf s (Some meta) = Inr (map to_lower dev, t, m)" "um_FCnt meta = ev_FCnt ev" "valid_uplink u"
    "ev_RxInfo ev \<noteq> [] \<longrightarrow> (\<exists>rx \<in> set (ev_RxInfo ev). (\<forall>x \<in> set (ev_RxInfo ev). rx_Rssi x \<le> rx_Rssi rx)
      \<and> (rx_GatewayId rx \<noteq> '''' \<longrightarrow> m_GatewayID m = Some (rx_GatewayId rx) \<and> m_RSSIDBm m = Some (clamp (rx_Rssi rx) (- 32768) 32767)))"
proof -
  let ?dev = "map to_lower dev"
  let ?meta = "best_gateway True (ev_RxInfo ev) \<lparr>um_DevEui = ?dev, um_FCnt = ev_FCnt ev, um_ReceivedAt = Some t, um_DeduplicationId = ev_DeduplicationId ev,
    um_RssiDbm = 0, um_SnrDb = 0, um_SpreadingFactor = ev_SpreadingFactor ev, um_GatewayId = ''''\<rparr>"
  have dec: "Decode port (ev_Data ev) = Inr u" using assms(1) by (simp add: Decode_eq_MarshalBinary Encode_iff)
  have port: "ucast (ev_FPort ev) = port" unfolding assms(2) by (rule bit_word_eqI) (auto simp: bit_simps)
  have small: "\<not> ev_FPort ev > 255" using uint_lt2p [of port] by (simp add: assms(2) word_less_def uint_ucast32)
  have low: "map to_lower ?dev = ?dev" using lower_devEUI assms(4) by blast
  obtain m where meta: "metaOf s (Some ?meta) = Inr (?dev, t, m)"
    and gw: "um_GatewayId ?meta \<noteq> '''' \<longrightarrow> m_GatewayID m = Some (um_GatewayId ?meta) \<and> m_RSSIDBm m = Some (clamp (um_RssiDbm ?meta) (- 32768) 32767)"
    using low assms(4,9) by (simp add: metaOf_def Let_def del: map_map)
  have "CHR ''/'' \<notin> set ?dev" by (rule devEUI_no_slash [OF assms(4)])
  then have "CHR ''/'' \<notin> set dev" by (metis image_eqI list.set_map to_lower_slash)
  moreover have "dev \<noteq> ''''" using assms(4) by (auto simp: devEUI_ok_def)
  ultimately have "ParseUplinkTopic (UplinkTopic app dev) = Some (app, ?dev)" using assms(6,7) by (simp add: ParseUplinkTopic_UplinkTopic)
  then have lora: "lora_Decode unmarshalEvent (UplinkTopic app dev) payload now = Inr ((FromUplink u ?meta t)\<lparr>dc_TimeFallback := fb\<rparr>)"
    using dec port small assms(3,5,8) by (simp add: lora_Decode_def del: map_map)
  have gws: "\<exists>rx \<in> set (ev_RxInfo ev). (\<forall>x \<in> set (ev_RxInfo ev). rx_Rssi x \<le> rx_Rssi rx)
      \<and> (rx_GatewayId rx \<noteq> '''' \<longrightarrow> m_GatewayID m = Some (rx_GatewayId rx) \<and> m_RSSIDBm m = Some (clamp (rx_Rssi rx) (- 32768) 32767))" if rx: "ev_RxInfo ev \<noteq> []"
    using best_gateway_strongest [OF rx] gw unfolding heard_by_def by metis
  show ?thesis by (rule that [OF lora meta _ Decode_valid [OF dec]]) (use gws in simp_all)
qed

text \<open>
  A LoRaWAN frame reaches its table. If ChirpStack publishes an uplink event for a well-named device on that
  device's topic, carrying the encoding of an uplink and a time not too far in the future, the bridge decodes
  it and ingest stores the row of that uplink for that device at that time, which the database accepts; the
  signal strength stored is that of the gateway that heard the frame best.
\<close>

theorem lora_frame_reaches_row:
  assumes "Encode u = Inr (port, ev_Data ev)" and "ev_FPort ev = ucast port" and "unmarshalEvent payload = Some ev"
    and "devEUI_ok (map to_lower dev)" and "map to_lower (ev_DevEui ev) = map to_lower dev" and "CHR ''/'' \<notin> set app" and "app \<noteq> ''''"
    and "event_time ev now = (t, fb)" and "\<not> too_far s t"
  shows "\<exists>d m. lora_Decode unmarshalEvent (UplinkTopic app dev) payload now = Inr d \<and> dc_TimeFallback d = fb
    \<and> ingest_row s d = Some (Inr (wire_row (map to_lower dev) t (ev_FCnt ev) m u)) \<and> table_row_ok (wire_row (map to_lower dev) t (ev_FCnt ev) m u)
    \<and> (ev_RxInfo ev \<noteq> [] \<longrightarrow> (\<exists>rx \<in> set (ev_RxInfo ev). (\<forall>x \<in> set (ev_RxInfo ev). rx_Rssi x \<le> rx_Rssi rx)
         \<and> (rx_GatewayId rx \<noteq> '''' \<longrightarrow> m_GatewayID m = Some (rx_GatewayId rx) \<and> m_RSSIDBm m = Some (clamp (rx_Rssi rx) (- 32768) 32767))))"
proof (rule lora_decoded [of u port ev unmarshalEvent payload dev app now t fb s, OF assms])
  fix meta m
  assume dec: "lora_Decode unmarshalEvent (UplinkTopic app dev) payload now = Inr ((FromUplink u meta t)\<lparr>dc_TimeFallback := fb\<rparr>)"
    and meta: "metaOf s (Some meta) = Inr (map to_lower dev, t, m)" "um_FCnt meta = ev_FCnt ev" and valid: "valid_uplink u"
    and gw: "ev_RxInfo ev \<noteq> [] \<longrightarrow> (\<exists>rx \<in> set (ev_RxInfo ev). (\<forall>x \<in> set (ev_RxInfo ev). rx_Rssi x \<le> rx_Rssi rx)
      \<and> (rx_GatewayId rx \<noteq> '''' \<longrightarrow> m_GatewayID m = Some (rx_GatewayId rx) \<and> m_RSSIDBm m = Some (clamp (rx_Rssi rx) (- 32768) 32767)))"
  show ?thesis using dec gw FromUplink_row [OF valid meta(1), of fb] wire_row_ok [OF valid meta(1)] unfolding meta(2) by auto
qed

section \<open>Examples\<close>

definition demo_uplink :: uplink where "demo_uplink = Alarm \<lparr>al_Code = 1, al_Value = 300\<rparr>"

lemma demo_encode: "Encode demo_uplink = Inr (PortAlarm, [1, 44, 1])"
  by (simp add: demo_uplink_def Encode_def marshal_alarm_def put_u16_def AlarmFloatHigh_def AlarmSensorFault_def)

definition demo_envelope :: node_envelope where
  "demo_envelope = \<lparr>en_FCnt = 7, en_FPort = PortAlarm, en_Data = [1, 44, 1], en_T = Some 900, en_RSSI = Some (- 60)\<rparr>"

definition demo_event :: uplink_event where
  "demo_event = \<lparr>ev_DevEui = ''70B3D57ED0000001'', ev_Time = None, ev_RxInfo = [\<lparr>rx_GwTime = None, rx_GatewayId = ''a'', rx_Rssi = - 110, rx_Snr = 1\<rparr>,
     \<lparr>rx_GwTime = Some (900 * second), rx_GatewayId = ''b'', rx_Rssi = - 80, rx_Snr = 2\<rparr>], ev_FPort = 3, ev_FCnt = 7, ev_Data = [1, 44, 1],
     ev_DeduplicationId = '''', ev_SpreadingFactor = 7\<rparr>"

lemma demo_not_far: "\<not> too_far demo_server (900 * second)"
  by (simp add: too_far_def demo_server_def ingest_DefaultConfig_def go_time)

lemma demo_dev_lower: "devEUI_ok (map to_lower ''70B3D57ED0000001'')"
  using demo_dev_ok by metis

theorem frame_conversion_exact_witness:
  "\<exists>m. ingest_row demo_server (FromUplink demo_uplink (the demo_meta) (900 * second)) = Some (Inr (wire_row ''70b3d57ed0000001'' (900 * second) 7 m demo_uplink))"
proof -
  obtain m where m: "metaOf demo_server (Some (the demo_meta)) = Inr (''70b3d57ed0000001'', 900 * second, m)"
    by (simp add: metaOf_def demo_meta_def demo_not_far demo_dev_ok Let_def del: list.map)
  have "Decode PortAlarm [1, 44, 1] = Inr demo_uplink" using demo_encode by (simp add: Decode_eq_MarshalBinary Encode_iff)
  from frame_conversion_exact [OF this m] show ?thesis by (auto simp: demo_meta_def)
qed

theorem node_frame_reaches_row_witness:
  "\<exists>d m. node_Decode (\<lambda>_. Some demo_envelope) (\<lambda>_. '''') (node_Topic ''70B3D57ED0000001'') [] 0 = Inr d \<and> dc_TimeFallback d = False
    \<and> ingest_row demo_server d = Some (Inr (wire_row (map to_lower ''70B3D57ED0000001'') (900 * second) 7 m demo_uplink))"
  using node_frame_reaches_row [of demo_uplink demo_envelope "\<lambda>_. Some demo_envelope" "[]" "''70B3D57ED0000001''" demo_server "900 * second" 0 "\<lambda>_. ''''"]
    demo_encode demo_dev_lower demo_not_far
  by (fastforce simp: demo_envelope_def simp del: list.map)

theorem lora_frame_reaches_row_witness:
  "\<exists>d m. lora_Decode (\<lambda>_. Some demo_event) (UplinkTopic ''1'' ''70B3D57ED0000001'') [] 0 = Inr d \<and> dc_TimeFallback d = False
    \<and> ingest_row demo_server d = Some (Inr (wire_row (map to_lower ''70B3D57ED0000001'') (900 * second) 7 m demo_uplink))"
proof -
  have "event_time demo_event 0 = (900 * second, False)"
    by (simp add: event_time_def demo_event_def is_zero_def zero_time_def go_time)
  moreover have "ev_FPort demo_event = ucast PortAlarm" by (simp add: demo_event_def PortAlarm_def)
  ultimately show ?thesis
    using lora_frame_reaches_row [of demo_uplink PortAlarm demo_event "\<lambda>_. Some demo_event" "[]" "''70B3D57ED0000001''" "''1''" 0 "900 * second" False demo_server]
      demo_encode demo_dev_lower demo_not_far
    by (fastforce simp: demo_event_def simp del: list.map)
qed

end
