(* ===== verification/Bridge.thy ===== *)
theory Bridge
  imports Frames
begin

text \<open>
  The bridges of \<^verbatim>\<open>internal/bridge\<close>: the retrying client of the ingest service (\<^verbatim>\<open>client.go\<close>), the batchers (\<^verbatim>\<open>batcher.go\<close>)
  and the process that wires an MQTT consumer, a decoder and four batchers together (\<^verbatim>\<open>run.go\<close>), as a step
  relation over the messages in flight, the acknowledgements sent and the shared telemetry database.
\<close>

section \<open>The client\<close>

text \<open>Requests of at most \<open>n\<close> rows; \<open>Dial\<close> never leaves the chunk size at zero.\<close>

fun chunked :: "nat \<Rightarrow> 'a list \<Rightarrow> 'a list list" where
  "chunked n rows = (if rows = [] \<or> n = 0 then [] else take n rows # chunked n (drop n rows))"

declare chunked.simps [simp del]

record client =
  cc_chunk :: nat
  cc_timeout :: duration

record client_config =
  cf_Chunk :: int
  cf_SubmitTimeout :: duration

text \<open>The part of \<open>Dial\<close> that is not the connection: defaults for what is not set.\<close>

definition dial_client :: "client_config \<Rightarrow> client" where
  "dial_client cfg = \<lparr>cc_chunk = (if cf_Chunk cfg \<le> 0 then 500 else nat (cf_Chunk cfg)),
     cc_timeout = (if cf_SubmitTimeout cfg \<le> 0 then 10 * second else cf_SubmitTimeout cfg)\<rparr>"

definition retryable :: "grpc_code \<Rightarrow> bool" where
  "retryable c \<longleftrightarrow> c \<in> {Unavailable, DeadlineExceeded, Aborted, ResourceExhausted}"

text \<open>
  One attempt over the network. Opening the stream may fail; the stream may break after some requests were
  delivered; and the answer of the server may be replaced by a transport error. \<open>lk_timers i\<close> is how often the
  server's age timer fires before request \<open>i\<close>. The server sees the end of the stream only after every request.
\<close>

record link =
  lk_open :: "grpc_code option"
  lk_timers :: "nat \<Rightarrow> nat"
  lk_break :: "(nat \<times> nat \<times> bool) option"
  lk_reply :: "grpc_code option"

fun server_events :: "(nat \<Rightarrow> nat) \<Rightarrow> nat \<Rightarrow> 'q list \<Rightarrow> 'q event list" where
  "server_events timers i [] = replicate (timers i) Due"
| "server_events timers i (q # qs) = replicate (timers i) Due @ Arrive q # server_events timers (Suc i) qs"

type_synonym ('q, 'db) rpc = "'q event list \<Rightarrow> ending \<Rightarrow> 'db \<Rightarrow> 'db \<times> (grpc_code + submit_response)"

definition attemptSubmit :: "('q, 'db) rpc \<Rightarrow> link \<Rightarrow> 'q list \<Rightarrow> 'db \<Rightarrow> 'db \<times> (grpc_code + submit_response)" where
  "attemptSubmit rpc lk reqs db =
     (case lk_open lk of
        Some code \<Rightarrow> (db, Inl code)
      | None \<Rightarrow>
          (let (db, out) = (case lk_break lk of
                 None \<Rightarrow> rpc (server_events (lk_timers lk) 0 reqs) Eof db
               | Some (sent, flushed, ctx) \<Rightarrow> rpc (server_events (lk_timers lk) 0 (take sent reqs)) (Broken flushed ctx) db)
           in (db, case lk_reply lk of Some code \<Rightarrow> Inl code | None \<Rightarrow> out)))"

fun backoff :: "nat \<Rightarrow> duration" where
  "backoff 0 = 100 * millisecond"
| "backoff (Suc k) = min (backoff k * 2) (5 * second)"

lemma backoff_pos: "0 < backoff k"
  by (induction k) (simp_all add: go_time)

text \<open>
  The retry loop at attempt \<open>k\<close> and time \<open>t\<close>: attempt \<open>k\<close> takes \<open>took k\<close>, the context ends at \<open>deadline\<close>, and
  \<open>jitter\<close> is the random part of the wait. The last component is the number of attempts made.
\<close>

function submit_loop ::
  "(nat \<Rightarrow> 'db \<Rightarrow> 'db \<times> (grpc_code + 'c)) \<Rightarrow> (nat \<Rightarrow> nat) \<Rightarrow> (nat \<Rightarrow> nat) \<Rightarrow> instant \<Rightarrow> nat \<Rightarrow> instant \<Rightarrow> 'db \<Rightarrow> 'db \<times> (grpc_code + 'c) \<times> nat" where
  "submit_loop attempt took jitter deadline k t db =
     (case attempt k db of
        (db, Inr res) \<Rightarrow> (db, Inr res, Suc k)
      | (db, Inl code) \<Rightarrow>
          (let t = t + int (took k) in
           if \<not> retryable code \<or> deadline \<le> t then (db, Inl code, Suc k)
           else let t = t + backoff k + int (jitter k) mod backoff k in
             if deadline \<le> t then (db, Inl DeadlineExceeded, Suc k)
             else submit_loop attempt took jitter deadline (Suc k) t db))"
  by pat_completeness auto

termination
proof (relation "measure (\<lambda>(_, _, _, deadline, _, t, _). nat (deadline - t))", simp, goal_cases)
  case (1 attempt took jitter deadline k t db db1 out code t1 t2)
  have "0 \<le> int (jitter k) mod backoff k" using backoff_pos [of k] by simp
  moreover have "t2 = t + int (took k) + backoff k + int (jitter k) mod backoff k" "\<not> deadline \<le> t2" using 1 by simp_all
  ultimately have "t < t2" "t2 < deadline" using backoff_pos [of k] by linarith+
  then show ?case by simp
qed

declare submit_loop.simps [simp del]

text \<open>
  What one submission meets: the links, the servers and their stores per attempt, times, when its context ends, and which of the
  acknowledgements that follow it the broker takes.
\<close>

record call_env =
  ca_link :: "nat \<Rightarrow> link"
  ca_server :: "nat \<Rightarrow> ingest_server"
  ca_store :: "nat \<Rightarrow> stream_env"
  ca_took :: "nat \<Rightarrow> nat"
  ca_jitter :: "nat \<Rightarrow> nat"
  ca_start :: instant
  ca_ctx_end :: "instant option"
  ca_acked :: "nat \<Rightarrow> bool"

definition ca_deadline :: "client \<Rightarrow> call_env \<Rightarrow> instant" where
  "ca_deadline cl E = (let d = ca_start E + cc_timeout cl in case ca_ctx_end E of None \<Rightarrow> d | Some e \<Rightarrow> min e d)"

definition submit :: "client \<Rightarrow> call_env \<Rightarrow> (nat \<Rightarrow> ('q, 'db) rpc) \<Rightarrow> 'q list \<Rightarrow> 'db \<Rightarrow> 'db \<times> (grpc_code + submit_response) \<times> nat" where
  "submit cl E rpc reqs db =
     (if reqs = [] then (db, Inr \<lparr>sp_Accepted = 0, sp_Duplicates = 0\<rparr>, 0)
      else submit_loop (\<lambda>k. attemptSubmit (rpc k) (ca_link E k) reqs) (ca_took E) (ca_jitter E) (ca_deadline cl E) 0 (ca_start E) db)"

type_synonym submitted = "telemetry_db \<times> (grpc_code + submit_response) \<times> nat"

definition client_SubmitReadings :: "client \<Rightarrow> bool \<Rightarrow> call_env \<Rightarrow> pb_reading list \<Rightarrow> telemetry_db \<Rightarrow> submitted" where
  "client_SubmitReadings cl auto E rows db =
     submit cl E (\<lambda>k. SubmitReadings (ca_server E k) auto (ca_store E k)) (chunked (cc_chunk cl) rows) db"

definition client_SubmitCycleEvents :: "client \<Rightarrow> bool \<Rightarrow> call_env \<Rightarrow> pb_cycle list \<Rightarrow> pb_summary list \<Rightarrow> telemetry_db \<Rightarrow> submitted" where
  "client_SubmitCycleEvents cl auto E cycles summaries db =
     submit cl E (\<lambda>k. SubmitCycleEvents (ca_server E k) auto (ca_store E k))
       (map (\<lambda>part. \<lparr>rq_CycleEvents = part, rq_StormSummaries = []\<rparr>) (chunked (cc_chunk cl) cycles)
        @ map (\<lambda>part. \<lparr>rq_CycleEvents = [], rq_StormSummaries = part\<rparr>) (chunked (cc_chunk cl) summaries)) db"

definition client_SubmitAlarms :: "client \<Rightarrow> bool \<Rightarrow> call_env \<Rightarrow> pb_alarm list \<Rightarrow> telemetry_db \<Rightarrow> submitted" where
  "client_SubmitAlarms cl auto E rows db =
     submit cl E (\<lambda>k. SubmitAlarms (ca_server E k) auto (ca_store E k)) (chunked (cc_chunk cl) rows) db"

definition client_SubmitRainGaugeReadings :: "client \<Rightarrow> bool \<Rightarrow> call_env \<Rightarrow> pb_rain list \<Rightarrow> telemetry_db \<Rightarrow> submitted" where
  "client_SubmitRainGaugeReadings cl auto E rows db =
     submit cl E (\<lambda>k. SubmitRainGaugeReadings (ca_server E k) auto (ca_store E k)) (chunked (cc_chunk cl) rows) db"

section \<open>Batchers\<close>

text \<open>The four batchers and the messages they carry; cycle events and storm summaries share one.\<close>

datatype kind = KReadings | KCycles | KAlarms | KRain

datatype bmsg = MReading pb_reading | MCycle pb_cycle | MSummary pb_summary | MAlarm pb_alarm | MRain pb_rain

fun kind_of :: "bmsg \<Rightarrow> kind" where
  "kind_of (MReading _) = KReadings"
| "kind_of (MCycle _) = KCycles"
| "kind_of (MSummary _) = KCycles"
| "kind_of (MAlarm _) = KAlarms"
| "kind_of (MRain _) = KRain"

fun msg_readings :: "bmsg list \<Rightarrow> pb_reading list" where
  "msg_readings [] = []" | "msg_readings (MReading p # ms) = p # msg_readings ms" | "msg_readings (_ # ms) = msg_readings ms"
fun msg_cycles :: "bmsg list \<Rightarrow> pb_cycle list" where
  "msg_cycles [] = []" | "msg_cycles (MCycle p # ms) = p # msg_cycles ms" | "msg_cycles (_ # ms) = msg_cycles ms"
fun msg_summaries :: "bmsg list \<Rightarrow> pb_summary list" where
  "msg_summaries [] = []" | "msg_summaries (MSummary p # ms) = p # msg_summaries ms" | "msg_summaries (_ # ms) = msg_summaries ms"
fun msg_alarms :: "bmsg list \<Rightarrow> pb_alarm list" where
  "msg_alarms [] = []" | "msg_alarms (MAlarm p # ms) = p # msg_alarms ms" | "msg_alarms (_ # ms) = msg_alarms ms"
fun msg_rains :: "bmsg list \<Rightarrow> pb_rain list" where
  "msg_rains [] = []" | "msg_rains (MRain p # ms) = p # msg_rains ms" | "msg_rains (_ # ms) = msg_rains ms"

text \<open>The flush functions \<open>Run\<close> gives to the batchers.\<close>

fun flush_kind :: "client \<Rightarrow> bool \<Rightarrow> call_env \<Rightarrow> kind \<Rightarrow> bmsg list \<Rightarrow> telemetry_db \<Rightarrow> submitted" where
  "flush_kind cl auto E KReadings ms db = client_SubmitReadings cl auto E (msg_readings ms) db"
| "flush_kind cl auto E KCycles ms db = client_SubmitCycleEvents cl auto E (msg_cycles ms) (msg_summaries ms) db"
| "flush_kind cl auto E KAlarms ms db = client_SubmitAlarms cl auto E (msg_alarms ms) db"
| "flush_kind cl auto E KRain ms db = client_SubmitRainGaugeReadings cl auto E (msg_rains ms) db"

record batch_config =
  bc_MaxItems :: int
  bc_QueueDepth :: int

definition NewBatcher :: "batch_config \<Rightarrow> batch_config" where
  "NewBatcher cfg = \<lparr>bc_MaxItems = (if bc_MaxItems cfg \<le> 0 then 500 else bc_MaxItems cfg),
     bc_QueueDepth = (if bc_QueueDepth cfg \<le> 0 then 2000 else bc_QueueDepth cfg)\<rparr>"

text \<open>An envelope is a message with the identity of the broker's packet that its acknowledgement names.\<close>

type_synonym envelope = "nat \<times> bmsg"

text \<open>A stopped batcher first receives what is queued, then drains what it has collected.\<close>

datatype batcher_phase = Running | Receiving | Draining | Done | Failed

record batcher =
  bt_in :: "envelope list"
  bt_cur :: "envelope list"
  bt_phase :: batcher_phase

definition new_batcher :: batcher where
  "new_batcher = \<lparr>bt_in = [], bt_cur = [], bt_phase = Running\<rparr>"

section \<open>The process\<close>

text \<open>
  The state of a bridge: its batchers, the identities it has acknowledged, every delivery made to its handler
  (packet, topic, payload, time), the database it shares with others, whether its MQTT session is open, and whether it has been told to stop.
\<close>

record delivery =
  dl_id :: nat
  dl_topic :: string
  dl_payload :: "byte list"
  dl_now :: instant

record bridge =
  br_batch :: "kind \<Rightarrow> batcher"
  br_acked :: "nat list"
  br_log :: "delivery list"
  br_db :: telemetry_db
  br_open :: bool
  br_stopping :: bool

record bridge_params =
  bp_cfg :: batch_config
  bp_client :: client
  bp_auto :: bool
  bp_decode :: "string \<Rightarrow> byte list \<Rightarrow> instant \<Rightarrow> drop_error + decoded"

definition max_items :: "bridge_params \<Rightarrow> nat" where
  "max_items P = nat (bc_MaxItems (NewBatcher (bp_cfg P)))"

definition queue_depth :: "bridge_params \<Rightarrow> nat" where
  "queue_depth P = nat (bc_QueueDepth (NewBatcher (bp_cfg P)))"

text \<open>The switch of the handler: the first field that is set decides the batcher.\<close>

definition route :: "decoded \<Rightarrow> bmsg option" where
  "route d =
     (case dc_Reading d of Some p \<Rightarrow> Some (MReading p) | None \<Rightarrow>
     (case dc_Cycle d of Some p \<Rightarrow> Some (MCycle p) | None \<Rightarrow>
     (case dc_Summary d of Some p \<Rightarrow> Some (MSummary p) | None \<Rightarrow>
     (case dc_Alarm d of Some p \<Rightarrow> Some (MAlarm p) | None \<Rightarrow>
      map_option MRain (dc_RainGauge d)))))"

definition set_batcher :: "kind \<Rightarrow> batcher \<Rightarrow> bridge \<Rightarrow> bridge" where
  "set_batcher k b \<sigma> = \<sigma>\<lparr>br_batch := (br_batch \<sigma>)(k := b)\<rparr>"

text \<open>An acknowledgement goes through only while the session is open, and may fail even then; a failed one is only logged.\<close>

definition ack :: "(nat \<Rightarrow> bool) \<Rightarrow> nat list \<Rightarrow> bridge \<Rightarrow> bridge" where
  "ack sent ids \<sigma> = \<sigma>\<lparr>br_acked := filter (\<lambda>i. br_open \<sigma> \<and> sent i) ids @ br_acked \<sigma>\<rparr>"

text \<open>The handler on one delivery; \<open>None\<close> when \<open>Add\<close> would block on a full queue.\<close>

definition handler :: "bridge_params \<Rightarrow> (nat \<Rightarrow> bool) \<Rightarrow> delivery \<Rightarrow> bridge \<Rightarrow> bridge option" where
  "handler P sent x \<sigma> =
     (let \<sigma> = \<sigma>\<lparr>br_log := x # br_log \<sigma>\<rparr> in
      case bp_decode P (dl_topic x) (dl_payload x) (dl_now x) of
        Inl e \<Rightarrow> Some (ack sent [dl_id x] \<sigma>)
      | Inr d \<Rightarrow>
          (case route d of
             None \<Rightarrow> Some (ack sent [dl_id x] \<sigma>)
           | Some m \<Rightarrow>
               (let b = br_batch \<sigma> (kind_of m) in
                if length (bt_in b) < queue_depth P then Some (set_batcher (kind_of m) (b\<lparr>bt_in := bt_in b @ [(dl_id x, m)]\<rparr>) \<sigma>)
                else None)))"

text \<open>\<open>submit\<close> of a batcher: flush, then acknowledge; a flush error is fatal for the batcher and nothing is acknowledged.\<close>

definition batcher_submit :: "bridge_params \<Rightarrow> call_env \<Rightarrow> kind \<Rightarrow> envelope list \<Rightarrow> bridge \<Rightarrow> bridge" where
  "batcher_submit P E k batch \<sigma> =
     (case flush_kind (bp_client P) (bp_auto P) E k (map snd batch) (br_db \<sigma>) of
        (db, Inr _, _) \<Rightarrow> ack (ca_acked E) (map fst batch) (\<sigma>\<lparr>br_db := db\<rparr>)
      | (db, Inl _, _) \<Rightarrow> set_batcher k ((br_batch \<sigma> k)\<lparr>bt_phase := Failed\<rparr>) (\<sigma>\<lparr>br_db := db\<rparr>))"

definition doFlush :: "bridge_params \<Rightarrow> call_env \<Rightarrow> kind \<Rightarrow> bridge \<Rightarrow> bridge" where
  "doFlush P E k \<sigma> =
     (let b = br_batch \<sigma> k in
      if bt_cur b = [] then \<sigma>
      else batcher_submit P E k (bt_cur b) (set_batcher k (b\<lparr>bt_cur := []\<rparr>) \<sigma>))"

text \<open>The three cases of the select in \<open>Run\<close>, one turn of the loop that receives what is queued, and one of the loop that drains.\<close>

definition on_message :: "bridge_params \<Rightarrow> call_env \<Rightarrow> kind \<Rightarrow> bridge \<Rightarrow> bridge" where
  "on_message P E k \<sigma> =
     (let b = br_batch \<sigma> k in
      case bt_in b of
        [] \<Rightarrow> \<sigma>
      | e # rest \<Rightarrow>
          (let \<sigma> = set_batcher k (b\<lparr>bt_in := rest, bt_cur := bt_cur b @ [e]\<rparr>) \<sigma> in
           if length (bt_cur b @ [e]) \<ge> max_items P then doFlush P E k \<sigma> else \<sigma>))"

definition on_stop :: "kind \<Rightarrow> bridge \<Rightarrow> bridge" where
  "on_stop k \<sigma> = set_batcher k ((br_batch \<sigma> k)\<lparr>bt_phase := Receiving\<rparr>) \<sigma>"

definition drain_receive :: "kind \<Rightarrow> bridge \<Rightarrow> bridge" where
  "drain_receive k \<sigma> =
     (let b = br_batch \<sigma> k in
      case bt_in b of
        [] \<Rightarrow> set_batcher k (b\<lparr>bt_phase := Draining\<rparr>) \<sigma>
      | e # rest \<Rightarrow> set_batcher k (b\<lparr>bt_in := rest, bt_cur := bt_cur b @ [e]\<rparr>) \<sigma>)"

definition drain_turn :: "bridge_params \<Rightarrow> call_env \<Rightarrow> kind \<Rightarrow> bridge \<Rightarrow> bridge" where
  "drain_turn P E k \<sigma> =
     (let b = br_batch \<sigma> k in
      if bt_cur b = [] then set_batcher k (b\<lparr>bt_phase := Done\<rparr>) \<sigma>
      else let n = min (length (bt_cur b)) (max_items P) in
        batcher_submit P E k (take n (bt_cur b)) (set_batcher k (b\<lparr>bt_cur := drop n (bt_cur b)\<rparr>) \<sigma>))"

text \<open>
  \<open>Run\<close> stops when its context ends or a batcher has failed. It disconnects first (which can fail and leave the session open) and then cancels the
  batchers; a failed batcher cancels the others at once, while the consumer is still connected.
\<close>

definition stopping :: "bridge \<Rightarrow> bool" where
  "stopping \<sigma> \<longleftrightarrow> br_stopping \<sigma> \<or> (\<exists>k. bt_phase (br_batch \<sigma> k) = Failed)"

definition shutdown :: "bool \<Rightarrow> bridge \<Rightarrow> bridge" where
  "shutdown disconnect_failed \<sigma> = \<sigma>\<lparr>br_open := br_open \<sigma> \<and> disconnect_failed, br_stopping := True\<rparr>"

text \<open>
  The steps. The handler runs in the consumer's goroutine, which may still hold a message when the session closes, and each batcher in its own; a full
  queue refuses a delivery until the context ends; the process may crash and restart at any moment; and other processes
  write to the database. \<open>valid\<close> is what is known of every ingest server a submission meets.
\<close>

definition calls_ok :: "(ingest_server \<Rightarrow> bool) \<Rightarrow> call_env \<Rightarrow> bool" where
  "calls_ok valid E \<longleftrightarrow> (\<forall>k. valid (ca_server E k))"

inductive bridge_step :: "bridge_params \<Rightarrow> (ingest_server \<Rightarrow> bool) \<Rightarrow> bridge \<Rightarrow> bridge \<Rightarrow> bool" for P valid where
  Deliver: "dl_id x \<notin> dl_id ` set (br_log \<sigma>) \<Longrightarrow> handler P sent x \<sigma> = Some \<sigma>' \<Longrightarrow> bridge_step P valid \<sigma> \<sigma>'"
| Refuse: "dl_id x \<notin> dl_id ` set (br_log \<sigma>) \<Longrightarrow> handler P sent x \<sigma> = None \<Longrightarrow> bridge_step P valid \<sigma> (\<sigma>\<lparr>br_log := x # br_log \<sigma>\<rparr>)"
| Message: "bt_phase (br_batch \<sigma> k) = Running \<Longrightarrow> calls_ok valid E \<Longrightarrow> bridge_step P valid \<sigma> (on_message P E k \<sigma>)"
| Timer: "bt_phase (br_batch \<sigma> k) = Running \<Longrightarrow> calls_ok valid E \<Longrightarrow> bridge_step P valid \<sigma> (doFlush P E k \<sigma>)"
| Shutdown: "bridge_step P valid \<sigma> (shutdown disconnect_failed \<sigma>)"
| Stop: "bt_phase (br_batch \<sigma> k) = Running \<Longrightarrow> stopping \<sigma> \<Longrightarrow> bridge_step P valid \<sigma> (on_stop k \<sigma>)"
| Receive: "bt_phase (br_batch \<sigma> k) = Receiving \<Longrightarrow> bridge_step P valid \<sigma> (drain_receive k \<sigma>)"
| Drain: "bt_phase (br_batch \<sigma> k) = Draining \<Longrightarrow> calls_ok valid E \<Longrightarrow> bridge_step P valid \<sigma> (drain_turn P E k \<sigma>)"
| Crash: "bridge_step P valid \<sigma> (\<sigma>\<lparr>br_batch := (\<lambda>_. new_batcher), br_open := True, br_stopping := False\<rparr>)"
| Others: "db_grows (bp_auto P) (br_db \<sigma>) db \<Longrightarrow> (db_ok (br_db \<sigma>) \<Longrightarrow> db_ok db) \<Longrightarrow> bridge_step P valid \<sigma> (\<sigma>\<lparr>br_db := db\<rparr>)"

definition bridge_init :: "telemetry_db \<Rightarrow> bridge" where
  "bridge_init db = \<lparr>br_batch = (\<lambda>_. new_batcher), br_acked = [], br_log = [], br_db = db, br_open = True, br_stopping = False\<rparr>"

inductive bridge_reach :: "bridge_params \<Rightarrow> (ingest_server \<Rightarrow> bool) \<Rightarrow> telemetry_db \<Rightarrow> bridge \<Rightarrow> bool" for P valid db where
  Init: "bridge_reach P valid db (bridge_init db)"
| Step: "bridge_reach P valid db \<sigma> \<Longrightarrow> bridge_step P valid \<sigma> \<sigma>' \<Longrightarrow> bridge_reach P valid db \<sigma>'"

inductive_cases bridge_stepE: "bridge_step P valid \<sigma> \<sigma>'"

section \<open>What a submission guarantees\<close>

lemma server_events_arrive: "Arrive q \<in> set (server_events timers i qs) \<longleftrightarrow> q \<in> set qs"
  by (induction qs arbitrary: i) auto

lemma chunked_concat: "0 < n \<Longrightarrow> concat (chunked n rows) = rows"
  by (induction n rows rule: chunked.induct) (subst chunked.simps, simp)

lemma chunked_sizes: "\<forall>c \<in> set (chunked n rows). c \<noteq> [] \<and> length c \<le> n"
  by (induction n rows rule: chunked.induct) (subst chunked.simps, simp)

lemma chunked_all:
  assumes "0 < n" and "\<forall>c \<in> set (chunked n rows). \<forall>p \<in> set c. Q p"
  shows "\<forall>p \<in> set rows. Q p"
proof -
  have "\<forall>p \<in> set (concat (chunked n rows)). Q p" using assms(2) by simp
  then show ?thesis using chunked_concat [OF assms(1)] by metis
qed

text \<open>
  The interface of a streaming call: whatever happens the database only grows and keeps its invariant, and an
  answer means that the stream ended normally and every request it carried is handled.
\<close>

locale rpc_service =
  fixes rpc :: "nat \<Rightarrow> ('q, 'db) rpc" and grows :: "'db \<Rightarrow> 'db \<Rightarrow> bool" and inv :: "'db \<Rightarrow> bool" and request_done :: "nat \<Rightarrow> 'db \<Rightarrow> 'q \<Rightarrow> bool"
  assumes grows_refl: "grows db db"
    and grows_trans: "grows a b \<Longrightarrow> grows b d \<Longrightarrow> grows a d"
    and rpc_grows: "rpc k es fin db = (db', out) \<Longrightarrow> grows db db'"
    and rpc_inv: "rpc k es fin db = (db', out) \<Longrightarrow> inv db \<Longrightarrow> inv db'"
    and rpc_done: "rpc k es fin db = (db', Inr resp) \<Longrightarrow> fin = Eof \<and> (\<forall>q. Arrive q \<in> set es \<longrightarrow> request_done k db' q)"
begin

lemma attempt_effect:
  assumes "attemptSubmit (rpc k) lk reqs db = (db', out)"
  shows "grows db db' \<and> (inv db \<longrightarrow> inv db') \<and> (\<forall>resp. out = Inr resp \<longrightarrow> (\<forall>q \<in> set reqs. request_done k db' q))"
proof (cases "lk_open lk")
  case (Some code)
  then show ?thesis using assms grows_refl by (auto simp: attemptSubmit_def)
next
  case None
  show ?thesis
  proof (cases "lk_break lk")
    case no_break: None
    obtain o1 where run: "rpc k (server_events (lk_timers lk) 0 reqs) Eof db = (db', o1)" and out: "out = (case lk_reply lk of Some code \<Rightarrow> Inl code | None \<Rightarrow> o1)"
      using assms None no_break by (auto simp: attemptSubmit_def split: prod.splits)
    have "request_done k db' q" if "o1 = Inr resp" "q \<in> set reqs" for resp q
      using rpc_done [OF run [unfolded that(1)]] that(2) by (simp add: server_events_arrive)
    then show ?thesis using out rpc_grows [OF run] rpc_inv [OF run] by (auto split: option.splits)
  next
    case (Some br)
    obtain sent flushed ctx where br: "br = (sent, flushed, ctx)" using prod_cases3 by blast
    obtain o1 where run: "rpc k (server_events (lk_timers lk) 0 (take sent reqs)) (Broken flushed ctx) db = (db', o1)"
      and out: "out = (case lk_reply lk of Some code \<Rightarrow> Inl code | None \<Rightarrow> o1)"
      using assms None Some br by (auto simp: attemptSubmit_def split: prod.splits)
    then show ?thesis using rpc_grows [OF run] rpc_inv [OF run] rpc_done [of k _ "Broken flushed ctx" db db'] by (auto split: option.splits)
  qed
qed

lemma submit_loop_effect:
  assumes "submit_loop (\<lambda>k. attemptSubmit (rpc k) (lk k) reqs) took jitter deadline k t db = (db', out, n)"
  shows "grows db db' \<and> (inv db \<longrightarrow> inv db') \<and> (\<forall>resp. out = Inr resp \<longrightarrow> (\<exists>j. \<forall>q \<in> set reqs. request_done j db' q))"
  using assms
proof (induction "\<lambda>k. attemptSubmit (rpc k) (lk k) reqs" took jitter deadline k t db rule: submit_loop.induct)
  case (1 took jitter deadline k t db)
  obtain db1 o1 where att: "attemptSubmit (rpc k) (lk k) reqs db = (db1, o1)" by fastforce
  note eff = attempt_effect [OF att]
  show ?case
  proof (cases o1)
    case (Inr resp)
    then have "db' = db1" "out = Inr resp" using 1(2) att by (auto simp: submit_loop.simps [of _ _ _ _ k])
    then show ?thesis using eff Inr by blast
  next
    case (Inl code)
    let ?t1 = "t + int (took k)" and ?t2 = "t + int (took k) + backoff k + int (jitter k) mod backoff k"
    show ?thesis
    proof (cases "\<not> retryable code \<or> deadline \<le> ?t1 \<or> deadline \<le> ?t2")
      case True
      then have "db' = db1 \<and> (\<exists>c. out = Inl c)"
        using 1(2) att Inl by (auto simp: submit_loop.simps [of _ _ _ _ k] Let_def split: if_splits)
      then show ?thesis using eff by auto
    next
      case False
      then have "submit_loop (\<lambda>k. attemptSubmit (rpc k) (lk k) reqs) took jitter deadline (Suc k) ?t2 db1 = (db', out, n)"
        using 1(2) att Inl by (simp add: submit_loop.simps [of _ _ _ _ k] Let_def)
      then have "grows db1 db' \<and> (inv db1 \<longrightarrow> inv db') \<and> (\<forall>resp. out = Inr resp \<longrightarrow> (\<exists>j. \<forall>q \<in> set reqs. request_done j db' q))"
        using 1(1) att Inl False by auto
      then show ?thesis using eff grows_trans by blast
    qed
  qed
qed

lemma submit_effect:
  assumes "submit cl E rpc reqs db = (db', out, n)"
  shows "grows db db' \<and> (inv db \<longrightarrow> inv db') \<and> (\<forall>resp. out = Inr resp \<longrightarrow> (\<exists>j. \<forall>q \<in> set reqs. request_done j db' q))"
proof (cases "reqs = []")
  case True
  then show ?thesis using assms grows_refl by (simp add: submit_def)
next
  case False
  then show ?thesis using assms submit_loop_effect unfolding submit_def by auto
qed

end

lemma submit_ok_laws:
  "submit_ok auto db db' fin out h \<Longrightarrow> db_grows auto db db'"
  "submit_ok auto db db' fin (Inr resp) h \<Longrightarrow> fin = Eof \<and> h"
  by (auto simp: submit_ok_def)

interpretation readings_rpc: rpc_service "\<lambda>k. SubmitReadings (srv k) auto (env k)" "db_grows auto" db_ok
    "\<lambda>k db q. \<forall>p \<in> set q. reading_handled (srv k) auto db p" for srv auto env
  by unfold_locales (auto intro: db_grows_trans submit_ok_laws(1) submit_ok_inv dest!: SubmitReadings_ok dest: submit_ok_laws(2))

interpretation cycles_rpc: rpc_service "\<lambda>k. SubmitCycleEvents (srv k) auto (env k)" "db_grows auto" db_ok
    "\<lambda>k db q. (\<forall>p \<in> set (rq_CycleEvents q). cycle_handled (srv k) auto db p) \<and> (\<forall>p \<in> set (rq_StormSummaries q). summary_handled (srv k) auto db p)" for srv auto env
  by unfold_locales (auto intro: db_grows_trans submit_ok_laws(1) submit_ok_inv dest!: SubmitCycleEvents_ok dest: submit_ok_laws(2))

interpretation alarms_rpc: rpc_service "\<lambda>k. SubmitAlarms (srv k) auto (env k)" "db_grows auto" db_ok
    "\<lambda>k db q. \<forall>p \<in> set q. alarm_handled (srv k) auto db p" for srv auto env
  by unfold_locales (auto intro: db_grows_trans submit_ok_laws(1) submit_ok_inv dest!: SubmitAlarms_ok dest: submit_ok_laws(2))

interpretation rain_rpc: rpc_service "\<lambda>k. SubmitRainGaugeReadings (srv k) auto (env k)" "db_grows auto" db_ok
    "\<lambda>k db q. \<forall>p \<in> set q. rain_handled (srv k) auto db p" for srv auto env
  by unfold_locales (auto intro: db_grows_trans submit_ok_laws(1) submit_ok_inv dest!: SubmitRainGaugeReadings_ok dest: submit_ok_laws(2))

fun msg_handled :: "ingest_server \<Rightarrow> bool \<Rightarrow> telemetry_db \<Rightarrow> bmsg \<Rightarrow> bool" where
  "msg_handled s auto db (MReading p) = reading_handled s auto db p"
| "msg_handled s auto db (MCycle p) = cycle_handled s auto db p"
| "msg_handled s auto db (MSummary p) = summary_handled s auto db p"
| "msg_handled s auto db (MAlarm p) = alarm_handled s auto db p"
| "msg_handled s auto db (MRain p) = rain_handled s auto db p"

lemma msg_handled_grows: "db_grows auto db db' \<Longrightarrow> msg_handled s auto db m \<Longrightarrow> msg_handled s auto db' m"
  by (cases m) (auto simp: handled_defs split: sum.splits intro: readings.safe_grows_rows cycles.safe_grows_rows summaries.safe_grows_rows
    alarms.safe_grows_rows gauges.safe_grows_rows)

lemma msg_readings_set: "p \<in> set (msg_readings ms) \<longleftrightarrow> MReading p \<in> set ms"
  by (induction ms rule: msg_readings.induct) auto
lemma msg_cycles_set: "p \<in> set (msg_cycles ms) \<longleftrightarrow> MCycle p \<in> set ms"
  by (induction ms rule: msg_cycles.induct) auto
lemma msg_summaries_set: "p \<in> set (msg_summaries ms) \<longleftrightarrow> MSummary p \<in> set ms"
  by (induction ms rule: msg_summaries.induct) auto
lemma msg_alarms_set: "p \<in> set (msg_alarms ms) \<longleftrightarrow> MAlarm p \<in> set ms"
  by (induction ms rule: msg_alarms.induct) auto
lemma msg_rains_set: "p \<in> set (msg_rains ms) \<longleftrightarrow> MRain p \<in> set ms"
  by (induction ms rule: msg_rains.induct) auto

lemmas msg_sets = msg_readings_set msg_cycles_set msg_summaries_set msg_alarms_set msg_rains_set

lemma flush_kind_effect:
  assumes flush: "flush_kind cl auto E k ms db = (db', out, n)" and chunk: "0 < cc_chunk cl"
  shows "db_grows auto db db' \<and> (db_ok db \<longrightarrow> db_ok db')
    \<and> (\<forall>resp. out = Inr resp \<longrightarrow> (\<exists>j. \<forall>m \<in> set ms. kind_of m = k \<longrightarrow> msg_handled (ca_server E j) auto db' m))"
proof (cases k)
  case KReadings
  have run: "submit cl E (\<lambda>k. SubmitReadings (ca_server E k) auto (ca_store E k)) (chunked (cc_chunk cl) (msg_readings ms)) db = (db', out, n)"
    using flush KReadings by (simp add: client_SubmitReadings_def)
  have "msg_handled (ca_server E j) auto db' m"
    if "\<forall>q \<in> set (chunked (cc_chunk cl) (msg_readings ms)). \<forall>p \<in> set q. reading_handled (ca_server E j) auto db' p" "m \<in> set ms" "kind_of m = k" for j m
    using chunked_all [OF chunk that(1)] that(2,3) KReadings by (cases m) (auto simp: msg_sets)
  then show ?thesis using readings_rpc.submit_effect [OF run] by blast
next
  case KCycles
  let ?reqs = "map (\<lambda>part. \<lparr>rq_CycleEvents = part, rq_StormSummaries = []\<rparr>) (chunked (cc_chunk cl) (msg_cycles ms))
     @ map (\<lambda>part. \<lparr>rq_CycleEvents = [], rq_StormSummaries = part\<rparr>) (chunked (cc_chunk cl) (msg_summaries ms))"
  have run: "submit cl E (\<lambda>k. SubmitCycleEvents (ca_server E k) auto (ca_store E k)) ?reqs db = (db', out, n)"
    using flush KCycles by (simp add: client_SubmitCycleEvents_def)
  have "msg_handled (ca_server E j) auto db' m"
    if all: "\<forall>q \<in> set ?reqs. (\<forall>p \<in> set (rq_CycleEvents q). cycle_handled (ca_server E j) auto db' p)
        \<and> (\<forall>p \<in> set (rq_StormSummaries q). summary_handled (ca_server E j) auto db' p)" and m: "m \<in> set ms" "kind_of m = k" for j m
  proof -
    have c: "\<forall>q \<in> set (chunked (cc_chunk cl) (msg_cycles ms)). \<forall>p \<in> set q. cycle_handled (ca_server E j) auto db' p"
      and x: "\<forall>q \<in> set (chunked (cc_chunk cl) (msg_summaries ms)). \<forall>p \<in> set q. summary_handled (ca_server E j) auto db' p"
      using all by (simp_all add: ball_Un)
    show ?thesis using chunked_all [OF chunk c] chunked_all [OF chunk x] m KCycles by (cases m) (auto simp: msg_sets)
  qed
  then show ?thesis using cycles_rpc.submit_effect [OF run] by blast
next
  case KAlarms
  have run: "submit cl E (\<lambda>k. SubmitAlarms (ca_server E k) auto (ca_store E k)) (chunked (cc_chunk cl) (msg_alarms ms)) db = (db', out, n)"
    using flush KAlarms by (simp add: client_SubmitAlarms_def)
  have "msg_handled (ca_server E j) auto db' m"
    if "\<forall>q \<in> set (chunked (cc_chunk cl) (msg_alarms ms)). \<forall>p \<in> set q. alarm_handled (ca_server E j) auto db' p" "m \<in> set ms" "kind_of m = k" for j m
    using chunked_all [OF chunk that(1)] that(2,3) KAlarms by (cases m) (auto simp: msg_sets)
  then show ?thesis using alarms_rpc.submit_effect [OF run] by blast
next
  case KRain
  have run: "submit cl E (\<lambda>k. SubmitRainGaugeReadings (ca_server E k) auto (ca_store E k)) (chunked (cc_chunk cl) (msg_rains ms)) db = (db', out, n)"
    using flush KRain by (simp add: client_SubmitRainGaugeReadings_def)
  have "msg_handled (ca_server E j) auto db' m"
    if "\<forall>q \<in> set (chunked (cc_chunk cl) (msg_rains ms)). \<forall>p \<in> set q. rain_handled (ca_server E j) auto db' p" "m \<in> set ms" "kind_of m = k" for j m
    using chunked_all [OF chunk that(1)] that(2,3) KRain by (cases m) (auto simp: msg_sets)
  then show ?thesis using rain_rpc.submit_effect [OF run] by blast
qed

section \<open>Retries end\<close>

lemma submit_loop_attempts:
  assumes "submit_loop attempt took jitter deadline k t db = (db', out, n)"
  shows "k < n \<and> (Suc k < n \<longrightarrow> t + (\<Sum>i = k..<n - 1. backoff i) < deadline)"
  using assms
proof (induction attempt took jitter deadline k t db rule: submit_loop.induct)
  case (1 attempt took jitter deadline k t db)
  obtain db1 o1 where att: "attempt k db = (db1, o1)" by fastforce
  let ?t2 = "t + int (took k) + backoff k + int (jitter k) mod backoff k"
  show ?case
  proof (cases "\<exists>code. o1 = Inl code \<and> retryable code \<and> \<not> deadline \<le> t + int (took k) \<and> \<not> deadline \<le> ?t2")
    case True
    then obtain code where code: "o1 = Inl code" "retryable code" "\<not> deadline \<le> t + int (took k)" "\<not> deadline \<le> ?t2" by blast
    then have run: "submit_loop attempt took jitter deadline (Suc k) ?t2 db1 = (db', out, n)"
      using 1(2) att by (simp add: submit_loop.simps [of _ _ _ _ k] Let_def)
    have IH: "Suc k < n \<and> (Suc (Suc k) < n \<longrightarrow> ?t2 + (\<Sum>i = Suc k..<n - 1. backoff i) < deadline)"
      using 1(1) [OF att [symmetric] code(1) refl _ refl] code(2-4) run by simp
    have j: "0 \<le> int (jitter k) mod backoff k" using backoff_pos [of k] by simp
    show ?thesis
    proof (cases "Suc (Suc k) < n")
      case True
      then have "(\<Sum>i = k..<n - 1. backoff i) = backoff k + (\<Sum>i = Suc k..<n - 1. backoff i)" by (intro sum.atLeast_Suc_lessThan) simp
      then show ?thesis using IH True j by simp
    next
      case False
      then have "n = Suc (Suc k)" using IH by simp
      then show ?thesis using code(4) j by simp
    qed
  next
    case False
    then have "n = Suc k"
      using 1(2) att by (auto simp: submit_loop.simps [of _ _ _ _ k] Let_def split: if_splits sum.splits)
    then show ?thesis by simp
  qed
qed

lemma backoff_sum_mono: "m \<le> n \<Longrightarrow> (\<Sum>i < m. backoff i) \<le> (\<Sum>i < n. backoff i)"
  by (rule sum_mono2) (use backoff_pos in \<open>auto intro: less_imp_le\<close>)

text \<open>
  A submission ends. Whatever the network and the server do, the retry loop terminates, and all its
  attempts but the last were each followed by a full back-off inside the submit timeout; with the default
  timeout of ten seconds there are at most seven attempts.
\<close>

theorem submit_attempts_bounded:
  assumes "submit cl E rpc reqs db = (db', out, n)"
  shows "(1 < n \<longrightarrow> (\<Sum>i < n - 1. backoff i) < cc_timeout cl) \<and> (cc_timeout cl \<le> 10 * second \<longrightarrow> n \<le> 7)"
proof -
  have sum: "(\<Sum>i < n - 1. backoff i) < cc_timeout cl" if "1 < n"
  proof (cases "reqs = []")
    case True
    then show ?thesis using assms that by (simp add: submit_def)
  next
    case False
    then have "submit_loop (\<lambda>k. attemptSubmit (rpc k) (ca_link E k) reqs) (ca_took E) (ca_jitter E) (ca_deadline cl E) 0 (ca_start E) db = (db', out, n)"
      using assms by (simp add: submit_def)
    from submit_loop_attempts [OF this] have "ca_start E + (\<Sum>i = 0..<n - 1. backoff i) < ca_deadline cl E" using that by simp
    moreover have "ca_deadline cl E \<le> ca_start E + cc_timeout cl" by (auto simp: ca_deadline_def Let_def split: option.splits)
    ultimately show ?thesis by (simp add: atLeast0LessThan)
  qed
  have "n \<le> 7" if "cc_timeout cl \<le> 10 * second"
  proof (rule ccontr)
    assume "\<not> n \<le> 7"
    then have "(\<Sum>i < 7. backoff i) \<le> (\<Sum>i < n - 1. backoff i)" by (intro backoff_sum_mono) simp
    moreover have "(\<Sum>i < 7. backoff i) = 11300 * millisecond" by (simp add: numeral_eq_Suc go_time)
    ultimately show False using sum that \<open>\<not> n \<le> 7\<close> by (simp add: go_time)
  qed
  then show ?thesis using sum by simp
qed

section \<open>No acknowledged message is lost\<close>

text \<open>A delivery is settled when its decoder drops it, or when the message it decodes to is handled by a valid server.\<close>

definition settled :: "bridge_params \<Rightarrow> (ingest_server \<Rightarrow> bool) \<Rightarrow> telemetry_db \<Rightarrow> delivery \<Rightarrow> bool" where
  "settled P valid db x \<longleftrightarrow>
     (case bp_decode P (dl_topic x) (dl_payload x) (dl_now x) of
        Inl e \<Rightarrow> True
      | Inr d \<Rightarrow> (case route d of None \<Rightarrow> True | Some m \<Rightarrow> \<exists>s. valid s \<and> msg_handled s (bp_auto P) db m))"

definition carries :: "bridge_params \<Rightarrow> delivery \<Rightarrow> bmsg \<Rightarrow> bool" where
  "carries P x m \<longleftrightarrow> (\<exists>d. bp_decode P (dl_topic x) (dl_payload x) (dl_now x) = Inr d \<and> route d = Some m)"

definition envelope_ok :: "bridge_params \<Rightarrow> delivery list \<Rightarrow> kind \<Rightarrow> envelope \<Rightarrow> bool" where
  "envelope_ok P lg k e \<longleftrightarrow> kind_of (snd e) = k \<and> (\<exists>x \<in> set lg. dl_id x = fst e \<and> carries P x (snd e))"

definition acks_ok :: "bridge_params \<Rightarrow> (ingest_server \<Rightarrow> bool) \<Rightarrow> bridge \<Rightarrow> bool" where
  "acks_ok P valid \<sigma> \<longleftrightarrow> (\<forall>i \<in> set (br_acked \<sigma>). \<exists>x \<in> set (br_log \<sigma>). dl_id x = i \<and> settled P valid (br_db \<sigma>) x)"

definition queues_ok :: "bridge_params \<Rightarrow> bridge \<Rightarrow> bool" where
  "queues_ok P \<sigma> \<longleftrightarrow> (\<forall>k. \<forall>e \<in> set (bt_in (br_batch \<sigma> k)) \<union> set (bt_cur (br_batch \<sigma> k)). envelope_ok P (br_log \<sigma>) k e)"

definition bounds_ok :: "bridge_params \<Rightarrow> bridge \<Rightarrow> bool" where
  "bounds_ok P \<sigma> \<longleftrightarrow> (\<forall>k. length (bt_in (br_batch \<sigma> k)) \<le> queue_depth P
     \<and> (bt_phase (br_batch \<sigma> k) = Running \<longrightarrow> length (bt_cur (br_batch \<sigma> k)) < max_items P)
     \<and> (bt_phase (br_batch \<sigma> k) = Running \<or> stopping \<sigma>))"

definition bridge_inv :: "bridge_params \<Rightarrow> (ingest_server \<Rightarrow> bool) \<Rightarrow> bridge \<Rightarrow> bool" where
  "bridge_inv P valid \<sigma> \<longleftrightarrow> acks_ok P valid \<sigma> \<and> queues_ok P \<sigma> \<and> bounds_ok P \<sigma> \<and> db_ok (br_db \<sigma>)"

lemmas inv_defs = bridge_inv_def acks_ok_def queues_ok_def bounds_ok_def

lemma config_pos: "0 < max_items P" "0 < queue_depth P"
  by (auto simp: max_items_def queue_depth_def NewBatcher_def)

lemma settled_grows: "db_grows (bp_auto P) db db' \<Longrightarrow> settled P valid db x \<Longrightarrow> settled P valid db' x"
  by (auto simp: settled_def split: sum.splits option.splits intro: msg_handled_grows)

lemma carries_settled: "carries P x m \<Longrightarrow> valid s \<Longrightarrow> msg_handled s (bp_auto P) db m \<Longrightarrow> settled P valid db x"
  by (auto simp: carries_def settled_def)

lemma envelope_ok_log: "envelope_ok P lg k e \<Longrightarrow> envelope_ok P (x # lg) k e"
  by (auto simp: envelope_ok_def)

lemma bridge_upd_simps [simp]:
  "br_batch (set_batcher k b \<sigma>) = (br_batch \<sigma>)(k := b)" "br_acked (set_batcher k b \<sigma>) = br_acked \<sigma>"
  "br_log (set_batcher k b \<sigma>) = br_log \<sigma>" "br_db (set_batcher k b \<sigma>) = br_db \<sigma>"
  "br_open (set_batcher k b \<sigma>) = br_open \<sigma>" "br_stopping (set_batcher k b \<sigma>) = br_stopping \<sigma>"
  "br_batch (ack sent ids \<sigma>) = br_batch \<sigma>" "br_acked (ack sent ids \<sigma>) = filter (\<lambda>i. br_open \<sigma> \<and> sent i) ids @ br_acked \<sigma>"
  "br_log (ack sent ids \<sigma>) = br_log \<sigma>" "br_db (ack sent ids \<sigma>) = br_db \<sigma>" "br_open (ack sent ids \<sigma>) = br_open \<sigma>" "br_stopping (ack sent ids \<sigma>) = br_stopping \<sigma>"
  by (simp_all add: set_batcher_def ack_def)

lemma acks_ok_grows:
  "acks_ok P valid \<sigma> \<Longrightarrow> db_grows (bp_auto P) (br_db \<sigma>) (br_db \<sigma>') \<Longrightarrow> br_acked \<sigma>' = br_acked \<sigma> \<Longrightarrow> set (br_log \<sigma>) \<subseteq> set (br_log \<sigma>') \<Longrightarrow> acks_ok P valid \<sigma>'"
  unfolding acks_ok_def using settled_grows by (metis subsetD)

text \<open>Replacing one batcher keeps the invariant when its messages and lengths are admissible.\<close>

lemma set_batcher_inv:
  assumes "bridge_inv P valid \<sigma>" and "\<forall>e \<in> set (bt_in b) \<union> set (bt_cur b). envelope_ok P (br_log \<sigma>) k e"
    and "length (bt_in b) \<le> queue_depth P" and "bt_phase b = Running \<longrightarrow> length (bt_cur b) < max_items P"
    and phase: "bt_phase b = bt_phase (br_batch \<sigma> k) \<or> bt_phase b = Failed \<or> stopping \<sigma> \<and> bt_phase (br_batch \<sigma> k) \<noteq> Failed"
  shows "bridge_inv P valid (set_batcher k b \<sigma>)"
proof -
  have stop: "stopping (set_batcher k b \<sigma>) \<longleftrightarrow> stopping \<sigma> \<or> bt_phase b = Failed"
    unfolding stopping_def using phase unfolding stopping_def by (cases "bt_phase (br_batch \<sigma> k) = Failed") (simp_all, metis+)
  then have "bounds_ok P (set_batcher k b \<sigma>)" using assms(1,3,4) phase unfolding inv_defs by auto
  moreover have "acks_ok P valid (set_batcher k b \<sigma>)" "queues_ok P (set_batcher k b \<sigma>)" "db_ok (br_db (set_batcher k b \<sigma>))"
    using assms(1,2) unfolding inv_defs by (simp_all add: ball_Un)
  ultimately show ?thesis by (simp add: bridge_inv_def)
qed

lemma stopping_upd [simp]:
  "stopping (ack sent ids \<sigma>) = stopping \<sigma>" "stopping (\<sigma>\<lparr>br_db := db\<rparr>) = stopping \<sigma>" "stopping (\<sigma>\<lparr>br_log := lg\<rparr>) = stopping \<sigma>"
  by (simp_all add: stopping_def)

text \<open>Flush, then acknowledge: this order is what makes every acknowledged message safe.\<close>

lemma submit_settles:
  assumes flush: "flush_kind (bp_client P) (bp_auto P) E k (map snd batch) db0 = (db, Inr resp, n)"
    and batch: "\<forall>e \<in> set batch. envelope_ok P lg k e" and calls: "calls_ok valid E" and chunk: "0 < cc_chunk (bp_client P)" and e: "e \<in> set batch"
  shows "\<exists>x \<in> set lg. dl_id x = fst e \<and> settled P valid db x"
proof -
  obtain j where hd: "\<forall>m \<in> set (map snd batch). kind_of m = k \<longrightarrow> msg_handled (ca_server E j) (bp_auto P) db m"
    using flush_kind_effect [OF flush chunk] by blast
  have ok: "envelope_ok P lg k e" using batch e by blast
  then have "msg_handled (ca_server E j) (bp_auto P) db (snd e)" using hd e by (simp add: envelope_ok_def)
  moreover have "valid (ca_server E j)" using calls by (simp add: calls_ok_def)
  ultimately show ?thesis using ok carries_settled unfolding envelope_ok_def by blast
qed

lemma inv_batcher:
  assumes "bridge_inv P valid \<sigma>"
  shows "\<forall>e \<in> set (bt_in (br_batch \<sigma> k)) \<union> set (bt_cur (br_batch \<sigma> k)). envelope_ok P (br_log \<sigma>) k e"
    "length (bt_in (br_batch \<sigma> k)) \<le> queue_depth P"
    "bt_phase (br_batch \<sigma> k) = Running \<Longrightarrow> length (bt_cur (br_batch \<sigma> k)) < max_items P"
    "bt_phase (br_batch \<sigma> k) \<noteq> Running \<Longrightarrow> stopping \<sigma>"
  using assms unfolding inv_defs by blast+

lemma batcher_submit_inv:
  assumes inv: "bridge_inv P valid \<sigma>" and batch: "\<forall>e \<in> set batch. envelope_ok P (br_log \<sigma>) k e" and calls: "calls_ok valid E"
    and chunk: "0 < cc_chunk (bp_client P)"
  shows "bridge_inv P valid (batcher_submit P E k batch \<sigma>)"
proof -
  obtain db out n where flush: "flush_kind (bp_client P) (bp_auto P) E k (map snd batch) (br_db \<sigma>) = (db, out, n)" using prod_cases3 by blast
  note eff = flush_kind_effect [OF flush chunk]
  let ?\<sigma> = "\<sigma>\<lparr>br_db := db\<rparr>"
  have acks: "acks_ok P valid ?\<sigma>"
    by (rule acks_ok_grows [of P valid \<sigma>]) (use inv eff in \<open>simp_all add: bridge_inv_def\<close>)
  then have inv': "bridge_inv P valid ?\<sigma>" using inv eff unfolding inv_defs by simp
  show ?thesis
  proof (cases out)
    case (Inl code)
    have "bridge_inv P valid (set_batcher k ((br_batch \<sigma> k)\<lparr>bt_phase := Failed\<rparr>) ?\<sigma>)"
      by (rule set_batcher_inv [OF inv']) (use inv_batcher(1,2) [OF inv, of k] in simp_all)
    then show ?thesis using flush Inl by (simp add: batcher_submit_def)
  next
    case (Inr resp)
    have "\<exists>x \<in> set (br_log \<sigma>). dl_id x = fst e \<and> settled P valid db x" if "e \<in> set batch" for e
      using submit_settles [OF flush [unfolded Inr] batch calls chunk that] .
    then have "acks_ok P valid (ack (ca_acked E) (map fst batch) ?\<sigma>)" using acks by (auto simp: acks_ok_def)
    moreover have "queues_ok P (ack (ca_acked E) (map fst batch) ?\<sigma>) \<and> bounds_ok P (ack (ca_acked E) (map fst batch) ?\<sigma>) \<and> db_ok (br_db (ack (ca_acked E) (map fst batch) ?\<sigma>))"
      using inv' unfolding inv_defs by simp
    ultimately show ?thesis using flush Inr by (simp add: batcher_submit_def bridge_inv_def)
  qed
qed

lemma log_inv: "bridge_inv P valid \<sigma> \<Longrightarrow> bridge_inv P valid (\<sigma>\<lparr>br_log := x # br_log \<sigma>\<rparr>)"
  unfolding inv_defs by (auto intro: envelope_ok_log)

lemma handler_inv:
  assumes "bridge_inv P valid \<sigma>" and "handler P sent x \<sigma> = Some \<sigma>'"
  shows "bridge_inv P valid \<sigma>'"
proof -
  let ?\<sigma> = "\<sigma>\<lparr>br_log := x # br_log \<sigma>\<rparr>"
  have inv: "bridge_inv P valid ?\<sigma>" by (rule log_inv [OF assms(1)])
  show ?thesis
  proof (cases "\<exists>m. carries P x m")
    case True
    then obtain m where m: "carries P x m" by blast
    let ?b = "br_batch \<sigma> (kind_of m)"
    have room: "length (bt_in ?b) < queue_depth P" and \<sigma>': "\<sigma>' = set_batcher (kind_of m) (?b\<lparr>bt_in := bt_in ?b @ [(dl_id x, m)]\<rparr>) ?\<sigma>"
      using assms(2) m by (auto simp: handler_def carries_def Let_def split: if_splits)
    have "envelope_ok P (x # br_log \<sigma>) (kind_of m) (dl_id x, m)" using m by (simp add: envelope_ok_def)
    then show ?thesis
      unfolding \<sigma>' using inv_batcher [OF inv, of "kind_of m"] room by (intro set_batcher_inv [OF inv]) auto
  next
    case False
    then have \<sigma>': "\<sigma>' = ack sent [dl_id x] ?\<sigma>" and ok: "settled P valid (br_db \<sigma>) x"
      using assms(2) by (auto simp: handler_def carries_def settled_def Let_def split: sum.splits option.splits)
    have "acks_ok P valid \<sigma>'" unfolding \<sigma>' using inv ok by (auto simp: bridge_inv_def acks_ok_def)
    moreover have "queues_ok P \<sigma>'" "bounds_ok P \<sigma>'" "db_ok (br_db \<sigma>')" unfolding \<sigma>' using inv by (simp_all add: inv_defs)
    ultimately show ?thesis by (simp add: bridge_inv_def)
  qed
qed

lemma doFlush_inv:
  assumes inv: "bridge_inv P valid \<sigma>" and "calls_ok valid E" and "0 < cc_chunk (bp_client P)"
  shows "bridge_inv P valid (doFlush P E k \<sigma>)"
proof -
  let ?b = "br_batch \<sigma> k" and ?\<sigma> = "set_batcher k ((br_batch \<sigma> k)\<lparr>bt_cur := []\<rparr>) \<sigma>"
  note b = inv_batcher [OF inv, of k]
  have "bridge_inv P valid ?\<sigma>" using b config_pos by (intro set_batcher_inv [OF inv]) auto
  moreover have "\<forall>e \<in> set (bt_cur ?b). envelope_ok P (br_log ?\<sigma>) k e" using b(1) by simp
  ultimately have "bridge_inv P valid (batcher_submit P E k (bt_cur ?b) ?\<sigma>)" using assms(2,3) by (rule batcher_submit_inv)
  then show ?thesis using inv by (simp add: doFlush_def Let_def)
qed

lemma on_message_inv:
  assumes inv: "bridge_inv P valid \<sigma>" and run: "bt_phase (br_batch \<sigma> k) = Running" and "calls_ok valid E" and "0 < cc_chunk (bp_client P)"
  shows "bridge_inv P valid (on_message P E k \<sigma>)"
proof (cases "bt_in (br_batch \<sigma> k)")
  case Nil
  then show ?thesis using inv by (simp add: on_message_def)
next
  case (Cons e rest)
  let ?b = "br_batch \<sigma> k"
  note b = inv_batcher [OF inv, of k]
  have cur: "length (bt_cur ?b) < max_items P" using b(3) [OF run] .
  have ok: "\<forall>e' \<in> set (bt_cur ?b @ [e]). envelope_ok P (br_log \<sigma>) k e'" "\<forall>e' \<in> set rest. envelope_ok P (br_log \<sigma>) k e'" using b(1) Cons by auto
  show ?thesis
  proof (cases "max_items P \<le> length (bt_cur ?b @ [e])")
    case True
    let ?\<sigma> = "set_batcher k (?b\<lparr>bt_in := rest, bt_cur := []\<rparr>) \<sigma>"
    have "bridge_inv P valid ?\<sigma>" using b(2) ok(2) Cons config_pos by (intro set_batcher_inv [OF inv]) auto
    then have "bridge_inv P valid (batcher_submit P E k (bt_cur ?b @ [e]) ?\<sigma>)" using ok(1) assms(3,4) by (intro batcher_submit_inv) auto
    moreover have "on_message P E k \<sigma> = batcher_submit P E k (bt_cur ?b @ [e]) ?\<sigma>"
      using Cons True by (simp add: on_message_def doFlush_def set_batcher_def Let_def)
    ultimately show ?thesis by simp
  next
    case False
    then show ?thesis using b(2) ok Cons config_pos cur
      by (auto simp: on_message_def Let_def intro!: set_batcher_inv [OF inv])
  qed
qed

lemma on_stop_inv:
  assumes inv: "bridge_inv P valid \<sigma>" and run: "bt_phase (br_batch \<sigma> k) = Running" and "stopping \<sigma>"
  shows "bridge_inv P valid (on_stop k \<sigma>)"
  using inv_batcher [OF inv, of k] run assms(3) unfolding on_stop_def by (intro set_batcher_inv [OF inv]) auto

lemma drain_receive_inv:
  assumes inv: "bridge_inv P valid \<sigma>" and "bt_phase (br_batch \<sigma> k) = Receiving"
  shows "bridge_inv P valid (drain_receive k \<sigma>)"
proof (cases "bt_in (br_batch \<sigma> k)")
  case Nil
  then show ?thesis using inv_batcher [OF inv, of k] assms(2) by (auto simp: drain_receive_def Let_def intro!: set_batcher_inv [OF inv])
next
  case (Cons e rest)
  then show ?thesis using inv_batcher [OF inv, of k] assms(2) by (auto simp: drain_receive_def Let_def intro!: set_batcher_inv [OF inv])
qed

lemma drain_turn_inv:
  assumes inv: "bridge_inv P valid \<sigma>" and "bt_phase (br_batch \<sigma> k) = Draining" and "calls_ok valid E" and "0 < cc_chunk (bp_client P)"
  shows "bridge_inv P valid (drain_turn P E k \<sigma>)"
proof -
  let ?b = "br_batch \<sigma> k" and ?n = "min (length (bt_cur (br_batch \<sigma> k))) (max_items P)"
  note b = inv_batcher [OF inv, of k]
  let ?\<sigma> = "set_batcher k (?b\<lparr>bt_cur := drop ?n (bt_cur ?b)\<rparr>) \<sigma>"
  have "bridge_inv P valid ?\<sigma>" using b assms(2) by (intro set_batcher_inv [OF inv]) (auto dest: in_set_dropD)
  moreover have "\<forall>e \<in> set (take ?n (bt_cur ?b)). envelope_ok P (br_log ?\<sigma>) k e" using b(1) by (auto dest: in_set_takeD)
  ultimately have "bridge_inv P valid (batcher_submit P E k (take ?n (bt_cur ?b)) ?\<sigma>)" using assms(3,4) by (rule batcher_submit_inv)
  moreover have "bridge_inv P valid (set_batcher k (?b\<lparr>bt_phase := Done\<rparr>) \<sigma>)" using b assms(2) by (intro set_batcher_inv [OF inv]) auto
  ultimately show ?thesis by (simp add: drain_turn_def Let_def)
qed

lemma shutdown_inv: "bridge_inv P valid \<sigma> \<Longrightarrow> bridge_inv P valid (shutdown failed \<sigma>)"
  unfolding inv_defs by (auto simp: shutdown_def stopping_def)

lemma bridge_step_inv:
  assumes "bridge_step P valid \<sigma> \<sigma>'" and "bridge_inv P valid \<sigma>" and "0 < cc_chunk (bp_client P)"
  shows "bridge_inv P valid \<sigma>'"
  using assms(1)
proof cases
  case (Crash)
  then show ?thesis using assms(2) config_pos unfolding inv_defs by (simp add: new_batcher_def)
next
  case (Others db)
  have "acks_ok P valid \<sigma>'" by (rule acks_ok_grows [of P valid \<sigma>]) (use Others assms(2) in \<open>simp_all add: bridge_inv_def\<close>)
  then show ?thesis using Others assms(2) unfolding inv_defs by simp
next
  case (Deliver x)
  then show ?thesis using handler_inv [OF assms(2)] by blast
next
  case (Refuse x)
  then show ?thesis using log_inv [OF assms(2)] by simp
next
  case (Message k E)
  then show ?thesis using on_message_inv [OF assms(2)] assms(3) by simp
next
  case (Timer k E)
  then show ?thesis using doFlush_inv [OF assms(2)] assms(3) by simp
next
  case (Shutdown failed)
  then show ?thesis using shutdown_inv [OF assms(2)] by simp
next
  case (Stop k)
  then show ?thesis using on_stop_inv [OF assms(2)] by simp
next
  case (Receive k)
  then show ?thesis using drain_receive_inv [OF assms(2)] by simp
next
  case (Drain k E)
  then show ?thesis using drain_turn_inv [OF assms(2)] assms(3) by simp
qed

lemma bridge_reach_inv:
  assumes "bridge_reach P valid db \<sigma>" and "db_ok db" and "0 < cc_chunk (bp_client P)"
  shows "bridge_inv P valid \<sigma>"
  using assms(1)
proof induction
  case Init
  then show ?case using assms(2) config_pos unfolding inv_defs by (simp add: bridge_init_def new_batcher_def)
next
  case (Step \<sigma> \<sigma>')
  then show ?case using bridge_step_inv assms(3) by blast
qed

text \<open>
  C3: An acknowledged message is never lost. In every state a bridge can reach, through any interleaving of
  deliveries, batches, retries over a faulty network, failed flushes, shutdowns, crashes and writes by others,
  every acknowledged packet was delivered and is either dropped by its decoder or handled: rejected by the
  validation of an ingest server, stored in the database, or sent by an unknown device with registration off.
\<close>

theorem acknowledged_is_settled:
  assumes "bridge_reach P valid db \<sigma>" and "db_ok db" and "bp_client P = dial_client cfg" and "i \<in> set (br_acked \<sigma>)"
  shows "\<exists>x \<in> set (br_log \<sigma>). dl_id x = i \<and> settled P valid (br_db \<sigma>) x"
proof -
  have "0 < cc_chunk (bp_client P)" by (simp add: assms(3) dial_client_def)
  from bridge_reach_inv [OF assms(1,2) this] show ?thesis using assms(4) unfolding bridge_inv_def acks_ok_def by blast
qed

text \<open>
  C9: A bridge holds a bounded number of messages and keeps the database sound. In every reachable state a
  batcher queues at most its queue depth and, while it runs, collects fewer than a full batch; so a bridge that has not begun to stop
  holds, in its four batchers together, fewer than four queues and four batches. The database satisfies its constraints.
  (Once it stops, a batcher collects whatever the consumer still adds to its queue, which has no bound while the session is open.)
\<close>

theorem bridge_bounded:
  assumes "bridge_reach P valid db \<sigma>" and "db_ok db" and "bp_client P = dial_client cfg"
  shows "length (bt_in (br_batch \<sigma> k)) \<le> queue_depth P
    \<and> (bt_phase (br_batch \<sigma> k) = Running \<longrightarrow> length (bt_cur (br_batch \<sigma> k)) < max_items P)
    \<and> (\<not> stopping \<sigma> \<longrightarrow> (\<Sum>j \<leftarrow> [KReadings, KCycles, KAlarms, KRain]. length (bt_in (br_batch \<sigma> j)) + length (bt_cur (br_batch \<sigma> j))) < 4 * (queue_depth P + max_items P))
    \<and> db_ok (br_db \<sigma>)"
proof -
  have "0 < cc_chunk (bp_client P)" by (simp add: assms(3) dial_client_def)
  note inv = bridge_reach_inv [OF assms(1,2) this]
  have "length (bt_in (br_batch \<sigma> j)) + length (bt_cur (br_batch \<sigma> j)) < queue_depth P + max_items P" if "\<not> stopping \<sigma>" for j
  proof -
    have "bt_phase (br_batch \<sigma> j) = Running" using inv_batcher(4) [OF inv] that by blast
    then show ?thesis using inv_batcher(2,3) [OF inv, of j] by linarith
  qed
  from this [of KReadings] this [of KCycles] this [of KAlarms] this [of KRain] show ?thesis
    using inv_batcher(2,3) [OF inv, of k] inv by (auto simp: bridge_inv_def)
qed

section \<open>A healthy bridge drains\<close>

text \<open>Links that deliver everything and stores that answer every statement.\<close>

definition healthy :: "call_env \<Rightarrow> bool" where
  "healthy E \<longleftrightarrow> lk_open (ca_link E 0) = None \<and> lk_break (ca_link E 0) = None \<and> lk_reply (ca_link E 0) = None \<and> (\<forall>n t. store_answers (ca_store E 0 n t))"

lemma healthy_submit:
  assumes "healthy E" and "\<And>es db. \<forall>q. Arrive q \<in> set es \<longrightarrow> q \<in> set reqs \<Longrightarrow> \<exists>db' resp. rpc 0 es Eof db = (db', Inr resp)"
  shows "\<exists>db' resp n. submit cl E rpc reqs db = (db', Inr resp, n)"
proof -
  obtain db' resp where "rpc 0 (server_events (lk_timers (ca_link E 0)) 0 reqs) Eof db = (db', Inr resp)"
    using assms(2) [of "server_events (lk_timers (ca_link E 0)) 0 reqs" db] server_events_arrive by metis
  then have "attemptSubmit (rpc 0) (ca_link E 0) reqs db = (db', Inr resp)" using assms(1) by (simp add: attemptSubmit_def healthy_def)
  then show ?thesis by (simp add: submit_def submit_loop.simps)
qed

text \<open>Rain gauge messages whose bucket survives the rounding of its column; every decoded frame has one.\<close>

fun sound_msg :: "bmsg \<Rightarrow> bool" where
  "sound_msg (MRain p) = (5 / 10000 \<le> pg_MmPerTip p)"
| "sound_msg _ = True"

text \<open>A message its table can hold, and the two together.\<close>

fun msg_clean :: "bmsg \<Rightarrow> bool" where
  "msg_clean (MReading p) = reading_clean p"
| "msg_clean (MCycle p) = cycle_clean p"
| "msg_clean (MSummary p) = summary_clean p"
| "msg_clean (MAlarm p) = alarm_clean p"
| "msg_clean (MRain p) = rain_clean p"

definition storable :: "bmsg \<Rightarrow> bool" where
  "storable m \<longleftrightarrow> sound_msg m \<and> msg_clean m"

lemma chunked_sub: "q \<in> set (chunked n rows) \<Longrightarrow> set q \<subseteq> set rows"
proof (induction n rows rule: chunked.induct)
  case (1 n rows)
  show ?case
  proof (cases "rows = [] \<or> n = 0")
    case True
    then show ?thesis using "1.prems" by (subst (asm) chunked.simps) simp
  next
    case False
    then have "q = take n rows \<or> q \<in> set (chunked n (drop n rows))" using "1.prems" by (subst (asm) chunked.simps) simp
    then show ?thesis using "1.IH" [OF False] set_take_subset [of n rows] set_drop_subset [of n rows] by blast
  qed
qed

lemma chunked_messages:
  assumes "\<forall>m \<in> set ms. storable m" and "\<And>p. p \<in> set rows \<Longrightarrow> con p \<in> set ms"
    and "\<forall>q. Arrive q \<in> set es \<longrightarrow> q \<in> set (chunked n rows)" and "\<And>p. storable (con p) \<Longrightarrow> clean p"
  shows "stream_clean conv clean id es"
  unfolding stream_clean_def using assms chunked_sub by (metis id_apply subsetD)

lemma healthy_flush:
  assumes "healthy E" and "\<forall>m \<in> set ms. storable m"
  shows "\<exists>db' resp n. flush_kind cl auto E k ms db = (db', Inr resp, n)"
proof -
  have env: "\<forall>n t. store_answers (ca_store E 0 n t)" using assms(1) by (simp add: healthy_def)
  show ?thesis
  proof (cases k)
    case KRain
    have "5 / 10000 \<le> pg_MmPerTip p" if "q \<in> set (chunked (cc_chunk cl) (msg_rains ms))" "p \<in> set q" for q p
      using chunked_sub [OF that(1)] that(2) assms(2) msg_rains_set storable_def by (metis sound_msg.simps(1) subsetD)
    then have "\<exists>db' resp. SubmitRainGaugeReadings (ca_server E 0) auto (ca_store E 0) es Eof db = (db', Inr resp)"
      if "\<forall>q. Arrive q \<in> set es \<longrightarrow> q \<in> set (chunked (cc_chunk cl) (msg_rains ms))" for es db
      using that chunked_messages [OF assms(2) _ that, of MRain rain_clean]
      by (intro SubmitRainGaugeReadings_answered [OF env]) (auto simp: msg_sets storable_def)
    then show ?thesis unfolding KRain flush_kind.simps client_SubmitRainGaugeReadings_def by (intro healthy_submit [OF assms(1)])
  next
    case KReadings
    show ?thesis unfolding KReadings flush_kind.simps client_SubmitReadings_def
      by (intro healthy_submit [OF assms(1)] SubmitReadings_answered [OF env] chunked_messages [OF assms(2), of _ MReading])
        (auto simp: msg_sets storable_def)
  next
    case KCycles
    have "cycle_clean p" if "part \<in> set (chunked (cc_chunk cl) (msg_cycles ms))" "p \<in> set part" for part p
      using chunked_sub [OF that(1)] that(2) assms(2) msg_cycles_set storable_def by (metis msg_clean.simps(2) subsetD)
    moreover have "summary_clean p" if "part \<in> set (chunked (cc_chunk cl) (msg_summaries ms))" "p \<in> set part" for part p
      using chunked_sub [OF that(1)] that(2) assms(2) msg_summaries_set storable_def by (metis msg_clean.simps(3) subsetD)
    ultimately show ?thesis unfolding KCycles flush_kind.simps client_SubmitCycleEvents_def
      by (intro healthy_submit [OF assms(1)] SubmitCycleEvents_answered [OF env]) (fastforce simp: stream_clean_def)+
  next
    case KAlarms
    show ?thesis unfolding KAlarms flush_kind.simps client_SubmitAlarms_def
      by (intro healthy_submit [OF assms(1)] SubmitAlarms_answered [OF env] chunked_messages [OF assms(2), of _ MAlarm])
        (auto simp: msg_sets storable_def)
  qed
qed

text \<open>What draining a batch achieves: its messages are settled in the database, which only grows, and the acknowledgements that can go through do.\<close>

definition drained :: "bridge_params \<Rightarrow> (ingest_server \<Rightarrow> bool) \<Rightarrow> call_env \<Rightarrow> envelope list \<Rightarrow> bridge \<Rightarrow> bridge \<Rightarrow> bool" where
  "drained P valid E batch \<sigma> \<tau> \<longleftrightarrow> br_log \<tau> = br_log \<sigma> \<and> br_open \<tau> = br_open \<sigma> \<and> db_grows (bp_auto P) (br_db \<sigma>) (br_db \<tau>)
     \<and> (\<forall>e \<in> set batch. \<exists>x \<in> set (br_log \<sigma>). dl_id x = fst e \<and> settled P valid (br_db \<tau>) x)
     \<and> set (br_acked \<tau>) = {i \<in> fst ` set batch. br_open \<sigma> \<and> ca_acked E i} \<union> set (br_acked \<sigma>)"

lemma drained_trans:
  assumes "drained P valid E xs \<sigma> \<tau>" and "drained P valid E ys \<tau> \<rho>" and "set batch = set xs \<union> set ys"
  shows "drained P valid E batch \<sigma> \<rho>"
  using assms(1,2) unfolding drained_def assms(3) image_Un
  by (intro conjI; (auto intro: db_grows_trans; fail)?) (metis Un_iff settled_grows)

lemma healthy_drain_turn:
  assumes "healthy E" and "\<forall>e \<in> set (bt_cur (br_batch \<sigma> k)). storable (snd e) \<and> envelope_ok P (br_log \<sigma>) k e" and "bt_phase (br_batch \<sigma> k) = Draining"
    and "bt_cur (br_batch \<sigma> k) \<noteq> []" and "calls_ok valid E" and "0 < cc_chunk (bp_client P)"
  shows "br_batch (drain_turn P E k \<sigma>) k = (br_batch \<sigma> k)\<lparr>bt_cur := drop (max_items P) (bt_cur (br_batch \<sigma> k))\<rparr>
    \<and> drained P valid E (take (max_items P) (bt_cur (br_batch \<sigma> k))) \<sigma> (drain_turn P E k \<sigma>)"
proof -
  let ?cur = "bt_cur (br_batch \<sigma> k)" and ?n = "min (length (bt_cur (br_batch \<sigma> k))) (max_items P)"
  have cut: "take ?n ?cur = take (max_items P) ?cur" "drop ?n ?cur = drop (max_items P) ?cur" by (simp_all add: min_def)
  have "\<forall>m \<in> set (map snd (take ?n ?cur)). storable m" using assms(2) by (auto dest: in_set_takeD)
  from healthy_flush [OF assms(1) this] obtain db' resp n where
    flush: "flush_kind (bp_client P) (bp_auto P) E k (map snd (take ?n ?cur)) (br_db \<sigma>) = (db', Inr resp, n)" by blast
  have ok: "\<forall>e \<in> set (take ?n ?cur). envelope_ok P (br_log \<sigma>) k e" using assms(2) by (auto dest: in_set_takeD)
  have next_state: "drain_turn P E k \<sigma> = ack (ca_acked E) (map fst (take ?n ?cur)) ((set_batcher k ((br_batch \<sigma> k)\<lparr>bt_cur := drop ?n ?cur\<rparr>) \<sigma>)\<lparr>br_db := db'\<rparr>)"
    using flush assms(4) by (simp add: drain_turn_def batcher_submit_def Let_def)
  have "\<exists>x \<in> set (br_log \<sigma>). dl_id x = fst e \<and> settled P valid db' x" if "e \<in> set (take ?n ?cur)" for e
    using submit_settles [OF flush ok assms(5,6) that] .
  then have "drained P valid E (take ?n ?cur) \<sigma> (drain_turn P E k \<sigma>)"
    using flush_kind_effect [OF flush assms(6)] unfolding next_state drained_def by auto
  then show ?thesis unfolding cut next_state by simp
qed

lemma healthy_drain:
  assumes "healthy E" and calls: "calls_ok valid E" and chunk: "0 < cc_chunk (bp_client P)"
  shows "\<forall>e \<in> set (bt_cur (br_batch \<sigma> k)). storable (snd e) \<and> envelope_ok P (br_log \<sigma>) k e \<Longrightarrow> bt_phase (br_batch \<sigma> k) = Draining \<Longrightarrow>
    \<exists>n. bt_phase (br_batch ((drain_turn P E k ^^ n) \<sigma>) k) = Done \<and> drained P valid E (bt_cur (br_batch \<sigma> k)) \<sigma> ((drain_turn P E k ^^ n) \<sigma>)"
proof (induction "length (bt_cur (br_batch \<sigma> k))" arbitrary: \<sigma> rule: less_induct)
  case less
  let ?cur = "bt_cur (br_batch \<sigma> k)" and ?next = "drain_turn P E k \<sigma>"
  show ?case
  proof (cases "?cur = []")
    case True
    then have "bt_phase (br_batch ?next k) = Done \<and> drained P valid E ?cur \<sigma> ?next"
      by (simp add: drain_turn_def drained_def db_grows_refl)
    then show ?thesis by (intro exI [of _ 1]) simp
  next
    case False
    note one = healthy_drain_turn [OF assms(1) less.prems False calls chunk]
    then have batcher_next: "br_batch ?next k = (br_batch \<sigma> k)\<lparr>bt_cur := drop (max_items P) ?cur\<rparr>" and first: "drained P valid E (take (max_items P) ?cur) \<sigma> ?next" by blast+
    have "length (bt_cur (br_batch ?next k)) < length ?cur" using batcher_next False config_pos [of P] by simp
    moreover have "\<forall>e \<in> set (bt_cur (br_batch ?next k)). storable (snd e) \<and> envelope_ok P (br_log ?next) k e"
      using batcher_next first less.prems(1) by (auto simp: drained_def dest: in_set_dropD)
    moreover have "bt_phase (br_batch ?next k) = Draining" using batcher_next less.prems(2) by simp
    ultimately obtain n where n: "bt_phase (br_batch ((drain_turn P E k ^^ n) ?next) k) = Done"
        "drained P valid E (bt_cur (br_batch ?next k)) ?next ((drain_turn P E k ^^ n) ?next)"
      using less.hyps by blast
    have "set ?cur = set (take (max_items P) ?cur) \<union> set (bt_cur (br_batch ?next k))" unfolding batcher_next by (simp flip: set_append)
    from drained_trans [OF first n(2) this] show ?thesis using n(1) by (intro exI [of _ "Suc n"]) (simp add: funpow_swap1)
  qed
qed

text \<open>Receiving until the queue is empty.\<close>

lemma receive_all:
  "bt_phase (br_batch \<sigma> k) = Receiving \<Longrightarrow>
     (drain_receive k ^^ Suc (length (bt_in (br_batch \<sigma> k)))) \<sigma>
       = set_batcher k ((br_batch \<sigma> k)\<lparr>bt_in := [], bt_cur := bt_cur (br_batch \<sigma> k) @ bt_in (br_batch \<sigma> k), bt_phase := Draining\<rparr>) \<sigma>"
proof (induction "bt_in (br_batch \<sigma> k)" arbitrary: \<sigma>)
  case Nil
  have "(br_batch \<sigma> k)\<lparr>bt_in := [], bt_phase := Draining\<rparr> = (br_batch \<sigma> k)\<lparr>bt_phase := Draining\<rparr>" using Nil.hyps by (cases "br_batch \<sigma> k") simp
  then have "set_batcher k ((br_batch \<sigma> k)\<lparr>bt_in := [], bt_phase := Draining\<rparr>) \<sigma> = set_batcher k ((br_batch \<sigma> k)\<lparr>bt_phase := Draining\<rparr>) \<sigma>" by (simp only:)
  then show ?case by (simp add: drain_receive_def Let_def Nil.hyps [symmetric] del: bridge_upd_simps)
next
  case (Cons e rest)
  let ?\<tau> = "drain_receive k \<sigma>"
  have \<tau>: "?\<tau> = set_batcher k ((br_batch \<sigma> k)\<lparr>bt_in := rest, bt_cur := bt_cur (br_batch \<sigma> k) @ [e]\<rparr>) \<sigma>"
    by (simp add: drain_receive_def Let_def Cons.hyps(2) [symmetric])
  have "(drain_receive k ^^ Suc (length (bt_in (br_batch ?\<tau> k)))) ?\<tau>
      = set_batcher k ((br_batch ?\<tau> k)\<lparr>bt_in := [], bt_cur := bt_cur (br_batch ?\<tau> k) @ bt_in (br_batch ?\<tau> k), bt_phase := Draining\<rparr>) ?\<tau>"
    by (rule Cons.hyps(1)) (simp_all add: \<tau> Cons.prems)
  moreover have "length (bt_in (br_batch \<sigma> k)) = Suc (length (bt_in (br_batch ?\<tau> k)))" by (simp add: \<tau> Cons.hyps(2) [symmetric])
  moreover have "(drain_receive k ^^ Suc (Suc n)) \<sigma> = (drain_receive k ^^ Suc n) ?\<tau>" for n by (simp only: funpow_Suc_right o_apply)
  moreover have "set_batcher k ((br_batch ?\<tau> k)\<lparr>bt_in := [], bt_cur := bt_cur (br_batch ?\<tau> k) @ bt_in (br_batch ?\<tau> k), bt_phase := Draining\<rparr>) ?\<tau>
      = set_batcher k ((br_batch \<sigma> k)\<lparr>bt_in := [], bt_cur := bt_cur (br_batch \<sigma> k) @ bt_in (br_batch \<sigma> k), bt_phase := Draining\<rparr>) \<sigma>"
    by (simp add: \<tau> Cons.hyps(2) [symmetric] set_batcher_def)
  ultimately show ?case by metis
qed

text \<open>Every message either decoder produces is sound, since the codec admits no empty bucket.\<close>

lemma FromUplink_sound: "valid_uplink u \<Longrightarrow> route ((FromUplink u meta t)\<lparr>dc_TimeFallback := fb\<rparr>) = Some m \<Longrightarrow> sound_msg m"
proof (cases u)
  case (RainGauge v)
  assume "valid_uplink u" and m: "route ((FromUplink u meta t)\<lparr>dc_TimeFallback := fb\<rparr>) = Some m"
  then have "1 \<le> unat (rg_MMPerTipUM v)" using RainGauge by (simp add: valid_rain_def unat_gt_0 Suc_le_eq)
  then have "real 1 \<le> real (unat (rg_MMPerTipUM v))" unfolding of_nat_le_iff .
  then show ?thesis using m RainGauge by (auto simp: route_def FromUplink_def no_decoded_def)
qed (auto simp: route_def FromUplink_def no_decoded_def)

definition our_decoder :: "(string \<Rightarrow> byte list \<Rightarrow> instant \<Rightarrow> drop_error + decoded) \<Rightarrow> bool" where
  "our_decoder f \<longleftrightarrow> (\<exists>unmarshalEvent. f = lora_Decode unmarshalEvent) \<or> (\<exists>unmarshal newSHA1. f = node_Decode unmarshal newSHA1)"

lemma decoded_sound:
  assumes "our_decoder f" and "f topic payload now = Inr d" and "route d = Some m"
  shows "sound_msg m"
proof -
  have "\<exists>u meta t fb. valid_uplink u \<and> d = (FromUplink u meta t)\<lparr>dc_TimeFallback := fb\<rparr>"
    using assms(1,2) unfolding our_decoder_def
    by (elim disjE exE) (auto simp: lora_Decode_def node_Decode_def Let_def dest!: Decode_valid split: option.splits prod.splits if_splits sum.splits)
  then show ?thesis using assms(3) FromUplink_sound by blast
qed


section \<open>An example\<close>

definition demo_bridge :: bridge_params where
  "demo_bridge = \<lparr>bp_cfg = \<lparr>bc_MaxItems = 0, bc_QueueDepth = 0\<rparr>, bp_client = dial_client \<lparr>cf_Chunk = 0, cf_SubmitTimeout = 0\<rparr>, bp_auto = True,
     bp_decode = node_Decode (\<lambda>_. Some demo_envelope) (\<lambda>_. '''')\<rparr>"

definition demo_delivery :: delivery where
  "demo_delivery = \<lparr>dl_id = 1, dl_topic = node_Topic ''70B3D57ED0000001'', dl_payload = [], dl_now = 0\<rparr>"

definition demo_calls :: call_env where
  "demo_calls = \<lparr>ca_link = (\<lambda>_. \<lparr>lk_open = None, lk_timers = (\<lambda>_. 0), lk_break = None, lk_reply = None\<rparr>), ca_server = (\<lambda>_. demo_server),
     ca_store = (\<lambda>_. demo_stream_env), ca_took = (\<lambda>_. 0), ca_jitter = (\<lambda>_. 0), ca_start = 0, ca_ctx_end = None, ca_acked = (\<lambda>_. True)\<rparr>"

lemma demo_calls_healthy: "healthy demo_calls" "calls_ok (\<lambda>s. s = demo_server) demo_calls"
  using demo_env_answers by (simp_all add: healthy_def demo_calls_def calls_ok_def)

lemma demo_decodes: "\<exists>p. carries demo_bridge demo_delivery (MAlarm p) \<and> alarm_clean p"
proof -
  have "Decode PortAlarm [1, 44, 1] = Inr demo_uplink" using demo_encode by (simp add: Decode_eq_MarshalBinary Encode_iff)
  then show ?thesis
    by (simp add: carries_def demo_bridge_def demo_delivery_def node_Decode_def ParseTopic_Topic [OF demo_dev_lower] demo_envelope_def demo_uplink_def
      FromUplink_def no_decoded_def route_def Let_def clean_defs gateway_clean_def pg_text_def timestamptz_def go_time GatewayID_def del: list.map)
qed

lemma demo_tdb_ok: "db_ok demo_tdb"
  by (simp add: db_ok_def tstore_ok_def table_view_def keys_of_def demo_tdb_def)

text \<open>One alarm delivered and queued.\<close>

lemma demo_queued:
  obtains \<sigma> p where "bridge_reach demo_bridge (\<lambda>s. s = demo_server) demo_tdb \<sigma>" "bt_in (br_batch \<sigma> KAlarms) = [(1, MAlarm p)]"
    "bt_cur (br_batch \<sigma> KAlarms) = []" "bt_phase (br_batch \<sigma> KAlarms) = Running" "br_open \<sigma>" "br_acked \<sigma> = []" "alarm_clean p"
proof -
  obtain p where "carries demo_bridge demo_delivery (MAlarm p)" and clean: "alarm_clean p" using demo_decodes by blast
  then obtain \<sigma> where h: "handler demo_bridge (\<lambda>_. True) demo_delivery (bridge_init demo_tdb) = Some \<sigma>" "bt_in (br_batch \<sigma> KAlarms) = [(1, MAlarm p)]"
    "bt_cur (br_batch \<sigma> KAlarms) = []" "bt_phase (br_batch \<sigma> KAlarms) = Running" "br_open \<sigma>" "br_acked \<sigma> = []"
    using config_pos(2) [of demo_bridge]
    by (auto simp: handler_def carries_def bridge_init_def new_batcher_def Let_def set_batcher_def demo_delivery_def)
  have "bridge_step demo_bridge (\<lambda>s. s = demo_server) (bridge_init demo_tdb) \<sigma>"
    by (rule Deliver [OF _ h(1)]) (simp add: bridge_init_def)
  then show thesis using that Init Step h(2-6) clean by metis
qed

text \<open>The same alarm when its batch is due.\<close>

lemma demo_acked:
  obtains \<sigma> where "bridge_reach demo_bridge (\<lambda>s. s = demo_server) demo_tdb \<sigma>" "1 \<in> set (br_acked \<sigma>)"
proof -
  obtain \<sigma> p where q: "bridge_reach demo_bridge (\<lambda>s. s = demo_server) demo_tdb \<sigma>" "bt_in (br_batch \<sigma> KAlarms) = [(1, MAlarm p)]"
    "bt_cur (br_batch \<sigma> KAlarms) = []" "bt_phase (br_batch \<sigma> KAlarms) = Running" "br_open \<sigma>" "alarm_clean p" using demo_queued by metis
  let ?\<tau> = "on_message demo_bridge demo_calls KAlarms \<sigma>"
  have "max_items demo_bridge = 500" by (simp add: max_items_def NewBatcher_def demo_bridge_def)
  then have \<tau>: "?\<tau> = set_batcher KAlarms ((br_batch \<sigma> KAlarms)\<lparr>bt_in := [], bt_cur := [(1, MAlarm p)]\<rparr>) \<sigma>" using q(2,3) by (simp add: on_message_def Let_def)
  obtain db resp n where flush: "flush_kind (bp_client demo_bridge) (bp_auto demo_bridge) demo_calls KAlarms [MAlarm p] (br_db \<sigma>) = (db, Inr resp, n)"
    using healthy_flush [OF demo_calls_healthy(1), of "[MAlarm p]" "bp_client demo_bridge" "bp_auto demo_bridge" KAlarms "br_db \<sigma>"] q(6) by (auto simp: storable_def simp del: flush_kind.simps)
  have "bridge_reach demo_bridge (\<lambda>s. s = demo_server) demo_tdb (doFlush demo_bridge demo_calls KAlarms ?\<tau>)"
  proof (rule bridge_reach.Step)
    show "bridge_reach demo_bridge (\<lambda>s. s = demo_server) demo_tdb ?\<tau>"
      by (rule bridge_reach.Step [OF q(1) bridge_step.Message [OF q(4) demo_calls_healthy(2)]])
    have "bt_phase (br_batch ?\<tau> KAlarms) = Running" using q(4) by (simp add: \<tau>)
    then show "bridge_step demo_bridge (\<lambda>s. s = demo_server) ?\<tau> (doFlush demo_bridge demo_calls KAlarms ?\<tau>)"
      by (rule bridge_step.Timer [OF _ demo_calls_healthy(2)])
  qed
  moreover have "1 \<in> set (br_acked (doFlush demo_bridge demo_calls KAlarms ?\<tau>))"
  proof -
    have "ca_acked demo_calls 1" by (simp add: demo_calls_def)
    then show ?thesis using flush q(5) by (simp add: doFlush_def batcher_submit_def Let_def \<tau> del: flush_kind.simps)
  qed
  ultimately show thesis using that by blast
qed

theorem acknowledged_is_settled_witness:
  "\<exists>\<sigma>. bridge_reach demo_bridge (\<lambda>s. s = demo_server) demo_tdb \<sigma> \<and> 1 \<in> set (br_acked \<sigma>)
     \<and> (\<exists>x \<in> set (br_log \<sigma>). dl_id x = 1 \<and> settled demo_bridge (\<lambda>s. s = demo_server) (br_db \<sigma>) x)"
proof -
  obtain \<sigma> where "bridge_reach demo_bridge (\<lambda>s. s = demo_server) demo_tdb \<sigma>" "1 \<in> set (br_acked \<sigma>)" using demo_acked by blast
  moreover from this have "\<exists>x \<in> set (br_log \<sigma>). dl_id x = 1 \<and> settled demo_bridge (\<lambda>s. s = demo_server) (br_db \<sigma>) x"
    by (intro acknowledged_is_settled [OF _ demo_tdb_ok]) (simp_all add: demo_bridge_def)
  ultimately show ?thesis by blast
qed

theorem bridge_bounded_witness:
  "\<exists>\<sigma>. bridge_reach demo_bridge (\<lambda>s. s = demo_server) demo_tdb \<sigma> \<and> bt_in (br_batch \<sigma> KAlarms) \<noteq> [] \<and> length (bt_in (br_batch \<sigma> KAlarms)) \<le> 2000 \<and> db_ok (br_db \<sigma>)"
proof -
  obtain \<sigma> p where q: "bridge_reach demo_bridge (\<lambda>s. s = demo_server) demo_tdb \<sigma>" "bt_in (br_batch \<sigma> KAlarms) = [(1, MAlarm p)]" using demo_queued by blast
  have "bp_client demo_bridge = dial_client \<lparr>cf_Chunk = 0, cf_SubmitTimeout = 0\<rparr>" by (simp add: demo_bridge_def)
  from bridge_bounded [OF q(1) demo_tdb_ok this, of KAlarms] show ?thesis using q
    by (intro exI [of _ \<sigma>]) (simp add: queue_depth_def NewBatcher_def demo_bridge_def)
qed


theorem submit_attempts_bounded_witness:
  "\<exists>db' out n. submit (dial_client \<lparr>cf_Chunk = 0, cf_SubmitTimeout = 0\<rparr>) demo_calls (\<lambda>_ _ _ db. (db, Inl Unavailable)) [()] () = (db', out, n) \<and> n \<le> 7"
proof -
  obtain db' out n where run: "submit (dial_client \<lparr>cf_Chunk = 0, cf_SubmitTimeout = 0\<rparr>) demo_calls (\<lambda>_ _ _ db. (db, Inl Unavailable)) [()] () = (db', out, n)"
    using prod_cases3 by blast
  then show ?thesis using submit_attempts_bounded [OF run] by (simp add: dial_client_def)
qed

end
