(* ===== verification/Sim_Scenario.thy ===== *)
theory Sim_Scenario
  imports Rain Go_Strings
begin

text \<open>
  What a simulated run is made of: random draws, rainfall curves (\<^verbatim>\<open>internal/sim/rain.go\<close>), scenarios (\<^verbatim>\<open>scenario.go\<close>),
  street segments (\<^verbatim>\<open>segment.go\<close>), real sites (\<^verbatim>\<open>site.go\<close>) and the storms of a run's rain (\<^verbatim>\<open>truth.go\<close>).
  A random generator is a sequence of draws read by position. Amounts of rain are reals, so the checks for values that are not
  numbers have nothing to refuse.
\<close>

type_synonym uint64 = "64 word"

section \<open>Random draws\<close>

text \<open>The draws of one stream: raw integers, fractions, normal deviates and identifiers, by position.\<close>

record draws =
  dr_int :: "nat \<Rightarrow> int"
  dr_frac :: "nat \<Rightarrow> real"
  dr_norm :: "nat \<Rightarrow> real"
  dr_uuid :: "nat \<Rightarrow> string"

definition IntN :: "draws \<Rightarrow> nat \<Rightarrow> int \<Rightarrow> int" where
  "IntN R i n = dr_int R i mod n"

definition Float64 :: "draws \<Rightarrow> nat \<Rightarrow> real" where
  "Float64 R i = frac (dr_frac R i)"

text \<open>Conversion of a float to an integer type cuts the fraction off.\<close>

definition go_int :: "real \<Rightarrow> int" where
  "go_int x = (if 0 \<le> x then \<lfloor>x\<rfloor> else \<lceil>x\<rceil>)"

definition unif :: "draws \<Rightarrow> nat \<Rightarrow> real \<Rightarrow> real \<Rightarrow> real" where
  "unif R i lo hi = lo + (hi - lo) * Float64 R i"

section \<open>Rainfall curves\<close>

record breakpoint =
  bp_At :: duration
  bp_MmPerH :: real

type_synonym hyetograph = "breakpoint list"

definition Intensity :: "hyetograph \<Rightarrow> duration \<Rightarrow> real" where
  "Intensity h t =
     (if h = [] \<or> t < bp_At (h ! 0) \<or> t > bp_At (h ! (length h - 1)) then 0
      else let i = go_search (length h) (\<lambda>i. bp_At (h ! i) \<ge> t)
           in if i = 0 then bp_MmPerH (h ! 0)
              else let a = h ! (i - 1); b = h ! i
                   in if bp_At b = bp_At a then bp_MmPerH b
                      else let f = real_of_int (t - bp_At a) / real_of_int (bp_At b - bp_At a)
                           in bp_MmPerH a + f * (bp_MmPerH b - bp_MmPerH a))"

text \<open>The loop over neighbouring breakpoints.\<close>

fun hy_Total :: "hyetograph \<Rightarrow> real" where
  "hy_Total (a # b # h) = hours_of (bp_At b - bp_At a) * (bp_MmPerH b + bp_MmPerH a) / 2 + hy_Total (b # h)"
| "hy_Total _ = 0"

definition Normalised :: "hyetograph \<Rightarrow> real \<Rightarrow> hyetograph" where
  "Normalised h totalMM =
     (let cur = hy_Total h
      in if cur \<le> 0 then h else let k = totalMM / cur in map (\<lambda>p. p\<lparr>bp_MmPerH := bp_MmPerH p * k\<rparr>) h)"

definition Shifted :: "hyetograph \<Rightarrow> duration \<Rightarrow> hyetograph" where
  "Shifted h d = map (\<lambda>p. \<lparr>bp_At = bp_At p + d, bp_MmPerH = bp_MmPerH p\<rparr>) h"

definition hy_Append :: "hyetograph \<Rightarrow> hyetograph \<Rightarrow> hyetograph" where
  "hy_Append h h' = h @ h'"

text \<open>The jitter draws once for each wet minute, and only when there is a jitter.\<close>

fun with_jitter :: "draws \<Rightarrow> real \<Rightarrow> nat \<Rightarrow> real list \<Rightarrow> real list" where
  "with_jitter R jitter i [] = []"
| "with_jitter R jitter i (v # vs) =
     (if jitter > 0 \<and> v > 0 then v * (1 + jitter * (2 * Float64 R i - 1)) # with_jitter R jitter (i + 1) vs
      else v # with_jitter R jitter i vs)"

definition series_minutes :: "duration \<Rightarrow> nat" where
  "series_minutes d = nat (go_div d minute) + 1"

definition rainSeries :: "draws \<Rightarrow> hyetograph \<Rightarrow> duration \<Rightarrow> real \<Rightarrow> real list" where
  "rainSeries R h d jitter = with_jitter R jitter 0 (map (\<lambda>i. Intensity h (int i * minute)) [0..<series_minutes d])"

definition minuteSeries :: "draws \<Rightarrow> real list \<Rightarrow> duration \<Rightarrow> real \<Rightarrow> real list" where
  "minuteSeries R minutes d jitter =
     (let n = series_minutes d in with_jitter R jitter 0 (take n minutes @ replicate (n - length minutes) 0))"

section \<open>Pump condition and scenarios\<close>

datatype pump_health = PumpHealthy | PumpDryRunning | PumpShortCycling | PumpFailing

definition health_String :: "pump_health \<Rightarrow> string" where
  "health_String h = (case h of PumpHealthy \<Rightarrow> ''healthy'' | PumpDryRunning \<Rightarrow> ''dry_running'' | PumpShortCycling \<Rightarrow> ''short_cycling'' | PumpFailing \<Rightarrow> ''failing'')"

definition health_UnmarshalText :: "string \<Rightarrow> pump_health option" where
  "health_UnmarshalText b = find (\<lambda>c. health_String c = b) [PumpHealthy, PumpDryRunning, PumpShortCycling, PumpFailing]"

record outage =
  ou_SegmentIndexes :: "int list"
  ou_At :: duration
  ou_Duration :: duration

record scenario =
  sc_Name :: string
  sc_Description :: string
  sc_Duration :: duration
  sc_Rain :: hyetograph
  sc_RainMinutes :: "real list"
  sc_RainJitter :: real
  sc_BaseflowMul :: real
  sc_ReservoirMul :: real
  sc_ResponseMul :: real
  sc_Outages :: "outage list"
  sc_HealthOverrides :: "int \<rightharpoonup> pump_health"

text \<open>A literal that names only some fields leaves the others zero.\<close>

definition no_scenario :: scenario where
  "no_scenario = \<lparr>sc_Name = '''', sc_Description = '''', sc_Duration = 0, sc_Rain = [], sc_RainMinutes = [], sc_RainJitter = 0,
     sc_BaseflowMul = 0, sc_ReservoirMul = 0, sc_ResponseMul = 0, sc_Outages = [], sc_HealthOverrides = Map.empty\<rparr>"

datatype sim_error =
    ScenarioUnnamed | BadDuration string | RainNotSorted string | TwoRains string | BadRainMinute string
  | SiteEmpty string | SiteBadSegment string nat | SiteHomeSegment string nat | SiteIdentity string nat | SiteStream string nat
  | SiteSegmentEmpty string string
  | ObsNotAfter | ObsNotMinutes | ObsHourNotMinute instant | ObsBadAmount instant | ObsTwice instant
  | NoScenario | SiteWithCounts | SitePinsHealth | OutageOutside int | BadCounts | BadGauges | NoStart

fun at_sorted :: "hyetograph \<Rightarrow> bool" where
  "at_sorted (a # b # h) = (bp_At a \<le> bp_At b \<and> at_sorted (b # h))"
| "at_sorted _ = True"

definition scenario_validate :: "scenario \<Rightarrow> sim_error option" where
  "scenario_validate s =
     (if sc_Name s = '''' then Some ScenarioUnnamed
      else if sc_Duration s \<le> 0 then Some (BadDuration (sc_Name s))
      else if \<not> at_sorted (sc_Rain s) then Some (RainNotSorted (sc_Name s))
      else if sc_RainMinutes s \<noteq> [] \<and> sc_Rain s \<noteq> [] then Some (TwoRains (sc_Name s))
      else if list_ex (\<lambda>v. v < 0) (sc_RainMinutes s) then Some (BadRainMinute (sc_Name s))
      else None)"

definition RainTotal :: "scenario \<Rightarrow> real" where
  "RainTotal s = (if sc_RainMinutes s = [] then hy_Total (sc_Rain s) else foldl (\<lambda>mm v. mm + v / 60) 0 (sc_RainMinutes s))"

definition mul_or_one :: "real \<Rightarrow> real" where
  "mul_or_one v = (if v = 0 then 1 else v)"

definition bp :: "duration \<Rightarrow> real \<Rightarrow> breakpoint" where
  "bp t v = \<lparr>bp_At = t, bp_MmPerH = v\<rparr>"

definition burstShape :: hyetograph where
  "burstShape = [bp 0 0, bp (10 * minute) 10, bp (30 * minute) 26, bp (60 * minute) 17, bp (90 * minute) 6.5, bp (120 * minute) 0]"

definition longShape :: hyetograph where
  "longShape = [bp 0 0, bp (1 * hour) 15, bp (2 * hour) 20, bp (3 * hour) 12, bp (4 * hour) 25, bp (5 * hour) 10, bp (6 * hour) 0]"

definition storm50 :: scenario where
  "storm50 = no_scenario\<lparr>sc_Name := ''storm50'',
     sc_Description := ''50 mm spring storm over 6 h after a 6 h dry lead; the Phase 1 acceptance scenario'', sc_Duration := 24 * hour,
     sc_Rain := Shifted (Normalised longShape 50) (6 * hour), sc_RainJitter := 0.05\<rparr>"

definition thawShape :: hyetograph where
  "thawShape = hy_Append [bp (72 * hour) 0, bp (72 * hour + 30 * minute) 4, bp (84 * hour) 4, bp (84 * hour + 30 * minute) 0]
     [bp (90 * hour) 0, bp (90 * hour + 15 * minute) 8, bp (90 * hour + 30 * minute) 0]"

text \<open>The built-in scenarios, in the order of their list; the map of the code has them by name.\<close>

definition Scenarios :: "scenario list" where
  "Scenarios =
    [no_scenario\<lparr>sc_Name := ''dry-week'', sc_Description := ''Seven dry days: pure baseflow, no alarms expected on healthy homes'',
       sc_Duration := 7 * 24 * hour\<rparr>,
     no_scenario\<lparr>sc_Name := ''storm25'', sc_Description := ''25 mm summer burst (2 h) after a 6 h dry lead'', sc_Duration := 24 * hour,
       sc_Rain := Shifted (Normalised burstShape 25) (6 * hour), sc_RainJitter := 0.05\<rparr>,
     storm50,
     no_scenario\<lparr>sc_Name := ''storm25-long'',
       sc_Description := ''storm25'' @ [CHR 0x27] @ ''s burst after a 3-day dry lead (baseflow history) with a 3-day recession tail; a Phase 4 acceptance scenario'',
       sc_Duration := 6 * 24 * hour, sc_Rain := Shifted (Normalised burstShape 25) (72 * hour), sc_RainJitter := 0.05\<rparr>,
     no_scenario\<lparr>sc_Name := ''storm50-long'',
       sc_Description := ''storm50'' @ [CHR 0x27] @ ''s 6 h storm after a 3-day dry lead (baseflow history) with a 3-day recession tail; a Phase 4 acceptance scenario'',
       sc_Duration := 6 * 24 * hour, sc_Rain := Shifted (Normalised longShape 50) (72 * hour), sc_RainJitter := 0.05\<rparr>,
     no_scenario\<lparr>sc_Name := ''thaw50'',
       sc_Description := ''Spring thaw: 72 h dry lead at a high water table, then 12 h of steady rain (48 mm) and a 2 mm shower'',
       sc_Duration := 108 * hour, sc_Rain := Normalised thawShape 50, sc_RainJitter := 0.05, sc_BaseflowMul := 2, sc_ReservoirMul := 1.5,
       sc_ResponseMul := 1.4\<rparr>,
     no_scenario\<lparr>sc_Name := ''outage'', sc_Description := ''storm50 with a 3 h power outage on segments 3-4 starting 90 min after rain onset'',
       sc_Duration := sc_Duration storm50, sc_Rain := sc_Rain storm50, sc_RainJitter := sc_RainJitter storm50,
       sc_Outages := [\<lparr>ou_SegmentIndexes = [2, 3], ou_At = 7 * hour + 30 * minute, ou_Duration = 3 * hour\<rparr>]\<rparr>,
     no_scenario\<lparr>sc_Name := ''failing-pump'',
       sc_Description := ''Seven days with a 25 mm storm on day 4; homes 7 (failing), 9 (dry-running) and 11 (short-cycling) are unhealthy'',
       sc_Duration := 7 * 24 * hour, sc_Rain := Shifted (Normalised burstShape 25) (3 * 24 * hour + 6 * hour), sc_RainJitter := 0.05,
       sc_HealthOverrides := [7 \<mapsto> PumpFailing, 9 \<mapsto> PumpDryRunning, 11 \<mapsto> PumpShortCycling]\<rparr>]"

section \<open>Observed rain\<close>

record hourly_rain =
  hr_End :: instant
  hr_MM :: real

text \<open>The loop over the minutes of an hour, within the series.\<close>

definition fill_hour :: "int \<Rightarrow> real \<Rightarrow> real list \<Rightarrow> real list" where
  "fill_hour first mm minutes = map (\<lambda>m. if max first 0 \<le> int m \<and> int m < first + 60 then mm else minutes ! m) [0..<length minutes]"

text \<open>The loop over the hours: the end times seen so far, in seconds, and the minutes.\<close>

fun fill_hours :: "instant \<Rightarrow> int set \<Rightarrow> hourly_rain list \<Rightarrow> real list \<Rightarrow> sim_error + real list" where
  "fill_hours from_ts seen [] minutes = Inr minutes"
| "fill_hours from_ts seen (h # hs) minutes =
     (if hr_End h mod minute \<noteq> 0 then Inl (ObsHourNotMinute (hr_End h))
      else if hr_MM h < 0 then Inl (ObsBadAmount (hr_End h))
      else if hr_End h div second \<in> seen then Inl (ObsTwice (hr_End h))
      else fill_hours from_ts (insert (hr_End h div second) seen) hs
             (fill_hour (go_div (hr_End h - hour - from_ts) minute) (hr_MM h) minutes))"

definition ObservedRainScenario :: "string \<Rightarrow> string \<Rightarrow> instant \<Rightarrow> instant \<Rightarrow> hourly_rain list \<Rightarrow> sim_error + scenario" where
  "ObservedRainScenario name description from_ts to_ts hours =
     (if \<not> to_ts > from_ts then Inl ObsNotAfter
      else if from_ts mod minute \<noteq> 0 \<or> to_ts mod minute \<noteq> 0 then Inl ObsNotMinutes
      else let d = to_ts - from_ts
           in bind_sum (fill_hours from_ts {} hours (replicate (nat (go_div d minute)) 0))
                (\<lambda>minutes. Inr (no_scenario\<lparr>sc_Name := name, sc_Description := description, sc_Duration := d, sc_RainMinutes := minutes\<rparr>)))"

section \<open>Segments\<close>

datatype street_kind = SegmentStandard | SegmentWooded | SegmentNearPond | SegmentHighGround

definition kind_String :: "street_kind \<Rightarrow> string" where
  "kind_String k = (case k of SegmentStandard \<Rightarrow> ''standard'' | SegmentWooded \<Rightarrow> ''wooded'' | SegmentNearPond \<Rightarrow> ''near_pond'' | SegmentHighGround \<Rightarrow> ''high_ground'')"

text \<open>Response, baseflow and reservoir multipliers.\<close>

definition kindMultipliers :: "street_kind \<Rightarrow> real \<times> real \<times> real" where
  "kindMultipliers k = (case k of SegmentStandard \<Rightarrow> (1, 1, 1) | SegmentWooded \<Rightarrow> (1.3, 1.2, 1) | SegmentNearPond \<Rightarrow> (1.6, 2, 1.5)
     | SegmentHighGround \<Rightarrow> (0.7, 0.6, 1))"

definition kindPattern :: "street_kind list" where
  "kindPattern = [SegmentStandard, SegmentWooded, SegmentNearPond, SegmentStandard,
     SegmentHighGround, SegmentStandard, SegmentWooded, SegmentNearPond]"

record segment_params =
  sp_Index :: nat
  sp_ID :: string
  sp_Name :: string
  sp_Kind :: street_kind
  sp_ResponseMul :: real
  sp_BaseflowMul :: real
  sp_ReservoirMul :: real
  sp_HomeIndexes :: "nat list"

definition pad_zeros :: "nat \<Rightarrow> string \<Rightarrow> string" where
  "pad_zeros w s = replicate (w - length s) (CHR ''0'') @ s"

function every_nth :: "nat \<Rightarrow> nat \<Rightarrow> nat \<Rightarrow> nat list" where
  "every_nth h n k = (if h < n \<and> 0 < k then h # every_nth (h + k) n k else [])"
  by auto
termination by (relation "measure (\<lambda>(h, n, k). n - h)") auto

declare every_nth.simps [simp del]

definition street_segment :: "nat \<Rightarrow> string \<Rightarrow> string \<Rightarrow> street_kind \<Rightarrow> nat list \<Rightarrow> segment_params" where
  "street_segment i ident name kind homes =
     (let (response, baseflow, res) = kindMultipliers kind
      in \<lparr>sp_Index = i, sp_ID = ident, sp_Name = name, sp_Kind = kind, sp_ResponseMul = response, sp_BaseflowMul = baseflow,
          sp_ReservoirMul = res, sp_HomeIndexes = homes\<rparr>)"

definition buildSegments :: "nat \<Rightarrow> nat \<Rightarrow> segment_params list" where
  "buildSegments nHomes nSegments =
     map (\<lambda>i. let kind = kindPattern ! (i mod length kindPattern); num = pad_zeros 2 (format_nat (i + 1))
              in street_segment i (''seg-'' @ num) (''Segment '' @ num @ '' ('' @ kind_String kind @ '')'') kind (every_nth i nHomes nSegments))
       [0..<nSegments]"

section \<open>Sites\<close>

record site_segment =
  sg_ID :: string
  sg_Name :: string
  sg_Kind :: street_kind

record site_home =
  sh_HomeID :: string
  sh_DevEUI :: string
  sh_DevAddr :: string
  sh_Stream :: uint64
  sh_Segment :: int
  sh_Lon :: real
  sh_Lat :: real

record site =
  si_Name :: string
  si_Segments :: "site_segment list"
  si_Homes :: "site_home list"

definition siteStreamBit :: uint64 where "siteStreamBit = push_bit 63 1"

text \<open>Every kind is one of the four, so a kind is never unknown.\<close>

fun check_segments :: "string \<Rightarrow> string set \<Rightarrow> nat \<Rightarrow> site_segment list \<Rightarrow> sim_error option" where
  "check_segments name segIDs i [] = None"
| "check_segments name segIDs i (s # ss) =
     (if sg_ID s = '''' \<or> sg_ID s \<in> segIDs then Some (SiteBadSegment name i) else check_segments name (insert (sg_ID s) segIDs) (i + 1) ss)"

text \<open>The loop over the homes: identities and streams seen so far. Home and device identities share a set, told apart by a letter.\<close>

fun check_homes :: "string \<Rightarrow> nat \<Rightarrow> string set \<Rightarrow> uint64 set \<Rightarrow> nat \<Rightarrow> site_home list \<Rightarrow> sim_error option" where
  "check_homes name nseg ids streams i [] = None"
| "check_homes name nseg ids streams i (h # hs) =
     (if sh_Segment h < 0 \<or> sh_Segment h \<ge> int nseg then Some (SiteHomeSegment name i)
      else if sh_HomeID h = '''' \<or> sh_DevEUI h = '''' \<or> sh_DevAddr h = '''' \<or> CHR ''h'' # sh_HomeID h \<in> ids \<or> CHR ''d'' # sh_DevEUI h \<in> ids
        then Some (SiteIdentity name i)
      else if sh_Stream h AND siteStreamBit = 0 \<or> sh_Stream h \<in> streams then Some (SiteStream name i)
      else check_homes name nseg (insert (CHR ''d'' # sh_DevEUI h) (insert (CHR ''h'' # sh_HomeID h) ids)) (insert (sh_Stream h) streams) (i + 1) hs)"

definition homes_in :: "site \<Rightarrow> nat \<Rightarrow> nat list" where
  "homes_in s k = filter (\<lambda>i. sh_Segment (si_Homes s ! i) = int k) [0..<length (si_Homes s)]"

definition site_validate :: "site \<Rightarrow> sim_error option" where
  "site_validate s =
     (if si_Segments s = [] \<or> si_Homes s = [] then Some (SiteEmpty (si_Name s))
      else case check_segments (si_Name s) {} 0 (si_Segments s) of Some e \<Rightarrow> Some e
      | None \<Rightarrow> (case check_homes (si_Name s) (length (si_Segments s)) {} {} 0 (si_Homes s) of Some e \<Rightarrow> Some e
      | None \<Rightarrow> map_option (\<lambda>k. SiteSegmentEmpty (si_Name s) (sg_ID (si_Segments s ! k)))
                  (find (\<lambda>k. homes_in s k = []) [0..<length (si_Segments s)])))"

text \<open>The loop that appends every home to its segment leaves each segment its homes in order.\<close>

definition siteSegments :: "site \<Rightarrow> segment_params list" where
  "siteSegments s = map (\<lambda>k. let ss = si_Segments s ! k in street_segment k (sg_ID ss) (sg_Name ss) (sg_Kind ss) (homes_in s k)) [0..<length (si_Segments s)]"

text \<open>Where a gauge of a site stands: its name, longitude and latitude, before they are printed into its location.\<close>

definition siteGaugePlacement :: "site \<Rightarrow> nat \<Rightarrow> string \<times> real \<times> real" where
  "siteGaugePlacement s i =
     (let lons = map sh_Lon (si_Homes s); lats = map sh_Lat (si_Homes s);
          west = foldl min (hd lons) (tl lons); east = foldl max (hd lons) (tl lons);
          south = foldl min (hd lats) (tl lats); north = foldl max (hd lats) (tl lats);
          midLon = (west + east) / 2; midLat = (south + north) / 2;
          northSouth = (north - south \<ge> (east - west) * cos (midLat * pi / 180));
          (loc, lon, lat) = (if i = 0 \<and> northSouth then (''north end'', midLon, north) else if i = 1 \<and> northSouth then (''south end'', midLon, south)
             else if i = 0 then (''west end'', west, midLat) else if i = 1 then (''east end'', east, midLat)
             else (''gauge '' @ format_nat (i + 1) @ '' (centre)'', midLon, midLat))
      in (loc, math_round (lon * 10000) / 10000, math_round (lat * 10000) / 10000))"

section \<open>The storms of a run\<close>

record storm_window =
  wi_firstRain :: int
  wi_onset :: int
  wi_rainEnd :: int
  wi_sum :: real
  wi_peak :: real

definition no_window :: storm_window where
  "no_window = \<lparr>wi_firstRain = - 1, wi_onset = - 1, wi_rainEnd = 0, wi_sum = 0, wi_peak = 0\<rparr>"

definition flush_window :: "storm_window list \<Rightarrow> storm_window \<Rightarrow> storm_window list" where
  "flush_window out cur = (if wi_firstRain cur \<ge> 0 \<and> wi_sum cur \<ge> 5 then out @ [cur] else out)"

definition rain_minute :: "int \<Rightarrow> real \<Rightarrow> storm_window \<Rightarrow> storm_window" where
  "rain_minute m r cur =
     (let cur = (if wi_firstRain cur < 0 then cur\<lparr>wi_firstRain := m\<rparr> else cur);
          cur = (if wi_onset cur < 0 \<and> r \<ge> 1 then cur\<lparr>wi_onset := m\<rparr> else cur)
      in cur\<lparr>wi_rainEnd := m, wi_sum := wi_sum cur + r / 60, wi_peak := max (wi_peak cur) r\<rparr>)"

fun storm_loop :: "int \<Rightarrow> real list \<Rightarrow> storm_window list \<Rightarrow> storm_window \<Rightarrow> int \<Rightarrow> storm_window list" where
  "storm_loop m [] out cur lastRain = flush_window out cur"
| "storm_loop m (r # rs) out cur lastRain =
     (if r \<le> 0
      then if lastRain \<ge> 0 \<and> m - lastRain \<ge> 6 * 60 then storm_loop (m + 1) rs (flush_window out cur) no_window (- 1)
           else storm_loop (m + 1) rs out cur lastRain
      else storm_loop (m + 1) rs out (rain_minute m r cur) m)"

definition findStorms :: "real list \<Rightarrow> storm_window list" where
  "findStorms rain = map (\<lambda>w. if wi_onset w < 0 then w\<lparr>wi_onset := wi_firstRain w\<rparr> else w) (storm_loop 0 rain [] no_window (- 1))"

section \<open>Every home has one segment\<close>

definition covers_once :: "segment_params list \<Rightarrow> nat \<Rightarrow> bool" where
  "covers_once segs n \<longleftrightarrow> (\<forall>k < length segs. sp_Index (segs ! k) = k \<and> distinct (sp_HomeIndexes (segs ! k)) \<and> set (sp_HomeIndexes (segs ! k)) \<subseteq> {..<n})
     \<and> (\<forall>x < n. \<exists>!k. k < length segs \<and> x \<in> set (sp_HomeIndexes (segs ! k)))"

lemma street_segment_sel [simp]:
  "sp_Index (street_segment i s nm kd hs) = i" "sp_ID (street_segment i s nm kd hs) = s" "sp_HomeIndexes (street_segment i s nm kd hs) = hs"
  by (simp_all add: street_segment_def Let_def split: prod.splits)

lemma every_nth_set: "0 < k \<Longrightarrow> x \<in> set (every_nth h n k) \<longleftrightarrow> h \<le> x \<and> x < n \<and> x mod k = h mod k"
proof (induction h n k rule: every_nth.induct)
  case (1 h n k)
  show ?case
  proof (cases "h < n")
    case True
    have "x = h \<or> h + k \<le> x" if le: "h \<le> x" and eq: "x mod k = h mod k"
    proof -
      obtain d where "x = h + d" using le le_Suc_ex by blast
      moreover have "k dvd x - h" using le eq by (simp only: mod_eq_dvd_iff_nat)
      ultimately show ?thesis using dvd_imp_le [of k d] by (cases "d = 0") auto
    qed
    moreover have "x \<in> set (every_nth h n k) \<longleftrightarrow> x = h \<or> x \<in> set (every_nth (h + k) n k)"
      using True 1(2) by (subst every_nth.simps) simp
    ultimately show ?thesis using True 1(1) [OF conjI [OF True 1(2)] 1(2)] by (auto simp del: mod_add_self2 simp: mod_add_self2 [of h k])
  next
    case False
    then show ?thesis by (simp add: every_nth.simps [of h n k])
  qed
qed

lemma every_nth_distinct: "distinct (every_nth h n k)"
proof (induction h n k rule: every_nth.induct)
  case (1 h n k)
  then show ?case using every_nth_set [of k h "h + k" n] by (auto simp: every_nth.simps [of h n k])
qed

lemma length_buildSegments [simp]: "length (buildSegments n k) = k"
  by (simp add: buildSegments_def)

lemma buildSegments_nth: "i < k \<Longrightarrow> sp_HomeIndexes (buildSegments n k ! i) = every_nth i n k \<and> sp_Index (buildSegments n k ! i) = i"
  by (simp add: buildSegments_def Let_def)

lemma buildSegments_covers:
  assumes "0 < k"
  shows "covers_once (buildSegments n k) n"
proof -
  have "\<exists>!i. i < k \<and> x \<in> set (sp_HomeIndexes (buildSegments n k ! i))" if "x < n" for x
    by (rule ex1I [of _ "x mod k"]) (use that assms in \<open>auto simp: buildSegments_nth every_nth_set\<close>)
  then show ?thesis using assms by (auto simp: covers_once_def buildSegments_nth every_nth_set every_nth_distinct)
qed

text \<open>A home stays in its segment when more homes are added.\<close>

lemma buildSegments_stable:
  assumes "0 < k" "n \<le> n'" "i < k"
  shows "set (sp_HomeIndexes (buildSegments n k ! i)) = set (sp_HomeIndexes (buildSegments n' k ! i)) \<inter> {..<n}"
  using assms by (auto simp: buildSegments_nth every_nth_set)

subsection \<open>Valid sites\<close>

lemma check_segments_ok: "check_segments name segIDs i ss = None \<longleftrightarrow> distinct (map sg_ID ss) \<and> (\<forall>s \<in> set ss. sg_ID s \<noteq> '''' \<and> sg_ID s \<notin> segIDs)"
proof (induction ss arbitrary: segIDs i)
  case (Cons s ss)
  have "check_segments name segIDs i (s # ss) = None \<longleftrightarrow> sg_ID s \<noteq> '''' \<and> sg_ID s \<notin> segIDs \<and> distinct (map sg_ID ss)
      \<and> (\<forall>x \<in> set ss. sg_ID x \<noteq> '''' \<and> sg_ID x \<notin> insert (sg_ID s) segIDs)" by (auto simp: Cons)
  also have "\<dots> \<longleftrightarrow> distinct (map sg_ID (s # ss)) \<and> (\<forall>x \<in> set (s # ss). sg_ID x \<noteq> '''' \<and> sg_ID x \<notin> segIDs)"
    by (simp add: ball_conj_distrib image_iff) (blast intro: sym)
  finally show ?case .
qed simp

definition homes_ok :: "nat \<Rightarrow> string set \<Rightarrow> uint64 set \<Rightarrow> site_home list \<Rightarrow> bool" where
  "homes_ok nseg ids streams hs \<longleftrightarrow> distinct (map sh_HomeID hs) \<and> distinct (map sh_DevEUI hs) \<and> distinct (map sh_Stream hs)
     \<and> (\<forall>h \<in> set hs. 0 \<le> sh_Segment h \<and> sh_Segment h < int nseg \<and> sh_HomeID h \<noteq> '''' \<and> sh_DevEUI h \<noteq> '''' \<and> sh_DevAddr h \<noteq> ''''
        \<and> CHR ''h'' # sh_HomeID h \<notin> ids \<and> CHR ''d'' # sh_DevEUI h \<notin> ids \<and> bit (sh_Stream h) 63 \<and> sh_Stream h \<notin> streams)"

lemma stream_bit: "(w :: uint64) AND siteStreamBit = 0 \<longleftrightarrow> \<not> bit w 63"
proof -
  have b: "bit siteStreamBit n \<longleftrightarrow> n = 63" if "n < 64" for n
    unfolding siteStreamBit_def bit_push_bit_iff using that by (auto simp: bit_1_iff)
  show ?thesis
  proof
    assume "w AND siteStreamBit = 0"
    then have "\<not> bit (w AND siteStreamBit) 63" by (simp only: bit_0_eq bot_apply bot_bool_def not_False_eq_True)
    then show "\<not> bit w 63" using b [of 63] by (simp add: bit_and_iff)
  next
    assume "\<not> bit w 63"
    then show "w AND siteStreamBit = 0" by (intro bit_word_eqI) (auto simp: bit_and_iff b)
  qed
qed

lemma check_homes_ok: "check_homes name nseg ids streams i hs = None \<longleftrightarrow> homes_ok nseg ids streams hs"
proof (induction hs arbitrary: ids streams i)
  case (Cons h hs)
  have "check_homes name nseg ids streams i (h # hs) = None \<longleftrightarrow>
      0 \<le> sh_Segment h \<and> sh_Segment h < int nseg \<and> sh_HomeID h \<noteq> '''' \<and> sh_DevEUI h \<noteq> '''' \<and> sh_DevAddr h \<noteq> ''''
      \<and> CHR ''h'' # sh_HomeID h \<notin> ids \<and> CHR ''d'' # sh_DevEUI h \<notin> ids \<and> bit (sh_Stream h) 63 \<and> sh_Stream h \<notin> streams
      \<and> homes_ok nseg (insert (CHR ''d'' # sh_DevEUI h) (insert (CHR ''h'' # sh_HomeID h) ids)) (insert (sh_Stream h) streams) hs"
    by (auto simp: Cons stream_bit)
  also have "\<dots> \<longleftrightarrow> homes_ok nseg ids streams (h # hs)"
    unfolding homes_ok_def by (simp add: ball_conj_distrib image_iff del: not_less not_le) (blast intro: sym)
  finally show ?case .
qed (simp add: homes_ok_def)

lemma site_validate_ok:
  assumes "site_validate s = None"
  shows "distinct (map sg_ID (si_Segments s))" "homes_ok (length (si_Segments s)) {} {} (si_Homes s)"
    "\<And>k. k < length (si_Segments s) \<Longrightarrow> homes_in s k \<noteq> []" "si_Homes s \<noteq> []"
  using assms by (auto simp: site_validate_def check_segments_ok check_homes_ok find_None_iff split: if_splits option.splits)

lemma siteSegments_covers:
  assumes "site_validate s = None"
  shows "covers_once (siteSegments s) (length (si_Homes s))"
proof -
  have seg: "0 \<le> sh_Segment (si_Homes s ! x) \<and> sh_Segment (si_Homes s ! x) < int (length (si_Segments s))" if "x < length (si_Homes s)" for x
    using site_validate_ok(2) [OF assms] that by (simp add: homes_ok_def)
  have "\<exists>!k. k < length (si_Segments s) \<and> x \<in> set (homes_in s k)" if "x < length (si_Homes s)" for x
    by (rule ex1I [of _ "nat (sh_Segment (si_Homes s ! x))"]) (use seg [OF that] that in \<open>auto simp: homes_in_def\<close>)
  moreover have "sp_HomeIndexes (siteSegments s ! k) = homes_in s k \<and> sp_Index (siteSegments s ! k) = k" if "k < length (si_Segments s)" for k
    using that by (simp add: siteSegments_def Let_def)
  moreover have "length (siteSegments s) = length (si_Segments s)" by (simp add: siteSegments_def)
  moreover have "distinct (homes_in s k) \<and> set (homes_in s k) \<subseteq> {..<length (si_Homes s)}" for k by (auto simp: homes_in_def)
  ultimately show ?thesis unfolding covers_once_def by (metis (no_types, lifting))
qed

section \<open>Built-in scenarios\<close>

lemma Total_scaled: "hy_Total (map (\<lambda>p. p\<lparr>bp_MmPerH := bp_MmPerH p * k\<rparr>) h) = hy_Total h * k"
  by (induction h rule: hy_Total.induct) (simp_all add: algebra_simps)

lemma Total_Normalised: "0 < hy_Total h \<Longrightarrow> hy_Total (Normalised h mm) = mm"
  using Total_scaled [of "mm / hy_Total h" h] by (simp add: Normalised_def Let_def)

lemma Total_Shifted: "hy_Total (Shifted h d) = hy_Total h"
  by (induction h rule: hy_Total.induct) (simp_all add: Shifted_def)

lemma at_sorted_iff: "at_sorted h \<longleftrightarrow> sorted (map bp_At h)"
  by (induction h rule: at_sorted.induct) (auto intro: order_trans)

lemma at_sorted_Normalised [simp]: "at_sorted (Normalised h mm) = at_sorted h"
  by (simp add: at_sorted_iff Normalised_def Let_def comp_def)

lemma at_sorted_Shifted [simp]: "at_sorted (Shifted h d) = at_sorted h"
  by (simp add: at_sorted_iff Shifted_def sorted_map comp_def sorted_wrt_map)

lemma shape_totals: "hy_Total burstShape = 301 / 12" "hy_Total longShape = 82" "hy_Total thawShape = 50"
  by (simp_all add: burstShape_def longShape_def thawShape_def hy_Append_def bp_def hours_of_def go_time)

text \<open>
  The built-in scenarios are what their names say: every one of them passes validation, their names differ, and the rain they
  carry, after normalising and shifting their shapes, is 25 or 50 mm as announced and none in the dry week.
\<close>

theorem builtin_scenarios:
  "list_all (\<lambda>s. scenario_validate s = None) Scenarios \<and> distinct (map sc_Name Scenarios)
   \<and> map RainTotal Scenarios = [0, 25, 50, 25, 50, 50, 50, 25]"
proof -
  have pos: "0 < hy_Total burstShape" "0 < hy_Total longShape" "0 < hy_Total thawShape" by (simp_all add: shape_totals)
  have ne: "Normalised h mm = [] \<longleftrightarrow> h = []" "Shifted h d = [] \<longleftrightarrow> h = []" for h mm d
    by (simp_all add: Normalised_def Let_def Shifted_def)
  have sorted: "at_sorted burstShape" "at_sorted longShape" "at_sorted thawShape"
    by (simp_all add: burstShape_def longShape_def thawShape_def hy_Append_def bp_def go_time)
  have "list_all (\<lambda>s. scenario_validate s = None) Scenarios"
    by (simp add: Scenarios_def scenario_validate_def storm50_def no_scenario_def sorted go_time)
  moreover have "map RainTotal Scenarios = [0, 25, 50, 25, 50, 50, 50, 25]"
    by (simp add: Scenarios_def RainTotal_def storm50_def no_scenario_def Total_Shifted Total_Normalised pos)
  moreover have "distinct (map sc_Name Scenarios)"
    by (simp add: Scenarios_def storm50_def no_scenario_def)
  ultimately show ?thesis by blast
qed

section \<open>Observed rain keeps its totals\<close>

definition in_hour :: "int \<Rightarrow> nat \<Rightarrow> bool" where
  "in_hour first m \<longleftrightarrow> first \<le> int m \<and> int m < first + 60"

definition first_minute :: "instant \<Rightarrow> hourly_rain \<Rightarrow> int" where
  "first_minute from_ts h = go_div (hr_End h - hour - from_ts) minute"

lemma fill_hour_nth: "m < length xs \<Longrightarrow> fill_hour first mm xs ! m = (if in_hour first m then mm else xs ! m)"
  by (simp add: fill_hour_def in_hour_def)

lemma length_fill_hour [simp]: "length (fill_hour first mm xs) = length xs"
  by (simp add: fill_hour_def)

lemma card_in_hour: "real (card {m \<in> {..<n}. in_hour first m}) = real_of_int (max 0 (min (int n) (first + 60) - max 0 first))"
proof -
  have "{m \<in> {..<n}. in_hour first m} = nat ` {max 0 first..<min (int n) (first + 60)}"
  proof (intro set_eqI iffI)
    fix m assume "m \<in> {m \<in> {..<n}. in_hour first m}"
    then show "m \<in> nat ` {max 0 first..<min (int n) (first + 60)}" by (intro image_eqI [of _ _ "int m"]) (auto simp: in_hour_def)
  qed (auto simp: in_hour_def)
  moreover have "inj_on nat {max 0 first..<min (int n) (first + 60)}" by (auto intro!: inj_onI)
  ultimately show ?thesis by (simp add: card_image)
qed

lemma sum_fill_hour:
  assumes "\<And>m. m < length xs \<Longrightarrow> in_hour first m \<Longrightarrow> xs ! m = 0"
  shows "sum_list (fill_hour first mm xs) = sum_list xs + mm * real (card {m \<in> {..<length xs}. in_hour first m})"
proof -
  have "sum_list (fill_hour first mm xs) = (\<Sum>m < length xs. xs ! m + (if in_hour first m then mm else 0))"
    by (simp add: sum_list_sum_nth lessThan_atLeast0 [symmetric] fill_hour_nth assms cong: sum.cong)
      (rule sum.cong, simp_all add: assms fill_hour_nth)
  also have "\<dots> = sum_list xs + mm * real (card {m \<in> {..<length xs}. in_hour first m})"
    by (simp add: sum.distrib sum.If_cases sum_list_sum_nth lessThan_atLeast0 Int_def conj_commute)
  finally show ?thesis .
qed

definition hours_apart :: "hourly_rain list \<Rightarrow> bool" where
  "hours_apart hs \<longleftrightarrow> sorted_wrt (\<lambda>a b. hour \<le> \<bar>hr_End b - hr_End a\<bar>) hs"

lemma minute_pos: "0 < minute"
  by (simp add: go_time)

lemma exact_minutes: "t mod minute = 0 \<Longrightarrow> go_div t minute * minute = t"
proof -
  assume "t mod minute = 0"
  then obtain k where "t = minute * k" by (auto simp: mod_eq_0_iff_dvd)
  moreover have "- (minute * k) div minute = - k" using minute_pos nonzero_mult_div_cancel_left [of minute "- k"] by simp
  ultimately show ?thesis using minute_pos by (simp add: go_div_def)
qed

lemma apart_minutes:
  assumes "hr_End a mod minute = 0" "hr_End b mod minute = 0" "from_ts mod minute = 0" "hour \<le> \<bar>hr_End b - hr_End a\<bar>" "in_hour (first_minute from_ts a) m"
  shows "\<not> in_hour (first_minute from_ts b) m"
proof -
  have hm: "hour = 60 * minute" by (simp add: go_time)
  have dvd: "minute dvd hr_End a - hour - from_ts" "minute dvd hr_End b - hour - from_ts"
    using assms(1-3) unfolding hm by (auto intro!: dvd_diff simp: mod_eq_0_iff_dvd)
  then have ex: "first_minute from_ts a * minute = hr_End a - hour - from_ts" "first_minute from_ts b * minute = hr_End b - hour - from_ts"
    unfolding first_minute_def by (intro exact_minutes; simp add: mod_eq_0_iff_dvd)+
  have "60 * minute \<le> \<bar>(first_minute from_ts b - first_minute from_ts a) * minute\<bar>"
    using assms(4) unfolding hm left_diff_distrib ex by simp
  then have "60 \<le> \<bar>first_minute from_ts b - first_minute from_ts a\<bar>"
    using minute_pos by (simp add: abs_mult)
  then show ?thesis using assms(5) by (auto simp: in_hour_def)
qed

lemma fill_hours_ok:
  "fill_hours from_ts seen hs xs = Inr out \<Longrightarrow> (\<forall>h \<in> set hs. hr_End h mod minute = 0 \<and> 0 \<le> hr_MM h) \<and> ((\<forall>v \<in> set xs. 0 \<le> v) \<longrightarrow> (\<forall>v \<in> set out. 0 \<le> v))"
proof (induction from_ts seen hs xs rule: fill_hours.induct)
  case (2 from_ts seen h hs xs)
  have fill: "(\<forall>v \<in> set xs. 0 \<le> v) \<Longrightarrow> 0 \<le> hr_MM h \<Longrightarrow> (\<forall>v \<in> set (fill_hour f (hr_MM h) xs). 0 \<le> v)" for f
    by (auto simp: fill_hour_def)
  have h: "hr_End h mod minute = 0" "0 \<le> hr_MM h" "hr_End h div second \<notin> seen"
    and rest: "fill_hours from_ts (insert (hr_End h div second) seen) hs (fill_hour (go_div (hr_End h - hour - from_ts) minute) (hr_MM h) xs) = Inr out"
    using 2(2) by (simp_all split: if_splits)
  have "\<not> hr_End h mod minute \<noteq> 0" "\<not> hr_MM h < 0" using h by simp_all
  note ih = 2(1) [OF this h(3) rest]
  show ?case using ih h(1,2) fill unfolding list.set by blast
qed simp

lemma fill_hours_sum:
  assumes "fill_hours from_ts seen hs xs = Inr out" and "hours_apart hs" and "from_ts mod minute = 0"
    and "\<And>h m. h \<in> set hs \<Longrightarrow> m < length xs \<Longrightarrow> in_hour (first_minute from_ts h) m \<Longrightarrow> xs ! m = 0"
  shows "length out = length xs \<and> sum_list out = sum_list xs
    + (\<Sum>h \<leftarrow> hs. hr_MM h * real (card {m \<in> {..<length xs}. in_hour (first_minute from_ts h) m}))"
  using assms
proof (induction hs arbitrary: seen xs)
  case (Cons h hs)
  let ?xs = "fill_hour (first_minute from_ts h) (hr_MM h) xs"
  have rest: "fill_hours from_ts (insert (hr_End h div second) seen) hs ?xs = Inr out" and h: "hr_End h mod minute = 0"
    using Cons.prems(1) by (auto simp: first_minute_def split: if_splits)
  have on: "hr_End a mod minute = 0" if "a \<in> set hs" for a
    using fill_hours_ok [OF rest] that by blast
  have "length out = length ?xs \<and> sum_list out = sum_list ?xs
      + (\<Sum>h \<leftarrow> hs. hr_MM h * real (card {m \<in> {..<length ?xs}. in_hour (first_minute from_ts h) m}))"
  proof (rule Cons.IH [OF rest])
    show "hours_apart hs" using Cons.prems(2) by (simp add: hours_apart_def)
    fix a m assume a: "a \<in> set hs" and m: "m < length ?xs" and i: "in_hour (first_minute from_ts a) m"
    have "hour \<le> \<bar>hr_End a - hr_End h\<bar>" using Cons.prems(2) a by (simp add: hours_apart_def)
    then have "\<not> in_hour (first_minute from_ts h) m" using apart_minutes [OF h on [OF a] Cons.prems(3)] i by blast
    then show "?xs ! m = 0" using m i Cons.prems(4) [of a m] a by (simp add: fill_hour_nth)
  qed (fact Cons.prems(3))
  moreover have "sum_list ?xs = sum_list xs + hr_MM h * real (card {m \<in> {..<length xs}. in_hour (first_minute from_ts h) m})"
    by (rule sum_fill_hour) (use Cons.prems(4) [of h] in simp)
  ultimately show ?case by simp
qed simp

text \<open>How much of an hour lies in the period.\<close>

definition hour_overlap :: "instant \<Rightarrow> instant \<Rightarrow> hourly_rain \<Rightarrow> duration" where
  "hour_overlap from_ts to_ts h = max 0 (min to_ts (hr_End h) - max from_ts (hr_End h - hour))"

lemma foldl_minutes: "foldl (\<lambda>mm v. mm + v / 60) a xs = a + sum_list xs / 60" for a :: real
  by (induction xs arbitrary: a) (simp_all add: field_simps)

text \<open>
  Observed rain keeps its totals: if the hours are at least an hour apart, the scenario built from them carries, in the
  whole period, exactly the part of each observed amount that falls into the period, in proportion to the hour's overlap with it; and
  it is a valid scenario.
\<close>

theorem observed_rain_total:
  assumes ok: "ObservedRainScenario name description from_ts to_ts hours = Inr s" and ap: "hours_apart hours" and name: "name \<noteq> ''''"
  shows "RainTotal s = (\<Sum>h \<leftarrow> hours. hr_MM h * hours_of (hour_overlap from_ts to_ts h)) \<and> scenario_validate s = None"
proof -
  let ?n = "nat (go_div (to_ts - from_ts) minute)"
  have t: "from_ts < to_ts" "from_ts mod minute = 0" "to_ts mod minute = 0" using ok by (auto simp: ObservedRainScenario_def split: if_splits)
  obtain out where out: "fill_hours from_ts {} hours (replicate ?n 0) = Inr out"
    and s: "s = no_scenario\<lparr>sc_Name := name, sc_Description := description, sc_Duration := to_ts - from_ts, sc_RainMinutes := out\<rparr>"
    using ok by (auto simp: ObservedRainScenario_def Let_def bind_sum_Inr_iff split: if_splits)
  have sum: "length out = ?n \<and> sum_list out = (\<Sum>h \<leftarrow> hours. hr_MM h * real (card {m \<in> {..<?n}. in_hour (first_minute from_ts h) m}))"
    using fill_hours_sum [OF out ap t(2)] by (simp add: sum_list_replicate)
  have n: "int ?n * minute = to_ts - from_ts"
  proof -
    have "(to_ts - from_ts) mod minute = 0" using t(2,3) by (metis mod_0 mod_diff_eq diff_0_right)
    moreover have "0 \<le> go_div (to_ts - from_ts) minute" using t(1) minute_pos by (simp add: go_div_def pos_imp_zdiv_nonneg_iff)
    ultimately show ?thesis using exact_minutes by simp
  qed
  have each: "real (card {m \<in> {..<?n}. in_hour (first_minute from_ts h) m}) / 60 = hours_of (hour_overlap from_ts to_ts h)" if "h \<in> set hours" for h
  proof -
    have "(hr_End h - hour - from_ts) mod minute = 0"
      using fill_hours_ok [OF out] t(2) that by (auto simp: go_time mod_eq_0_iff_dvd)
    then have f: "first_minute from_ts h * minute = hr_End h - hour - from_ts" unfolding first_minute_def by (rule exact_minutes)
    have "max 0 (min (int ?n) (first_minute from_ts h + 60) - max 0 (first_minute from_ts h)) * minute = hour_overlap from_ts to_ts h"
    proof -
      have g: "(first_minute from_ts h + 60) * minute = hr_End h - from_ts" using f by (simp add: distrib_right go_time)
      have "max 0 (min (int ?n) (first_minute from_ts h + 60) - max 0 (first_minute from_ts h)) * minute
          = max (0 * minute) (min (int ?n * minute) ((first_minute from_ts h + 60) * minute) - max (0 * minute) (first_minute from_ts h * minute))"
        using minute_pos by (simp only: max_mult_distrib_right min_mult_distrib_right left_diff_distrib) (simp add: go_time)
      also have "\<dots> = hour_overlap from_ts to_ts h" unfolding n f g hour_overlap_def by (simp add: max_def min_def)
      finally show ?thesis .
    qed
    then show ?thesis unfolding card_in_hour hours_of_def by (simp add: go_time)
  qed
  have "RainTotal s = sum_list out / 60"
  proof -
    have "int (length out) * minute = to_ts - from_ts" using sum n by metis
    then have "out \<noteq> []" using t(1) by auto
    then show ?thesis by (simp add: RainTotal_def s foldl_minutes)
  qed
  also have "\<dots> = (\<Sum>h \<leftarrow> hours. hr_MM h * (real (card {m \<in> {..<?n}. in_hour (first_minute from_ts h) m}) / 60))"
    using sum sum_list_mult_const [of "\<lambda>h. hr_MM h * real (card {m \<in> {..<?n}. in_hour (first_minute from_ts h) m})" "1 / 60" hours] by simp
  also have "\<dots> = (\<Sum>h \<leftarrow> hours. hr_MM h * hours_of (hour_overlap from_ts to_ts h))"
    by (intro arg_cong [where f = sum_list] map_cong refl) (simp only: each)
  finally show ?thesis using t(1) name fill_hours_ok [OF out] by (auto simp: scenario_validate_def s no_scenario_def list_ex_iff)
qed

section \<open>The truth about storms is what the analytics find\<close>

text \<open>The rain of a run as the intervals the analytics read, one a minute.\<close>

fun minute_rain :: "instant \<Rightarrow> real list \<Rightarrow> rain_interval list" where
  "minute_rain t [] = []"
| "minute_rain t (r # rs) = \<lparr>ri_Start = t, ri_Dur = minute, ri_MM = r / 60\<rparr> # minute_rain (t + minute) rs"

text \<open>Rain that is clear of the tolerances: no drizzle below them, no intensity just short of 1 mm/h, no total just short of 5 mm.\<close>

definition clear_rain :: "real list \<Rightarrow> bool" where
  "clear_rain rain \<longleftrightarrow> (\<forall>r \<in> set rain. r = 0 \<or> rainEpsilonMM < r / 60 \<and> (r \<ge> 1 \<or> r + intensityTolerance < 1))
     \<and> (\<forall>i j. let s = sum_list (drop i (take j rain)) / 60 in s \<ge> 5 \<or> s + rainEpsilonMM < 5)"

definition storm_features :: "storm \<Rightarrow> instant \<times> instant \<times> instant \<times> real \<times> real" where
  "storm_features s = (st_FirstRain s, st_Onset s, st_RainEnd s, st_TotalMM s, st_PeakMMH s)"

definition window_key :: "instant \<Rightarrow> storm_window \<Rightarrow> instant \<times> instant \<times> instant \<times> real \<times> real" where
  "window_key start w = (start + wi_firstRain w * minute, start + (if wi_onset w < 0 then wi_firstRain w else wi_onset w) * minute,
     start + (wi_rainEnd w + 1) * minute, wi_sum w, wi_peak w)"

definition finish_storms :: "instant \<Rightarrow> segment_state \<Rightarrow> storm list" where
  "finish_storms horizon = (\<lambda>(out, cur, _). case cur of
     Some s \<Rightarrow> flush out (Some (s\<lparr>st_Closed := \<not> horizon < st_RainEnd s + StormMaxGap\<rparr>)) | None \<Rightarrow> out)"

lemma storm_features_closed [simp]: "storm_features (s\<lparr>st_Closed := c\<rparr>) = storm_features s"
  by (simp add: storm_features_def)

text \<open>
  The two loops side by side after the minutes \<open>pre\<close>: either both have an open storm with the same features, or the loop of the
  truth has closed its storm (or has none), and the analytics have none or one that the next rain will close.
\<close>

definition open_pair :: "instant \<Rightarrow> real list \<Rightarrow> storm_window \<Rightarrow> int \<Rightarrow> storm \<Rightarrow> bool \<Rightarrow> bool" where
  "open_pair start pre cur lastRain s found \<longleftrightarrow> storm_features s = window_key start cur \<and> (found \<longleftrightarrow> wi_onset cur \<ge> 0) \<and> wi_firstRain cur \<ge> 0
     \<and> wi_rainEnd cur = lastRain \<and> wi_firstRain cur \<le> lastRain \<and> lastRain < int (length pre) \<and> int (length pre) - lastRain \<le> 360
     \<and> wi_sum cur = sum_list (drop (nat (wi_firstRain cur)) pre) / 60"

definition storms_agree :: "instant \<Rightarrow> real list \<Rightarrow> storm_window list \<times> storm_window \<times> int \<Rightarrow> segment_state \<Rightarrow> bool" where
  "storms_agree start pre = (\<lambda>(out, cur, lastRain) (o', c, found).
     if lastRain < 0 then cur = no_window \<and>
       (case c of None \<Rightarrow> map storm_features o' = map (window_key start) out
        | Some s \<Rightarrow> map storm_features (flush o' (Some s)) = map (window_key start) out \<and> start + int (length pre) * minute - st_RainEnd s \<ge> StormMaxGap)
     else (case c of None \<Rightarrow> False | Some s \<Rightarrow> open_pair start pre cur lastRain s found \<and> map storm_features o' = map (window_key start) out))"

lemma flush_key: "map storm_features (flush o' (Some (s\<lparr>st_Closed := c\<rparr>))) = map storm_features (flush o' (Some s))"
  by (simp add: flush_def)

lemma flush_agree:
  assumes "open_pair start pre cur lastRain s found" "map storm_features o' = map (window_key start) out"
    and clear: "clear_rain (pre @ rs)"
  shows "map storm_features (flush o' (Some s)) = map (window_key start) (flush_window out cur)"
proof -
  have "wi_sum cur = sum_list (drop (nat (wi_firstRain cur)) (take (length pre) (pre @ rs))) / 60" using assms(1) by (simp add: open_pair_def)
  then have "wi_sum cur \<ge> 5 \<or> wi_sum cur + rainEpsilonMM < 5" using clear unfolding clear_rain_def Let_def by metis
  moreover have "0 \<le> rainEpsilonMM" by (simp add: rainEpsilonMM_def)
  moreover have "st_TotalMM s = wi_sum cur" "storm_features s = window_key start cur" "wi_firstRain cur \<ge> 0"
    using assms(1) by (auto simp: open_pair_def storm_features_def window_key_def)
  ultimately show ?thesis using assms(2) by (auto simp: flush_def flush_window_def StormMinTotalMM_def)
qed

text \<open>What a wet minute does to a storm of the analytics, with its onset flag.\<close>

definition wet_minute :: "instant \<Rightarrow> real \<Rightarrow> storm \<times> bool \<Rightarrow> storm \<times> bool" where
  "wet_minute t r = (\<lambda>(s, found).
     (s\<lparr>st_Onset := if \<not> found \<and> r + intensityTolerance \<ge> 1 then t else st_Onset s, st_RainEnd := maxTime (st_RainEnd s) (t + minute),
        st_TotalMM := st_TotalMM s + r / 60, st_PeakMMH := max (st_PeakMMH s) r\<rparr>, found \<or> r + intensityTolerance \<ge> 1))"

definition new_storm :: "instant \<Rightarrow> storm" where
  "new_storm t = \<lparr>st_FirstRain = t, st_Onset = t, st_RainEnd = zero_time, st_TotalMM = 0, st_PeakMMH = 0, st_Closed = False\<rparr>"

lemma minute_intensity: "IntensityMMH \<lparr>ri_Start = t, ri_Dur = minute, ri_MM = r / 60\<rparr> = r"
  by (simp add: IntensityMMH_def hours_of_def go_time)

lemma segment_step_dry: "r \<le> 0 \<Longrightarrow> segment_step S \<lparr>ri_Start = t, ri_Dur = minute, ri_MM = r / 60\<rparr> = S"
proof -
  assume "r \<le> 0"
  then have "\<not> Wet \<lparr>ri_Start = t, ri_Dur = minute, ri_MM = r / 60\<rparr>" by (simp add: Wet_def rainEpsilonMM_def)
  then show ?thesis by (simp add: segment_step_def split: prod.splits)
qed

lemma segment_step_wet:
  assumes "rainEpsilonMM < r / 60"
  shows "segment_step (o', c, found) \<lparr>ri_Start = t, ri_Dur = minute, ri_MM = r / 60\<rparr> =
    (case c of
       None \<Rightarrow> (o', Some (fst (wet_minute t r (new_storm t, False))), snd (wet_minute t r (new_storm t, False)))
     | Some s \<Rightarrow> if t - st_RainEnd s \<ge> StormMaxGap
         then (flush o' (Some (s\<lparr>st_Closed := True\<rparr>)), Some (fst (wet_minute t r (new_storm t, False))), snd (wet_minute t r (new_storm t, False)))
         else (o', Some (fst (wet_minute t r (s, found))), snd (wet_minute t r (s, found))))"
proof -
  have wet: "Wet \<lparr>ri_Start = t, ri_Dur = minute, ri_MM = r / 60\<rparr>" using assms by (simp add: Wet_def)
  show ?thesis
    by (cases c) (simp_all add: segment_step_def wet minute_intensity Let_def wet_minute_def new_storm_def OnsetMinIntensity_def ri_End_def)
qed

text \<open>A wet minute keeps the pair alike: a new storm on both sides, or one more minute of the open one.\<close>

lemma new_pair:
  assumes "zero_time \<le> start" "r \<ge> 1 \<or> r + intensityTolerance < 1"
  shows "open_pair start (pre @ [r]) (rain_minute (int (length pre)) r no_window) (int (length pre))
    (fst (wet_minute (start + int (length pre) * minute) r (new_storm (start + int (length pre) * minute), False)))
    (snd (wet_minute (start + int (length pre) * minute) r (new_storm (start + int (length pre) * minute), False)))"
proof -
  have tol: "0 \<le> intensityTolerance" by (simp add: intensityTolerance_def)
  have "0 \<le> int (length pre) * minute" using minute_pos by simp
  then have "zero_time < start + int (length pre) * minute + minute" using assms(1) minute_pos by linarith
  then show ?thesis using assms(2) tol
    by (auto simp: open_pair_def rain_minute_def no_window_def wet_minute_def new_storm_def storm_features_def window_key_def Let_def maxTime_def distrib_right)
qed

lemma next_pair:
  assumes "open_pair start pre cur lastRain s found" "r \<ge> 1 \<or> r + intensityTolerance < 1"
  shows "open_pair start (pre @ [r]) (rain_minute (int (length pre)) r cur) (int (length pre))
    (fst (wet_minute (start + int (length pre) * minute) r (s, found))) (snd (wet_minute (start + int (length pre) * minute) r (s, found)))"
proof -
  have tol: "0 \<le> intensityTolerance" by (simp add: intensityTolerance_def)
  have "(lastRain + 1) * minute \<le> (int (length pre) + 1) * minute"
    using assms(1) minute_pos by (intro mult_right_mono) (simp_all add: open_pair_def)
  then have "\<not> start + (lastRain + 1) * minute > start + (int (length pre) + 1) * minute" by simp
  then have "maxTime (start + (lastRain + 1) * minute) (start + int (length pre) * minute + minute) = start + (int (length pre) + 1) * minute"
    by (simp add: maxTime_def distrib_right)
  moreover have "nat (wi_firstRain cur) \<le> length pre" using assms(1) unfolding open_pair_def by linarith
  ultimately show ?thesis using assms tol
    by (auto simp: open_pair_def rain_minute_def wet_minute_def storm_features_def window_key_def Let_def add_divide_distrib)
qed

lemma agree_wet:
  assumes agree: "storms_agree start pre (out, cur, lastRain) (o', c, found)" and zero: "zero_time \<le> start"
    and r: "rainEpsilonMM < r / 60" "r \<ge> 1 \<or> r + intensityTolerance < 1"
  shows "storms_agree start (pre @ [r]) (out, rain_minute (int (length pre)) r cur, int (length pre))
    (segment_step (o', c, found) \<lparr>ri_Start = start + int (length pre) * minute, ri_Dur = minute, ri_MM = r / 60\<rparr>)"
proof (cases "lastRain < 0")
  case True
  then show ?thesis using agree new_pair [OF zero r(2), of pre]
    by (cases c) (auto simp: storms_agree_def segment_step_wet [OF r(1)] flush_key)
next
  case False
  then obtain s where c: "c = Some s" and pair: "open_pair start pre cur lastRain s found" and o': "map storm_features o' = map (window_key start) out"
    using agree by (auto simp: storms_agree_def split: option.splits)
  have "start + int (length pre) * minute - st_RainEnd s = (int (length pre) - lastRain - 1) * minute"
    using pair by (simp add: open_pair_def storm_features_def window_key_def algebra_simps)
  also have "\<dots> < 360 * minute" using pair minute_pos by (intro mult_strict_right_mono) (simp_all add: open_pair_def)
  finally have "\<not> start + int (length pre) * minute - st_RainEnd s \<ge> StormMaxGap" by (simp add: StormMaxGap_def go_time)
  then show ?thesis using next_pair [OF pair r(2)] o' by (simp add: storms_agree_def segment_step_wet [OF r(1)] c)
qed

lemma agree_dry:
  assumes agree: "storms_agree start pre (out, cur, lastRain) (o', c, found)" and clear: "clear_rain (pre @ 0 # rs)"
  shows "storms_agree start (pre @ [0])
    (if lastRain \<ge> 0 \<and> int (length pre) - lastRain \<ge> 6 * 60 then (flush_window out cur, no_window, - 1) else (out, cur, lastRain)) (o', c, found)"
proof (cases "lastRain < 0")
  case True
  then show ?thesis using agree minute_pos by (auto simp: storms_agree_def algebra_simps split: option.splits)
next
  case False
  then obtain s where c: "c = Some s" and pair: "open_pair start pre cur lastRain s found" and o': "map storm_features o' = map (window_key start) out"
    using agree by (auto simp: storms_agree_def split: option.splits)
  have gap: "start + int (length (pre @ [0])) * minute - st_RainEnd s = (int (length pre) - lastRain) * minute"
    using pair by (simp add: open_pair_def storm_features_def window_key_def algebra_simps)
  show ?thesis
  proof (cases "int (length pre) - lastRain \<ge> 360")
    case True
    have "360 * minute \<le> (int (length pre) - lastRain) * minute" using True minute_pos by (intro mult_right_mono) simp_all
    moreover have "StormMaxGap = 360 * minute" by (simp add: StormMaxGap_def go_time)
    ultimately have "StormMaxGap \<le> start + int (length (pre @ [0])) * minute - st_RainEnd s" unfolding gap by simp
    then show ?thesis using True False flush_agree [OF pair o' clear] by (simp add: storms_agree_def c)
  next
    case small: False
    moreover have "nat (wi_firstRain cur) \<le> length pre" using pair unfolding open_pair_def by linarith
    ultimately have "open_pair start (pre @ [0]) cur lastRain s found" using pair by (simp add: open_pair_def)
    then show ?thesis using small False o' by (simp add: storms_agree_def c)
  qed
qed

lemma agree_run:
  assumes "storms_agree start pre (out, cur, lastRain) S" and "clear_rain (pre @ rs)" and "zero_time \<le> start"
  shows "map storm_features (finish_storms horizon (foldl segment_step S (minute_rain (start + int (length pre) * minute) rs)))
    = map (window_key start) (storm_loop (int (length pre)) rs out cur lastRain)"
  using assms
proof (induction rs arbitrary: pre out cur lastRain S)
  case Nil
  obtain o' c found where S: "S = (o', c, found)" by (cases S)
  show ?case
  proof (cases "lastRain < 0")
    case True
    then show ?thesis using Nil(1)
      by (cases c) (auto simp: S storms_agree_def finish_storms_def flush_key flush_window_def no_window_def)
  next
    case False
    then obtain s where "c = Some s" "open_pair start pre cur lastRain s found" "map storm_features o' = map (window_key start) out"
      using Nil(1) by (auto simp: S storms_agree_def split: option.splits)
    then show ?thesis using flush_agree [of start pre cur lastRain s found o' out "[]"] Nil(2) by (simp add: S finish_storms_def flush_key)
  qed
next
  case (Cons r rs)
  obtain o' c found where S: "S = (o', c, found)" by (cases S)
  have r: "r = 0 \<or> rainEpsilonMM < r / 60 \<and> (r \<ge> 1 \<or> r + intensityTolerance < 1)" using Cons.prems(2) by (auto simp: clear_rain_def)
  have t: "start + int (length pre) * minute + minute = start + int (length (pre @ [r])) * minute" by (simp add: algebra_simps)
  have clear: "clear_rain ((pre @ [r]) @ rs)" using Cons.prems(2) by simp
  note ih = Cons.IH [OF _ clear Cons.prems(3)]
  show ?case
  proof (cases "r = 0")
    case True
    have "storms_agree start (pre @ [r])
      (if lastRain \<ge> 0 \<and> int (length pre) - lastRain \<ge> 6 * 60 then (flush_window out cur, no_window, - 1) else (out, cur, lastRain)) S"
      using agree_dry Cons.prems(1,2) unfolding S True by blast
    then show ?thesis using ih True segment_step_dry [of r] unfolding minute_rain.simps foldl.simps t by (auto simp: add.commute split: if_splits)
  next
    case False
    then have wet: "rainEpsilonMM < r / 60" "r \<ge> 1 \<or> r + intensityTolerance < 1" using r by auto
    have "0 < r" using wet(1) by (simp add: rainEpsilonMM_def)
    then show ?thesis using ih [OF agree_wet [OF _ Cons.prems(3) wet]] Cons.prems(1) unfolding S minute_rain.simps foldl.simps t
      by (simp add: add.commute)
  qed
qed

text \<open>
  C33: The storms the simulator records as ground truth are the storms the analytics find. On the same rain, a sample a minute and
  clear of the tolerances of the analytics, the two loops report the same storms in the same order, with the same first rain, onset,
  end, total and peak, however late the horizon is; the truth closes a storm as soon as it has been dry for six hours, the analytics
  only at the next rain.
\<close>

theorem truth_storms_found:
  assumes "clear_rain rain" and "zero_time \<le> start"
  shows "map storm_features (SegmentStorms (minute_rain start rain) horizon) = map (window_key start) (findStorms rain)"
proof -
  have "map storm_features (finish_storms horizon (foldl segment_step ([], None, False) (minute_rain start rain)))
      = map (window_key start) (storm_loop 0 rain [] no_window (- 1))"
    using agree_run [of start "[]" "[]" no_window "- 1" "([], None, False)" rain horizon] assms by (simp add: storms_agree_def)
  moreover have "SegmentStorms (minute_rain start rain) horizon = finish_storms horizon (foldl segment_step ([], None, False) (minute_rain start rain))"
    by (simp add: SegmentStorms_def finish_storms_def split: prod.splits)
  moreover have "map (window_key start) (findStorms rain) = map (window_key start) (storm_loop 0 rain [] no_window (- 1))"
    by (simp add: findStorms_def window_key_def)
  ultimately show ?thesis by simp
qed

theorem observed_rain_total_witness:
  "\<exists>s. ObservedRainScenario ''rain'' '''' 0 (2 * hour) [\<lparr>hr_End = 30 * minute, hr_MM = 6\<rparr>, \<lparr>hr_End = 90 * minute, hr_MM = 4\<rparr>] = Inr s \<and> RainTotal s = 7"
proof -
  let ?hs = "[\<lparr>hr_End = 30 * minute, hr_MM = 6\<rparr>, \<lparr>hr_End = 90 * minute, hr_MM = 4\<rparr>]"
  obtain s where s: "ObservedRainScenario ''rain'' '''' 0 (2 * hour) ?hs = Inr s"
    by (simp add: ObservedRainScenario_def Let_def go_time)
  have "hours_apart ?hs" by (simp add: hours_apart_def go_time)
  then have "RainTotal s = 6 * hours_of (hour_overlap 0 (2 * hour) (?hs ! 0)) + 4 * hours_of (hour_overlap 0 (2 * hour) (?hs ! 1))"
    using observed_rain_total [OF s] by simp
  then have "RainTotal s = 7" by (simp add: hours_of_def hour_overlap_def go_time)
  then show ?thesis using s by blast
qed

lemma take_drop_replicate: "\<exists>k \<le> n. drop i (take j (replicate n x)) = replicate k x"
  by (simp add: take_replicate drop_replicate)

lemma demo_clear_rain: "clear_rain (replicate 10 40)"
proof -
  have "let s = sum_list (drop i (take j (replicate 10 (40 :: real)))) / 60 in s \<ge> 5 \<or> s + rainEpsilonMM < 5" for i j
  proof -
    obtain k where k: "drop i (take j (replicate 10 (40 :: real))) = replicate k 40"
      using take_drop_replicate [of 10 i j "40 :: real"] by auto
    have "k \<ge> 8 \<or> k \<le> 7" by linarith
    then show ?thesis unfolding k by (auto simp: sum_list_replicate rainEpsilonMM_def)
  qed
  then show ?thesis by (auto simp: clear_rain_def rainEpsilonMM_def)
qed

theorem truth_storms_found_witness:
  "map storm_features (SegmentStorms (minute_rain 0 (replicate 10 40)) (24 * hour)) = [(0, 0, 10 * minute, 20 / 3, 40)]"
proof -
  have "zero_time \<le> 0" by (simp add: zero_time_def)
  note eq = truth_storms_found [OF demo_clear_rain this, of "24 * hour"]
  have "findStorms (replicate 10 40) = [\<lparr>wi_firstRain = 0, wi_onset = 0, wi_rainEnd = 9, wi_sum = 20 / 3, wi_peak = 40\<rparr>]"
    by (simp add: findStorms_def numeral_eq_Suc rain_minute_def no_window_def flush_window_def Let_def)
  then show ?thesis unfolding eq by (simp add: window_key_def)
qed

end
