(* ===== verification/Sim_Home.thy ===== *)
theory Sim_Home
  imports Frames Sim_Scenario
begin

text \<open>
  The simulated house of \<^verbatim>\<open>internal/sim/home.go\<close>: integer hydrology of the pit, the pumps, and the emulated firmware of the
  node, advanced one virtual second at a time, with the radio of \<^verbatim>\<open>internal/sim/gauge.go\<close> and the event of \<^verbatim>\<open>event.go\<close>. Volumes are
  microlitres.
\<close>

section \<open>Parameters\<close>

record home_params =
  hp_Index :: int
  hp_HomeID :: string
  hp_DevEUI :: string
  hp_DevAddr :: string
  hp_SegmentID :: string
  hp_PitAreaM2 :: real
  hp_SensorHeightMM :: int
  hp_TriggerDepthMM :: int
  hp_StopDepthMM :: int
  hp_FloatHighDepthMM :: int
  hp_BaseflowCPD :: real
  hp_ResponseLPerMM :: real
  hp_DelayMin :: real
  hp_ReservoirMin :: real
  hp_PumpLPS :: real
  hp_NominalCurrentDA :: int
  hp_Health :: pump_health
  hp_HasBackup :: bool
  hp_SensorOffsetMM :: int
  hp_RSSIBase :: "int \<times> int"
  hp_HeartbeatPhase :: duration

definition CycleVolumeL :: "home_params \<Rightarrow> real" where
  "CycleVolumeL p = hp_PitAreaM2 p * real_of_int (hp_TriggerDepthMM p - hp_StopDepthMM p)"

definition heartbeatInterval :: duration where "heartbeatInterval = 15 * minute"
definition stormWindow :: int where "stormWindow = 900"
definition stormThreshold :: nat where "stormThreshold = 6"
definition alarmHoldoff :: int where "alarmHoldoff = 3600"
definition continuousRunS :: int where "continuousRunS = 600"
definition dryRunMinS :: int where "dryRunMinS = 30"
definition dryRunMaxDropMM :: int where "dryRunMaxDropMM = 5"
definition thermalRunS :: int where "thermalRunS = 45"
definition thermalRestS :: int where "thermalRestS = 120"
definition backflowFraction :: real where "backflowFraction = 0.85"
definition backflowSeconds :: int where "backflowSeconds = 20"
definition battFullMV :: int where "battFullMV = 4150"
definition battOutageDrainMV :: int where "battOutageDrainMV = 550"
definition usPerL :: int where "usPerL = 1000000"

section \<open>State\<close>

text \<open>The fields of a home, in the groups the source gives them: constants, hydrology, pumps, node firmware, truth.\<close>

record home_consts =
  hk_areaMM2 :: int
  hk_triggerVol :: int
  hk_stopVol :: int
  hk_floatHighVol :: int
  hk_backupVol :: int
  hk_cycleVol :: int
  hk_qBase :: int
  hk_respULsPerMMH :: real
  hk_delayMin :: int
  hk_reservoirS :: int
  hk_pumpULps :: int
  hk_baseflowCPD :: real
  hk_scenarioSecs :: int

record home_water =
  hw_vol :: int
  hw_storage :: int
  hw_noise :: real
  hw_qStorm :: int
  hw_backflow :: int
  hw_backPerS :: int

record home_pumps =
  hu_primaryOn :: bool
  hu_primaryOnStep :: int
  hu_primaryStartVol :: int
  hu_primaryStartDist :: int
  hu_primaryPeakDA :: int
  hu_backupOn :: bool
  hu_backupOnStep :: int
  hu_backupStartDist :: int
  hu_thermalOffUntil :: int
  hu_continuousRaised :: bool
  hu_backupRanSinceHB :: bool
  hu_mainsOK :: bool
  hu_outageStartStep :: int

record home_node =
  hn_fcnt :: uint32
  hn_nextHeartbeat :: int
  hn_cyclesSinceHB :: int
  hn_stormMode :: bool
  hn_windowStart :: int
  hn_recentEnds :: "int list"
  hn_accCount :: int
  hn_accRunS :: int
  hn_accPeakDA :: int
  hn_accMinLevel :: int
  hn_lastAlarmStep :: "uint8 \<rightharpoonup> int"
  hn_floatHigh :: bool

record cycle_truth =
  cy_HomeIndex :: int
  cy_StartedAt :: instant
  cy_RunS :: int
  cy_VolumeL :: real
  cy_PumpID :: uint8
  cy_DryRun :: bool

record alarm_truth =
  at_HomeIndex :: int
  at_Code :: uint8
  at_At :: instant

record home_truth =
  ht_rateNF :: "int \<Rightarrow> real"
  ht_stormUL :: "int \<Rightarrow> int"
  ht_cycles :: "cycle_truth list"
  ht_alarms :: "alarm_truth list"
  ht_enteredStorm :: bool

record sim_house =
  hs_p :: home_params
  hs_k :: home_consts
  hs_w :: home_water
  hs_u :: home_pumps
  hs_n :: home_node
  hs_t :: home_truth
  hs_rng :: nat

text \<open>
  An uplink as the simulator emits it. The frame is what the codec answers; a frame that is an error is where the code
  panics, and none is ever emitted.
\<close>

record sim_event =
  sx_Time :: instant
  sx_HomeIndex :: int
  sx_DevEUI :: string
  sx_DevAddr :: string
  sx_FCnt :: uint32
  sx_Uplink :: uplink
  sx_Frame :: "codec_error + (uint8 \<times> byte list)"
  sx_Confirmed :: bool
  sx_SF :: uint8
  sx_DR :: uint8
  sx_FreqHz :: int
  sx_RSSI :: "int \<times> int"
  sx_SNR :: "real \<times> real"
  sx_DedupID :: string
  sx_Kind :: string
  sx_DeviceName :: string

section \<open>Radio and uplinks\<close>

definition radio_snr :: "draws \<Rightarrow> nat \<Rightarrow> int \<Rightarrow> real" where
  "radio_snr R i v = math_round ((max (- 15) (min 10 (real_of_int (v + 115) / 2)) + (Float64 R i * 2 - 1)) * 4) / 4"

text \<open>Signal strengths and ratios at the two gateways, then spreading factor and data rate; four draws.\<close>

definition radio :: "draws \<Rightarrow> nat \<Rightarrow> int \<times> int \<Rightarrow> (int \<times> int) \<times> (real \<times> real) \<times> uint8 \<times> uint8" where
  "radio R i base =
     (let v0 = fst base + IntN R i 7 - 3;
          s0 = radio_snr R (i + 1) v0;
          v1 = snd base + IntN R (i + 2) 7 - 3;
          s1 = radio_snr R (i + 3) v1;
          best = max (max (- 200) v0) v1;
          (sf, dr) = (if best > - 95 then (7, 3) else if best > - 105 then (8, 2) else if best > - 112 then (9, 1) else (10, 0))
      in ((v0, v1), (s0, s1), sf, dr))"

text \<open>The identifier is read from sixteen draws.\<close>

definition house_uplink :: "draws \<Rightarrow> instant \<Rightarrow> uplink \<Rightarrow> bool \<Rightarrow> sim_house \<Rightarrow> sim_house \<times> sim_event" where
  "house_uplink R t u confirmed h =
     (let p = hs_p h;
          fcnt = hn_fcnt (hs_n h);
          i = hs_rng h;
          (rssi, snr, sf, dr) = radio R i (hp_RSSIBase p);
          ch = (uint fcnt + hp_Index p) mod 8
      in (h\<lparr>hs_n := (hs_n h)\<lparr>hn_fcnt := fcnt + 1\<rparr>, hs_rng := i + 4 + 16\<rparr>,
          \<lparr>sx_Time = t, sx_HomeIndex = hp_Index p, sx_DevEUI = hp_DevEUI p, sx_DevAddr = hp_DevAddr p, sx_FCnt = fcnt,
           sx_Uplink = u, sx_Frame = Encode u, sx_Confirmed = confirmed, sx_SF = sf, sx_DR = dr, sx_FreqHz = 902300000 + 200000 * ch,
           sx_RSSI = rssi, sx_SNR = snr, sx_DedupID = dr_uuid R (i + 4), sx_Kind = '''', sx_DeviceName = ''''\<rparr>))"

section \<open>Measurements\<close>

definition depthMM :: "sim_house \<Rightarrow> int" where
  "depthMM h = go_div (hw_vol (hs_w h)) (hk_areaMM2 (hs_k h))"

definition distanceMM :: "draws \<Rightarrow> sim_house \<Rightarrow> sim_house \<times> int" where
  "distanceMM R h =
     (let d = hp_SensorHeightMM (hs_p h) - depthMM h + hp_SensorOffsetMM (hs_p h) + IntN R (hs_rng h) 5 - 2
      in (h\<lparr>hs_rng := hs_rng h + 1\<rparr>, min 65535 (max 0 d)))"

definition primaryRate :: "int \<Rightarrow> sim_house \<Rightarrow> int" where
  "primaryRate step h =
     (case hp_Health (hs_p h) of
        PumpDryRunning \<Rightarrow> 0
      | PumpFailing \<Rightarrow> go_int (real_of_int (hk_pumpULps (hs_k h)) * max 0 (1 - real_of_int step / real_of_int (hk_scenarioSecs (hs_k h)) / 0.9))
      | _ \<Rightarrow> hk_pumpULps (hs_k h))"

definition peakCurrentDA :: "draws \<Rightarrow> sim_house \<Rightarrow> sim_house \<times> int" where
  "peakCurrentDA R h =
     (let factor = (case hp_Health (hs_p h) of PumpDryRunning \<Rightarrow> 0.6 | PumpFailing \<Rightarrow> 1.3 | _ \<Rightarrow> 1);
          jitter = 1 + (Float64 R (hs_rng h) * 0.06 - 0.03)
      in (h\<lparr>hs_rng := hs_rng h + 1\<rparr>, go_int (math_round (real_of_int (hp_NominalCurrentDA (hs_p h)) * factor * jitter))))"

text \<open>The battery while mains is out drains from the moment of the outage; with mains it is measured with noise.\<close>

definition battMV :: "draws \<Rightarrow> int \<Rightarrow> sim_house \<Rightarrow> sim_house \<times> int" where
  "battMV R step h =
     (if hu_mainsOK (hs_u h) then (h\<lparr>hs_rng := hs_rng h + 1\<rparr>, battFullMV + IntN R (hs_rng h) 21 - 10)
      else (h, battFullMV - go_div ((step - hu_outageStartStep (hs_u h)) * battOutageDrainMV) 86400))"

section \<open>The firmware\<close>

text \<open>The operations append to the same list of uplinks.\<close>

definition and_then :: "sim_house \<times> sim_event list \<Rightarrow> (sim_house \<Rightarrow> sim_house \<times> sim_event list) \<Rightarrow> sim_house \<times> sim_event list" where
  "and_then r f = (let (h, a) = r; (h, b) = f h in (h, a @ b))"

definition held_off :: "int \<Rightarrow> uint8 \<Rightarrow> sim_house \<Rightarrow> bool" where
  "held_off step code h = (case hn_lastAlarmStep (hs_n h) code of Some t \<Rightarrow> step - t < alarmHoldoff | None \<Rightarrow> False)"

definition raiseAlarm :: "draws \<Rightarrow> int \<Rightarrow> instant \<Rightarrow> uint8 \<Rightarrow> uint16 \<Rightarrow> sim_house \<Rightarrow> sim_house \<times> sim_event list" where
  "raiseAlarm R step now code value h =
     (if held_off step code h then (h, [])
      else let n = hs_n h;
               h = h\<lparr>hs_n := n\<lparr>hn_lastAlarmStep := (hn_lastAlarmStep n)(code \<mapsto> step)\<rparr>,
                     hs_t := (hs_t h)\<lparr>ht_alarms := ht_alarms (hs_t h) @ [\<lparr>at_HomeIndex = hp_Index (hs_p h), at_Code = code, at_At = now\<rparr>]\<rparr>\<rparr>;
               (h, ev) = house_uplink R now (Alarm \<lparr>al_Code = code, al_Value = value\<rparr>) True h
           in (h, [ev]))"

definition resetAccumulator :: "home_node \<Rightarrow> home_node" where
  "resetAccumulator n = n\<lparr>hn_accCount := 0, hn_accRunS := 0, hn_accPeakDA := 0, hn_accMinLevel := 65535\<rparr>"

text \<open>The storm window: recent ends, and whether this cycle makes the node enter storm mode.\<close>

definition note_end :: "int \<Rightarrow> home_node \<Rightarrow> home_node \<times> bool" where
  "note_end step n =
     (let ends = filter (\<lambda>t. step - t < stormWindow) (hn_recentEnds n) @ [step];
          n = n\<lparr>hn_recentEnds := ends\<rparr>
      in if \<not> hn_stormMode n \<and> length ends > stormThreshold
         then (resetAccumulator (n\<lparr>hn_stormMode := True, hn_windowStart := step\<rparr>), True)
         else (n, False))"

definition fold_cycle :: "int \<Rightarrow> int \<Rightarrow> int \<Rightarrow> home_node \<Rightarrow> home_node" where
  "fold_cycle runS startDist peakDA n = n\<lparr>hn_accCount := hn_accCount n + 1, hn_accRunS := hn_accRunS n + runS,
     hn_accPeakDA := max (hn_accPeakDA n) peakDA, hn_accMinLevel := min (hn_accMinLevel n) startDist\<rparr>"

definition record_cycle :: "instant \<Rightarrow> uint8 \<Rightarrow> int \<Rightarrow> bool \<Rightarrow> sim_house \<Rightarrow> sim_house" where
  "record_cycle now pump runS dry h =
     h\<lparr>hs_t := (hs_t h)\<lparr>ht_cycles := ht_cycles (hs_t h) @
         [\<lparr>cy_HomeIndex = hp_Index (hs_p h), cy_StartedAt = now - runS * second, cy_RunS = runS,
           cy_VolumeL = real_of_int (hk_cycleVol (hs_k h)) / real_of_int usPerL, cy_PumpID = pump, cy_DryRun = dry\<rparr>]\<rparr>,
       hs_n := (hs_n h)\<lparr>hn_cyclesSinceHB := hn_cyclesSinceHB (hs_n h) + 1\<rparr>\<rparr>"

text \<open>A cycle in storm mode is folded into the window; any other is sent with a short transmission delay.\<close>

definition report_cycle :: "draws \<Rightarrow> int \<Rightarrow> instant \<Rightarrow> uint8 \<Rightarrow> int \<Rightarrow> int \<Rightarrow> int \<Rightarrow> int \<Rightarrow> sim_house \<Rightarrow> sim_house \<times> sim_event list" where
  "report_cycle R step now pump runS startDist endDist peakDA h =
     (let (n, entered) = note_end step (hs_n h);
          h = h\<lparr>hs_n := n, hs_t := (hs_t h)\<lparr>ht_enteredStorm := ht_enteredStorm (hs_t h) \<or> entered\<rparr>\<rparr>
      in if hn_stormMode n then (h\<lparr>hs_n := fold_cycle runS startDist peakDA n\<rparr>, [])
         else let txDelay = IntN R (hs_rng h) 6;
                  (h, ev) = house_uplink R (now + txDelay * second)
                    (CycleEvent \<lparr>ce_StartOffsetS = word_of_int (min (runS + txDelay) 65535), ce_RunS = word_of_int (min runS 65535),
                       ce_PeakCurrentDA = word_of_int (min peakDA 65535), ce_LevelStartMM = word_of_int startDist,
                       ce_LevelEndMM = word_of_int endDist, ce_PumpID = pump\<rparr>) False (h\<lparr>hs_rng := hs_rng h + 1\<rparr>)
              in (h, [ev]))"

definition endCycle :: "draws \<Rightarrow> int \<Rightarrow> instant \<Rightarrow> uint8 \<Rightarrow> int \<Rightarrow> int \<Rightarrow> int \<Rightarrow> sim_house \<Rightarrow> sim_house \<times> sim_event list" where
  "endCycle R step now pump runS startDist peakDA h =
     (let (h, endDist) = distanceMM R h;
          dry = (runS \<ge> dryRunMinS \<and> endDist - startDist < dryRunMaxDropMM);
          h = record_cycle now pump runS dry h
      in and_then (if dry then raiseAlarm R step now AlarmDryRun (word_of_int (min runS 65535)) h else (h, []))
           (report_cycle R step now pump runS startDist endDist peakDA))"

definition emitStormSummary :: "draws \<Rightarrow> int \<Rightarrow> instant \<Rightarrow> sim_house \<Rightarrow> sim_house \<times> sim_event list" where
  "emitStormSummary R step now h =
     (let n = hs_n h;
          (h, ev) = house_uplink R now (StormSummary \<lparr>ss_Count = word_of_int (min (hn_accCount n) 255), ss_WindowS = word_of_int stormWindow,
            ss_TotalRunS = word_of_int (min (hn_accRunS n) 65535), ss_MaxPeakCurrentDA = word_of_int (min (hn_accPeakDA n) 65535),
            ss_MinLevelMM = word_of_int (hn_accMinLevel n)\<rparr>) False h;
          n = hs_n h;
          n = (if hn_accCount n \<le> int stormThreshold then n\<lparr>hn_stormMode := False\<rparr> else n)
      in (h\<lparr>hs_n := resetAccumulator (n\<lparr>hn_windowStart := step\<rparr>)\<rparr>, [ev]))"

definition heartbeat_flags :: "bool \<Rightarrow> bool \<Rightarrow> bool \<Rightarrow> uint8" where
  "heartbeat_flags mains high backup =
     (if mains then FlagMainsOK else 0) OR (if high then FlagFloatHigh else 0) OR (if backup then FlagBackupRan else 0)"

definition measure_heartbeat :: "draws \<Rightarrow> int \<Rightarrow> instant \<Rightarrow> bool \<Rightarrow> sim_house \<Rightarrow> sim_house \<times> heartbeat" where
  "measure_heartbeat R step now high h =
     (let hr = seconds_of (now mod (24 * hour)) / 3600 + real_of_int (hp_Index (hs_p h) mod 7);
          temp = 18 + 2 * sin (2 * pi * (hr - 6) / 24) + dr_norm R (hs_rng h) * 0.1;
          flags = heartbeat_flags (hu_mainsOK (hs_u h)) high (hu_backupRanSinceHB (hs_u h));
          (h, dist) = distanceMM R (h\<lparr>hs_rng := hs_rng h + 1\<rparr>);
          rh = 45 + IntN R (hs_rng h) 21;
          (h, batt) = battMV R step (h\<lparr>hs_rng := hs_rng h + 1\<rparr>)
      in (h, \<lparr>hb_LevelMM = word_of_int dist, hb_TempCentiC = word_of_int (go_int (math_round (temp * 100))), hb_RHPct = word_of_int rh,
              hb_BattMV = word_of_int batt, hb_CyclesSinceLast = word_of_int (min (hn_cyclesSinceHB (hs_n h)) 255), hb_Flags = flags, hb_Reserved = 0\<rparr>))"

definition emitHeartbeat :: "draws \<Rightarrow> int \<Rightarrow> instant \<Rightarrow> bool \<Rightarrow> sim_house \<Rightarrow> sim_house \<times> sim_event list" where
  "emitHeartbeat R step now high h =
     (let (h, hb) = measure_heartbeat R step now high h;
          h = h\<lparr>hs_n := (hs_n h)\<lparr>hn_cyclesSinceHB := 0\<rparr>, hs_u := (hs_u h)\<lparr>hu_backupRanSinceHB := False\<rparr>\<rparr>;
          (h, ev) = house_uplink R now (Heartbeat hb) False h
      in (h, [ev]))"

section \<open>One virtual second\<close>

text \<open>The reservoir of the tile drains: rain of the delayed minute comes in, a fraction flows out.\<close>

definition storm_inflow :: "int \<Rightarrow> (int \<Rightarrow> real) \<Rightarrow> home_consts \<Rightarrow> int" where
  "storm_inflow mi rainAt k = (if 0 \<le> mi - hk_delayMin k then go_int (hk_respULsPerMMH k * rainAt (mi - hk_delayMin k)) else 0)"

definition reservoir :: "home_consts \<Rightarrow> int \<Rightarrow> home_water \<Rightarrow> home_water" where
  "reservoir k excess w =
     (let s = hw_storage w + (excess - go_div (hw_storage w) (hk_reservoirS k));
          s = (if s < 0 then 0 else s)
      in w\<lparr>hw_storage := s, hw_qStorm := go_div s (hk_reservoirS k)\<rparr>)"

definition flow_back :: "home_water \<Rightarrow> home_water" where
  "flow_back w =
     (if hw_backflow w > 0
      then let back = min (hw_backPerS w) (hw_backflow w) in w\<lparr>hw_vol := hw_vol w + back, hw_backflow := hw_backflow w - back\<rparr>
      else w)"

definition hydrology_part :: "draws \<Rightarrow> int \<Rightarrow> (int \<Rightarrow> real) \<Rightarrow> sim_house \<Rightarrow> sim_house" where
  "hydrology_part R step rainAt h =
     (let k = hs_k h;
          mi = go_div step 60;
          w = reservoir k (storm_inflow mi rainAt k) (hs_w h);
          noise = 0.9 * hw_noise w + 0.05 * dr_norm R (hs_rng h);
          qBaseNoisy = go_int (real_of_int (hk_qBase k) * (1 + noise));
          w = flow_back (w\<lparr>hw_noise := noise, hw_vol := hw_vol w + (qBaseNoisy + hw_qStorm w)\<rparr>);
          t = (if step mod 60 = 0
               then (hs_t h)\<lparr>ht_rateNF := (ht_rateNF (hs_t h))(mi := real_of_int (hk_qBase k + hw_qStorm w) * 86400 / real_of_int (hk_cycleVol k)),
                             ht_stormUL := (ht_stormUL (hs_t h))(mi := hw_qStorm w * 60)\<rparr>
               else hs_t h)
      in h\<lparr>hs_w := w, hs_t := t, hs_rng := hs_rng h + 1\<rparr>)"

definition mains_part :: "draws \<Rightarrow> int \<Rightarrow> instant \<Rightarrow> bool \<Rightarrow> sim_house \<Rightarrow> sim_house \<times> sim_event list" where
  "mains_part R step now mains h =
     (if mains \<noteq> hu_mainsOK (hs_u h)
      then let h = h\<lparr>hs_u := (hs_u h)\<lparr>hu_mainsOK := mains\<rparr>\<rparr>
           in if \<not> mains
              then let h = h\<lparr>hs_u := (hs_u h)\<lparr>hu_outageStartStep := step\<rparr>\<rparr>;
                       (h, batt) = battMV R step h
                   in raiseAlarm R step now AlarmMainsLost (word_of_int batt) h
              else (h, [])
      else (h, []))"

definition primary_start :: "draws \<Rightarrow> int \<Rightarrow> sim_house \<Rightarrow> sim_house" where
  "primary_start R step h =
     (let u = hs_u h; v = hw_vol (hs_w h)
      in if \<not> hu_primaryOn u \<and> hu_mainsOK u \<and> step \<ge> hu_thermalOffUntil u \<and> v \<ge> hk_triggerVol (hs_k h)
         then let (h, dist) = distanceMM R h;
                  (h, peak) = peakCurrentDA R h
              in h\<lparr>hs_u := u\<lparr>hu_primaryOn := True, hu_primaryOnStep := step, hu_primaryStartVol := v, hu_primaryStartDist := dist,
                             hu_primaryPeakDA := peak, hu_continuousRaised := False\<rparr>\<rparr>
         else h)"

text \<open>The volume after a second of pumping, and whether the float switch cut the pump.\<close>

definition pump_down :: "home_consts \<Rightarrow> int \<Rightarrow> int \<Rightarrow> int \<times> bool" where
  "pump_down k rate v =
     (let v = v - rate; v = (if v < 0 then 0 else v)
      in if v \<le> hk_stopVol k then (hk_stopVol k, True) else (v, False))"

definition set_vol :: "int \<Rightarrow> sim_house \<Rightarrow> sim_house" where
  "set_vol v h = h\<lparr>hs_w := (hs_w h)\<lparr>hw_vol := v\<rparr>\<rparr>"

definition check_valve :: "sim_house \<Rightarrow> sim_house" where
  "check_valve h =
     (let pumped = hu_primaryStartVol (hs_u h) - hw_vol (hs_w h);
          back = go_int (real_of_int pumped * backflowFraction)
      in if hp_Health (hs_p h) = PumpShortCycling \<and> pumped > 0
         then h\<lparr>hs_w := (hs_w h)\<lparr>hw_backflow := back, hw_backPerS := max 1 (go_div back backflowSeconds)\<rparr>\<rparr>
         else h)"

text \<open>
  A second of pumping: the volume falls, and the pump stops when its float opens, mains is out, or a dry pump overheats, which
  also keeps it off for a while. The answer has the run so far and whether the pump stops.
\<close>

definition primary_pump :: "int \<Rightarrow> sim_house \<Rightarrow> sim_house \<times> int \<times> bool" where
  "primary_pump step h =
     (let (v, floatOff) = pump_down (hs_k h) (primaryRate step h) (hw_vol (hs_w h));
          u = hs_u h;
          run = step - hu_primaryOnStep u;
          thermal = (hp_Health (hs_p h) = PumpDryRunning \<and> run \<ge> thermalRunS);
          u = (if thermal then u\<lparr>hu_thermalOffUntil := step + thermalRestS\<rparr> else u)
      in ((set_vol v h)\<lparr>hs_u := u\<rparr>, run, floatOff \<or> \<not> hu_mainsOK u \<or> thermal))"

definition continuous_alarm :: "draws \<Rightarrow> int \<Rightarrow> instant \<Rightarrow> int \<Rightarrow> sim_house \<Rightarrow> sim_house \<times> sim_event list" where
  "continuous_alarm R step now run h =
     (if \<not> hu_continuousRaised (hs_u h) \<and> run > continuousRunS
      then raiseAlarm R step now AlarmContinuousRun (word_of_int (min run 65535)) (h\<lparr>hs_u := (hs_u h)\<lparr>hu_continuousRaised := True\<rparr>\<rparr>)
      else (h, []))"

definition primary_stop :: "draws \<Rightarrow> int \<Rightarrow> instant \<Rightarrow> int \<Rightarrow> sim_house \<Rightarrow> sim_house \<times> sim_event list" where
  "primary_stop R step now run h =
     (let u = hs_u h;
          (h, a) = endCycle R step now PumpPrimary run (hu_primaryStartDist u) (hu_primaryPeakDA u) (h\<lparr>hs_u := u\<lparr>hu_primaryOn := False\<rparr>\<rparr>)
      in (check_valve h, a))"

definition primary_run :: "draws \<Rightarrow> int \<Rightarrow> instant \<Rightarrow> sim_house \<Rightarrow> sim_house \<times> sim_event list" where
  "primary_run R step now h =
     (if hu_primaryOn (hs_u h)
      then let (h, run, stop) = primary_pump step h
           in and_then (continuous_alarm R step now run h) (\<lambda>h. if stop then primary_stop R step now run h else (h, []))
      else (h, []))"

definition backup_start :: "draws \<Rightarrow> int \<Rightarrow> sim_house \<Rightarrow> sim_house" where
  "backup_start R step h =
     (if \<not> hu_backupOn (hs_u h) \<and> hw_vol (hs_w h) \<ge> hk_backupVol (hs_k h)
      then let (h, dist) = distanceMM R h
           in h\<lparr>hs_u := (hs_u h)\<lparr>hu_backupOn := True, hu_backupOnStep := step, hu_backupStartDist := dist\<rparr>\<rparr>
      else h)"

definition backup_run :: "draws \<Rightarrow> int \<Rightarrow> instant \<Rightarrow> sim_house \<Rightarrow> sim_house \<times> sim_event list" where
  "backup_run R step now h =
     (if hu_backupOn (hs_u h)
      then let (v, off) = pump_down (hs_k h) (hk_pumpULps (hs_k h)) (hw_vol (hs_w h));
               h = set_vol v h
           in if off
              then let h = h\<lparr>hs_u := (hs_u h)\<lparr>hu_backupOn := False, hu_backupRanSinceHB := True\<rparr>\<rparr>
                   in endCycle R step now PumpBackup (step - hu_backupOnStep (hs_u h)) (hu_backupStartDist (hs_u h)) (hp_NominalCurrentDA (hs_p h)) h
              else (h, [])
      else (h, []))"

definition backup_part :: "draws \<Rightarrow> int \<Rightarrow> instant \<Rightarrow> sim_house \<Rightarrow> sim_house \<times> sim_event list" where
  "backup_part R step now h = (if hp_HasBackup (hs_p h) then backup_run R step now (backup_start R step h) else (h, []))"

definition float_is_high :: "sim_house \<Rightarrow> bool" where
  "float_is_high h = (hw_vol (hs_w h) \<ge> hk_floatHighVol (hs_k h))"

text \<open>The distance is measured on the rising edge, before the alarm decides whether it is held off.\<close>

definition float_part :: "draws \<Rightarrow> int \<Rightarrow> instant \<Rightarrow> sim_house \<Rightarrow> sim_house \<times> sim_event list" where
  "float_part R step now h =
     (let high = float_is_high h;
          (h, a) = (if high \<and> \<not> hn_floatHigh (hs_n h)
                    then let (h, dist) = distanceMM R h in raiseAlarm R step now AlarmFloatHigh (word_of_int dist) h
                    else (h, []))
      in (h\<lparr>hs_n := (hs_n h)\<lparr>hn_floatHigh := high\<rparr>\<rparr>, a))"

definition storm_part :: "draws \<Rightarrow> int \<Rightarrow> instant \<Rightarrow> sim_house \<Rightarrow> sim_house \<times> sim_event list" where
  "storm_part R step now h =
     (if hn_stormMode (hs_n h) \<and> step - hn_windowStart (hs_n h) \<ge> stormWindow then emitStormSummary R step now h else (h, []))"

definition heartbeat_part :: "draws \<Rightarrow> int \<Rightarrow> instant \<Rightarrow> sim_house \<Rightarrow> sim_house \<times> sim_event list" where
  "heartbeat_part R step now h =
     (if step \<ge> hn_nextHeartbeat (hs_n h)
      then let (h, a) = emitHeartbeat R step now (float_is_high h) h
           in (h\<lparr>hs_n := (hs_n h)\<lparr>hn_nextHeartbeat := hn_nextHeartbeat (hs_n h) + go_div heartbeatInterval second\<rparr>\<rparr>, a)
      else (h, []))"

text \<open>All of a second but the heartbeat, then the second.\<close>

definition house_work :: "draws \<Rightarrow> int \<Rightarrow> instant \<Rightarrow> (int \<Rightarrow> real) \<Rightarrow> bool \<Rightarrow> sim_house \<Rightarrow> sim_house \<times> sim_event list" where
  "house_work R step now rainAt mains h =
     and_then (and_then (and_then (and_then
       (mains_part R step now mains (hydrology_part R step rainAt h))
       (\<lambda>h. primary_run R step now (primary_start R step h)))
       (backup_part R step now))
       (float_part R step now))
       (storm_part R step now)"

definition house_step :: "draws \<Rightarrow> int \<Rightarrow> instant \<Rightarrow> (int \<Rightarrow> real) \<Rightarrow> bool \<Rightarrow> sim_house \<Rightarrow> sim_house \<times> sim_event list" where
  "house_step R step now rainAt mains h = and_then (house_work R step now rainAt mains h) (heartbeat_part R step now)"

section \<open>What one step may do to the firmware\<close>

lemmas alarm_code_defs = AlarmFloatHigh_def AlarmContinuousRun_def AlarmDryRun_def AlarmMainsLost_def AlarmSensorFault_def

lemma known_codes [simp]:
  "AlarmFloatHigh \<le> AlarmMainsLost" "AlarmFloatHigh \<le> AlarmDryRun" "AlarmFloatHigh \<le> AlarmContinuousRun"
  "AlarmMainsLost \<le> AlarmSensorFault" "AlarmDryRun \<le> AlarmSensorFault" "AlarmContinuousRun \<le> AlarmSensorFault"
  "AlarmFloatHigh \<le> AlarmSensorFault" "PumpPrimary \<le> PumpBackup"
  by (simp_all add: alarm_code_defs PumpPrimary_def PumpBackup_def)

text \<open>A change the firmware does not see: only water, pumps and draws differ.\<close>

definition quiet :: "sim_house \<Rightarrow> sim_house \<Rightarrow> bool" where
  "quiet h h' \<longleftrightarrow> hs_p h' = hs_p h \<and> hs_k h' = hs_k h \<and> hn_fcnt (hs_n h') = hn_fcnt (hs_n h) \<and> hn_stormMode (hs_n h') = hn_stormMode (hs_n h)
     \<and> hn_accCount (hs_n h') = hn_accCount (hs_n h) \<and> hn_cyclesSinceHB (hs_n h') = hn_cyclesSinceHB (hs_n h)
     \<and> hn_lastAlarmStep (hs_n h') = hn_lastAlarmStep (hs_n h) \<and> hn_nextHeartbeat (hs_n h') = hn_nextHeartbeat (hs_n h) \<and> ht_cycles (hs_t h') = ht_cycles (hs_t h) \<and> ht_alarms (hs_t h') = ht_alarms (hs_t h)"

lemma quiet_refl [simp]: "quiet h h"
  by (simp add: quiet_def)

lemma quiet_trans: "quiet h h' \<Longrightarrow> quiet h' h'' \<Longrightarrow> quiet h h''"
  by (simp add: quiet_def)

lemma quiet_update [simp]:
  "quiet h (h\<lparr>hs_u := u\<rparr>)" "quiet h (h\<lparr>hs_w := w\<rparr>)" "quiet h (h\<lparr>hs_rng := i\<rparr>)" "quiet h (h\<lparr>hs_w := w, hs_u := u\<rparr>)"
  "quiet h (h\<lparr>hs_rng := i, hs_u := u\<rparr>)" "quiet h (h\<lparr>hs_u := u, hs_rng := i\<rparr>)" "quiet h (set_vol v h)"
  "quiet h (h\<lparr>hs_n := (hs_n h)\<lparr>hn_floatHigh := b\<rparr>\<rparr>)"
  by (simp_all add: quiet_def set_vol_def)

lemma quiet_distance: "distanceMM R h = (h', d) \<Longrightarrow> quiet h h' \<and> 0 \<le> d \<and> d \<le> 65535"
  by (auto simp: distanceMM_def Let_def)

lemma quiet_peak: "peakCurrentDA R h = (h', d) \<Longrightarrow> quiet h h'"
  by (auto simp: peakCurrentDA_def Let_def)

lemma quiet_batt: "battMV R step h = (h', d) \<Longrightarrow> quiet h h'"
  by (auto simp: battMV_def split: if_splits)

lemma quiet_hydrology [simp]: "quiet h (hydrology_part R step rainAt h)"
  by (simp add: hydrology_part_def Let_def quiet_def)

lemma quiet_primary_start [simp]: "quiet h (primary_start R step h)"
proof -
  obtain h1 d where d: "distanceMM R h = (h1, d)" by fastforce
  obtain h2 k where k: "peakCurrentDA R h1 = (h2, k)" by fastforce
  have "quiet h h2" using quiet_trans quiet_distance [OF d] quiet_peak [OF k] by blast
  then show ?thesis by (simp add: primary_start_def Let_def d k quiet_trans [OF _ quiet_update(1)])
qed

lemma quiet_backup_start [simp]: "quiet h (backup_start R step h)"
proof -
  obtain h1 d where d: "distanceMM R h = (h1, d)" by fastforce
  then show ?thesis using quiet_distance [OF d] by (simp add: backup_start_def Let_def quiet_trans [OF _ quiet_update(1)])
qed

lemma quiet_check_valve [simp]: "quiet h (check_valve h)"
  by (simp add: check_valve_def Let_def)

text \<open>
  The contract of a second: a relation between the state before, the state after and the uplinks in between that the operations
  of the firmware establish, that ignores what the firmware does not see, and that composes. Every part of the
  step, and the step, then establish it.
\<close>

locale work_contract =
  fixes R :: draws
    and E :: "int \<Rightarrow> instant \<Rightarrow> sim_house \<Rightarrow> sim_house \<Rightarrow> sim_event list \<Rightarrow> bool"
  assumes quiet_ok: "quiet h h' \<Longrightarrow> E step now h h' []"
    and seq_ok: "E step now h h' a \<Longrightarrow> E step now h' h'' b \<Longrightarrow> E step now h h'' (a @ b)"
    and alarm_ok: "AlarmFloatHigh \<le> code \<Longrightarrow> code \<le> AlarmSensorFault \<Longrightarrow> raiseAlarm R step now code value h = (h', a) \<Longrightarrow> E step now h h' a"
    and cycle_ok: "pump \<le> PumpBackup \<Longrightarrow> endCycle R step now pump runS startDist peakDA h = (h', a) \<Longrightarrow> E step now h h' a"
    and summary_ok: "hn_stormMode (hs_n h) \<Longrightarrow> emitStormSummary R step now h = (h', a) \<Longrightarrow> E step now h h' a"
begin

lemma quiet_before: "quiet h h' \<Longrightarrow> E step now h' h'' a \<Longrightarrow> E step now h h'' a"
  using seq_ok [OF quiet_ok, of h h' step now h'' a] by simp

lemma quiet_after: "E step now h h' a \<Longrightarrow> quiet h' h'' \<Longrightarrow> E step now h h'' a"
  using seq_ok [of step now h h' a h'' "[]"] quiet_ok by simp

lemma mains_ok: "mains_part R step now mains h = (h', a) \<Longrightarrow> E step now h h' a"
proof -
  assume eq: "mains_part R step now mains h = (h', a)"
  define g where "g = h\<lparr>hs_u := (hs_u h)\<lparr>hu_mainsOK := mains, hu_outageStartStep := step\<rparr>\<rparr>"
  obtain g' batt where b: "battMV R step g = (g', batt)" by fastforce
  have "quiet h g'" using quiet_trans [OF _ quiet_batt [OF b]] by (simp add: g_def)
  moreover have "raiseAlarm R step now AlarmMainsLost (word_of_int batt) g' = (h', a) \<or> (quiet h h' \<and> a = [])"
    using eq b by (auto simp: mains_part_def Let_def g_def split: if_splits)
  ultimately show ?thesis using quiet_before quiet_ok alarm_ok [of AlarmMainsLost] by (auto simp: alarm_code_defs)
qed

lemma then_ok:
  assumes "\<And>g b. r = (g, b) \<Longrightarrow> E step now h g b" and "\<And>g g' b. f g = (g', b) \<Longrightarrow> E step now g g' b" and "and_then r f = (h', a)"
  shows "E step now h h' a"
  using assms by (cases r) (auto simp: and_then_def split: prod.splits intro: seq_ok)

lemma continuous_ok: "continuous_alarm R step now run h = (h', a) \<Longrightarrow> E step now h h' a"
  by (auto simp: continuous_alarm_def split: if_splits intro: quiet_ok quiet_before [OF quiet_update(1) alarm_ok [OF known_codes(3,6)]])

lemma stop_ok: "primary_stop R step now run h = (h', a) \<Longrightarrow> E step now h h' a"
  by (auto simp: primary_stop_def Let_def split: prod.splits
      intro!: quiet_after [OF quiet_before [OF quiet_update(1) cycle_ok [OF known_codes(8)]] quiet_check_valve])

lemma primary_ok: "primary_run R step now h = (h', a) \<Longrightarrow> E step now h h' a"
proof (cases "hu_primaryOn (hs_u h)")
  case True
  assume eq: "primary_run R step now h = (h', a)"
  obtain g run stop where g: "primary_pump step h = (g, run, stop)" using prod_cases3 by blast
  then have "quiet h g"
    by (auto simp: primary_pump_def Let_def split: prod.splits intro: quiet_trans [OF quiet_update(7) quiet_update(1)])
  moreover have "E step now g h' a"
    by (rule then_ok [of "continuous_alarm R step now run g"], erule continuous_ok)
      (use eq True g in \<open>auto simp: primary_run_def split: if_splits intro: stop_ok quiet_ok\<close>)
  ultimately show ?thesis by (rule quiet_before)
qed (auto simp: primary_run_def intro: quiet_ok)

lemma backup_ok: "backup_part R step now h = (h', a) \<Longrightarrow> E step now h h' a"
proof -
  assume eq: "backup_part R step now h = (h', a)"
  have run: "E step now g g' c" if "backup_run R step now g = (g', c)" for g g' c
  proof (cases "hu_backupOn (hs_u g)")
    case True
    obtain v off where pd: "pump_down (hs_k g) (hk_pumpULps (hs_k g)) (hw_vol (hs_w g)) = (v, off)" by fastforce
    define e where "e = (set_vol v g)\<lparr>hs_u := (hs_u (set_vol v g))\<lparr>hu_backupOn := False, hu_backupRanSinceHB := True\<rparr>\<rparr>"
    have "(off \<and> endCycle R step now PumpBackup (step - hu_backupOnStep (hs_u e)) (hu_backupStartDist (hs_u e)) (hp_NominalCurrentDA (hs_p e)) e = (g', c))
       \<or> (quiet g g' \<and> c = [])"
      using that True by (auto simp: backup_run_def pd Let_def e_def split: if_splits)
    moreover have "quiet g e" by (simp add: e_def quiet_trans [OF quiet_update(7) quiet_update(1)])
    ultimately show ?thesis using quiet_ok quiet_before cycle_ok [of PumpBackup] by blast
  qed (use that in \<open>auto simp: backup_run_def intro: quiet_ok\<close>)
  show ?thesis using eq quiet_before [OF quiet_backup_start run] quiet_ok by (auto simp: backup_part_def split: if_splits)
qed

lemma float_ok: "float_part R step now h = (h', a) \<Longrightarrow> E step now h h' a"
proof -
  assume eq: "float_part R step now h = (h', a)"
  obtain g d where d: "distanceMM R h = (g, d)" by fastforce
  obtain g' c where gc: "raiseAlarm R step now AlarmFloatHigh (word_of_int d) g = (g', c)" by fastforce
  have "E step now h g' c"
    using quiet_before [OF _ alarm_ok [OF _ _ gc]] quiet_distance [OF d] by (simp add: alarm_code_defs)
  then show ?thesis using eq d gc quiet_ok by (auto simp: float_part_def Let_def split: if_splits prod.splits intro: quiet_after)
qed

lemma storm_ok: "storm_part R step now h = (h', a) \<Longrightarrow> E step now h h' a"
  by (auto simp: storm_part_def split: if_splits intro: summary_ok quiet_ok)

lemma work_ok: "house_work R step now rainAt mains h = (h', a) \<Longrightarrow> E step now h h' a"
  unfolding house_work_def
  by (erule then_ok [rotated 2], erule then_ok [rotated 2], erule then_ok [rotated 2], erule then_ok [rotated 2])
    (auto intro: backup_ok float_ok storm_ok quiet_before [OF quiet_primary_start primary_ok] quiet_before [OF quiet_hydrology mains_ok])

end

locale house_contract = work_contract +
  assumes beat_ok: "heartbeat_part R step now h = (h', a) \<Longrightarrow> E step now h h' a"
begin

lemma step_ok: "house_step R step now rainAt mains h = (h', a) \<Longrightarrow> E step now h h' a"
  unfolding house_step_def by (erule then_ok [rotated 2]) (erule work_ok, erule beat_ok)

end

section \<open>Frames, ledger and alarms of a step\<close>

lemma uplink_effect:
  assumes "house_uplink R t u c h = (h', e)"
  shows "hs_p h' = hs_p h" "hs_k h' = hs_k h" "hs_w h' = hs_w h" "hs_u h' = hs_u h" "hs_t h' = hs_t h"
    "hs_n h' = (hs_n h)\<lparr>hn_fcnt := hn_fcnt (hs_n h) + 1\<rparr>" "sx_FCnt e = hn_fcnt (hs_n h)" "sx_Uplink e = u" "sx_Frame e = Encode u"
    "sx_Time e = t" "sx_DevEUI e = hp_DevEUI (hs_p h)" "sx_HomeIndex e = hp_Index (hs_p h)" "sx_DevAddr e = hp_DevAddr (hs_p h)"
  using assms by (auto simp: house_uplink_def Let_def split: prod.splits)

lemma raiseAlarm_cases:
  assumes "raiseAlarm R step now code value h = (h', a)"
  obtains (held) "held_off step code h" "h' = h" "a = []"
  | (raised) e where "\<not> held_off step code h" "a = [e]" "sx_Uplink e = Alarm \<lparr>al_Code = code, al_Value = value\<rparr>" "sx_Frame e = Encode (sx_Uplink e)"
      "sx_Time e = now" "sx_DevEUI e = hp_DevEUI (hs_p h)" "sx_HomeIndex e = hp_Index (hs_p h)" "sx_FCnt e = hn_fcnt (hs_n h)"
      "hs_p h' = hs_p h" "hs_k h' = hs_k h" "hs_u h' = hs_u h" "hs_w h' = hs_w h"
      "hs_n h' = (hs_n h)\<lparr>hn_fcnt := hn_fcnt (hs_n h) + 1, hn_lastAlarmStep := (hn_lastAlarmStep (hs_n h))(code \<mapsto> step)\<rparr>"
      "hs_t h' = (hs_t h)\<lparr>ht_alarms := ht_alarms (hs_t h) @ [\<lparr>at_HomeIndex = hp_Index (hs_p h), at_Code = code, at_At = now\<rparr>]\<rparr>"
proof (cases "held_off step code h")
  case True
  then have "h' = h" "a = []" using assms by (simp_all add: raiseAlarm_def)
  then show ?thesis by (rule held [OF True])
next
  case False
  define g where "g = h\<lparr>hs_n := (hs_n h)\<lparr>hn_lastAlarmStep := (hn_lastAlarmStep (hs_n h))(code \<mapsto> step)\<rparr>,
    hs_t := (hs_t h)\<lparr>ht_alarms := ht_alarms (hs_t h) @ [\<lparr>at_HomeIndex = hp_Index (hs_p h), at_Code = code, at_At = now\<rparr>]\<rparr>\<rparr>"
  obtain g' e where up: "house_uplink R now (Alarm \<lparr>al_Code = code, al_Value = value\<rparr>) True g = (g', e)" by fastforce
  have "raiseAlarm R step now code value h = (g', [e])" using False up by (simp add: raiseAlarm_def Let_def g_def)
  then have eq: "h' = g'" "a = [e]" using assms by simp_all
  note eff = uplink_effect [OF up]
  show ?thesis
    by (rule raised [of e, OF False eq(2)]) (simp_all add: eq(1) eff, simp_all add: g_def)
qed

lemma note_end_effect:
  assumes "note_end step n = (n', entered)"
  shows "hn_fcnt n' = hn_fcnt n" "hn_lastAlarmStep n' = hn_lastAlarmStep n" "hn_cyclesSinceHB n' = hn_cyclesSinceHB n"
    "hn_stormMode n' \<longleftrightarrow> hn_stormMode n \<or> entered" "entered \<Longrightarrow> \<not> hn_stormMode n" "hn_accCount n' = (if entered then 0 else hn_accCount n)"
    "hn_nextHeartbeat n' = hn_nextHeartbeat n"
  using assms by (auto simp: note_end_def resetAccumulator_def Let_def split: if_splits)

lemma report_cycle_cases:
  assumes "report_cycle R step now pump runS startDist endDist peakDA h = (h', a)"
  obtains (folded) "a = []" "hn_stormMode (hs_n h')" "hn_fcnt (hs_n h') = hn_fcnt (hs_n h)"
      "hn_accCount (hs_n h') = (if hn_stormMode (hs_n h) then hn_accCount (hs_n h) else 0) + 1"
      "hs_p h' = hs_p h" "hs_k h' = hs_k h" "hs_u h' = hs_u h" "hn_lastAlarmStep (hs_n h') = hn_lastAlarmStep (hs_n h)" "hn_cyclesSinceHB (hs_n h') = hn_cyclesSinceHB (hs_n h)"
      "ht_cycles (hs_t h') = ht_cycles (hs_t h)" "ht_alarms (hs_t h') = ht_alarms (hs_t h)" "hn_nextHeartbeat (hs_n h') = hn_nextHeartbeat (hs_n h)"
  | (sent) e c where "a = [e]" "sx_Uplink e = CycleEvent c" "ce_PumpID c = pump" "sx_Frame e = Encode (sx_Uplink e)" "sx_FCnt e = hn_fcnt (hs_n h)"
      "sx_DevEUI e = hp_DevEUI (hs_p h)" "sx_HomeIndex e = hp_Index (hs_p h)" "hn_fcnt (hs_n h') = hn_fcnt (hs_n h) + 1"
      "\<not> hn_stormMode (hs_n h)" "\<not> hn_stormMode (hs_n h')" "hn_accCount (hs_n h') = hn_accCount (hs_n h)"
      "hs_p h' = hs_p h" "hs_k h' = hs_k h" "hs_u h' = hs_u h" "hn_lastAlarmStep (hs_n h') = hn_lastAlarmStep (hs_n h)" "hn_cyclesSinceHB (hs_n h') = hn_cyclesSinceHB (hs_n h)"
      "ht_cycles (hs_t h') = ht_cycles (hs_t h)" "ht_alarms (hs_t h') = ht_alarms (hs_t h)" "hn_nextHeartbeat (hs_n h') = hn_nextHeartbeat (hs_n h)"
proof -
  obtain n entered where ne: "note_end step (hs_n h) = (n, entered)" by fastforce
  note n = note_end_effect [OF ne]
  define g where "g = h\<lparr>hs_n := n, hs_t := (hs_t h)\<lparr>ht_enteredStorm := ht_enteredStorm (hs_t h) \<or> entered\<rparr>\<rparr>"
  show ?thesis
  proof (cases "hn_stormMode n")
    case True
    then have eq: "h' = g\<lparr>hs_n := fold_cycle runS startDist peakDA n\<rparr>" "a = []"
      using assms by (simp_all add: report_cycle_def Let_def ne g_def)
    show ?thesis by (rule folded) (use True n in \<open>auto simp: eq g_def fold_cycle_def\<close>)
  next
    case False
    define c where "c = \<lparr>ce_StartOffsetS = word_of_int (min (runS + IntN R (hs_rng h) 6) 65535), ce_RunS = word_of_int (min runS 65535),
      ce_PeakCurrentDA = word_of_int (min peakDA 65535), ce_LevelStartMM = word_of_int startDist, ce_LevelEndMM = word_of_int endDist, ce_PumpID = pump\<rparr>"
    obtain g' e where up: "house_uplink R (now + IntN R (hs_rng h) 6 * second) (CycleEvent c) False (g\<lparr>hs_rng := hs_rng g + 1\<rparr>) = (g', e)" by fastforce
    have "hs_rng g = hs_rng h" by (simp add: g_def)
    then have eq: "h' = g'" "a = [e]"
      using assms False up by (simp_all add: report_cycle_def Let_def ne g_def c_def)
    note eff = uplink_effect [OF up]
    show ?thesis by (rule sent [of e c]) (use False n in \<open>simp_all add: eq eff\<close>, simp_all add: g_def c_def)
  qed
qed

lemma endCycle_split:
  assumes "endCycle R step now pump runS startDist peakDA h = (h', a)"
  obtains g dry g1 g2 b c where "quiet h g" "hs_u g = hs_u h" "g1 = record_cycle now pump runS dry g"
    "raiseAlarm R step now AlarmDryRun (word_of_int (min runS 65535)) g1 = (g2, b) \<or> (g2 = g1 \<and> b = [])"
    "\<exists>d. report_cycle R step now pump runS startDist d peakDA g2 = (h', c)" "a = b @ c"
proof -
  obtain g d where d: "distanceMM R h = (g, d)" by fastforce
  define dry where "dry \<longleftrightarrow> runS \<ge> dryRunMinS \<and> d - startDist < dryRunMaxDropMM"
  obtain g2 b where b: "(if dry then raiseAlarm R step now AlarmDryRun (word_of_int (min runS 65535)) (record_cycle now pump runS dry g)
      else (record_cycle now pump runS dry g, [])) = (g2, b)" by fastforce
  have "endCycle R step now pump runS startDist peakDA h = and_then (g2, b) (report_cycle R step now pump runS startDist d peakDA)"
    unfolding b [symmetric] by (simp add: endCycle_def Let_def d dry_def)
  then obtain c where c: "report_cycle R step now pump runS startDist d peakDA g2 = (h', c)" "a = b @ c"
    using assms by (auto simp: and_then_def split: prod.splits)
  have u: "hs_u g = hs_u h" using d by (auto simp: distanceMM_def Let_def)
  show ?thesis
    by (rule that [of g _ dry g2 b c, OF _ u refl _ _ c(2)]) (use b c(1) quiet_distance [OF d] in \<open>auto split: if_splits\<close>)
qed

lemma summary_effect:
  assumes "emitStormSummary R step now h = (h', a)"
  obtains e s where "a = [e]" "sx_Uplink e = StormSummary s" "ss_Count s = word_of_int (min (hn_accCount (hs_n h)) 255)"
    "sx_Frame e = Encode (sx_Uplink e)" "sx_FCnt e = hn_fcnt (hs_n h)" "sx_DevEUI e = hp_DevEUI (hs_p h)" "sx_HomeIndex e = hp_Index (hs_p h)"
    "hn_fcnt (hs_n h') = hn_fcnt (hs_n h) + 1" "hn_accCount (hs_n h') = 0" "hs_p h' = hs_p h" "hs_k h' = hs_k h" "hs_u h' = hs_u h"
    "hn_lastAlarmStep (hs_n h') = hn_lastAlarmStep (hs_n h)" "hn_cyclesSinceHB (hs_n h') = hn_cyclesSinceHB (hs_n h)" "hs_t h' = hs_t h"
    "hn_nextHeartbeat (hs_n h') = hn_nextHeartbeat (hs_n h)"
proof -
  define s where "s = \<lparr>ss_Count = word_of_int (min (hn_accCount (hs_n h)) 255), ss_WindowS = word_of_int stormWindow,
    ss_TotalRunS = word_of_int (min (hn_accRunS (hs_n h)) 65535), ss_MaxPeakCurrentDA = word_of_int (min (hn_accPeakDA (hs_n h)) 65535),
    ss_MinLevelMM = word_of_int (hn_accMinLevel (hs_n h))\<rparr>"
  obtain g e where up: "house_uplink R now (StormSummary s) False h = (g, e)" by fastforce
  note eff = uplink_effect [OF up]
  have eq: "a = [e]" "h' = g\<lparr>hs_n := resetAccumulator ((if hn_accCount (hs_n g) \<le> int stormThreshold then (hs_n g)\<lparr>hn_stormMode := False\<rparr> else hs_n g)\<lparr>hn_windowStart := step\<rparr>)\<rparr>"
    using assms up by (simp_all add: emitStormSummary_def Let_def s_def [symmetric])
  show ?thesis by (rule that [of e s]) (simp_all add: eq eff, simp_all add: s_def resetAccumulator_def)
qed

lemma measure_effect:
  assumes "measure_heartbeat R step now high h = (h', b)"
  shows "\<exists>j. h' = h\<lparr>hs_rng := j\<rparr>" and "hb_CyclesSinceLast b = word_of_int (min (hn_cyclesSinceHB (hs_n h)) 255)"
    and "hb_Flags b = heartbeat_flags (hu_mainsOK (hs_u h)) high (hu_backupRanSinceHB (hs_u h))" and "hb_Reserved b = 0"
proof -
  obtain d where d: "distanceMM R (h\<lparr>hs_rng := hs_rng h + 1\<rparr>) = (h\<lparr>hs_rng := hs_rng h + 2\<rparr>, d)" by (auto simp: distanceMM_def Let_def)
  obtain batt j where "battMV R step (h\<lparr>hs_rng := hs_rng h + 2 + 1\<rparr>) = (h\<lparr>hs_rng := j\<rparr>, batt)"
    by (cases "hu_mainsOK (hs_u h)") (auto simp: battMV_def)
  then have batt: "battMV R step (h\<lparr>hs_rng := Suc (Suc (Suc (hs_rng h)))\<rparr>) = (h\<lparr>hs_rng := j\<rparr>, batt)" by simp
  have "h' = h\<lparr>hs_rng := j\<rparr> \<and> hb_CyclesSinceLast b = word_of_int (min (hn_cyclesSinceHB (hs_n h)) 255)
      \<and> hb_Flags b = heartbeat_flags (hu_mainsOK (hs_u h)) high (hu_backupRanSinceHB (hs_u h)) \<and> hb_Reserved b = 0"
    using assms d batt by (auto simp: measure_heartbeat_def Let_def)
  then show "\<exists>j. h' = h\<lparr>hs_rng := j\<rparr>" "hb_CyclesSinceLast b = word_of_int (min (hn_cyclesSinceHB (hs_n h)) 255)"
    "hb_Flags b = heartbeat_flags (hu_mainsOK (hs_u h)) high (hu_backupRanSinceHB (hs_u h))" "hb_Reserved b = 0" by auto
qed

lemma heartbeat_effect:
  assumes "emitHeartbeat R step now high h = (h', a)"
  obtains e b where "a = [e]" "sx_Uplink e = Heartbeat b" "hb_CyclesSinceLast b = word_of_int (min (hn_cyclesSinceHB (hs_n h)) 255)"
    "hb_Flags b = heartbeat_flags (hu_mainsOK (hs_u h)) high (hu_backupRanSinceHB (hs_u h))" "hb_Reserved b = 0" "sx_Time e = now"
    "sx_Frame e = Encode (sx_Uplink e)" "sx_FCnt e = hn_fcnt (hs_n h)" "sx_DevEUI e = hp_DevEUI (hs_p h)" "sx_HomeIndex e = hp_Index (hs_p h)"
    "hs_n h' = (hs_n h)\<lparr>hn_fcnt := hn_fcnt (hs_n h) + 1, hn_cyclesSinceHB := 0\<rparr>" "hs_p h' = hs_p h" "hs_k h' = hs_k h" "hs_t h' = hs_t h"
    "hs_u h' = (hs_u h)\<lparr>hu_backupRanSinceHB := False\<rparr>"
proof -
  obtain g b where m: "measure_heartbeat R step now high h = (g, b)" by fastforce
  obtain j where g: "g = h\<lparr>hs_rng := j\<rparr>" using measure_effect(1) [OF m] by blast
  define f where "f = h\<lparr>hs_rng := j, hs_n := (hs_n h)\<lparr>hn_cyclesSinceHB := 0\<rparr>, hs_u := (hs_u h)\<lparr>hu_backupRanSinceHB := False\<rparr>\<rparr>"
  obtain g' e where up: "house_uplink R now (Heartbeat b) False f = (g', e)" by fastforce
  have "emitHeartbeat R step now high h = (g', [e])" using up by (simp add: emitHeartbeat_def m g Let_def f_def)
  then have eq: "h' = g'" "a = [e]" using assms by simp_all
  note eff = uplink_effect [OF up]
  show ?thesis by (rule that [of e b]) (simp_all add: eq eff measure_effect(2-) [OF m], simp_all add: f_def)
qed

lemma beat_cases:
  assumes "heartbeat_part R step now h = (h', a)"
  obtains (idle) "\<not> step \<ge> hn_nextHeartbeat (hs_n h)" "h' = h" "a = []"
  | (beat) e b where "step \<ge> hn_nextHeartbeat (hs_n h)" "a = [e]" "sx_Uplink e = Heartbeat b"
      "hb_CyclesSinceLast b = word_of_int (min (hn_cyclesSinceHB (hs_n h)) 255)"
      "hb_Flags b = heartbeat_flags (hu_mainsOK (hs_u h)) (float_is_high h) (hu_backupRanSinceHB (hs_u h))" "hb_Reserved b = 0" "sx_Time e = now"
      "sx_Frame e = Encode (sx_Uplink e)" "sx_FCnt e = hn_fcnt (hs_n h)" "sx_DevEUI e = hp_DevEUI (hs_p h)" "sx_HomeIndex e = hp_Index (hs_p h)"
      "hs_n h' = (hs_n h)\<lparr>hn_fcnt := hn_fcnt (hs_n h) + 1, hn_cyclesSinceHB := 0, hn_nextHeartbeat := hn_nextHeartbeat (hs_n h) + 900\<rparr>"
      "hs_p h' = hs_p h" "hs_k h' = hs_k h" "hs_t h' = hs_t h" "hs_u h' = (hs_u h)\<lparr>hu_backupRanSinceHB := False\<rparr>"
proof (cases "step \<ge> hn_nextHeartbeat (hs_n h)")
  case False
  then have "h' = h" "a = []" using assms by (simp_all add: heartbeat_part_def)
  then show ?thesis using idle False by blast
next
  case True
  obtain g c where g: "emitHeartbeat R step now (float_is_high h) h = (g, c)" by fastforce
  have eq: "a = c" "h' = g\<lparr>hs_n := (hs_n g)\<lparr>hn_nextHeartbeat := hn_nextHeartbeat (hs_n g) + 900\<rparr>\<rparr>"
    using assms True g by (simp_all add: heartbeat_part_def Let_def heartbeatInterval_def go_time go_div_def)
  from g show ?thesis
  proof (cases rule: heartbeat_effect)
    case (1 e b)
    show ?thesis by (rule beat [OF True, of e b]) (use 1 in \<open>simp_all add: eq\<close>)
  qed
qed

subsection \<open>Frames\<close>

definition own_event :: "home_params \<Rightarrow> sim_event \<Rightarrow> bool" where
  "own_event p e \<longleftrightarrow> valid_uplink (sx_Uplink e) \<and> sx_Frame e = Encode (sx_Uplink e) \<and> sx_DevEUI e = hp_DevEUI p \<and> sx_HomeIndex e = hp_Index p"

definition alarm_of :: "sim_event \<Rightarrow> alarm_truth list" where
  "alarm_of e = (case sx_Uplink e of Alarm a \<Rightarrow> [\<lparr>at_HomeIndex = sx_HomeIndex e, at_Code = al_Code a, at_At = sx_Time e\<rparr>] | _ \<Rightarrow> [])"

text \<open>
  Consecutive frame counters from the counter of the state, every frame one the codec accepts, under the home's own device,
  and the recorded alarms are those of the frames.
\<close>

definition emits :: "sim_house \<Rightarrow> sim_house \<Rightarrow> sim_event list \<Rightarrow> bool" where
  "emits h h' a \<longleftrightarrow> hs_p h' = hs_p h \<and> hs_k h' = hs_k h \<and> hn_fcnt (hs_n h') = hn_fcnt (hs_n h) + of_nat (length a)
     \<and> (\<forall>i < length a. sx_FCnt (a ! i) = hn_fcnt (hs_n h) + of_nat i) \<and> (\<forall>e \<in> set a. own_event (hs_p h) e)
     \<and> ht_alarms (hs_t h') = ht_alarms (hs_t h) @ concat (map alarm_of a)"

lemma emits_quiet: "quiet h h' \<Longrightarrow> emits h h' []"
  by (simp add: emits_def quiet_def)

lemma emits_seq:
  assumes "emits h h' a" "emits h' h'' b"
  shows "emits h h'' (a @ b)"
proof -
  have "sx_FCnt ((a @ b) ! i) = hn_fcnt (hs_n h) + of_nat i" if "i < length (a @ b)" for i
  proof (cases "i < length a")
    case True
    then show ?thesis using assms by (simp add: emits_def nth_append)
  next
    case False
    then have i: "i = length a + (i - length a)" "i - length a < length b" using that by simp_all
    have "sx_FCnt (b ! (i - length a)) = hn_fcnt (hs_n h) + of_nat (length a) + of_nat (i - length a)" using assms i(2) by (simp add: emits_def)
    also have "\<dots> = hn_fcnt (hs_n h) + of_nat (length a + (i - length a))" by (simp only: of_nat_add add.assoc)
    finally show ?thesis using False i(1) by (simp add: nth_append)
  qed
  then show ?thesis using assms by (auto simp: emits_def)
qed

lemma emits_one:
  assumes "own_event (hs_p h) e" "hs_p h' = hs_p h" "hs_k h' = hs_k h" "sx_FCnt e = hn_fcnt (hs_n h)" "hn_fcnt (hs_n h') = hn_fcnt (hs_n h) + 1"
    "ht_alarms (hs_t h') = ht_alarms (hs_t h) @ alarm_of e"
  shows "emits h h' [e]"
  using assms by (simp add: emits_def)

lemma emits_alarm:
  assumes "AlarmFloatHigh \<le> code" "code \<le> AlarmSensorFault" "raiseAlarm R step now code value h = (h', a)"
  shows "emits h h' a"
  using assms(3)
proof (cases rule: raiseAlarm_cases)
  case held
  then show ?thesis using emits_quiet [of h h] by simp
next
  case (raised e)
  show ?thesis unfolding raised(2)
    by (rule emits_one) (use assms(1,2) raised in \<open>simp_all add: own_event_def alarm_of_def valid_alarm_def\<close>)
qed

lemma emits_report:
  assumes "pump \<le> PumpBackup" "report_cycle R step now pump runS startDist endDist peakDA h = (h', a)"
  shows "emits h h' a"
  using assms(2)
proof (cases rule: report_cycle_cases)
  case folded
  then show ?thesis by (simp add: emits_def)
next
  case (sent e c)
  show ?thesis unfolding sent(1)
    by (rule emits_one) (use assms(1) sent in \<open>simp_all add: own_event_def alarm_of_def valid_cycle_def\<close>)
qed

lemma emits_cycle:
  assumes "pump \<le> PumpBackup" "endCycle R step now pump runS startDist peakDA h = (h', a)"
  shows "emits h h' a"
  using assms(2)
proof (cases rule: endCycle_split)
  case (1 g dry g1 g2 b c)
  have "emits g g1 []" by (simp add: 1(3) emits_def record_cycle_def)
  moreover have "emits g1 g2 b" using 1(4) emits_alarm [OF known_codes(2,5)] emits_quiet by auto
  moreover have "emits g2 h' c" using 1(5) emits_report [OF assms(1)] by blast
  ultimately have "emits g h' (([] @ b) @ c)" using emits_seq by blast
  then show ?thesis using emits_seq [OF emits_quiet [OF 1(1)]] 1(6) by simp
qed

lemma flags_masked: "heartbeat_flags mains high backup AND NOT flagsMask = 0"
  by (simp add: heartbeat_flags_def flag_defs)

interpretation house_frames: house_contract R "\<lambda>step now. emits"
proof unfold_locales
  fix step now h h' a
  assume "emitStormSummary R step now h = (h', a)"
  then show "emits h h' a"
  proof (cases rule: summary_effect)
    case (1 e s)
    show ?thesis unfolding 1(1) by (rule emits_one) (use 1 in \<open>simp_all add: own_event_def alarm_of_def valid_summary_def\<close>)
  qed
next
  fix step now h h' a
  assume "heartbeat_part R step now h = (h', a)"
  then show "emits h h' a"
  proof (cases rule: beat_cases)
    case idle
    then show ?thesis using emits_quiet [of h h] by simp
  next
    case (beat e b)
    show ?thesis unfolding beat(2) by (rule emits_one) (use beat flags_masked in \<open>simp_all add: own_event_def alarm_of_def valid_heartbeat_def\<close>)
  qed
qed (fact emits_quiet emits_seq emits_alarm emits_cycle)+

subsection \<open>The ledger of cycles\<close>

text \<open>
  Cycles are told twice: singly or in the counts of storm summaries, and in the counters of heartbeats. Both counts are bytes,
  so a count of 255 may stand for more.
\<close>

definition told_as_cycles :: "sim_event \<Rightarrow> int" where
  "told_as_cycles e = (case sx_Uplink e of CycleEvent _ \<Rightarrow> 1 | StormSummary s \<Rightarrow> uint (ss_Count s) | _ \<Rightarrow> 0)"

definition told_in_heartbeats :: "sim_event \<Rightarrow> int" where
  "told_in_heartbeats e = (case sx_Uplink e of Heartbeat b \<Rightarrow> uint (hb_CyclesSinceLast b) | _ \<Rightarrow> 0)"

definition saturated :: "sim_event \<Rightarrow> bool" where
  "saturated e = (case sx_Uplink e of StormSummary s \<Rightarrow> uint (ss_Count s) = 255 | Heartbeat b \<Rightarrow> uint (hb_CyclesSinceLast b) = 255 | _ \<Rightarrow> False)"

definition ledger_inv :: "sim_house \<Rightarrow> bool" where
  "ledger_inv h \<longleftrightarrow> 0 \<le> hn_accCount (hs_n h) \<and> 0 \<le> hn_cyclesSinceHB (hs_n h) \<and> (\<not> hn_stormMode (hs_n h) \<longrightarrow> hn_accCount (hs_n h) = 0)"

text \<open>What a stretch of time leaves untold: cycles completed, less what the frames tell, less what is still accumulated.\<close>

definition untold_cycles :: "sim_house \<Rightarrow> sim_house \<Rightarrow> sim_event list \<Rightarrow> int" where
  "untold_cycles h h' a = (int (length (ht_cycles (hs_t h'))) - hn_accCount (hs_n h')) - (int (length (ht_cycles (hs_t h))) - hn_accCount (hs_n h))
     - sum_list (map told_as_cycles a)"

definition untold_beats :: "sim_house \<Rightarrow> sim_house \<Rightarrow> sim_event list \<Rightarrow> int" where
  "untold_beats h h' a = (int (length (ht_cycles (hs_t h'))) - hn_cyclesSinceHB (hs_n h')) - (int (length (ht_cycles (hs_t h))) - hn_cyclesSinceHB (hs_n h))
     - sum_list (map told_in_heartbeats a)"

definition balanced :: "sim_house \<Rightarrow> sim_house \<Rightarrow> sim_event list \<Rightarrow> bool" where
  "balanced h h' a \<longleftrightarrow> (ledger_inv h \<longrightarrow> ledger_inv h' \<and> 0 \<le> untold_cycles h h' a \<and> 0 \<le> untold_beats h h' a
     \<and> ((\<forall>e \<in> set a. \<not> saturated e) \<longrightarrow> untold_cycles h h' a = 0 \<and> untold_beats h h' a = 0))"

lemma untold_seq:
  "untold_cycles h h'' (a @ b) = untold_cycles h h' a + untold_cycles h' h'' b"
  "untold_beats h h'' (a @ b) = untold_beats h h' a + untold_beats h' h'' b"
  by (simp_all add: untold_cycles_def untold_beats_def)

lemma balanced_seq: "balanced h h' a \<Longrightarrow> balanced h' h'' b \<Longrightarrow> balanced h h'' (a @ b)"
  unfolding balanced_def untold_seq [of h h'' a b h'] by auto

lemma balanced_quiet: "quiet h h' \<Longrightarrow> balanced h h' []"
  by (simp add: balanced_def quiet_def ledger_inv_def untold_cycles_def untold_beats_def)

lemma balanced_alarm: "raiseAlarm R step now code value h = (h', a) \<Longrightarrow> balanced h h' a"
  by (erule raiseAlarm_cases)
    (simp_all add: balanced_def ledger_inv_def untold_cycles_def untold_beats_def told_as_cycles_def told_in_heartbeats_def)

text \<open>Between recording a cycle and reporting it the books are open by one.\<close>

lemma record_ledger:
  "untold_cycles g (record_cycle now pump runS dry g) [] = 1" "untold_beats g (record_cycle now pump runS dry g) [] = 0"
  "ledger_inv g \<Longrightarrow> ledger_inv (record_cycle now pump runS dry g)"
  by (simp_all add: untold_cycles_def untold_beats_def record_cycle_def ledger_inv_def)

lemma report_ledger:
  assumes "report_cycle R step now pump runS startDist endDist peakDA h = (h', a)" "ledger_inv h"
  shows "ledger_inv h' \<and> untold_cycles h h' a = - 1 \<and> untold_beats h h' a = 0"
  using assms(1)
  by (cases rule: report_cycle_cases)
    (use assms(2) in \<open>auto simp: ledger_inv_def untold_cycles_def untold_beats_def told_as_cycles_def told_in_heartbeats_def split: if_splits\<close>)

lemma balanced_cycle:
  assumes "endCycle R step now pump runS startDist peakDA h = (h', a)"
  shows "balanced h h' a"
  using assms
proof (cases rule: endCycle_split)
  case (1 g dry g1 g2 b c)
  have alarm: "balanced g1 g2 b" using 1(4) balanced_alarm balanced_quiet by auto
  have "balanced g h' ([] @ b @ c)"
    unfolding balanced_def untold_seq [of g h' "[]" "b @ c" g1] untold_seq [of g1 h' b c g2]
    using 1(5) report_ledger [of R step now pump runS startDist _ peakDA g2 h' c] alarm record_ledger [of g now pump runS dry] 1(3)
    by (auto simp: balanced_def)
  then show ?thesis using balanced_seq [OF balanced_quiet [OF 1(1)]] 1(6) by simp
qed

lemma uint_byte: "0 \<le> k \<Longrightarrow> uint (word_of_int (min k 255) :: uint8) = min k 255"
  by (simp add: uint_word_of_int)

interpretation house_ledger: house_contract R "\<lambda>step now. balanced"
proof unfold_locales
  fix step now h h' a
  assume "emitStormSummary R step now h = (h', a)" and storm: "hn_stormMode (hs_n h)"
  then show "balanced h h' a"
  proof (cases rule: summary_effect)
    case (1 e s)
    have "uint (ss_Count s) = min (hn_accCount (hs_n h)) 255" if "ledger_inv h"
      unfolding 1(3) using that by (intro uint_byte) (simp add: ledger_inv_def)
    then show ?thesis using 1(1,2,9,14,15) storm
      by (auto simp: balanced_def ledger_inv_def untold_cycles_def untold_beats_def told_as_cycles_def told_in_heartbeats_def saturated_def)
  qed
next
  fix step now h h' a
  assume "heartbeat_part R step now h = (h', a)"
  then show "balanced h h' a"
  proof (cases rule: beat_cases)
    case idle
    then show ?thesis using balanced_quiet [of h h] by simp
  next
    case (beat e b)
    have "uint (hb_CyclesSinceLast b) = min (hn_cyclesSinceHB (hs_n h)) 255" if "ledger_inv h"
      unfolding beat(4) using that by (intro uint_byte) (simp add: ledger_inv_def)
    then show ?thesis using beat(2,3,12,15)
      by (auto simp: balanced_def ledger_inv_def untold_cycles_def untold_beats_def told_as_cycles_def told_in_heartbeats_def saturated_def)
  qed
qed (erule balanced_quiet balanced_seq balanced_alarm balanced_cycle, assumption?)+

subsection \<open>Alarms are held off\<close>

definition spaced :: "alarm_truth list \<Rightarrow> bool" where
  "spaced xs \<longleftrightarrow> sorted_wrt (\<lambda>x y. at_Code x = at_Code y \<longrightarrow> at_At y - at_At x \<ge> alarmHoldoff * second) xs"

definition alarm_inv :: "instant \<Rightarrow> int \<Rightarrow> sim_house \<Rightarrow> bool" where
  "alarm_inv start step h \<longleftrightarrow> spaced (ht_alarms (hs_t h))
     \<and> (\<forall>x \<in> set (ht_alarms (hs_t h)). \<exists>s. hn_lastAlarmStep (hs_n h) (at_Code x) = Some s \<and> at_At x \<le> start + s * second)"

definition keeps_alarms :: "instant \<Rightarrow> int \<Rightarrow> instant \<Rightarrow> sim_house \<Rightarrow> sim_house \<Rightarrow> sim_event list \<Rightarrow> bool" where
  "keeps_alarms start step now h h' a \<longleftrightarrow> (now = start + step * second \<longrightarrow> alarm_inv start step h \<longrightarrow> alarm_inv start step h')"

lemma keeps_same: "hn_lastAlarmStep (hs_n h') = hn_lastAlarmStep (hs_n h) \<Longrightarrow> ht_alarms (hs_t h') = ht_alarms (hs_t h) \<Longrightarrow> keeps_alarms start step now h h' a"
  by (simp add: keeps_alarms_def alarm_inv_def)

lemma keeps_seq: "keeps_alarms start step now h h' a \<Longrightarrow> keeps_alarms start step now h' h'' b \<Longrightarrow> keeps_alarms start step now h h'' (a @ b)"
  by (simp add: keeps_alarms_def)

lemma keeps_alarm:
  assumes "raiseAlarm R step now code value h = (h', a)"
  shows "keeps_alarms start step now h h' a"
  using assms
proof (cases rule: raiseAlarm_cases)
  case held
  then show ?thesis by (simp add: keeps_same)
next
  case (raised e)
  have gap: "alarmHoldoff * second \<le> now - at_At x"
    if inv: "alarm_inv start step h" and now: "now = start + step * second" and x: "x \<in> set (ht_alarms (hs_t h))" "at_Code x = code" for x
  proof -
    obtain s where s: "hn_lastAlarmStep (hs_n h) code = Some s" "at_At x \<le> start + s * second"
      using inv x unfolding alarm_inv_def by blast
    then have "s + alarmHoldoff \<le> step" using raised(1) by (simp add: held_off_def)
    then have "(s + alarmHoldoff) * second \<le> step * second" by (intro mult_right_mono) (simp_all add: go_time)
    then show ?thesis using s(2) now by (simp add: algebra_simps)
  qed
  have "0 \<le> alarmHoldoff * second" by (simp add: alarmHoldoff_def go_time)
  then have gap': "at_At x \<le> now" if "alarm_inv start step h" "now = start + step * second" "x \<in> set (ht_alarms (hs_t h))" "at_Code x = code" for x
    using gap [OF that] by linarith
  have "alarm_inv start step h'" if inv: "alarm_inv start step h" and now: "now = start + step * second"
  proof -
    have "spaced (ht_alarms (hs_t h'))"
      using inv gap [OF inv now] raised(14) by (auto simp: alarm_inv_def spaced_def sorted_wrt_append)
    moreover have "\<exists>s. hn_lastAlarmStep (hs_n h') (at_Code x) = Some s \<and> at_At x \<le> start + s * second" if "x \<in> set (ht_alarms (hs_t h'))" for x
      using that inv gap' [OF inv now, of x] raised(13,14) now by (auto simp: alarm_inv_def)
    ultimately show ?thesis by (simp add: alarm_inv_def)
  qed
  then show ?thesis by (simp add: keeps_alarms_def)
qed

lemma keeps_cycle:
  assumes "endCycle R step now pump runS startDist peakDA h = (h', a)"
  shows "keeps_alarms start step now h h' a"
  using assms
proof (cases rule: endCycle_split)
  case (1 g dry g1 g2 b c)
  have "keeps_alarms start step now h g1 []" using 1(1,3) by (intro keeps_same) (simp_all add: quiet_def record_cycle_def)
  moreover have "keeps_alarms start step now g1 g2 b" using 1(4) keeps_alarm keeps_same by auto
  moreover have "keeps_alarms start step now g2 h' c" using 1(5) by (auto elim!: report_cycle_cases intro: keeps_same)
  ultimately show ?thesis by (auto simp: keeps_alarms_def)
qed

interpretation house_alarms: house_contract R "keeps_alarms start"
proof unfold_locales
  fix step now h h' a
  assume "emitStormSummary R step now h = (h', a)"
  then show "keeps_alarms start step now h h' a" by (cases rule: summary_effect) (simp add: keeps_same)
next
  fix step now h h' a
  assume "heartbeat_part R step now h = (h', a)"
  then show "keeps_alarms start step now h h' a" by (cases rule: beat_cases) (simp_all add: keeps_same)
next
  fix step now h h'
  assume "quiet h h'"
  then show "keeps_alarms start step now h h' []" by (simp add: quiet_def keeps_same)
qed (erule keeps_seq keeps_alarm keeps_cycle, assumption?)+

section \<open>A new home\<close>

text \<open>Hexadecimal with a least width.\<close>

definition hex_digit :: "nat \<Rightarrow> char" where
  "hex_digit d = (if d < 10 then digit_char d else char_of (87 + d))"

fun format_hex :: "nat \<Rightarrow> string" where
  "format_hex n = (if n < 16 then [hex_digit n] else format_hex (n div 16) @ [hex_digit (n mod 16)])"

declare format_hex.simps [simp del]

record home_identity =
  id_homeID :: string
  id_devEUI :: string
  id_devAddr :: string
  id_stream :: uint64

definition syntheticIdentity :: "(string \<Rightarrow> string) \<Rightarrow> nat \<Rightarrow> nat \<Rightarrow> home_identity" where
  "syntheticIdentity newSHA1 index seed =
     \<lparr>id_homeID = newSHA1 (''home:'' @ format_nat seed @ '':'' @ format_nat index), id_devEUI = ''70b3d57ed0'' @ pad_zeros 6 (format_hex index),
      id_devAddr = ''01a3b'' @ pad_zeros 3 (format_hex index), id_stream = of_nat index + 1\<rparr>"

definition siteIdentity :: "site_home \<Rightarrow> home_identity" where
  "siteIdentity h = \<lparr>id_homeID = sh_HomeID h, id_devEUI = sh_DevEUI h, id_devAddr = sh_DevAddr h, id_stream = sh_Stream h\<rparr>"

text \<open>The parameters, from seventeen draws in the order of the code.\<close>

definition drawn_params :: "draws \<Rightarrow> nat \<Rightarrow> home_identity \<Rightarrow> segment_params \<Rightarrow> scenario \<Rightarrow> home_params" where
  "drawn_params R index ident seg scn =
     (let pit = (if IntN R 0 6 = 0 then unif R 1 0.27 0.31 else unif R 1 0.148 0.180);
          sensor = go_int (unif R 2 650 800);
          stop = go_int (unif R 3 220 280);
          trigger = stop + go_int (unif R 4 130 170);
          floatHigh = trigger + go_int (unif R 5 100 140);
          health = (case sc_HealthOverrides scn (int index) of Some x \<Rightarrow> x | None \<Rightarrow> PumpHealthy);
          res = unif R 9 30 300 * sp_ReservoirMul seg * mul_or_one (sc_ReservoirMul scn)
      in \<lparr>hp_Index = int index, hp_HomeID = id_homeID ident, hp_DevEUI = id_devEUI ident, hp_DevAddr = id_devAddr ident, hp_SegmentID = sp_ID seg,
          hp_PitAreaM2 = pit, hp_SensorHeightMM = sensor, hp_TriggerDepthMM = trigger,
          hp_StopDepthMM = (if health = PumpShortCycling then trigger - 20 else stop), hp_FloatHighDepthMM = floatHigh,
          hp_BaseflowCPD = unif R 6 1 12 * sp_BaseflowMul seg * mul_or_one (sc_BaseflowMul scn),
          hp_ResponseLPerMM = unif R 7 60 160 * sp_ResponseMul seg * mul_or_one (sc_ResponseMul scn),
          hp_DelayMin = unif R 8 5 90, hp_ReservoirMin = (if res < 30 then 30 else res), hp_PumpLPS = unif R 10 0.5 1.2,
          hp_NominalCurrentDA = go_int (unif R 11 45 90), hp_Health = health, hp_HasBackup = (IntN R 12 4 = 0),
          hp_SensorOffsetMM = go_int (unif R 13 (- 15) 15), hp_RSSIBase = (go_int (unif R 14 (- 118) (- 70)), go_int (unif R 15 (- 118) (- 70))),
          hp_HeartbeatPhase = IntN R 16 (go_div heartbeatInterval second) * second\<rparr>)"

definition derived_consts :: "home_params \<Rightarrow> int \<Rightarrow> home_consts" where
  "derived_consts p nSteps =
     (let area = go_int (math_round (hp_PitAreaM2 p * 1000000));
          trigger = hp_TriggerDepthMM p * area; stop = hp_StopDepthMM p * area; high = hp_FloatHighDepthMM p * area
      in \<lparr>hk_areaMM2 = area, hk_triggerVol = trigger, hk_stopVol = stop, hk_floatHighVol = high, hk_backupVol = go_div (trigger + high) 2,
          hk_cycleVol = trigger - stop, hk_qBase = go_int (math_round (hp_BaseflowCPD p * real_of_int (trigger - stop) / 86400)),
          hk_respULsPerMMH = hp_ResponseLPerMM p * real_of_int usPerL / 3600, hk_delayMin = go_int (math_round (hp_DelayMin p)),
          hk_reservoirS = go_int (math_round (hp_ReservoirMin p * 60)), hk_pumpULps = go_int (math_round (hp_PumpLPS p * real_of_int usPerL)),
          hk_baseflowCPD = hp_BaseflowCPD p, hk_scenarioSecs = nSteps\<rparr>)"

definition newHome :: "draws \<Rightarrow> nat \<Rightarrow> home_identity \<Rightarrow> segment_params \<Rightarrow> scenario \<Rightarrow> int \<Rightarrow> sim_house" where
  "newHome R index ident seg scn nSteps =
     (let p = drawn_params R index ident seg scn; k = derived_consts p nSteps
      in \<lparr>hs_p = p, hs_k = k,
          hs_w = \<lparr>hw_vol = hk_stopVol k + go_div (hk_cycleVol k) 2, hw_storage = 0, hw_noise = 0, hw_qStorm = 0, hw_backflow = 0, hw_backPerS = 0\<rparr>,
          hs_u = \<lparr>hu_primaryOn = False, hu_primaryOnStep = 0, hu_primaryStartVol = 0, hu_primaryStartDist = 0, hu_primaryPeakDA = 0,
                  hu_backupOn = False, hu_backupOnStep = 0, hu_backupStartDist = 0, hu_thermalOffUntil = 0, hu_continuousRaised = False,
                  hu_backupRanSinceHB = False, hu_mainsOK = True, hu_outageStartStep = 0\<rparr>,
          hs_n = \<lparr>hn_fcnt = 0, hn_nextHeartbeat = go_div (hp_HeartbeatPhase p) second, hn_cyclesSinceHB = 0, hn_stormMode = False, hn_windowStart = 0,
                  hn_recentEnds = [], hn_accCount = 0, hn_accRunS = 0, hn_accPeakDA = 0, hn_accMinLevel = 0, hn_lastAlarmStep = Map.empty,
                  hn_floatHigh = False\<rparr>,
          hs_t = \<lparr>ht_rateNF = (\<lambda>_. 0), ht_stormUL = (\<lambda>_. 0), ht_cycles = [], ht_alarms = [], ht_enteredStorm = False\<rparr>,
          hs_rng = 17\<rparr>)"

text \<open>The first \<open>n\<close> seconds of a home.\<close>

fun house_run :: "draws \<Rightarrow> instant \<Rightarrow> (int \<Rightarrow> real) \<Rightarrow> (int \<Rightarrow> bool) \<Rightarrow> nat \<Rightarrow> sim_house \<Rightarrow> sim_house \<times> sim_event list" where
  "house_run R start rainAt mains 0 h = (h, [])"
| "house_run R start rainAt mains (Suc n) h =
     and_then (house_run R start rainAt mains n h) (house_step R (int n) (start + int n * second) rainAt (mains (int n)))"

lemma run_cases:
  assumes "house_run R start rainAt mains (Suc n) h = (h'', c)"
  obtains h' a b where "house_run R start rainAt mains n h = (h', a)" "house_step R (int n) (start + int n * second) rainAt (mains (int n)) h' = (h'', b)" "c = a @ b"
  using assms by (auto simp: and_then_def split: prod.splits)

lemma run_emits: "house_run R start rainAt mains n h = (h', a) \<Longrightarrow> emits h h' a"
proof (induction n arbitrary: h' a)
  case (Suc n)
  from Suc.prems show ?case by (rule run_cases) (auto intro: emits_seq house_frames.step_ok Suc.IH)
qed (simp add: emits_quiet)

lemma run_balanced: "house_run R start rainAt mains n h = (h', a) \<Longrightarrow> balanced h h' a"
proof (induction n arbitrary: h' a)
  case (Suc n)
  from Suc.prems show ?case by (rule run_cases) (auto intro: balanced_seq house_ledger.step_ok Suc.IH)
qed (simp add: balanced_quiet)

lemma alarm_inv_step: "alarm_inv start s h = alarm_inv start s' h"
  by (simp add: alarm_inv_def)

lemma run_alarms: "house_run R start rainAt mains n h = (h', a) \<Longrightarrow> alarm_inv start 0 h \<Longrightarrow> alarm_inv start 0 h'"
proof (induction n arbitrary: h' a)
  case (Suc n)
  obtain g b c where g: "house_run R start rainAt mains n h = (g, b)" "house_step R (int n) (start + int n * second) rainAt (mains (int n)) g = (h', c)"
    using Suc.prems(1) by (rule run_cases)
  have "keeps_alarms start (int n) (start + int n * second) g h' c" by (rule house_alarms.step_ok [OF g(2)])
  then show ?case using Suc.IH [OF g(1) Suc.prems(2)] alarm_inv_step [of start 0 _ "int n"] by (simp add: keeps_alarms_def)
qed simp

lemma newHome_start:
  "ledger_inv (newHome R index ident seg scn nSteps)" "alarm_inv start 0 (newHome R index ident seg scn nSteps)"
  "hn_fcnt (hs_n (newHome R index ident seg scn nSteps)) = 0" "ht_cycles (hs_t (newHome R index ident seg scn nSteps)) = []"
  "ht_alarms (hs_t (newHome R index ident seg scn nSteps)) = []" "hn_accCount (hs_n (newHome R index ident seg scn nSteps)) = 0"
  "hn_cyclesSinceHB (hs_n (newHome R index ident seg scn nSteps)) = 0"
  "hp_DevEUI (hs_p (newHome R index ident seg scn nSteps)) = id_devEUI ident" "hp_Index (hs_p (newHome R index ident seg scn nSteps)) = int index"
  by (simp_all add: newHome_def Let_def ledger_inv_def alarm_inv_def spaced_def drawn_params_def)

text \<open>
  A simulated node never sends a frame the system cannot read. In any run of any new home, whatever the draws, the rain and the
  outages, the encoder never fails (where the code would panic), every frame decodes to the uplink it stands for and carries the
  device of the home, the frame counters are 0, 1, 2 and so on in the order of emission, and the alarms recorded as truth are exactly the alarm
  frames sent, with their codes and times.
\<close>

theorem house_run_frames:
  "let (h, evs) = house_run R start rainAt mains n (newHome R index ident seg scn nSteps)
   in map sx_FCnt evs = map of_nat [0..<length evs]
    \<and> list_all (\<lambda>e. sx_DevEUI e = id_devEUI ident \<and> sx_HomeIndex e = int index
         \<and> (case sx_Frame e of Inl _ \<Rightarrow> False | Inr (port, data) \<Rightarrow> Decode port data = Inr (sx_Uplink e))) evs
    \<and> ht_alarms (hs_t h) = concat (map alarm_of evs)"
proof -
  let ?h0 = "newHome R index ident seg scn nSteps"
  obtain h evs where run: "house_run R start rainAt mains n ?h0 = (h, evs)" by fastforce
  note em = run_emits [OF run, unfolded emits_def newHome_start append.left_neutral add.left_neutral]
  have "map sx_FCnt evs = map of_nat [0..<length evs]" using em by (intro nth_equalityI) simp_all
  moreover have "case sx_Frame e of Inl _ \<Rightarrow> False | Inr (port, data) \<Rightarrow> Decode port data = Inr (sx_Uplink e)" if "e \<in> set evs" for e
  proof -
    have e: "valid_uplink (sx_Uplink e)" "sx_Frame e = Encode (sx_Uplink e)" using em that by (auto simp: own_event_def)
    then obtain b where "MarshalBinary (sx_Uplink e) = Inr b" using marshal_defined_uplink by blast
    then show ?thesis using e(2) by (simp add: Encode_def Decode_eq_MarshalBinary)
  qed
  ultimately show ?thesis using em by (auto simp: run list_all_iff own_event_def newHome_start)
qed

text \<open>
  C32: Every cycle is told once. In any run of a new home, the cycles sent singly, the counts of the storm summaries and the count still
  accumulated never exceed the cycles the pumps completed, nor do the counters of the heartbeats with the current one; and unless a
  counter byte saturated at 255, both accounts equal the number of completed cycles.
\<close>

theorem house_run_ledger:
  "let (h, evs) = house_run R start rainAt mains n (newHome R index ident seg scn nSteps);
       done_cycles = int (length (ht_cycles (hs_t h)));
       told = sum_list (map told_as_cycles evs) + hn_accCount (hs_n h);
       beaten = sum_list (map told_in_heartbeats evs) + hn_cyclesSinceHB (hs_n h)
   in told \<le> done_cycles \<and> beaten \<le> done_cycles \<and> (list_ex saturated evs \<or> told = done_cycles \<and> beaten = done_cycles)"
proof -
  let ?h0 = "newHome R index ident seg scn nSteps"
  obtain h evs where run: "house_run R start rainAt mains n ?h0 = (h, evs)" by fastforce
  have "0 \<le> untold_cycles ?h0 h evs \<and> 0 \<le> untold_beats ?h0 h evs
      \<and> ((\<forall>e \<in> set evs. \<not> saturated e) \<longrightarrow> untold_cycles ?h0 h evs = 0 \<and> untold_beats ?h0 h evs = 0)"
    using run_balanced [OF run] newHome_start(1) by (simp add: balanced_def)
  then show ?thesis unfolding run Let_def prod.case untold_cycles_def untold_beats_def newHome_start list_ex_iff by auto
qed

text \<open>
  Alarms are held off. In any run of a new home two alarm frames with the same code are at least an hour apart.
\<close>

theorem house_run_holdoff:
  "spaced (concat (map alarm_of (snd (house_run R start rainAt mains n (newHome R index ident seg scn nSteps)))))"
proof -
  let ?h0 = "newHome R index ident seg scn nSteps"
  obtain h evs where run: "house_run R start rainAt mains n ?h0 = (h, evs)" by fastforce
  have "ht_alarms (hs_t h) = concat (map alarm_of evs)" using run_emits [OF run] by (simp add: emits_def newHome_start)
  moreover have "spaced (ht_alarms (hs_t h))" using run_alarms [OF run newHome_start(2)] by (simp add: alarm_inv_def)
  ultimately show ?thesis by (simp add: run)
qed

section \<open>Heartbeats come on time\<close>

definition is_beat :: "sim_event \<Rightarrow> bool" where
  "is_beat e = (case sx_Uplink e of Heartbeat _ \<Rightarrow> True | _ \<Rightarrow> False)"

definition no_beat :: "sim_house \<Rightarrow> sim_house \<Rightarrow> sim_event list \<Rightarrow> bool" where
  "no_beat h h' a \<longleftrightarrow> hn_nextHeartbeat (hs_n h') = hn_nextHeartbeat (hs_n h) \<and> filter is_beat a = []"

lemma no_beat_seq: "no_beat h h' a \<Longrightarrow> no_beat h' h'' b \<Longrightarrow> no_beat h h'' (a @ b)"
  by (simp add: no_beat_def)

lemma no_beat_quiet: "quiet h h' \<Longrightarrow> no_beat h h' []"
  by (simp add: no_beat_def quiet_def)

lemma no_beat_alarm: "raiseAlarm R step now code value h = (h', a) \<Longrightarrow> no_beat h h' a"
  by (erule raiseAlarm_cases) (simp_all add: no_beat_def is_beat_def)

lemma no_beat_cycle:
  assumes "endCycle R step now pump runS startDist peakDA h = (h', a)"
  shows "no_beat h h' a"
  using assms
proof (cases rule: endCycle_split)
  case (1 g dry g1 g2 b c)
  have "no_beat h g1 []" using 1(1,3) by (simp add: no_beat_def quiet_def record_cycle_def)
  moreover have "no_beat g1 g2 b" using 1(4) no_beat_alarm no_beat_quiet by auto
  moreover have "no_beat g2 h' c" using 1(5) by (auto elim!: report_cycle_cases simp: no_beat_def is_beat_def)
  ultimately show ?thesis using 1(6) by (simp add: no_beat_def)
qed

interpretation house_beats: work_contract R "\<lambda>step now. no_beat"
proof unfold_locales
  fix step now h h' a
  assume "emitStormSummary R step now h = (h', a)"
  then show "no_beat h h' a" by (cases rule: summary_effect) (simp add: no_beat_def is_beat_def)
qed (erule no_beat_quiet no_beat_seq no_beat_alarm no_beat_cycle, assumption?)+

lemma step_beats:
  assumes "house_step R step now rainAt mains h = (h', a)"
  shows "map sx_Time (filter is_beat a) = (if step \<ge> hn_nextHeartbeat (hs_n h) then [now] else [])"
    and "hn_nextHeartbeat (hs_n h') = hn_nextHeartbeat (hs_n h) + (if step \<ge> hn_nextHeartbeat (hs_n h) then 900 else 0)"
proof -
  obtain g b c where g: "house_work R step now rainAt mains h = (g, b)" "heartbeat_part R step now g = (h', c)" "a = b @ c"
    using assms by (auto simp: house_step_def and_then_def split: prod.splits)
  have "no_beat h g b" by (rule house_beats.work_ok [OF g(1)])
  moreover have "map sx_Time (filter is_beat c) = (if step \<ge> hn_nextHeartbeat (hs_n g) then [now] else [])
      \<and> hn_nextHeartbeat (hs_n h') = hn_nextHeartbeat (hs_n g) + (if step \<ge> hn_nextHeartbeat (hs_n g) then 900 else 0)"
    using g(2) by (cases rule: beat_cases) (simp_all add: is_beat_def)
  ultimately show "map sx_Time (filter is_beat a) = (if step \<ge> hn_nextHeartbeat (hs_n h) then [now] else [])"
    "hn_nextHeartbeat (hs_n h') = hn_nextHeartbeat (hs_n h) + (if step \<ge> hn_nextHeartbeat (hs_n h) then 900 else 0)"
    using g(3) by (simp_all add: no_beat_def)
qed

text \<open>The seconds a node with this phase beats in, of the first \<open>n\<close>.\<close>

definition beat_seconds :: "int \<Rightarrow> nat \<Rightarrow> nat list" where
  "beat_seconds phase n = filter (\<lambda>s. phase \<le> int s \<and> (int s - phase) mod 900 = 0) [0..<n]"

text \<open>After \<open>n\<close> seconds the next beat is the first due second that is not past.\<close>

lemma run_beats:
  assumes "house_run R start rainAt mains n h = (h', a)" and "0 \<le> hn_nextHeartbeat (hs_n h)"
  shows "map sx_Time (filter is_beat a) = map (\<lambda>s. start + int s * second) (beat_seconds (hn_nextHeartbeat (hs_n h)) n)
    \<and> int n \<le> hn_nextHeartbeat (hs_n h') \<and> (hn_nextHeartbeat (hs_n h') - hn_nextHeartbeat (hs_n h)) mod 900 = 0
    \<and> hn_nextHeartbeat (hs_n h) \<le> hn_nextHeartbeat (hs_n h') \<and> (hn_nextHeartbeat (hs_n h') < int n + 900 \<or> hn_nextHeartbeat (hs_n h') = hn_nextHeartbeat (hs_n h))"
  using assms(1)
proof (induction n arbitrary: h' a)
  case 0
  then show ?case using assms(2) by (simp add: beat_seconds_def)
next
  case (Suc n)
  obtain g b c where g: "house_run R start rainAt mains n h = (g, b)" "house_step R (int n) (start + int n * second) rainAt (mains (int n)) g = (h', c)" "a = b @ c"
    using Suc.prems by (rule run_cases)
  note ih = Suc.IH [OF g(1)] and st = step_beats [OF g(2)]
  define ph where "ph = hn_nextHeartbeat (hs_n h)"
  define nx where "nx = hn_nextHeartbeat (hs_n g)"
  have inv: "int n \<le> nx" "(nx - ph) mod 900 = 0" "ph \<le> nx" "nx < int n + 900 \<or> nx = ph" using ih by (simp_all add: ph_def nx_def)
  have due: "ph \<le> int n \<and> (int n - ph) mod 900 = 0 \<longleftrightarrow> nx \<le> int n"
  proof
    assume d: "ph \<le> int n \<and> (int n - ph) mod 900 = 0"
    show "nx \<le> int n"
    proof (rule ccontr)
      assume "\<not> nx \<le> int n"
      then have lt: "0 < nx - int n" "nx - int n < 900" using d inv(4) by auto
      have "(nx - int n) mod 900 = ((nx - ph) - (int n - ph)) mod 900" by simp
      also have "\<dots> = 0" using d inv(2) by (metis mod_diff_eq diff_self mod_0)
      finally show False using lt by simp
    qed
  next
    assume "nx \<le> int n"
    then have "nx = int n" using inv(1) by simp
    then show "ph \<le> int n \<and> (int n - ph) mod 900 = 0" using inv(2,3) by simp
  qed
  have "beat_seconds ph (Suc n) = beat_seconds ph n @ (if nx \<le> int n then [n] else [])"
    using due by (simp add: beat_seconds_def)
  then have "map sx_Time (filter is_beat a) = map (\<lambda>s. start + int s * second) (beat_seconds ph (Suc n))"
    using ih st(1) g(3) by (simp add: ph_def nx_def)
  moreover have nx': "hn_nextHeartbeat (hs_n h') = nx + (if nx \<le> int n then 900 else 0)" using st(2) by (simp add: nx_def)
  have "int (Suc n) \<le> hn_nextHeartbeat (hs_n h') \<and> (hn_nextHeartbeat (hs_n h') - ph) mod 900 = 0 \<and> ph \<le> hn_nextHeartbeat (hs_n h')
      \<and> (hn_nextHeartbeat (hs_n h') < int (Suc n) + 900 \<or> hn_nextHeartbeat (hs_n h') = ph)"
  proof (cases "nx \<le> int n")
    case True
    have "(nx + 900 - ph) mod 900 = (nx - ph + 900) mod 900" by (simp add: algebra_simps)
    also have "\<dots> = 0" using inv(2) by (simp only: mod_add_self2)
    finally show ?thesis using nx' True inv(1,3) by simp
  next
    case False
    then show ?thesis using nx' inv by auto
  qed
  ultimately show ?case unfolding ph_def by blast
qed

text \<open>
  Heartbeats come on time. In any run of a new home, heartbeats are sent in exactly the seconds that lie a whole number of quarter
  hours after the home's phase, which is less than a quarter of an hour: never late, never twice, storm or outage.
\<close>

theorem house_run_heartbeats:
  "let h0 = newHome R index ident seg scn nSteps; phase = go_div (hp_HeartbeatPhase (hs_p h0)) second
   in 0 \<le> phase \<and> phase < 900
    \<and> map sx_Time (filter is_beat (snd (house_run R start rainAt mains n h0))) = map (\<lambda>s. start + int s * second) (beat_seconds phase n)"
proof -
  let ?h0 = "newHome R index ident seg scn nSteps"
  obtain h evs where run: "house_run R start rainAt mains n ?h0 = (h, evs)" by fastforce
  have "go_div (hp_HeartbeatPhase (hs_p ?h0)) second = IntN R 16 900"
    by (simp add: newHome_def drawn_params_def Let_def heartbeatInterval_def go_time go_div_def IntN_def)
  moreover have "hn_nextHeartbeat (hs_n ?h0) = go_div (hp_HeartbeatPhase (hs_p ?h0)) second" by (simp add: newHome_def Let_def)
  moreover have "0 \<le> IntN R 16 900" "IntN R 16 900 < 900" by (simp_all add: IntN_def)
  ultimately show ?thesis using run_beats [OF run] by (simp add: run Let_def)
qed

section \<open>Without mains the primary pump stands still\<close>

lemma alarm_keeps_pumps: "raiseAlarm R step now code value h = (h', a) \<Longrightarrow> hs_u h' = hs_u h"
  by (erule raiseAlarm_cases) simp_all

lemma cycle_keeps_pumps:
  assumes "endCycle R step now pump runS startDist peakDA h = (h', a)"
  shows "hs_u h' = hs_u h"
  using assms
proof (cases rule: endCycle_split)
  case (1 g dry g1 g2 b c)
  have "hs_u g1 = hs_u h" using 1(2,3) by (simp add: record_cycle_def)
  moreover have "hs_u g2 = hs_u g1" using 1(4) alarm_keeps_pumps by auto
  moreover have "hs_u h' = hs_u g2" using 1(5) by (auto elim!: report_cycle_cases)
  ultimately show ?thesis by simp
qed

lemma then_state: "fst (and_then r f) = fst (f (fst r))"
  by (simp add: and_then_def split: prod.splits)

lemma mains_state: "hu_mainsOK (hs_u (fst (mains_part R step now mains h))) = mains"
proof -
  have b: "hs_u (fst (battMV R step g)) = hs_u g" for g by (simp add: battMV_def)
  have r: "hs_u (fst (raiseAlarm R step now c v g)) = hs_u g" for c v g using alarm_keeps_pumps by (metis prod.collapse)
  show ?thesis using b r by (auto simp: mains_part_def Let_def case_prod_beta)
qed

lemma start_state: "hu_mainsOK (hs_u (primary_start R step h)) = hu_mainsOK (hs_u h)"
  by (simp add: primary_start_def Let_def distanceMM_def peakCurrentDA_def)

lemma primary_state:
  "hu_mainsOK (hs_u (fst (primary_run R step now h))) = hu_mainsOK (hs_u h)"
  "\<not> hu_mainsOK (hs_u h) \<Longrightarrow> \<not> hu_primaryOn (hs_u (fst (primary_run R step now h)))"
proof -
  obtain g run stop where g: "primary_pump step h = (g, run, stop)" using prod_cases3 by blast
  have pump: "hu_mainsOK (hs_u g) = hu_mainsOK (hs_u h)" "\<not> hu_mainsOK (hs_u h) \<longrightarrow> stop"
    using g by (auto simp: primary_pump_def Let_def split: prod.splits if_splits)
  have alarm: "hu_mainsOK (hs_u (fst (continuous_alarm R step now run x))) = hu_mainsOK (hs_u x)" for x
  proof -
    have "hs_u (fst (raiseAlarm R step now c v y)) = hs_u y" for c v y using alarm_keeps_pumps by (metis prod.collapse)
    then show ?thesis by (simp add: continuous_alarm_def)
  qed
  have cycle: "hs_u (fst (endCycle R step now pm rn sd pk x)) = hs_u x" for pm rn sd pk x using cycle_keeps_pumps by (metis prod.collapse)
  have stopped: "hs_u (fst (primary_stop R step now run x)) = (hs_u x)\<lparr>hu_primaryOn := False\<rparr>" for x
    using cycle by (simp add: primary_stop_def Let_def case_prod_beta check_valve_def)
  show "hu_mainsOK (hs_u (fst (primary_run R step now h))) = hu_mainsOK (hs_u h)"
    using pump(1) alarm stopped by (simp add: primary_run_def g then_state)
  show "\<not> hu_mainsOK (hs_u h) \<Longrightarrow> \<not> hu_primaryOn (hs_u (fst (primary_run R step now h)))"
    using pump(2) stopped by (simp add: primary_run_def g then_state)
qed

lemma later_state:
  "hu_primaryOn (hs_u (fst (backup_part R step now h))) = hu_primaryOn (hs_u h)"
  "hu_primaryOn (hs_u (fst (float_part R step now h))) = hu_primaryOn (hs_u h)"
  "hu_primaryOn (hs_u (fst (storm_part R step now h))) = hu_primaryOn (hs_u h)"
  "hu_primaryOn (hs_u (fst (heartbeat_part R step now h))) = hu_primaryOn (hs_u h)"
proof -
  have r: "hs_u (fst (raiseAlarm R step now c v x)) = hs_u x" for c v x using alarm_keeps_pumps by (metis prod.collapse)
  have cycle: "hs_u (fst (endCycle R step now pm rn sd pk x)) = hs_u x" for pm rn sd pk x using cycle_keeps_pumps by (metis prod.collapse)
  have start: "hu_primaryOn (hs_u (backup_start R step h)) = hu_primaryOn (hs_u h)"
    by (simp add: backup_start_def Let_def distanceMM_def)
  have run: "hu_primaryOn (hs_u (fst (backup_run R step now x))) = hu_primaryOn (hs_u x)" for x
    using cycle by (simp add: backup_run_def Let_def case_prod_beta set_vol_def)
  show "hu_primaryOn (hs_u (fst (backup_part R step now h))) = hu_primaryOn (hs_u h)" using start run by (simp add: backup_part_def)
  show "hu_primaryOn (hs_u (fst (float_part R step now h))) = hu_primaryOn (hs_u h)"
    using r by (simp add: float_part_def Let_def case_prod_beta distanceMM_def)
  obtain x a where x: "storm_part R step now h = (x, a)" by fastforce
  then show "hu_primaryOn (hs_u (fst (storm_part R step now h))) = hu_primaryOn (hs_u h)"
    by (auto simp: storm_part_def split: if_splits elim: summary_effect)
  obtain y c where y: "heartbeat_part R step now h = (y, c)" by fastforce
  then show "hu_primaryOn (hs_u (fst (heartbeat_part R step now h))) = hu_primaryOn (hs_u h)"
    by (auto elim: beat_cases)
qed

lemma step_without_mains: "\<not> hu_primaryOn (hs_u (fst (house_step R step now rainAt False h)))"
  unfolding house_step_def house_work_def then_state later_state
  by (rule primary_state(2)) (simp add: start_state mains_state)

text \<open>
  Without mains the primary pump stands still: after any second of a run in which mains is out, the primary pump is off, whatever
  the water, the health of the pump and the state it was in.
\<close>

theorem house_run_mains:
  assumes "\<not> mains (int n)"
  shows "\<not> hu_primaryOn (hs_u (fst (house_run R start rainAt mains (Suc n) h)))"
  using assms step_without_mains by (simp add: then_state)

section \<open>From the simulator to the store\<close>

definition DeviceKindRain :: string where "DeviceKindRain = ''rain''"

record identity =
  it_TenantID :: string
  it_TenantName :: string
  it_ApplicationID :: string
  it_ApplicationName :: string

definition DefaultIdentity :: identity where
  "DefaultIdentity = \<lparr>it_TenantID = ''52f14cd4-c6f1-4fbd-8f87-4025e1d49242'', it_TenantName = ''sumpnet'',
     it_ApplicationID = ''17c82e96-be03-4f38-aef3-f83d48582d97'', it_ApplicationName = ''sumpnet-sim''\<rparr>"

definition gatewayIDs :: "string \<times> string" where
  "gatewayIDs = (''a84041ffff1e0001'', ''a84041ffff1e0002'')"

text \<open>The frame of an emitted event; the code builds no event from a frame that does not encode.\<close>

definition event_frame :: "sim_event \<Rightarrow> uint8 \<times> byte list" where
  "event_frame e = (case sx_Frame e of Inr f \<Rightarrow> f | Inl _ \<Rightarrow> (0, []))"

text \<open>The integration event: what the bridge reads of it, and what other consumers do.\<close>

record chirp_event = uplink_event +
  cx_UplinkId :: uint32
  cx_Channel :: int
  cx_Identity :: identity
  cx_ProfileID :: string
  cx_Profile :: string
  cx_DeviceName :: string
  cx_Tags :: "string \<rightharpoonup> string"
  cx_DevAddr :: string
  cx_Adr :: bool
  cx_Dr :: uint32
  cx_Confirmed :: bool
  cx_Frequency :: int
  cx_Bandwidth :: int
  cx_Region :: string

text \<open>The device of the integration event: profile identifier, profile, name and tags.\<close>

definition chirp_device :: "sim_event \<Rightarrow> string \<Rightarrow> string \<times> string \<times> string \<times> (string \<rightharpoonup> string)" where
  "chirp_device e segmentID =
     (if sx_Kind e = DeviceKindRain
      then (''6f5b0f1e-0000-4000-8000-000000000002'', ''rain-gauge-node-v1'', sx_DeviceName e, [''sim'' \<mapsto> ''true'', ''kind'' \<mapsto> DeviceKindRain])
      else (''6f5b0f1e-0000-4000-8000-000000000001'', ''rak4631-house-node-v1'', ''sim-home-'' @ pad_zeros 2 (FormatInt (sx_HomeIndex e)),
            [''sim'' \<mapsto> ''true'', ''segment'' \<mapsto> segmentID]))"

definition ChirpStackEvent :: "identity \<Rightarrow> string \<Rightarrow> nat \<Rightarrow> sim_event \<Rightarrow> chirp_event" where
  "ChirpStackEvent ident segmentID seqno e =
    (let (profileID, profile, name, tags) = chirp_device e segmentID
     in
     \<lparr>ev_DevEui = sx_DevEUI e, ev_Time = Some (sx_Time e),
      ev_RxInfo = [\<lparr>rx_GwTime = None, rx_GatewayId = fst gatewayIDs, rx_Rssi = fst (sx_RSSI e), rx_Snr = fst (sx_SNR e)\<rparr>,
                   \<lparr>rx_GwTime = None, rx_GatewayId = snd gatewayIDs, rx_Rssi = snd (sx_RSSI e), rx_Snr = snd (sx_SNR e)\<rparr>],
      ev_FPort = ucast (fst (event_frame e)), ev_FCnt = sx_FCnt e, ev_Data = snd (event_frame e), ev_DeduplicationId = sx_DedupID e,
      ev_SpreadingFactor = ucast (sx_SF e), cx_UplinkId = of_nat (seqno mod 2 ^ 24), cx_Channel = (sx_FreqHz e - 902300000) div 200000,
      cx_Identity = ident, cx_ProfileID = profileID, cx_Profile = profile, cx_DeviceName = name, cx_Tags = tags, cx_DevAddr = sx_DevAddr e,
      cx_Adr = True, cx_Dr = ucast (sx_DR e), cx_Confirmed = sx_Confirmed e, cx_Frequency = sx_FreqHz e, cx_Bandwidth = 125000,
      cx_Region = ''us915_0''\<rparr>)"

text \<open>
  What a reader of the bridge gets from what a sink publishes, when the JSON of the event is read back: the fields it knows.
\<close>

definition event_read :: "identity \<Rightarrow> string \<Rightarrow> nat \<Rightarrow> sim_event \<Rightarrow> uplink_event" where
  "event_read ident segmentID seqno e = uplink_event.truncate (ChirpStackEvent ident segmentID seqno e)"

text \<open>The topic and the event a sink publishes for an emitted event.\<close>

definition sink_line :: "identity \<Rightarrow> string \<Rightarrow> nat \<Rightarrow> sim_event \<Rightarrow> string \<times> chirp_event" where
  "sink_line ident segmentID seqno e = (UplinkTopic (it_ApplicationID ident) (sx_DevEUI e), ChirpStackEvent ident segmentID seqno e)"

lemma event_read_sel [simp]:
  "ev_DevEui (event_read ident segmentID seqno e) = sx_DevEUI e" "ev_Time (event_read ident segmentID seqno e) = Some (sx_Time e)"
  "ev_FPort (event_read ident segmentID seqno e) = ucast (fst (event_frame e))" "ev_FCnt (event_read ident segmentID seqno e) = sx_FCnt e"
  "ev_Data (event_read ident segmentID seqno e) = snd (event_frame e)"
  by (simp_all add: event_read_def ChirpStackEvent_def uplink_event.truncate_def split: prod.splits)

lemma published_event_row:
  assumes ok: "valid_uplink (sx_Uplink e)" "sx_Frame e = Encode (sx_Uplink e)" "devEUI_ok (sx_DevEUI e)"
    and app: "CHR ''/'' \<notin> set (it_ApplicationID ident)" "it_ApplicationID ident \<noteq> ''''"
    and json: "unmarshalEvent payload = Some (event_read ident segmentID seqno e)" and future: "\<not> too_far s (sx_Time e)"
  shows "\<exists>d m. lora_Decode unmarshalEvent (fst (sink_line ident segmentID seqno e)) payload now = Inr d \<and> dc_TimeFallback d = False
    \<and> ingest_row s d = Some (Inr (wire_row (sx_DevEUI e) (sx_Time e) (sx_FCnt e) m (sx_Uplink e)))
    \<and> table_row_ok (wire_row (sx_DevEUI e) (sx_Time e) (sx_FCnt e) m (sx_Uplink e))"
proof -
  let ?ev = "event_read ident segmentID seqno e" and ?dev = "sx_DevEUI e"
  have low: "map to_lower ?dev = ?dev" by (rule lower_devEUI [OF ok(3)])
  obtain data where "MarshalBinary (sx_Uplink e) = Inr data" using ok(1) marshal_defined_uplink by blast
  then obtain port where f: "Encode (sx_Uplink e) = Inr (port, data)" by (simp add: Encode_def)
  have e: "Encode (sx_Uplink e) = Inr (port, ev_Data ?ev)" "ev_FPort ?ev = ucast port"
    using ok(2) f by (simp_all add: event_frame_def)
  note u = json
  have d: "devEUI_ok (map to_lower ?dev)" "map to_lower (ev_DevEui ?ev) = map to_lower ?dev" using ok(3) by (simp_all add: low)
  have t: "event_time ?ev now = (sx_Time e, False)" by (simp add: event_time_def)
  show ?thesis
  proof (rule lora_decoded [of "sx_Uplink e" port ?ev unmarshalEvent payload ?dev "it_ApplicationID ident" now "sx_Time e" False s, OF e u d app t future])
    fix meta m
    assume l: "lora_Decode unmarshalEvent (UplinkTopic (it_ApplicationID ident) ?dev) payload now = Inr ((FromUplink (sx_Uplink e) meta (sx_Time e))\<lparr>dc_TimeFallback := False\<rparr>)"
      and meta: "metaOf s (Some meta) = Inr (map to_lower ?dev, sx_Time e, m)" "um_FCnt meta = ev_FCnt ?ev"
    have "um_FCnt meta = sx_FCnt e" using meta(2) by simp
    then show ?thesis using l FromUplink_row [OF ok(1) meta(1) [unfolded low], of False] wire_row_ok [OF ok(1) meta(1) [unfolded low]]
      by (auto simp: sink_line_def)
  qed
qed

text \<open>
  C31: What a simulated house sends ends up in the store as it was sent. Every event of a run of a new home with a well-formed device
  name, published by a sink under an application name (not empty, without slashes) and decoded by the bridge, becomes the row of the very uplink the node
  sent, for its device, with its time and its frame counter; its numbers fit the columns and it passes the checks of its table. The conditions are
  that the bridge reads from the payload the event the sink wrote, and that the event is not too far in the future for the ingest service.
\<close>

theorem house_event_reaches_row:
  assumes "e \<in> set (snd (house_run R start rainAt mains n (newHome R index ident seg scn nSteps)))" and "devEUI_ok (id_devEUI ident)"
    and "CHR ''/'' \<notin> set (it_ApplicationID app)" "it_ApplicationID app \<noteq> ''''"
    and "unmarshalEvent payload = Some (event_read app segmentID seqno e)" and "\<not> too_far s (sx_Time e)"
  shows "\<exists>d m. lora_Decode unmarshalEvent (fst (sink_line app segmentID seqno e)) payload now = Inr d \<and> dc_TimeFallback d = False
    \<and> ingest_row s d = Some (Inr (wire_row (id_devEUI ident) (sx_Time e) (sx_FCnt e) m (sx_Uplink e)))
    \<and> table_row_ok (wire_row (id_devEUI ident) (sx_Time e) (sx_FCnt e) m (sx_Uplink e))"
proof -
  let ?h0 = "newHome R index ident seg scn nSteps"
  obtain h evs where run: "house_run R start rainAt mains n ?h0 = (h, evs)" by fastforce
  have "own_event (hs_p ?h0) e" using run_emits [OF run] assms(1) by (simp add: emits_def run)
  then have ok: "valid_uplink (sx_Uplink e)" "sx_Frame e = Encode (sx_Uplink e)" "sx_DevEUI e = id_devEUI ident"
    by (simp_all add: own_event_def newHome_start)
  have dev: "devEUI_ok (sx_DevEUI e)" using assms(2) ok(3) by simp
  show ?thesis using published_event_row [of e app unmarshalEvent payload segmentID seqno s now, OF ok(1,2) dev assms(3-6)] unfolding ok(3) .
qed

section \<open>Examples\<close>

definition demo_draws :: draws where
  "demo_draws = \<lparr>dr_int = (\<lambda>_. 0), dr_frac = (\<lambda>_. 0), dr_norm = (\<lambda>_. 0), dr_uuid = (\<lambda>_. '''')\<rparr>"

definition demo_ident :: home_identity where
  "demo_ident = \<lparr>id_homeID = ''h'', id_devEUI = ''70b3d57ed0000001'', id_devAddr = ''01a3b001'', id_stream = 2\<rparr>"

definition demo_house :: sim_house where
  "demo_house = newHome demo_draws 1 demo_ident (hd (buildSegments 1 1)) storm50 86400"

theorem house_run_mains_witness: "\<not> hu_primaryOn (hs_u (fst (house_run demo_draws 0 (\<lambda>_. 0) (\<lambda>s. s < 5) (Suc 7) demo_house)))"
  by (rule house_run_mains) simp

theorem house_event_reaches_row_witness:
  "\<exists>e d m. e \<in> set (snd (house_run demo_draws (900 * second) (\<lambda>_. 0) (\<lambda>_. True) 1 demo_house))
    \<and> lora_Decode (\<lambda>_. Some (event_read DefaultIdentity ''seg-01'' 0 e)) (fst (sink_line DefaultIdentity ''seg-01'' 0 e)) [] 0 = Inr d
    \<and> ingest_row demo_server d = Some (Inr (wire_row ''70b3d57ed0000001'' (900 * second) (sx_FCnt e) m (sx_Uplink e)))"
proof -
  obtain h evs where run: "house_run demo_draws (900 * second) (\<lambda>_. 0) (\<lambda>_. True) 1 demo_house = (h, evs)" by fastforce
  have "hn_nextHeartbeat (hs_n demo_house) = 0"
    by (simp add: demo_house_def newHome_def drawn_params_def Let_def IntN_def demo_draws_def go_div_def)
  then have "map sx_Time (filter is_beat evs) = [900 * second]" using run_beats [OF run] by (simp add: beat_seconds_def)
  then have "900 * second \<in> sx_Time ` set (filter is_beat evs)" by (metis list.set_intros(1) list.set_map)
  then obtain e where e: "e \<in> set evs" "sx_Time e = 900 * second" by auto
  have app: "CHR ''/'' \<notin> set (it_ApplicationID DefaultIdentity)" "it_ApplicationID DefaultIdentity \<noteq> ''''" by (simp_all add: DefaultIdentity_def)
  have dev: "devEUI_ok (id_devEUI demo_ident)" using demo_dev_ok by (simp add: demo_ident_def)
  have set: "e \<in> set (snd (house_run demo_draws (900 * second) (\<lambda>_. 0) (\<lambda>_. True) 1 (newHome demo_draws 1 demo_ident (hd (buildSegments 1 1)) storm50 86400)))"
    using e(1) run by (simp add: demo_house_def)
  have far: "\<not> too_far demo_server (sx_Time e)" using e(2) demo_not_far by simp
  from house_event_reaches_row [where unmarshalEvent = "\<lambda>_. Some (event_read DefaultIdentity ''seg-01'' 0 e)" and payload = "[]" and now = 0,
    OF set dev app refl far] show ?thesis
    using e run by (auto simp: demo_house_def demo_ident_def)
qed

end
