(* ===== verification/Sim_Gauge.thy ===== *)
theory Sim_Gauge
  imports Sim_Home Gauge
begin

text \<open>
  The simulated rain gauge of \<^verbatim>\<open>internal/sim/gauge.go\<close>: a tipping bucket fed with the rain of each minute, and a node that wakes every five
  minutes and transmits when the bucket tipped, or after fifteen minutes. What the gauge sends is traced to the rainfall the weather service
  derives from it.
\<close>

section \<open>The gauge\<close>

definition gaugeWakeS :: int where "gaugeWakeS = 300"
definition gaugeDryIntervalS :: int where "gaugeDryIntervalS = 900"
definition gaugeTipUM :: int where "gaugeTipUM = 200"
definition gaugeStream :: uint64 where "gaugeStream = 2 ^ 40"

record gauge_params =
  gp_Index :: nat
  gp_DevEUI :: string
  gp_DevAddr :: string
  gp_Name :: string
  gp_Location :: string
  gp_Lon :: real
  gp_Lat :: real
  gp_MMPerTipUM :: int
  gp_WakePhase :: duration
  gp_RSSIBase :: "int \<times> int"

record sim_gauge =
  sg_p :: gauge_params
  sg_rng :: nat
  sg_tipNM :: int
  sg_accNM :: int
  sg_tips :: uint32
  sg_lastTxStep :: int
  sg_lastTxTips :: uint32
  sg_nextWake :: int
  sg_booted :: bool
  sg_fcnt :: uint32
  sg_uplinks :: nat

definition gaugeLocations :: "string list" where
  "gaugeLocations = [''north end'', ''south end'']"

definition newGauge :: "draws \<Rightarrow> nat \<Rightarrow> sim_gauge" where
  "newGauge R index =
     (let loc = (if index < length gaugeLocations then gaugeLocations ! index else ''gauge '' @ format_nat (index + 1));
          p = \<lparr>gp_Index = index, gp_DevEUI = ''70b3d57ed1'' @ pad_zeros 6 (format_hex index), gp_DevAddr = ''01a3c'' @ pad_zeros 3 (format_hex index),
               gp_Name = ''sim-rain-'' @ pad_zeros 2 (format_nat (index + 1)), gp_Location = loc, gp_Lon = 0, gp_Lat = 0, gp_MMPerTipUM = gaugeTipUM,
               gp_WakePhase = (30 + IntN R 0 (gaugeWakeS - 30)) * second, gp_RSSIBase = (- 100 + IntN R 1 25, - 100 + IntN R 2 25)\<rparr>
      in \<lparr>sg_p = p, sg_rng = 3, sg_tipNM = gp_MMPerTipUM p * 1000, sg_accNM = 0, sg_tips = 0, sg_lastTxStep = 0, sg_lastTxTips = 0,
          sg_nextWake = go_div (gp_WakePhase p) second, sg_booted = False, sg_fcnt = 0, sg_uplinks = 0\<rparr>)"

text \<open>The rain of the minute that ends, in nanometres, falls into the bucket.\<close>

definition minute_nm :: "(int \<Rightarrow> real) \<Rightarrow> int \<Rightarrow> int" where
  "minute_nm rainAt m = go_int (math_round (rainAt m * 1000000 / 60))"

definition gauge_fill :: "int \<Rightarrow> (int \<Rightarrow> real) \<Rightarrow> sim_gauge \<Rightarrow> sim_gauge" where
  "gauge_fill step rainAt g =
     (if step mod 60 = 59
      then let acc = sg_accNM g + minute_nm rainAt (go_div step 60); n = go_div acc (sg_tipNM g)
           in if n > 0 then g\<lparr>sg_tips := sg_tips g + word_of_int n, sg_accNM := acc - n * sg_tipNM g\<rparr> else g\<lparr>sg_accNM := acc\<rparr>
      else g)"

definition gauge_tx :: "draws \<Rightarrow> instant \<Rightarrow> uplink \<Rightarrow> sim_gauge \<Rightarrow> sim_gauge \<times> sim_event" where
  "gauge_tx R t u g =
     (let p = sg_p g; fcnt = sg_fcnt g; i = sg_rng g;
          (rssi, snr, sf, dr) = radio R i (gp_RSSIBase p);
          ch = (uint fcnt + int (gp_Index p) + 3) mod 8
      in (g\<lparr>sg_fcnt := fcnt + 1, sg_uplinks := sg_uplinks g + 1, sg_rng := i + 4 + 16\<rparr>,
          \<lparr>sx_Time = t, sx_HomeIndex = - 1, sx_DevEUI = gp_DevEUI p, sx_DevAddr = gp_DevAddr p, sx_FCnt = fcnt,
           sx_Uplink = u, sx_Frame = Encode u, sx_Confirmed = False, sx_SF = sf, sx_DR = dr, sx_FreqHz = 902300000 + 200000 * ch,
           sx_RSSI = rssi, sx_SNR = snr, sx_DedupID = dr_uuid R (i + 4), sx_Kind = DeviceKindRain, sx_DeviceName = gp_Name p\<rparr>))"

definition gauge_wake :: "draws \<Rightarrow> int \<Rightarrow> instant \<Rightarrow> sim_gauge \<Rightarrow> sim_gauge \<times> sim_event list" where
  "gauge_wake R step now g =
     (if step < sg_nextWake g then (g, [])
      else let g = g\<lparr>sg_nextWake := sg_nextWake g + gaugeWakeS\<rparr>
           in if sg_booted g \<and> sg_tips g = sg_lastTxTips g \<and> step - sg_lastTxStep g < gaugeDryIntervalS then (g, [])
              else let rg = \<lparr>rg_TipCount = sg_tips g, rg_MMPerTipUM = word_of_int (gp_MMPerTipUM (sg_p g)),
                             rg_IntervalS = word_of_int (min (step - sg_lastTxStep g) 65535), rg_BattMV = word_of_int (3600 + IntN R (sg_rng g) 21 - 10),
                             rg_Flags = (if sg_booted g then 0 else RainCounterReset)\<rparr>;
                       (g, ev) = gauge_tx R now (RainGauge rg)
                         (g\<lparr>sg_rng := sg_rng g + 1, sg_booted := True, sg_lastTxStep := step, sg_lastTxTips := sg_tips g\<rparr>)
                   in (g, [ev]))"

definition gauge_step :: "draws \<Rightarrow> int \<Rightarrow> instant \<Rightarrow> (int \<Rightarrow> real) \<Rightarrow> sim_gauge \<Rightarrow> sim_gauge \<times> sim_event list" where
  "gauge_step R step now rainAt g = gauge_wake R step now (gauge_fill step rainAt g)"

record gauge_truth =
  gt_params :: gauge_params
  gt_Tips :: uint32
  gt_TotalMm :: real
  gt_Uplinks :: nat

definition truth_of_gauge :: "sim_gauge \<Rightarrow> gauge_truth" where
  "truth_of_gauge g = \<lparr>gt_params = sg_p g, gt_Tips = sg_tips g, gt_TotalMm = real_of_int (uint (sg_tips g)) * real_of_int (gp_MMPerTipUM (sg_p g)) / 1000,
     gt_Uplinks = sg_uplinks g\<rparr>"

text \<open>The first \<open>n\<close> seconds of a gauge.\<close>

fun gauge_run :: "draws \<Rightarrow> instant \<Rightarrow> (int \<Rightarrow> real) \<Rightarrow> nat \<Rightarrow> sim_gauge \<Rightarrow> sim_gauge \<times> sim_event list" where
  "gauge_run R start rainAt 0 g = (g, [])"
| "gauge_run R start rainAt (Suc n) g =
     (let (g, a) = gauge_run R start rainAt n g; (g, b) = gauge_step R (int n) (start + int n * second) rainAt g in (g, a @ b))"

section \<open>No rain is lost in the bucket\<close>

definition fallen_nm :: "(int \<Rightarrow> real) \<Rightarrow> nat \<Rightarrow> int" where
  "fallen_nm rainAt n = (\<Sum>m < n div 60. minute_nm rainAt (int m))"

lemma minute_nm_nonneg: "0 \<le> rainAt m \<Longrightarrow> 0 \<le> minute_nm rainAt m"
  by (simp add: minute_nm_def go_int_def math_round_def)

lemma fallen_step: "fallen_nm rainAt (Suc n) = fallen_nm rainAt n + (if n mod 60 = 59 then minute_nm rainAt (int (n div 60)) else 0)"
proof -
  have "Suc n div 60 = (if n mod 60 = 59 then Suc (n div 60) else n div 60)" unfolding div_Suc mod_Suc by simp
  then show ?thesis by (simp add: fallen_nm_def)
qed

lemma fallen_mono: "(\<And>m. 0 \<le> rainAt m) \<Longrightarrow> n \<le> n' \<Longrightarrow> fallen_nm rainAt n \<le> fallen_nm rainAt n'"
  unfolding fallen_nm_def by (intro sum_mono2) (auto simp: minute_nm_nonneg div_le_mono intro: order_less_le_trans)

text \<open>The bucket: tips and what has not tipped make up what fell.\<close>

definition bucket_inv :: "(int \<Rightarrow> real) \<Rightarrow> nat \<Rightarrow> sim_gauge \<Rightarrow> bool" where
  "bucket_inv rainAt n g \<longleftrightarrow> gp_MMPerTipUM (sg_p g) = 200 \<and> sg_tipNM g = 200000 \<and> 0 \<le> sg_accNM g \<and> sg_accNM g < 200000
     \<and> uint (sg_tips g) * 200000 + sg_accNM g = fallen_nm rainAt n"

lemma uint_add_word_of_int:
  assumes "0 \<le> k" "uint (w :: uint32) + k < 2 ^ 32"
  shows "uint (w + word_of_int k) = uint w + k"
proof -
  have "uint (w + word_of_int k) = uint (word_of_int (uint w + k) :: uint32)" by (simp only: of_int_add word_of_int_uint)
  also have "\<dots> = uint w + k" unfolding uint_word_of_int using assms by simp
  finally show ?thesis .
qed

lemma fill_bucket:
  assumes inv: "bucket_inv rainAt n g" and rain: "\<And>m. 0 \<le> rainAt m" and small: "fallen_nm rainAt (Suc n) < 2 ^ 32 * 200000"
  shows "bucket_inv rainAt (Suc n) (gauge_fill (int n) rainAt g)" "uint (sg_tips g) \<le> uint (sg_tips (gauge_fill (int n) rainAt g))"
proof -
  have imod: "int n mod 60 = int (n mod 60)" by (simp add: zmod_int)
  have "bucket_inv rainAt (Suc n) (gauge_fill (int n) rainAt g) \<and> uint (sg_tips g) \<le> uint (sg_tips (gauge_fill (int n) rainAt g))"
  proof (cases "n mod 60 = 59")
    case False
    then have "int n mod 60 \<noteq> 59" unfolding imod by linarith
    then show ?thesis using inv False by (simp add: gauge_fill_def bucket_inv_def fallen_step)
  next
    case True
    then have mod: "int n mod 60 = 59" unfolding imod by simp
    have quot: "go_div (int n) 60 = int (n div 60)" by (simp add: go_div_def zdiv_int)
    define acc where "acc = sg_accNM g + minute_nm rainAt (int (n div 60))"
    have acc: "0 \<le> acc" using inv minute_nm_nonneg [OF rain] by (simp add: acc_def bucket_inv_def)
    define k where "k = acc div 200000"
    define r where "r = acc mod 200000"
    have k: "0 \<le> k" "acc = k * 200000 + r" and r: "0 \<le> r" "r < 200000" using acc by (simp_all add: k_def r_def)
    have tot: "uint (sg_tips g) * 200000 + acc = fallen_nm rainAt (Suc n)" using inv True by (simp add: bucket_inv_def fallen_step acc_def)
    have "(uint (sg_tips g) + k) * 200000 < 2 ^ 32 * 200000" using tot k(2) r small by (simp add: distrib_right)
    then have word: "uint (sg_tips g + word_of_int k) = uint (sg_tips g) + k" using k(1) by (intro uint_add_word_of_int) simp_all
    have g: "sg_tipNM g = 200000" "gp_MMPerTipUM (sg_p g) = 200" using inv by (simp_all add: bucket_inv_def)
    have fill: "gauge_fill (int n) rainAt g = (if k > 0 then g\<lparr>sg_tips := sg_tips g + word_of_int k, sg_accNM := acc - k * 200000\<rparr> else g\<lparr>sg_accNM := acc\<rparr>)"
    proof -
      have "go_div acc 200000 = k" using acc by (simp add: go_div_def k_def)
      then show ?thesis unfolding gauge_fill_def mod quot g Let_def acc_def [symmetric] by simp
    qed
    show ?thesis
    proof (cases "k > 0")
      case True
      then show ?thesis using tot k r word g by (simp add: fill bucket_inv_def algebra_simps)
    next
      case False
      then have "k = 0" using k(1) by simp
      then show ?thesis using tot k r g acc by (simp add: fill bucket_inv_def)
    qed
  qed
  then show "bucket_inv rainAt (Suc n) (gauge_fill (int n) rainAt g)" "uint (sg_tips g) \<le> uint (sg_tips (gauge_fill (int n) rainAt g))" by blast+
qed

section \<open>What the gauge tells\<close>

text \<open>The reading the weather service takes from a frame of the gauge.\<close>

definition told_rain :: "sim_event \<Rightarrow> gauge_uplink" where
  "told_rain e = (case sx_Uplink e of
     RainGauge v \<Rightarrow> \<lparr>gu_At = sx_Time e, gu_FCnt = uint (sx_FCnt e), gu_TipCount = uint (rg_TipCount v), gu_MMPerTip = real_of_int (uint (rg_MMPerTipUM v)) / 1000,
       gu_IntervalS = uint (rg_IntervalS v), gu_CounterReset = bit (rg_Flags v) 0, gu_SensorFault = bit (rg_Flags v) 1\<rparr>
   | _ \<Rightarrow> \<lparr>gu_At = sx_Time e, gu_FCnt = 0, gu_TipCount = 0, gu_MMPerTip = 0, gu_IntervalS = 0, gu_CounterReset = False, gu_SensorFault = False\<rparr>)"

definition boot_reading :: "gauge_uplink \<Rightarrow> bool" where
  "boot_reading u \<longleftrightarrow> gu_CounterReset u \<and> \<not> gu_SensorFault u \<and> gu_MMPerTip u = 1 / 5 \<and> second \<le> gu_IntervalS u * second"

definition rain_chain :: "gauge_uplink list \<Rightarrow> bool" where
  "rain_chain us \<longleftrightarrow> sorted_wrt (gauge_next (1 / 5)) us \<and> (case us of [] \<Rightarrow> True | u # _ \<Rightarrow> boot_reading u)"

lemma rain_chain_total:
  assumes "rain_chain us" "us \<noteq> []"
  shows "total_mm (DeriveGaugeRainfall None us) = real_of_int (gu_TipCount (last us)) / 5"
proof -
  obtain u ups where us: "us = u # ups" using assms(2) by (cases us) auto
  have "total_mm (deriveOne None u) = real_of_int (gu_TipCount u) / 5"
    using assms(1) by (auto simp: us rain_chain_def boot_reading_def deriveOne_def baseline_def total_mm_def Let_def)
  moreover have "total_mm (DeriveGaugeRainfall (Some u) ups) = real_of_int (gu_TipCount (last us) - gu_TipCount u) * (1 / 5)"
    using derive_total [of "1 / 5" u ups] assms(1) by (simp add: us rain_chain_def)
  ultimately show ?thesis by (simp add: us total_mm_def)
qed

text \<open>
  The node after \<open>n\<close> seconds with the readings it sent: it wakes next no earlier than now, it has booted exactly when it sent something, and
  its readings form a chain that ends with the time and the count of its last transmission.
\<close>

definition node_inv :: "instant \<Rightarrow> nat \<Rightarrow> sim_gauge \<Rightarrow> gauge_uplink list \<Rightarrow> bool" where
  "node_inv start n g us \<longleftrightarrow> int n \<le> sg_nextWake g \<and> rain_chain us \<and> (sg_booted g \<longleftrightarrow> us \<noteq> []) \<and> uint (sg_lastTxTips g) \<le> uint (sg_tips g)
     \<and> 0 \<le> sg_lastTxStep g
     \<and> (if us = [] then sg_lastTxStep g = 0 \<and> sg_lastTxTips g = 0 \<and> 30 \<le> sg_nextWake g \<and> sg_nextWake g < 300
        else sg_lastTxStep g < int n \<and> gu_TipCount (last us) = uint (sg_lastTxTips g)
          \<and> (sg_nextWake g - sg_lastTxStep g) mod 300 = 0 \<and> sg_nextWake g - sg_lastTxStep g \<le> 900
          \<and> (\<forall>u \<in> set us. gu_TipCount u \<le> uint (sg_lastTxTips g) \<and> gu_At u \<le> start + sg_lastTxStep g * second))"

lemma wake_cases:
  assumes "gauge_wake R step now g = (g', a)"
  obtains (asleep) "step < sg_nextWake g" "g' = g" "a = []"
  | (silent) "\<not> step < sg_nextWake g" "sg_booted g" "sg_tips g = sg_lastTxTips g" "step - sg_lastTxStep g < 900" "g' = g\<lparr>sg_nextWake := sg_nextWake g + 300\<rparr>" "a = []"
  | (sent) e v where "\<not> step < sg_nextWake g" "a = [e]" "sx_Uplink e = RainGauge v" "sx_Time e = now" "rg_TipCount v = sg_tips g"
      "rg_MMPerTipUM v = word_of_int (gp_MMPerTipUM (sg_p g))" "rg_IntervalS v = word_of_int (min (step - sg_lastTxStep g) 65535)"
      "rg_Flags v = (if sg_booted g then 0 else RainCounterReset)" "sg_p g' = sg_p g" "sg_tipNM g' = sg_tipNM g" "sg_accNM g' = sg_accNM g" "sg_tips g' = sg_tips g"
      "sg_nextWake g' = sg_nextWake g + 300" "sg_booted g'" "sg_lastTxStep g' = step" "sg_lastTxTips g' = sg_tips g" "sx_Frame e = Encode (sx_Uplink e)"
      "sx_FCnt e = sg_fcnt g" "sg_fcnt g' = sg_fcnt g + 1" "sx_DevEUI e = gp_DevEUI (sg_p g)"
proof (cases "step < sg_nextWake g")
  case True
  then have "g' = g" "a = []" using assms by (simp_all add: gauge_wake_def)
  then show ?thesis by (rule asleep [OF True])
next
  case awake: False
  show ?thesis
  proof (cases "sg_booted g \<and> sg_tips g = sg_lastTxTips g \<and> step - sg_lastTxStep g < gaugeDryIntervalS")
    case True
    then have "g' = g\<lparr>sg_nextWake := sg_nextWake g + 300\<rparr>" "a = []"
      using assms awake by (simp_all add: gauge_wake_def Let_def gaugeWakeS_def)
    moreover have "sg_booted g" "sg_tips g = sg_lastTxTips g" "step - sg_lastTxStep g < 900" using True by (simp_all add: gaugeDryIntervalS_def)
    ultimately show ?thesis by (intro silent [OF awake])
  next
    case False
    define v where "v = \<lparr>rg_TipCount = sg_tips g, rg_MMPerTipUM = word_of_int (gp_MMPerTipUM (sg_p g)), rg_IntervalS = word_of_int (min (step - sg_lastTxStep g) 65535),
      rg_BattMV = word_of_int (3600 + IntN R (sg_rng g) 21 - 10), rg_Flags = (if sg_booted g then 0 else RainCounterReset)\<rparr>"
    define f where "f = g\<lparr>sg_nextWake := sg_nextWake g + gaugeWakeS, sg_rng := sg_rng g + 1, sg_booted := True, sg_lastTxStep := step, sg_lastTxTips := sg_tips g\<rparr>"
    obtain x e where tx: "gauge_tx R now (RainGauge v) f = (x, e)" by fastforce
    have "gauge_wake R step now g = (x, [e])"
      using awake False tx by (auto simp: gauge_wake_def Let_def v_def f_def)
    then have eq: "g' = x" "a = [e]" using assms by simp_all
    have x: "x = f\<lparr>sg_fcnt := sg_fcnt f + 1, sg_uplinks := sg_uplinks f + 1, sg_rng := sg_rng f + 4 + 16\<rparr>" "sx_Uplink e = RainGauge v" "sx_Time e = now"
      "sx_Frame e = Encode (RainGauge v)" "sx_FCnt e = sg_fcnt f" "sx_DevEUI e = gp_DevEUI (sg_p f)"
      using tx by (auto simp: gauge_tx_def Let_def split: prod.splits)
    show ?thesis by (rule sent [OF awake eq(2), of v]) (simp_all add: eq(1) x, simp_all add: v_def f_def gaugeWakeS_def)
  qed
qed

lemma sent_reading:
  assumes "sx_Uplink e = RainGauge v" "sx_Time e = now" "rg_TipCount v = sg_tips g" "rg_MMPerTipUM v = word_of_int 200"
    "rg_IntervalS v = word_of_int (min s 65535)" "rg_Flags v = (if sg_booted g then 0 else RainCounterReset)" "0 \<le> s"
  shows "gu_At (told_rain e) = now" "gu_TipCount (told_rain e) = uint (sg_tips g)" "gu_MMPerTip (told_rain e) = 1 / 5" "gu_IntervalS (told_rain e) = min s 65535"
    "gu_CounterReset (told_rain e) = (\<not> sg_booted g)" "\<not> gu_SensorFault (told_rain e)"
proof -
  have "uint (word_of_int (min s 65535) :: uint16) = min s 65535" using assms(7) by (simp add: uint_word_of_int)
  moreover have "bit RainCounterReset 0" "\<not> bit RainCounterReset 1" by (simp_all add: RainCounterReset_def)
  moreover have "uint (word_of_int 200 :: uint16) = 200" by simp
  ultimately show "gu_At (told_rain e) = now" "gu_TipCount (told_rain e) = uint (sg_tips g)" "gu_MMPerTip (told_rain e) = 1 / 5" "gu_IntervalS (told_rain e) = min s 65535"
    "gu_CounterReset (told_rain e) = (\<not> sg_booted g)" "\<not> gu_SensorFault (told_rain e)"
    using assms by (simp_all add: told_rain_def)
qed

lemma wake_node:
  assumes inv: "node_inv start n g us" and wake: "gauge_wake R (int n) (start + int n * second) g = (g', a)" and per: "gp_MMPerTipUM (sg_p g) = 200"
  shows "node_inv start (Suc n) g' (us @ map told_rain a)"
  using wake
proof (cases rule: wake_cases)
  case asleep
  then show ?thesis using inv by (auto simp: node_inv_def)
next
  case silent
  have eq: "sg_nextWake g = int n" "us \<noteq> []" using inv silent(1,2) by (auto simp: node_inv_def)
  have m: "(int n - sg_lastTxStep g) mod 300 = 0" "int n - sg_lastTxStep g < 900" using inv eq silent(4) by (auto simp: node_inv_def)
  have "d mod 300 = 0 \<Longrightarrow> d < 900 \<Longrightarrow> (d + 300) mod 300 = 0 \<and> d + 300 \<le> 900" for d :: int by presburger
  from this [OF m] have "(int n + 300 - sg_lastTxStep g) mod 300 = 0" "int n + 300 - sg_lastTxStep g \<le> 900" by (simp_all add: algebra_simps)
  then show ?thesis using inv eq by (simp add: node_inv_def silent(5,6))
next
  case (sent e v)
  have eq: "sg_nextWake g = int n" using inv sent(1) by (auto simp: node_inv_def)
  have ge: "0 \<le> int n - sg_lastTxStep g" using inv by (auto simp: node_inv_def split: if_splits)
  note r = sent_reading [OF sent(3,4,5) sent(6) [unfolded per] sent(7,8) ge]
  have chain: "rain_chain (us @ [told_rain e])"
  proof (cases "us = []")
    case True
    then have "sg_lastTxStep g = 0" "30 \<le> int n" "int n < 300" "\<not> sg_booted g" using inv eq by (auto simp: node_inv_def)
    then show ?thesis using True r by (simp add: rain_chain_def boot_reading_def go_time)
  next
    case False
    have "gauge_next (1 / 5) u (told_rain e)" if "u \<in> set us" for u
    proof -
      have "gu_TipCount u \<le> uint (sg_tips g)" "gu_At u \<le> start + sg_lastTxStep g * second" "sg_lastTxStep g < int n" "sg_booted g"
        using inv that False by (auto simp: node_inv_def)
      moreover have "(sg_lastTxStep g + 1) * second \<le> int n * second" using \<open>sg_lastTxStep g < int n\<close> by (intro mult_right_mono) (simp_all add: go_time)
      ultimately show ?thesis using r by (simp add: gauge_next_def distrib_right)
    qed
    then show ?thesis using inv False by (auto simp: rain_chain_def node_inv_def sorted_wrt_append split: list.splits)
  qed
  have old: "gu_TipCount u \<le> uint (sg_tips g) \<and> gu_At u \<le> start + int n * second" if "u \<in> set us" for u
  proof -
    have u: "gu_TipCount u \<le> uint (sg_lastTxTips g)" "uint (sg_lastTxTips g) \<le> uint (sg_tips g)" "gu_At u \<le> start + sg_lastTxStep g * second" "sg_lastTxStep g < int n"
      using inv that by (auto simp: node_inv_def split: if_splits)
    moreover have "sg_lastTxStep g * second \<le> int n * second" using u(4) by (intro mult_right_mono) (simp_all add: go_time)
    ultimately show ?thesis by linarith
  qed
  show ?thesis using chain old r sent(12-16) eq by (auto simp: node_inv_def sent(2))
qed

lemma run_gauge:
  assumes "gauge_run R start rainAt n (newGauge R index) = (g, evs)" and "\<And>m. 0 \<le> rainAt m" and "fallen_nm rainAt n < 2 ^ 32 * 200000"
  shows "bucket_inv rainAt n g \<and> node_inv start n g (map told_rain evs)"
  using assms(1,3)
proof (induction n arbitrary: g evs)
  case 0
  have "0 \<le> IntN R 0 270" "IntN R 0 270 < 270" by (simp_all add: IntN_def)
  then show ?case using 0
    by (auto simp: newGauge_def Let_def gaugeTipUM_def gaugeWakeS_def bucket_inv_def fallen_nm_def node_inv_def rain_chain_def go_div_def go_time)
next
  case (Suc n)
  obtain f a b where f: "gauge_run R start rainAt n (newGauge R index) = (f, a)"
    "gauge_wake R (int n) (start + int n * second) (gauge_fill (int n) rainAt f) = (g, b)" "evs = a @ b"
    using Suc.prems(1) by (auto simp: Let_def gauge_step_def split: prod.splits)
  have "fallen_nm rainAt n \<le> fallen_nm rainAt (Suc n)" by (rule fallen_mono [OF assms(2)]) simp
  then have small: "fallen_nm rainAt n < 2 ^ 32 * 200000" using Suc.prems(2) by linarith
  note ih = Suc.IH [OF f(1) small]
  let ?f = "gauge_fill (int n) rainAt f"
  have fill: "bucket_inv rainAt (Suc n) ?f" "uint (sg_tips f) \<le> uint (sg_tips ?f)"
    using fill_bucket [OF _ assms(2) Suc.prems(2)] ih by blast+
  have "sg_nextWake ?f = sg_nextWake f" "sg_booted ?f = sg_booted f" "sg_lastTxTips ?f = sg_lastTxTips f" "sg_lastTxStep ?f = sg_lastTxStep f"
    by (simp_all add: gauge_fill_def Let_def)
  then have "node_inv start n ?f (map told_rain a)" using ih fill(2) by (auto simp: node_inv_def)
  moreover have "gp_MMPerTipUM (sg_p ?f) = 200" using fill(1) by (simp add: bucket_inv_def)
  ultimately have "node_inv start (Suc n) g (map told_rain a @ map told_rain b)" using wake_node f(2) by blast
  moreover have "bucket_inv rainAt (Suc n) g" using f(2) by (cases rule: wake_cases) (use fill(1) in \<open>auto simp: bucket_inv_def\<close>)
  ultimately show ?case using f(3) by simp
qed

text \<open>
  C34: Rain is traced from the sky to the rainfall table. For any run of a new gauge of at least five minutes, over rain that is not negative and
  does not wrap the counter, the rainfall the weather service derives from the frames the gauge sent, with the tips not sent yet, is what fell by the last full minute up
  to less than one tip of 0.2 mm; and since a silent gauge transmits after fifteen minutes, the last frame is never older.
\<close>

theorem gauge_rain_traced:
  assumes "gauge_run R start rainAt n (newGauge R index) = (g, evs)" and "\<And>m. 0 \<le> rainAt m" and "fallen_nm rainAt n < 2 ^ 32 * 200000" and "300 \<le> n"
  shows "let derived = total_mm (DeriveGaugeRainfall None (map told_rain evs));
             unsent = real_of_int (uint (sg_tips g) - uint (sg_lastTxTips g)) / 5;
             fallen = real_of_int (fallen_nm rainAt n) / 1000000
         in 0 \<le> unsent \<and> derived + unsent \<le> fallen \<and> fallen < derived + unsent + 1 / 5 \<and> int n - sg_lastTxStep g \<le> 900"
proof -
  have inv: "bucket_inv rainAt n g" "node_inv start n g (map told_rain evs)" using run_gauge [OF assms(1-3)] by blast+
  have ne: "evs \<noteq> []" using inv(2) assms(4) by (auto simp: node_inv_def split: if_splits)
  have "total_mm (DeriveGaugeRainfall None (map told_rain evs)) = real_of_int (uint (sg_lastTxTips g)) / 5"
    using rain_chain_total [of "map told_rain evs"] inv(2) ne by (simp add: node_inv_def)
  moreover have "real_of_int (fallen_nm rainAt n) / 1000000 = real_of_int (uint (sg_tips g)) / 5 + real_of_int (sg_accNM g) / 1000000"
  proof -
    have "real_of_int (fallen_nm rainAt n) = real_of_int (uint (sg_tips g)) * 200000 + real_of_int (sg_accNM g)"
      using inv(1) by (metis bucket_inv_def of_int_add of_int_mult of_int_numeral)
    then show ?thesis by simp
  qed
  moreover have "0 \<le> real_of_int (sg_accNM g)" "real_of_int (sg_accNM g) < 200000" using inv(1) by (simp_all add: bucket_inv_def)
  moreover have "real_of_int (uint (sg_lastTxTips g)) \<le> real_of_int (uint (sg_tips g))" "int n - sg_lastTxStep g \<le> 900"
    using inv(2) ne unfolding of_int_le_iff by (auto simp: node_inv_def)
  ultimately show ?thesis unfolding Let_def of_int_diff diff_divide_distrib by (intro conjI; linarith)
qed

text \<open>
  Gauge frames are sound as well: they encode, and their counters are consecutive.
\<close>

lemma wake_frames:
  assumes "gauge_wake R step now g = (g', a)" "gp_MMPerTipUM (sg_p g) = 200"
  shows "map sx_FCnt a = map (\<lambda>i. sg_fcnt g + of_nat i) [0..<length a] \<and> sg_fcnt g' = sg_fcnt g + of_nat (length a)
    \<and> list_all (\<lambda>e. valid_uplink (sx_Uplink e) \<and> sx_Frame e = Encode (sx_Uplink e) \<and> sx_DevEUI e = gp_DevEUI (sg_p g)) a \<and> sg_p g' = sg_p g"
  using assms(1)
proof (cases rule: wake_cases)
  case (sent e v)
  have "valid_rain v" using sent(6,8) assms(2) by (simp add: valid_rain_def flag_defs)
  then show ?thesis using sent by simp
qed simp_all

lemma run_gauge_frames:
  "gauge_run R start rainAt n g = (g', evs) \<Longrightarrow> gp_MMPerTipUM (sg_p g) = 200 \<Longrightarrow>
     map sx_FCnt evs = map (\<lambda>i. sg_fcnt g + of_nat i) [0..<length evs] \<and> sg_fcnt g' = sg_fcnt g + of_nat (length evs) \<and> sg_p g' = sg_p g
     \<and> list_all (\<lambda>e. valid_uplink (sx_Uplink e) \<and> sx_Frame e = Encode (sx_Uplink e) \<and> sx_DevEUI e = gp_DevEUI (sg_p g)) evs"
proof (induction n arbitrary: g' evs)
  case (Suc n)
  obtain f a b where f: "gauge_run R start rainAt n g = (f, a)"
    "gauge_wake R (int n) (start + int n * second) (gauge_fill (int n) rainAt f) = (g', b)" "evs = a @ b"
    using Suc.prems(1) by (auto simp: Let_def gauge_step_def split: prod.splits)
  note ih = Suc.IH [OF f(1) Suc.prems(2)]
  have fill: "sg_p (gauge_fill (int n) rainAt f) = sg_p f" "sg_fcnt (gauge_fill (int n) rainAt f) = sg_fcnt f" by (simp_all add: gauge_fill_def Let_def)
  have "map (\<lambda>i. sg_fcnt g + of_nat i) [0..<length (a @ b)] = map (\<lambda>i. sg_fcnt g + of_nat i) [0..<length a] @ map (\<lambda>i. sg_fcnt f + of_nat i) [0..<length b]"
  proof -
    have "[0..<length (a @ b)] = [0..<length a] @ map (\<lambda>i. i + length a) [0..<length b]" by (simp add: upt_add_eq_append [of 0] map_add_upt add.commute)
    then show ?thesis using ih by (simp add: add.assoc add.commute [of "of_nat _ :: uint32" "of_nat (length a)"])
  qed
  then show ?case using wake_frames [OF f(2)] ih Suc.prems(2) fill by (simp add: f(3) add.assoc)
qed simp

section \<open>Example\<close>

theorem gauge_rain_traced_witness:
  "case gauge_run demo_draws 0 (\<lambda>_. 30) 300 (newGauge demo_draws 0) of (g, evs) \<Rightarrow>
     let known = total_mm (DeriveGaugeRainfall None (map told_rain evs)) + real_of_int (uint (sg_tips g) - uint (sg_lastTxTips g)) / 5
     in known \<le> 5 / 2 \<and> 5 / 2 < known + 1 / 5"
proof -
  obtain g evs where run: "gauge_run demo_draws 0 (\<lambda>_. 30) 300 (newGauge demo_draws 0) = (g, evs)" by fastforce
  have nm: "minute_nm (\<lambda>_. 30) m = 500000" for m by (simp add: minute_nm_def math_round_def go_int_def)
  then have fallen: "fallen_nm (\<lambda>_. 30) 300 = 2500000" by (simp add: fallen_nm_def)
  show ?thesis using gauge_rain_traced [OF run] fallen by (simp add: run Let_def)
qed

end
