(* ===== verification/Sim_Engine.thy ===== *)
theory Sim_Engine
  imports Sim_Gauge
begin

text \<open>
  The engine of the simulator (\<^verbatim>\<open>internal/sim/engine.go\<close>, \<^verbatim>\<open>truth.go\<close>, \<^verbatim>\<open>sink.go\<close>): checking a configuration and building the neighbourhood,
  the loop over virtual seconds that steps every home and gauge and publishes what they send, and the truth of a run. A random generator is
  given by its stream, the sink by its answer to each event, cancellation and pacing by the seconds at which they stop the run.
\<close>

section \<open>Building the neighbourhood\<close>

record sim_config =
  sk_Start :: instant
  sk_Homes :: int
  sk_Segments :: int
  sk_Scenario :: "scenario option"
  sk_Identity :: "identity option"
  sk_Duration :: duration
  sk_RainGauges :: int
  sk_Site :: "site option"

text \<open>A slot of the list of homes is empty until its home is built.\<close>

type_synonym slot = "(segment_params \<times> sim_house) option"

record engine =
  en_scn :: scenario
  en_identity :: identity
  en_duration :: duration
  en_segments :: "segment_params list"
  en_homes :: "slot list"
  en_gauges :: "sim_gauge list"
  en_rain :: "real list"
  en_seq :: nat
  en_events :: nat

definition outside_segment :: "nat \<Rightarrow> outage list \<Rightarrow> int option" where
  "outside_segment n os = find (\<lambda>si. si < 0 \<or> si \<ge> int n) (concat (map ou_SegmentIndexes os))"

definition check_config :: "sim_config \<Rightarrow> sim_error option" where
  "check_config cfg =
     (case sk_Scenario cfg of None \<Rightarrow> Some NoScenario
      | Some scn \<Rightarrow> (case scenario_validate scn of Some e \<Rightarrow> Some e
      | None \<Rightarrow> (case (case sk_Site cfg of
           Some s \<Rightarrow> (case site_validate s of Some e \<Rightarrow> Some e
             | None \<Rightarrow> if sk_Homes cfg \<noteq> 0 \<or> sk_Segments cfg \<noteq> 0 then Some SiteWithCounts
                       else if sc_HealthOverrides scn \<noteq> Map.empty then Some SitePinsHealth
                       else map_option OutageOutside (outside_segment (length (si_Segments s)) (sc_Outages scn)))
         | None \<Rightarrow> if sk_Homes cfg \<le> 0 \<or> sk_Segments cfg \<le> 0 \<or> sk_Segments cfg > sk_Homes cfg then Some BadCounts else None)
         of Some e \<Rightarrow> Some e
      | None \<Rightarrow> if sk_RainGauges cfg < 0 then Some BadGauges
               else if is_zero (sk_Start cfg) then Some NoStart else None)))"

text \<open>The loop over the homes of the segments, filling the slots.\<close>

definition place_homes :: "(nat \<Rightarrow> segment_params \<Rightarrow> sim_house) \<Rightarrow> segment_params list \<Rightarrow> slot list \<Rightarrow> slot list" where
  "place_homes mk segs slots = foldl (\<lambda>xs seg. foldl (\<lambda>xs i. xs[i := Some (seg, mk i seg)]) xs (sp_HomeIndexes seg)) slots segs"

definition make_home :: "(uint64 \<Rightarrow> draws) \<Rightarrow> (nat \<Rightarrow> home_identity) \<Rightarrow> scenario \<Rightarrow> int \<Rightarrow> nat \<Rightarrow> segment_params \<Rightarrow> sim_house" where
  "make_home rng ident scn nSteps i seg = newHome (rng (id_stream (ident i))) i (ident i) seg scn nSteps"

definition make_gauge :: "(uint64 \<Rightarrow> draws) \<Rightarrow> site option \<Rightarrow> nat \<Rightarrow> sim_gauge" where
  "make_gauge rng st i =
     (let g = newGauge (rng (gaugeStream + of_nat i)) i
      in case st of None \<Rightarrow> g
         | Some s \<Rightarrow> (let (loc, lon, lat) = siteGaugePlacement s i in g\<lparr>sg_p := (sg_p g)\<lparr>gp_Location := loc, gp_Lon := lon, gp_Lat := lat\<rparr>\<rparr>))"

definition engine_identity :: "(string \<Rightarrow> string) \<Rightarrow> nat \<Rightarrow> site option \<Rightarrow> nat \<Rightarrow> home_identity" where
  "engine_identity newSHA1 seed st i = (case st of None \<Rightarrow> syntheticIdentity newSHA1 i seed | Some s \<Rightarrow> siteIdentity (si_Homes s ! i))"

definition engine_New :: "(uint64 \<Rightarrow> draws) \<Rightarrow> (string \<Rightarrow> string) \<Rightarrow> nat \<Rightarrow> sim_config \<Rightarrow> sim_error + engine" where
  "engine_New rng newSHA1 seed cfg =
     (case check_config cfg of Some e \<Rightarrow> Inl e
      | None \<Rightarrow>
        (let scn = the (sk_Scenario cfg);
             duration = (if sk_Duration cfg > 0 then sk_Duration cfg else sc_Duration scn);
             nSteps = go_div duration second;
             rain = (if sc_RainMinutes scn \<noteq> [] then minuteSeries (rng 0) (sc_RainMinutes scn) duration (sc_RainJitter scn)
                     else rainSeries (rng 0) (sc_Rain scn) duration (sc_RainJitter scn));
             (segs, nHomes) = (case sk_Site cfg of Some s \<Rightarrow> (siteSegments s, length (si_Homes s))
                               | None \<Rightarrow> (buildSegments (nat (sk_Homes cfg)) (nat (sk_Segments cfg)), nat (sk_Homes cfg)));
             mk = make_home rng (engine_identity newSHA1 seed (sk_Site cfg)) scn nSteps
         in Inr \<lparr>en_scn = scn, en_identity = (case sk_Identity cfg of None \<Rightarrow> DefaultIdentity | Some i \<Rightarrow> i), en_duration = duration,
                 en_segments = segs, en_homes = place_homes mk segs (replicate nHomes None),
                 en_gauges = map (make_gauge rng (sk_Site cfg)) [0..<nat (sk_RainGauges cfg)], en_rain = rain, en_seq = 0, en_events = 0\<rparr>))"

definition SegmentOf :: "engine \<Rightarrow> int \<Rightarrow> string" where
  "SegmentOf e i = (if i < 0 \<or> i \<ge> int (length (en_homes e)) then '''' else case en_homes e ! nat i of Some (_, h) \<Rightarrow> hp_SegmentID (hs_p h) | None \<Rightarrow> '''')"

section \<open>Running\<close>

definition mains_at :: "outage list \<Rightarrow> nat \<Rightarrow> int \<Rightarrow> bool" where
  "mains_at os segIdx step =
     (\<not> list_ex (\<lambda>ou. \<not> (step * second < ou_At ou \<or> step * second \<ge> ou_At ou + ou_Duration ou) \<and> int segIdx \<in> set (ou_SegmentIndexes ou)) os)"

definition rain_lookup_at :: "real list \<Rightarrow> int \<Rightarrow> real" where
  "rain_lookup_at rain m = (if m < 0 \<or> m \<ge> int (length rain) then 0 else rain ! nat m)"

datatype run_error = Cancelled | SinkFailed nat string | NoHome

text \<open>The sink answers an event with an error or its next state. Events get their numbers before they are published.\<close>

type_synonym 'k sink = "'k \<Rightarrow> nat \<times> sim_event \<Rightarrow> string + 'k"

record 'k run_state =
  rs_seq :: nat
  rs_events :: nat
  rs_sink :: 'k

fun engine_publish :: "'k sink \<Rightarrow> sim_event list \<Rightarrow> 'k run_state \<Rightarrow> 'k run_state \<times> run_error option" where
  "engine_publish pub [] s = (s, None)"
| "engine_publish pub (ev # evs) s =
     (let n = rs_seq s; s = s\<lparr>rs_seq := n + 1\<rparr>
      in case pub (rs_sink s) (n, ev) of
           Inl e \<Rightarrow> (s, Some (SinkFailed n e))
         | Inr k \<Rightarrow> engine_publish pub evs (s\<lparr>rs_sink := k, rs_events := rs_events s + 1\<rparr>))"

fun homes_turn :: "'k sink \<Rightarrow> (uint64 \<Rightarrow> draws) \<Rightarrow> (nat \<Rightarrow> home_identity) \<Rightarrow> outage list \<Rightarrow> (int \<Rightarrow> real) \<Rightarrow> int \<Rightarrow> instant \<Rightarrow> nat \<Rightarrow> slot list
    \<Rightarrow> 'k run_state \<Rightarrow> slot list \<times> 'k run_state \<times> run_error option" where
  "homes_turn pub rng ident os rainAt step now i [] s = ([], s, None)"
| "homes_turn pub rng ident os rainAt step now i (None # xs) s = (None # xs, s, Some NoHome)"
| "homes_turn pub rng ident os rainAt step now i (Some (seg, h) # xs) s =
     (let (h, evs) = house_step (rng (id_stream (ident i))) step now rainAt (mains_at os (sp_Index seg) step) h
      in case engine_publish pub evs s of
           (s, Some e) \<Rightarrow> (Some (seg, h) # xs, s, Some e)
         | (s, None) \<Rightarrow> (let (xs, s, r) = homes_turn pub rng ident os rainAt step now (i + 1) xs s in (Some (seg, h) # xs, s, r)))"

fun gauges_turn :: "'k sink \<Rightarrow> (uint64 \<Rightarrow> draws) \<Rightarrow> (int \<Rightarrow> real) \<Rightarrow> int \<Rightarrow> instant \<Rightarrow> nat \<Rightarrow> sim_gauge list \<Rightarrow> 'k run_state
    \<Rightarrow> sim_gauge list \<times> 'k run_state \<times> run_error option" where
  "gauges_turn pub rng rainAt step now i [] s = ([], s, None)"
| "gauges_turn pub rng rainAt step now i (g # gs) s =
     (let (g, evs) = gauge_step (rng (gaugeStream + of_nat i)) step now rainAt g
      in case engine_publish pub evs s of
           (s, Some e) \<Rightarrow> (g # gs, s, Some e)
         | (s, None) \<Rightarrow> (let (gs, s, r) = gauges_turn pub rng rainAt step now (i + 1) gs s in (g # gs, s, r)))"

text \<open>One virtual second of the engine; cancellation is looked at once a minute.\<close>

definition engine_second :: "'k sink \<Rightarrow> (uint64 \<Rightarrow> draws) \<Rightarrow> (nat \<Rightarrow> home_identity) \<Rightarrow> (nat \<Rightarrow> bool) \<Rightarrow> instant \<Rightarrow> nat \<Rightarrow> engine \<Rightarrow> 'k run_state
    \<Rightarrow> engine \<times> 'k run_state \<times> run_error option" where
  "engine_second pub rng ident cancel start step e s =
     (let now = start + int step * second; rainAt = rain_lookup_at (en_rain e)
      in if step mod 60 = 0 \<and> cancel step then (e, s, Some Cancelled)
         else case homes_turn pub rng ident (sc_Outages (en_scn e)) rainAt (int step) now 0 (en_homes e) s of
                (hs, s, Some r) \<Rightarrow> (e\<lparr>en_homes := hs\<rparr>, s, Some r)
              | (hs, s, None) \<Rightarrow> (let (gs, s, r) = gauges_turn pub rng rainAt (int step) now 0 (en_gauges e) s
                                  in (e\<lparr>en_homes := hs, en_gauges := gs\<rparr>, s, r)))"

text \<open>The loop: \<open>k\<close> seconds from \<open>step\<close>; the answer has the second reached and what stopped the run.\<close>

fun run_loop :: "'k sink \<Rightarrow> (uint64 \<Rightarrow> draws) \<Rightarrow> (nat \<Rightarrow> home_identity) \<Rightarrow> (nat \<Rightarrow> bool) \<Rightarrow> instant \<Rightarrow> nat \<Rightarrow> nat \<Rightarrow> engine \<Rightarrow> 'k run_state
    \<Rightarrow> engine \<times> 'k run_state \<times> nat \<times> run_error option" where
  "run_loop pub rng ident cancel start step 0 e s = (e, s, step, None)"
| "run_loop pub rng ident cancel start step (Suc k) e s =
     (case engine_second pub rng ident cancel start step e s of
        (e, s, Some r) \<Rightarrow> (e, s, step, Some r)
      | (e, s, None) \<Rightarrow> run_loop pub rng ident cancel start (step + 1) k e s)"

definition n_steps :: "engine \<Rightarrow> nat" where
  "n_steps e = nat (go_div (en_duration e) second)"

section \<open>Sinks\<close>

text \<open>A sink of several sinks publishes to each in order and stops at the first error.\<close>

fun multi_Publish :: "('k sink) list \<Rightarrow> 'k list \<Rightarrow> nat \<times> sim_event \<Rightarrow> string + 'k list" where
  "multi_Publish (p # ps) (k # ks) ev =
     (case p k ev of Inl e \<Rightarrow> Inl e | Inr k' \<Rightarrow> map_sum id (\<lambda>ks'. k' # ks') (multi_Publish ps ks ev))"
| "multi_Publish _ ks ev = Inr ks"

section \<open>Every slot is filled\<close>

lemma assign_all_nth:
  assumes "\<forall>i \<in> set is. i < length xs"
  shows "foldl (\<lambda>xs i. xs[i := f i]) xs is ! j = (if j \<in> set is then f j else xs ! j)"
    and "length (foldl (\<lambda>xs i. xs[i := f i]) xs is) = length xs"
proof -
  have "foldl (\<lambda>xs i. xs[i := f i]) xs is ! j = (if j \<in> set is then f j else xs ! j) \<and> length (foldl (\<lambda>xs i. xs[i := f i]) xs is) = length xs"
    using assms
  proof (induction "is" arbitrary: xs)
    case (Cons i "is")
    then show ?case by (cases "j = i") simp_all
  qed simp
  then show "foldl (\<lambda>xs i. xs[i := f i]) xs is ! j = (if j \<in> set is then f j else xs ! j)"
    "length (foldl (\<lambda>xs i. xs[i := f i]) xs is) = length xs" by blast+
qed

lemma place_homes_nth:
  assumes "\<forall>seg \<in> set segs. \<forall>i \<in> set (sp_HomeIndexes seg). i < length xs" and "k < length segs" "j \<in> set (sp_HomeIndexes (segs ! k))"
    and "\<And>k'. k' < length segs \<Longrightarrow> j \<in> set (sp_HomeIndexes (segs ! k')) \<Longrightarrow> k' = k"
  shows "place_homes mk segs xs ! j = Some (segs ! k, mk j (segs ! k))"
  using assms
proof (induction segs arbitrary: k rule: rev_induct)
  case (snoc seg segs)
  have len: "length (place_homes mk segs xs) = length xs"
    using snoc.prems(1) by (induction segs rule: rev_induct) (simp_all add: place_homes_def assign_all_nth(2))
  have step: "place_homes mk (segs @ [seg]) xs ! j = (if j \<in> set (sp_HomeIndexes seg) then Some (seg, mk j seg) else place_homes mk segs xs ! j)"
    using assign_all_nth(1) [of "sp_HomeIndexes seg" "place_homes mk segs xs" "\<lambda>i. Some (seg, mk i seg)" j] snoc.prems(1) len
    by (simp add: place_homes_def)
  show ?case
  proof (cases "k = length segs")
    case True
    then show ?thesis using step snoc.prems(3) by simp
  next
    case False
    then have k: "k < length segs" using snoc.prems(2) by simp
    have "j \<notin> set (sp_HomeIndexes seg)" using snoc.prems(4) [of "length segs"] False by auto
    moreover have "place_homes mk segs xs ! j = Some (segs ! k, mk j (segs ! k))"
    proof (rule snoc.IH [OF _ k])
      show "j \<in> set (sp_HomeIndexes (segs ! k))" using snoc.prems(3) k by (simp add: nth_append)
      show "k' = k" if "k' < length segs" "j \<in> set (sp_HomeIndexes (segs ! k'))" for k'
        using snoc.prems(4) [of k'] that by (simp add: nth_append)
    qed (use snoc.prems(1) in simp)
    ultimately show ?thesis using step k by (simp add: nth_append)
  qed
qed simp

lemma place_homes_length: "length (place_homes mk segs xs) = length xs"
proof (induction segs rule: rev_induct)
  case (snoc seg segs)
  have "length (foldl (\<lambda>xs i. xs[i := f i]) ys is) = length ys" for f :: "nat \<Rightarrow> slot" and ys "is" by (induction "is" arbitrary: ys) simp_all
  then show ?case using snoc by (simp add: place_homes_def)
qed (simp add: place_homes_def)

lemma covered_slots:
  assumes "covers_once segs n" "j < n"
  shows "\<exists>k < length segs. j \<in> set (sp_HomeIndexes (segs ! k)) \<and> place_homes mk segs (replicate n None) ! j = Some (segs ! k, mk j (segs ! k))"
proof -
  obtain k where k: "k < length segs" "j \<in> set (sp_HomeIndexes (segs ! k))"
    and u: "\<And>k'. k' < length segs \<Longrightarrow> j \<in> set (sp_HomeIndexes (segs ! k')) \<Longrightarrow> k' = k"
    using assms unfolding covers_once_def by metis
  have "\<forall>seg \<in> set segs. \<forall>i \<in> set (sp_HomeIndexes seg). i < length (replicate n None)"
    using assms(1) unfolding covers_once_def by (metis in_set_conv_nth length_replicate lessThan_iff subset_iff)
  from place_homes_nth [OF this k u] show ?thesis using k by blast
qed

text \<open>The segments and the number of homes a checked configuration has.\<close>

definition plan_of :: "sim_config \<Rightarrow> segment_params list \<times> nat" where
  "plan_of cfg = (case sk_Site cfg of Some s \<Rightarrow> (siteSegments s, length (si_Homes s))
     | None \<Rightarrow> (buildSegments (nat (sk_Homes cfg)) (nat (sk_Segments cfg)), nat (sk_Homes cfg)))"

lemma plan_covers: "check_config cfg = None \<Longrightarrow> covers_once (fst (plan_of cfg)) (snd (plan_of cfg))"
  unfolding check_config_def plan_of_def
  by (auto simp: siteSegments_covers buildSegments_covers split: option.splits if_splits)

definition steps_of :: "sim_config \<Rightarrow> int" where
  "steps_of cfg = go_div (if sk_Duration cfg > 0 then sk_Duration cfg else sc_Duration (the (sk_Scenario cfg))) second"

lemma engine_New_homes:
  assumes "engine_New rng newSHA1 seed cfg = Inr e"
  shows "check_config cfg = None" "en_scn e = the (sk_Scenario cfg)" "en_segments e = fst (plan_of cfg)"
    "en_homes e = place_homes (make_home rng (engine_identity newSHA1 seed (sk_Site cfg)) (the (sk_Scenario cfg)) (steps_of cfg)) (fst (plan_of cfg)) (replicate (snd (plan_of cfg)) None)"
    "int (n_steps e) = max 0 (steps_of cfg)"
  using assms by (auto simp: engine_New_def plan_of_def steps_of_def n_steps_def Let_def split: option.splits prod.splits)

section \<open>A recorded run is the runs of its homes\<close>

text \<open>The sink that keeps every event.\<close>

definition recorder :: "(nat \<times> sim_event) list sink" where
  "recorder k ev = Inr (k @ [ev])"

definition recorded :: "sim_event list \<Rightarrow> (nat \<times> sim_event) list run_state \<Rightarrow> (nat \<times> sim_event) list run_state" where
  "recorded evs s = s\<lparr>rs_seq := rs_seq s + length evs, rs_sink := rs_sink s @ zip [rs_seq s..<rs_seq s + length evs] evs,
     rs_events := rs_events s + length evs\<rparr>"

lemma recorded_append: "recorded b (recorded a s) = recorded (a @ b) s"
proof -
  have "[rs_seq s..<rs_seq s + length (a @ b)] = [rs_seq s..<rs_seq s + length a] @ [rs_seq s + length a..<rs_seq s + length a + length b]"
    using upt_add_eq_append [of "rs_seq s" "rs_seq s + length a" "length b"] by (simp add: add.assoc)
  then show ?thesis by (simp add: recorded_def)
qed

lemma publish_recorder: "engine_publish recorder evs s = (recorded evs s, None)"
proof (induction evs arbitrary: s)
  case (Cons ev evs)
  have "engine_publish recorder (ev # evs) s = engine_publish recorder evs (recorded [ev] s)"
    by (simp add: recorder_def [of "rs_sink s"] recorded_def Let_def)
  then show ?case using Cons recorded_append [of evs "[ev]" s] by simp
qed (simp add: recorded_def)

lemma recorded_log: "map snd (rs_sink (recorded evs s)) = map snd (rs_sink s) @ evs"
  by (simp add: recorded_def)

definition log_ok :: "(nat \<times> sim_event) list run_state \<Rightarrow> bool" where
  "log_ok s \<longleftrightarrow> map fst (rs_sink s) = [0..<rs_seq s] \<and> rs_events s = rs_seq s"

lemma recorded_ok: "log_ok s \<Longrightarrow> log_ok (recorded evs s)"
  by (simp add: log_ok_def recorded_def upt_add_eq_append [of 0])

definition home_out :: "(uint64 \<Rightarrow> draws) \<Rightarrow> (nat \<Rightarrow> home_identity) \<Rightarrow> outage list \<Rightarrow> (int \<Rightarrow> real) \<Rightarrow> int \<Rightarrow> instant \<Rightarrow> nat \<Rightarrow> segment_params \<times> sim_house
    \<Rightarrow> sim_house \<times> sim_event list" where
  "home_out rng ident os rainAt step now i x = house_step (rng (id_stream (ident i))) step now rainAt (mains_at os (sp_Index (fst x)) step) (snd x)"

fun homes_out :: "(nat \<Rightarrow> segment_params \<times> sim_house \<Rightarrow> sim_house \<times> sim_event list) \<Rightarrow> nat \<Rightarrow> (segment_params \<times> sim_house) list
    \<Rightarrow> (segment_params \<times> sim_house) list \<times> sim_event list" where
  "homes_out f i [] = ([], [])"
| "homes_out f i (x # xs) = (let (h, a) = f i x; (xs, b) = homes_out f (i + 1) xs in ((fst x, h) # xs, a @ b))"

lemma homes_loop_recorder:
  "homes_turn recorder rng ident os rainAt step now i (map Some xs) s =
     (case homes_out (home_out rng ident os rainAt step now) i xs of (ys, evs) \<Rightarrow> (map Some ys, recorded evs s, None))"
proof (induction xs arbitrary: i s)
  case Nil
  then show ?case by (simp add: recorded_def)
next
  case (Cons x xs)
  obtain seg h where x: "x = (seg, h)" by fastforce
  obtain h' a where a: "home_out rng ident os rainAt step now i x = (h', a)" by fastforce
  then show ?case using Cons
    by (simp add: x home_out_def publish_recorder recorded_append Let_def split: prod.splits)
qed

lemma homes_out_nth:
  "length (fst (homes_out f i xs)) = length xs"
  "j < length xs \<Longrightarrow> fst (homes_out f i xs) ! j = (fst (xs ! j), fst (f (i + j) (xs ! j)))"
proof -
  have "length (fst (homes_out f i xs)) = length xs \<and> (\<forall>j < length xs. fst (homes_out f i xs) ! j = (fst (xs ! j), fst (f (i + j) (xs ! j))))"
  proof (induction xs arbitrary: i)
    case (Cons x xs)
    show ?case using Cons [of "i + 1"] by (auto simp: Let_def nth_Cons' split: prod.splits)
  qed simp
  then show "length (fst (homes_out f i xs)) = length xs" "j < length xs \<Longrightarrow> fst (homes_out f i xs) ! j = (fst (xs ! j), fst (f (i + j) (xs ! j)))" by blast+
qed

text \<open>The events of one home among those of a second.\<close>

lemma homes_out_filter:
  assumes "\<And>j x e. j < length xs \<Longrightarrow> e \<in> set (snd (f (i + j) (xs ! j))) \<Longrightarrow> sx_HomeIndex e = int (i + j)"
  shows "filter (\<lambda>e. sx_HomeIndex e = int k) (snd (homes_out f i xs)) = (if i \<le> k \<and> k < i + length xs then snd (f k (xs ! (k - i))) else [])"
  using assms
proof (induction xs arbitrary: i)
  case (Cons x xs)
  have own: "sx_HomeIndex e = int i" if "e \<in> set (snd (f i x))" for e using Cons.prems [of 0 e] that by simp
  have "sx_HomeIndex e = int (i + 1 + j)" if "j < length xs" "e \<in> set (snd (f (i + 1 + j) (xs ! j)))" for j e
    using Cons.prems [of "Suc j" e] that by simp
  note ih = Cons.IH [OF this]
  have "filter (\<lambda>e. sx_HomeIndex e = int k) (snd (f i x)) = (if k = i then snd (f i x) else [])"
    using own by (auto simp: filter_id_conv filter_empty_conv)
  then show ?case using ih by (auto simp: Let_def nth_Cons' split: prod.splits)
qed auto

text \<open>The gauges of a second, and that their events belong to no home.\<close>

lemma gauges_loop_recorder:
  "\<exists>gs' evs. gauges_turn recorder rng rainAt step now i gs s = (gs', recorded evs s, None) \<and> (\<forall>e \<in> set evs. sx_HomeIndex e = - 1)"
proof (induction gs arbitrary: i s)
  case Nil
  have "recorded [] s = s" by (simp add: recorded_def)
  then show ?case by (intro exI [of _ "[]"]) simp
next
  case (Cons g gs)
  obtain g' a where a: "gauge_step (rng (gaugeStream + of_nat i)) step now rainAt g = (g', a)" by fastforce
  have "\<forall>e \<in> set a. sx_HomeIndex e = - 1"
    using a by (auto simp: gauge_step_def gauge_wake_def gauge_tx_def Let_def split: if_splits prod.splits)
  moreover obtain gs' b where "gauges_turn recorder rng rainAt step now (i + 1) gs (recorded a s) = (gs', recorded b (recorded a s), None)"
    "\<forall>e \<in> set b. sx_HomeIndex e = - 1" using Cons by blast
  ultimately show ?case using a
    by (intro exI [of _ "g' # gs'"] exI [of _ "a @ b"]) (auto simp: publish_recorder recorded_append Let_def)
qed

text \<open>The homes of an engine, when no slot is empty, and what they have to do with a run of each alone.\<close>

definition home_run_of :: "(uint64 \<Rightarrow> draws) \<Rightarrow> (nat \<Rightarrow> home_identity) \<Rightarrow> instant \<Rightarrow> engine \<Rightarrow> nat \<Rightarrow> nat \<Rightarrow> segment_params \<times> sim_house \<Rightarrow> sim_house \<times> sim_event list" where
  "home_run_of rng ident start e0 t i x =
     house_run (rng (id_stream (ident i))) start (rain_lookup_at (en_rain e0)) (mains_at (sc_Outages (en_scn e0)) (sp_Index (fst x))) t (snd x)"

definition runs_alike :: "(uint64 \<Rightarrow> draws) \<Rightarrow> (nat \<Rightarrow> home_identity) \<Rightarrow> instant \<Rightarrow> engine \<Rightarrow> (segment_params \<times> sim_house) list \<Rightarrow> nat \<Rightarrow> engine
    \<Rightarrow> (nat \<times> sim_event) list run_state \<Rightarrow> bool" where
  "runs_alike rng ident start e0 xs t e s \<longleftrightarrow> en_rain e = en_rain e0 \<and> en_scn e = en_scn e0 \<and> log_ok s
     \<and> en_homes e = map (\<lambda>i. Some (fst (xs ! i), fst (home_run_of rng ident start e0 t i (xs ! i)))) [0..<length xs]
     \<and> (\<forall>i < length xs. filter (\<lambda>ev. sx_HomeIndex ev = int i) (map snd (rs_sink s)) = snd (home_run_of rng ident start e0 t i (xs ! i)))"

lemma step_own_index:
  assumes "house_step R step now rainAt mains h = (h', a)"
  shows "hs_p h' = hs_p h \<and> (\<forall>e \<in> set a. sx_HomeIndex e = hp_Index (hs_p h))"
  using house_frames.step_ok [OF assms] by (auto simp: emits_def own_event_def)

lemma run_params: "hs_p (fst (house_run R start rainAt mains t h)) = hs_p h"
  using run_emits [of R start rainAt mains t h] by (metis emits_def prod.collapse)

lemma run_Suc:
  "house_run R start rainAt mains (Suc t) h =
     (let (h', a) = house_run R start rainAt mains t h; (h'', b) = house_step R (int t) (start + int t * second) rainAt (mains (int t)) h' in (h'', a @ b))"
  by (simp add: and_then_def)

lemma second_alike:
  assumes alike: "runs_alike rng ident start e0 xs t e s" and index: "\<And>i. i < length xs \<Longrightarrow> hp_Index (hs_p (snd (xs ! i))) = int i"
  shows "\<exists>e' s'. engine_second recorder rng ident (\<lambda>_. False) start t e s = (e', s', None) \<and> runs_alike rng ident start e0 xs (Suc t) e' s'"
proof -
  let ?now = "start + int t * second" and ?rain = "rain_lookup_at (en_rain e0)" and ?os = "sc_Outages (en_scn e0)"
  let ?ys = "map (\<lambda>i. (fst (xs ! i), fst (home_run_of rng ident start e0 t i (xs ! i)))) [0..<length xs]"
  let ?f = "home_out rng ident ?os ?rain (int t) ?now"
  obtain zs evs where out: "homes_out ?f 0 ?ys = (zs, evs)" by fastforce
  have homes: "en_homes e = map Some ?ys" "en_rain e = en_rain e0" "en_scn e = en_scn e0" using alike by (simp_all add: runs_alike_def)
  have loop: "homes_turn recorder rng ident ?os ?rain (int t) ?now 0 (en_homes e) s = (map Some zs, recorded evs s, None)"
    unfolding homes(1) homes_loop_recorder out by simp
  obtain gs' gev where gauges: "gauges_turn recorder rng ?rain (int t) ?now 0 (en_gauges e) (recorded evs s) = (gs', recorded gev (recorded evs s), None)"
    and none: "\<forall>ev \<in> set gev. sx_HomeIndex ev = - 1" using gauges_loop_recorder by blast
  let ?e' = "e\<lparr>en_homes := map Some zs, en_gauges := gs'\<rparr>" and ?s' = "recorded gev (recorded evs s)"
  have sec: "engine_second recorder rng ident (\<lambda>_. False) start t e s = (?e', ?s', None)"
    unfolding engine_second_def Let_def homes(2,3) using loop gauges by simp
  have own: "sx_HomeIndex ev = int (0 + j)" if "j < length ?ys" "ev \<in> set (snd (?f (0 + j) (?ys ! j)))" for j ev
  proof -
    obtain h' a where "?f j (?ys ! j) = (h', a)" by fastforce
    then have "\<forall>e \<in> set a. sx_HomeIndex e = hp_Index (hs_p (snd (?ys ! j)))" using step_own_index unfolding home_out_def by blast
    moreover have "hp_Index (hs_p (snd (?ys ! j))) = int j" using that(1) index by (simp add: home_run_of_def run_params)
    ultimately show ?thesis using that(2) \<open>?f j (?ys ! j) = (h', a)\<close> by simp
  qed
  have next_run: "home_run_of rng ident start e0 (Suc t) i (xs ! i) =
      (fst (?f i (?ys ! i)), snd (home_run_of rng ident start e0 t i (xs ! i)) @ snd (?f i (?ys ! i)))" if "i < length xs" for i
    using that unfolding home_run_of_def run_Suc home_out_def Let_def by (simp split: prod.splits)
  have len: "length zs = length xs" using homes_out_nth(1) [of ?f 0 ?ys] by (simp add: out)
  have "map Some zs = map (\<lambda>i. Some (fst (xs ! i), fst (home_run_of rng ident start e0 (Suc t) i (xs ! i)))) [0..<length xs]"
  proof (rule nth_equalityI)
    fix i assume "i < length (map Some zs)"
    then have i: "i < length xs" using len by simp
    then have "zs ! i = (fst (?ys ! i), fst (?f i (?ys ! i)))" using homes_out_nth(2) [of i ?ys ?f 0] by (simp add: out)
    then show "map Some zs ! i = map (\<lambda>i. Some (fst (xs ! i), fst (home_run_of rng ident start e0 (Suc t) i (xs ! i)))) [0..<length xs] ! i"
      using i len next_run [OF i] by simp
  qed (simp add: len)
  moreover have "filter (\<lambda>ev. sx_HomeIndex ev = int i) (map snd (rs_sink ?s')) = snd (home_run_of rng ident start e0 (Suc t) i (xs ! i))" if "i < length xs" for i
  proof -
    have "filter (\<lambda>ev. sx_HomeIndex ev = int i) evs = snd (?f i (?ys ! i))"
      using homes_out_filter [of ?ys ?f 0 i] own that by (simp add: out)
    moreover have "filter (\<lambda>ev. sx_HomeIndex ev = int i) gev = []" using none by (auto simp: filter_empty_conv)
    ultimately show ?thesis using alike next_run [OF that] that unfolding recorded_log by (simp add: runs_alike_def)
  qed
  ultimately have "runs_alike rng ident start e0 xs (Suc t) ?e' ?s'"
    using alike recorded_ok by (simp add: runs_alike_def)
  then show ?thesis using sec by blast
qed

lemma loop_alike:
  assumes "runs_alike rng ident start e0 xs t e s" and "\<And>i. i < length xs \<Longrightarrow> hp_Index (hs_p (snd (xs ! i))) = int i"
  shows "\<exists>e' s'. run_loop recorder rng ident (\<lambda>_. False) start t k e s = (e', s', t + k, None) \<and> runs_alike rng ident start e0 xs (t + k) e' s'"
  using assms
proof (induction k arbitrary: t e s)
  case (Suc k)
  obtain e1 s1 where sec: "engine_second recorder rng ident (\<lambda>_. False) start t e s = (e1, s1, None)" "runs_alike rng ident start e0 xs (Suc t) e1 s1"
    using second_alike [OF Suc.prems] by blast
  from Suc.IH [OF sec(2) Suc.prems(2)] show ?case using sec(1) by simp
qed simp

text \<open>A whole run with the recording sink, and what it recorded of one home.\<close>

definition recorded_run :: "(uint64 \<Rightarrow> draws) \<Rightarrow> (string \<Rightarrow> string) \<Rightarrow> nat \<Rightarrow> sim_config \<Rightarrow> engine \<Rightarrow> engine \<times> (nat \<times> sim_event) list run_state \<times> nat \<times> run_error option" where
  "recorded_run rng newSHA1 seed cfg e =
     run_loop recorder rng (engine_identity newSHA1 seed (sk_Site cfg)) (\<lambda>_. False) (sk_Start cfg) 0 (n_steps e) e \<lparr>rs_seq = en_seq e, rs_events = en_events e, rs_sink = []\<rparr>"

definition stream_of :: "nat \<Rightarrow> engine \<times> (nat \<times> sim_event) list run_state \<times> nat \<times> run_error option \<Rightarrow> sim_event list" where
  "stream_of i r = filter (\<lambda>ev. sx_HomeIndex ev = int i) (map snd (rs_sink (fst (snd r))))"

lemma recorded_run_streams:
  assumes new: "engine_New rng newSHA1 seed cfg = Inr e"
  defines "ident \<equiv> engine_identity newSHA1 seed (sk_Site cfg)"
  obtains e' s where "recorded_run rng newSHA1 seed cfg e = (e', s, n_steps e, None)" "log_ok s"
    "\<And>i. i < snd (plan_of cfg) \<Longrightarrow> \<exists>k < length (en_segments e). i \<in> set (sp_HomeIndexes (en_segments e ! k))
       \<and> stream_of i (recorded_run rng newSHA1 seed cfg e)
         = snd (house_run (rng (id_stream (ident i))) (sk_Start cfg) (rain_lookup_at (en_rain e)) (mains_at (sc_Outages (en_scn e)) k) (n_steps e)
             (newHome (rng (id_stream (ident i))) i (ident i) (en_segments e ! k) (the (sk_Scenario cfg)) (steps_of cfg)))"
proof -
  note hs = engine_New_homes [OF new]
  let ?n = "snd (plan_of cfg)" and ?segs = "fst (plan_of cfg)" and ?mk = "make_home rng ident (the (sk_Scenario cfg)) (steps_of cfg)"
  have cov: "covers_once ?segs ?n" by (rule plan_covers [OF hs(1)])
  have slot: "\<exists>k < length ?segs. j \<in> set (sp_HomeIndexes (?segs ! k)) \<and> en_homes e ! j = Some (?segs ! k, ?mk j (?segs ! k))" if "j < ?n" for j
    using covered_slots [OF cov that] unfolding hs(4) ident_def by blast
  define xs where "xs = map (\<lambda>j. the (en_homes e ! j)) [0..<?n]"
  have len: "length (en_homes e) = ?n" unfolding hs(4) place_homes_length by simp
  have xs: "length xs = ?n" "\<And>j. j < ?n \<Longrightarrow> en_homes e ! j = Some (xs ! j)" using slot by (fastforce simp: xs_def)+
  have index: "hp_Index (hs_p (snd (xs ! j))) = int j" if "j < length xs" for j
    using slot [of j] xs that by (auto simp: make_home_def newHome_start)
  have homes: "en_homes e = map (\<lambda>i. Some (fst (xs ! i), fst (home_run_of rng ident (sk_Start cfg) e 0 i (xs ! i)))) [0..<length xs]"
    by (rule nth_equalityI) (simp_all add: len xs home_run_of_def)
  have zero: "en_seq e = 0" "en_events e = 0" using new by (auto simp: engine_New_def Let_def split: option.splits prod.splits)
  have "runs_alike rng ident (sk_Start cfg) e xs 0 e \<lparr>rs_seq = en_seq e, rs_events = en_events e, rs_sink = []\<rparr>"
    unfolding runs_alike_def using homes by (simp add: log_ok_def home_run_of_def zero)
  from loop_alike [OF this index, of "n_steps e"] obtain e' s
    where run: "recorded_run rng newSHA1 seed cfg e = (e', s, n_steps e, None)" and alike: "runs_alike rng ident (sk_Start cfg) e xs (n_steps e) e' s"
    by (auto simp: recorded_run_def ident_def)
  show ?thesis
  proof (rule that [OF run])
    show "log_ok s" using alike by (simp add: runs_alike_def)
    fix i assume i: "i < ?n"
    obtain k where k: "k < length ?segs" "i \<in> set (sp_HomeIndexes (?segs ! k))" "xs ! i = (?segs ! k, ?mk i (?segs ! k))"
      using slot [OF i] xs(2) [OF i] by auto
    have "sp_Index (?segs ! k) = k" using cov k(1) by (simp add: covers_once_def)
    then show "\<exists>k < length (en_segments e). i \<in> set (sp_HomeIndexes (en_segments e ! k))
       \<and> stream_of i (recorded_run rng newSHA1 seed cfg e)
         = snd (house_run (rng (id_stream (ident i))) (sk_Start cfg) (rain_lookup_at (en_rain e)) (mains_at (sc_Outages (en_scn e)) k) (n_steps e)
             (newHome (rng (id_stream (ident i))) i (ident i) (en_segments e ! k) (the (sk_Scenario cfg)) (steps_of cfg)))"
      using alike i k xs(1) unfolding hs(3) run
      by (intro exI [of _ k]) (simp add: runs_alike_def stream_of_def home_run_of_def make_home_def)
  qed
qed

lemma newHome_segment:
  assumes "sp_ID seg = sp_ID seg'" "sp_ResponseMul seg = sp_ResponseMul seg'" "sp_BaseflowMul seg = sp_BaseflowMul seg'" "sp_ReservoirMul seg = sp_ReservoirMul seg'"
  shows "newHome R i ident seg scn nSteps = newHome R i ident seg' scn nSteps"
  using assms by (simp add: newHome_def drawn_params_def)

lemma built_segment:
  assumes "k < s"
  shows "sp_ID (buildSegments n s ! k) = sp_ID (buildSegments n' s ! k)" "sp_ResponseMul (buildSegments n s ! k) = sp_ResponseMul (buildSegments n' s ! k)"
    "sp_BaseflowMul (buildSegments n s ! k) = sp_BaseflowMul (buildSegments n' s ! k)" "sp_ReservoirMul (buildSegments n s ! k) = sp_ReservoirMul (buildSegments n' s ! k)"
  using assms by (simp_all add: buildSegments_def Let_def street_segment_def split: prod.splits)

text \<open>
  C35: A run of the neighbourhood is the runs of its homes. For every accepted configuration, synthetic or a real site, no slot of the
  neighbourhood is empty; an undisturbed run goes to the end, numbers its events 0, 1, 2 and so on, and the events it publishes for a home, in order,
  are exactly those of that home run alone, on the home's own random stream, with the neighbourhood's rain and the outages of the segment it lies in.
\<close>

theorem engine_run_streams:
  assumes "engine_New rng newSHA1 seed cfg = Inr e" and "i < snd (plan_of cfg)"
  shows "let r = recorded_run rng newSHA1 seed cfg e; ident = engine_identity newSHA1 seed (sk_Site cfg); log = rs_sink (fst (snd r))
    in snd (snd r) = (n_steps e, None) \<and> map fst log = [0..<length log] \<and> rs_events (fst (snd r)) = length log
     \<and> (\<exists>k < length (en_segments e). i \<in> set (sp_HomeIndexes (en_segments e ! k))
        \<and> stream_of i r = snd (house_run (rng (id_stream (ident i))) (sk_Start cfg) (rain_lookup_at (en_rain e)) (mains_at (sc_Outages (en_scn e)) k) (n_steps e)
             (newHome (rng (id_stream (ident i))) i (ident i) (en_segments e ! k) (the (sk_Scenario cfg)) (steps_of cfg))))"
proof -
  obtain e' s where run: "recorded_run rng newSHA1 seed cfg e = (e', s, n_steps e, None)" and ok: "log_ok s"
    and streams: "\<exists>k < length (en_segments e). i \<in> set (sp_HomeIndexes (en_segments e ! k))
       \<and> stream_of i (recorded_run rng newSHA1 seed cfg e)
         = snd (house_run (rng (id_stream (engine_identity newSHA1 seed (sk_Site cfg) i))) (sk_Start cfg) (rain_lookup_at (en_rain e)) (mains_at (sc_Outages (en_scn e)) k) (n_steps e)
             (newHome (rng (id_stream (engine_identity newSHA1 seed (sk_Site cfg) i))) i (engine_identity newSHA1 seed (sk_Site cfg) i) (en_segments e ! k) (the (sk_Scenario cfg)) (steps_of cfg)))"
    by (rule recorded_run_streams [OF assms(1)]) (use assms(2) in blast)
  have "length (rs_sink s) = rs_seq s" using ok by (metis length_map length_upt log_ok_def diff_zero)
  then show ?thesis using streams ok unfolding run by (simp add: Let_def log_ok_def)
qed

text \<open>
  C36: Adding homes never perturbs existing ones. Two runs of the synthetic neighbourhood that differ only in the number of homes publish
  the same events, with the same times, counters, payloads and radio data, for every home they share.
\<close>

theorem adding_homes_keeps_streams:
  assumes "engine_New rng newSHA1 seed cfg = Inr e" and "engine_New rng newSHA1 seed (cfg\<lparr>sk_Homes := n'\<rparr>) = Inr e'"
    and "sk_Site cfg = None" and "int i < sk_Homes cfg" and "int i < n'"
  shows "stream_of i (recorded_run rng newSHA1 seed cfg e) = stream_of i (recorded_run rng newSHA1 seed (cfg\<lparr>sk_Homes := n'\<rparr>) e')"
proof -
  let ?cfg' = "cfg\<lparr>sk_Homes := n'\<rparr>"
  note hs = engine_New_homes [OF assms(1)] and hs' = engine_New_homes [OF assms(2)]
  have segs: "0 < nat (sk_Segments cfg)" using hs(1) assms(3) by (auto simp: check_config_def split: option.splits if_splits)
  have plan: "plan_of cfg = (buildSegments (nat (sk_Homes cfg)) (nat (sk_Segments cfg)), nat (sk_Homes cfg))"
    "plan_of ?cfg' = (buildSegments (nat n') (nat (sk_Segments cfg)), nat n')" using assms(3) by (simp_all add: plan_of_def)
  have same: "steps_of ?cfg' = steps_of cfg" "en_scn e' = en_scn e" "en_rain e' = en_rain e" "n_steps e' = n_steps e"
    using assms(1-3) by (auto simp: steps_of_def n_steps_def engine_New_def Let_def split: option.splits prod.splits)
  have i: "i < snd (plan_of cfg)" "i < snd (plan_of ?cfg')" using assms(4,5) by (simp_all add: plan)
  obtain k where k: "k < length (en_segments e)" "i \<in> set (sp_HomeIndexes (en_segments e ! k))"
    "stream_of i (recorded_run rng newSHA1 seed cfg e) = snd (house_run (rng (id_stream (engine_identity newSHA1 seed None i))) (sk_Start cfg)
       (rain_lookup_at (en_rain e)) (mains_at (sc_Outages (en_scn e)) k) (n_steps e)
       (newHome (rng (id_stream (engine_identity newSHA1 seed None i))) i (engine_identity newSHA1 seed None i) (en_segments e ! k) (the (sk_Scenario cfg)) (steps_of cfg)))"
    by (rule recorded_run_streams [OF assms(1)]) (use i(1) assms(3) in metis)
  obtain k' where k': "k' < length (en_segments e')" "i \<in> set (sp_HomeIndexes (en_segments e' ! k'))"
    "stream_of i (recorded_run rng newSHA1 seed ?cfg' e') = snd (house_run (rng (id_stream (engine_identity newSHA1 seed None i))) (sk_Start ?cfg')
       (rain_lookup_at (en_rain e')) (mains_at (sc_Outages (en_scn e')) k') (n_steps e')
       (newHome (rng (id_stream (engine_identity newSHA1 seed None i))) i (engine_identity newSHA1 seed None i) (en_segments e' ! k') (the (sk_Scenario ?cfg')) (steps_of ?cfg')))"
    by (rule recorded_run_streams [OF assms(2)]) (use i(2) assms(3) in \<open>simp; metis\<close>)
  have "k = i mod nat (sk_Segments cfg)" "k' = i mod nat (sk_Segments cfg)"
    using k(1,2) k'(1,2) segs unfolding hs(3) hs'(3) plan fst_conv by (simp_all add: buildSegments_nth every_nth_set)
  then have "k' = k" by simp
  moreover have "k < nat (sk_Segments cfg)" using k(1) by (simp add: hs(3) plan)
  ultimately show ?thesis unfolding k(3) k'(3) same hs(3) hs'(3) plan fst_conv
    using newHome_segment [OF built_segment [of k "nat (sk_Segments cfg)" "nat (sk_Homes cfg)" "nat n'"]] by simp
qed

section \<open>The truth of a run\<close>

record home_storm_truth =
  ts_HomeIndex :: int
  ts_LagMin :: real
  ts_RecessionMin :: real
  ts_LagMinDiscrete :: real
  ts_RecessionMinDiscrete :: real
  ts_VolumeL :: real
  ts_PeakRateCPD :: real
  ts_Cycles :: nat
  ts_EnteredStormMode :: bool

definition first_minute_with :: "(int \<Rightarrow> bool) \<Rightarrow> int \<Rightarrow> int \<Rightarrow> int option" where
  "first_minute_with P lo hi = find P [lo..hi]"

text \<open>The cycles that ended in each minute, and the rate over the last thirty.\<close>

definition cycle_minute :: "instant \<Rightarrow> cycle_truth \<Rightarrow> int" where
  "cycle_minute start c = go_div (cy_StartedAt c + cy_RunS c * second - start) minute"

definition ended_in :: "instant \<Rightarrow> cycle_truth list \<Rightarrow> int \<Rightarrow> int \<Rightarrow> nat" where
  "ended_in start cs endMin m = (if 0 \<le> m \<and> m \<le> endMin then length (filter (\<lambda>c. cycle_minute start c = m) cs) else 0)"

definition rolling_rate :: "(int \<Rightarrow> nat) \<Rightarrow> int \<Rightarrow> real" where
  "rolling_rate counts m = real (sum_list (map counts [max 0 (m - 30 + 1)..m])) * 48"

definition since_minute :: "int \<Rightarrow> int option \<Rightarrow> real" where
  "since_minute from_min r = (case r of None \<Rightarrow> - 1 | Some m \<Rightarrow> real_of_int (m - from_min))"

definition homeStormTruth :: "sim_house \<Rightarrow> storm_window \<Rightarrow> instant \<Rightarrow> int \<Rightarrow> home_storm_truth" where
  "homeStormTruth h w start lastMin =
     (let base = hk_baseflowCPD (hs_k h); t = hs_t h; counts = ended_in start (ht_cycles t) lastMin;
          lag = first_minute_with (\<lambda>m. ht_rateNF t m > 2 * base) (wi_onset w) lastMin;
          rec = first_minute_with (\<lambda>m. ht_rateNF t m \<le> 1.2 * base) (wi_rainEnd w) lastMin;
          recEnd = (case rec of None \<Rightarrow> lastMin | Some m \<Rightarrow> m);
          span = [wi_onset w..recEnd]
      in \<lparr>ts_HomeIndex = hp_Index (hs_p h), ts_LagMin = since_minute (wi_onset w) lag, ts_RecessionMin = since_minute (wi_rainEnd w) rec,
          ts_LagMinDiscrete = since_minute (wi_onset w) (first_minute_with (\<lambda>m. rolling_rate counts m > 2 * base) (wi_onset w) lastMin),
          ts_RecessionMinDiscrete = since_minute (wi_rainEnd w) (first_minute_with (\<lambda>m. rolling_rate counts m \<le> 1.2 * base) (wi_rainEnd w + 30) lastMin),
          ts_VolumeL = foldl (\<lambda>v m. v + real_of_int (ht_stormUL t m) / real_of_int usPerL) 0 span,
          ts_PeakRateCPD = foldl (\<lambda>v m. max v (ht_rateNF t m)) 0 span,
          ts_Cycles = sum_list (map counts span), ts_EnteredStormMode = ht_enteredStorm t\<rparr>)"

record storm_truth =
  tr_ID :: string
  tr_Onset :: instant
  tr_RainEnd :: instant
  tr_TotalMm :: real
  tr_PeakMmPerH :: real
  tr_Homes :: "home_storm_truth list"

record sim_truth =
  tt_Completed :: bool
  tt_EndedAt :: instant
  tt_Events :: nat
  tt_Segments :: "segment_params list"
  tt_Homes :: "home_params list"
  tt_Rainfall :: "(instant \<times> real) list"
  tt_RainGauges :: "gauge_truth list"
  tt_Storms :: "storm_truth list"
  tt_TrueCycles :: "cycle_truth list"
  tt_ExpectedAlarms :: "alarm_truth list"

definition engine_truth :: "engine \<Rightarrow> nat \<Rightarrow> instant \<Rightarrow> nat \<Rightarrow> bool \<Rightarrow> sim_truth" where
  "engine_truth e published start step completed =
     (let endMin = (if step div 60 \<ge> length (en_rain e) then length (en_rain e) - 1 else step div 60);
          lastMin = (if step > 0 then min (int ((step - 1) div 60)) (int endMin) else - 1);
          homes = map snd (map the (en_homes e));
          windows = findStorms (take (endMin + 1) (en_rain e))
      in \<lparr>tt_Completed = completed, tt_EndedAt = start + int step * second, tt_Events = published, tt_Segments = en_segments e,
          tt_Homes = map hs_p homes, tt_Rainfall = map (\<lambda>m. (start + int m * minute, en_rain e ! m / 60)) [0..<endMin + 1],
          tt_RainGauges = map truth_of_gauge (en_gauges e),
          tt_Storms = map (\<lambda>(i, w). \<lparr>tr_ID = ''storm-'' @ format_nat (i + 1), tr_Onset = start + wi_onset w * minute, tr_RainEnd = start + wi_rainEnd w * minute,
             tr_TotalMm = wi_sum w, tr_PeakMmPerH = wi_peak w, tr_Homes = map (\<lambda>h. homeStormTruth h w start lastMin) homes\<rparr>) (enumerate 0 windows),
          tt_TrueCycles = concat (map (\<lambda>h. ht_cycles (hs_t h)) homes), tt_ExpectedAlarms = concat (map (\<lambda>h. ht_alarms (hs_t h)) homes)\<rparr>)"

definition engine_Run :: "'k sink \<Rightarrow> (uint64 \<Rightarrow> draws) \<Rightarrow> (nat \<Rightarrow> home_identity) \<Rightarrow> (nat \<Rightarrow> bool) \<Rightarrow> instant \<Rightarrow> engine \<Rightarrow> 'k \<Rightarrow> sim_truth \<times> 'k \<times> run_error option" where
  "engine_Run pub rng ident cancel start e k =
     (case run_loop pub rng ident cancel start 0 (n_steps e) e \<lparr>rs_seq = en_seq e, rs_events = en_events e, rs_sink = k\<rparr> of
        (e', s, step, r) \<Rightarrow> (engine_truth e' (rs_events s) start step (r = None), rs_sink s, r))"

section \<open>Examples\<close>

definition demo_config :: sim_config where
  "demo_config = \<lparr>sk_Start = 900 * second, sk_Homes = 2, sk_Segments = 1, sk_Scenario = Some (hd Scenarios), sk_Identity = None, sk_Duration = 2 * second,
     sk_RainGauges = 1, sk_Site = None\<rparr>"

lemma demo_scenario_ok: "scenario_validate (hd Scenarios) = None"
  by (simp add: Scenarios_def scenario_validate_def no_scenario_def go_time)

lemma demo_config_ok: "check_config demo_config = None" "check_config (demo_config\<lparr>sk_Homes := 3\<rparr>) = None"
  using demo_scenario_ok by (simp_all add: check_config_def demo_config_def is_zero_def zero_time_def go_time)

lemma demo_engines:
  "\<exists>e. engine_New (\<lambda>_. demo_draws) id 7 demo_config = Inr e" "\<exists>e. engine_New (\<lambda>_. demo_draws) id 7 (demo_config\<lparr>sk_Homes := 3\<rparr>) = Inr e"
  using demo_config_ok by (simp_all add: engine_New_def Let_def split: prod.splits)

theorem engine_run_streams_witness:
  "\<exists>e. engine_New (\<lambda>_. demo_draws) id 7 demo_config = Inr e \<and> snd (snd (recorded_run (\<lambda>_. demo_draws) id 7 demo_config e)) = (2, None)"
proof -
  obtain e where e: "engine_New (\<lambda>_. demo_draws) id 7 demo_config = Inr e" using demo_engines by blast
  have "1 < snd (plan_of demo_config)" by (simp add: plan_of_def demo_config_def)
  note r = engine_run_streams [OF e this]
  have "int (n_steps e) = 2" using engine_New_homes(5) [OF e] by (simp add: steps_of_def demo_config_def go_time go_div_def)
  then have "n_steps e = 2" by linarith
  then show ?thesis using r e by (auto simp: Let_def)
qed

theorem adding_homes_keeps_streams_witness:
  "\<exists>e e'. engine_New (\<lambda>_. demo_draws) id 7 demo_config = Inr e \<and> engine_New (\<lambda>_. demo_draws) id 7 (demo_config\<lparr>sk_Homes := 3\<rparr>) = Inr e'
    \<and> stream_of 1 (recorded_run (\<lambda>_. demo_draws) id 7 demo_config e) = stream_of 1 (recorded_run (\<lambda>_. demo_draws) id 7 (demo_config\<lparr>sk_Homes := 3\<rparr>) e')"
proof -
  obtain e e' where e: "engine_New (\<lambda>_. demo_draws) id 7 demo_config = Inr e" "engine_New (\<lambda>_. demo_draws) id 7 (demo_config\<lparr>sk_Homes := 3\<rparr>) = Inr e'"
    using demo_engines by blast
  have "sk_Site demo_config = None" "int 1 < sk_Homes demo_config" "int 1 < 3" by (simp_all add: demo_config_def)
  from adding_homes_keeps_streams [OF e this] show ?thesis using e by blast
qed

end
