(* ===== verification/Go_Time.thy ===== *)
theory Go_Time
  imports Go_Strings
begin

text \<open>
  The parts of the standard library's \<^verbatim>\<open>time\<close> package that read and write instants as text: the civil calendar in UTC, the layouts
  \<^verbatim>\<open>2006-01-02\<close>, \<^verbatim>\<open>2006-01-02T15:04:05\<close> and RFC 3339 as \<^verbatim>\<open>time.Parse\<close> reads them, with what it tolerates beyond the layout (a
  one-digit hour, a fraction of a second), and the same layouts as \<^verbatim>\<open>Format\<close> writes them. Reading back what was written gives the instant.
\<close>

section \<open>The civil calendar\<close>

definition is_leap :: "int \<Rightarrow> bool" where
  "is_leap y \<longleftrightarrow> y mod 4 = 0 \<and> (y mod 100 \<noteq> 0 \<or> y mod 400 = 0)"

definition daysIn :: "int \<Rightarrow> int \<Rightarrow> int" where
  "daysIn m y = (if m = 2 then (if is_leap y then 29 else 28) else if m \<in> {4, 6, 9, 11} then 30 else 31)"

text \<open>Days from January 1 of year 1 to January 1 of year \<open>y\<close>, and from January 1 to the first of month \<open>m\<close>.\<close>

definition days_before_year :: "int \<Rightarrow> int" where
  "days_before_year y = 365 * (y - 1) + (y - 1) div 4 - (y - 1) div 100 + (y - 1) div 400"

fun days_before_month :: "int \<Rightarrow> nat \<Rightarrow> int" where
  "days_before_month y 0 = 0"
| "days_before_month y (Suc m) = days_before_month y m + daysIn (int (Suc m)) y"

definition days_of_date :: "int \<Rightarrow> int \<Rightarrow> int \<Rightarrow> int" where
  "days_of_date y m d = days_before_year y + days_before_month y (nat (m - 1)) + d - 1"

text \<open>The year of a day counted from January 1 of year 1, and the day in it: cycles of 400, 100, 4 and 1 years.\<close>

definition year_of_days :: "int \<Rightarrow> int \<times> int" where
  "year_of_days n =
     (let a = n div 146097; r = n mod 146097;
          b = min 3 (r div 36524); r = r - 36524 * b;
          c = r div 1461; r = r mod 1461;
          e = min 3 (r div 365)
      in (400 * a + 100 * b + 4 * c + e + 1, r - 365 * e))"

fun month_of_day :: "int \<Rightarrow> nat \<Rightarrow> int \<Rightarrow> int \<times> int" where
  "month_of_day y 0 d = (12, d + 1)"
| "month_of_day y (Suc k) d = (let m = 12 - int (Suc k); len = daysIn m y in if d < len then (m, d + 1) else month_of_day y k (d - len))"

definition date_of_days :: "int \<Rightarrow> int \<times> int \<times> int" where
  "date_of_days n = (let (y, d) = year_of_days n; (m, md) = month_of_day y 11 d in (y, m, md))"

definition day_length :: duration where
  "day_length = 24 * hour"

definition Date_UTC :: "int \<Rightarrow> int \<Rightarrow> int \<Rightarrow> int \<Rightarrow> int \<Rightarrow> int \<Rightarrow> int \<Rightarrow> instant" where
  "Date_UTC y m d h mi s ns = zero_time + days_of_date y m d * day_length + h * hour + mi * minute + s * second + ns"

section \<open>Reading\<close>

type_synonym 'a reader = "string \<Rightarrow> ('a \<times> string) option"

definition read_char :: "char \<Rightarrow> unit reader" where
  "read_char c s = (case s of x # xs \<Rightarrow> if x = c then Some ((), xs) else None | [] \<Rightarrow> None)"

definition getnum :: "bool \<Rightarrow> int reader" where
  "getnum fixed s =
     (case s of
        [] \<Rightarrow> None
      | a # s1 \<Rightarrow> (case digit_val a of
           None \<Rightarrow> None
         | Some x \<Rightarrow> (case s1 of
              b # s2 \<Rightarrow> (case digit_val b of Some y \<Rightarrow> Some (int (10 * x + y), s2) | None \<Rightarrow> if fixed then None else Some (int x, s1))
            | [] \<Rightarrow> if fixed then None else Some (int x, []))))"

definition in_range :: "int \<Rightarrow> int \<Rightarrow> int reader \<Rightarrow> int reader" where
  "in_range lo hi rd s = (case rd s of None \<Rightarrow> None | Some (v, r) \<Rightarrow> if lo \<le> v \<and> v \<le> hi then Some (v, r) else None)"

definition year4 :: "int reader" where
  "year4 s = (if length s < 4 then None else map_option (\<lambda>n. (int n, drop 4 s)) (parse_uint (take 4 s)))"

definition bind_read :: "'a reader \<Rightarrow> ('a \<Rightarrow> 'b reader) \<Rightarrow> 'b reader" where
  "bind_read rd f s = (case rd s of None \<Rightarrow> None | Some (v, r) \<Rightarrow> f v r)"

definition done_read :: "'a \<Rightarrow> 'a reader" where
  "done_read v s = Some (v, s)"

text \<open>\<^verbatim>\<open>2006-01-02\<close>; the day is checked against the month.\<close>

definition read_date :: "(int \<times> int \<times> int) reader" where
  "read_date =
     bind_read year4 (\<lambda>y. bind_read (read_char (CHR ''-'')) (\<lambda>_.
     bind_read (in_range 1 12 (getnum True)) (\<lambda>m. bind_read (read_char (CHR ''-'')) (\<lambda>_.
     bind_read (in_range 1 (daysIn m y) (getnum True)) (\<lambda>d. done_read (y, m, d))))))"

text \<open>A fraction of a second after a period or comma: nine digits count.\<close>

definition read_fraction :: "int reader" where
  "read_fraction s =
     (case s of
        c # d # _ \<Rightarrow>
          (if c \<in> {CHR ''.'', CHR '',''} \<and> digit_val d \<noteq> None
           then let ds = takeWhile (\<lambda>x. digit_val x \<noteq> None) (tl s); used = take 9 ds
                in Some (int (the (parse_uint used)) * 10 ^ (9 - length used), drop (length ds) (tl s))
           else Some (0, s))
      | _ \<Rightarrow> Some (0, s))"

definition read_clock :: "(int \<times> int \<times> int \<times> int) reader" where
  "read_clock =
     bind_read (in_range 0 23 (getnum False)) (\<lambda>h. bind_read (read_char (CHR '':'')) (\<lambda>_.
     bind_read (in_range 0 59 (getnum True)) (\<lambda>mi. bind_read (read_char (CHR '':'')) (\<lambda>_.
     bind_read (in_range 0 59 (getnum True)) (\<lambda>s. bind_read read_fraction (\<lambda>ns. done_read (h, mi, s, ns)))))))"

definition read_stamp :: "instant reader" where
  "read_stamp =
     bind_read read_date (\<lambda>(y, m, d). bind_read (read_char (CHR ''T'')) (\<lambda>_.
     bind_read read_clock (\<lambda>(h, mi, s, ns). done_read (Date_UTC y m d h mi s ns))))"

text \<open>\<^verbatim>\<open>Z\<close>, or a sign, two digits, a colon and two digits.\<close>

definition read_zone :: "duration reader" where
  "read_zone s =
     (case s of
        [] \<Rightarrow> None
      | c # r \<Rightarrow>
          (if c = CHR ''Z'' then Some (0, r)
           else bind_read (in_range 0 24 (getnum True)) (\<lambda>h. bind_read (read_char (CHR '':'')) (\<lambda>_.
                bind_read (in_range 0 60 (getnum True)) (\<lambda>m.
                  if c = CHR ''+'' then done_read (h * hour + m * minute)
                  else if c = CHR ''-'' then done_read (- (h * hour + m * minute)) else (\<lambda>_. None)))) r))"

definition whole :: "'a reader \<Rightarrow> string \<Rightarrow> 'a option" where
  "whole rd s = (case rd s of Some (v, []) \<Rightarrow> Some v | _ \<Rightarrow> None)"

definition parse_date_layout :: "string \<Rightarrow> instant option" where
  "parse_date_layout = whole (bind_read read_date (\<lambda>(y, m, d). done_read (Date_UTC y m d 0 0 0 0)))"

definition parse_seconds_layout :: "string \<Rightarrow> instant option" where
  "parse_seconds_layout = whole read_stamp"

definition parse_RFC3339 :: "string \<Rightarrow> instant option" where
  "parse_RFC3339 = whole (bind_read read_stamp (\<lambda>t. bind_read read_zone (\<lambda>z. done_read (t - z))))"

section \<open>Writing\<close>

definition two_digits :: "int \<Rightarrow> string" where
  "two_digits n = [digit_char (nat (n div 10)), digit_char (nat (n mod 10))]"

text \<open>A year of 0 to 9999 has four digits.\<close>

definition four_digits :: "int \<Rightarrow> string" where
  "four_digits n = two_digits (n div 100) @ two_digits (n mod 100)"

definition format_date :: "instant \<Rightarrow> string" where
  "format_date t = (let (y, m, d) = date_of_days ((t - zero_time) div day_length) in four_digits y @ ''-'' @ two_digits m @ ''-'' @ two_digits d)"

definition format_seconds :: "instant \<Rightarrow> string" where
  "format_seconds t =
     (let c = (t - zero_time) mod day_length
      in format_date t @ ''T'' @ two_digits (c div hour) @ '':'' @ two_digits (c mod hour div minute) @ '':'' @ two_digits (c mod minute div second))"

definition format_RFC3339 :: "instant \<Rightarrow> string" where
  "format_RFC3339 t = format_seconds t @ ''Z''"

section \<open>The calendar is exact\<close>

lemma year_of_days:
  assumes "year_of_days n = (y, d)"
  shows "n = days_before_year y + d \<and> 0 \<le> d \<and> d < (if is_leap y then 366 else 365)"
proof -
  define a r where "a = n div 146097" and "r = n mod 146097"
  define b r1 where "b = min 3 (r div 36524)" and "r1 = r - 36524 * b"
  define c r2 where "c = r1 div 1461" and "r2 = r1 mod 1461"
  define e where "e = min 3 (r2 div 365)"
  have y: "y = 400 * a + (100 * b + (4 * c + e)) + 1" and d: "d = r2 - 365 * e"
    using assms by (auto simp: year_of_days_def Let_def a_def r_def b_def r1_def c_def r2_def e_def)
  have n: "n = 146097 * a + r" "0 \<le> r" "r < 146097" by (simp_all add: a_def r_def)
  have b: "0 \<le> b" "b \<le> 3" "0 \<le> r1" "r1 < 36525" "b < 3 \<Longrightarrow> r1 < 36524" "r = 36524 * b + r1"
    using n(2,3) by (auto simp: b_def r1_def min_def)
  have c: "0 \<le> c" "c \<le> 24" "0 \<le> r2" "r2 < 1461" "r1 = 1461 * c + r2" using b(3,4) by (auto simp: c_def r2_def)
  have c24: "c = 24 \<Longrightarrow> b < 3 \<Longrightarrow> r2 < 1460" using b(5) c(5) by simp
  have e: "0 \<le> e" "e \<le> 3" "0 \<le> d" "d < 366" "e < 3 \<Longrightarrow> d < 365" "r2 = 365 * e + d"
    using c(3,4) by (auto simp: e_def d min_def)
  have div: "(y - 1) div 4 = 100 * a + 25 * b + c" "(y - 1) div 100 = 4 * a + b" "(y - 1) div 400 = a"
    using b(1,2) c(1,2) e(1,2) unfolding y by simp_all
  have "n = days_before_year y + d" unfolding days_before_year_def div using n(1) b(6) c(5) e(6) y by simp
  moreover have "is_leap y" if "d = 365"
  proof -
    have "e = 3" using that e(2,5) by force
    moreover have "c = 24 \<Longrightarrow> b = 3" using c24 that e(6) b(2) \<open>e = 3\<close> by force
    ultimately consider "c < 24" "y = 4 * (100 * a + 25 * b + (c + 1))" "y = 100 * (4 * a + b) + 4 * (c + 1)" | "y = 400 * (a + 1)"
      using c(2) unfolding y by (cases "c = 24") auto
    then show ?thesis
    proof cases
      case 1
      have "y mod 100 = (4 * (c + 1)) mod 100" unfolding 1(3) by (metis mod_mult_self4)
      also have "\<dots> = 4 * (c + 1)" using 1(1) c(1) by (intro mod_pos_pos_trivial) simp_all
      finally have "y mod 100 = 4 * (c + 1)" .
      then show ?thesis using 1(2) c(1) by (simp add: is_leap_def)
    qed (simp add: is_leap_def)
  qed
  ultimately show ?thesis using e(3,4) by force
qed

lemma daysIn_bounds: "28 \<le> daysIn m y" "daysIn m y \<le> 31"
  by (simp_all add: daysIn_def)

lemma month_of_day:
  assumes "month_of_day y k d = (m, md)" and "0 \<le> d" and "k \<le> 11" and "d < (\<Sum>i \<in> {12 - k..12}. daysIn (int i) y)"
  shows "days_before_month y (11 - k) + d = days_before_month y (nat (m - 1)) + md - 1 \<and> 12 - int k \<le> m \<and> m \<le> 12 \<and> 1 \<le> md \<and> md \<le> daysIn m y"
  using assms
proof (induction k arbitrary: d)
  case (Suc k)
  let ?len = "daysIn (12 - int (Suc k)) y"
  have idx: "12 - int (Suc k) = int (11 - k)" "12 - Suc k = 11 - k" using Suc.prems(3) by auto
  show ?case
  proof (cases "d < ?len")
    case True
    then have "m = 12 - int (Suc k)" "md = d + 1" using Suc.prems(1) by (simp_all add: Let_def)
    moreover have "nat (12 - int (Suc k) - 1) = 11 - Suc k" using Suc.prems(3) by auto
    ultimately show ?thesis using True Suc.prems(2) by simp
  next
    case False
    have "{12 - Suc k..12} = insert (12 - Suc k) {12 - k..12}" using Suc.prems(3) by auto
    then have "(\<Sum>i \<in> {12 - Suc k..12}. daysIn (int i) y) = ?len + (\<Sum>i \<in> {12 - k..12}. daysIn (int i) y)"
      using Suc.prems(3) by (simp add: idx)
    then have "days_before_month y (11 - k) + (d - ?len) = days_before_month y (nat (m - 1)) + md - 1 \<and> 12 - int k \<le> m \<and> m \<le> 12 \<and> 1 \<le> md \<and> md \<le> daysIn m y"
      using False Suc.prems by (intro Suc.IH) (simp_all add: Let_def)
    moreover have "days_before_month y (11 - k) = days_before_month y (11 - Suc k) + ?len"
    proof -
      have "11 - k = Suc (11 - Suc k)" using Suc.prems(3) by simp
      then show ?thesis using days_before_month.simps(2) [of y "11 - Suc k"] idx by simp
    qed
    ultimately show ?thesis by linarith
  qed
qed simp

lemma year_length: "(\<Sum>i \<in> {1..12 :: nat}. daysIn (int i) y) = (if is_leap y then 366 else 365)"
  by (simp add: daysIn_def numeral_eq_Suc)

lemma date_of_days:
  assumes "date_of_days n = (y, m, d)"
  shows "days_of_date y m d = n \<and> 1 \<le> m \<and> m \<le> 12 \<and> 1 \<le> d \<and> d \<le> daysIn m y"
proof -
  obtain yd where yd: "year_of_days n = (y, yd)" and md: "month_of_day y 11 yd = (m, d)"
    using assms by (auto simp: date_of_days_def split: prod.splits)
  note year = year_of_days [OF yd]
  have "yd < (\<Sum>i \<in> {12 - 11..12 :: nat}. daysIn (int i) y)" using year year_length [of y] by simp
  from month_of_day [OF md _ _ this] year show ?thesis by (simp add: days_of_date_def)
qed

section \<open>What is written is read back\<close>

lemma getnum_two_digits: "0 \<le> n \<Longrightarrow> n < 100 \<Longrightarrow> getnum fixed (two_digits n @ r) = Some (n, r)"
  by (simp add: getnum_def two_digits_def nat_less_iff pos_imp_zdiv_nonneg_iff)

lemma in_range_two_digits: "0 \<le> n \<Longrightarrow> n < 100 \<Longrightarrow> lo \<le> n \<Longrightarrow> n \<le> hi \<Longrightarrow> in_range lo hi (getnum fixed) (two_digits n @ r) = Some (n, r)"
  by (simp add: in_range_def getnum_two_digits)

lemma year4_digits:
  "a < 10 \<Longrightarrow> b < 10 \<Longrightarrow> c < 10 \<Longrightarrow> e < 10 \<Longrightarrow>
     year4 ([digit_char a, digit_char b] @ [digit_char c, digit_char e] @ r) = Some (int (1000 * a + 100 * b + 10 * c + e), r)"
  by (simp add: year4_def parse_uint_def)

lemma year4_four_digits:
  assumes "0 \<le> n" and "n < 10000"
  shows "year4 (four_digits n @ r) = Some (n, r)"
proof -
  have d: "nat (n div 100 div 10) < 10" "nat (n div 100 mod 10) < 10" "nat (n mod 100 div 10) < 10" "nat (n mod 100 mod 10) < 10"
    using assms by (auto simp: nat_less_iff)
  have "1000 * (n div 100 div 10) + 100 * (n div 100 mod 10) + 10 * (n mod 100 div 10) + n mod 100 mod 10 = n"
  proof -
    have join: "x = a * 10 + b \<Longrightarrow> y = c * 10 + e \<Longrightarrow> n = x * 100 + y \<Longrightarrow> 1000 * a + 100 * b + 10 * c + e = n" for x y a b c e :: int by simp
    show ?thesis by (rule join [OF div_mult_mod_eq [symmetric] div_mult_mod_eq [symmetric] div_mult_mod_eq [symmetric]])
  qed
  moreover have "0 \<le> n div 100 div 10" "0 \<le> n div 100 mod 10" "0 \<le> n mod 100 div 10" "0 \<le> n mod 100 mod 10" using assms by auto
  ultimately have "int (1000 * nat (n div 100 div 10) + 100 * nat (n div 100 mod 10) + 10 * nat (n mod 100 div 10) + nat (n mod 100 mod 10)) = n"
    by (simp only: of_nat_add of_nat_mult of_nat_numeral int_nat_eq if_True)
  then show ?thesis unfolding four_digits_def two_digits_def append_assoc year4_digits [OF d] by (simp only:)
qed

lemma read_char_same [simp]: "read_char c (c # r) = Some ((), r)"
  by (simp add: read_char_def)

definition year_of :: "instant \<Rightarrow> int" where
  "year_of t = fst (date_of_days ((t - zero_time) div day_length))"

lemma read_format_date:
  assumes "date_of_days ((t - zero_time) div day_length) = (y, m, d)" and "0 \<le> y" and "y < 10000"
  shows "read_date (format_date t @ r) = Some ((y, m, d), r)"
proof -
  note date = date_of_days [OF assms(1)]
  have "d < 100" using date daysIn_bounds(2) [of m y] by linarith
  then show ?thesis
    using assms date by (simp add: read_date_def format_date_def bind_read_def year4_four_digits in_range_two_digits done_read_def)
qed

lemma clock_parts:
  fixes c :: int
  assumes "0 \<le> c" and "c < day_length" and "c mod second = 0"
  shows "c div hour * hour + c mod hour div minute * minute + c mod minute div second * second = c"
    "0 \<le> c div hour" "c div hour \<le> 23" "0 \<le> c mod hour div minute" "c mod hour div minute \<le> 59" "0 \<le> c mod minute div second" "c mod minute div second \<le> 59"
proof -
  have "c mod minute = c mod hour mod minute" by (simp add: go_time mod_mod_cancel)
  moreover have "c mod minute mod second = 0" using assms(3) by (simp add: go_time mod_mod_cancel)
  moreover have "c mod minute div second * second + c mod minute mod second = c mod minute" by simp
  moreover have "c mod hour div minute * minute + c mod hour mod minute = c mod hour" by simp
  moreover have "c div hour * hour + c mod hour = c" by simp
  ultimately show "c div hour * hour + c mod hour div minute * minute + c mod minute div second * second = c" by linarith
qed (use assms in \<open>auto simp: go_time day_length_def\<close>)

lemma read_format_seconds:
  assumes "0 \<le> year_of t" and "year_of t < 10000" and "t mod second = 0" and "r = [] \<or> hd r = CHR ''Z''"
  shows "read_stamp (format_seconds t @ r) = Some (t, r)"
proof -
  let ?c = "(t - zero_time) mod day_length"
  obtain y m d where ymd: "date_of_days ((t - zero_time) div day_length) = (y, m, d)" by (metis prod_cases3)
  note date = read_format_date [OF ymd]
  have y: "0 \<le> y" "y < 10000" using assms(1,2) ymd by (simp_all add: year_of_def)
  have c: "0 \<le> ?c" "?c < day_length" "?c mod second = 0"
    using assms(3) by (simp_all add: day_length_def go_time zero_time_def mod_mod_cancel mod_add_eq [symmetric])
  note parts = clock_parts [OF c]
  have frac: "read_fraction r = Some (0, r)" using assms(4) by (cases r) (auto simp: read_fraction_def split: list.split)
  have clock: "read_clock (two_digits (?c div hour) @ CHR '':'' # two_digits (?c mod hour div minute) @ CHR '':'' # two_digits (?c mod minute div second) @ r)
      = Some ((?c div hour, ?c mod hour div minute, ?c mod minute div second, 0), r)"
    using parts(2-7) frac by (simp add: read_clock_def bind_read_def in_range_two_digits done_read_def)
  have "Date_UTC y m d (?c div hour) (?c mod hour div minute) (?c mod minute div second) 0 = t"
    unfolding Date_UTC_def conjunct1 [OF date_of_days [OF ymd]] using parts(1) div_mult_mod_eq [of "t - zero_time" day_length] by linarith
  then show ?thesis using date [OF y] clock by (simp add: read_stamp_def format_seconds_def bind_read_def done_read_def Let_def)
qed

theorem parse_format_seconds: "0 \<le> year_of t \<Longrightarrow> year_of t < 10000 \<Longrightarrow> t mod second = 0 \<Longrightarrow> parse_seconds_layout (format_seconds t) = Some t"
  using read_format_seconds [of t "[]"] by (simp add: parse_seconds_layout_def whole_def)

theorem parse_format_RFC3339: "0 \<le> year_of t \<Longrightarrow> year_of t < 10000 \<Longrightarrow> t mod second = 0 \<Longrightarrow> parse_RFC3339 (format_RFC3339 t) = Some t"
  using read_format_seconds [of t "''Z''"] by (simp add: parse_RFC3339_def format_RFC3339_def whole_def bind_read_def read_zone_def done_read_def)

lemma parse_date_day: "parse_date_layout s = Some t \<Longrightarrow> t mod day_length = 0"
  by (auto simp: parse_date_layout_def whole_def bind_read_def done_read_def Date_UTC_def zero_time_def day_length_def go_time split: option.splits prod.splits list.splits)

end
