(* ===== verification/Rain_Cache.thy ===== *)
theory Rain_Cache
  imports Sim_Scenario Go_Time "HOL-Library.Multiset"
begin

text \<open>
  The cache of observed hourly rain (\<^verbatim>\<open>internal/raincache\<close>): what the importer merges into a station's file, how the file is saved and
  loaded, and how the simulator (\<^verbatim>\<open>observedRain\<close> of \<^verbatim>\<open>cmd/simulator\<close>) turns a covered window of it into a scenario. The disk is a map from
  paths to contents, the operating system's failures and the JSON codec are parameters.
\<close>

section \<open>The file\<close>

record rain_hour =
  rh_End :: instant
  rh_MM :: real

record rain_fetch =
  rw_From :: instant
  rw_To :: instant
  rw_FetchedAt :: instant
  rw_URL :: string
  rw_Hours :: int
  rw_Skipped :: int

record rain_file =
  rc_Version :: int
  rc_Source :: string
  rc_Station :: string
  rc_Licence :: string
  rc_Attribution :: string
  rc_Semantics :: string
  rc_Fetches :: "rain_fetch list"
  rc_Hours :: "rain_hour list"

datatype cache_error =
    EmptyFetchWindow | HourOutside instant | HourAmount instant real | HourTwice instant
  | NotCovered string instant instant instant
  | CacheReadErr string bool | CacheJSONErr string string | CacheVersionErr string int
  | CacheMarshalErr string | CacheOSErr string
  | BadTime string string | NeedFromTo | ScenarioErr sim_error

definition cache_version :: int where "cache_version = 1"
definition cache_source :: string where "cache_source = ''ECCC MSC GeoMet climate-hourly (api.weather.gc.ca)''"
definition cache_licence :: string where
  "cache_licence = ''Environment and Climate Change Canada Data Services End-use Licence (https://eccc-msc.github.io/open-data/licence/readme_en/)''"
definition cache_attribution :: string where "cache_attribution = ''Data Source: Environment and Climate Change Canada''"
definition cache_semantics :: string where
  "cache_semantics = ''mm is PRECIP_AMOUNT for the hour ending at hour_end (UTC_DATE); hours inside a fetch window without an amount were null or flagged missing and count as dry''"

definition cache_New :: "string \<Rightarrow> rain_file" where
  "cache_New station =
     \<lparr>rc_Version = cache_version, rc_Source = cache_source, rc_Station = station, rc_Licence = cache_licence,
      rc_Attribution = cache_attribution, rc_Semantics = cache_semantics, rc_Fetches = [], rc_Hours = []\<rparr>"

text \<open>\<^verbatim>\<open>filepath.Join\<close> of a relative path: empty and dot elements go, a double dot removes the element before it.\<close>

fun clean_elems :: "string list \<Rightarrow> string list \<Rightarrow> string list" where
  "clean_elems acc [] = rev acc"
| "clean_elems acc (e # es) =
     (if e = [] \<or> e = ''.'' then clean_elems acc es
      else if e = ''..'' \<and> acc \<noteq> [] \<and> hd acc \<noteq> ''..'' then clean_elems (tl acc) es
      else clean_elems (e # acc) es)"

fun join_elems :: "string list \<Rightarrow> string" where
  "join_elems [] = ''.''"
| "join_elems [e] = e"
| "join_elems (e # es) = e @ ''/'' @ join_elems es"

definition DefaultPath :: "string \<Rightarrow> string" where
  "DefaultPath station = join_elems (clean_elems [] (Split (CHR ''/'') (''data/rain/eccc-hourly-'' @ station @ ''.json'')))"

section \<open>Merging a fetch\<close>

definition outside_fetch :: "rain_fetch \<Rightarrow> instant \<Rightarrow> bool" where
  "outside_fetch w t \<longleftrightarrow> \<not> t > rw_From w \<or> t > rw_To w"

fun merge_hours :: "rain_fetch \<Rightarrow> rain_hour list \<Rightarrow> rain_hour list \<Rightarrow> cache_error + rain_hour list" where
  "merge_hours w [] kept = Inr kept"
| "merge_hours w (h # hs) kept =
     (if outside_fetch w (rh_End h) then Inl (HourOutside (rh_End h))
      else if rh_MM h < 0 then Inl (HourAmount (rh_End h) (rh_MM h))
      else merge_hours w hs (kept @ [\<lparr>rh_End = rh_End h, rh_MM = rh_MM h\<rparr>]))"

fun first_twice :: "rain_hour list \<Rightarrow> instant option" where
  "first_twice (a # b # hs) = (if rh_End b = rh_End a then Some (rh_End b) else first_twice (b # hs))"
| "first_twice _ = None"

definition cache_Merge :: "rain_fetch \<Rightarrow> rain_hour list \<Rightarrow> rain_file \<Rightarrow> cache_error + rain_file" where
  "cache_Merge fetch hours f =
     (if \<not> rw_To fetch > rw_From fetch then Inl EmptyFetchWindow
      else bind_sum (merge_hours fetch hours (filter (\<lambda>h. outside_fetch fetch (rh_End h)) (rc_Hours f))) (\<lambda>kept.
        let kept = sort_key rh_End kept
        in case first_twice kept of
             Some t \<Rightarrow> Inl (HourTwice t)
           | None \<Rightarrow> Inr (f\<lparr>rc_Hours := kept, rc_Fetches := rc_Fetches f @ [fetch\<lparr>rw_Hours := int (length hours)\<rparr>]\<rparr>)))"

section \<open>Coverage and windows\<close>

text \<open>The loop over the fetches by start: whether the end is reached, and how far they reach.\<close>

fun reach_loop :: "instant \<Rightarrow> instant \<Rightarrow> rain_fetch list \<Rightarrow> bool \<times> instant" where
  "reach_loop to_ts reach [] = (False, reach)"
| "reach_loop to_ts reach (w # ws) =
     (if rw_From w > reach then (False, reach)
      else let reach = (if rw_To w > reach then rw_To w else reach)
           in if \<not> reach < to_ts then (True, reach) else reach_loop to_ts reach ws)"

definition Covered :: "rain_file \<Rightarrow> instant \<Rightarrow> instant \<Rightarrow> cache_error option" where
  "Covered f from_ts to_ts =
     (case reach_loop to_ts from_ts (sort_key rw_From (rc_Fetches f)) of
        (True, _) \<Rightarrow> None
      | (False, reach) \<Rightarrow> Some (NotCovered (rc_Station f) reach from_ts to_ts))"

definition cache_Window :: "rain_file \<Rightarrow> instant \<Rightarrow> instant \<Rightarrow> hourly_rain list" where
  "cache_Window f from_ts to_ts =
     map (\<lambda>h. \<lparr>hr_End = rh_End h, hr_MM = rh_MM h\<rparr>) (filter (\<lambda>h. rh_End h > from_ts \<and> \<not> rh_End h > to_ts) (rc_Hours f))"

section \<open>Loading and saving\<close>

type_synonym disk = "string \<rightharpoonup> string"

text \<open>
  The operating system: whether a read fails, a directory cannot be made, a write fails (and what it leaves of the file), a rename fails.
  A read error says whether the file does not exist.
\<close>

record os_faults =
  os_read :: "string \<Rightarrow> bool"
  os_mkdir :: "string \<Rightarrow> string option"
  os_write :: "string \<Rightarrow> (string \<times> string option) option"
  os_rename :: "string \<Rightarrow> string \<Rightarrow> string option"

definition os_fine :: os_faults where
  "os_fine = \<lparr>os_read = (\<lambda>_. False), os_mkdir = (\<lambda>_. None), os_write = (\<lambda>_. None), os_rename = (\<lambda>_ _. None)\<rparr>"

definition cache_Load :: "(string \<Rightarrow> string + rain_file) \<Rightarrow> os_faults \<Rightarrow> disk \<Rightarrow> string \<Rightarrow> cache_error + rain_file" where
  "cache_Load unmarshal F disk path =
     (case disk path of
        None \<Rightarrow> Inl (CacheReadErr path True)
      | Some b \<Rightarrow>
          if os_read F path then Inl (CacheReadErr path False)
          else case unmarshal b of
            Inl e \<Rightarrow> Inl (CacheJSONErr path e)
          | Inr f \<Rightarrow> if rc_Version f \<noteq> cache_version then Inl (CacheVersionErr path (rc_Version f)) else Inr f)"

definition cache_Write :: "(rain_file \<Rightarrow> string + string) \<Rightarrow> os_faults \<Rightarrow> string \<Rightarrow> rain_file \<Rightarrow> disk \<Rightarrow> disk \<times> cache_error option" where
  "cache_Write marshal F path f disk =
     (case marshal f of
        Inl e \<Rightarrow> (disk, Some (CacheMarshalErr e))
      | Inr b \<Rightarrow>
          let tmp = path @ ''.tmp''
          in case os_mkdir F path of
               Some e \<Rightarrow> (disk, Some (CacheOSErr e))
             | None \<Rightarrow>
                 (case os_write F tmp of
                    Some (e, torn) \<Rightarrow> (disk(tmp := torn), Some (CacheOSErr e))
                  | None \<Rightarrow>
                      (case os_rename F tmp path of
                         Some e \<Rightarrow> (disk(tmp \<mapsto> b @ [CHR 0x0A]), Some (CacheOSErr e))
                       | None \<Rightarrow> (disk(path \<mapsto> b @ [CHR 0x0A], tmp := None), None))))"

definition ParseTime :: "string \<Rightarrow> instant option" where
  "ParseTime s = (case parse_date_layout s of Some t \<Rightarrow> Some t | None \<Rightarrow> parse_RFC3339 s)"

section \<open>Climate days\<close>

record day_total =
  dt_Day :: instant
  dt_MM :: real

text \<open>\<^verbatim>\<open>Truncate\<close> rounds down to a multiple of the duration since the zero time.\<close>

definition truncate_day :: "instant \<Rightarrow> instant" where
  "truncate_day t = t - (t - zero_time) mod day_length"

definition climate_day :: "instant \<Rightarrow> instant" where
  "climate_day hour_end = truncate_day (hour_end - 6 * hour - 1)"

definition add_hour :: "day_total list \<Rightarrow> hourly_rain \<Rightarrow> day_total list" where
  "add_hour out h =
     (let day = climate_day (hr_End h)
      in if out \<noteq> [] \<and> dt_Day (last out) = day then butlast out @ [(last out)\<lparr>dt_MM := dt_MM (last out) + hr_MM h\<rparr>]
         else if hr_MM h > 0 then out @ [\<lparr>dt_Day = day, dt_MM = hr_MM h\<rparr>]
         else out @ [\<lparr>dt_Day = day, dt_MM = 0\<rparr>])"

definition ClimateDays :: "hourly_rain list \<Rightarrow> day_total list" where
  "ClimateDays hours = filter (\<lambda>d. dt_MM d > 0) (map (\<lambda>d. d\<lparr>dt_MM := math_round (dt_MM d * 10) / 10\<rparr>) (foldl add_hour [] hours))"

section \<open>The simulator's observed rain\<close>

definition observedScenario :: string where "observedScenario = ''eccc''"

definition observed_description :: "rain_file \<Rightarrow> instant \<Rightarrow> instant \<Rightarrow> string" where
  "observed_description rc from_ts to_ts =
     ''Observed ECCC hourly rain, station '' @ rc_Station rc @ '', hours ending '' @ format_RFC3339 (from_ts + hour) @ '' to ''
       @ format_RFC3339 to_ts @ '' ('' @ cache_attribution @ '')''"

definition observedRain ::
  "(string \<Rightarrow> string + rain_file) \<Rightarrow> os_faults \<Rightarrow> disk \<Rightarrow> string \<Rightarrow> string \<Rightarrow> string \<Rightarrow> string \<Rightarrow> cache_error + (scenario \<times> instant)" where
  "observedRain unmarshal F disk file station fromS toS =
     (if fromS = '''' \<or> toS = '''' then Inl NeedFromTo
      else case ParseTime fromS of
        None \<Rightarrow> Inl (BadTime ''-from'' fromS)
      | Some from_ts \<Rightarrow>
          (case ParseTime toS of
             None \<Rightarrow> Inl (BadTime ''-to'' toS)
           | Some to_ts \<Rightarrow>
               let file = (if file = '''' then DefaultPath station else file)
               in bind_sum (cache_Load unmarshal F disk file) (\<lambda>rc.
                 case Covered rc from_ts to_ts of
                   Some e \<Rightarrow> Inl e
                 | None \<Rightarrow>
                     (case ObservedRainScenario observedScenario (observed_description rc from_ts to_ts) from_ts to_ts (cache_Window rc from_ts to_ts) of
                        Inl e \<Rightarrow> Inl (ScenarioErr e)
                      | Inr s \<Rightarrow> Inr (s, from_ts)))))"

section \<open>Merging keeps the file in order\<close>

abbreviation in_fetch :: "rain_fetch \<Rightarrow> instant \<Rightarrow> bool" where
  "in_fetch w t \<equiv> rw_From w < t \<and> t \<le> rw_To w"

lemma outside_fetch_iff: "outside_fetch w t \<longleftrightarrow> \<not> in_fetch w t"
  by (auto simp: outside_fetch_def)

text \<open>Hours in order of their ends, none twice, none negative, each from a fetch that asked for it.\<close>

definition cache_ok :: "rain_file \<Rightarrow> bool" where
  "cache_ok f \<longleftrightarrow> sorted_wrt (\<lambda>a b. rh_End a < rh_End b) (rc_Hours f)
     \<and> (\<forall>h \<in> set (rc_Hours f). 0 \<le> rh_MM h \<and> (\<exists>w \<in> set (rc_Fetches f). in_fetch w (rh_End h)))
     \<and> (\<forall>w \<in> set (rc_Fetches f). rw_From w < rw_To w)"

lemma cache_New_ok: "cache_ok (cache_New station)"
  by (simp add: cache_ok_def cache_New_def)

lemma merge_hours_Inr: "merge_hours w hs kept = Inr out \<longleftrightarrow> (\<forall>h \<in> set hs. in_fetch w (rh_End h) \<and> 0 \<le> rh_MM h) \<and> out = kept @ hs"
  by (induction w hs kept rule: merge_hours.induct) (auto simp: outside_fetch_iff)

lemma first_twice_None:
  "sorted (map rh_End hs) \<Longrightarrow> first_twice hs = None \<longleftrightarrow> distinct (map rh_End hs)"
  by (induction hs rule: first_twice.induct) force+

lemma strictly_sorted_hours: "sorted_wrt (\<lambda>a b. rh_End a < rh_End b) hs \<longleftrightarrow> sorted (map rh_End hs) \<and> distinct (map rh_End hs)"
  using strict_sorted_iff [of "map rh_End hs"] by (simp add: sorted_wrt_map)

lemma distinct_sort_key: "distinct (map f (sort_key g xs)) \<longleftrightarrow> distinct (map f xs)"
  by (rule mset_eq_imp_distinct_iff) simp

lemma merge_Inr:
  assumes "cache_ok f"
  shows "cache_Merge fetch hours f = Inr f' \<longleftrightarrow>
    rw_From fetch < rw_To fetch \<and> (\<forall>h \<in> set hours. in_fetch fetch (rh_End h) \<and> 0 \<le> rh_MM h) \<and> distinct (map rh_End hours)
    \<and> f' = f\<lparr>rc_Hours := sort_key rh_End (filter (\<lambda>h. \<not> in_fetch fetch (rh_End h)) (rc_Hours f) @ hours),
            rc_Fetches := rc_Fetches f @ [fetch\<lparr>rw_Hours := int (length hours)\<rparr>]\<rparr>"
proof -
  let ?kept = "filter (\<lambda>h. \<not> in_fetch fetch (rh_End h)) (rc_Hours f)"
  have kept: "distinct (map rh_End ?kept)" using assms by (simp add: cache_ok_def strictly_sorted_hours distinct_map_filter)
  have twice: "first_twice (sort_key rh_End (?kept @ hours)) = None \<longleftrightarrow> distinct (map rh_End hours)"
    if "\<forall>h \<in> set hours. in_fetch fetch (rh_End h)"
  proof -
    have "distinct (map rh_End (sort_key rh_End (?kept @ hours))) \<longleftrightarrow> distinct (map rh_End (?kept @ hours))"
      by (rule distinct_sort_key)
    also have "\<dots> \<longleftrightarrow> distinct (map rh_End hours)" using kept that by fastforce
    finally show ?thesis by (simp add: first_twice_None)
  qed
  show ?thesis
    using twice by (auto simp: cache_Merge_def bind_sum_Inr_iff merge_hours_Inr outside_fetch_iff Let_def split: option.splits)
qed

text \<open>
  Merging a fetch into the cache succeeds exactly when its window is not empty, its hours lie in the window, have amounts that are not negative and
  differ in their ends; then the hours of the window are replaced by the fetched ones, every other hour is kept, and the file stays in order with
  every hour accounted for by a fetch. A refused merge returns no file, so the old one stays.
\<close>

theorem merge_replaces_window:
  assumes "cache_ok f"
  shows "case cache_Merge fetch hours f of
      Inl e \<Rightarrow> \<not> (rw_From fetch < rw_To fetch \<and> (\<forall>h \<in> set hours. in_fetch fetch (rh_End h) \<and> 0 \<le> rh_MM h) \<and> distinct (map rh_End hours))
    | Inr f' \<Rightarrow> cache_ok f' \<and> rc_Station f' = rc_Station f \<and> rc_Version f' = rc_Version f
        \<and> set (rc_Hours f') = {h \<in> set (rc_Hours f). \<not> in_fetch fetch (rh_End h)} \<union> set hours
        \<and> (\<forall>h \<in> set hours. in_fetch fetch (rh_End h) \<and> 0 \<le> rh_MM h)"
proof (cases "cache_Merge fetch hours f")
  case (Inl e)
  then show ?thesis using merge_Inr [OF assms, of fetch hours] by auto
next
  case (Inr f')
  let ?kept = "filter (\<lambda>h. \<not> in_fetch fetch (rh_End h)) (rc_Hours f)"
  note m = iffD1 [OF merge_Inr [OF assms] Inr]
  have "distinct (map rh_End ?kept)" using assms by (simp add: cache_ok_def strictly_sorted_hours distinct_map_filter)
  then have "distinct (map rh_End (?kept @ hours))" using m by fastforce
  then have "distinct (map rh_End (sort_key rh_End (?kept @ hours)))" by (simp only: distinct_sort_key)
  then have "cache_ok f'" using m assms by (auto simp: cache_ok_def strictly_sorted_hours)
  then show ?thesis using Inr m by auto
qed

section \<open>Coverage\<close>

lemma reach_loop_sound:
  "reach_loop to_ts reach ws = (True, r) \<Longrightarrow> reach < t \<Longrightarrow> t \<le> to_ts \<Longrightarrow> \<exists>w \<in> set ws. in_fetch w t"
proof (induction to_ts reach ws rule: reach_loop.induct)
  case (2 to_ts reach w ws)
  then show ?case by (cases "in_fetch w t") (auto simp: Let_def split: if_splits)
qed simp

lemma reach_loop_complete:
  "reach_loop to_ts reach ws = (False, r) \<Longrightarrow> sorted (map rw_From ws) \<Longrightarrow> reach < to_ts \<Longrightarrow>
     reach \<le> r \<and> r < to_ts \<and> \<not> (\<exists>w \<in> set ws. in_fetch w (r + 1))"
proof (induction to_ts reach ws rule: reach_loop.induct)
  case (2 to_ts reach w ws)
  show ?case
  proof (cases "rw_From w > reach")
    case True
    then show ?thesis using 2(2-4) by fastforce
  next
    case False
    let ?reach = "if rw_To w > reach then rw_To w else reach"
    have "?reach < to_ts" "reach_loop to_ts ?reach ws = (False, r)" using False 2(2) by (auto simp: Let_def split: if_splits)
    then have "?reach \<le> r \<and> r < to_ts \<and> \<not> (\<exists>w \<in> set ws. in_fetch w (r + 1))" using 2(1) [OF False refl] 2(3) by auto
    then show ?thesis by (auto split: if_splits)
  qed
qed simp

text \<open>
  A window counts as covered exactly when every instant in it that could end an hour lies in the window of a recorded fetch, however the
  fetches overlap and in whatever order they were made.
\<close>

theorem covered_iff_fetched:
  assumes "from_ts < to_ts"
  shows "Covered f from_ts to_ts = None \<longleftrightarrow> (\<forall>t. from_ts < t \<and> t \<le> to_ts \<longrightarrow> (\<exists>w \<in> set (rc_Fetches f). in_fetch w t))"
proof -
  let ?ws = "sort_key rw_From (rc_Fetches f)"
  obtain ok r where run: "reach_loop to_ts from_ts ?ws = (ok, r)" by (metis surj_pair)
  show ?thesis
  proof (cases ok)
    case True
    then show ?thesis using reach_loop_sound [of to_ts from_ts ?ws r] run by (auto simp: Covered_def)
  next
    case False
    then have "from_ts \<le> r \<and> r < to_ts \<and> \<not> (\<exists>w \<in> set ?ws. in_fetch w (r + 1))"
      using reach_loop_complete [of to_ts from_ts ?ws r] run assms by simp
    moreover have "Covered f from_ts to_ts \<noteq> None" using run False by (simp add: Covered_def)
    ultimately show ?thesis by (metis set_sort add_le_cancel_right zless_add1_eq le_less_trans less_add_one zless_imp_add1_zle)
  qed
qed

section \<open>From the import to the replay\<close>

lemma write_atomic:
  assumes "cache_Write marshal F path f disk = (disk', err)"
  shows "disk' path = (if err = None then map_option (\<lambda>b. b @ [CHR 0x0A]) (case marshal f of Inr b \<Rightarrow> Some b | Inl _ \<Rightarrow> None) else disk path)"
    and "err = None \<Longrightarrow> \<exists>b. marshal f = Inr b" and "q \<noteq> path \<Longrightarrow> q \<noteq> path @ ''.tmp'' \<Longrightarrow> disk' q = disk q"
  using assms by (auto simp: cache_Write_def Let_def split: sum.splits option.splits)

lemma write_then_load:
  assumes "\<And>f b. marshal f = Inr b \<Longrightarrow> unmarshal (b @ [CHR 0x0A]) = Inr f"
    and "cache_Write marshal F path f disk = (disk', None)" and "rc_Version f = cache_version" and "\<not> os_read G path"
  shows "cache_Load unmarshal G disk' path = Inr f"
  using write_atomic(1,2) [OF assms(2)] assms(1,3,4) by (auto simp: cache_Load_def)

lemma fill_hours_total:
  assumes "\<And>h. h \<in> set hs \<Longrightarrow> hr_End h mod minute = 0 \<and> 0 \<le> hr_MM h" and "distinct (map hr_End hs)" and "\<And>h. h \<in> set hs \<Longrightarrow> hr_End h div second \<notin> seen"
  shows "\<exists>out. fill_hours from_ts seen hs xs = Inr out"
  using assms
proof (induction from_ts seen hs xs rule: fill_hours.induct)
  case (2 from_ts seen h hs xs)
  have "hr_End a div second \<noteq> hr_End h div second" if "a \<in> set hs" for a
  proof -
    have "hr_End a mod second = 0" "hr_End h mod second = 0" using 2(2) [of a] 2(2) [of h] that by (auto simp: go_time)
    moreover have "hr_End a \<noteq> hr_End h" using 2(3) that by (auto simp: image_iff)
    ultimately show ?thesis by (metis div_mult_mod_eq)
  qed
  moreover have "hr_End h mod minute = 0" "\<not> hr_MM h < 0" "hr_End h div second \<notin> seen" using 2(2,4) [of h] by auto
  ultimately show ?case using 2 by auto
qed simp

lemma window_of_fetch:
  assumes "cache_ok f" and "cache_Merge fetch hours f = Inr f'"
  shows "cache_Window f' (rw_From fetch) (rw_To fetch) = map (\<lambda>h. \<lparr>hr_End = rh_End h, hr_MM = rh_MM h\<rparr>) (sort_key rh_End hours)"
proof -
  note m = iffD1 [OF merge_Inr [OF assms(1)] assms(2)]
  let ?P = "\<lambda>h. rw_From fetch < rh_End h \<and> \<not> rw_To fetch < rh_End h"
  have "filter ?P hours = hours" using m by (auto simp: filter_id_conv)
  moreover have "filter ?P (filter (\<lambda>h. \<not> in_fetch fetch (rh_End h)) (rc_Hours f)) = []" by (auto simp: filter_empty_conv)
  ultimately have "filter ?P (rc_Hours f') = sort_key rh_End hours" using m by (simp add: filter_sort)
  then show ?thesis by (simp add: cache_Window_def)
qed

lemma whole_hours_apart:
  assumes "sorted_wrt (\<lambda>a b. hr_End a < hr_End b) hs" and "\<And>h. h \<in> set hs \<Longrightarrow> hr_End h mod hour = 0"
  shows "hours_apart hs"
proof -
  have gap: "hour \<le> \<bar>b - a\<bar>" if "a < b" "a mod hour = 0" "b mod hour = 0" for a b :: int
  proof -
    have "hour dvd b - a" using that(2,3) by (simp add: mod_eq_0_iff_dvd)
    then show ?thesis using that(1) zdvd_imp_le [of hour "b - a"] by simp
  qed
  show ?thesis unfolding hours_apart_def by (rule sorted_wrt_mono_rel [OF _ assms(1)]) (use gap assms(2) in blast)
qed

lemma ParseTime_nonempty: "ParseTime s = Some t \<Longrightarrow> s \<noteq> ''''"
  by (auto simp: ParseTime_def parse_date_layout_def parse_RFC3339_def whole_def bind_read_def read_stamp_def read_date_def year4_def)

text \<open>
  What is imported is what is replayed. A fetch of whole hours merged into a cache in order and saved, then loaded by the simulator for the fetched
  window, is accepted as covered and gives a valid scenario that starts with the window and whose rain over the whole window is the sum of the imported
  amounts, given a JSON codec that reads back what it writes.
\<close>

theorem import_replay_total:
  assumes codec: "\<And>f b. marshal f = Inr b \<Longrightarrow> unmarshal (b @ [CHR 0x0A]) = Inr f"
    and ok: "cache_ok f" "rc_Version f = cache_version" and merge: "cache_Merge fetch hours f = Inr f'"
    and saved: "cache_Write marshal F path f' disk = (disk', None)" and read: "\<not> os_read G path" "path = (if file = '''' then DefaultPath station else file)"
    and times: "ParseTime fromS = Some (rw_From fetch)" "ParseTime toS = Some (rw_To fetch)"
    and aligned: "rw_From fetch mod hour = 0" "rw_To fetch mod hour = 0" "\<And>h. h \<in> set hours \<Longrightarrow> rh_End h mod hour = 0"
  shows "\<exists>s. observedRain unmarshal G disk' file station fromS toS = Inr (s, rw_From fetch)
    \<and> RainTotal s = (\<Sum>h \<leftarrow> hours. rh_MM h) \<and> scenario_validate s = None"
proof -
  let ?from = "rw_From fetch" and ?to = "rw_To fetch" and ?conv = "\<lambda>h. \<lparr>hr_End = rh_End h, hr_MM = rh_MM h\<rparr>"
  note merged = iffD1 [OF merge_Inr [OF ok(1)] merge]
  have m: "?from < ?to" "\<And>h. h \<in> set hours \<Longrightarrow> ?from < rh_End h \<and> rh_End h \<le> ?to \<and> 0 \<le> rh_MM h" "distinct (map rh_End hours)"
    using merged by blast+
  let ?win = "cache_Window f' ?from ?to"
  have win: "?win = map ?conv (sort_key rh_End hours)" by (rule window_of_fetch [OF ok(1) merge])
  have load: "cache_Load unmarshal G disk' path = Inr f'" by (rule write_then_load [where marshal = marshal, OF _ saved]) (use codec merged ok(2) read(1) in auto)
  have cover: "Covered f' ?from ?to = None" using covered_iff_fetched [of ?from ?to f'] merged by auto
  have hmin: "t mod hour = 0 \<Longrightarrow> t mod minute = 0" for t by (auto simp: go_time)
  have "sorted_wrt (\<lambda>a b. rh_End a < rh_End b) (sort_key rh_End hours)"
    using m(3) by (simp only: strictly_sorted_hours distinct_sort_key sorted_sort_key)
  then have strict: "sorted_wrt (\<lambda>a b. hr_End a < hr_End b) ?win" by (simp add: win sorted_wrt_map)
  have apart: "hours_apart ?win" using aligned(3) by (intro whole_hours_apart [OF strict]) (auto simp: win)
  have "\<exists>out. fill_hours ?from {} ?win (replicate n 0) = Inr out" for n
    using m aligned(3) hmin by (intro fill_hours_total) (auto simp: win comp_def distinct_sort_key)
  then obtain out where "fill_hours ?from {} ?win (replicate (nat (go_div (?to - ?from) minute)) 0) = Inr out" by blast
  then obtain s where s: "ObservedRainScenario observedScenario (observed_description f' ?from ?to) ?from ?to ?win = Inr s"
    using m(1) hmin [OF aligned(1)] hmin [OF aligned(2)] by (simp add: ObservedRainScenario_def Let_def)
  have full: "hours_of (hour_overlap ?from ?to h) = 1" if h: "h \<in> set ?win" for h
  proof -
    have "?from < hr_End h" "hr_End h \<le> ?to" "hr_End h mod hour = 0" using h m aligned(3) by (auto simp: win)
    moreover have "hour \<le> hr_End h - ?from"
      using calculation aligned(1) zdvd_imp_le [of hour "hr_End h - ?from"] by (simp add: mod_eq_0_iff_dvd)
    ultimately show ?thesis by (simp add: hours_of_def hour_overlap_def go_time)
  qed
  have "RainTotal s = (\<Sum>h \<leftarrow> ?win. hr_MM h * hours_of (hour_overlap ?from ?to h)) \<and> scenario_validate s = None"
    by (rule observed_rain_total [OF s apart]) (simp add: observedScenario_def)
  moreover have "(\<Sum>h \<leftarrow> ?win. hr_MM h * hours_of (hour_overlap ?from ?to h)) = (\<Sum>h \<leftarrow> ?win. hr_MM h)"
    by (intro arg_cong [where f = sum_list] map_cong refl) (simp add: full)
  moreover have "(\<Sum>h \<leftarrow> ?win. hr_MM h) = (\<Sum>h \<leftarrow> hours. rh_MM h)"
    by (simp add: win comp_def sum_mset_sum_list [symmetric])
  ultimately show ?thesis
    using s load cover times ParseTime_nonempty read(2) by (auto simp: observedRain_def)
qed

section \<open>Climate days add up\<close>

lemma climate_day_mono: "s \<le> t \<Longrightarrow> climate_day s \<le> climate_day t"
proof -
  have trunc: "truncate_day x = zero_time + (x - zero_time) div day_length * day_length" for x
    unfolding truncate_day_def using div_mult_mod_eq [of "x - zero_time" day_length] by linarith
  assume "s \<le> t"
  then have "(s - 6 * hour - 1 - zero_time) div day_length \<le> (t - 6 * hour - 1 - zero_time) div day_length"
    by (intro zdiv_mono1) (simp_all add: day_length_def go_time)
  then show ?thesis unfolding climate_day_def trunc by (simp add: mult_right_mono day_length_def go_time)
qed

text \<open>The days are those of 06:00 to 06:00 UTC, the later bound included.\<close>

lemma climate_day_span: "climate_day t + 6 * hour < t \<and> t \<le> climate_day t + 30 * hour"
proof -
  have "0 \<le> (t - 6 * hour - 1 - zero_time) mod day_length" "(t - 6 * hour - 1 - zero_time) mod day_length < day_length"
    by (simp_all add: day_length_def go_time)
  then show ?thesis unfolding climate_day_def truncate_day_def by (simp add: day_length_def)
qed

lemma add_hour_days:
  "sorted_wrt (\<lambda>a b. dt_Day a < dt_Day b) out \<Longrightarrow> out \<noteq> [] \<Longrightarrow> dt_Day (last out) \<le> climate_day (hr_End h) \<Longrightarrow>
     sorted_wrt (\<lambda>a b. dt_Day a < dt_Day b) (add_hour out h) \<and> add_hour out h \<noteq> [] \<and> dt_Day (last (add_hour out h)) = climate_day (hr_End h)"
  by (cases out rule: rev_cases) (auto simp: add_hour_def Let_def sorted_wrt_append)

lemma climate_days_sorted:
  "sorted (map hr_End hs) \<Longrightarrow> hs \<noteq> [] \<Longrightarrow>
     sorted_wrt (\<lambda>a b. dt_Day a < dt_Day b) (foldl add_hour [] hs) \<and> foldl add_hour [] hs \<noteq> [] \<and> dt_Day (last (foldl add_hour [] hs)) = climate_day (hr_End (last hs))"
proof (induction hs rule: rev_induct)
  case (snoc h hs)
  show ?case
  proof (cases "hs = []")
    case True
    then show ?thesis by (simp add: add_hour_def Let_def)
  next
    case False
    have "hr_End (last hs) \<le> hr_End h" using snoc.prems(1) False by (simp add: sorted_append)
    then have "climate_day (hr_End (last hs)) \<le> climate_day (hr_End h)" by (rule climate_day_mono)
    then show ?thesis using snoc False add_hour_days [of "foldl add_hour [] hs" h] by (simp add: sorted_append)
  qed
qed simp

lemma climate_days_sum:
  assumes "\<And>h. h \<in> set hs \<Longrightarrow> 0 \<le> hr_MM h"
  shows "(\<Sum>d \<leftarrow> filter (\<lambda>d. dt_Day d = x) (foldl add_hour [] hs). dt_MM d) = (\<Sum>h \<leftarrow> filter (\<lambda>h. climate_day (hr_End h) = x) hs. hr_MM h)"
  using assms
proof (induction hs rule: rev_induct)
  case (snoc h hs)
  have "(\<Sum>d \<leftarrow> filter (\<lambda>d. dt_Day d = x) (add_hour out h). dt_MM d)
      = (\<Sum>d \<leftarrow> filter (\<lambda>d. dt_Day d = x) out. dt_MM d) + (if climate_day (hr_End h) = x then hr_MM h else 0)" for out
    using snoc.prems [of h] by (cases out rule: rev_cases) (auto simp: add_hour_def Let_def)
  then show ?case using snoc by simp
qed simp

section \<open>A concrete cache\<close>

definition demo_fetch :: rain_fetch where
  "demo_fetch = \<lparr>rw_From = 0, rw_To = 24 * hour, rw_FetchedAt = 48 * hour, rw_URL = ''https://api.weather.gc.ca'', rw_Hours = 0, rw_Skipped = 1\<rparr>"

definition demo_hours :: "rain_hour list" where
  "demo_hours = [\<lparr>rh_End = 2 * hour, rh_MM = 4\<rparr>, \<lparr>rh_End = hour, rh_MM = 1\<rparr>]"

definition demo_cache :: rain_file where
  "demo_cache = (cache_New ''6144478'')\<lparr>rc_Fetches := [demo_fetch\<lparr>rw_Hours := 2\<rparr>], rc_Hours := rev demo_hours\<rparr>"

lemma demo_merge: "cache_Merge demo_fetch demo_hours (cache_New ''6144478'') = Inr demo_cache"
  by (simp add: cache_Merge_def demo_fetch_def demo_hours_def demo_cache_def cache_New_def outside_fetch_def go_time Let_def)

theorem merge_replaces_window_witness:
  "cache_ok demo_cache \<and> set (rc_Hours demo_cache) = set demo_hours"
  using merge_replaces_window [OF cache_New_ok, of demo_fetch demo_hours "''6144478''"] unfolding demo_merge by (simp add: cache_New_def)

definition demo_marshal :: "rain_file \<Rightarrow> string + string" where
  "demo_marshal f = (if f = demo_cache then Inr ''{}'' else Inl ''unsupported'')"

definition demo_unmarshal :: "string \<Rightarrow> string + rain_file" where
  "demo_unmarshal b = (if b = ''{}'' @ [CHR 0x0A] then Inr demo_cache else Inl ''syntax'')"

lemma demo_times: "ParseTime ''1970-01-01'' = Some 0" "ParseTime ''1970-01-02'' = Some (24 * hour)"
  by (simp_all add: ParseTime_def parse_date_layout_def whole_def bind_read_def read_date_def year4_def parse_uint_def digit_val_def getnum_def in_range_def
      read_char_def done_read_def Date_UTC_def days_of_date_def days_before_year_def daysIn_def zero_time_def day_length_def go_time numeral_eq_Suc)

theorem import_replay_total_witness:
  "\<exists>s. observedRain demo_unmarshal os_fine [''rain.json'' \<mapsto> ''{}'' @ [CHR 0x0A]] ''rain.json'' '''' ''1970-01-01'' ''1970-01-02'' = Inr (s, 0) \<and> RainTotal s = 5"
proof -
  have codec: "demo_marshal f = Inr b \<Longrightarrow> demo_unmarshal (b @ [CHR 0x0A]) = Inr f" for f b
    by (auto simp: demo_marshal_def demo_unmarshal_def split: if_splits)
  have saved: "cache_Write demo_marshal os_fine ''rain.json'' demo_cache Map.empty = ([''rain.json'' \<mapsto> ''{}'' @ [CHR 0x0A]], None)"
    by (simp add: cache_Write_def demo_marshal_def os_fine_def fun_eq_iff)
  have "rc_Version (cache_New ''6144478'') = cache_version" "\<not> os_read os_fine ''rain.json''" "''rain.json'' = (if ''rain.json'' = '''' then DefaultPath '''' else ''rain.json'')"
    by (simp_all add: cache_New_def os_fine_def)
  note replay = import_replay_total [where marshal = demo_marshal and unmarshal = demo_unmarshal, OF codec cache_New_ok this(1) demo_merge saved this(2,3)]
  have "\<exists>s. observedRain demo_unmarshal os_fine [''rain.json'' \<mapsto> ''{}'' @ [CHR 0x0A]] ''rain.json'' '''' ''1970-01-01'' ''1970-01-02'' = Inr (s, rw_From demo_fetch)
      \<and> RainTotal s = (\<Sum>h \<leftarrow> demo_hours. rh_MM h) \<and> scenario_validate s = None"
    by (rule replay) (simp_all add: demo_times demo_fetch_def demo_hours_def, auto simp: go_time)
  then show ?thesis by (auto simp: demo_fetch_def demo_hours_def)
qed

end
