(* ===== verification/Eccc.thy ===== *)
theory Eccc
  imports Gauge Rain_Cache
begin

text \<open>
  Regional rain from the public weather service (\<^verbatim>\<open>internal/weather/eccc.go\<close>): the client that pages through the hourly collection, the poller that writes
  its hours into the rainfall table, the windows it asks for, and the importer that fills the cache (\<^verbatim>\<open>runECCC\<close> of \<^verbatim>\<open>cmd/dataimport\<close>).
  The service is given by its answer to each request, the readers of URLs and of JSON are parameters: nothing is assumed of them.
\<close>

section \<open>Configuration\<close>

record eccc_config =
  ec_Enabled :: bool
  ec_BaseURL :: string
  ec_Station :: string
  ec_PollInterval :: duration
  ec_Backfill :: duration
  ec_Lookback :: duration
  ec_Timeout :: duration
  ec_PageSize :: int

definition DefaultECCCBaseURL :: string where "DefaultECCCBaseURL = ''https://api.weather.gc.ca''"
definition DefaultECCCStation :: string where "DefaultECCCStation = ''6144478''"
definition ecccCollection :: string where "ecccCollection = ''collections/climate-hourly/items''"

definition DefaultECCCConfig :: eccc_config where
  "DefaultECCCConfig =
     \<lparr>ec_Enabled = True, ec_BaseURL = DefaultECCCBaseURL, ec_Station = DefaultECCCStation, ec_PollInterval = hour,
      ec_Backfill = 7 * 24 * hour, ec_Lookback = 48 * hour, ec_Timeout = 30 * second, ec_PageSize = 500\<rparr>"

datatype eccc_config_error = NoStation | NotPositive | BadLookback

definition check_eccc :: "eccc_config \<Rightarrow> eccc_config_error option" where
  "check_eccc e =
     (if ec_Enabled e
      then if ec_Station e = '''' then Some NoStation
           else if ec_PollInterval e \<le> 0 \<or> ec_Timeout e \<le> 0 then Some NotPositive
           else if ec_Lookback e < 2 * hour \<or> ec_Backfill e < ec_Lookback e then Some BadLookback
           else None
      else None)"

section \<open>Requests and answers\<close>

text \<open>A URL with its query already split into pairs.\<close>

record url =
  u_Scheme :: string
  u_Host :: string
  u_Path :: string
  u_Query :: "(string \<times> string) list"

definition q_Get :: "(string \<times> string) list \<Rightarrow> string \<Rightarrow> string" where
  "q_Get q k = (case map_of q k of None \<Rightarrow> '''' | Some v \<Rightarrow> v)"

definition q_Set :: "string \<Rightarrow> string \<Rightarrow> (string \<times> string) list \<Rightarrow> (string \<times> string) list" where
  "q_Set k v q = filter (\<lambda>p. fst p \<noteq> k) q @ [(k, v)]"

text \<open>\<^verbatim>\<open>JoinPath\<close>: the elements under the root, where a double dot cannot leave it; relative if the base is.\<close>

fun rooted_elems :: "string list \<Rightarrow> string list \<Rightarrow> string list" where
  "rooted_elems acc [] = rev acc"
| "rooted_elems acc (e # es) =
     (if e = [] \<or> e = ''.'' then rooted_elems acc es
      else if e = ''..'' then rooted_elems (tl acc) es
      else rooted_elems (e # acc) es)"

definition JoinPath :: "url \<Rightarrow> string \<Rightarrow> url" where
  "JoinPath u elem =
     (let es = rooted_elems [] (Split (CHR ''/'') (u_Path u @ ''/'' @ elem)); p = (if es = [] then '''' else join_elems es)
      in u\<lparr>u_Path := if u_Path u \<noteq> [] \<and> hd (u_Path u) = CHR ''/'' then CHR ''/'' # p else p\<rparr>)"

record hourly_precip =
  hp_Station :: string
  hp_HourEnd :: instant
  hp_MM :: real

definition hourly_Row :: "hourly_precip \<Rightarrow> rain_row" where
  "hourly_Row h = \<lparr>rn_Start = hp_HourEnd h - hour, rn_IntervalS = 3600, rn_MM = hp_MM h\<rparr>"

record eccc_feature =
  ft_ClimateIdentifier :: string
  ft_UTCDate :: string
  ft_PrecipAmount :: "real option"
  ft_PrecipFlag :: "string option"

record eccc_link =
  lk_Rel :: string
  lk_Href :: string

record feature_collection =
  fc_Features :: "eccc_feature list"
  fc_Links :: "eccc_link list"

text \<open>
  What came of a request: none was made, none was answered, the call was cancelled, an answer with its body, or one
  whose body broke off after what was read, with whether a cancellation did it.
\<close>

datatype http_answer = BadRequest string | NoAnswer string | Canceled | Answer int string | Cut int string bool

datatype eccc_error =
    BadBaseURL string | RequestErr string | GetErr string | GetCanceled | StatusErr string int string | DecodeErr string | DecodeCanceled
  | PagingExceeded nat | BadUTCDate string | BadNextLink string
  | BeginErr db_error | UpsertErr instant db_error | NotifyErr db_error | CommitErr db_error

record eccc_client =
  cl_base :: url
  cl_pageSize :: int
  cl_maxPages :: nat

definition NewECCCClient :: "(string \<Rightarrow> url option) \<Rightarrow> string \<Rightarrow> int \<Rightarrow> eccc_error + eccc_client" where
  "NewECCCClient parse_url baseURL pageSize =
     (case parse_url baseURL of
        None \<Rightarrow> Inl (BadBaseURL baseURL)
      | Some u \<Rightarrow>
          if u_Scheme u = '''' \<or> u_Host u = '''' then Inl (BadBaseURL baseURL)
          else Inr \<lparr>cl_base = u, cl_pageSize = (if pageSize \<le> 0 then 500 else pageSize), cl_maxPages = 100\<rparr>)"

text \<open>One request; at most 32 MiB of the body are read.\<close>

definition eccc_get :: "(string \<Rightarrow> string + feature_collection) \<Rightarrow> (url \<Rightarrow> http_answer) \<Rightarrow> url \<Rightarrow> eccc_error + feature_collection" where
  "eccc_get decode answer u =
     (case answer u of
        BadRequest e \<Rightarrow> Inl (RequestErr e)
      | NoAnswer e \<Rightarrow> Inl (GetErr e)
      | Canceled \<Rightarrow> Inl GetCanceled
      | Answer status body \<Rightarrow>
          if status \<noteq> 200 then Inl (StatusErr (u_Path u) status (take 512 body))
          else (case decode (take (32 * 2 ^ 20) body) of Inl e \<Rightarrow> Inl (DecodeErr e) | Inr fc \<Rightarrow> Inr fc)
      | Cut status body canceled \<Rightarrow>
          if status \<noteq> 200 then Inl (StatusErr (u_Path u) status (take 512 body))
          else (case decode (take (32 * 2 ^ 20) body) of
                  Inl e \<Rightarrow> Inl (if canceled then DecodeCanceled else DecodeErr e)
                | Inr fc \<Rightarrow> Inr fc))"

section \<open>Paging\<close>

definition first_request :: "eccc_client \<Rightarrow> string \<Rightarrow> instant \<Rightarrow> instant \<Rightarrow> url" where
  "first_request c station from_ts to_ts =
     (JoinPath (cl_base c) ecccCollection)\<lparr>u_Query :=
        q_Set ''limit'' (FormatInt (cl_pageSize c)) (q_Set ''sortby'' ''LOCAL_DATE''
          (q_Set ''datetime'' (format_seconds (from_ts - 24 * hour) @ ''Z/'' @ format_seconds (to_ts + 24 * hour) @ ''Z'')
            (q_Set ''CLIMATE_IDENTIFIER'' station (q_Set ''f'' ''json'' []))))\<rparr>"

text \<open>The loop over the features of a page: the hours found so far and how many had no amount. An error returns the count.\<close>

fun scan_features :: "string \<Rightarrow> instant \<Rightarrow> instant \<Rightarrow> eccc_feature list \<Rightarrow> hourly_precip list \<Rightarrow> nat \<Rightarrow> (eccc_error \<times> nat) + hourly_precip list \<times> nat" where
  "scan_features station from_ts to_ts [] obs skipped = Inr (obs, skipped)"
| "scan_features station from_ts to_ts (p # ps) obs skipped =
     (if ft_ClimateIdentifier p \<noteq> station then scan_features station from_ts to_ts ps obs skipped
      else case parse_seconds_layout (ft_UTCDate p) of
        None \<Rightarrow> Inl (BadUTCDate (ft_UTCDate p), skipped)
      | Some end_ts \<Rightarrow>
          if \<not> end_ts > from_ts \<or> end_ts > to_ts then scan_features station from_ts to_ts ps obs skipped
          else (case ft_PrecipAmount p of
                  None \<Rightarrow> scan_features station from_ts to_ts ps obs (skipped + 1)
                | Some mm \<Rightarrow>
                    if mm < 0 \<or> ft_PrecipFlag p = Some ''M'' then scan_features station from_ts to_ts ps obs (skipped + 1)
                    else scan_features station from_ts to_ts ps (obs @ [\<lparr>hp_Station = station, hp_HourEnd = end_ts, hp_MM = mm\<rparr>]) skipped))"

text \<open>The first link named next, moved to the configured host and asking for JSON.\<close>

fun next_link :: "(string \<Rightarrow> url option) \<Rightarrow> eccc_client \<Rightarrow> eccc_link list \<Rightarrow> eccc_error + url option" where
  "next_link parse_url c [] = Inr None"
| "next_link parse_url c (l # ls) =
     (if lk_Rel l \<noteq> ''next'' then next_link parse_url c ls
      else case parse_url (lk_Href l) of
        None \<Rightarrow> Inl (BadNextLink (lk_Href l))
      | Some u \<Rightarrow>
          let u = u\<lparr>u_Scheme := u_Scheme (cl_base c), u_Host := u_Host (cl_base c)\<rparr>
          in Inr (Some (if q_Get (u_Query u) ''f'' = '''' then u\<lparr>u_Query := q_Set ''f'' ''json'' (u_Query u)\<rparr> else u)))"

text \<open>The loop over the pages; the first argument counts the pages still allowed. The service answers by page and URL.\<close>

fun pages_loop :: "(string \<Rightarrow> url option) \<Rightarrow> (string \<Rightarrow> string + feature_collection) \<Rightarrow> (nat \<Rightarrow> url \<Rightarrow> http_answer) \<Rightarrow> eccc_client
    \<Rightarrow> string \<Rightarrow> instant \<Rightarrow> instant \<Rightarrow> nat \<Rightarrow> nat \<Rightarrow> url option \<Rightarrow> hourly_precip list \<Rightarrow> nat \<Rightarrow> (eccc_error \<times> nat) + hourly_precip list \<times> nat" where
  "pages_loop parse_url decode answer c station from_ts to_ts left page None obs skipped = Inr (obs, skipped)"
| "pages_loop parse_url decode answer c station from_ts to_ts 0 page (Some u) obs skipped = Inl (PagingExceeded (cl_maxPages c), skipped)"
| "pages_loop parse_url decode answer c station from_ts to_ts (Suc left) page (Some u) obs skipped =
     (case eccc_get decode (answer page) u of
        Inl e \<Rightarrow> Inl (e, skipped)
      | Inr fc \<Rightarrow>
          (case scan_features station from_ts to_ts (fc_Features fc) obs skipped of
             Inl e \<Rightarrow> Inl e
           | Inr (obs', skipped') \<Rightarrow>
               (case next_link parse_url c (fc_Links fc) of
                  Inl e \<Rightarrow> Inl (e, skipped')
                | Inr next \<Rightarrow> pages_loop parse_url decode answer c station from_ts to_ts left (Suc page) next obs' skipped')))"

definition Hourly :: "(string \<Rightarrow> url option) \<Rightarrow> (string \<Rightarrow> string + feature_collection) \<Rightarrow> (nat \<Rightarrow> url \<Rightarrow> http_answer) \<Rightarrow> eccc_client
    \<Rightarrow> string \<Rightarrow> instant \<Rightarrow> instant \<Rightarrow> (eccc_error \<times> nat) + hourly_precip list \<times> nat" where
  "Hourly parse_url decode answer c station from_ts to_ts =
     pages_loop parse_url decode answer c station from_ts to_ts (cl_maxPages c) 0 (Some (first_request c station from_ts to_ts)) [] 0"

section \<open>The poller\<close>

datatype eccc_stmt = EBegin | EUpsert instant | ENotify | ECommit

fun store_hours :: "(eccc_stmt \<Rightarrow> db_error option) \<Rightarrow> instant \<Rightarrow> hourly_precip list \<Rightarrow> rainfall_row list \<times> nat \<times> instant \<times> instant
    \<Rightarrow> eccc_error + rainfall_row list \<times> nat \<times> instant \<times> instant" where
  "store_hours fails now [] acc = Inr acc"
| "store_hours fails now (o1 # obs) (tbl, written, minTS, maxTS) =
     (let r = hourly_Row o1
      in case (case fails (EUpsert (hp_HourEnd o1)) of
                 Some e \<Rightarrow> Inl e
               | None \<Rightarrow> UpsertRainfall now SourceECCC (hp_Station o1) (rn_Start r) (rn_IntervalS r) (rn_MM r) tbl) of
           Inl e \<Rightarrow> Inl (UpsertErr (hp_HourEnd o1) e)
         | Inr (tbl', n) \<Rightarrow>
             store_hours fails now obs
               (if n > 0
                then (tbl', written + n, if is_zero minTS \<or> rn_Start r < minTS then rn_Start r else minTS,
                      if hp_HourEnd o1 > maxTS then hp_HourEnd o1 else maxTS)
                else (tbl', written, minTS, maxTS)))"

definition eccc_store :: "(eccc_stmt \<Rightarrow> db_error option) \<Rightarrow> instant \<Rightarrow> hourly_precip list \<Rightarrow> gauge_db \<Rightarrow> gauge_db \<times> (eccc_error + nat)" where
  "eccc_store fails now obs db =
     (if obs = [] then (db, Inr 0)
      else case fails EBegin of
        Some e \<Rightarrow> (db, Inl (BeginErr e))
      | None \<Rightarrow>
          (case store_hours fails now obs (gd_rain db, 0, zero_time, zero_time) of
             Inl e \<Rightarrow> (db, Inl e)
           | Inr (tbl, written, minTS, maxTS) \<Rightarrow>
               if written > 0 \<and> fails ENotify \<noteq> None then (db, Inl (NotifyErr (the (fails ENotify))))
               else (case fails ECommit of
                       Some e \<Rightarrow> (db, Inl (CommitErr e))
                     | None \<Rightarrow>
                         (db\<lparr>gd_rain := tbl, gd_notes := gd_notes db @
                            (if written > 0 then [\<lparr>n_Table = ''rainfall'', n_N = written, n_MinTS = minTS, n_MaxTS = maxTS\<rparr>] else [])\<rparr>,
                          Inr written))))"

definition PollOnce :: "(string \<Rightarrow> url option) \<Rightarrow> (string \<Rightarrow> string + feature_collection) \<Rightarrow> (nat \<Rightarrow> url \<Rightarrow> http_answer) \<Rightarrow> (eccc_stmt \<Rightarrow> db_error option)
    \<Rightarrow> eccc_client \<Rightarrow> eccc_config \<Rightarrow> instant \<Rightarrow> instant \<Rightarrow> instant \<Rightarrow> gauge_db \<Rightarrow> gauge_db \<times> (eccc_error + nat)" where
  "PollOnce parse_url decode answer fails c cfg now from_ts to_ts db =
     (case Hourly parse_url decode answer c (ec_Station cfg) from_ts to_ts of
        Inl (e, skipped) \<Rightarrow> (db, Inl e)
      | Inr (obs, skipped) \<Rightarrow> eccc_store fails now obs db)"

text \<open>An error that says the process is stopping; it comes from the request or from the database.\<close>

fun is_canceled :: "eccc_error \<Rightarrow> bool" where
  "is_canceled GetCanceled = True"
| "is_canceled DecodeCanceled = True"
| "is_canceled (BeginErr e) = (e = DbError ''context canceled'')"
| "is_canceled (UpsertErr t e) = (e = DbError ''context canceled'')"
| "is_canceled (NotifyErr e) = (e = DbError ''context canceled'')"
| "is_canceled (CommitErr e) = (e = DbError ''context canceled'')"
| "is_canceled _ = False"

text \<open>What the poller's loop keeps between turns, with a log of the windows it asked for, and the wait before the next turn.\<close>

record eccc_run =
  er_from :: instant
  er_db :: gauge_db
  er_log :: "(instant \<times> instant \<times> bool) list"
  er_wait :: duration
  er_stopped :: bool

text \<open>One turn at the clock's \<open>now\<close>. Answers and failures are those of this turn.\<close>

definition eccc_turn :: "(string \<Rightarrow> url option) \<Rightarrow> (string \<Rightarrow> string + feature_collection) \<Rightarrow> eccc_client \<Rightarrow> eccc_config
    \<Rightarrow> instant \<times> (nat \<Rightarrow> url \<Rightarrow> http_answer) \<times> (eccc_stmt \<Rightarrow> db_error option) \<Rightarrow> eccc_run \<Rightarrow> eccc_run" where
  "eccc_turn parse_url decode c cfg turn s =
     (if er_stopped s then s
      else let (now, answer, fails) = turn; (db', r) = PollOnce parse_url decode answer fails c cfg now (er_from s) now (er_db s)
      in case r of
           Inl e \<Rightarrow>
             if is_canceled e then s\<lparr>er_db := db', er_log := er_log s @ [(er_from s, now, False)], er_stopped := True\<rparr>
             else s\<lparr>er_db := db', er_log := er_log s @ [(er_from s, now, False)], er_wait := min (ec_PollInterval cfg) (5 * minute)\<rparr>
         | Inr n \<Rightarrow>
             s\<lparr>er_db := db', er_log := er_log s @ [(er_from s, now, True)], er_from := now - ec_Lookback cfg, er_wait := ec_PollInterval cfg\<rparr>)"

definition eccc_Run :: "(string \<Rightarrow> url option) \<Rightarrow> (string \<Rightarrow> string + feature_collection) \<Rightarrow> eccc_client \<Rightarrow> eccc_config \<Rightarrow> instant
    \<Rightarrow> (instant \<times> (nat \<Rightarrow> url \<Rightarrow> http_answer) \<times> (eccc_stmt \<Rightarrow> db_error option)) list \<Rightarrow> gauge_db \<Rightarrow> eccc_run" where
  "eccc_Run parse_url decode c cfg start turns db =
     fold (eccc_turn parse_url decode c cfg) turns
       \<lparr>er_from = start - ec_Backfill cfg, er_db = db, er_log = [], er_wait = 0, er_stopped = False\<rparr>"

section \<open>The importer\<close>

record import_args =
  ia_from :: string
  ia_to :: string
  ia_station :: string
  ia_url :: string
  ia_out :: string

datatype import_error = ImportCache cache_error | ToNotAfterFrom | OtherStation string string | ImportEccc eccc_error

record import_summary =
  is_window :: "hourly_rain list"
  is_expected :: int
  is_skipped :: nat
  is_total :: real
  is_last :: instant
  is_days :: "day_total list"

definition load_or_new :: "(string \<Rightarrow> string + rain_file) \<Rightarrow> os_faults \<Rightarrow> disk \<Rightarrow> string \<Rightarrow> string \<Rightarrow> cache_error + rain_file" where
  "load_or_new unmarshal F disk path station =
     (case cache_Load unmarshal F disk path of
        Inl (CacheReadErr p True) \<Rightarrow> Inr (cache_New station)
      | r \<Rightarrow> r)"

definition summarise :: "instant \<Rightarrow> instant \<Rightarrow> nat \<Rightarrow> hourly_rain list \<Rightarrow> import_summary" where
  "summarise from_ts to_ts skipped win =
     \<lparr>is_window = win, is_expected = go_div (to_ts - from_ts) hour, is_skipped = skipped, is_total = foldl (\<lambda>t h. t + hr_MM h) 0 win,
      is_last = (if win = [] then zero_time else hr_End (last win)), is_days = ClimateDays win\<rparr>"

definition runECCC :: "(string \<Rightarrow> url option) \<Rightarrow> (string \<Rightarrow> string + feature_collection) \<Rightarrow> (nat \<Rightarrow> url \<Rightarrow> http_answer)
    \<Rightarrow> (rain_file \<Rightarrow> string + string) \<Rightarrow> (string \<Rightarrow> string + rain_file) \<Rightarrow> os_faults \<Rightarrow> instant \<Rightarrow> import_args \<Rightarrow> disk \<Rightarrow> disk \<times> (import_error + import_summary)" where
  "runECCC parse_url decode answer marshal unmarshal F now args disk =
     (case ParseTime (ia_from args) of
        None \<Rightarrow> (disk, Inl (ImportCache (BadTime ''-from'' (ia_from args))))
      | Some from_ts \<Rightarrow>
     (case ParseTime (ia_to args) of
        None \<Rightarrow> (disk, Inl (ImportCache (BadTime ''-to'' (ia_to args))))
      | Some to_ts \<Rightarrow>
      if \<not> to_ts > from_ts then (disk, Inl ToNotAfterFrom)
      else let path = (if ia_out args = '''' then DefaultPath (ia_station args) else ia_out args)
      in case load_or_new unmarshal F disk path (ia_station args) of
           Inl e \<Rightarrow> (disk, Inl (ImportCache e))
         | Inr f \<Rightarrow>
             if rc_Station f \<noteq> ia_station args then (disk, Inl (OtherStation path (rc_Station f)))
             else (case NewECCCClient parse_url (ia_url args) 500 of
                Inl e \<Rightarrow> (disk, Inl (ImportEccc e))
              | Inr c \<Rightarrow>
                  (case Hourly parse_url decode answer c (ia_station args) from_ts to_ts of
                     Inl (e, _) \<Rightarrow> (disk, Inl (ImportEccc e))
                   | Inr (obs, skipped) \<Rightarrow>
                       (case cache_Merge \<lparr>rw_From = from_ts, rw_To = to_ts, rw_FetchedAt = now,
                               rw_URL = ia_url args @ ''/collections/climate-hourly/items'', rw_Hours = 0, rw_Skipped = int skipped\<rparr>
                             (map (\<lambda>p. \<lparr>rh_End = hp_HourEnd p, rh_MM = hp_MM p\<rparr>) obs) f of
                          Inl e \<Rightarrow> (disk, Inl (ImportCache e))
                        | Inr f' \<Rightarrow>
                            (case cache_Write marshal F path f' disk of
                               (disk', Some e) \<Rightarrow> (disk', Inl (ImportCache e))
                             | (disk', None) \<Rightarrow> (disk', Inr (summarise from_ts to_ts skipped (cache_Window f' from_ts to_ts)))))))))"

section \<open>What the client returns\<close>

text \<open>The hour a feature reports, if it is one of the station's in the window with an amount, and the features whose hour has none.\<close>

definition hour_reported :: "string \<Rightarrow> instant \<Rightarrow> instant \<Rightarrow> eccc_feature \<Rightarrow> instant option" where
  "hour_reported station from_ts to_ts p =
     (if ft_ClimateIdentifier p = station
      then (case parse_seconds_layout (ft_UTCDate p) of None \<Rightarrow> None | Some t \<Rightarrow> if from_ts < t \<and> t \<le> to_ts then Some t else None)
      else None)"

definition has_amount :: "eccc_feature \<Rightarrow> bool" where
  "has_amount p \<longleftrightarrow> (\<exists>mm. ft_PrecipAmount p = Some mm \<and> 0 \<le> mm) \<and> ft_PrecipFlag p \<noteq> Some ''M''"

definition hour_of :: "string \<Rightarrow> instant \<Rightarrow> instant \<Rightarrow> eccc_feature \<Rightarrow> hourly_precip option" where
  "hour_of station from_ts to_ts p =
     (case hour_reported station from_ts to_ts p of
        None \<Rightarrow> None
      | Some t \<Rightarrow> if has_amount p then Some \<lparr>hp_Station = station, hp_HourEnd = t, hp_MM = the (ft_PrecipAmount p)\<rparr> else None)"

definition dates_ok :: "string \<Rightarrow> eccc_feature list \<Rightarrow> bool" where
  "dates_ok station ps \<longleftrightarrow> (\<forall>p \<in> set ps. ft_ClimateIdentifier p = station \<longrightarrow> parse_seconds_layout (ft_UTCDate p) \<noteq> None)"

definition missing_hours :: "string \<Rightarrow> instant \<Rightarrow> instant \<Rightarrow> eccc_feature list \<Rightarrow> nat" where
  "missing_hours station from_ts to_ts ps = length (filter (\<lambda>p. hour_reported station from_ts to_ts p \<noteq> None \<and> \<not> has_amount p) ps)"

lemma scan_features_Inr:
  "scan_features station from_ts to_ts ps obs skipped = Inr r \<longleftrightarrow>
     dates_ok station ps \<and> r = (obs @ List.map_filter (hour_of station from_ts to_ts) ps, skipped + missing_hours station from_ts to_ts ps)"
proof (induction station from_ts to_ts ps obs skipped rule: scan_features.induct)
  case (2 station from_ts to_ts p ps obs skipped)
  show ?case
    using 2 by (auto simp: dates_ok_def missing_hours_def hour_of_def hour_reported_def has_amount_def List.map_filter_simps split: option.splits)
qed (auto simp: dates_ok_def missing_hours_def List.map_filter_def)

lemma features_append:
  "dates_ok station (ps @ qs) \<longleftrightarrow> dates_ok station ps \<and> dates_ok station qs"
  "missing_hours station from_ts to_ts (ps @ qs) = missing_hours station from_ts to_ts ps + missing_hours station from_ts to_ts qs"
  "List.map_filter f (ps @ qs) = List.map_filter f ps @ List.map_filter f qs"
  by (auto simp: dates_ok_def missing_hours_def List.map_filter_def)

lemma in_map_filter: "x \<in> set (List.map_filter f xs) \<longleftrightarrow> (\<exists>p \<in> set xs. f p = Some x)"
  by (force simp: List.map_filter_def)

text \<open>Reference: first fetch the chain of pages, then read all their features.\<close>

fun fetch_pages :: "(string \<Rightarrow> url option) \<Rightarrow> (string \<Rightarrow> string + feature_collection) \<Rightarrow> (nat \<Rightarrow> url \<Rightarrow> http_answer) \<Rightarrow> eccc_client
    \<Rightarrow> nat \<Rightarrow> nat \<Rightarrow> url option \<Rightarrow> feature_collection list option" where
  "fetch_pages parse_url decode answer c left page None = Some []"
| "fetch_pages parse_url decode answer c 0 page (Some u) = None"
| "fetch_pages parse_url decode answer c (Suc left) page (Some u) =
     (case eccc_get decode (answer page) u of
        Inl _ \<Rightarrow> None
      | Inr fc \<Rightarrow>
          (case next_link parse_url c (fc_Links fc) of
             Inl _ \<Rightarrow> None
           | Inr next \<Rightarrow> map_option (\<lambda>fcs. fc # fcs) (fetch_pages parse_url decode answer c left (Suc page) next)))"

lemma pages_loop_Inr:
  "pages_loop parse_url decode answer c station from_ts to_ts left page next obs skipped = Inr r \<longleftrightarrow>
     (\<exists>fcs. fetch_pages parse_url decode answer c left page next = Some fcs \<and>
        (let ps = concat (map fc_Features fcs)
         in dates_ok station ps \<and> r = (obs @ List.map_filter (hour_of station from_ts to_ts) ps, skipped + missing_hours station from_ts to_ts ps)))"
proof (induction left arbitrary: page "next" obs skipped)
  case 0
  then show ?case by (cases "next") (auto simp: dates_ok_def missing_hours_def List.map_filter_def)
next
  case (Suc left)
  show ?case
  proof (cases "next")
    case None
    then show ?thesis by (auto simp: dates_ok_def missing_hours_def List.map_filter_def)
  next
    case (Some u)
    show ?thesis
    proof (cases "eccc_get decode (answer page) u")
      case (Inr fc)
      show ?thesis
      proof (cases "dates_ok station (fc_Features fc)")
        case True
        then have "scan_features station from_ts to_ts (fc_Features fc) obs skipped
            = Inr (obs @ List.map_filter (hour_of station from_ts to_ts) (fc_Features fc), skipped + missing_hours station from_ts to_ts (fc_Features fc))"
          by (simp add: scan_features_Inr)
        then show ?thesis
          using Inr True by (cases "next_link parse_url c (fc_Links fc)") (auto simp: Some Suc.IH Let_def features_append)
      next
        case False
        then obtain e where "scan_features station from_ts to_ts (fc_Features fc) obs skipped = Inl e"
          by (metis scan_features_Inr obj_sumE)
        then show ?thesis using Inr False by (auto simp: Some Let_def features_append split: sum.splits)
      qed
    qed (simp add: Some)
  qed
qed

lemma hour_of_Some:
  "hour_of station from_ts to_ts p = Some h \<Longrightarrow> hp_Station h = station \<and> from_ts < hp_HourEnd h \<and> hp_HourEnd h \<le> to_ts \<and> 0 \<le> hp_MM h"
  by (auto simp: hour_of_def hour_reported_def has_amount_def split: option.splits if_splits)

lemma Hourly_hours:
  assumes "Hourly parse_url decode answer c station from_ts to_ts = Inr (obs, skipped)" and "h \<in> set obs"
  shows "hp_Station h = station \<and> from_ts < hp_HourEnd h \<and> hp_HourEnd h \<le> to_ts \<and> 0 \<le> hp_MM h"
proof -
  obtain ps where "obs = List.map_filter (hour_of station from_ts to_ts) ps"
    using assms(1) by (auto simp: Hourly_def pages_loop_Inr Let_def)
  then obtain p where "hour_of station from_ts to_ts p = Some h" using assms(2) by (auto simp: in_map_filter)
  then show ?thesis using hour_of_Some by blast
qed

definition on_base :: "eccc_client \<Rightarrow> url \<Rightarrow> bool" where
  "on_base c u \<longleftrightarrow> u_Scheme u = u_Scheme (cl_base c) \<and> u_Host u = u_Host (cl_base c)"

lemma next_link_on_base: "next_link parse_url c ls = Inr (Some u) \<Longrightarrow> on_base c u"
  by (induction ls) (auto simp: on_base_def Let_def split: option.splits if_splits)

lemma first_request_on_base: "on_base c (first_request c station from_ts to_ts)"
  by (simp add: on_base_def first_request_def JoinPath_def Let_def)

lemma pages_loop_on_base:
  assumes "\<And>page u. page < cl_maxPages c \<Longrightarrow> on_base c u \<Longrightarrow> answer' page u = answer page u"
    and "page + left = cl_maxPages c" and "\<And>u. next = Some u \<Longrightarrow> on_base c u"
  shows "pages_loop parse_url decode answer' c station from_ts to_ts left page next obs skipped
    = pages_loop parse_url decode answer c station from_ts to_ts left page next obs skipped"
  using assms(2,3)
proof (induction left arbitrary: page obs skipped "next")
  case 0
  then show ?case by (cases "next") simp_all
next
  case (Suc left)
  show ?case
  proof (cases "next")
    case (Some u)
    have get: "eccc_get decode (answer' page) u = eccc_get decode (answer page) u"
      using assms(1) [of page u] Suc.prems Some by (simp add: eccc_get_def)
    have rest: "pages_loop parse_url decode answer' c station from_ts to_ts left (Suc page) n obs' skipped'
        = pages_loop parse_url decode answer c station from_ts to_ts left (Suc page) n obs' skipped'"
      if "next_link parse_url c ls = Inr n" for ls n obs' skipped'
      using Suc.prems(1) next_link_on_base that by (intro Suc.IH) auto
    show ?thesis
      unfolding Some pages_loop.simps get by (intro sum.case_cong refl prod.case_cong) (rule rest)
  qed simp
qed

text \<open>
  C39: The client reads the whole chain of pages and returns exactly the station's hours that end in the window and have an amount, in the order of the
  pages, with the number of hours that have none; it fails if a page cannot be fetched, a date of the station cannot be read, or the chain is longer than
  the limit. Only answers of the configured scheme and host, within the page limit, can influence it, wherever the links of a page point.
\<close>

theorem hourly_reads_all_pages:
  "(Hourly parse_url decode answer c station from_ts to_ts = Inr (obs, skipped) \<longleftrightarrow>
     (\<exists>fcs. fetch_pages parse_url decode answer c (cl_maxPages c) 0 (Some (first_request c station from_ts to_ts)) = Some fcs \<and>
        (let ps = concat (map fc_Features fcs)
         in dates_ok station ps \<and> obs = List.map_filter (hour_of station from_ts to_ts) ps \<and> skipped = missing_hours station from_ts to_ts ps)))
   \<and> ((\<forall>page u. page < cl_maxPages c \<and> on_base c u \<longrightarrow> answer' page u = answer page u) \<longrightarrow>
      Hourly parse_url decode answer' c station from_ts to_ts = Hourly parse_url decode answer c station from_ts to_ts)"
  using pages_loop_on_base [of c answer' answer 0 "cl_maxPages c" "Some (first_request c station from_ts to_ts)"] first_request_on_base
  by (auto simp: Hourly_def pages_loop_Inr Let_def)

section \<open>What the poller stores\<close>

definition eccc_key :: "hourly_precip \<Rightarrow> string \<times> string \<times> instant" where
  "eccc_key h = (SourceECCC, hp_Station h, hp_HourEnd h - hour)"

definition eccc_entries :: "hourly_precip list \<Rightarrow> string \<times> string \<times> instant \<rightharpoonup> int \<times> real" where
  "eccc_entries obs = map_of (rev (map (\<lambda>h. (eccc_key h, (3600, numeric2 (hp_MM h)))) obs))"

lemma store_hours_lookup:
  "store_hours fails now obs (tbl, w, lo, hi) = Inr (tbl', w', lo', hi')     \<Longrightarrow> rain_lookup tbl' = rain_lookup tbl ++ eccc_entries obs \<and> (\<forall>h \<in> set obs. depth_fits (hp_MM h))"
proof (induction obs arbitrary: tbl w lo hi)
  case (Cons h obs)
  obtain tbl1 n w1 lo1 hi1 where u: "UpsertRainfall now SourceECCC (hp_Station h) (rn_Start (hourly_Row h)) (rn_IntervalS (hourly_Row h)) (rn_MM (hourly_Row h)) tbl = Inr (tbl1, n)"
    and rest: "store_hours fails now obs (tbl1, w1, lo1, hi1) = Inr (tbl', w', lo', hi')"
    using Cons.prems by (fastforce simp: Let_def split: option.splits sum.splits if_splits)
  show ?case
    using Cons.IH [OF rest] upsert_lookup [OF u]
    by (simp add: hourly_Row_def eccc_entries_def eccc_key_def map_add_def fun_eq_iff split: option.split)
qed (simp add: eccc_entries_def)

lemma store_hours_unchanged:
  assumes "\<And>h. h \<in> set obs \<Longrightarrow> rain_lookup tbl (eccc_key h) = Some (3600, numeric2 (hp_MM h)) \<and> 0 \<le> hp_MM h \<and> depth_fits (hp_MM h)" and "\<And>s. fails s = None"
  shows "store_hours fails now obs (tbl, w, lo, hi) = Inr (tbl, w, lo, hi)"
  using assms(1)
proof (induction obs)
  case (Cons h obs)
  have "UpsertRainfall now SourceECCC (hp_Station h) (hp_HourEnd h - hour) 3600 (hp_MM h) tbl = Inr (tbl, 0)"
    using Cons.prems [of h] by (auto simp: UpsertRainfall_def Let_def rain_lookup_def eccc_key_def numeric2_def split: option.splits)
  then show ?case using Cons assms(2) by (simp add: hourly_Row_def Let_def)
qed simp

lemma store_hours_succeeds:
  assumes "\<And>h. h \<in> set obs \<Longrightarrow> 0 \<le> hp_MM h \<and> depth_fits (hp_MM h)" and "\<And>s. fails s = None"
  shows "\<exists>r. store_hours fails now obs acc = Inr r"
  using assms(1)
proof (induction obs arbitrary: acc)
  case (Cons h obs)
  obtain tbl w lo hi where acc: "acc = (tbl, w, lo, hi)" by (metis prod_cases4)
  have "0 \<le> numeric2 (hp_MM h)" using Cons.prems [of h] by (simp add: numeric2_def)
  then obtain r where "UpsertRainfall now SourceECCC (hp_Station h) (hp_HourEnd h - hour) 3600 (hp_MM h) tbl = Inr r"
    using Cons.prems [of h] by (fastforce simp: UpsertRainfall_def Let_def split: option.splits)
  then show ?case using Cons assms(2) by (cases r) (simp add: acc hourly_Row_def Let_def)
qed (metis store_hours.simps(1))

lemma eccc_store_lookup:
  "eccc_store fails now obs db = (db', Inr n) \<Longrightarrow> rain_lookup (gd_rain db') = rain_lookup (gd_rain db) ++ eccc_entries obs"
  "eccc_store fails now obs db = (db', Inr n) \<Longrightarrow> h \<in> set obs \<Longrightarrow> depth_fits (hp_MM h)"
  by (auto simp: eccc_store_def eccc_entries_def dest!: store_hours_lookup split: if_splits option.splits sum.splits)

lemma eccc_store_error: "eccc_store fails now obs db = (db', Inl e) \<Longrightarrow> db' = db"
  by (auto simp: eccc_store_def split: if_splits option.splits sum.splits)

lemma eccc_entries_member: "h \<in> set obs \<Longrightarrow> \<exists>v. eccc_entries obs (eccc_key h) = Some v"
proof -
  assume "h \<in> set obs"
  then have "eccc_key h \<in> dom (eccc_entries obs)" by (simp add: eccc_entries_def dom_map_of_conv_image_fst image_image)
  then show ?thesis by auto
qed

lemma eccc_entries_distinct:
  "distinct (map hp_HourEnd obs) \<Longrightarrow> h \<in> set obs \<Longrightarrow> (\<And>g. g \<in> set obs \<Longrightarrow> hp_Station g = st) \<Longrightarrow> eccc_entries obs (eccc_key h) = Some (3600, numeric2 (hp_MM h))"
proof -
  assume d: "distinct (map hp_HourEnd obs)" and h: "h \<in> set obs" and st: "\<And>g. g \<in> set obs \<Longrightarrow> hp_Station g = st"
  have "distinct (map (\<lambda>h. fst (eccc_key h, (3600 :: int, numeric2 (hp_MM h)))) obs)"
    using d by (simp add: distinct_map eccc_key_def inj_on_def)
  then have "distinct (map fst (rev (map (\<lambda>h. (eccc_key h, (3600 :: int, numeric2 (hp_MM h)))) obs)))"
    by (simp add: rev_map [symmetric] comp_def)
  then show ?thesis unfolding eccc_entries_def using h by (intro map_of_is_SomeI) auto
qed

text \<open>
  C38: A successful poll leaves in the rainfall table, for every hour the service reported in the window, its last reported amount over that hour, and no other entry
  is touched. Polling the same answers again succeeds and leaves every entry as it is; and if the answers report no hour twice, it writes nothing and notifies
  nobody. (An hour reported twice with different amounts is rewritten, and notified, by every poll.) A failed poll, wherever it failed, leaves the database as it was.
\<close>

theorem poll_mirrors_service:
  assumes "PollOnce parse_url decode answer fails c cfg now from_ts to_ts db = (db', r)"
  shows "case r of
      Inl e \<Rightarrow> db' = db
    | Inr n \<Rightarrow> \<exists>obs skipped. Hourly parse_url decode answer c (ec_Station cfg) from_ts to_ts = Inr (obs, skipped)
        \<and> rain_lookup (gd_rain db') = rain_lookup (gd_rain db) ++ eccc_entries obs
        \<and> (\<exists>db'' k. PollOnce parse_url decode answer (\<lambda>_. None) c cfg later from_ts to_ts db' = (db'', Inr k) \<and> rain_lookup (gd_rain db'') = rain_lookup (gd_rain db'))
        \<and> (distinct (map hp_HourEnd obs) \<longrightarrow> PollOnce parse_url decode answer (\<lambda>_. None) c cfg later from_ts to_ts db' = (db', Inr 0))"
proof (cases r)
  case (Inl e)
  then show ?thesis using assms by (auto simp: PollOnce_def dest: eccc_store_error split: sum.splits)
next
  case (Inr n)
  obtain obs skipped where h: "Hourly parse_url decode answer c (ec_Station cfg) from_ts to_ts = Inr (obs, skipped)"
    and st: "eccc_store fails now obs db = (db', Inr n)"
    using assms Inr by (auto simp: PollOnce_def split: sum.splits)
  note hours = Hourly_hours [OF h]
  have lookup: "rain_lookup (gd_rain db') = rain_lookup (gd_rain db) ++ eccc_entries obs" by (rule eccc_store_lookup(1) [OF st])
  have "eccc_store (\<lambda>_. None) later obs db' = (db', Inr 0)" if d: "distinct (map hp_HourEnd obs)"
  proof -
    have "rain_lookup (gd_rain db') (eccc_key g) = Some (3600, numeric2 (hp_MM g)) \<and> 0 \<le> hp_MM g \<and> depth_fits (hp_MM g)" if "g \<in> set obs" for g
      using eccc_entries_distinct [OF d that, of "ec_Station cfg"] hours that eccc_store_lookup(2) [OF st that] by (simp add: lookup map_add_def)
    then have "store_hours (\<lambda>_. None) later obs (gd_rain db', 0, zero_time, zero_time) = Inr (gd_rain db', 0, zero_time, zero_time)"
      by (rule store_hours_unchanged) simp_all
    then show ?thesis by (simp add: eccc_store_def)
  qed
  moreover obtain db'' k where again: "eccc_store (\<lambda>_. None) later obs db' = (db'', Inr k)"
  proof -
    obtain tbl w lo hi where "store_hours (\<lambda>_. None) later obs (gd_rain db', 0, zero_time, zero_time) = Inr (tbl, w, lo, hi)"
      using store_hours_succeeds [of obs "\<lambda>_. None"] hours eccc_store_lookup(2) [OF st] by (metis prod_cases4)
    then have "\<exists>db'' k. eccc_store (\<lambda>_. None) later obs db' = (db'', Inr k)" by (simp add: eccc_store_def)
    then show thesis using that by blast
  qed
  moreover have "rain_lookup (gd_rain db'') = rain_lookup (gd_rain db')"
    unfolding eccc_store_lookup(1) [OF again] lookup by (auto simp: map_add_def fun_eq_iff split: option.split)
  ultimately show ?thesis using Inr h lookup by (auto simp: PollOnce_def)
qed

section \<open>The windows leave no gap\<close>

definition frontier_of :: "instant \<Rightarrow> (instant \<times> instant \<times> bool) list \<Rightarrow> instant" where
  "frontier_of start windows = (case rev (filter (\<lambda>(a, b, ok). ok) windows) of [] \<Rightarrow> start | (a, b, ok) # _ \<Rightarrow> b)"

lemma frontier_of_snoc: "frontier_of start (windows @ [(a, b, ok)]) = (if ok then b else frontier_of start windows)"
  by (simp add: frontier_of_def)

text \<open>Everything from the start of the backfill to the frontier was asked for by a poll that succeeded, and the next window begins no later than the frontier.\<close>

definition windows_inv :: "instant \<Rightarrow> eccc_run \<Rightarrow> bool" where
  "windows_inv start s \<longleftrightarrow> er_from s \<le> frontier_of start (er_log s)
     \<and> (\<forall>t. start < t \<and> t \<le> frontier_of start (er_log s) \<longrightarrow> (\<exists>a b. (a, b, True) \<in> set (er_log s) \<and> a < t \<and> t \<le> b))"

definition hour_stored :: "string \<Rightarrow> instant \<Rightarrow> gauge_db \<Rightarrow> bool" where
  "hour_stored station hour_end db \<longleftrightarrow> (\<exists>v. rain_lookup (gd_rain db) (SourceECCC, station, hour_end - hour) = Some v)"

definition stored_inv :: "string \<Rightarrow> instant \<Rightarrow> eccc_run \<Rightarrow> bool" where
  "stored_inv station hour_end s \<longleftrightarrow> (\<forall>a b. (a, b, True) \<in> set (er_log s) \<and> a < hour_end \<and> hour_end \<le> b \<longrightarrow> hour_stored station hour_end (er_db s))"

text \<open>The outcomes of a turn.\<close>

lemma turn_cases:
  obtains (stopped) "eccc_turn parse_url decode c cfg (now, answer, fails) s = s"
  | (failed) s' where "eccc_turn parse_url decode c cfg (now, answer, fails) s = s'" and "er_log s' = er_log s @ [(er_from s, now, False)]"
      and "er_from s' = er_from s" and "er_db s' = er_db s"
  | (polled) s' obs skipped where "eccc_turn parse_url decode c cfg (now, answer, fails) s = s'" and "er_log s' = er_log s @ [(er_from s, now, True)]"
      and "er_from s' = now - ec_Lookback cfg" and "Hourly parse_url decode answer c (ec_Station cfg) (er_from s) now = Inr (obs, skipped)"
      and "rain_lookup (gd_rain (er_db s')) = rain_lookup (gd_rain (er_db s)) ++ eccc_entries obs"
proof (cases "er_stopped s")
  case True
  then show thesis by (intro stopped) (simp add: eccc_turn_def)
next
  case False
  obtain db' r where poll: "PollOnce parse_url decode answer fails c cfg now (er_from s) now (er_db s) = (db', r)" by (metis surj_pair)
  show thesis
  proof (cases r)
    case (Inl e)
    have "db' = er_db s" using poll Inl by (auto simp: PollOnce_def dest: eccc_store_error split: sum.splits)
    then show thesis using False poll Inl by (intro failed [OF refl]) (simp_all add: eccc_turn_def)
  next
    case (Inr n)
    obtain obs skipped where h: "Hourly parse_url decode answer c (ec_Station cfg) (er_from s) now = Inr (obs, skipped)"
      and st: "eccc_store fails now obs (er_db s) = (db', Inr n)"
      using poll Inr by (auto simp: PollOnce_def split: sum.splits)
    show thesis using False poll Inr eccc_store_lookup(1) [OF st] by (intro polled [OF refl _ _ h]) (simp_all add: eccc_turn_def)
  qed
qed

lemma turn_windows:
  assumes "windows_inv start s" and "0 \<le> ec_Lookback cfg"
  shows "windows_inv start (eccc_turn parse_url decode c cfg turn s)"
proof -
  obtain now answer fails where turn: "turn = (now, answer, fails)" by (metis prod_cases3)
  show ?thesis
    unfolding turn
  proof (rule turn_cases [of parse_url decode c cfg now answer fails s])
    fix s' obs skipped
    assume t: "eccc_turn parse_url decode c cfg (now, answer, fails) s = s'" "er_log s' = er_log s @ [(er_from s, now, True)]" "er_from s' = now - ec_Lookback cfg"
    have "\<exists>a b. (a, b, True) \<in> set (er_log s') \<and> a < x \<and> x \<le> b" if "start < x" "x \<le> now" for x
    proof (cases "x \<le> frontier_of start (er_log s)")
      case True
      then show ?thesis using assms(1) that t(2) by (fastforce simp: windows_inv_def)
    next
      case False
      then have "er_from s < x" using assms(1) by (simp add: windows_inv_def)
      then show ?thesis using that t(2) by auto
    qed
    then show "windows_inv start (eccc_turn parse_url decode c cfg (now, answer, fails) s)"
      unfolding t(1) windows_inv_def using assms(2) t(2,3) by (simp add: frontier_of_snoc)
  qed (use assms(1) in \<open>auto simp: windows_inv_def frontier_of_snoc\<close>)
qed

lemma turn_stored:
  assumes "stored_inv (ec_Station cfg) hour_end s"
    and "\<And>f t obs n. Hourly parse_url decode answer c (ec_Station cfg) f t = Inr (obs, n) \<Longrightarrow> f < hour_end \<Longrightarrow> hour_end \<le> t \<Longrightarrow> hour_end \<in> hp_HourEnd ` set obs"
  shows "stored_inv (ec_Station cfg) hour_end (eccc_turn parse_url decode c cfg (now, answer, fails) s)"
proof (rule turn_cases [of parse_url decode c cfg now answer fails s])
  fix s' obs skipped
  assume t: "eccc_turn parse_url decode c cfg (now, answer, fails) s = s'" "er_log s' = er_log s @ [(er_from s, now, True)]"
    and h: "Hourly parse_url decode answer c (ec_Station cfg) (er_from s) now = Inr (obs, skipped)"
    and db: "rain_lookup (gd_rain (er_db s')) = rain_lookup (gd_rain (er_db s)) ++ eccc_entries obs"
  have keep: "hour_stored st e (er_db s) \<Longrightarrow> hour_stored st e (er_db s')" for st e
    unfolding hour_stored_def db map_add_def by (auto split: option.split)
  have "hour_stored (ec_Station cfg) hour_end (er_db s')" if inside: "er_from s < hour_end" "hour_end \<le> now"
  proof -
    obtain g where g: "g \<in> set obs" "hp_HourEnd g = hour_end" using assms(2) [OF h inside] by auto
    then have "eccc_key g = (SourceECCC, ec_Station cfg, hour_end - hour)" using Hourly_hours [OF h g(1)] by (simp add: eccc_key_def)
    then show ?thesis using eccc_entries_member [OF g(1)] unfolding hour_stored_def db map_add_def by force
  qed
  then show "stored_inv (ec_Station cfg) hour_end (eccc_turn parse_url decode c cfg (now, answer, fails) s)"
    unfolding t(1) using assms(1) keep t(2) by (auto simp: stored_inv_def)
qed (use assms(1) in \<open>auto simp: stored_inv_def\<close>)

text \<open>
  C37: The poller misses no hour. With a configuration the service accepts, whatever polls failed before, once a poll has succeeded every hour from the start of
  the backfill to that poll that the service reports when asked for it is in the rainfall table: a failed window is asked for again and the next one overlaps the last.
\<close>

theorem poller_misses_no_hour:
  assumes "check_eccc cfg = None" and "ec_Enabled cfg" and "s = eccc_Run parse_url decode c cfg start turns db" and "er_log s = earlier @ [(from_ts, to_ts, True)]"
    and "start - ec_Backfill cfg < hour_end" and "hour_end \<le> to_ts"
    and reported: "\<And>now answer fails f t obs n. (now, answer, fails) \<in> set turns \<Longrightarrow> Hourly parse_url decode answer c (ec_Station cfg) f t = Inr (obs, n) \<Longrightarrow>
        f < hour_end \<Longrightarrow> hour_end \<le> t \<Longrightarrow> hour_end \<in> hp_HourEnd ` set obs"
  shows "\<exists>mm. rain_lookup (gd_rain (er_db s)) (SourceECCC, ec_Station cfg, hour_end - hour) = Some mm"
proof -
  let ?start = "start - ec_Backfill cfg"
  have look: "0 \<le> ec_Lookback cfg" using assms(1,2) by (auto simp: check_eccc_def go_time split: if_splits)
  have inv: "windows_inv ?start s0 \<and> stored_inv (ec_Station cfg) hour_end s0 \<Longrightarrow> set ts \<subseteq> set turns \<Longrightarrow>
      windows_inv ?start (fold (eccc_turn parse_url decode c cfg) ts s0) \<and> stored_inv (ec_Station cfg) hour_end (fold (eccc_turn parse_url decode c cfg) ts s0)" for ts s0
  proof (induction ts arbitrary: s0)
    case (Cons turn ts)
    obtain now answer fails where turn: "turn = (now, answer, fails)" by (metis prod_cases3)
    have "windows_inv ?start (eccc_turn parse_url decode c cfg turn s0)" using turn_windows look Cons.prems(1) by blast
    moreover have "stored_inv (ec_Station cfg) hour_end (eccc_turn parse_url decode c cfg turn s0)"
      unfolding turn using reported Cons.prems turn by (intro turn_stored) auto
    ultimately show ?case using Cons.IH Cons.prems(2) by simp
  qed simp
  have "windows_inv ?start s" "stored_inv (ec_Station cfg) hour_end s"
    unfolding assms(3) eccc_Run_def by (rule conjunct1 [OF inv] conjunct2 [OF inv]; simp add: windows_inv_def stored_inv_def frontier_of_def)+
  moreover have "frontier_of ?start (er_log s) = to_ts" by (simp add: assms(4) frontier_of_snoc)
  ultimately show ?thesis using assms(5,6) unfolding windows_inv_def stored_inv_def hour_stored_def by metis
qed

section \<open>The importer feeds the simulator\<close>

lemma load_or_new_ok:
  assumes "load_or_new unmarshal F disk path station = Inr f" and "\<And>g. cache_Load unmarshal F disk path = Inr g \<Longrightarrow> cache_ok g"
  shows "cache_ok f \<and> rc_Version f = cache_version"
proof -
  have "cache_Load unmarshal F disk path = Inr f \<or> f = cache_New station"
    using assms(1) by (auto simp: load_or_new_def split: sum.splits cache_error.splits bool.splits)
  then show ?thesis
    using assms(2) cache_New_ok by (auto simp: cache_New_def cache_Load_def split: option.splits sum.splits if_splits)
qed

lemma total_foldl: "foldl (\<lambda>t h. t + hr_MM h) a hs = a + (\<Sum>h \<leftarrow> hs. hr_MM h)"
  by (induction hs arbitrary: a) simp_all

definition import_path :: "import_args \<Rightarrow> string" where
  "import_path args = (if ia_out args = '''' then DefaultPath (ia_station args) else ia_out args)"

definition import_fetch :: "instant \<Rightarrow> instant \<Rightarrow> instant \<Rightarrow> import_args \<Rightarrow> nat \<Rightarrow> rain_fetch" where
  "import_fetch from_ts to_ts now args skipped =
     \<lparr>rw_From = from_ts, rw_To = to_ts, rw_FetchedAt = now, rw_URL = ia_url args @ ''/collections/climate-hourly/items'', rw_Hours = 0, rw_Skipped = int skipped\<rparr>"

lemma runECCC_ok:
  assumes "runECCC parse_url decode answer marshal unmarshal F now args disk = (disk', Inr summary)"
  obtains from_ts to_ts f c obs skipped f' where "ParseTime (ia_from args) = Some from_ts" and "ParseTime (ia_to args) = Some to_ts"
    and "load_or_new unmarshal F disk (import_path args) (ia_station args) = Inr f" and "NewECCCClient parse_url (ia_url args) 500 = Inr c"
    and "Hourly parse_url decode answer c (ia_station args) from_ts to_ts = Inr (obs, skipped)"
    and "cache_Merge (import_fetch from_ts to_ts now args skipped) (map (\<lambda>p. \<lparr>rh_End = hp_HourEnd p, rh_MM = hp_MM p\<rparr>) obs) f = Inr f'"
    and "cache_Write marshal F (import_path args) f' disk = (disk', None)" and "summary = summarise from_ts to_ts skipped (cache_Window f' from_ts to_ts)"
  using assms
  by (auto simp: runECCC_def import_path_def [symmetric] import_fetch_def Let_def split: option.splits if_splits sum.splits prod.splits)

text \<open>
  C40: The rain the importer reports is the rain the simulator replays. After a successful import of an hourly collection over whole hours, into a cache that is
  new or in order, the simulator started for the same window, if it can read the saved file, finds it covered and builds a valid scenario whose total is the sum of the hours the service
  returned, which is the total the importer printed.
\<close>

theorem import_then_replay:
  assumes codec: "\<And>f b. marshal f = Inr b \<Longrightarrow> unmarshal (b @ [CHR 0x0A]) = Inr f"
    and run: "runECCC parse_url decode answer marshal unmarshal F now args disk = (disk', Inr summary)"
    and old: "\<And>f. cache_Load unmarshal F disk (import_path args) = Inr f \<Longrightarrow> cache_ok f" and readable: "\<not> os_read G (import_path args)"
    and hourly: "\<And>c f t obs n h. NewECCCClient parse_url (ia_url args) 500 = Inr c \<Longrightarrow> Hourly parse_url decode answer c (ia_station args) f t = Inr (obs, n) \<Longrightarrow> h \<in> set obs \<Longrightarrow> hp_HourEnd h mod hour = 0"
    and whole_hours: "\<And>t. ParseTime (ia_from args) = Some t \<or> ParseTime (ia_to args) = Some t \<Longrightarrow> t mod hour = 0"
  shows "\<exists>s from_ts to_ts c obs n. ParseTime (ia_from args) = Some from_ts \<and> ParseTime (ia_to args) = Some to_ts
    \<and> observedRain unmarshal G disk' (ia_out args) (ia_station args) (ia_from args) (ia_to args) = Inr (s, from_ts)
    \<and> NewECCCClient parse_url (ia_url args) 500 = Inr c \<and> Hourly parse_url decode answer c (ia_station args) from_ts to_ts = Inr (obs, n)
    \<and> RainTotal s = (\<Sum>h \<leftarrow> obs. hp_MM h) \<and> is_total summary = (\<Sum>h \<leftarrow> obs. hp_MM h) \<and> scenario_validate s = None"
proof -
  obtain from_ts to_ts f c obs skipped f' where t: "ParseTime (ia_from args) = Some from_ts" "ParseTime (ia_to args) = Some to_ts"
    and ld: "load_or_new unmarshal F disk (import_path args) (ia_station args) = Inr f" and cl: "NewECCCClient parse_url (ia_url args) 500 = Inr c"
    and h: "Hourly parse_url decode answer c (ia_station args) from_ts to_ts = Inr (obs, skipped)"
    and mg: "cache_Merge (import_fetch from_ts to_ts now args skipped) (map (\<lambda>p. \<lparr>rh_End = hp_HourEnd p, rh_MM = hp_MM p\<rparr>) obs) f = Inr f'"
    and wr: "cache_Write marshal F (import_path args) f' disk = (disk', None)" and summ: "summary = summarise from_ts to_ts skipped (cache_Window f' from_ts to_ts)"
    by (rule runECCC_ok [OF run])
  let ?fetch = "import_fetch from_ts to_ts now args skipped" and ?hours = "map (\<lambda>p. \<lparr>rh_End = hp_HourEnd p, rh_MM = hp_MM p\<rparr>) obs"
  have w [simp]: "rw_From ?fetch = from_ts" "rw_To ?fetch = to_ts" by (simp_all add: import_fetch_def)
  have ok: "cache_ok f" "rc_Version f = cache_version" using load_or_new_ok [OF ld old] by simp_all
  have "\<exists>s. observedRain unmarshal G disk' (ia_out args) (ia_station args) (ia_from args) (ia_to args) = Inr (s, rw_From ?fetch)
      \<and> RainTotal s = (\<Sum>h \<leftarrow> ?hours. rh_MM h) \<and> scenario_validate s = None"
    by (rule import_replay_total [where marshal = marshal, OF _ ok mg wr readable])
      (use codec t whole_hours hourly [OF cl h] in \<open>auto simp: import_path_def\<close>)
  moreover have "is_total summary = (\<Sum>h \<leftarrow> obs. hp_MM h)"
    using window_of_fetch [OF ok(1) mg] by (simp add: summ summarise_def total_foldl multiset.map_comp comp_def sum_mset_sum_list [symmetric])
  ultimately show ?thesis using cl h t by (auto simp: comp_def)
qed

section \<open>A concrete service\<close>

definition demo_url :: url where
  "demo_url = \<lparr>u_Scheme = ''https'', u_Host = ''api'', u_Path = '''', u_Query = []\<rparr>"

definition demo_client :: eccc_client where
  "demo_client = \<lparr>cl_base = demo_url, cl_pageSize = 500, cl_maxPages = 100\<rparr>"

definition demo_parse_url :: "string \<Rightarrow> url option" where
  "demo_parse_url s = Some demo_url"

text \<open>Two pages; the second has an hour of another station and one without an amount.\<close>

definition demo_page :: "string \<Rightarrow> feature_collection" where
  "demo_page body =
     (if body = ''1'' then \<lparr>fc_Features = [\<lparr>ft_ClimateIdentifier = ''7'', ft_UTCDate = ''1970-01-01T01:00:00'', ft_PrecipAmount = Some 2, ft_PrecipFlag = None\<rparr>],
          fc_Links = [\<lparr>lk_Rel = ''self'', lk_Href = ''''\<rparr>, \<lparr>lk_Rel = ''next'', lk_Href = ''elsewhere''\<rparr>]\<rparr>
      else \<lparr>fc_Features = [\<lparr>ft_ClimateIdentifier = ''8'', ft_UTCDate = '''', ft_PrecipAmount = None, ft_PrecipFlag = None\<rparr>,
            \<lparr>ft_ClimateIdentifier = ''7'', ft_UTCDate = ''1970-01-01T02:00:00'', ft_PrecipAmount = None, ft_PrecipFlag = None\<rparr>,
            \<lparr>ft_ClimateIdentifier = ''7'', ft_UTCDate = ''1970-01-01T03:00:00'', ft_PrecipAmount = Some 3, ft_PrecipFlag = None\<rparr>], fc_Links = []\<rparr>)"

definition demo_decode :: "string \<Rightarrow> string + feature_collection" where
  "demo_decode body = Inr (demo_page body)"

definition demo_answer :: "nat \<Rightarrow> url \<Rightarrow> http_answer" where
  "demo_answer page u = (if u_Host u \<noteq> ''api'' then NoAnswer ''unknown host'' else if page = 0 then Answer 200 ''1'' else Answer 200 ''2'')"

definition demo_obs :: "hourly_precip list" where
  "demo_obs = [\<lparr>hp_Station = ''7'', hp_HourEnd = hour, hp_MM = 2\<rparr>, \<lparr>hp_Station = ''7'', hp_HourEnd = 3 * hour, hp_MM = 3\<rparr>]"

lemma demo_stamps:
  "parse_seconds_layout ''1970-01-01T01:00:00'' = Some hour" "parse_seconds_layout ''1970-01-01T02:00:00'' = Some (2 * hour)"
  "parse_seconds_layout ''1970-01-01T03:00:00'' = Some (3 * hour)"
  by (simp_all add: parse_seconds_layout_def whole_def bind_read_def read_stamp_def read_date_def read_clock_def read_fraction_def year4_def parse_uint_def
      digit_val_def getnum_def in_range_def read_char_def done_read_def Date_UTC_def days_of_date_def days_before_year_def daysIn_def zero_time_def
      day_length_def go_time)

lemma demo_fetch_pages:
  "fetch_pages demo_parse_url demo_decode demo_answer demo_client (cl_maxPages demo_client) 0 (Some (first_request demo_client ''7'' from_ts to_ts))
    = Some [demo_page ''1'', demo_page ''2'']"
proof -
  have first: "u_Host (first_request demo_client ''7'' from_ts to_ts) = ''api''"
    using first_request_on_base [of demo_client "''7''" from_ts to_ts] by (simp add: on_base_def demo_client_def demo_url_def)
  have get: "eccc_get demo_decode (demo_answer page) u = Inr (demo_page (if page = 0 then ''1'' else ''2''))" if "u_Host u = ''api''" for page u
    using that by (simp add: eccc_get_def demo_answer_def demo_decode_def)
  have base: "u_Host (cl_base demo_client) = ''api''" by (simp add: demo_client_def demo_url_def)
  have links: "fc_Links (demo_page ''2'') = []" "fc_Links (demo_page ''1'') = [\<lparr>lk_Rel = ''self'', lk_Href = ''''\<rparr>, \<lparr>lk_Rel = ''next'', lk_Href = ''elsewhere''\<rparr>]"
    by (simp_all add: demo_page_def)
  have "fetch_pages demo_parse_url demo_decode demo_answer demo_client (Suc (Suc n)) 0 (Some (first_request demo_client ''7'' from_ts to_ts))
    = Some [demo_page ''1'', demo_page ''2'']" for n
    by (simp add: get first base links demo_parse_url_def Let_def)
  from this [of 98] show ?thesis by (simp add: demo_client_def)
qed

lemma demo_features:
  "concat (map fc_Features [demo_page ''1'', demo_page ''2'']) = fc_Features (demo_page ''1'') @ fc_Features (demo_page ''2'')"
  "dates_ok ''7'' (fc_Features (demo_page ''1'') @ fc_Features (demo_page ''2''))"
  by (auto simp: dates_ok_def demo_page_def demo_stamps)

lemma demo_hourly_any:
  "Hourly demo_parse_url demo_decode demo_answer demo_client ''7'' from_ts to_ts
    = Inr (List.map_filter (hour_of ''7'' from_ts to_ts) (fc_Features (demo_page ''1'') @ fc_Features (demo_page ''2'')),
           missing_hours ''7'' from_ts to_ts (fc_Features (demo_page ''1'') @ fc_Features (demo_page ''2'')))"
  unfolding Hourly_def pages_loop_Inr demo_fetch_pages using demo_features by (simp add: Let_def)

lemma demo_hourly: "Hourly demo_parse_url demo_decode demo_answer demo_client ''7'' 0 (24 * hour) = Inr (demo_obs, 1)"
  unfolding demo_hourly_any
  by (simp add: List.map_filter_def missing_hours_def demo_page_def hour_of_def hour_reported_def has_amount_def demo_stamps demo_obs_def go_time)

theorem hourly_reads_all_pages_witness:
  "List.map_filter (hour_of ''7'' 0 (24 * hour)) (fc_Features (demo_page ''1'') @ fc_Features (demo_page ''2'')) = demo_obs
   \<and> Hourly demo_parse_url demo_decode (\<lambda>page u. if u_Host u = ''evil'' then Answer 200 ''1'' else demo_answer page u) demo_client ''7'' 0 (24 * hour) = Inr (demo_obs, 1)"
proof -
  have "u_Host (cl_base demo_client) = ''api''" by (simp add: demo_client_def demo_url_def)
  then have "\<forall>page u. page < cl_maxPages demo_client \<and> on_base demo_client u \<longrightarrow> (if u_Host u = ''evil'' then Answer 200 ''1'' else demo_answer page u) = demo_answer page u"
    by (simp add: on_base_def)
  then have "Hourly demo_parse_url demo_decode (\<lambda>page u. if u_Host u = ''evil'' then Answer 200 ''1'' else demo_answer page u) demo_client ''7'' 0 (24 * hour) = Inr (demo_obs, 1)"
    using hourly_reads_all_pages [of demo_parse_url demo_decode demo_answer demo_client "''7''" 0 "24 * hour" demo_obs 1] by (simp add: demo_hourly)
  moreover have "List.map_filter (hour_of ''7'' 0 (24 * hour)) (fc_Features (demo_page ''1'') @ fc_Features (demo_page ''2'')) = demo_obs"
    by (simp add: List.map_filter_def demo_page_def hour_of_def hour_reported_def has_amount_def demo_stamps demo_obs_def go_time)
  ultimately show ?thesis by simp
qed

definition demo_eccc :: eccc_config where
  "demo_eccc = DefaultECCCConfig\<lparr>ec_Station := ''7''\<rparr>"

definition demo_rain_db :: gauge_db where
  "demo_rain_db = \<lparr>gd_uplinks = [], gd_rain = [], gd_notes = []\<rparr>"

lemma demo_depths:
  assumes "Hourly demo_parse_url demo_decode demo_answer demo_client ''7'' from_ts to_ts = Inr (obs, skipped)" and "h \<in> set obs"
  shows "depth_fits (hp_MM h)"
proof -
  have mem: "h \<in> set (List.map_filter f xs) \<Longrightarrow> \<exists>x \<in> set xs. f x = Some h" for f and xs :: "eccc_feature list"
    by (induction xs) (auto simp: List.map_filter_simps split: option.splits)
  have "h \<in> set (List.map_filter (hour_of ''7'' from_ts to_ts) (fc_Features (demo_page ''1'') @ fc_Features (demo_page ''2'')))"
    using assms unfolding demo_hourly_any by simp
  from mem [OF this] show ?thesis
    by (auto simp: demo_page_def hour_of_def has_amount_def depth_fits_def numeric2_def split: if_splits option.splits)
qed

lemma demo_poll:
  obtains db' n where "PollOnce demo_parse_url demo_decode demo_answer (\<lambda>_. None) demo_client demo_eccc now from_ts to_ts db = (db', Inr n)"
proof -
  obtain obs skipped where h: "Hourly demo_parse_url demo_decode demo_answer demo_client ''7'' from_ts to_ts = Inr (obs, skipped)" using demo_hourly_any by blast
  obtain tbl w lo hi where "store_hours (\<lambda>_. None) now obs (gd_rain db, 0, zero_time, zero_time) = Inr (tbl, w, lo, hi)"
    using store_hours_succeeds [of obs "\<lambda>_. None"] Hourly_hours [OF h] demo_depths [OF h] by (metis prod_cases4)
  then have "\<exists>db' n. eccc_store (\<lambda>_. None) now obs db = (db', Inr n)" by (simp add: eccc_store_def)
  then obtain db' n where st: "eccc_store (\<lambda>_. None) now obs db = (db', Inr n)" by blast
  have "ec_Station demo_eccc = ''7''" by (simp add: demo_eccc_def)
  then show thesis by (intro that [of db' n]) (simp add: PollOnce_def h st)
qed

theorem poll_mirrors_service_witness:
  "\<exists>db'. rain_lookup (gd_rain db') (SourceECCC, ''7'', 0) = Some (3600, 2)
    \<and> PollOnce demo_parse_url demo_decode demo_answer (\<lambda>_. None) demo_client demo_eccc (25 * hour) 0 (24 * hour) db' = (db', Inr 0)"
proof -
  obtain db' n where poll: "PollOnce demo_parse_url demo_decode demo_answer (\<lambda>_. None) demo_client demo_eccc (24 * hour) 0 (24 * hour) demo_rain_db = (db', Inr n)"
    by (rule demo_poll)
  have st: "ec_Station demo_eccc = ''7''" by (simp add: demo_eccc_def)
  have "distinct (map hp_HourEnd demo_obs)" "eccc_entries demo_obs (SourceECCC, ''7'', 0) = Some (3600, 2)"
    by (simp_all add: demo_obs_def eccc_entries_def eccc_key_def numeric2_def go_time)
  then show ?thesis
    using poll_mirrors_service [OF poll, of "25 * hour"] by (auto simp: st demo_hourly map_add_def intro!: exI [of _ db'])
qed

theorem poller_misses_no_hour_witness:
  "\<exists>mm. rain_lookup (gd_rain (er_db (eccc_Run demo_parse_url demo_decode demo_client demo_eccc (24 * hour) [(24 * hour, demo_answer, \<lambda>_. None)] demo_rain_db)))
     (SourceECCC, ''7'', 2 * hour) = Some mm"
proof -
  let ?s = "eccc_Run demo_parse_url demo_decode demo_client demo_eccc (24 * hour) [(24 * hour, demo_answer, \<lambda>_. None)] demo_rain_db"
  have cfg: "ec_Station demo_eccc = ''7''" "check_eccc demo_eccc = None" "ec_Enabled demo_eccc" "24 * hour - ec_Backfill demo_eccc < 3 * hour"
    by (simp_all add: demo_eccc_def DefaultECCCConfig_def check_eccc_def go_time)
  obtain db' n where "PollOnce demo_parse_url demo_decode demo_answer (\<lambda>_. None) demo_client demo_eccc (24 * hour) (24 * hour - ec_Backfill demo_eccc) (24 * hour) demo_rain_db = (db', Inr n)"
    by (rule demo_poll)
  then have "er_log ?s = [] @ [(24 * hour - ec_Backfill demo_eccc, 24 * hour, True)]" by (simp add: eccc_Run_def eccc_turn_def)
  moreover have "3 * hour \<in> hp_HourEnd ` set obs"
    if "Hourly demo_parse_url demo_decode demo_answer demo_client ''7'' f t = Inr (obs, k)" and inside: "f < 3 * hour" "3 * hour \<le> t" for f t obs k
  proof -
    have "hour_of ''7'' f t (fc_Features (demo_page ''2'') ! 2) = Some \<lparr>hp_Station = ''7'', hp_HourEnd = 3 * hour, hp_MM = 3\<rparr>"
      using inside by (simp add: hour_of_def hour_reported_def has_amount_def demo_page_def demo_stamps)
    moreover have "fc_Features (demo_page ''2'') ! 2 \<in> set (fc_Features (demo_page ''2''))" by (simp add: demo_page_def)
    ultimately have "\<lparr>hp_Station = ''7'', hp_HourEnd = 3 * hour, hp_MM = 3\<rparr> \<in> set obs"
      using that(1) unfolding demo_hourly_any by (force simp: List.map_filter_def)
    then show ?thesis by force
  qed
  ultimately have "\<exists>mm. rain_lookup (gd_rain (er_db ?s)) (SourceECCC, ec_Station demo_eccc, 3 * hour - hour) = Some mm"
    using cfg by (intro poller_misses_no_hour [OF cfg(2,3) refl, of _ _ _ _ _ _ "[]"]) (auto simp: go_time)
  then show ?thesis by (simp add: cfg)
qed

definition demo_args :: import_args where
  "demo_args = \<lparr>ia_from = ''1970-01-01'', ia_to = ''1970-01-02'', ia_station = ''7'', ia_url = ''https://api'', ia_out = ''rain.json''\<rparr>"

definition demo_import :: rain_file where
  "demo_import = (cache_New ''7'')\<lparr>rc_Hours := [\<lparr>rh_End = hour, rh_MM = 2\<rparr>, \<lparr>rh_End = 3 * hour, rh_MM = 3\<rparr>],
     rc_Fetches := [(import_fetch 0 (24 * hour) 0 demo_args 1)\<lparr>rw_Hours := 2\<rparr>]\<rparr>"

definition import_marshal :: "rain_file \<Rightarrow> string + string" where
  "import_marshal f = (if f = demo_import then Inr ''{}'' else Inl ''unsupported'')"

definition import_unmarshal :: "string \<Rightarrow> string + rain_file" where
  "import_unmarshal b = (if b = ''{}'' @ [CHR 0x0A] then Inr demo_import else Inl ''syntax'')"

lemma demo_import_merge:
  "cache_Merge (import_fetch 0 (24 * hour) 0 demo_args 1) (map (\<lambda>p. \<lparr>rh_End = hp_HourEnd p, rh_MM = hp_MM p\<rparr>) demo_obs) (cache_New ''7'') = Inr demo_import"
  by (simp add: cache_Merge_def import_fetch_def demo_obs_def demo_import_def cache_New_def outside_fetch_def go_time Let_def)

lemma demo_import_run:
  obtains summary where "runECCC demo_parse_url demo_decode demo_answer import_marshal import_unmarshal os_fine 0 demo_args Map.empty
    = ([''rain.json'' \<mapsto> ''{}'' @ [CHR 0x0A]], Inr summary)"
proof -
  have client: "NewECCCClient demo_parse_url ''https://api'' 500 = Inr demo_client" by (simp add: NewECCCClient_def demo_parse_url_def demo_client_def demo_url_def)
  have new: "load_or_new import_unmarshal os_fine Map.empty ''rain.json'' ''7'' = Inr (cache_New ''7'')" by (simp add: load_or_new_def cache_Load_def)
  have saved: "cache_Write import_marshal os_fine ''rain.json'' demo_import Map.empty = ([''rain.json'' \<mapsto> ''{}'' @ [CHR 0x0A]], None)"
    by (simp add: cache_Write_def import_marshal_def os_fine_def fun_eq_iff)
  have merge: "cache_Merge \<lparr>rw_From = 0, rw_To = 24 * hour, rw_FetchedAt = 0, rw_URL = ''https://api'' @ ''/collections/climate-hourly/items'', rw_Hours = 0, rw_Skipped = int 1\<rparr>
      (map (\<lambda>p. \<lparr>rh_End = hp_HourEnd p, rh_MM = hp_MM p\<rparr>) demo_obs) (cache_New ''7'') = Inr demo_import"
    using demo_import_merge by (simp add: import_fetch_def demo_args_def)
  have "24 * hour > 0" "rc_Station (cache_New ''7'') = ''7''" by (simp_all add: go_time cache_New_def)
  then show thesis
    by (intro that [of "summarise 0 (24 * hour) 1 (cache_Window demo_import 0 (24 * hour))"])
      (simp add: runECCC_def demo_args_def demo_times client new demo_hourly merge [simplified] saved [simplified])
qed

theorem import_then_replay_witness:
  "\<exists>s. observedRain import_unmarshal os_fine [''rain.json'' \<mapsto> ''{}'' @ [CHR 0x0A]] ''rain.json'' ''7'' ''1970-01-01'' ''1970-01-02'' = Inr (s, 0) \<and> RainTotal s = 5"
proof -
  obtain summary where run: "runECCC demo_parse_url demo_decode demo_answer import_marshal import_unmarshal os_fine 0 demo_args Map.empty
      = ([''rain.json'' \<mapsto> ''{}'' @ [CHR 0x0A]], Inr summary)" by (rule demo_import_run)
  have args: "ia_station demo_args = ''7''" "ia_from demo_args = ''1970-01-01''" "ia_to demo_args = ''1970-01-02''" "ia_out demo_args = ''rain.json''" "ia_url demo_args = ''https://api''"
    by (simp_all add: demo_args_def)
  have client: "NewECCCClient demo_parse_url ''https://api'' 500 = Inr demo_client" by (simp add: NewECCCClient_def demo_parse_url_def demo_client_def demo_url_def)
  have codec: "import_marshal f = Inr b \<Longrightarrow> import_unmarshal (b @ [CHR 0x0A]) = Inr f" for f b
    by (auto simp: import_marshal_def import_unmarshal_def split: if_splits)
  have whole: "hp_HourEnd h mod hour = 0"
    if got: "Hourly demo_parse_url demo_decode demo_answer demo_client ''7'' f t = Inr (obs, n)" "h \<in> set obs" for f t obs n h
  proof -
    have "obs = List.map_filter (hour_of ''7'' f t) (fc_Features (demo_page ''1'') @ fc_Features (demo_page ''2''))" using got(1) unfolding demo_hourly_any by simp
    then have "\<exists>p \<in> set (fc_Features (demo_page ''1'') @ fc_Features (demo_page ''2'')). hour_of ''7'' f t p = Some h"
      using got(2) in_map_filter [of h] by metis
    then obtain p where "p \<in> set (fc_Features (demo_page ''1'') @ fc_Features (demo_page ''2''))" "hour_of ''7'' f t p = Some h" by blast
    then show ?thesis by (auto simp: demo_page_def hour_of_def hour_reported_def demo_stamps go_time split: if_splits)
  qed
  have "\<exists>s from_ts to_ts c obs n. ParseTime (ia_from demo_args) = Some from_ts \<and> ParseTime (ia_to demo_args) = Some to_ts
      \<and> observedRain import_unmarshal os_fine [''rain.json'' \<mapsto> ''{}'' @ [CHR 0x0A]] (ia_out demo_args) (ia_station demo_args) (ia_from demo_args) (ia_to demo_args) = Inr (s, from_ts)
      \<and> NewECCCClient demo_parse_url (ia_url demo_args) 500 = Inr c \<and> Hourly demo_parse_url demo_decode demo_answer c (ia_station demo_args) from_ts to_ts = Inr (obs, n)
      \<and> RainTotal s = (\<Sum>h \<leftarrow> obs. hp_MM h) \<and> is_total summary = (\<Sum>h \<leftarrow> obs. hp_MM h) \<and> scenario_validate s = None"
  proof (rule import_then_replay [where marshal = import_marshal, OF _ run])
    show "import_unmarshal (b @ [CHR 0x0A]) = Inr f" if "import_marshal f = Inr b" for f b using that by (rule codec)
    show "cache_ok f" if "cache_Load import_unmarshal os_fine Map.empty (import_path demo_args) = Inr f" for f using that by (simp add: cache_Load_def)
    show "\<not> os_read os_fine (import_path demo_args)" by (simp add: os_fine_def)
    show "hp_HourEnd h mod hour = 0" if "NewECCCClient demo_parse_url (ia_url demo_args) 500 = Inr c"
      "Hourly demo_parse_url demo_decode demo_answer c (ia_station demo_args) f t = Inr (obs, n)" "h \<in> set obs" for c f t obs n h
      using that whole by (simp add: args client)
    show "t mod hour = 0" if "ParseTime (ia_from demo_args) = Some t \<or> ParseTime (ia_to demo_args) = Some t" for t
      using that by (auto simp: args demo_times)
  qed
  then show ?thesis by (auto simp: args client demo_times demo_hourly) (auto simp: demo_obs_def)
qed

end
