(* ===== verification/Spec2Isabelle.thy ===== *)
theory Spec2Isabelle
  imports Sumpnet_Prelude Codec Hydrology Rows Watermark Detector Alert_Store Alerts Notify Gauge Rain Response Rain_Select Storms Privacy Go_Strings Auth Cursor Gateway_Db Gateway Change_Tracker Hub Bulk_Store Ingest Frames Bridge Sim_Scenario Sim_Home Sim_Gauge Sim_Engine Go_Time Rain_Cache Eccc
begin

text \<open>
  \<^bold>\<open>Sumpnet, verified.\<close> Sumpnet watches the sump pumps of a neighbourhood. Nodes in houses and tipping-bucket rain
  gauges send 11-byte frames over LoRaWAN or Wi-Fi; two bridges decode them and submit them to an ingest service,
  which stores them; services that poll the database classify pump cycles, raise and deliver alerts, derive rainfall,
  find storms and measure how each home responded; a gateway answers queries and pushes changes to browsers.
  This development models those services in the order the data flows, and proves what makes each of them correct.

  \<^bold>\<open>Parts, sources and theories.\<close>

  \<^item> Wire format (\<^verbatim>\<open>internal/codec\<close>): \<^verbatim>\<open>Codec\<close>. One record per payload, marshallers and unmarshallers on bytes, the
    dispatcher. One locale states the contract of a payload and is interpreted for the five; decoding and encoding
    are inverse, and the outcome of decoding is determined by the raw bytes.
  \<^item> Bridges (\<^verbatim>\<open>internal/bridge\<close>, \<^verbatim>\<open>internal/lorabridge\<close>, \<^verbatim>\<open>internal/nodebridge\<close>, \<^verbatim>\<open>internal/chirpstack\<close>): \<^verbatim>\<open>Frames\<close> has the topics, both
    decoders and the conversion to messages; \<^verbatim>\<open>Bridge\<close> has the retrying client over a faulty link, the batchers and
    the process, a step relation over all interleavings of deliveries, flushes, failures, shutdown and crashes. An
    acknowledged packet was dropped, rejected or stored; a healthy shutdown stores all a batcher held, and acknowledges it
    as far as the session is still open; queues are bounded until the bridge stops; retries end.
  \<^item> Ingest (\<^verbatim>\<open>internal/ingest\<close>, \<^verbatim>\<open>internal/store/bulk.go\<close>, \<^verbatim>\<open>internal/store/rows.go\<close>): \<^verbatim>\<open>Ingest\<close> validates messages and runs the four
    batching streams, \<^verbatim>\<open>Bulk_Store\<close> is the bulk insert over any table. Locales state the contract of a conversion
    (\<^verbatim>\<open>row_conversion\<close>), of a table (\<^verbatim>\<open>telemetry_table\<close>), of a store under a stream (\<^verbatim>\<open>sink\<close>) and of a streaming call
    (\<^verbatim>\<open>rpc_service\<close>); each is interpreted on the model of the code that provides it, so that the guarantee of the store
    carries through streams, retries and batchers to the acknowledgement. Validation leaves the stamps of a message
    open: one the columns cannot hold blocks its stream.
  \<^item> Polling consumers (\<^verbatim>\<open>internal/watermark\<close>): \<^verbatim>\<open>Watermark\<close>. Statements, stage transactions, drain loop; a contract locale
    of a stage is interpreted by the services below. Every row is handled exactly once.
  \<^item> Cycle detector (\<^verbatim>\<open>internal/detector\<close>, \<^verbatim>\<open>internal/hydrology/hydrology.go\<close>): \<^verbatim>\<open>Hydrology\<close>, \<^verbatim>\<open>Detector\<close>.
  \<^item> Alerts (\<^verbatim>\<open>internal/alerts\<close> and its statements): \<^verbatim>\<open>Alert_Store\<close>, \<^verbatim>\<open>Alerts\<close>, \<^verbatim>\<open>Notify\<close>. The engine refines an abstract board of
    open conditions; delivery is attempted once per change and settles.
  \<^item> Rain (\<^verbatim>\<open>internal/weather/gauge.go\<close>, \<^verbatim>\<open>internal/hydrology/storm.go\<close>): \<^verbatim>\<open>Gauge\<close>, \<^verbatim>\<open>Rain\<close>. Lost uplinks lose no rain, derived
    rows tile time, storms are maximal.
  \<^item> Storm analytics (\<^verbatim>\<open>internal/storms\<close>, \<^verbatim>\<open>internal/hydrology/response.go\<close>): \<^verbatim>\<open>Response\<close>, \<^verbatim>\<open>Rain_Select\<close>, \<^verbatim>\<open>Storms\<close>.
  \<^item> Gateway (\<^verbatim>\<open>internal/gateway\<close>, \<^verbatim>\<open>internal/auth\<close>, \<^verbatim>\<open>internal/privacy\<close>): \<^verbatim>\<open>Privacy\<close>, \<^verbatim>\<open>Auth\<close>, \<^verbatim>\<open>Cursor\<close>, \<^verbatim>\<open>Gateway_Db\<close>, \<^verbatim>\<open>Gateway\<close>,
    \<^verbatim>\<open>Change_Tracker\<close>, \<^verbatim>\<open>Hub\<close>. Segments below the privacy threshold stay hidden, owners see only what they own, pages
    are complete, live streams follow the hub.
  \<^item> Regional rain (\<^verbatim>\<open>internal/weather/eccc.go\<close>, \<^verbatim>\<open>internal/raincache\<close>, \<^verbatim>\<open>runECCC\<close> of \<^verbatim>\<open>cmd/dataimport\<close>, \<^verbatim>\<open>observedRain\<close> of \<^verbatim>\<open>cmd/simulator\<close>):
    \<^verbatim>\<open>Eccc\<close> is the paging client of the public weather service and the poller, \<^verbatim>\<open>Rain_Cache\<close> the file the importer fills and the
    simulator replays. The client reads the whole chain of pages and stays on its host; the poller misses no hour once a poll
    succeeds; an imported window is replayed with its total.
  \<^item> Simulator (\<^verbatim>\<open>internal/sim\<close>): \<^verbatim>\<open>Sim_Scenario\<close> has random draws, rain, scenarios, segments, sites and the storms of the truth;
    \<^verbatim>\<open>Sim_Home\<close> a house with its pit, pumps, node and battery, one step per virtual second; \<^verbatim>\<open>Sim_Gauge\<close> a tipping bucket;
    \<^verbatim>\<open>Sim_Engine\<close> the neighbourhood, the loop that steps it and publishes, and the truth of a run. Locales state what part of a
    house's work keeps of an invariant. The storms of the truth are those the hydrology finds, the counters of a house are its
    ledger, what a house sends arrives as the row meant, the rainfall derived from a gauge is what fell, a run is the runs of its homes.
  \<^item> Shared: \<^verbatim>\<open>Sumpnet_Prelude\<close> (machine integers, time, results, lists), \<^verbatim>\<open>Rows\<close> (rows of the tables), \<^verbatim>\<open>Go_Strings\<close> and
    \<^verbatim>\<open>Go_Time\<close> (the functions of Go's library on strings and on times as text that the sources call, with their round trips).

  \<^bold>\<open>Conventions.\<close> An instant is an integer number of nanoseconds; a database column holds whole microseconds. Unsigned
  machine integers are words; signed ones are integers with the wrap written out where an operation can leave the
  width. A \<^verbatim>\<open>float64\<close> is a real number: rounding is not modelled, except the fixed-point rounding of \<^verbatim>\<open>numeric\<close> columns.
  Strings are lists of ASCII characters. A statement of a query file is a function on the rows of its tables; a
  transaction is all or nothing; a function of the statement decides whether it fails, so that every error path is a
  branch. \<^verbatim>\<open>sort.Slice\<close> is a stable sort. Row identities are counters. Message texts are constructors with their
  arguments. Libraries that are not in the repository are parameters: the JWT verifier, UUID parsing and naming, the
  JSON codecs, the URL reader, the partition manager, the random generator, the weather service, the operating system's failures. A handler reads the clock once. Goroutines are interleaved as atomic steps
  between their blocking operations. Metrics and logs are left out.
  A commit that reports an error has not happened. The statements of one round of the notifier see one time and one state of
  the table. A difference of times does not saturate, so spans stay below 292 years. The weather service is given by its answer to each
  requested URL; redirects are followed by the library. The instants of the telemetry tables and the depths of the rainfall table are checked against the range
  of their columns; of the storm tables' \<^verbatim>\<open>numeric\<close> columns an overflow is one of the failing statements.

  \<^bold>\<open>Bounds.\<close> Loops are structural or have a termination proof. Three loops carry fuel: the extension of a rain window
  (\<^verbatim>\<open>widen\<close>, the code's own limit of 90 extensions), the pages of the weather service (the code's own limit of 100) and the
  paging client in \<^verbatim>\<open>Gateway\<close> (number of storms plus one, shown to be enough).

  \<^bold>\<open>Not modelled.\<close> The LISTEN connections and tickers, SMTP, HTTP routing, the MQTT session and connection set-up are input
  and output of libraries. Reading configuration from the environment, process wiring in \<^verbatim>\<open>cmd\<close> and \<^verbatim>\<open>internal/platform\<close>,
  migrations, generated code, test infrastructure, the web client. The simulator's MQTT sink, its pacing by the wall clock and its
  hash of the stream. The offline tools (\<^verbatim>\<open>internal/site\<close>, \<^verbatim>\<open>internal/seed\<close>) build maps and demonstration data.
\<close>

end
